(* ===== verification/Prelude.thy ===== *)
theory Prelude
  imports Main "HOL-Library.Multiset" "HOL-Library.Word"
begin

text \<open>
  Shared vocabulary of the development: the result type of a Go call, the error values that
  the sources return, and the generic lemmas on lists and arithmetic that several components use.

  A Go call either returns a value or panics; a call that contains a loop may also fail to
  return at all.  The first is the type \<open>'a go\<close>, the second its lifting \<open>'a go option\<close>, in
  which \<open>None\<close> stands for a call that never returns.
\<close>

named_theorems go_simps \<open>unfolding rules of the Go result types\<close>

section \<open>Calls that may panic, and calls that may not return\<close>

datatype 'a go = Ret 'a | Panic string

definition go_bind :: "'a go \<Rightarrow> ('a \<Rightarrow> 'b go) \<Rightarrow> 'b go" where
  "go_bind m f = (case m of Ret a \<Rightarrow> f a | Panic msg \<Rightarrow> Panic msg)"

lemma go_bind_Ret [simp, go_simps]: "go_bind (Ret a) f = f a"
  by (simp add: go_bind_def)

lemma go_bind_Panic [simp, go_simps]: "go_bind (Panic msg) f = Panic msg"
  by (simp add: go_bind_def)

lemma go_bind_eq_Ret: "go_bind m f = Ret b \<longleftrightarrow> (\<exists>a. m = Ret a \<and> f a = Ret b)"
  by (cases m) auto

definition run_bind :: "'a go option \<Rightarrow> ('a \<Rightarrow> 'b go option) \<Rightarrow> 'b go option" where
  "run_bind m f = Option.bind m (\<lambda>r. case r of Ret a \<Rightarrow> f a | Panic msg \<Rightarrow> Some (Panic msg))"

lemma run_bind_Ret [simp, go_simps]: "run_bind (Some (Ret a)) f = f a"
  by (simp add: run_bind_def)

lemma run_bind_Panic [simp, go_simps]: "run_bind (Some (Panic msg)) f = Some (Panic msg)"
  by (simp add: run_bind_def)

lemma run_bind_None [simp, go_simps]: "run_bind None f = None"
  by (simp add: run_bind_def)

lemma run_bind_eq_Ret:
  "run_bind m f = Some (Ret b) \<longleftrightarrow> (\<exists>a. m = Some (Ret a) \<and> f a = Some (Ret b))"
  by (cases m) (auto simp: run_bind_def split: go.splits)

lemma run_bind_mono [partial_function_mono]:
  assumes "mono_option B" and "\<And>y. mono_option (\<lambda>f. C y f)"
  shows "mono_option (\<lambda>f. run_bind (B f) (\<lambda>y. C y f))"
  unfolding run_bind_def
proof (rule bind_mono [OF assms(1)])
  fix r
  show "mono_option (\<lambda>f. case r of Ret a \<Rightarrow> C a f | Panic msg \<Rightarrow> Some (Panic msg))"
    using assms(2) by (cases r) (auto intro: option.const_mono)
qed

section \<open>Error values\<close>

text \<open>
  \<open>EOF\<close> is the sentinel \<open>sliceio.EOF\<close> and \<open>ErrTypeError\<close> the value \<open>errTypeError\<close> of
  \<open>slice.go\<close>.  An error made by the standard library (\<open>errors.New\<close>, \<open>fmt.Errorf\<close>) is
  \<open>ErrNew\<close> of its message; one made by \<open>errors.E\<close> of \<open>grailbio/base\<close>, which is not part of
  the repository, is the free term \<open>ErrE\<close> of the attributes passed to it.
\<close>

datatype eattr = AFatal | AUnknown | AExists | ANotExist | AInvalid | AIntegrity | ARemote

datatype goerror =
    EOF
  | ErrTypeError
  | ErrNew string
  | ErrE "eattr list" "goerror option"

type_synonym gerr = "goerror option"

section \<open>Printing numbers\<close>

text \<open>The verb \<open>%d\<close> of \<open>fmt\<close> on a number that is not negative.\<close>

fun decimal :: "nat \<Rightarrow> string" where
  "decimal n = (if n < 10 then [char_of (48 + n)] else decimal (n div 10) @ [char_of (48 + n mod 10)])"

declare decimal.simps [simp del]

definition decimal_int :: "int \<Rightarrow> string" where
  "decimal_int n = (if n < 0 then ''-'' @ decimal (nat (- n)) else decimal (nat n))"

text \<open>Digits, and the number that they stand for.\<close>

definition is_digit :: "char \<Rightarrow> bool" where
  "is_digit c \<longleftrightarrow> (48::nat) \<le> of_char c \<and> of_char c \<le> (57::nat)"

fun undec :: "string \<Rightarrow> nat" where
  "undec cs = foldl (\<lambda>a c. 10 * a + (of_char c - 48)) 0 cs"

lemma decimal_digits: "list_all is_digit (decimal n) \<and> decimal n \<noteq> [] \<and> undec (decimal n) = n"
proof (induction n rule: decimal.induct)
  case (1 n)
  have d: "is_digit (char_of (48 + k))" "of_char (char_of (48 + k) :: char) - 48 = k" if "k < 10" for k :: nat
    using that by (simp_all add: is_digit_def of_char_of)
  show ?case
  proof (cases "n < 10")
    case True
    then show ?thesis using d by (subst (1 2 3) decimal.simps) simp
  next
    case False
    have "undec (xs @ [c]) = 10 * undec xs + (of_char c - 48)" for xs c by simp
    with False 1 d [of "n mod 10"] show ?thesis by (subst (1 2 3) decimal.simps) (simp del: undec.simps)
  qed
qed

lemma decimal_inj: "decimal m = decimal n \<Longrightarrow> m = n"
  using decimal_digits by metis

end
