(* ===== verification/GoHeap.thy ===== *)
theory GoHeap
  imports Prelude
begin

text \<open>
  The operations of Go's standard package \<open>container/heap\<close> that the sources call: \<open>Init\<close>,
  \<open>Push\<close>, \<open>Pop\<close>, \<open>Remove\<close> and \<open>Fix\<close>, over the two methods \<open>Less\<close> and \<open>Swap\<close> of a
  \<open>heap.Interface\<close> value.  The locale \<open>heap_interface\<close> states what the package asks of an
  implementation; the heaps of \<open>sortio\<close>, \<open>exec/topn.go\<close> and \<open>exec/slicemachine.go\<close> are
  interpretations of it, and their correctness rests on the lemmas proved here once.
\<close>

named_theorems heap_laws \<open>preservation laws of the heap operations\<close>

section \<open>The operations\<close>

abbreviation parent :: "nat \<Rightarrow> nat" where
  "parent i \<equiv> (i - 1) div 2"

definition swap_list :: "'a list \<Rightarrow> nat \<Rightarrow> nat \<Rightarrow> 'a list" where
  "swap_list xs i j = xs[i := xs ! j, j := xs ! i]"

text \<open>
  \<open>up\<close>: Go's \<open>(j-1)/2\<close> truncates towards zero, so the parent of index 0 is 0 itself; this is
  what \<open>nat\<close> subtraction gives.
\<close>

function heap_up :: "('h \<Rightarrow> nat \<Rightarrow> nat \<Rightarrow> bool) \<Rightarrow> ('h \<Rightarrow> nat \<Rightarrow> nat \<Rightarrow> 'h) \<Rightarrow> 'h \<Rightarrow> nat \<Rightarrow> 'h" where
  "heap_up lessf swp h j =
     (let i = parent j
      in if i = j \<or> \<not> lessf h j i then h else heap_up lessf swp (swp h i j) i)"
  by pat_completeness auto
termination
  by (relation "measure (\<lambda>(lessf, swp, h, j). j)") auto

text \<open>\<open>down\<close> returns the index at which it stopped; Go's result is \<open>i > i0\<close>.\<close>

function heap_down ::
  "('h \<Rightarrow> nat \<Rightarrow> nat \<Rightarrow> bool) \<Rightarrow> ('h \<Rightarrow> nat \<Rightarrow> nat \<Rightarrow> 'h) \<Rightarrow> 'h \<Rightarrow> nat \<Rightarrow> nat \<Rightarrow> 'h \<times> nat" where
  "heap_down lessf swp h i n =
     (let j1 = 2 * i + 1
      in if n \<le> j1 then (h, i)
         else let j2 = j1 + 1; j = (if j2 < n \<and> lessf h j2 j1 then j2 else j1)
              in if \<not> lessf h j i then (h, i) else heap_down lessf swp (swp h i j) j n)"
  by pat_completeness auto
termination
  by (relation "measure (\<lambda>(lessf, swp, h, i, n). n - i)") (auto simp: Let_def split: if_splits)

declare heap_up.simps [simp del] heap_down.simps [simp del]

lemma heap_down_keeps:
  "(\<And>h i j. g (swp h i j) = g h) \<Longrightarrow> g (fst (heap_down lessf swp h i n)) = g h"
proof (induction lessf swp h i n rule: heap_down.induct)
  case (1 lessf swp h i n)
  then show ?case by (subst heap_down.simps) (auto simp: Let_def)
qed

primrec heap_Init_loop ::
  "('h \<Rightarrow> nat \<Rightarrow> nat \<Rightarrow> bool) \<Rightarrow> ('h \<Rightarrow> nat \<Rightarrow> nat \<Rightarrow> 'h) \<Rightarrow> nat \<Rightarrow> 'h \<Rightarrow> nat \<Rightarrow> 'h" where
  "heap_Init_loop lessf swp 0 h n = h"
| "heap_Init_loop lessf swp (Suc i) h n =
     heap_Init_loop lessf swp i (fst (heap_down lessf swp h i n)) n"

definition heap_Init ::
  "('h \<Rightarrow> nat \<Rightarrow> nat \<Rightarrow> bool) \<Rightarrow> ('h \<Rightarrow> nat \<Rightarrow> nat \<Rightarrow> 'h) \<Rightarrow> ('h \<Rightarrow> nat) \<Rightarrow> 'h \<Rightarrow> 'h" where
  "heap_Init lessf swp len h = heap_Init_loop lessf swp (len h div 2) h (len h)"

definition heap_Fix ::
  "('h \<Rightarrow> nat \<Rightarrow> nat \<Rightarrow> bool) \<Rightarrow> ('h \<Rightarrow> nat \<Rightarrow> nat \<Rightarrow> 'h) \<Rightarrow> ('h \<Rightarrow> nat) \<Rightarrow> 'h \<Rightarrow> nat \<Rightarrow> 'h" where
  "heap_Fix lessf swp len h i =
     (let (h', i') = heap_down lessf swp h i (len h)
      in if i < i' then h' else heap_up lessf swp h' i)"

definition heap_Push ::
  "('h \<Rightarrow> nat \<Rightarrow> nat \<Rightarrow> bool) \<Rightarrow> ('h \<Rightarrow> nat \<Rightarrow> nat \<Rightarrow> 'h) \<Rightarrow> ('h \<Rightarrow> nat)
    \<Rightarrow> ('h \<Rightarrow> 'x \<Rightarrow> 'h) \<Rightarrow> 'h \<Rightarrow> 'x \<Rightarrow> 'h" where
  "heap_Push lessf swp len push h x =
     (let h' = push h x in heap_up lessf swp h' (len h' - 1))"

definition heap_Pop ::
  "('h \<Rightarrow> nat \<Rightarrow> nat \<Rightarrow> bool) \<Rightarrow> ('h \<Rightarrow> nat \<Rightarrow> nat \<Rightarrow> 'h) \<Rightarrow> ('h \<Rightarrow> nat)
    \<Rightarrow> ('h \<Rightarrow> 'h \<times> 'x) \<Rightarrow> 'h \<Rightarrow> 'h \<times> 'x" where
  "heap_Pop lessf swp len pop h =
     (let n = len h - 1 in pop (fst (heap_down lessf swp (swp h 0 n) 0 n)))"

definition heap_Remove ::
  "('h \<Rightarrow> nat \<Rightarrow> nat \<Rightarrow> bool) \<Rightarrow> ('h \<Rightarrow> nat \<Rightarrow> nat \<Rightarrow> 'h) \<Rightarrow> ('h \<Rightarrow> nat)
    \<Rightarrow> ('h \<Rightarrow> 'h \<times> 'x) \<Rightarrow> 'h \<Rightarrow> nat \<Rightarrow> 'h \<times> 'x" where
  "heap_Remove lessf swp len pop h i =
     (let n = len h - 1
      in if n \<noteq> i
         then (let (h', i') = heap_down lessf swp (swp h i n) i n
               in pop (if i < i' then h' else heap_up lessf swp h' i))
         else pop h)"

section \<open>The heap order on lists\<close>

definition hrel :: "('a \<Rightarrow> 'a \<Rightarrow> bool) \<Rightarrow> 'a list \<Rightarrow> nat \<Rightarrow> bool" where
  "hrel lt xs c \<longleftrightarrow> \<not> lt (xs ! c) (xs ! parent c)"

text \<open>All edges of the first \<open>n\<close> elements whose parent is at least \<open>k\<close> respect the order.\<close>

definition heap_from :: "('a \<Rightarrow> 'a \<Rightarrow> bool) \<Rightarrow> 'a list \<Rightarrow> nat \<Rightarrow> nat \<Rightarrow> bool" where
  "heap_from lt xs n k \<longleftrightarrow> (\<forall>c. 0 < c \<longrightarrow> c < n \<longrightarrow> k \<le> parent c \<longrightarrow> hrel lt xs c)"

abbreviation is_heap :: "('a \<Rightarrow> 'a \<Rightarrow> bool) \<Rightarrow> 'a list \<Rightarrow> bool" where
  "is_heap lt xs \<equiv> heap_from lt xs (length xs) 0"

text \<open>As \<open>heap_from\<close>, but the edges at index \<open>i\<close> may be broken in both directions.\<close>

definition heap_hole :: "('a \<Rightarrow> 'a \<Rightarrow> bool) \<Rightarrow> 'a list \<Rightarrow> nat \<Rightarrow> nat \<Rightarrow> nat \<Rightarrow> bool" where
  "heap_hole lt xs n k i \<longleftrightarrow>
     (\<forall>c. 0 < c \<longrightarrow> c < n \<longrightarrow> k \<le> parent c \<longrightarrow> c \<noteq> i \<longrightarrow> parent c \<noteq> i \<longrightarrow> hrel lt xs c) \<and>
     (\<forall>c. 0 < c \<longrightarrow> c < n \<longrightarrow> parent c = i \<longrightarrow> 0 < i \<longrightarrow> k \<le> parent i \<longrightarrow> \<not> lt (xs ! c) (xs ! parent i))"

lemma length_swap_list [simp]: "length (swap_list xs i j) = length xs"
  by (simp add: swap_list_def)

lemma nth_swap_list:
  "i < length xs \<Longrightarrow> j < length xs \<Longrightarrow> k < length xs \<Longrightarrow>
     swap_list xs i j ! k = (if k = j then xs ! i else if k = i then xs ! j else xs ! k)"
  by (auto simp: swap_list_def nth_list_update)

lemma mset_swap_list [simp]:
  "i < length xs \<Longrightarrow> j < length xs \<Longrightarrow> mset (swap_list xs i j) = mset xs"
  by (simp add: swap_list_def mset_swap)

lemma heap_hole_of_heap_from:
  "heap_from lt xs n (Suc k) \<Longrightarrow> heap_hole lt xs n k k"
  by (auto simp: heap_from_def heap_hole_def)

lemma heap_from_trivial: "n \<le> 2 * k + 1 \<Longrightarrow> heap_from lt xs n k"
  by (auto simp: heap_from_def)

section \<open>Correctness on lists\<close>

locale weak_order =
  fixes lt :: "'a \<Rightarrow> 'a \<Rightarrow> bool"
  assumes lt_asym: "lt x y \<Longrightarrow> \<not> lt y x"
    and not_lt_trans: "\<not> lt x y \<Longrightarrow> \<not> lt y z \<Longrightarrow> \<not> lt x z"
begin

lemma lt_irrefl [simp]: "\<not> lt x x"
  using lt_asym by blast

lemma lt_trans: "lt x y \<Longrightarrow> lt y z \<Longrightarrow> lt x z"
  using lt_asym not_lt_trans by blast

lemma heap_min:
  assumes "heap_from lt xs n 0" and "i < n"
  shows "\<not> lt (xs ! i) (xs ! 0)"
  using assms(2)
proof (induction i rule: less_induct)
  case (less i)
  show ?case
  proof (cases "i = 0")
    case False
    then have "parent i < i" by auto
    with less have "\<not> lt (xs ! parent i) (xs ! 0)" by simp
    moreover have "\<not> lt (xs ! i) (xs ! parent i)"
      using assms(1) less.prems False by (auto simp: heap_from_def hrel_def)
    ultimately show ?thesis by (metis not_lt_trans)
  qed simp
qed

abbreviation llt :: "'a list \<Rightarrow> nat \<Rightarrow> nat \<Rightarrow> bool" where
  "llt \<equiv> \<lambda>h i j. lt (h ! i) (h ! j)"

text \<open>The smaller child, as \<open>down\<close> chooses it.\<close>

lemma smaller_child:
  assumes "j = (if 2 * i + 2 < n \<and> llt xs (2 * i + 2) (2 * i + 1) then 2 * i + 2 else 2 * i + 1)"
    and "0 < c" "c < n" "parent c = i"
  shows "\<not> lt (xs ! c) (xs ! j)"
proof -
  have "c = 2 * i + 1 \<or> c = 2 * i + 2" using assms(2,4) by auto
  then show ?thesis
    using assms(1,3) lt_asym by auto
qed

lemma hole_step:
  assumes hole: "heap_hole lt xs n k i" and n: "n \<le> length xs" and ki: "k \<le> i"
    and j: "j = (if 2 * i + 2 < n \<and> llt xs (2 * i + 2) (2 * i + 1) then 2 * i + 2 else 2 * i + 1)"
    and j1: "2 * i + 1 < n" and lt: "lt (xs ! j) (xs ! i)"
  shows "heap_hole lt (swap_list xs i j) n k j"
    and "hrel lt (swap_list xs i j) j"
    and "0 < i \<Longrightarrow> k \<le> parent i \<Longrightarrow> hrel lt (swap_list xs i j) i"
proof -
  have jn: "j < n" and ij: "i < j" and pj: "parent j = i" and jpos: "0 < j"
    using j j1 by (auto split: if_splits)
  let ?ys = "swap_list xs i j"
  have nth: "\<And>c. c < n \<Longrightarrow> ?ys ! c = (if c = j then xs ! i else if c = i then xs ! j else xs ! c)"
    using n jn ij by (intro nth_swap_list) auto
  have min: "\<And>c. 0 < c \<Longrightarrow> c < n \<Longrightarrow> parent c = i \<Longrightarrow> \<not> lt (xs ! c) (xs ! j)"
    using smaller_child [OF j] by blast
  show "hrel lt ?ys j"
    using nth jn ij pj lt lt_asym by (auto simp: hrel_def)
  show "hrel lt ?ys i" if "0 < i" "k \<le> parent i"
    using that nth ij jn hole jpos pj by (auto simp: hrel_def heap_hole_def)
  show "heap_hole lt ?ys n k j"
    unfolding heap_hole_def
  proof (intro conjI allI impI)
    fix c assume c: "0 < c" "c < n" "k \<le> parent c" "c \<noteq> j" "parent c \<noteq> j"
    have pc: "parent c < c" using c by auto
    show "hrel lt ?ys c"
    proof (cases "c = i")
      case True
      with c nth ij jn hole pj jpos show ?thesis by (auto simp: hrel_def heap_hole_def)
    next
      case False
      show ?thesis
      proof (cases "parent c = i")
        case True
        with c min nth ij jn False show ?thesis by (auto simp: hrel_def)
      next
        case pci: False
        from hole c False pci have "hrel lt xs c" by (auto simp: heap_hole_def)
        with c False pci nth pc show ?thesis by (auto simp: hrel_def)
      qed
    qed
  next
    fix c assume c: "0 < c" "c < n" "parent c = j" "0 < j" "k \<le> parent j"
    have "c \<noteq> i" "c \<noteq> j" "j \<noteq> i" using c ij by auto
    moreover have "hrel lt xs c"
      using hole c ij ki pj by (auto simp: heap_hole_def)
    ultimately show "\<not> lt (?ys ! c) (?ys ! parent j)"
      using c nth pj ij jn by (auto simp: hrel_def)
  qed
qed

lemma heap_from_of_hole:
  assumes "heap_hole lt xs n k i" and "\<And>c. 0 < c \<Longrightarrow> c < n \<Longrightarrow> parent c = i \<Longrightarrow> hrel lt xs c"
    and "0 < i \<Longrightarrow> k \<le> parent i \<Longrightarrow> hrel lt xs i"
  shows "heap_from lt xs n k"
  using assms by (auto simp: heap_from_def heap_hole_def)

lemma down_spec:
  assumes "heap_down llt swap_list xs i n = (ys, i')"
    and "heap_hole lt xs n k i" and "n \<le> length xs" and "k \<le> i"
  shows "i \<le> i' \<and> length ys = length xs \<and> mset ys = mset xs
    \<and> (\<forall>c. n \<le> c \<longrightarrow> ys ! c = xs ! c)
    \<and> (i' = i \<longrightarrow> ys = xs \<and> (\<forall>c. 0 < c \<longrightarrow> c < n \<longrightarrow> parent c = i \<longrightarrow> hrel lt xs c))
    \<and> (i < i' \<longrightarrow> heap_from lt ys n k)"
  using assms
proof (induction "n - i" arbitrary: xs i rule: less_induct)
  case less
  let ?j1 = "2 * i + 1"
  let ?j = "if 2 * i + 2 < n \<and> llt xs (2 * i + 2) ?j1 then 2 * i + 2 else ?j1"
  note unf = heap_down.simps [of llt swap_list xs i n]
  show ?case
  proof (cases "n \<le> ?j1 \<or> \<not> llt xs ?j i")
    case True
    then have "ys = xs" and "i' = i"
      using less.prems(1) by (auto simp: unf Let_def split: if_splits)
    moreover have "hrel lt xs c" if c: "0 < c" "c < n" "parent c = i" for c
    proof -
      have "?j1 < n" using c by auto
      then have "\<not> llt xs ?j i" using True by simp
      moreover have "\<not> lt (xs ! c) (xs ! ?j)" using smaller_child [OF refl c] .
      ultimately show ?thesis using c(3) not_lt_trans unfolding hrel_def by metis
    qed
    ultimately show ?thesis by simp
  next
    case False
    then have j1: "?j1 < n" and lt: "lt (xs ! ?j) (xs ! i)" by auto
    let ?ys = "swap_list xs i ?j"
    have rec: "heap_down llt swap_list ?ys ?j n = (ys, i')"
      using less.prems(1) j1 lt by (auto simp: unf Let_def split: if_splits)
    note st = hole_step [OF less.prems(2,3,4) refl j1 lt]
    have jn: "?j < n" and ij: "i < ?j" and kj: "k \<le> ?j" using j1 less.prems(4) by auto
    have in_range: "i < length xs" "?j < length xs" using ij jn less.prems(3) by linarith+
    from less.hyps [OF _ rec st(1) _ kj] jn ij less.prems(3)
    have IH: "?j \<le> i' \<and> length ys = length xs \<and> mset ys = mset ?ys \<and> (\<forall>c. n \<le> c \<longrightarrow> ys ! c = ?ys ! c)
      \<and> (i' = ?j \<longrightarrow> ys = ?ys \<and> (\<forall>c. 0 < c \<longrightarrow> c < n \<longrightarrow> parent c = ?j \<longrightarrow> hrel lt ?ys c))
      \<and> (?j < i' \<longrightarrow> heap_from lt ys n k)"
      by auto
    have frame: "\<forall>c. n \<le> c \<longrightarrow> ?ys ! c = xs ! c"
      using jn ij by (auto simp: swap_list_def)
    have "heap_from lt ys n k"
    proof (cases "i' = ?j")
      case True
      with IH st show ?thesis by (auto intro!: heap_from_of_hole)
    qed (use IH in auto)
    with IH ij frame in_range show ?thesis by auto
  qed
qed

lemma up_spec:
  assumes "j < n" and "n \<le> length xs"
    and "\<And>c. 0 < c \<Longrightarrow> c < n \<Longrightarrow> c \<noteq> j \<Longrightarrow> hrel lt xs c"
    and "\<And>c. 0 < c \<Longrightarrow> c < n \<Longrightarrow> parent c = j \<Longrightarrow> 0 < j \<Longrightarrow> \<not> lt (xs ! c) (xs ! parent j)"
  shows "length (heap_up llt swap_list xs j) = length xs
    \<and> mset (heap_up llt swap_list xs j) = mset xs
    \<and> (\<forall>c. n \<le> c \<longrightarrow> heap_up llt swap_list xs j ! c = xs ! c)
    \<and> heap_from lt (heap_up llt swap_list xs j) n 0"
  using assms
proof (induction j arbitrary: xs rule: less_induct)
  case (less j)
  let ?i = "parent j"
  note unf = heap_up.simps [of llt swap_list xs j]
  show ?case
  proof (cases "?i = j \<or> \<not> llt xs j ?i")
    case True
    then have "heap_up llt swap_list xs j = xs" by (auto simp: unf)
    moreover have "hrel lt xs c" if "0 < c" "c < n" for c
      using True less.prems(3) [OF that] that by (cases "c = j") (auto simp: hrel_def)
    ultimately show ?thesis by (auto simp: heap_from_def)
  next
    case False
    then have lt: "lt (xs ! j) (xs ! ?i)" and ij: "?i < j" and j0: "0 < j" by auto
    let ?ys = "swap_list xs ?i j"
    have rng: "?i < length xs" "j < length xs" using less.prems(1,2) ij by linarith+
    have nth: "\<And>c. c < n \<Longrightarrow> ?ys ! c = (if c = j then xs ! ?i else if c = ?i then xs ! j else xs ! c)"
      using less.prems(2) rng by (intro nth_swap_list) auto
    have frame: "\<forall>c. n \<le> c \<longrightarrow> ?ys ! c = xs ! c"
      using less.prems(1) ij by (auto simp: swap_list_def)
    have upd: "heap_up llt swap_list xs j = heap_up llt swap_list ?ys ?i"
      using False by (simp add: unf Let_def)
    have a: "hrel lt ?ys c" if c: "0 < c" "c < n" "c \<noteq> ?i" for c
    proof (cases "c = j")
      case True
      with lt lt_asym nth less.prems(1) ij j0 show ?thesis by (auto simp: hrel_def)
    next
      case cj: False
      have pc: "parent c < n" "parent c < c" using c by auto
      have h: "\<not> lt (xs ! c) (xs ! parent c)" using less.prems(3) [OF c(1,2) cj] by (simp add: hrel_def)
      consider "parent c = j" | "parent c = ?i" "parent c \<noteq> j" | "parent c \<noteq> j" "parent c \<noteq> ?i" by blast
      then show ?thesis
      proof cases
        case 1
        with less.prems(4) [OF c(1,2) 1 j0] c cj nth pc less.prems(1) show ?thesis
          by (auto simp: hrel_def)
      next
        case 2
        then have "\<not> lt (xs ! c) (xs ! j)" using h lt lt_trans by metis
        with 2 c cj nth pc show ?thesis by (simp add: hrel_def)
      next
        case 3
        with h c cj nth pc show ?thesis by (simp add: hrel_def)
      qed
    qed
    have b: "\<not> lt (?ys ! c) (?ys ! parent ?i)" if c: "0 < c" "c < n" "parent c = ?i" "0 < ?i" for c
    proof -
      have pp: "parent ?i < ?i" using c(4) by auto
      have hi: "\<not> lt (xs ! ?i) (xs ! parent ?i)"
        using less.prems(1,3) c(4) ij by (auto simp: hrel_def)
      have hc: "\<not> lt (xs ! c) (xs ! ?i)" if "c \<noteq> j"
        using less.prems(3) [OF c(1,2) that] c(3) unfolding hrel_def by simp
      have "c \<noteq> ?i" using c by auto
      moreover have "\<not> lt (xs ! c) (xs ! parent ?i)" if "c \<noteq> j"
        using not_lt_trans [OF hc [OF that] hi] .
      ultimately show ?thesis
        using hi c pp ij nth less.prems(1) by (cases "c = j") auto
    qed
    have "?i < n" using ij less.prems(1) by simp
    from less.IH [OF ij this _ a b] less.prems(2)
    show ?thesis using upd frame rng by auto
  qed
qed

end

section \<open>The interface\<close>

text \<open>
  \<open>items\<close> abstracts a heap value to the list of its keys, \<open>ok\<close> is the implementation's own
  invariant (for instance that every element records its index).  \<open>Push\<close> and \<open>Pop\<close> are the
  methods of the implementation, which only append and drop the last element.
\<close>

locale heap_interface = weak_order lt for lt :: "'a \<Rightarrow> 'a \<Rightarrow> bool" +
  fixes lessf :: "'h \<Rightarrow> nat \<Rightarrow> nat \<Rightarrow> bool"
    and swp :: "'h \<Rightarrow> nat \<Rightarrow> nat \<Rightarrow> 'h"
    and len :: "'h \<Rightarrow> nat"
    and push :: "'h \<Rightarrow> 'x \<Rightarrow> 'h"
    and pop :: "'h \<Rightarrow> 'h \<times> 'x"
    and items :: "'h \<Rightarrow> 'a list"
    and item :: "'x \<Rightarrow> 'a"
    and ok :: "'h \<Rightarrow> bool"
    and okx :: "'x \<Rightarrow> bool"
  assumes len_items: "ok h \<Longrightarrow> len h = length (items h)"
    and less_items: "ok h \<Longrightarrow> i < length (items h) \<Longrightarrow> j < length (items h) \<Longrightarrow>
      lessf h i j = lt (items h ! i) (items h ! j)"
    and swp_items: "ok h \<Longrightarrow> i < length (items h) \<Longrightarrow> j < length (items h) \<Longrightarrow>
      items (swp h i j) = swap_list (items h) i j"
    and swp_ok: "ok h \<Longrightarrow> i < length (items h) \<Longrightarrow> j < length (items h) \<Longrightarrow> ok (swp h i j)"
    and push_items: "ok h \<Longrightarrow> okx x \<Longrightarrow> items (push h x) = items h @ [item x]"
    and push_ok: "ok h \<Longrightarrow> okx x \<Longrightarrow> ok (push h x)"
    and pop_items: "ok h \<Longrightarrow> items h \<noteq> [] \<Longrightarrow> items (fst (pop h)) = butlast (items h)"
    and pop_item: "ok h \<Longrightarrow> items h \<noteq> [] \<Longrightarrow> item (snd (pop h)) = last (items h)"
    and pop_ok: "ok h \<Longrightarrow> items h \<noteq> [] \<Longrightarrow> ok (fst (pop h)) \<and> okx (snd (pop h))"
begin

lemma up_items:
  assumes "ok h" and "j < length (items h)"
  shows "ok (heap_up lessf swp h j)"
    and "items (heap_up lessf swp h j) = heap_up llt swap_list (items h) j"
proof -
  have "ok (heap_up lessf swp h j) \<and> items (heap_up lessf swp h j) = heap_up llt swap_list (items h) j"
    using assms
  proof (induction j arbitrary: h rule: less_induct)
    case (less j)
    let ?i = "parent j"
    have i: "?i < length (items h)" using less.prems(2) by linarith
    show ?case
    proof (cases "?i = j \<or> \<not> lessf h j ?i")
      case True
      then show ?thesis using less.prems i less_items
        by (auto simp: heap_up.simps [of lessf swp h j] heap_up.simps [of llt swap_list "items h" j] Let_def)
    next
      case False
      then have "?i < j" by auto
      moreover have "ok (swp h ?i j)" "items (swp h ?i j) = swap_list (items h) ?i j"
        using less.prems i swp_ok swp_items by auto
      ultimately have "ok (heap_up lessf swp (swp h ?i j) ?i) \<and>
          items (heap_up lessf swp (swp h ?i j) ?i) = heap_up llt swap_list (swap_list (items h) ?i j) ?i"
        using less.IH [of ?i "swp h ?i j"] i by simp
      moreover have "lt (items h ! j) (items h ! ?i)" using False less.prems i less_items by auto
      ultimately show ?thesis using False
        by (simp add: heap_up.simps [of lessf swp h j] heap_up.simps [of llt swap_list "items h" j] Let_def)
    qed
  qed
  then show "ok (heap_up lessf swp h j)"
    and "items (heap_up lessf swp h j) = heap_up llt swap_list (items h) j" by auto
qed

lemma down_items:
  assumes "ok h" and "n \<le> length (items h)"
  shows "ok (fst (heap_down lessf swp h i n))
    \<and> items (fst (heap_down lessf swp h i n)) = fst (heap_down llt swap_list (items h) i n)
    \<and> snd (heap_down lessf swp h i n) = snd (heap_down llt swap_list (items h) i n)"
  using assms
proof (induction "n - i" arbitrary: h i rule: less_induct)
  case less
  let ?j1 = "2 * i + 1"
  note unf = heap_down.simps [of lessf swp h i n] heap_down.simps [of llt swap_list "items h" i n]
  show ?case
  proof (cases "n \<le> ?j1")
    case True
    with less.prems show ?thesis by (auto simp: unf Let_def)
  next
    case False
    define j where "j = (if ?j1 + 1 < n \<and> lessf h (?j1 + 1) ?j1 then ?j1 + 1 else ?j1)"
    have eq: "j = (if ?j1 + 1 < n \<and> lt (items h ! (?j1 + 1)) (items h ! ?j1) then ?j1 + 1 else ?j1)"
      using False less.prems less_items by (auto simp: j_def)
    have rng: "j < length (items h)" "i < length (items h)" "i < j" "j < n"
      using False less.prems by (auto simp: j_def)
    have leq: "lessf h j i = lt (items h ! j) (items h ! i)" using less_items [OF less.prems(1) rng(1,2)] .
    have u1: "heap_down lessf swp h i n = (if \<not> lessf h j i then (h, i) else heap_down lessf swp (swp h i j) j n)"
      using False unfolding unf(1) Let_def j_def by simp
    have u2: "heap_down llt swap_list (items h) i n =
        (if \<not> lt (items h ! j) (items h ! i) then (items h, i)
         else heap_down llt swap_list (swap_list (items h) i j) j n)"
      using False unfolding unf(2) Let_def eq by simp
    have "ok (swp h i j)" "items (swp h i j) = swap_list (items h) i j"
      using less.prems rng swp_ok swp_items by auto
    with less.hyps [of j "swp h i j"] rng less.prems u1 u2 leq show ?thesis by simp
  qed
qed

lemma Init_loop_heap:
  assumes "ok h" and "n \<le> length (items h)" and "heap_from lt (items h) n i"
  shows "ok (heap_Init_loop lessf swp i h n)
    \<and> mset (items (heap_Init_loop lessf swp i h n)) = mset (items h)
    \<and> length (items (heap_Init_loop lessf swp i h n)) = length (items h)
    \<and> heap_from lt (items (heap_Init_loop lessf swp i h n)) n 0"
  using assms
proof (induction i arbitrary: h)
  case 0
  then show ?case by simp
next
  case (Suc i)
  obtain ys i' where d: "heap_down llt swap_list (items h) i n = (ys, i')" by fastforce
  have hole: "heap_hole lt (items h) n i i"
    using Suc.prems(3) by (rule heap_hole_of_heap_from)
  note sp = down_spec [OF d hole Suc.prems(2) order_refl]
  have "heap_from lt ys n i"
  proof (cases "i' = i")
    case True
    with sp hole have "heap_hole lt ys n i i" by simp
    moreover have "\<not> (0 < i \<and> i \<le> parent i)" by auto
    ultimately show ?thesis using sp True by (intro heap_from_of_hole) auto
  qed (use sp in auto)
  with Suc.IH [of "fst (heap_down lessf swp h i n)"] down_items [OF Suc.prems(1,2), of i] d sp Suc.prems(2)
  show ?case by auto
qed

lemma Init_heap [heap_laws]:
  assumes "ok h"
  shows "ok (heap_Init lessf swp len h)"
    and "mset (items (heap_Init lessf swp len h)) = mset (items h)"
    and "is_heap lt (items (heap_Init lessf swp len h))"
proof -
  have "heap_from lt (items h) (length (items h)) (length (items h) div 2)"
    by (rule heap_from_trivial) auto
  from Init_loop_heap [OF assms order_refl this]
  show "ok (heap_Init lessf swp len h)"
    and "mset (items (heap_Init lessf swp len h)) = mset (items h)"
    and "is_heap lt (items (heap_Init lessf swp len h))"
    by (auto simp: heap_Init_def len_items [OF assms])
qed

text \<open>\<open>down\<close> followed by \<open>up\<close> where \<open>down\<close> did not move, the core of \<open>Fix\<close> and \<open>Remove\<close>.\<close>

lemma fix_hole:
  assumes "ok h" and "n \<le> length (items h)" and "i < n" and "heap_hole lt (items h) n 0 i"
    and "heap_down lessf swp h i n = (h', i')"
    and "h'' = (if i < i' then h' else heap_up lessf swp h' i)"
  shows "ok h'' \<and> mset (items h'') = mset (items h) \<and> length (items h'') = length (items h)
    \<and> (\<forall>c. n \<le> c \<longrightarrow> items h'' ! c = items h ! c) \<and> heap_from lt (items h'') n 0"
proof -
  obtain ys i1 where d: "heap_down llt swap_list (items h) i n = (ys, i1)" by fastforce
  note di = down_items [OF assms(1,2), of i]
  have eqs: "ok h'" "items h' = ys" "i' = i1" using di d assms(5) by auto
  note sp = down_spec [OF d assms(4,2) le0]
  show ?thesis
  proof (cases "i < i'")
    case True
    with sp eqs assms(6) show ?thesis by auto
  next
    case False
    with sp eqs have "i' = i" "ys = items h"
      and ch: "\<And>c. 0 < c \<Longrightarrow> c < n \<Longrightarrow> parent c = i \<Longrightarrow> hrel lt (items h) c" by auto
    have all: "\<And>c. 0 < c \<Longrightarrow> c < n \<Longrightarrow> c \<noteq> i \<Longrightarrow> hrel lt ys c"
      using assms(4) ch \<open>ys = items h\<close> unfolding heap_hole_def by blast
    have gp: "\<And>c. 0 < c \<Longrightarrow> c < n \<Longrightarrow> parent c = i \<Longrightarrow> 0 < i \<Longrightarrow> \<not> lt (ys ! c) (ys ! parent i)"
      using assms(4) \<open>ys = items h\<close> unfolding heap_hole_def by blast
    have "n \<le> length ys" "i < length (items h')" using eqs assms(2,3) \<open>ys = items h\<close> by auto
    with up_spec [OF assms(3) _ all gp] up_items [of h' i] eqs False assms(6) \<open>ys = items h\<close>
    show ?thesis by auto
  qed
qed

lemma Fix_heap:
  assumes "ok h" and "i < length (items h)" and "heap_hole lt (items h) (length (items h)) 0 i"
  shows "ok (heap_Fix lessf swp len h i)"
    and "mset (items (heap_Fix lessf swp len h i)) = mset (items h)"
    and "is_heap lt (items (heap_Fix lessf swp len h i))"
proof -
  obtain h' i' where d: "heap_down lessf swp h i (length (items h)) = (h', i')" by fastforce
  have e: "heap_Fix lessf swp len h i = (if i < i' then h' else heap_up lessf swp h' i)"
    by (simp add: heap_Fix_def len_items [OF assms(1)] d)
  note fh = fix_hole [OF assms(1) order_refl assms(2,3) d e]
  show "ok (heap_Fix lessf swp len h i)"
    and "mset (items (heap_Fix lessf swp len h i)) = mset (items h)"
    and "is_heap lt (items (heap_Fix lessf swp len h i))"
    using fh by auto
qed

lemma Push_heap:
  assumes "ok h" and "okx x" and "is_heap lt (items h)"
  shows "ok (heap_Push lessf swp len push h x)"
    and "mset (items (heap_Push lessf swp len push h x)) = add_mset (item x) (mset (items h))"
    and "is_heap lt (items (heap_Push lessf swp len push h x))"
proof -
  let ?h = "push h x"
  have it: "items ?h = items h @ [item x]" and okh: "ok ?h" using push_items push_ok assms by auto
  let ?j = "length (items h)"
  have e: "heap_Push lessf swp len push h x = heap_up lessf swp ?h ?j"
    by (simp add: heap_Push_def len_items [OF okh] it)
  have rel: "hrel lt (items ?h) c" if "0 < c" "c < Suc ?j" "c \<noteq> ?j" for c
  proof -
    have "parent c < ?j" "c < ?j" using that by auto
    with assms(3) that show ?thesis by (auto simp: heap_from_def hrel_def it nth_append)
  qed
  have gp: "\<not> lt (items ?h ! c) (items ?h ! parent ?j)"
    if "0 < c" "c < Suc ?j" "parent c = ?j" for c using that by auto
  have "heap_from lt (items (heap_up lessf swp ?h ?j)) (Suc ?j) 0"
    and "mset (items (heap_up lessf swp ?h ?j)) = mset (items ?h)"
    and len: "length (items (heap_up lessf swp ?h ?j)) = Suc ?j" and "ok (heap_up lessf swp ?h ?j)"
    using up_spec [of ?j "Suc ?j" "items ?h"] rel gp up_items [OF okh, of ?j] it by auto
  then show "ok (heap_Push lessf swp len push h x)"
    and "mset (items (heap_Push lessf swp len push h x)) = add_mset (item x) (mset (items h))"
    and "is_heap lt (items (heap_Push lessf swp len push h x))"
    by (auto simp: e it)
qed

lemma heap_hole_of_heap:
  assumes "heap_from lt xs n 0" and "i < n" shows "heap_hole lt xs n 0 i"
proof -
  have "\<not> lt (xs ! c) (xs ! parent i)" if "0 < c" "c < n" "parent c = i" "0 < i" for c
    using that assms not_lt_trans [of "xs ! c" "xs ! i" "xs ! parent i"]
    by (auto simp: heap_from_def hrel_def)
  with assms show ?thesis by (auto simp: heap_hole_def heap_from_def)
qed

lemma swap_last_hole:
  assumes "heap_hole lt xs (Suc n) 0 i" and "i < n" and "length xs = Suc n"
  shows "heap_hole lt (swap_list xs i n) n 0 i"
proof -
  have nth: "\<And>c. c < n \<Longrightarrow> c \<noteq> i \<Longrightarrow> swap_list xs i n ! c = xs ! c"
    using assms(2,3) by (auto simp: nth_swap_list)
  show ?thesis
    unfolding heap_hole_def
  proof (intro conjI allI impI)
    fix c assume c: "0 < c" "c < n" "c \<noteq> i" "parent c \<noteq> i"
    then have "parent c < n" by auto
    with c assms(1) nth show "hrel lt (swap_list xs i n) c" by (auto simp: hrel_def heap_hole_def)
  next
    fix c assume c: "0 < c" "c < n" "parent c = i" "0 < i"
    then have "c \<noteq> i" "parent i \<noteq> i" "parent i < n" using assms(2) by auto
    then show "\<not> lt (swap_list xs i n ! c) (swap_list xs i n ! parent i)"
      using c nth assms(1) by (auto simp: heap_hole_def)
  qed
qed

lemma heap_butlast:
  assumes "heap_from lt xs n 0" and "length xs = Suc n"
  shows "is_heap lt (butlast xs)"
  using assms by (auto simp: heap_from_def hrel_def nth_butlast)

text \<open>\<open>Remove\<close> also works when the element to be removed is out of place.\<close>

lemma Remove_heap:
  assumes "ok h" and "heap_hole lt (items h) (length (items h)) 0 i" and "i < length (items h)"
    and "heap_Remove lessf swp len pop h i = (h', x)"
  shows "ok h'" and "okx x" and "item x = items h ! i"
    and "mset (items h') = mset (items h) - {#items h ! i#}" and "is_heap lt (items h')"
proof -
  define n where "n = length (items h) - 1"
  have n: "length (items h) = Suc n" using assms(3) n_def by auto
  have ne: "items h \<noteq> []" using n by auto
  have "ok h' \<and> okx x \<and> item x = items h ! i \<and> mset (items h') = mset (items h) - {#items h ! i#}
    \<and> is_heap lt (items h')"
  proof (cases "n = i")
    case True
    have "pop h = (h', x)"
      using assms(4) True by (simp add: heap_Remove_def len_items [OF assms(1)] n)
    with pop_items [OF assms(1) ne] pop_item [OF assms(1) ne] pop_ok [OF assms(1) ne]
    have p: "items h' = butlast (items h)" "item x = last (items h)" "ok h'" "okx x" by auto
    moreover have "last (items h) = items h ! i" using True ne n by (simp add: last_conv_nth)
    moreover have "mset (butlast (items h)) = mset (items h) - {#last (items h)#}"
      using ne by (metis append_butlast_last_id add_diff_cancel_right' mset.simps(1) mset.simps(2) mset_append)
    moreover have "heap_from lt (items h) n 0"
      using assms(2) n True by (auto simp: heap_from_def heap_hole_def)
    ultimately show ?thesis using heap_butlast n by auto
  next
    case False
    let ?g = "swp h i n"
    have rng: "i < length (items h)" "n < length (items h)" "i < n" using n assms(3) False by auto
    have g: "ok ?g" "items ?g = swap_list (items h) i n" using swp_ok swp_items assms(1) rng by auto
    obtain k i' where d: "heap_down lessf swp ?g i n = (k, i')" by fastforce
    define k' where "k' = (if i < i' then k else heap_up lessf swp k i)"
    have hole: "heap_hole lt (items ?g) n 0 i" using swap_last_hole [OF _ rng(3) n] assms(2) g n by simp
    have fh: "ok k' \<and> mset (items k') = mset (items ?g) \<and> length (items k') = length (items ?g)
      \<and> (\<forall>c. n \<le> c \<longrightarrow> items k' ! c = items ?g ! c) \<and> heap_from lt (items k') n 0"
      using fix_hole [OF g(1) _ rng(3) hole d k'_def] rng g by simp
    have "pop k' = (h', x)"
      using assms(4) False d by (simp add: heap_Remove_def len_items [OF assms(1)] n k'_def)
    moreover have lk: "length (items k') = Suc n" using fh g n by simp
    then have ne': "items k' \<noteq> []" by auto
    moreover have "last (items k') = items h ! i"
      using fh g(2) n lk rng ne' by (simp add: last_conv_nth nth_swap_list)
    moreover have "mset (butlast (items k')) = mset (items k') - {#last (items k')#}"
      using ne' by (metis append_butlast_last_id add_diff_cancel_right' mset.simps(1) mset.simps(2) mset_append)
    moreover have "mset (items k') = mset (items h)" using fh g rng by simp
    moreover have "is_heap lt (butlast (items k'))" using heap_butlast fh lk by blast
    ultimately show ?thesis
      using pop_items [of k'] pop_item [of k'] pop_ok [of k'] fh [THEN conjunct1] by auto
  qed
  then show "ok h'" and "okx x" and "item x = items h ! i"
    and "mset (items h') = mset (items h) - {#items h ! i#}" and "is_heap lt (items h')" by auto
qed

lemma Pop_heap:
  assumes "ok h" and "is_heap lt (items h)" and "items h \<noteq> []"
    and "heap_Pop lessf swp len pop h = (h', x)"
  shows "ok h'" and "okx x" and "item x = items h ! 0"
    and "mset (items h') = mset (items h) - {#items h ! 0#}" and "is_heap lt (items h')"
proof -
  define n where "n = length (items h) - 1"
  have n: "length (items h) = Suc n" using assms(3) n_def by (cases "items h") auto
  have ln: "len h - Suc 0 = n" by (simp add: len_items [OF assms(1)] n)
  let ?g = "swp h 0 n"
  have g: "ok ?g" "items ?g = swap_list (items h) 0 n" using swp_ok swp_items assms(1) n by auto
  define k where "k = fst (heap_down lessf swp ?g 0 n)"
  have e: "pop k = (h', x)" using assms(4) by (simp add: heap_Pop_def ln k_def)
  have fh: "ok k \<and> mset (items k) = mset (items ?g) \<and> length (items k) = length (items ?g)
      \<and> (\<forall>c. n \<le> c \<longrightarrow> items k ! c = items ?g ! c) \<and> heap_from lt (items k) n 0"
  proof (cases "n = 0")
    case True
    then have "k = ?g" by (simp add: k_def heap_down.simps [of lessf swp "swp h 0 0" 0 0])
    with g True show ?thesis by (auto simp: heap_from_def)
  next
    case False
    obtain k1 i' where d: "heap_down lessf swp ?g 0 n = (k1, i')" by fastforce
    have "heap_up lessf swp k1 0 = k1" by (simp add: heap_up.simps [of lessf swp k1 0])
    then have "k = (if 0 < i' then k1 else heap_up lessf swp k1 0)" using d by (simp add: k_def)
    moreover have "heap_hole lt (items h) (Suc n) 0 0"
      using heap_hole_of_heap [OF assms(2)] n by simp
    ultimately show ?thesis
      using fix_hole [OF g(1) _ _ _ d] swap_last_hole [OF _ _ n] False g n by simp
  qed
  have lk: "length (items k) = Suc n" using fh g n by simp
  then have ne': "items k \<noteq> []" by auto
  have "last (items k) = items h ! 0"
    using fh g lk n ne' by (simp add: last_conv_nth nth_swap_list)
  moreover have "mset (butlast (items k)) = mset (items k) - {#last (items k)#}"
    using ne' by (metis append_butlast_last_id add_diff_cancel_right' mset.simps(1) mset.simps(2) mset_append)
  moreover have "mset (items k) = mset (items h)" using fh g n by simp
  moreover have "is_heap lt (butlast (items k))" using heap_butlast fh lk by blast
  ultimately show "ok h'" and "okx x" and "item x = items h ! 0"
    and "mset (items h') = mset (items h) - {#items h ! 0#}" and "is_heap lt (items h')"
    using pop_items [of k] pop_item [of k] pop_ok [of k] fh [THEN conjunct1] ne' e by auto
qed

end

end
