(* ===== verification/TopN.thy ===== *)
theory TopN
  imports GoHeap
begin

text \<open>
  \<open>exec/topn.go\<close>: selection of the indices of the \<open>n\<close> largest counts with a bounded min-heap.
  The heap is a slice of \<open>topIndex\<close> values handed to \<open>container/heap\<close>; the theory instantiates
  the heap interface of \<open>GoHeap\<close> on its methods and shows that \<open>topn\<close> returns a set of
  indices whose counts dominate every other count.
\<close>

record topIndex =
  Index :: nat
  Count :: int

type_synonym topHeap = "topIndex list"

definition topHeap_Len :: "topHeap \<Rightarrow> nat" where
  "topHeap_Len q = length q"

definition topHeap_Less :: "topHeap \<Rightarrow> nat \<Rightarrow> nat \<Rightarrow> bool" where
  "topHeap_Less q i j \<longleftrightarrow> Count (q ! i) < Count (q ! j)"

definition topHeap_Swap :: "topHeap \<Rightarrow> nat \<Rightarrow> nat \<Rightarrow> topHeap" where
  "topHeap_Swap q i j = q[i := q ! j, j := q ! i]"

definition topHeap_Push :: "topHeap \<Rightarrow> topIndex \<Rightarrow> topHeap" where
  "topHeap_Push q x = q @ [x]"

definition topHeap_Pop :: "topHeap \<Rightarrow> topHeap \<times> topIndex" where
  "topHeap_Pop q = (let n = length q in (take (n - 1) q, q ! (n - 1)))"

abbreviation topHeap_heap_Push :: "topHeap \<Rightarrow> topIndex \<Rightarrow> topHeap" where
  "topHeap_heap_Push \<equiv> heap_Push topHeap_Less topHeap_Swap topHeap_Len topHeap_Push"

abbreviation topHeap_heap_Pop :: "topHeap \<Rightarrow> topHeap \<times> topIndex" where
  "topHeap_heap_Pop \<equiv> heap_Pop topHeap_Less topHeap_Swap topHeap_Len topHeap_Pop"

text \<open>The loop \<open>for i, count := range counts\<close>; reading \<open>q[0]\<close> of an empty heap panics.\<close>

fun topn_loop :: "nat \<Rightarrow> int list \<Rightarrow> int \<Rightarrow> topHeap \<Rightarrow> topHeap go" where
  "topn_loop i [] n q = Ret q"
| "topn_loop i (c # counts) n q =
     (if int (length q) < n
      then topn_loop (Suc i) counts n (topHeap_heap_Push q \<lparr>Index = i, Count = c\<rparr>)
      else if q = [] then Panic ''index out of range''
      else if Count (q ! 0) < c
      then topn_loop (Suc i) counts n
             (topHeap_heap_Push (fst (topHeap_heap_Pop q)) \<lparr>Index = i, Count = c\<rparr>)
      else topn_loop (Suc i) counts n q)"

definition topn :: "int list \<Rightarrow> int \<Rightarrow> nat list go" where
  "topn counts n =
     (if n = 0 then Panic ''topn: n=0''
      else let m = int (length counts); n = (if m < n then m else n)
           in go_bind (topn_loop 0 counts n [])
                (\<lambda>q. if n < 0 then Panic ''makeslice: len out of range''
                     else Ret (map (\<lambda>i. Index (q ! i)) [0 ..< nat n])))"

abbreviation count_less :: "topIndex \<Rightarrow> topIndex \<Rightarrow> bool" where
  "count_less s t \<equiv> Count s < Count t"

section \<open>The heap methods implement the heap interface\<close>

interpretation toph: heap_interface
  count_less topHeap_Less topHeap_Swap topHeap_Len topHeap_Push topHeap_Pop
  "\<lambda>q. q" "\<lambda>x. x" "\<lambda>_. True" "\<lambda>_. True"
  by unfold_locales
    (auto simp: topHeap_Len_def topHeap_Less_def topHeap_Swap_def topHeap_Push_def topHeap_Pop_def
      swap_list_def Let_def butlast_conv_take last_conv_nth)

section \<open>The loop invariant\<close>

text \<open>
  After the first \<open>i\<close> counts the heap holds \<open>min n i\<close> entries, each of them an index read so far
  with its own count, and no count read so far and left out exceeds a count that is held.
\<close>

definition topn_inv :: "int list \<Rightarrow> int \<Rightarrow> nat \<Rightarrow> topHeap \<Rightarrow> bool" where
  "topn_inv counts n i q \<longleftrightarrow>
     is_heap count_less q \<and> int (length q) = min n (int i) \<and>
     distinct (map Index q) \<and>
     (\<forall>t\<in>set q. Index t < i \<and> Count t = counts ! Index t) \<and>
     (\<forall>j<i. j \<notin> Index ` set q \<longrightarrow> (\<forall>t\<in>set q. counts ! j \<le> Count t))"

lemma topn_heap_min:
  assumes "is_heap count_less q" and "t \<in> set q"
  shows "Count (q ! 0) \<le> Count t"
  using toph.heap_min [OF assms(1)] assms(2) by (auto simp: in_set_conv_nth not_less)

lemma mset_map_distinct:
  assumes "mset (map f xs) = mset ys" shows "distinct (map f xs) \<longleftrightarrow> distinct ys"
  using assms mset_eq_imp_distinct_iff by blast

lemma topn_inv_push:
  assumes inv: "topn_inv counts n i q" and room: "int (length q) < n"
    and q': "q' = topHeap_heap_Push q \<lparr>Index = i, Count = counts ! i\<rparr>"
  shows "topn_inv counts n (Suc i) q'"
proof -
  let ?t = "\<lparr>Index = i, Count = counts ! i\<rparr>"
  have q: "is_heap count_less q" and fresh: "i \<notin> Index ` set q"
    and li: "length q = i" using inv room by (auto simp: topn_inv_def)
  have h: "is_heap count_less q'" and m: "mset q' = add_mset ?t (mset q)"
    using toph.Push_heap(2,3) [OF _ _ q, of ?t] q' by auto
  have s: "set q' = insert ?t (set q)" using m by (metis set_mset_add_mset_insert set_mset_mset)
  have l: "length q' = Suc (length q)" using m by (metis size_add_mset size_mset)
  have "mset (map Index q') = mset (i # map Index q)" using m by simp
  then have d: "distinct (map Index q') \<longleftrightarrow> distinct (i # map Index q)" by (rule mset_map_distinct)
  have all: "Index ` set q = {..<i}"
    using inv li fresh card_subset_eq [of "{..<i}" "Index ` set q"] distinct_card [of "map Index q"]
    by (auto simp: topn_inv_def)
  show ?thesis
    using inv h s l d fresh room li all by (auto simp: topn_inv_def less_Suc_eq)
qed

lemma topn_inv_replace:
  assumes inv: "topn_inv counts n i q" and full: "\<not> int (length q) < n" and ne: "q \<noteq> []"
    and better: "Count (q ! 0) < counts ! i"
    and q': "q' = topHeap_heap_Push (fst (topHeap_heap_Pop q)) \<lparr>Index = i, Count = counts ! i\<rparr>"
  shows "topn_inv counts n (Suc i) q'"
proof -
  let ?t = "\<lparr>Index = i, Count = counts ! i\<rparr>"
  have q: "is_heap count_less q" using inv by (auto simp: topn_inv_def)
  obtain r x where p: "topHeap_heap_Pop q = (r, x)" by fastforce
  have r: "is_heap count_less r" and mr: "mset r = mset q - {#q ! 0#}"
    using toph.Pop_heap(4,5) [OF _ q ne p] by auto
  have h: "is_heap count_less q'" and m: "mset q' = add_mset ?t (mset r)"
    using toph.Push_heap(2,3) [OF _ _ r, of ?t] q' p by auto
  have mq: "mset q = add_mset (q ! 0) (mset r)" using mr ne by simp
  have s: "set q' = insert ?t (set r)" using m by (metis set_mset_add_mset_insert set_mset_mset)
  have sq: "set q = insert (q ! 0) (set r)" using mq by (metis set_mset_add_mset_insert set_mset_mset)
  have l: "length q' = length q" using m mq by (metis size_add_mset size_mset)
  have "mset (map Index q) = mset (Index (q ! 0) # map Index r)" using mq by simp
  then have dq: "distinct (map Index q) \<longleftrightarrow> distinct (Index (q ! 0) # map Index r)"
    by (rule mset_map_distinct)
  have "mset (map Index q') = mset (i # map Index r)" using m by simp
  then have d: "distinct (map Index q') \<longleftrightarrow> distinct (i # map Index r)" by (rule mset_map_distinct)
  have fresh: "i \<notin> Index ` set q" using inv by (auto simp: topn_inv_def)
  have min: "\<forall>t\<in>set r. Count (q ! 0) \<le> Count t" using topn_heap_min [OF q] sq by blast
  have q0: "Count (q ! 0) = counts ! Index (q ! 0)" "Index (q ! 0) < i"
    using inv sq by (auto simp: topn_inv_def)
  have out: "counts ! j \<le> Count t" if "j < Suc i" "j \<notin> Index ` set q'" "t \<in> set q'" for j t
  proof -
    have ji: "j < i" "j \<notin> Index ` set r" using that s by (auto simp: less_Suc_eq)
    have "counts ! j \<le> Count (q ! 0)"
      using inv ji q0 sq by (cases "j = Index (q ! 0)") (auto simp: topn_inv_def)
    then show ?thesis using that(3) s min better by force
  qed
  show ?thesis
    unfolding topn_inv_def using inv h s sq l d dq fresh full out by (auto simp: topn_inv_def)
qed

lemma topn_inv_skip:
  assumes "topn_inv counts n i q" and "\<not> int (length q) < n" and "q \<noteq> []"
    and "\<not> Count (q ! 0) < counts ! i"
  shows "topn_inv counts n (Suc i) q"
proof -
  have "\<forall>t\<in>set q. counts ! i \<le> Count t"
    using assms topn_heap_min [of q] by (force simp: topn_inv_def)
  with assms show ?thesis by (auto simp: topn_inv_def less_Suc_eq)
qed

lemma topn_loop_inv:
  assumes "topn_inv counts n i q" and "0 < n" and "i \<le> length counts"
  shows "\<exists>q'. topn_loop i (drop i counts) n q = Ret q' \<and> topn_inv counts n (length counts) q'"
  using assms
proof (induction "length counts - i" arbitrary: i q)
  case 0
  then show ?case by auto
next
  case (Suc k)
  then have i: "i < length counts" by auto
  then have d: "drop i counts = counts ! i # drop (Suc i) counts" by (simp add: Cons_nth_drop_Suc)
  have IH: "topn_inv counts n (Suc i) q1 \<Longrightarrow>
      \<exists>q'. topn_loop (Suc i) (drop (Suc i) counts) n q1 = Ret q' \<and> topn_inv counts n (length counts) q'" for q1
    using Suc i by auto
  have ne: "\<not> int (length q) < n \<Longrightarrow> q \<noteq> []" using Suc.prems by auto
  show ?case
    using IH topn_inv_push [OF Suc.prems(1)] topn_inv_replace [OF Suc.prems(1)]
      topn_inv_skip [OF Suc.prems(1)] ne unfolding d topn_loop.simps by auto
qed

lemma map_Index_nth: "map (\<lambda>i. Index (q ! i)) [0 ..< length q] = map Index q"
  by (rule nth_equalityI) simp_all

text \<open>
  For a positive \<open>n\<close>, \<open>topn\<close> returns \<open>min n (length counts)\<close> distinct indices into
  \<open>counts\<close>, and every count at an index that it does not return is at most every count at an
  index that it returns.
\<close>

theorem topn_correct:
  assumes "0 < n"
  shows "\<exists>idx. topn counts n = Ret idx \<and> int (length idx) = min n (int (length counts)) \<and>
    distinct idx \<and> set idx \<subseteq> {..<length counts} \<and>
    (\<forall>i\<in>set idx. \<forall>j<length counts. j \<notin> set idx \<longrightarrow> counts ! j \<le> counts ! i)"
proof (cases "counts = []")
  case True
  with assms show ?thesis by (simp add: topn_def Let_def)
next
  case False
  let ?n = "if int (length counts) < n then int (length counts) else n"
  have n: "0 < ?n" "?n = min n (int (length counts))" using assms False by auto
  have "topn_inv counts ?n 0 []" using n by (auto simp: topn_inv_def heap_from_def)
  from topn_loop_inv [OF this n(1)] obtain q
    where q: "topn_loop 0 counts ?n [] = Ret q" and inv: "topn_inv counts ?n (length counts) q" by auto
  have l: "int (length q) = ?n" using inv n by (simp add: topn_inv_def)
  have "nat ?n = length q" by (simp only: l [symmetric] nat_int)
  then have idx: "map (\<lambda>i. Index (q ! i)) [0 ..< nat ?n] = map Index q"
    by (metis map_Index_nth)
  have "topn counts n = Ret (map Index q)"
    using assms n(1) unfolding topn_def Let_def q go_bind_Ret idx by auto
  moreover have "counts ! j \<le> counts ! i"
    if "i \<in> set (map Index q)" "j < length counts" "j \<notin> set (map Index q)" for i j
    using inv that by (force simp: topn_inv_def)
  ultimately show ?thesis using inv l n(2) by (auto simp: topn_inv_def)
qed

theorem topn_correct_witness:
  "\<exists>idx. topn [3, 9, 4, 7] 2 = Ret idx \<and> int (length idx) = min 2 (int (length [3::int, 9, 4, 7])) \<and>
    distinct idx \<and> set idx \<subseteq> {..<length [3::int, 9, 4, 7]} \<and>
    (\<forall>i\<in>set idx. \<forall>j<length [3::int, 9, 4, 7]. j \<notin> set idx \<longrightarrow>
       [3::int, 9, 4, 7] ! j \<le> [3, 9, 4, 7] ! i)"
  by (rule topn_correct) simp

end
