(* ===== verification/SliceType.thy ===== *)
theory SliceType
  imports Prelude
begin

text \<open>
  Column types and the checks made on them: \<open>slicetype/slicetype.go\<close>, \<open>slicefunc/func.go\<close>,
  \<open>typecheck/typecheck.go\<close> and \<open>typecheck/func.go\<close>.

  A Go type is a value of \<open>rtype\<close>, with the assignability relation of the language
  specification (channels, which no source of the repository uses in a column type, are left
  out).  The interface \<open>slicetype.Type\<close> is the datatype \<open>stype\<close> with one constructor per
  implementation; an out-of-range \<open>Out\<close> panics.  \<open>cols\<close> is the list of columns such a type
  stands for, and the lemmas show that every operation computes on it what its name says.
\<close>

section \<open>Go types\<close>

datatype rtype =
    TBasic string
  | TSlice rtype
  | TArray nat rtype
  | TPtr rtype
  | TMap rtype rtype
  | TFunc "rtype list" "rtype list" bool
  | TStruct "(string \<times> rtype) list"
  | TInterface "string list"
  | TNamed string rtype "string list" "string list"

text \<open>
  \<open>TNamed name underlying ms pms\<close> is a defined type; \<open>ms\<close> are the methods of the type and
  \<open>pms\<close> those of a pointer to it.
\<close>

fun underlying :: "rtype \<Rightarrow> rtype" where
  "underlying (TNamed n u ms pms) = underlying u"
| "underlying t = t"

fun is_named :: "rtype \<Rightarrow> bool" where
  "is_named (TNamed n u ms pms) = True"
| "is_named (TBasic n) = True"
| "is_named t = False"

fun methods :: "rtype \<Rightarrow> string list" where
  "methods (TInterface ms) = ms"
| "methods (TNamed n u ms pms) = (case underlying u of TInterface is \<Rightarrow> is | _ \<Rightarrow> ms)"
| "methods (TPtr (TNamed n u ms pms)) = (case underlying u of TInterface is \<Rightarrow> [] | _ \<Rightarrow> ms @ pms)"
| "methods t = []"

text \<open>The method \<open>AssignableTo\<close> of \<open>reflect.Type\<close>.\<close>

definition AssignableTo :: "rtype \<Rightarrow> rtype \<Rightarrow> bool" where
  "AssignableTo v t \<longleftrightarrow>
     v = t \<or>
     (case underlying t of TInterface ms \<Rightarrow> list_all (\<lambda>m. m \<in> set (methods v)) ms | _ \<Rightarrow> False) \<or>
     (underlying v = underlying t \<and> (\<not> is_named v \<or> \<not> is_named t))"

definition typeOfContext :: rtype where
  "typeOfContext = TNamed ''context.Context''
     (TInterface [''Deadline'', ''Done'', ''Err'', ''Value'']) [] []"

definition is_slice_kind :: "rtype \<Rightarrow> bool" where
  "is_slice_kind t \<longleftrightarrow> (case underlying t of TSlice e \<Rightarrow> True | _ \<Rightarrow> False)"

definition rtype_Elem :: "rtype \<Rightarrow> rtype go" where
  "rtype_Elem t = (case underlying t of
       TSlice e \<Rightarrow> Ret e | TArray n e \<Rightarrow> Ret e | TPtr e \<Rightarrow> Ret e | TMap k e \<Rightarrow> Ret e
     | _ \<Rightarrow> Panic ''reflect: Elem of invalid type'')"

section \<open>Slice types\<close>

text \<open>
  \<open>TypeSlice\<close>, \<open>AppendType\<close> and \<open>SliceOfType\<close> are the implementations in \<open>slicetype.go\<close>,
  \<open>FuncOut\<close> that of \<open>slicefunc\<close> (the result types of a function), and \<open>Typed\<close> any other
  implementation (a frame, a slice), by its columns and its prefix.
\<close>

datatype stype =
    TypeSlice "rtype list"
  | AppendType stype stype
  | SliceOfType stype int int
  | FuncOut "rtype list"
  | Typed "rtype list" int

definition stype_New :: "rtype list \<Rightarrow> stype" where
  "stype_New types = TypeSlice types"

fun NumOut :: "stype \<Rightarrow> int" where
  "NumOut (TypeSlice ts) = int (length ts)"
| "NumOut (AppendType t1 t2) = NumOut t1 + NumOut t2"
| "NumOut (SliceOfType t i j) = j - i"
| "NumOut (FuncOut ts) = int (length ts)"
| "NumOut (Typed ts p) = int (length ts)"

definition list_index :: "'a list \<Rightarrow> int \<Rightarrow> 'a go" where
  "list_index xs i =
     (if 0 \<le> i \<and> i < int (length xs) then Ret (xs ! nat i) else Panic ''index out of range'')"

fun Out :: "stype \<Rightarrow> int \<Rightarrow> rtype go" where
  "Out (TypeSlice ts) i = list_index ts i"
| "Out (AppendType t1 t2) i = (if i < NumOut t1 then Out t1 i else Out t2 (i - NumOut t1))"
| "Out (SliceOfType t i0 j) i =
     (if NumOut (SliceOfType t i0 j) \<le> i then Panic ''invalid index'' else Out t (i0 + i))"
| "Out (FuncOut ts) i = list_index ts i"
| "Out (Typed ts p) i = list_index ts i"

fun Prefix :: "stype \<Rightarrow> int" where
  "Prefix (TypeSlice ts) = 1"
| "Prefix (AppendType t1 t2) = Prefix t1"
| "Prefix (SliceOfType t i j) = 1"
| "Prefix (FuncOut ts) = 1"
| "Prefix (Typed ts p) = p"

text \<open>A loop over indices that returns \<open>false\<close> at the first index that fails its test.\<close>

primrec for_all :: "(int \<Rightarrow> bool go) \<Rightarrow> nat list \<Rightarrow> bool go" where
  "for_all P [] = Ret True"
| "for_all P (i # is) = go_bind (P (int i)) (\<lambda>b. if b then for_all P is else Ret False)"

primrec map_go :: "('a \<Rightarrow> 'b go) \<Rightarrow> 'a list \<Rightarrow> 'b list go" where
  "map_go f [] = Ret []"
| "map_go f (x # xs) = go_bind (f x) (\<lambda>y. go_bind (map_go f xs) (\<lambda>ys. Ret (y # ys)))"

definition both_out :: "(rtype \<Rightarrow> rtype \<Rightarrow> bool) \<Rightarrow> stype \<Rightarrow> stype \<Rightarrow> int \<Rightarrow> bool go" where
  "both_out R s t i = go_bind (Out s i) (\<lambda>x. go_bind (Out t i) (\<lambda>y. Ret (R x y)))"

definition Assignable :: "stype \<Rightarrow> stype \<Rightarrow> bool go" where
  "Assignable inp out =
     (if NumOut inp \<noteq> NumOut out then Ret False
      else for_all (both_out AssignableTo inp out) [0 ..< nat (NumOut inp)])"

fun Columns :: "stype \<Rightarrow> rtype list go" where
  "Columns (TypeSlice ts) = Ret ts"
| "Columns typ = map_go (\<lambda>i. Out typ (int i)) [0 ..< nat (NumOut typ)]"

definition Concat :: "stype list \<Rightarrow> stype go" where
  "Concat types = go_bind (map_go Columns types) (\<lambda>tss. Ret (TypeSlice (concat tss)))"

definition stype_Append :: "stype \<Rightarrow> stype \<Rightarrow> stype" where
  "stype_Append t1 t2 = AppendType t1 t2"

definition stype_Slice :: "stype \<Rightarrow> int \<Rightarrow> int \<Rightarrow> stype go" where
  "stype_Slice t i j =
     (if i < 0 \<or> NumOut t < i \<or> j < i \<or> NumOut t < j then Panic ''slice: invalid argument''
      else Ret (SliceOfType t i j))"

section \<open>Functions and their application\<close>

text \<open>
  The user's function is the parameter \<open>fn\<close> of the record: a map from argument values to
  result values that may panic.  \<open>Of\<close> receives the dynamic type and the function, or \<open>None\<close>
  for a nil interface.
\<close>

record 'v sfunc =
  In :: stype
  OutT :: stype
  IsVariadic :: bool
  fn :: "('v list \<Rightarrow> 'v list go) option"
  contextFunc :: bool

definition sfunc_Nil :: "'v sfunc" where
  "sfunc_Nil = \<lparr>In = TypeSlice [], OutT = TypeSlice [], IsVariadic = False, fn = None, contextFunc = False\<rparr>"

definition sfunc_Of :: "(rtype \<times> ('v list \<Rightarrow> 'v list go)) option \<Rightarrow> 'v sfunc \<times> bool" where
  "sfunc_Of v = (case v of
       None \<Rightarrow> (sfunc_Nil, False)
     | Some (t, f) \<Rightarrow>
         (case underlying t of
            TFunc ins outs variadic \<Rightarrow>
              let context = ins \<noteq> [] \<and> hd ins = typeOfContext;
                  ins' = (if context then tl ins else ins)
              in (\<lparr>In = stype_New ins', OutT = FuncOut outs, IsVariadic = variadic,
                   fn = Some f, contextFunc = context\<rparr>, True)
          | _ \<Rightarrow> (sfunc_Nil, False)))"

definition sfunc_Call :: "'v sfunc \<Rightarrow> 'v \<Rightarrow> 'v list \<Rightarrow> 'v list go" where
  "sfunc_Call f ctx args = (case fn f of
       None \<Rightarrow> Panic ''reflect: call of nil function''
     | Some g \<Rightarrow> if contextFunc f then g (ctx # args) else g args)"

definition sfunc_IsNil :: "'v sfunc \<Rightarrow> bool" where
  "sfunc_IsNil f \<longleftrightarrow> fn f = None"

definition out_assignable :: "stype \<Rightarrow> rtype \<Rightarrow> int \<Rightarrow> bool go" where
  "out_assignable arg t i = go_bind (Out arg i) (\<lambda>x. Ret (AssignableTo x t))"

definition CanApply :: "'v sfunc \<Rightarrow> stype \<Rightarrow> bool go" where
  "CanApply f arg =
     (if IsVariadic f
      then if NumOut arg < NumOut (In f) - 1 then Ret False
           else go_bind (for_all (both_out AssignableTo arg (In f)) [0 ..< nat (NumOut (In f) - 1)])
             (\<lambda>b. if \<not> b then Ret False
                  else go_bind (Out (In f) (NumOut (In f) - 1)) (\<lambda>vt. go_bind (rtype_Elem vt)
                    (\<lambda>variadicType. for_all (out_assignable arg variadicType)
                       [nat (NumOut (In f) - 1) ..< nat (NumOut arg)])))
      else if NumOut arg \<noteq> NumOut (In f) then Ret False
      else for_all (both_out AssignableTo arg (In f)) [0 ..< nat (NumOut (In f))])"

definition typecheck_Equal :: "stype \<Rightarrow> stype \<Rightarrow> bool go" where
  "typecheck_Equal expect actual =
     (if NumOut actual \<noteq> NumOut expect then Ret False
      else for_all (both_out (=) actual expect) [0 ..< nat (NumOut expect)])"

fun typecheck_Slices_loop :: "rtype list \<Rightarrow> rtype list option" where
  "typecheck_Slices_loop [] = Some []"
| "typecheck_Slices_loop (t # ts) =
     (case underlying t of
        TSlice e \<Rightarrow> map_option (Cons e) (typecheck_Slices_loop ts)
      | _ \<Rightarrow> None)"

definition typecheck_Slices :: "rtype list \<Rightarrow> stype option" where
  "typecheck_Slices columns = map_option stype_New (typecheck_Slices_loop columns)"

definition Devectorize :: "stype \<Rightarrow> stype option go" where
  "Devectorize typ = go_bind (map_go (\<lambda>i. Out typ (int i)) [0 ..< nat (NumOut typ)])
     (\<lambda>ts. Ret (map_option stype_New (typecheck_Slices_loop ts)))"

section \<open>Columns of a type\<close>

primrec cols :: "stype \<Rightarrow> rtype list" where
  "cols (TypeSlice ts) = ts"
| "cols (AppendType t1 t2) = cols t1 @ cols t2"
| "cols (SliceOfType t i j) = take (nat (j - i)) (drop (nat i) (cols t))"
| "cols (FuncOut ts) = ts"
| "cols (Typed ts p) = ts"

text \<open>The invariant that \<open>Slice\<close> establishes.\<close>

primrec wf_stype :: "stype \<Rightarrow> bool" where
  "wf_stype (TypeSlice ts) \<longleftrightarrow> True"
| "wf_stype (AppendType t1 t2) \<longleftrightarrow> wf_stype t1 \<and> wf_stype t2"
| "wf_stype (SliceOfType t i j) \<longleftrightarrow> wf_stype t \<and> 0 \<le> i \<and> i \<le> j \<and> j \<le> NumOut t"
| "wf_stype (FuncOut ts) \<longleftrightarrow> True"
| "wf_stype (Typed ts p) \<longleftrightarrow> True"

lemma NumOut_cols: "wf_stype t \<Longrightarrow> NumOut t = int (length (cols t))"
  by (induction t) auto

lemma Out_cols: "wf_stype t \<Longrightarrow> 0 \<le> i \<Longrightarrow> i < NumOut t \<Longrightarrow> Out t i = Ret (cols t ! nat i)"
proof (induction t arbitrary: i)
  case (AppendType t1 t2)
  then show ?case
    by (auto simp: NumOut_cols nth_append nat_diff_distrib' nat_less_iff)
next
  case (SliceOfType t a b)
  then have "Out t (a + i) = Ret (cols t ! nat (a + i))" by auto
  with SliceOfType.prems show ?case by (auto simp: NumOut_cols nat_add_distrib)
qed (auto simp: list_index_def)

lemma Slice_wf:
  assumes "wf_stype t" and "stype_Slice t i j = Ret u" shows "wf_stype u"
  using assms by (auto simp: stype_Slice_def split: if_splits)

lemma for_all_Ret:
  "\<forall>i\<in>set is. P (int i) = Ret (Q i) \<Longrightarrow> for_all P is = Ret (list_all Q is)"
  by (induction "is") auto

lemma map_go_Ret: "\<forall>x\<in>set xs. f x = Ret (g x) \<Longrightarrow> map_go f xs = Ret (map g xs)"
  by (induction xs) auto

lemma both_out_Ret:
  assumes "wf_stype s" "wf_stype t" and "i < length (cols s)" "i < length (cols t)"
  shows "both_out R s t (int i) = Ret (R (cols s ! i) (cols t ! i))"
  using assms by (simp add: both_out_def Out_cols NumOut_cols)

lemma for_all_both_out:
  assumes "wf_stype s" "wf_stype t" and "n \<le> length (cols s)" "n \<le> length (cols t)"
  shows "for_all (both_out R s t) [0 ..< n] = Ret (list_all2 R (take n (cols s)) (take n (cols t)))"
proof -
  have "for_all (both_out R s t) [0 ..< n] = Ret (list_all (\<lambda>i. R (cols s ! i) (cols t ! i)) [0 ..< n])"
    by (rule for_all_Ret) (use assms in \<open>auto simp: both_out_Ret\<close>)
  also have "list_all (\<lambda>i. R (cols s ! i) (cols t ! i)) [0 ..< n]
      = list_all2 R (take n (cols s)) (take n (cols t))"
    using assms by (auto simp: list_all_iff list_all2_conv_all_nth)
  finally show ?thesis .
qed

lemma Columns_cols: "wf_stype t \<Longrightarrow> Columns t = Ret (cols t)"
proof -
  assume wf: "wf_stype t"
  have "map_go (\<lambda>i. Out t (int i)) [0 ..< nat (NumOut t)] = Ret (map (\<lambda>i. cols t ! i) [0 ..< nat (NumOut t)])"
    by (rule map_go_Ret) (use wf in \<open>auto simp: Out_cols NumOut_cols\<close>)
  also have "map (\<lambda>i. cols t ! i) [0 ..< nat (NumOut t)] = cols t"
    using wf by (simp add: NumOut_cols map_nth)
  finally show ?thesis by (cases t) auto
qed

lemma Concat_cols:
  "list_all wf_stype ts \<Longrightarrow> Concat ts = Ret (TypeSlice (concat (map cols ts)))"
  using map_go_Ret [of ts Columns cols] by (simp add: Concat_def Columns_cols list_all_iff)

lemma Assignable_cols:
  assumes "wf_stype s" "wf_stype t"
  shows "Assignable s t = Ret (list_all2 AssignableTo (cols s) (cols t))"
  using assms for_all_both_out [OF assms, of "length (cols s)"]
  by (auto simp: Assignable_def NumOut_cols dest: list_all2_lengthD)

lemma typecheck_Equal_cols:
  assumes "wf_stype s" "wf_stype t"
  shows "typecheck_Equal s t = Ret (cols s = cols t)"
proof (cases "length (cols s) = length (cols t)")
  case True
  with for_all_both_out [of t s "length (cols s)" "(=)"] assms
  have "typecheck_Equal s t = Ret (list_all2 (=) (cols t) (cols s))"
    by (simp add: typecheck_Equal_def NumOut_cols)
  then show ?thesis by (auto simp: list.rel_eq)
next
  case False
  with assms show ?thesis by (auto simp: typecheck_Equal_def NumOut_cols)
qed

lemma sfunc_Of_wf:
  "sfunc_Of v = (f, True) \<Longrightarrow> wf_stype (In f) \<and> wf_stype (OutT f)"
  by (auto simp: sfunc_Of_def stype_New_def Let_def split: option.splits rtype.splits)

section \<open>Application check\<close>

text \<open>
  What the Go compiler requires of a call \<open>f(x1, ..., xk)\<close>: each argument is assignable to its
  parameter, and the arguments from the last parameter of a variadic function on are assignable
  to the element type of that parameter.
\<close>

fun applies :: "rtype list \<Rightarrow> bool \<Rightarrow> rtype list \<Rightarrow> bool" where
  "applies ps False as = list_all2 AssignableTo as ps"
| "applies ps True as =
     (\<exists>e. underlying (last ps) = TSlice e \<and> length ps - 1 \<le> length as \<and>
          list_all2 AssignableTo (take (length ps - 1) as) (butlast ps) \<and>
          list_all (\<lambda>a. AssignableTo a e) (drop (length ps - 1) as))"

lemma for_all_out_assignable:
  assumes "wf_stype s" and "k \<le> length (cols s)"
  shows "for_all (out_assignable s e) [k ..< length (cols s)] =
    Ret (list_all (\<lambda>a. AssignableTo a e) (drop k (cols s)))"
proof -
  have "for_all (out_assignable s e) [k ..< length (cols s)]
      = Ret (list_all (\<lambda>i. AssignableTo (cols s ! i) e) [k ..< length (cols s)])"
    by (rule for_all_Ret) (use assms in \<open>auto simp: out_assignable_def Out_cols NumOut_cols\<close>)
  also have "list_all (\<lambda>i. AssignableTo (cols s ! i) e) [k ..< length (cols s)]
      = list_all (\<lambda>a. AssignableTo a e) (map (\<lambda>i. cols s ! i) [k ..< length (cols s)])"
    by (simp add: list_all_iff)
  also have "map (\<lambda>i. cols s ! i) [k ..< length (cols s)] = drop k (cols s)"
    by (rule nth_equalityI) (use assms in auto)
  finally show ?thesis .
qed

lemma CanApply_variadic:
  assumes "wf_stype (In f)" "wf_stype arg" and "IsVariadic f"
    and "cols (In f) \<noteq> []" and e: "underlying (last (cols (In f))) = TSlice e"
  shows "CanApply f arg = Ret (applies (cols (In f)) True (cols arg))"
proof (cases "length (cols (In f)) - 1 \<le> length (cols arg)")
  case False
  with assms show ?thesis by (auto simp: CanApply_def NumOut_cols)
next
  case True
  let ?ps = "cols (In f)" and ?n = "length (cols (In f)) - 1"
  have n: "nat (NumOut (In f) - 1) = ?n" "NumOut (In f) - 1 = int ?n" "nat (NumOut arg) = length (cols arg)"
    using assms(1,2,4) by (auto simp: NumOut_cols Suc_leI of_nat_diff)
  have last: "Out (In f) (int ?n) = Ret (last ?ps)"
    using assms(1,4) Out_cols [of "In f" "int ?n"] by (simp add: NumOut_cols last_conv_nth)
  have el: "rtype_Elem (last ?ps) = Ret e" using e by (simp add: rtype_Elem_def)
  have "\<not> NumOut arg < NumOut (In f) - 1" using True assms(2) n by (simp add: NumOut_cols)
  then show ?thesis
    using assms(1-3) True e
    by (simp add: CanApply_def n last [unfolded One_nat_def] el for_all_both_out for_all_out_assignable butlast_conv_take)
qed

lemma CanApply_fixed:
  assumes "wf_stype (In f)" "wf_stype arg" and "\<not> IsVariadic f"
  shows "CanApply f arg = Ret (applies (cols (In f)) False (cols arg))"
  using assms for_all_both_out [OF assms(2,1), of "length (cols arg)"]
  by (auto simp: CanApply_def NumOut_cols dest: list_all2_lengthD)

text \<open>
  \<open>typecheck.CanApply\<close> decides the call rule of the language: for a function value made by
  \<open>slicefunc.Of\<close>, whose parameter list after a leading context is \<open>cols (In f)\<close>, it returns,
  without a panic, whether arguments of the given column types may be passed; a variadic function
  takes any number of further arguments of its element type.
\<close>

theorem CanApply_correct:
  assumes "sfunc_Of (Some (TFunc ins outs variadic, g)) = (f, True)" and "wf_stype arg"
    and "variadic \<longrightarrow> ins \<noteq> [] \<and> is_slice_kind (last ins)"
  shows "CanApply f arg =
    Ret (applies (if ins \<noteq> [] \<and> hd ins = typeOfContext then tl ins else ins) variadic (cols arg))"
proof -
  let ?ps = "if ins \<noteq> [] \<and> hd ins = typeOfContext then tl ins else ins"
  have f: "cols (In f) = ?ps" "IsVariadic f = variadic" "wf_stype (In f)"
    using assms(1) by (auto simp: sfunc_Of_def Let_def stype_New_def)
  show ?thesis
  proof (cases variadic)
    case True
    then obtain e where e: "underlying (last ins) = TSlice e" and ne: "ins \<noteq> []"
      using assms(3) by (auto simp: is_slice_kind_def split: rtype.splits)
    have "\<not> (length ins = 1 \<and> hd ins = typeOfContext)"
      using e by (cases ins) (auto simp: typeOfContext_def)
    then have "?ps \<noteq> []" "last ?ps = last ins" using ne by (cases ins; auto)+
    with CanApply_variadic [OF f(3) assms(2)] f e True show ?thesis by auto
  next
    case False
    with CanApply_fixed [OF f(3) assms(2)] f show ?thesis by auto
  qed
qed

theorem CanApply_correct_witness:
  "\<exists>f :: nat sfunc.
     sfunc_Of (Some (TFunc [typeOfContext, TBasic ''int'', TSlice (TBasic ''string'')] [] True, Ret)) = (f, True) \<and>
     CanApply f (TypeSlice [TBasic ''int'', TBasic ''string'', TBasic ''string'']) = Ret True"
proof -
  let ?ins = "[typeOfContext, TBasic ''int'', TSlice (TBasic ''string'')]"
  obtain f where f: "sfunc_Of (Some (TFunc ?ins [] True, Ret :: nat list \<Rightarrow> nat list go)) = (f, True)"
    by (simp add: sfunc_Of_def Let_def)
  from CanApply_correct [OF this, of "TypeSlice [TBasic ''int'', TBasic ''string'', TBasic ''string'']"]
  have "CanApply f (TypeSlice [TBasic ''int'', TBasic ''string'', TBasic ''string'']) = Ret True"
    by (simp add: is_slice_kind_def AssignableTo_def)
  with f show ?thesis by blast
qed

end
