(* ===== verification/SliceIO.thy ===== *)
theory SliceIO
  imports SliceType
begin

text \<open>
  \<open>sliceio/reader.go\<close> and \<open>sliceio/scanner.go\<close>: streams of records.

  A value of the interface \<open>sliceio.Reader\<close> is the state of its receiver together with its method
  \<open>Read\<close>.  The method takes the length of the frame it is given and returns the new state, the
  rows that it wrote to the front of the frame, and the error; it may panic, and it may not return.
  The locale \<open>slice_reader\<close> is the contract of the interface: a reader stands for a list of rows
  and the error that ends them (\<open>EOF\<close> for a graceful end).  Each reader of the repository is shown
  to meet the contract with the rows that it should deliver; each consumer is verified once,
  against the contract.
\<close>

type_synonym ('s, 'r) reader = "'s \<Rightarrow> nat \<Rightarrow> ('s \<times> 'r list \<times> gerr) go option"

section \<open>Readers\<close>

text \<open>
  \<open>MultiReader\<close>: the receiver keeps the readers that are left (nil after \<open>Close\<close>) and the error
  that ended it.  \<open>mclosed\<close> is a history variable: the readers on which \<open>Close\<close> has been called, in order, each in
  the state in which it was closed.  \<open>cl\<close> is the error that the method \<open>Close\<close> of an underlying reader returns.
\<close>

record 's multiReader =
  mq :: "'s option list"
  merr :: gerr
  mclosed :: "'s list"

definition MultiReader :: "'s list \<Rightarrow> 's multiReader" where
  "MultiReader readers = \<lparr>mq = map Some readers, merr = None, mclosed = []\<rparr>"

partial_function (option) multi_loop ::
  "('s, 'r) reader \<Rightarrow> 's option list \<Rightarrow> 's list \<Rightarrow> nat \<Rightarrow> ('s multiReader \<times> 'r list \<times> gerr) go option" where
  "multi_loop rd q cs n = (case q of
       [] \<Rightarrow> Some (Ret (\<lparr>mq = [], merr = None, mclosed = cs\<rparr>, [], Some EOF))
     | None # q' \<Rightarrow> Some (Panic ''nil pointer dereference'')
     | Some r # q' \<Rightarrow> run_bind (rd r n) (\<lambda>(r', xs, err).
         if err = Some EOF then multi_loop rd q' (cs @ [r']) n
         else if err \<noteq> None then Some (Ret (\<lparr>mq = Some r' # q', merr = err, mclosed = cs\<rparr>, xs, err))
         else if xs \<noteq> [] then Some (Ret (\<lparr>mq = Some r' # q', merr = None, mclosed = cs\<rparr>, xs, err))
         else multi_loop rd (Some r' # q') cs n))"

definition multi_Read :: "('s, 'r) reader \<Rightarrow> ('s multiReader, 'r) reader" where
  "multi_Read rd m n =
     (if merr m \<noteq> None then Some (Ret (m, [], merr m)) else multi_loop rd (mq m) (mclosed m) n)"

fun multi_close_loop :: "('s \<Rightarrow> gerr) \<Rightarrow> 's option list \<Rightarrow> gerr \<Rightarrow> gerr" where
  "multi_close_loop cl [] err = err"
| "multi_close_loop cl (None # q) err = multi_close_loop cl q err"
| "multi_close_loop cl (Some r # q) err = multi_close_loop cl q (if err = None then cl r else err)"

definition multi_Close :: "('s \<Rightarrow> gerr) \<Rightarrow> 's multiReader \<Rightarrow> 's multiReader \<times> gerr" where
  "multi_Close cl m = (m\<lparr>mq := map (\<lambda>_. None) (mq m), mclosed := mclosed m @ List.map_filter (\<lambda>r. r) (mq m)\<rparr>,
     multi_close_loop cl (mq m) None)"

text \<open>\<open>FrameReader\<close>: the receiver is the frame that is left, here its rows.\<close>

definition frame_Read :: "('r list, 'r) reader" where
  "frame_Read f n =
     (let mx = length f; k = (if mx < n then mx else n); f' = drop k f
      in Some (Ret (f', take k f, if f' = [] then Some EOF else None)))"

text \<open>
  \<open>ReadAll\<close>: the loop over a buffer of \<open>chunk\<close> rows (\<open>defaultChunksize\<close>).  The columns are given
  as the rows they hold.
\<close>

partial_function (option) readall_loop ::
  "('s, 'r) reader \<Rightarrow> nat \<Rightarrow> 's \<Rightarrow> 'r list \<Rightarrow> ('s \<times> 'r list \<times> gerr) go option" where
  "readall_loop rd chunk r acc = run_bind (rd r chunk) (\<lambda>(r', xs, err).
     if err \<noteq> None \<and> err \<noteq> Some EOF then Some (Ret (r', acc, err))
     else if chunk < length xs then Some (Panic ''frame.Slice: slice index out of bounds'')
     else if err = Some EOF then Some (Ret (r', acc @ xs, None))
     else readall_loop rd chunk r' (acc @ xs))"

definition ReadAll ::
  "('s, 'r) reader \<Rightarrow> nat \<Rightarrow> 's \<Rightarrow> 'r list \<Rightarrow> ('s \<times> 'r list \<times> gerr) go option" where
  "ReadAll rd chunk r columns = readall_loop rd chunk r columns"

partial_function (option) readfull_loop ::
  "('s, 'r) reader \<Rightarrow> nat \<Rightarrow> 's \<Rightarrow> 'r list \<Rightarrow> ('s \<times> 'r list \<times> gerr) go option" where
  "readfull_loop rd len r acc =
     (if length acc < len
      then run_bind (rd r (len - length acc)) (\<lambda>(r', xs, err).
             if err \<noteq> None then Some (Ret (r', acc @ xs, err))
             else readfull_loop rd len r' (acc @ xs))
      else Some (Ret (r, acc, None)))"

definition ReadFull :: "('s, 'r) reader \<Rightarrow> 's \<Rightarrow> nat \<Rightarrow> ('s \<times> 'r list \<times> gerr) go option" where
  "ReadFull rd r len = readfull_loop rd len r []"

text \<open>
  What a consumer can see of a reader that it reads to the end with frames of \<open>n\<close> rows: all rows in order, those that
  come with the error included, and the error that ends them.
\<close>

partial_function (option) collect ::
  "('s, 'r) reader \<Rightarrow> nat \<Rightarrow> 's \<Rightarrow> 'r list \<Rightarrow> ('s \<times> 'r list \<times> goerror) go option" where
  "collect rd n r acc = run_bind (rd r n) (\<lambda>(r', xs, err).
     case err of None \<Rightarrow> collect rd n r' (acc @ xs) | Some e \<Rightarrow> Some (Ret (r', acc @ xs, e)))"

definition ErrReader :: "gerr \<Rightarrow> goerror go" where
  "ErrReader err = (case err of None \<Rightarrow> Panic ''nil error'' | Some e \<Rightarrow> Ret e)"

definition err_Read :: "(goerror, 'r) reader" where
  "err_Read e n = Some (Ret (e, [], Some e))"

definition empty_Read :: "(unit, 'r) reader" where
  "empty_Read e n = Some (Ret (e, [], Some EOF))"

text \<open>\<open>ClosingReader\<close>: \<open>closes\<close> counts the calls of \<open>Close\<close> on the wrapped reader.\<close>

record 's closingReader =
  cr :: 's
  closed :: bool
  closes :: nat

definition NewClosingReader :: "'s \<Rightarrow> 's closingReader" where
  "NewClosingReader r = \<lparr>cr = r, closed = False, closes = 0\<rparr>"

definition closing_Read :: "('s, 'r) reader \<Rightarrow> ('s closingReader, 'r) reader" where
  "closing_Read rd c n = run_bind (rd (cr c) n) (\<lambda>(r', xs, err).
     let c' = c\<lparr>cr := r'\<rparr>
     in Some (Ret (if err \<noteq> None \<and> \<not> closed c then c'\<lparr>closed := True, closes := Suc (closes c)\<rparr> else c', xs, err)))"

section \<open>The scanner\<close>

text \<open>
  \<open>types\<close> are the dynamic types of the pointers passed to \<open>Scan\<close>; the row that \<open>Scan\<close> stores
  through them is returned with its result.  \<open>typecheck.Errorf\<close> makes the two argument errors.
\<close>

record ('s, 'r) scanner =
  styp :: stype
  sreader :: 's
  serr :: gerr
  started :: bool
  sin :: "'r list"
  beg :: nat
  sEnd :: nat
  atEOF :: bool

definition NewScanner :: "stype \<Rightarrow> 's \<Rightarrow> ('s, 'r) scanner" where
  "NewScanner t r = \<lparr>styp = t, sreader = r, serr = None, started = False, sin = [], beg = 0, sEnd = 0, atEOF = False\<rparr>"

partial_function (option) scan_fill ::
  "('s, 'r) reader \<Rightarrow> nat \<Rightarrow> ('s, 'r) scanner \<Rightarrow> (('s, 'r) scanner \<times> bool) go option" where
  "scan_fill rd chunk s =
     (if beg s \<noteq> sEnd s then Some (Ret (s, True))
      else if atEOF s then Some (Ret (s\<lparr>serr := Some EOF\<rparr>, False))
      else run_bind (rd (sreader s) chunk) (\<lambda>(r', xs, err).
        let s' = s\<lparr>sreader := r', sin := xs\<rparr>
        in if err \<noteq> None \<and> err \<noteq> Some EOF then Some (Ret (s'\<lparr>serr := err\<rparr>, False))
           else scan_fill rd chunk (s'\<lparr>beg := 0, sEnd := length xs, atEOF := atEOF s \<or> err = Some EOF\<rparr>)))"

definition scan_types_ok :: "stype \<Rightarrow> rtype list \<Rightarrow> bool go" where
  "scan_types_ok t out =
     for_all (\<lambda>i. go_bind (Out t i) (\<lambda>want. Ret (out ! nat i = TPtr want))) [0 ..< length out]"

definition Scan ::
  "('s, 'r) reader \<Rightarrow> nat \<Rightarrow> ('s, 'r) scanner \<Rightarrow> rtype list \<Rightarrow> (('s, 'r) scanner \<times> 'r option) go option" where
  "Scan rd chunk s out =
     (if serr s \<noteq> None then Some (Ret (s, None))
      else if int (length out) \<noteq> NumOut (styp s)
      then Some (Ret (s\<lparr>serr := Some (ErrNew ''wrong arity'')\<rparr>, None))
      else run_bind (Some (scan_types_ok (styp s) out)) (\<lambda>match.
        if \<not> match then Some (Ret (s\<lparr>serr := Some (ErrNew ''wrong type for argument'')\<rparr>, None))
        else let s = (if started s then s else s\<lparr>started := True, beg := 0, sEnd := 0\<rparr>)
             in run_bind (scan_fill rd chunk s) (\<lambda>(s', more).
                  if \<not> more then Some (Ret (s', None))
                  else Some (Ret (s'\<lparr>beg := Suc (beg s')\<rparr>, Some (sin s' ! beg s'))))))"

primrec scanv_loop ::
  "('s, 'r) reader \<Rightarrow> nat \<Rightarrow> rtype list \<Rightarrow> nat \<Rightarrow> ('s, 'r) scanner \<Rightarrow> 'r list
     \<Rightarrow> (('s, 'r) scanner \<times> 'r list \<times> bool) go option" where
  "scanv_loop rd chunk out 0 s acc = Some (Ret (s, acc, True))"
| "scanv_loop rd chunk out (Suc n) s acc = run_bind (Scan rd chunk s out) (\<lambda>(s', r).
     case r of None \<Rightarrow> Some (Ret (s', acc, False))
     | Some x \<Rightarrow> scanv_loop rd chunk out n s' (acc @ [x]))"

text \<open>\<open>Scanv\<close> into vectors of length \<open>n\<close> with the element types given; \<open>n\<close> rows are stored at most.\<close>

definition Scanv ::
  "('s, 'r) reader \<Rightarrow> nat \<Rightarrow> ('s, 'r) scanner \<Rightarrow> rtype list \<Rightarrow> nat
     \<Rightarrow> (('s, 'r) scanner \<times> 'r list \<times> bool) go option" where
  "Scanv rd chunk s elems n =
     (if serr s \<noteq> None then Some (Ret (s, [], False))
      else if elems = [] then Some (Panic ''index out of range'')
      else scanv_loop rd chunk (map TPtr elems) n s [])"

definition scanner_Err :: "('s, 'r) scanner \<Rightarrow> gerr" where
  "scanner_Err s = (if serr s = Some EOF then None else serr s)"

definition scanner_Close :: "('s \<Rightarrow> gerr) \<Rightarrow> ('s, 'r) scanner \<Rightarrow> gerr" where
  "scanner_Close cl s = (case cl (sreader s) of None \<Rightarrow> None | Some e \<Rightarrow> Some (ErrE [] (Some e)))"

section \<open>The contract of the interface Reader\<close>

text \<open>
  \<open>str s\<close> are the rows that a reader in state \<open>s\<close> will deliver and \<open>fin s\<close> the error that ends
  them.  A read that returns no error delivers a prefix of the rows and makes progress in the
  measure \<open>mu\<close>; a read that returns an error returns \<open>fin\<close> and the rows that were left.
\<close>

definition read_ok ::
  "('s \<Rightarrow> bool) \<Rightarrow> ('s \<Rightarrow> 'r list) \<Rightarrow> ('s \<Rightarrow> goerror) \<Rightarrow> ('s \<Rightarrow> nat) \<Rightarrow> 's \<Rightarrow> nat \<Rightarrow> 's \<times> 'r list \<times> gerr \<Rightarrow> bool" where
  "read_ok ok str fin mu s n = (\<lambda>(s', xs, e).
     ok s' \<and> length xs \<le> n \<and> str s = xs @ str s' \<and> fin s' = fin s \<and>
     (case e of None \<Rightarrow> mu s' < mu s | Some x \<Rightarrow> x = fin s \<and> str s' = []))"

locale slice_reader =
  fixes rd :: "('s, 'r) reader"
    and ok :: "'s \<Rightarrow> bool"
    and str :: "'s \<Rightarrow> 'r list"
    and fin :: "'s \<Rightarrow> goerror"
    and mu :: "'s \<Rightarrow> nat"
  assumes read_law: "ok s \<Longrightarrow> 0 < n \<Longrightarrow> \<exists>res. rd s n = Some (Ret res) \<and> read_ok ok str fin mu s n res"
begin

lemma read_cases:
  assumes "ok s" and "0 < n"
  obtains (more) s' xs where "rd s n = Some (Ret (s', xs, None))" and "ok s'" and "length xs \<le> n"
      and "str s = xs @ str s'" and "fin s' = fin s" and "mu s' < mu s"
    | (stop) s' xs where "rd s n = Some (Ret (s', xs, Some (fin s)))" and "ok s'" and "length xs \<le> n"
      and "str s = xs" and "str s' = []" and "fin s' = fin s"
proof -
  obtain s' xs e where r: "rd s n = Some (Ret (s', xs, e))" "read_ok ok str fin mu s n (s', xs, e)"
    using read_law [OF assms] by (metis prod_cases3)
  show thesis
  proof (cases e)
    case None
    then show thesis using r by (intro more [of s' xs]) (simp_all add: read_ok_def)
  next
    case (Some x)
    then show thesis using r by (intro stop [of s' xs]) (simp_all add: read_ok_def)
  qed
qed

lemma readall_loop_spec:
  assumes "ok s" and "0 < chunk"
  shows "\<exists>s' xs ys. readall_loop rd chunk s acc =
      Some (Ret (s', acc @ xs, if fin s = EOF then None else Some (fin s))) \<and> ok s' \<and>
    str s = xs @ ys \<and> (fin s = EOF \<longrightarrow> ys = [])"
  using assms(1)
proof (induction "mu s" arbitrary: s acc rule: less_induct)
  case less
  from less.prems assms(2) show ?case
  proof (cases rule: read_cases)
    case (more s' xs)
    from less.hyps [OF more(6,2), of "acc @ xs"] obtain s'' zs ys where
      "readall_loop rd chunk s' (acc @ xs) =
         Some (Ret (s'', acc @ xs @ zs, if fin s = EOF then None else Some (fin s)))" "ok s''"
      "str s' = zs @ ys" "fin s = EOF \<longrightarrow> ys = []" using more(5) by auto
    then show ?thesis
      using more by (subst readall_loop.simps) (intro exI [of _ s''] exI [of _ "xs @ zs"] exI [of _ ys], auto)
  next
    case (stop s' xs)
    then show ?thesis
      by (cases "fin s = EOF"; subst readall_loop.simps)
        (auto intro: exI [of _ "[]"])
  qed
qed

lemma collect_spec:
  assumes "ok s" and "0 < n"
  shows "\<exists>s'. collect rd n s acc = Some (Ret (s', acc @ str s, fin s)) \<and> ok s'"
  using assms(1)
proof (induction "mu s" arbitrary: s acc rule: less_induct)
  case less
  from less.prems assms(2) show ?case
  proof (cases rule: read_cases)
    case (more s' xs)
    then show ?thesis using less.hyps [OF more(6,2), of "acc @ xs"] by (subst collect.simps) simp
  next
    case (stop s' xs)
    then show ?thesis by (subst collect.simps) simp
  qed
qed

lemma readfull_loop_spec:
  assumes "ok s" and "length acc \<le> len"
  shows "\<exists>s' xs e. readfull_loop rd len s acc = Some (Ret (s', acc @ xs, e)) \<and> ok s' \<and>
    str s = xs @ str s' \<and> fin s' = fin s \<and> length (acc @ xs) \<le> len \<and>
    (case e of None \<Rightarrow> length (acc @ xs) = len | Some x \<Rightarrow> x = fin s \<and> str s' = [])"
  using assms
proof (induction "mu s" arbitrary: s acc rule: less_induct)
  case less
  show ?case
  proof (cases "length acc < len")
    case False
    then show ?thesis using less.prems by (subst readfull_loop.simps) auto
  next
    case True
    then have pos: "0 < len - length acc" by simp
    from less.prems(1) pos show ?thesis
    proof (cases rule: read_cases)
      case (more s' xs)
      have "length (acc @ xs) \<le> len" using more(3) True by simp
      from less.hyps [OF more(6,2) this] obtain s'' zs e where
        "readfull_loop rd len s' (acc @ xs) = Some (Ret (s'', (acc @ xs) @ zs, e))" "ok s''"
        "str s' = zs @ str s''" "fin s'' = fin s'" "length ((acc @ xs) @ zs) \<le> len"
        "case e of None \<Rightarrow> length ((acc @ xs) @ zs) = len | Some x \<Rightarrow> x = fin s' \<and> str s'' = []" by blast
      then show ?thesis
        using more True by (subst readfull_loop.simps) (intro exI [of _ s''] exI [of _ "xs @ zs"] exI [of _ e], auto split: option.splits)
    next
      case (stop s' xs)
      then show ?thesis
        using True by (subst readfull_loop.simps) (intro exI [of _ s'] exI [of _ xs] exI [of _ "Some (fin s)"], auto)
    qed
  qed
qed

end

text \<open>
  Two stronger contracts.  \<open>eof_alone_reader\<close>: an error never comes with rows.  \<open>eager_reader\<close>: a
  read without an error never comes back empty while rows are left.
\<close>

locale eof_alone_reader = slice_reader rd ok str fin mu
  for rd :: "('s, 'r) reader" and ok str fin mu +
  assumes alone: "ok s \<Longrightarrow> 0 < n \<Longrightarrow> rd s n = Some (Ret (s', xs, Some e)) \<Longrightarrow> xs = []"

locale eager_reader = slice_reader rd ok str fin mu
  for rd :: "('s, 'r) reader" and ok str fin mu +
  assumes eager: "ok s \<Longrightarrow> 0 < n \<Longrightarrow> rd s n = Some (Ret (s', [], None)) \<Longrightarrow> str s = []"

section \<open>Readers that meet the contract\<close>

interpretation frd: slice_reader frame_Read "\<lambda>_. True" "\<lambda>f. f" "\<lambda>_. EOF" length
  by unfold_locales (auto simp: frame_Read_def Let_def read_ok_def)

interpretation frd: eager_reader frame_Read "\<lambda>_. True" "\<lambda>f. f" "\<lambda>_. EOF" length
  by unfold_locales (auto simp: frame_Read_def Let_def split: if_splits)

interpretation erd: eof_alone_reader err_Read "\<lambda>_. True" "\<lambda>_. []" "\<lambda>e. e" "\<lambda>_. 0"
  by unfold_locales (auto simp: err_Read_def read_ok_def)

interpretation emp: eof_alone_reader empty_Read "\<lambda>_. True" "\<lambda>_. []" "\<lambda>_. EOF" "\<lambda>_. 0"
  by unfold_locales (auto simp: empty_Read_def read_ok_def)

context slice_reader
begin

text \<open>A closing reader delivers the rows of the reader it wraps.\<close>

lemma closing_reader:
  "slice_reader (closing_Read rd) (\<lambda>c. ok (cr c)) (\<lambda>c. str (cr c)) (\<lambda>c. fin (cr c)) (\<lambda>c. mu (cr c))"
proof
  fix c :: "'s closingReader" and n :: nat
  assume "ok (cr c)" and "0 < n"
  then show "\<exists>res. closing_Read rd c n = Some (Ret res) \<and>
      read_ok (\<lambda>c. ok (cr c)) (\<lambda>c. str (cr c)) (\<lambda>c. fin (cr c)) (\<lambda>c. mu (cr c)) c n res"
    by (cases rule: read_cases) (simp_all add: closing_Read_def Let_def read_ok_def)
qed

end

subsection \<open>Concatenation\<close>

text \<open>The rows up to and including those of the first reader that fails.\<close>

fun cat_str :: "('s \<Rightarrow> 'r list) \<Rightarrow> ('s \<Rightarrow> goerror) \<Rightarrow> 's option list \<Rightarrow> 'r list" where
  "cat_str str fin [] = []"
| "cat_str str fin (None # q) = []"
| "cat_str str fin (Some r # q) = str r @ (if fin r = EOF then cat_str str fin q else [])"

fun cat_fin :: "('s \<Rightarrow> goerror) \<Rightarrow> 's option list \<Rightarrow> goerror" where
  "cat_fin fin [] = EOF"
| "cat_fin fin (None # q) = EOF"
| "cat_fin fin (Some r # q) = (if fin r = EOF then cat_fin fin q else fin r)"

lemma cat_concat:
  "\<forall>r\<in>set rs. fin r = EOF \<Longrightarrow>
     cat_str str fin (map Some rs) = concat (map str rs) \<and> cat_fin fin (map Some rs) = EOF"
  by (induction rs) auto

context eof_alone_reader
begin

abbreviation multi_ok :: "'s multiReader \<Rightarrow> bool" where
  "multi_ok m \<equiv> (\<forall>r\<in>set (mq m). \<exists>r'. r = Some r' \<and> ok r')"

abbreviation multi_rows :: "'s multiReader \<Rightarrow> 'r list" where
  "multi_rows m \<equiv> (if merr m = None then cat_str str fin (mq m) else [])"

abbreviation multi_end :: "'s multiReader \<Rightarrow> goerror" where
  "multi_end m \<equiv> (case merr m of None \<Rightarrow> cat_fin fin (mq m) | Some e \<Rightarrow> e)"

abbreviation multi_mu :: "'s option list \<Rightarrow> nat" where
  "multi_mu q \<equiv> (\<Sum>r\<leftarrow>q. case r of None \<Rightarrow> 0 | Some r \<Rightarrow> Suc (mu r))"

lemma multi_loop_spec:
  assumes "multi_ok \<lparr>mq = q, merr = None, mclosed = cs\<rparr>" and "0 < n"
  shows "\<exists>res. multi_loop rd q cs n = Some (Ret res) \<and>
    read_ok multi_ok multi_rows multi_end (\<lambda>m. multi_mu (mq m)) \<lparr>mq = q, merr = None, mclosed = cs\<rparr> n res"
  using assms(1)
proof (induction "multi_mu q" arbitrary: q cs rule: less_induct)
  case less
  show ?case
  proof (cases q)
    case Nil
    then show ?thesis by (subst multi_loop.simps) (simp add: read_ok_def)
  next
    case (Cons x q')
    then obtain r where q: "q = Some r # q'" and r: "ok r" using less.prems by auto
    have q': "multi_ok \<lparr>mq = q', merr = None, mclosed = cs'\<rparr>" for cs' using less.prems q by simp
    from r assms(2) show ?thesis
    proof (cases rule: read_cases)
      case (more r' xs)
      have ok': "multi_ok \<lparr>mq = Some r' # q', merr = e, mclosed = cs'\<rparr>" for e cs' using more(2) q' by simp
      have mu': "multi_mu (Some r' # q') < multi_mu q" using more(6) q by simp
      show ?thesis
      proof (cases "xs = []")
        case False
        then show ?thesis
          using more q ok' mu' by (subst multi_loop.simps) (simp add: read_ok_def)
      next
        case True
        have "multi_loop rd q cs n = multi_loop rd (Some r' # q') cs n"
          using more(1) True q by (subst multi_loop.simps) simp
        moreover from less.hyps [OF mu' ok', of cs] obtain res where "multi_loop rd (Some r' # q') cs n = Some (Ret res)"
          "read_ok multi_ok multi_rows multi_end (\<lambda>m. multi_mu (mq m)) \<lparr>mq = Some r' # q', merr = None, mclosed = cs\<rparr> n res" by blast
        moreover from this(2) have "read_ok multi_ok multi_rows multi_end (\<lambda>m. multi_mu (mq m)) \<lparr>mq = q, merr = None, mclosed = cs\<rparr> n res"
          using more(4,5) True q mu' by (cases res) (auto simp: read_ok_def split: option.splits)
        ultimately show ?thesis by simp
      qed
    next
      case (stop r' xs)
      have "xs = []" using alone [OF r assms(2) stop(1)] .
      show ?thesis
      proof (cases "fin r = EOF")
        case True
        have "multi_loop rd q cs n = multi_loop rd q' (cs @ [r']) n"
          using stop(1) True q by (subst multi_loop.simps) simp
        moreover have mu': "multi_mu q' < multi_mu q" using q by simp
        moreover from less.hyps [OF mu' q', of "cs @ [r']"] obtain res where "multi_loop rd q' (cs @ [r']) n = Some (Ret res)"
          "read_ok multi_ok multi_rows multi_end (\<lambda>m. multi_mu (mq m)) \<lparr>mq = q', merr = None, mclosed = cs @ [r']\<rparr> n res" by blast
        moreover from this(2) have "read_ok multi_ok multi_rows multi_end (\<lambda>m. multi_mu (mq m)) \<lparr>mq = q, merr = None, mclosed = cs\<rparr> n res"
          using stop(4) True q mu' \<open>xs = []\<close> by (cases res) (auto simp: read_ok_def split: option.splits)
        ultimately show ?thesis by simp
      next
        case False
        then show ?thesis
          using stop q q' \<open>xs = []\<close> by (subst multi_loop.simps) (simp add: read_ok_def)
      qed
    qed
  qed
qed

lemma multi_reader:
  "slice_reader (multi_Read rd) multi_ok multi_rows multi_end (\<lambda>m. multi_mu (mq m))"
proof
  fix m :: "'s multiReader" and n :: nat
  assume ok: "multi_ok m" and n: "0 < n"
  show "\<exists>res. multi_Read rd m n = Some (Ret res) \<and>
      read_ok multi_ok multi_rows multi_end (\<lambda>m. multi_mu (mq m)) m n res"
  proof (cases "merr m")
    case None
    then obtain q cs where m: "m = \<lparr>mq = q, merr = None, mclosed = cs\<rparr>" by (cases m) auto
    show ?thesis
      using multi_loop_spec [OF _ n, of q cs] ok unfolding m multi_Read_def by simp
  next
    case (Some e)
    with ok show ?thesis by (simp add: multi_Read_def read_ok_def)
  qed
qed

end

text \<open>
  \<open>ReadAll\<close> of any reader that meets the contract returns: it appends to its columns the rows
  of the reader in order and returns nil when the reader ends with EOF; when the reader fails it
  returns that error, with a prefix of the rows appended.
\<close>

theorem ReadAll_rows:
  assumes "slice_reader rd ok str fin mu" and "ok s" and "0 < chunk"
  shows "\<exists>s' xs ys. ReadAll rd chunk s acc = Some (Ret (s', acc @ xs, if fin s = EOF then None else Some (fin s))) \<and>
    str s = xs @ ys \<and> (fin s = EOF \<longrightarrow> ys = [])"
  unfolding ReadAll_def using slice_reader.readall_loop_spec [OF assms] by blast

theorem ReadAll_rows_witness:
  "\<exists>s' xs ys. ReadAll frame_Read 2 [1, 2, 3::int] [0] = Some (Ret (s', [0] @ xs, None)) \<and>
    [1, 2, 3] = xs @ ys \<and> ys = []"
  using ReadAll_rows [OF frd.slice_reader_axioms, where s = "[1, 2, 3::int]" and chunk = 2 and acc = "[0]"] by simp

text \<open>
  \<open>ReadFull\<close> reads short only at the end: it returns without error exactly when it has filled
  the whole frame, and otherwise with the error that ends the reader and all the rows that were
  left; in both cases what it wrote is what the reader lost.
\<close>

theorem ReadFull_rows:
  assumes "slice_reader rd ok str fin mu" and "ok s"
  shows "\<exists>s' xs e. ReadFull rd s len = Some (Ret (s', xs, e)) \<and> str s = xs @ str s' \<and> length xs \<le> len \<and>
    (case e of None \<Rightarrow> length xs = len | Some x \<Rightarrow> x = fin s \<and> str s' = [])"
  using slice_reader.readfull_loop_spec [OF assms, of "[]" len] by (force simp: ReadFull_def)

theorem ReadFull_rows_witness:
  "\<exists>s' xs e. ReadFull frame_Read [1, 2, 3::int] 2 = Some (Ret (s', xs, e)) \<and> [1, 2, 3] = xs @ s' \<and>
    length xs \<le> 2 \<and> (case e of None \<Rightarrow> length xs = 2 | Some x \<Rightarrow> x = EOF \<and> s' = [])"
  using ReadFull_rows [OF frd.slice_reader_axioms, where s = "[1, 2, 3::int]" and len = 2] by simp

text \<open>
  \<open>MultiReader\<close> loses rows that come together with EOF, which the interface allows and
  \<open>FrameReader\<close> does: of two readers over frames that fit the buffer it delivers nothing, whatever they hold.
\<close>

theorem MultiReader_drops_rows:
  assumes "length xs \<le> chunk" and "length ys \<le> chunk"
  shows "ReadAll (multi_Read frame_Read) chunk (MultiReader [xs, ys]) [] =
    Some (Ret (\<lparr>mq = [], merr = None, mclosed = [[], []]\<rparr>, [], None))"
proof -
  have "frame_Read zs chunk = Some (Ret ([], zs, Some EOF))" if "length zs \<le> chunk" for zs :: "'a list"
    using that by (auto simp: frame_Read_def Let_def)
  then have "multi_loop frame_Read [Some xs, Some ys] [] chunk = Some (Ret (\<lparr>mq = [], merr = None, mclosed = [[], []]\<rparr>, [], Some EOF))"
    using assms by (simp add: multi_loop.simps)
  then show ?thesis
    by (simp add: ReadAll_def readall_loop.simps multi_Read_def MultiReader_def)
qed

theorem MultiReader_drops_rows_witness:
  "ReadAll (multi_Read frame_Read) 8 (MultiReader [[1, 2, 3::int], [4]]) [] =
    Some (Ret (\<lparr>mq = [], merr = None, mclosed = [[], []]\<rparr>, [], None))"
  by (rule MultiReader_drops_rows) simp_all

section \<open>Closing\<close>

text \<open>A read of a reader, as a step of its state.\<close>

definition read_step :: "('s, 'r) reader \<Rightarrow> 's \<Rightarrow> 's \<Rightarrow> bool" where
  "read_step rd r r' \<longleftrightarrow> (\<exists>n xs err. rd r n = Some (Ret (r', xs, err)))"

text \<open>The readers given are those that have been closed and those that are left, each as some reads have left it.\<close>

definition multi_inv :: "('s, 'r) reader \<Rightarrow> 's list \<Rightarrow> 's multiReader \<Rightarrow> bool" where
  "multi_inv rd rs m \<longleftrightarrow> (\<exists>q. mq m = map Some q \<and> list_all2 (read_step rd)\<^sup>*\<^sup>* rs (mclosed m @ q)) \<and> merr m \<noteq> Some EOF"

lemma multi_inv_loop:
  "multi_loop rd mqs cs n = Some r \<Longrightarrow> mqs = map Some q \<Longrightarrow> list_all2 (read_step rd)\<^sup>*\<^sup>* rs (cs @ q) \<Longrightarrow> r = Ret (m, xs, err) \<Longrightarrow>
     multi_inv rd rs m \<and> (err = Some EOF \<longrightarrow> mq m = [])"
proof (induction arbitrary: q rule: multi_loop.raw_induct [rotated 1, consumes 1])
  case (1 rec rd mqs cs n res)
  show ?case
  proof (cases q)
    case Nil
    then show ?thesis using 1(2-5) by (auto simp: multi_inv_def)
  next
    case (Cons r q')
    obtain r' ys e where r': "rd r n = Some (Ret (r', ys, e))" and b: "(if e = Some EOF then rec rd (map Some q') (cs @ [r']) n
        else if e \<noteq> None then Some (Ret (\<lparr>mq = Some r' # map Some q', merr = e, mclosed = cs\<rparr>, ys, e))
        else if ys \<noteq> [] then Some (Ret (\<lparr>mq = Some r' # map Some q', merr = None, mclosed = cs\<rparr>, ys, e))
        else rec rd (Some r' # map Some q') cs n) = Some res"
      using 1(2,3,5) Cons by (cases "rd r n") (auto simp: run_bind_def split: go.splits)
    have "read_step rd r r'" using r' by (auto simp: read_step_def)
    moreover from 1(4) Cons obtain rs1 r0 rs2 where rs: "rs = rs1 @ r0 # rs2" "list_all2 (read_step rd)\<^sup>*\<^sup>* rs1 cs" "(read_step rd)\<^sup>*\<^sup>* r0 r"
      "list_all2 (read_step rd)\<^sup>*\<^sup>* rs2 q'" by (auto simp: list_all2_append2 list_all2_Cons2)
    ultimately have "(read_step rd)\<^sup>*\<^sup>* r0 r'" by (simp add: rtranclp.rtrancl_into_rtrancl)
    then have all: "list_all2 (read_step rd)\<^sup>*\<^sup>* rs (cs @ r' # q')" "list_all2 (read_step rd)\<^sup>*\<^sup>* rs ((cs @ [r']) @ q')"
      using rs by (auto simp: list_all2_appendI)
    have IH: "multi_inv rd rs m \<and> (err = Some EOF \<longrightarrow> mq m = [])" if "rec rd (map Some q2) cs2 n = Some res" "list_all2 (read_step rd)\<^sup>*\<^sup>* rs (cs2 @ q2)" for q2 cs2
      by (rule 1(1) [OF that(1) refl that(2) 1(5)])
    consider "e = Some EOF" | "e = None" "ys = []" | "e \<noteq> Some EOF" "e \<noteq> None \<or> ys \<noteq> []" by blast
    then show ?thesis
    proof cases
      case 1
      then show ?thesis using IH [OF _ all(2)] b by simp
    next
      case 2
      then show ?thesis using IH [of "r' # q'" cs, OF _ all(1)] b by simp
    next
      case 3
      then have "m = \<lparr>mq = map Some (r' # q'), merr = e, mclosed = cs\<rparr>" "err = e" using b \<open>res = Ret (m, xs, err)\<close> by (auto split: if_splits)
      then show ?thesis using 3(1) all(1) by (auto simp: multi_inv_def intro!: exI [of _ "r' # q'"])
    qed
  qed
qed

lemma multi_inv_read:
  assumes "multi_inv rd rs m" and "multi_Read rd m n = Some (Ret (m', xs, err))"
  shows "multi_inv rd rs m' \<and> (err = Some EOF \<longrightarrow> mq m' = [])"
  using assms multi_inv_loop [of rd "mq m" "mclosed m" n "Ret (m', xs, err)" _ rs m' xs err]
  by (auto simp: multi_Read_def multi_inv_def split: if_splits)

lemma multi_inv_reads: "(read_step (multi_Read rd))\<^sup>*\<^sup>* m m' \<Longrightarrow> multi_inv rd rs m \<Longrightarrow> multi_inv rd rs m'"
  by (induction rule: rtranclp_induct) (auto simp: read_step_def dest: multi_inv_read)

lemma map_filter_Some: "List.map_filter (\<lambda>r. r) (map Some q) = q" and map_filter_None: "List.map_filter (\<lambda>r. r) (map (\<lambda>_. None) q) = []"
  by (induction q) (simp_all add: List.map_filter_simps)

lemma multi_close_loop_first: "multi_close_loop cl (map Some q) err = (case filter (\<lambda>e. e \<noteq> None) (err # map cl q) of [] \<Rightarrow> None | e # es \<Rightarrow> e)"
  by (induction q arbitrary: err) auto

text \<open>
  C28.  \<open>MultiReader\<close> closes each of its readers exactly once, in order.  After any reads that returned, whatever the
  readers do, \<open>Close\<close> leaves every reader given to \<open>MultiReader\<close> closed once, each in a state to which reads have brought
  it; it returns the first error among those of the readers that it closes itself; a second \<open>Close\<close> closes
  nothing; and a read that returns EOF has closed them all.
\<close>

theorem MultiReader_closes_once:
  assumes "(read_step (multi_Read rd))\<^sup>*\<^sup>* (MultiReader rs) m" and "multi_Close cl m = (m', err)"
  shows "list_all2 (read_step rd)\<^sup>*\<^sup>* rs (mclosed m') \<and>
    (\<exists>q. mclosed m' = mclosed m @ q \<and> err = (case filter (\<lambda>e. e \<noteq> None) (map cl q) of [] \<Rightarrow> None | e # es \<Rightarrow> e)) \<and>
    multi_Close cl m' = (m', None) \<and>
    (\<forall>n m2 xs. multi_Read rd m n = Some (Ret (m2, xs, Some EOF)) \<longrightarrow> list_all2 (read_step rd)\<^sup>*\<^sup>* rs (mclosed m2))"
proof -
  have "list_all2 (read_step rd)\<^sup>*\<^sup>* rs rs" by (simp add: list_all2_refl)
  then have "multi_inv rd rs (MultiReader rs)" by (auto simp: multi_inv_def MultiReader_def)
  from multi_inv_reads [OF assms(1) this] have i: "multi_inv rd rs m" .
  then obtain q where q: "mq m = map Some q" "list_all2 (read_step rd)\<^sup>*\<^sup>* rs (mclosed m @ q)" by (auto simp: multi_inv_def)
  have m': "m' = m\<lparr>mq := map (\<lambda>_. None) q, mclosed := mclosed m @ q\<rparr>" and e: "err = multi_close_loop cl (map Some q) None"
    using assms(2) q(1) by (auto simp: multi_Close_def map_filter_Some comp_def)
  have "multi_close_loop cl (map (\<lambda>_. None) q) e = e" for e and q :: "'a list" by (induction q) simp_all
  then have "multi_Close cl m' = (m', None)" by (simp add: m' multi_Close_def map_filter_None comp_def)
  moreover have "list_all2 (read_step rd)\<^sup>*\<^sup>* rs (mclosed m2)" if "multi_Read rd m n = Some (Ret (m2, xs, Some EOF))" for n m2 xs
    using multi_inv_read [OF i that] by (auto simp: multi_inv_def)
  ultimately show ?thesis using q(2) e by (auto simp: m' multi_close_loop_first)
qed

theorem MultiReader_closes_once_witness:
  "\<exists>m m'. (read_step (multi_Read frame_Read))\<^sup>*\<^sup>* (MultiReader [[1], [2, 3, 4], [5 :: int]]) m \<and>
    multi_Close (\<lambda>_. None) m = (m', None) \<and> mclosed m = [[]] \<and> mclosed m' = [[], [4], [5]] \<and>
    list_all2 (read_step frame_Read)\<^sup>*\<^sup>* [[1], [2, 3, 4], [5]] (mclosed m')"
proof -
  let ?m = "\<lparr>mq = [Some [4], Some [5 :: int]], merr = None, mclosed = [[]]\<rparr>" and ?m' = "\<lparr>mq = [None, None], merr = None, mclosed = [[], [4], [5 :: int]]\<rparr>"
  have "multi_Read frame_Read (MultiReader [[1], [2, 3, 4], [5 :: int]]) 2 = Some (Ret (?m, [2, 3], None))"
    by (simp add: multi_Read_def MultiReader_def multi_loop.simps frame_Read_def Let_def)
  then have m: "(read_step (multi_Read frame_Read))\<^sup>*\<^sup>* (MultiReader [[1], [2, 3, 4], [5 :: int]]) ?m"
    by (intro r_into_rtranclp) (auto simp: read_step_def)
  have c: "multi_Close (\<lambda>_. None) ?m = (?m', None)" by (simp add: multi_Close_def List.map_filter_simps)
  from MultiReader_closes_once [OF m c] m c show ?thesis by (intro exI [of _ ?m] exI [of _ ?m']) simp
qed

section \<open>Scanning\<close>

text \<open>The rows that a scanner has left: those of its batch, then those of its reader.\<close>

definition scan_rows :: "('s \<Rightarrow> 'r list) \<Rightarrow> ('s, 'r) scanner \<Rightarrow> 'r list" where
  "scan_rows str s = take (sEnd s - beg s) (drop (beg s) (sin s)) @ (if atEOF s then [] else str (sreader s))"

definition scan_ok :: "('s \<Rightarrow> bool) \<Rightarrow> ('s \<Rightarrow> goerror) \<Rightarrow> ('s, 'r) scanner \<Rightarrow> bool" where
  "scan_ok ok fin s \<longleftrightarrow> serr s = None \<and> ok (sreader s) \<and> fin (sreader s) = EOF \<and>
     beg s \<le> sEnd s \<and> sEnd s \<le> length (sin s)"

definition scan_fresh :: "('s, 'r) scanner \<Rightarrow> bool" where
  "scan_fresh s \<longleftrightarrow> (\<not> started s \<longrightarrow> beg s = 0 \<and> sEnd s = 0)"

lemma scan_types_ok_map:
  assumes "wf_stype t" and "cols t = elems"
  shows "scan_types_ok t (map TPtr elems) = Ret True"
proof -
  have "scan_types_ok t (map TPtr elems) = Ret (list_all (\<lambda>i. True) [0 ..< length (map TPtr elems)])"
    unfolding scan_types_ok_def
    by (rule for_all_Ret) (use assms in \<open>auto simp: Out_cols NumOut_cols\<close>)
  then show ?thesis by (simp add: list_all_iff)
qed

context slice_reader
begin

lemma scan_fill_spec:
  assumes "scan_ok ok fin s" and "0 < chunk"
  shows "(\<exists>s'. scan_fill rd chunk s = Some (Ret (s', True)) \<and> scan_ok ok fin s' \<and> beg s' < sEnd s' \<and>
      scan_rows str s' = scan_rows str s \<and> styp s' = styp s \<and> started s' = started s) \<or>
    (\<exists>s'. scan_fill rd chunk s = Some (Ret (s', False)) \<and> serr s' = Some EOF \<and> scan_rows str s = [])"
  using assms(1)
proof (induction "mu (sreader s) + (if atEOF s then 0 else 1)" arbitrary: s rule: less_induct)
  case less
  consider "beg s \<noteq> sEnd s" | "beg s = sEnd s" "atEOF s" | "beg s = sEnd s" "\<not> atEOF s" by blast
  then show ?case
  proof cases
    case 1
    with less.prems show ?thesis by (subst scan_fill.simps) (auto simp: scan_ok_def)
  next
    case 2
    then show ?thesis by (subst scan_fill.simps) (auto simp: scan_rows_def)
  next
    case 3
    have r: "ok (sreader s)" "fin (sreader s) = EOF" using less.prems by (auto simp: scan_ok_def)
    define step where "step = (\<lambda>r' (xs :: 'r list) e. s\<lparr>sreader := r', sin := xs, beg := 0,
      sEnd := length xs, atEOF := e\<rparr>)"
    from r(1) assms(2) show ?thesis
    proof (cases rule: read_cases)
      case (more r' xs)
      have e: "scan_fill rd chunk s = scan_fill rd chunk (step r' xs False)"
        using more(1) 3 by (subst scan_fill.simps) (simp add: step_def)
      have "scan_ok ok fin (step r' xs False)" "scan_rows str (step r' xs False) = scan_rows str s"
        using more 3 less.prems by (auto simp: step_def scan_ok_def scan_rows_def)
      with less.hyps [of "step r' xs False"] more(6) 3 e show ?thesis by (auto simp: step_def)
    next
      case (stop r' xs)
      have e: "scan_fill rd chunk s = scan_fill rd chunk (step r' xs True)"
        using stop(1) 3 r(2) by (subst scan_fill.simps) (simp add: step_def)
      have ok': "scan_ok ok fin (step r' xs True)" "scan_rows str (step r' xs True) = scan_rows str s"
        using stop 3 less.prems by (auto simp: step_def scan_ok_def scan_rows_def)
      show ?thesis
      proof (cases "xs = []")
        case True
        with 3 stop(4) e show ?thesis by (subst (1 2) e, subst (1 2) scan_fill.simps) (auto simp: step_def scan_rows_def)
      next
        case False
        have "scan_fill rd chunk (step r' xs True) = Some (Ret (step r' xs True, True))"
          using False by (subst scan_fill.simps) (simp add: step_def)
        with e ok' False show ?thesis by (auto simp: step_def)
      qed
    qed
  qed
qed

lemma Scan_spec:
  assumes "scan_ok ok fin s" and "scan_fresh s" and "0 < chunk"
    and "wf_stype (styp s)" and "cols (styp s) = elems"
  shows "case scan_rows str s of
      [] \<Rightarrow> \<exists>s'. Scan rd chunk s (map TPtr elems) = Some (Ret (s', None)) \<and> serr s' = Some EOF
    | x # xs \<Rightarrow> \<exists>s'. Scan rd chunk s (map TPtr elems) = Some (Ret (s', Some x)) \<and> scan_ok ok fin s' \<and>
        scan_fresh s' \<and> scan_rows str s' = xs \<and> styp s' = styp s"
proof -
  define s1 where "s1 = (if started s then s else s\<lparr>started := True, beg := 0, sEnd := 0\<rparr>)"
  have s1: "scan_ok ok fin s1" "scan_rows str s1 = scan_rows str s" "styp s1 = styp s" "started s1"
    using assms(1,2) by (auto simp: s1_def scan_ok_def scan_fresh_def scan_rows_def)
  have e: "Scan rd chunk s (map TPtr elems) = run_bind (scan_fill rd chunk s1) (\<lambda>(s', more).
      if \<not> more then Some (Ret (s', None))
      else Some (Ret (s'\<lparr>beg := Suc (beg s')\<rparr>, Some (sin s' ! beg s'))))"
    using assms(1,4,5) scan_types_ok_map [OF assms(4,5)]
    by (auto simp: Scan_def scan_ok_def NumOut_cols s1_def Let_def)
  from scan_fill_spec [OF s1(1) assms(3)] show ?thesis
  proof (elim disjE exE conjE)
    fix s' assume f: "scan_fill rd chunk s1 = Some (Ret (s', True))" "scan_ok ok fin s'" "beg s' < sEnd s'"
      "scan_rows str s' = scan_rows str s1" "styp s' = styp s1" "started s' = started s1"
    have "scan_rows str s' = sin s' ! beg s' # scan_rows str (s'\<lparr>beg := Suc (beg s')\<rparr>)"
      using f(2,3) by (simp add: scan_rows_def scan_ok_def take_Cons' flip: Cons_nth_drop_Suc)
    moreover have "scan_ok ok fin (s'\<lparr>beg := Suc (beg s')\<rparr>)" "scan_fresh (s'\<lparr>beg := Suc (beg s')\<rparr>)"
      using f(2,3,6) s1(4) by (auto simp: scan_ok_def scan_fresh_def)
    ultimately show ?thesis using f s1 e by simp
  next
    fix s' assume "scan_fill rd chunk s1 = Some (Ret (s', False))" "serr s' = Some EOF" "scan_rows str s1 = []"
    with e s1(2) show ?thesis by simp
  qed
qed

lemma scanv_loop_spec:
  assumes "scan_ok ok fin s" and "scan_fresh s" and "0 < chunk"
    and "wf_stype (styp s)" and "cols (styp s) = elems"
  shows "\<exists>s'. scanv_loop rd chunk (map TPtr elems) n s acc =
      Some (Ret (s', acc @ take n (scan_rows str s), n \<le> length (scan_rows str s))) \<and> scanner_Err s' = None"
  using assms
proof (induction n arbitrary: s acc)
  case 0
  then show ?case by (simp add: scanner_Err_def scan_ok_def)
next
  case (Suc n)
  show ?case
  proof (cases "scan_rows str s")
    case Nil
    with Scan_spec [OF Suc.prems] show ?thesis by (auto simp: scanner_Err_def)
  next
    case (Cons x xs)
    with Scan_spec [OF Suc.prems] obtain s' where s': "Scan rd chunk s (map TPtr elems) = Some (Ret (s', Some x))"
      "scan_ok ok fin s'" "scan_fresh s'" "scan_rows str s' = xs" "styp s' = styp s" by auto
    with Suc.IH [of s' "acc @ [x]"] Suc.prems Cons show ?thesis by auto
  qed
qed

end

text \<open>
  Scanning delivers the rows of the reader: a new scanner asked for \<open>n\<close> rows by \<open>Scanv\<close>, with
  vectors of the column types of the slice, stores the first \<open>n\<close> rows of the reader, reports
  \<open>true\<close> exactly when there were that many, and leaves no error.
\<close>

theorem Scanv_rows:
  assumes "slice_reader rd ok str fin mu" and "ok r" and "fin r = EOF" and "0 < chunk"
    and "wf_stype t" and "cols t = elems" and "elems \<noteq> []"
  shows "\<exists>s'. Scanv rd chunk (NewScanner t r) elems n = Some (Ret (s', take n (str r), n \<le> length (str r))) \<and>
    scanner_Err s' = None"
  using slice_reader.scanv_loop_spec [OF assms(1), of "NewScanner t r" chunk elems n "[]"] assms
  by (simp add: Scanv_def NewScanner_def scan_ok_def scan_fresh_def scan_rows_def)

theorem Scanv_rows_witness:
  "\<exists>s'. Scanv frame_Read 2 (NewScanner (TypeSlice [TBasic ''int'']) [7, 8, 9::int]) [TBasic ''int''] 5 =
    Some (Ret (s', take 5 [7, 8, 9], 5 \<le> length [7, 8, 9::int])) \<and> scanner_Err s' = None"
  by (rule Scanv_rows [OF frd.slice_reader_axioms]) simp_all

end
