(* ===== verification/Codec.thy ===== *)
theory Codec
  imports SliceIO
begin

text \<open>
  \<open>sliceio/codec.go\<close> and \<open>sliceio/spiller.go\<close>: encoded streams of batches, their checksums, and
  the spill files made of them.

  A gob stream is modelled by its messages: \<open>Encode\<close> appends one, \<open>Decode\<close> takes one, returns
  \<open>io.EOF\<close> at the end of the stream and an error if the message has another type.  The checksum
  is a function \<open>crc\<close> of the messages written since the last reset.  A column whose type has its
  own codec is written by that codec (a parameter) as one opaque message.  A batch is a frame in
  column-major order.
\<close>

section \<open>Streams\<close>

datatype ('v, 'u) msg =
    MInt int
  | MBool bool
  | MCol "'v list"
  | MUser 'u
  | MSum "32 word"

record 'v batch =
  blen :: nat
  bcols :: "'v list list"

text \<open>
  The codecs of the columns: \<open>uc col\<close> is \<open>None\<close> when the column has none (\<open>HasCodec\<close>), and
  otherwise its encoder and its decoder, which is told the number of rows.
\<close>

type_synonym ('v, 'u) ucodec = "nat \<Rightarrow> (('v list \<Rightarrow> goerror + 'u) \<times> ('u \<Rightarrow> nat \<Rightarrow> goerror + 'v list)) option"

definition io_EOF :: goerror where
  "io_EOF = ErrNew ''EOF''"

section \<open>The encoder\<close>

text \<open>\<open>put\<close> writes a message to the underlying writer; \<open>io.MultiWriter\<close> feeds the checksum after it.\<close>

record ('w, 'v, 'u) encoder =
  ew :: 'w
  ecrc :: "('v, 'u) msg list"

type_synonym ('w, 'v, 'u) putter = "'w \<Rightarrow> ('v, 'u) msg \<Rightarrow> 'w \<times> gerr"

definition NewEncodingWriter :: "'w \<Rightarrow> ('w, 'v, 'u) encoder" where
  "NewEncodingWriter w = \<lparr>ew = w, ecrc = []\<rparr>"

definition enc_msg :: "('w, 'v, 'u) putter \<Rightarrow> ('w, 'v, 'u) encoder \<Rightarrow> ('v, 'u) msg \<Rightarrow> ('w, 'v, 'u) encoder \<times> gerr" where
  "enc_msg put e m = (case put (ew e) m of
       (w', None) \<Rightarrow> (\<lparr>ew = w', ecrc = ecrc e @ [m]\<rparr>, None)
     | (w', Some err) \<Rightarrow> (e\<lparr>ew := w'\<rparr>, Some err))"

definition fatal_if_gob :: "goerror \<Rightarrow> goerror" where
  "fatal_if_gob err = (case err of
       ErrNew s \<Rightarrow> if take 5 s = ''gob: '' then ErrE [AFatal] (Some err) else err
     | _ \<Rightarrow> err)"

fun write_cols ::
  "('w, 'v, 'u) putter \<Rightarrow> ('v, 'u) ucodec \<Rightarrow> nat \<Rightarrow> 'v list list \<Rightarrow> ('w, 'v, 'u) encoder \<Rightarrow> ('w, 'v, 'u) encoder \<times> gerr" where
  "write_cols put uc col [] e = (e, None)"
| "write_cols put uc col (c # cs) e =
     (case enc_msg put e (MBool (uc col \<noteq> None)) of
        (e1, Some err) \<Rightarrow> (e1, Some err)
      | (e1, None) \<Rightarrow>
          (case (case uc col of
                   Some (enc, dec) \<Rightarrow> (case enc c of Inl err \<Rightarrow> (e1, Some err) | Inr u \<Rightarrow> enc_msg put e1 (MUser u))
                 | None \<Rightarrow> enc_msg put e1 (MCol c)) of
             (e2, Some err) \<Rightarrow> (e2, Some (fatal_if_gob err))
           | (e2, None) \<Rightarrow> write_cols put uc (Suc col) cs e2))"

definition enc_Write ::
  "('w, 'v, 'u) putter \<Rightarrow> (('v, 'u) msg list \<Rightarrow> 32 word) \<Rightarrow> ('v, 'u) ucodec \<Rightarrow> ('w, 'v, 'u) encoder \<Rightarrow> 'v batch
     \<Rightarrow> ('w, 'v, 'u) encoder \<times> gerr" where
  "enc_Write put crc uc e f =
     (case enc_msg put (e\<lparr>ecrc := []\<rparr>) (MInt (int (blen f))) of
        (e1, Some err) \<Rightarrow> (e1, Some err)
      | (e1, None) \<Rightarrow>
          (case write_cols put uc 0 (bcols f) e1 of
             (e2, Some err) \<Rightarrow> (e2, Some err)
           | (e2, None) \<Rightarrow> enc_msg put e2 (MSum (crc (ecrc e2)))))"

section \<open>The decoding reader\<close>

record ('v, 'u) decodingReader =
  dstream :: "('v, 'u) msg list"
  dcrc :: "('v, 'u) msg list"
  dbuf :: "'v list list"
  derr :: gerr

definition NewDecodingReader :: "('v, 'u) msg list \<Rightarrow> ('v, 'u) decodingReader" where
  "NewDecodingReader r = \<lparr>dstream = r, dcrc = [], dbuf = [], derr = None\<rparr>"

definition dec_msg :: "('v, 'u) decodingReader \<Rightarrow> ('v, 'u) decodingReader \<times> (goerror + ('v, 'u) msg)" where
  "dec_msg d = (case dstream d of
       [] \<Rightarrow> (d, Inl io_EOF)
     | m # ms \<Rightarrow> (d\<lparr>dstream := ms, dcrc := dcrc d @ [m]\<rparr>, Inr m))"

definition gob_mismatch :: goerror where
  "gob_mismatch = ErrNew ''gob: type mismatch''"

text \<open>
  One column of a batch of \<open>n\<close> rows.  The frame has been zeroed, so a shorter vector is padded; a
  longer one would make gob reallocate, which panics (the frame is taken to have no capacity
  beyond its length).
\<close>

definition decode_col ::
  "('v, 'u) ucodec \<Rightarrow> (nat \<Rightarrow> 'v) \<Rightarrow> nat \<Rightarrow> nat \<Rightarrow> ('v, 'u) decodingReader
     \<Rightarrow> (('v, 'u) decodingReader \<times> (goerror + 'v list)) go" where
  "decode_col uc zero n col d = (case dec_msg d of
       (d1, Inl err) \<Rightarrow> Ret (d1, Inl err)
     | (d1, Inr (MBool codec)) \<Rightarrow>
         (if codec \<and> uc col = None then Ret (d1, Inl (ErrNew ''column encoded with custom codec but no codec available on receipt''))
          else case dec_msg d1 of
            (d2, Inl err) \<Rightarrow> Ret (d2, Inl (if codec then err else if err = io_EOF then EOF else err))
          | (d2, Inr m) \<Rightarrow>
              (if codec
               then case (m, uc col) of
                      (MUser u, Some (enc, dec)) \<Rightarrow> Ret (d2, dec u n)
                    | _ \<Rightarrow> Ret (d2, Inl gob_mismatch)
               else case m of
                      MCol vs \<Rightarrow> if n < length vs then Panic ''gob reallocated a slice''
                                  else Ret (d2, Inr (vs @ replicate (n - length vs) (zero col)))
                    | _ \<Rightarrow> Ret (d2, Inl gob_mismatch)))
     | (d1, Inr _) \<Rightarrow> Ret (d1, Inl gob_mismatch))"

primrec decode_cols ::
  "('v, 'u) ucodec \<Rightarrow> (nat \<Rightarrow> 'v) \<Rightarrow> nat \<Rightarrow> nat \<Rightarrow> nat \<Rightarrow> ('v, 'u) decodingReader
     \<Rightarrow> (('v, 'u) decodingReader \<times> (goerror + 'v list list)) go" where
  "decode_cols uc zero n col 0 d = Ret (d, Inr [])"
| "decode_cols uc zero n col (Suc k) d = go_bind (decode_col uc zero n col d) (\<lambda>(d1, r). case r of
       Inl err \<Rightarrow> Ret (d1, Inl err)
     | Inr c \<Rightarrow> go_bind (decode_cols uc zero n (Suc col) k d1) (\<lambda>(d2, r'). case r' of
           Inl err \<Rightarrow> Ret (d2, Inl err)
         | Inr cs \<Rightarrow> Ret (d2, Inr (c # cs))))"

definition decode ::
  "(('v, 'u) msg list \<Rightarrow> 32 word) \<Rightarrow> ('v, 'u) ucodec \<Rightarrow> (nat \<Rightarrow> 'v) \<Rightarrow> nat \<Rightarrow> nat \<Rightarrow> ('v, 'u) decodingReader
     \<Rightarrow> (('v, 'u) decodingReader \<times> (goerror + 'v list list)) go" where
  "decode crc uc zero ncol n d = go_bind (decode_cols uc zero n 0 ncol d) (\<lambda>(d1, r). case r of
       Inl err \<Rightarrow> Ret (d1, Inl err)
     | Inr cs \<Rightarrow> (let sum = crc (dcrc d1) in case dec_msg d1 of
           (d2, Inl err) \<Rightarrow> Ret (d2, Inl err)
         | (d2, Inr (MSum decoded)) \<Rightarrow>
             if sum \<noteq> decoded then Ret (d2, Inl (ErrE [AIntegrity] (Some (ErrNew ''computed checksum but expected checksum''))))
             else Ret (d2, Inr cs)
         | (d2, Inr _) \<Rightarrow> Ret (d2, Inl gob_mismatch)))"

definition batch_rows :: "nat \<Rightarrow> 'v list list \<Rightarrow> 'v list list" where
  "batch_rows n cs = map (\<lambda>k. map (\<lambda>c. c ! k) cs) [0 ..< n]"

text \<open>
  \<open>Read\<close>.  The loop \<open>for d.buf.Len() == 0\<close> runs at most once: a batch that fits the frame is
  returned from within the loop, and one that does not fit leaves the buffer non-empty.
\<close>

definition decoding_Read ::
  "(('v, 'u) msg list \<Rightarrow> 32 word) \<Rightarrow> ('v, 'u) ucodec \<Rightarrow> (nat \<Rightarrow> 'v) \<Rightarrow> nat \<Rightarrow> (('v, 'u) decodingReader, 'v list) reader" where
  "decoding_Read crc uc zero ncol d n =
     (let out = (\<lambda>d. (d\<lparr>dbuf := drop n (dbuf d)\<rparr>, take n (dbuf d), None))
      in if derr d \<noteq> None then Some (Ret (d, [], derr d))
         else if dbuf d \<noteq> [] then Some (Ret (out d))
         else case dec_msg (d\<lparr>dcrc := []\<rparr>) of
           (d1, Inl err) \<Rightarrow> (let err' = (if err = io_EOF then EOF else err)
                              in Some (Ret (d1\<lparr>derr := Some err'\<rparr>, [], Some err')))
         | (d1, Inr (MInt m)) \<Rightarrow>
             (if m < 0 then Some (Panic ''frame.Slice: slice index out of bounds'')
              else Some (go_bind (decode crc uc zero ncol (nat m) d1) (\<lambda>(d2, r). case r of
                  Inl err \<Rightarrow> Ret (d2\<lparr>derr := Some err\<rparr>, [], Some err)
                | Inr cs \<Rightarrow> if m \<le> int n then Ret (d2, batch_rows (nat m) cs, None)
                             else Ret (out (d2\<lparr>dbuf := batch_rows (nat m) cs\<rparr>)))))
         | (d1, Inr _) \<Rightarrow> Some (Ret (d1\<lparr>derr := Some gob_mismatch\<rparr>, [], Some gob_mismatch)))"

section \<open>Spill files\<close>

definition batch_take :: "nat \<Rightarrow> 'v batch \<Rightarrow> 'v batch" where
  "batch_take n f = \<lparr>blen = min n (blen f), bcols = map (take n) (bcols f)\<rparr>"

definition batch_drop :: "nat \<Rightarrow> 'v batch \<Rightarrow> 'v batch" where
  "batch_drop n f = \<lparr>blen = blen f - n, bcols = map (drop n) (bcols f)\<rparr>"

partial_function (option) spill_loop ::
  "('w, 'v, 'u) putter \<Rightarrow> (('v, 'u) msg list \<Rightarrow> 32 word) \<Rightarrow> ('v, 'u) ucodec \<Rightarrow> nat \<Rightarrow> ('w, 'v, 'u) encoder \<Rightarrow> 'v batch
     \<Rightarrow> (('w, 'v, 'u) encoder \<times> gerr) option" where
  "spill_loop put crc uc batchSize e f =
     (if blen f = 0 then Some (e, None)
      else let n = (if blen f < batchSize then blen f else batchSize)
           in case enc_Write put crc uc e (batch_take n f) of
                (e', Some err) \<Rightarrow> Some (e', Some err)
              | (e', None) \<Rightarrow> spill_loop put crc uc batchSize e' (batch_drop n f))"

text \<open>
  A spiller is the list of its files, each the messages written to it; \<open>Spill\<close> writes a new file.
  Writing to the temporary file itself is taken not to fail.
\<close>

definition put_list :: "(('v, 'u) msg list, 'v, 'u) putter" where
  "put_list w m = (w @ [m], None)"

definition Spill ::
  "(('v, 'u) msg list \<Rightarrow> 32 word) \<Rightarrow> ('v, 'u) ucodec \<Rightarrow> nat \<Rightarrow> ('v, 'u) msg list list \<Rightarrow> 'v batch
     \<Rightarrow> (('v, 'u) msg list list \<times> gerr) option" where
  "Spill crc uc batchSize dir f = map_option (\<lambda>(e, err). (dir @ [ew e], err))
     (spill_loop put_list crc uc batchSize (NewEncodingWriter []) f)"

text \<open>\<open>list\<close> is the order in which the files of the directory are listed.\<close>

definition spill_Readers ::
  "(('v, 'u) msg list list \<Rightarrow> ('v, 'u) msg list list) \<Rightarrow> ('v, 'u) msg list list \<Rightarrow> ('v, 'u) decodingReader list" where
  "spill_Readers list dir = map NewDecodingReader (list dir)"

definition spill_ClosingReaders ::
  "(('v, 'u) msg list list \<Rightarrow> ('v, 'u) msg list list) \<Rightarrow> ('v, 'u) msg list list \<Rightarrow> ('v, 'u) decodingReader closingReader list" where
  "spill_ClosingReaders list dir = map NewClosingReader (spill_Readers list dir)"

section \<open>The format of a batch\<close>

text \<open>The documented behaviour of a column codec: its decoder inverts its encoder.\<close>

definition uc_ok :: "('v, 'u) ucodec \<Rightarrow> bool" where
  "uc_ok uc \<longleftrightarrow> (\<forall>i enc dec. uc i = Some (enc, dec) \<longrightarrow> (\<forall>c. \<exists>u. enc c = Inr u \<and> dec u (length c) = Inr c))"

definition col_msgs :: "('v, 'u) ucodec \<Rightarrow> nat \<Rightarrow> 'v list \<Rightarrow> ('v, 'u) msg list" where
  "col_msgs uc i c = [MBool (uc i \<noteq> None), case uc i of None \<Rightarrow> MCol c | Some (enc, dec) \<Rightarrow> MUser (projr (enc c))]"

fun cols_msgs :: "('v, 'u) ucodec \<Rightarrow> nat \<Rightarrow> 'v list list \<Rightarrow> ('v, 'u) msg list" where
  "cols_msgs uc i [] = []"
| "cols_msgs uc i (c # cs) = col_msgs uc i c @ cols_msgs uc (Suc i) cs"

definition batch_msgs :: "(('v, 'u) msg list \<Rightarrow> 32 word) \<Rightarrow> ('v, 'u) ucodec \<Rightarrow> 'v batch \<Rightarrow> ('v, 'u) msg list" where
  "batch_msgs crc uc f =
     (let h = MInt (int (blen f)) # cols_msgs uc 0 (bcols f) in h @ [MSum (crc h)])"

definition wf_batch :: "nat \<Rightarrow> 'v batch \<Rightarrow> bool" where
  "wf_batch ncol f \<longleftrightarrow> length (bcols f) = ncol \<and> (\<forall>c\<in>set (bcols f). length c = blen f)"

abbreviation rows_of_batch :: "'v batch \<Rightarrow> 'v list list" where
  "rows_of_batch f \<equiv> batch_rows (blen f) (bcols f)"

lemma length_batch_rows [simp]: "length (batch_rows n cs) = n"
  by (simp add: batch_rows_def)

lemma write_cols_put:
  assumes "uc_ok uc"
  shows "write_cols put_list uc i cs e =
    (\<lparr>ew = ew e @ cols_msgs uc i cs, ecrc = ecrc e @ cols_msgs uc i cs\<rparr>, None)"
proof (induction cs arbitrary: i e)
  case (Cons c cs)
  show ?case
  proof (cases "uc i")
    case None
    with Cons show ?thesis by (simp add: enc_msg_def put_list_def col_msgs_def)
  next
    case (Some p)
    obtain enc dec where p: "p = (enc, dec)" by (cases p)
    with assms Some obtain u where "enc c = Inr u" unfolding uc_ok_def by blast
    with Cons Some p show ?thesis by (simp add: enc_msg_def put_list_def col_msgs_def)
  qed
qed simp

lemma enc_Write_put:
  assumes "uc_ok uc"
  obtains c where "enc_Write put_list crc uc e f = (\<lparr>ew = ew e @ batch_msgs crc uc f, ecrc = c\<rparr>, None)"
  using write_cols_put [OF assms]
  by (auto simp: enc_Write_def enc_msg_def put_list_def batch_msgs_def Let_def)

lemma decode_col_msgs:
  assumes "uc_ok uc" and "length c = n" and "dstream d = col_msgs uc i c @ rest"
  shows "decode_col uc zero n i d = Ret (d\<lparr>dstream := rest, dcrc := dcrc d @ col_msgs uc i c\<rparr>, Inr c)"
proof (cases "uc i")
  case None
  with assms show ?thesis by (simp add: decode_col_def dec_msg_def col_msgs_def)
next
  case (Some p)
  obtain enc dec where p: "p = (enc, dec)" by (cases p)
  with assms(1) Some obtain u where "enc c = Inr u" "dec u (length c) = Inr c" unfolding uc_ok_def by blast
  with assms Some p show ?thesis by (simp add: decode_col_def dec_msg_def col_msgs_def)
qed

lemma decode_cols_msgs:
  assumes "uc_ok uc" and "\<forall>c\<in>set cs. length c = n" and "dstream d = cols_msgs uc i cs @ rest"
  shows "decode_cols uc zero n i (length cs) d =
    Ret (d\<lparr>dstream := rest, dcrc := dcrc d @ cols_msgs uc i cs\<rparr>, Inr cs)"
  using assms(2,3)
proof (induction cs arbitrary: i d)
  case (Cons c cs)
  from Cons.prems decode_col_msgs [OF assms(1), of c n d i "cols_msgs uc (Suc i) cs @ rest" zero]
  have "decode_col uc zero n i d =
      Ret (d\<lparr>dstream := cols_msgs uc (Suc i) cs @ rest, dcrc := dcrc d @ col_msgs uc i c\<rparr>, Inr c)" by simp
  with Cons show ?case by simp
qed simp

lemma decode_batch:
  assumes "uc_ok uc" and "wf_batch ncol f" and "dec_msg (d\<lparr>dcrc := []\<rparr>) = (d1, Inr (MInt (int (blen f))))"
    and "dstream d = batch_msgs crc uc f @ rest"
  obtains d2 where "decode crc uc zero ncol (blen f) d1 = Ret (d2, Inr (bcols f))"
    and "dstream d2 = rest" and "derr d2 = derr d" and "dbuf d2 = dbuf d"
proof -
  let ?h = "MInt (int (blen f)) # cols_msgs uc 0 (bcols f)"
  have s: "dstream d1 = cols_msgs uc 0 (bcols f) @ MSum (crc ?h) # rest" "dcrc d1 = [MInt (int (blen f))]"
    "derr d1 = derr d" "dbuf d1 = dbuf d"
    using assms(3,4) by (auto simp: dec_msg_def batch_msgs_def Let_def)
  have "\<forall>c\<in>set (bcols f). length c = blen f" and nc: "ncol = length (bcols f)"
    using assms(2) by (auto simp: wf_batch_def)
  from decode_cols_msgs [OF assms(1) this(1) s(1), of zero] show thesis
    using that s nc by (simp add: decode_def dec_msg_def Let_def)
qed

section \<open>The decoding reader meets the contract\<close>

primrec stream_rows ::
  "(('v, 'u) msg list \<Rightarrow> 32 word) \<Rightarrow> ('v, 'u) ucodec \<Rightarrow> (nat \<Rightarrow> 'v) \<Rightarrow> nat \<Rightarrow> nat \<Rightarrow> ('v, 'u) msg list \<Rightarrow> 'v list list" where
  "stream_rows crc uc zero ncol 0 ms = []"
| "stream_rows crc uc zero ncol (Suc k) ms = (case dec_msg (NewDecodingReader ms) of
       (d, Inr (MInt n)) \<Rightarrow>
         (case decode crc uc zero ncol (nat n) d of
            Ret (d', Inr cs) \<Rightarrow> batch_rows (nat n) cs @ stream_rows crc uc zero ncol k (dstream d')
          | _ \<Rightarrow> [])
     | _ \<Rightarrow> [])"

text \<open>\<open>P\<close> restricts the batches of the stream, for instance to non-empty ones.\<close>

definition dec_ok :: "('v batch \<Rightarrow> bool) \<Rightarrow> (('v, 'u) msg list \<Rightarrow> 32 word) \<Rightarrow> ('v, 'u) ucodec \<Rightarrow> nat \<Rightarrow> ('v, 'u) decodingReader \<Rightarrow> bool" where
  "dec_ok P crc uc ncol d \<longleftrightarrow>
     (\<exists>fs. (\<forall>f\<in>set fs. P f \<and> wf_batch ncol f) \<and> dstream d = concat (map (batch_msgs crc uc) fs)) \<and>
     (derr d = None \<or> derr d = Some EOF \<and> dstream d = [] \<and> dbuf d = [])"

definition dec_str ::
  "(('v, 'u) msg list \<Rightarrow> 32 word) \<Rightarrow> ('v, 'u) ucodec \<Rightarrow> (nat \<Rightarrow> 'v) \<Rightarrow> nat \<Rightarrow> ('v, 'u) decodingReader \<Rightarrow> 'v list list" where
  "dec_str crc uc zero ncol d = dbuf d @ stream_rows crc uc zero ncol (length (dstream d)) (dstream d)"

definition dec_mu ::
  "(('v, 'u) msg list \<Rightarrow> 32 word) \<Rightarrow> ('v, 'u) ucodec \<Rightarrow> (nat \<Rightarrow> 'v) \<Rightarrow> nat \<Rightarrow> ('v, 'u) decodingReader \<Rightarrow> nat" where
  "dec_mu crc uc zero ncol d = length (dstream d) + length (dec_str crc uc zero ncol d)"

lemma batch_msgs_ne [simp]: "batch_msgs crc uc f \<noteq> []" "0 < length (batch_msgs crc uc f)"
  by (auto simp: batch_msgs_def Let_def)

lemma stream_rows_batches:
  assumes "uc_ok uc" and "\<forall>f\<in>set fs. wf_batch ncol f" and "length fs \<le> k"
  shows "stream_rows crc uc zero ncol k (concat (map (batch_msgs crc uc) fs)) = concat (map rows_of_batch fs)"
  using assms(2,3)
proof (induction fs arbitrary: k)
  case Nil
  then show ?case by (cases k) (auto simp: dec_msg_def NewDecodingReader_def)
next
  case (Cons f fs)
  let ?rest = "concat (map (batch_msgs crc uc) fs)" and ?d = "NewDecodingReader (concat (map (batch_msgs crc uc) (f # fs)))"
  obtain k' where k: "k = Suc k'" "length fs \<le> k'" using Cons.prems(2) by (cases k) auto
  have s: "dstream ?d = batch_msgs crc uc f @ ?rest" by (simp add: NewDecodingReader_def)
  obtain d1 where d1: "dec_msg (?d\<lparr>dcrc := []\<rparr>) = (d1, Inr (MInt (int (blen f))))"
    by (auto simp: dec_msg_def NewDecodingReader_def batch_msgs_def Let_def)
  have "?d\<lparr>dcrc := []\<rparr> = ?d" by (simp add: NewDecodingReader_def)
  note d1' = d1 [unfolded this]
  from Cons.prems(1) have "wf_batch ncol f" by simp
  from decode_batch [OF assms(1) this d1 s, of zero] obtain d2 where
    "decode crc uc zero ncol (blen f) d1 = Ret (d2, Inr (bcols f))" "dstream d2 = ?rest" by metis
  with d1' Cons k show ?case by simp
qed

lemma dec_str_batches:
  assumes "uc_ok uc" and "\<forall>f\<in>set fs. wf_batch ncol f" and "dstream d = concat (map (batch_msgs crc uc) fs)"
  shows "dec_str crc uc zero ncol d = dbuf d @ concat (map rows_of_batch fs)"
proof -
  have "length fs \<le> length (concat (map (batch_msgs crc uc) fs))"
  proof (induction fs)
    case (Cons f fs)
    have "0 < length (batch_msgs crc uc f)" by simp
    with Cons show ?case unfolding list.map concat.simps length_append list.size by linarith
  qed simp
  with stream_rows_batches [OF assms(1,2)] assms(3) show ?thesis by (simp add: dec_str_def)
qed

lemma decoding_Read_ok:
  assumes uc: "uc_ok uc" and ok: "dec_ok P crc uc ncol d" and n: "0 < n"
  shows "\<exists>d' xs e. decoding_Read crc uc zero ncol d n = Some (Ret (d', xs, e)) \<and> (e \<noteq> None \<longrightarrow> xs = []) \<and>
    ((\<forall>f. P f \<longrightarrow> 0 < blen f) \<longrightarrow> e = None \<longrightarrow> xs \<noteq> []) \<and>
    read_ok (dec_ok P crc uc ncol) (dec_str crc uc zero ncol) (\<lambda>_. EOF) (dec_mu crc uc zero ncol) d n (d', xs, e)"
proof -
  obtain fs where P: "\<forall>f\<in>set fs. P f" and fs: "\<forall>f\<in>set fs. wf_batch ncol f" "dstream d = concat (map (batch_msgs crc uc) fs)"
    using ok by (auto simp: dec_ok_def)
  note str = dec_str_batches [OF uc]
  consider "derr d \<noteq> None" | "derr d = None" "dbuf d \<noteq> []" | "derr d = None" "dbuf d = []" "fs = []"
    | f gs where "derr d = None" "dbuf d = []" "fs = f # gs" by (cases fs) blast+
  then show ?thesis
  proof cases
    case 1
    then show ?thesis using ok str [OF fs, of zero] by (auto simp: decoding_Read_def read_ok_def dec_ok_def dec_str_def)
  next
    case 2
    have ok': "dec_ok P crc uc ncol (d\<lparr>dbuf := drop n (dbuf d)\<rparr>)" using 2 fs P by (auto simp: dec_ok_def)
    have "length (drop n (dbuf d)) < length (dbuf d)" using 2 n by simp
    with 2 n ok' show ?thesis
      by (simp add: decoding_Read_def Let_def read_ok_def dec_str_def dec_mu_def)
  next
    case 3
    have "dstream d = []" using fs(2) 3 by simp
    with 3 show ?thesis by (auto simp: decoding_Read_def dec_msg_def Let_def read_ok_def dec_ok_def dec_str_def)
  next
    case (4 f gs)
    let ?rest = "concat (map (batch_msgs crc uc) gs)"
    have s: "dstream d = batch_msgs crc uc f @ ?rest" using fs(2) 4 by simp
    obtain d1 where d1: "dec_msg (d\<lparr>dcrc := []\<rparr>) = (d1, Inr (MInt (int (blen f))))"
      using s by (auto simp: dec_msg_def batch_msgs_def Let_def)
    have wf: "wf_batch ncol f" "\<forall>f\<in>set gs. wf_batch ncol f" using fs(1) 4 by auto
    from decode_batch [OF uc wf(1) d1 s, of zero] obtain d2 where
      d2: "decode crc uc zero ncol (blen f) d1 = Ret (d2, Inr (bcols f))" "dstream d2 = ?rest"
      "derr d2 = derr d" "dbuf d2 = dbuf d" by metis
    have less: "length (dstream d2) < length (dstream d)" using d2(2) s by simp
    have ne: "(\<forall>f. P f \<longrightarrow> 0 < blen f) \<longrightarrow> batch_rows (blen f) (bcols f) \<noteq> []"
      using P 4 by (auto simp: batch_rows_def)
    have okd: "dec_ok P crc uc ncol (d2\<lparr>dbuf := b\<rparr>)" for b using d2 wf(2) 4 P by (auto simp: dec_ok_def)
    have strd: "dec_str crc uc zero ncol (d2\<lparr>dbuf := b\<rparr>) = b @ concat (map rows_of_batch gs)" for b
      using str [OF wf(2), of "d2\<lparr>dbuf := b\<rparr>" crc zero] d2 by simp
    have all: "dec_str crc uc zero ncol d = rows_of_batch f @ concat (map rows_of_batch gs)"
      using str [OF fs, of zero] 4 by simp
    show ?thesis
    proof (cases "blen f \<le> n")
      case True
      have "d2\<lparr>dbuf := []\<rparr> = d2" using d2(4) 4 by simp
      with okd [of "[]"] strd [of "[]"] all d1 d2 less ne 4 True show ?thesis
        by (simp add: decoding_Read_def Let_def read_ok_def dec_mu_def)
    next
      case False
      with okd [of "drop n (rows_of_batch f)"] strd [of "drop n (rows_of_batch f)"] all d1 d2 less 4 n show ?thesis
        by (simp add: decoding_Read_def Let_def read_ok_def dec_mu_def batch_rows_def)
    qed
  qed
qed

lemma decoding_reader:
  assumes "uc_ok uc"
  shows "eof_alone_reader (decoding_Read crc uc zero ncol) (dec_ok P crc uc ncol) (dec_str crc uc zero ncol)
    (\<lambda>_. EOF) (dec_mu crc uc zero ncol)"
proof
  fix d :: "('a, 'b) decodingReader" and n :: nat
  assume ok: "dec_ok P crc uc ncol d" and n: "0 < n"
  from decoding_Read_ok [OF assms ok n, of zero] show "\<exists>res. decoding_Read crc uc zero ncol d n = Some (Ret res) \<and>
      read_ok (dec_ok P crc uc ncol) (dec_str crc uc zero ncol) (\<lambda>_. EOF) (dec_mu crc uc zero ncol) d n res" by blast
next
  fix d :: "('a, 'b) decodingReader" and n :: nat and d' xs e
  assume "dec_ok P crc uc ncol d" "0 < n" "decoding_Read crc uc zero ncol d n = Some (Ret (d', xs, Some e))"
  with decoding_Read_ok [OF assms, of P crc ncol d n zero] show "xs = []" by auto
qed

lemma decoding_eager:
  assumes "uc_ok uc"
  shows "eager_reader (decoding_Read crc uc zero ncol) (dec_ok (\<lambda>f. 0 < blen f) crc uc ncol) (dec_str crc uc zero ncol)
    (\<lambda>_. EOF) (dec_mu crc uc zero ncol)"
proof -
  have sr: "slice_reader (decoding_Read crc uc zero ncol) (dec_ok (\<lambda>f. 0 < blen f) crc uc ncol) (dec_str crc uc zero ncol)
      (\<lambda>_. EOF) (dec_mu crc uc zero ncol)"
    using decoding_reader [OF assms] by (rule eof_alone_reader.axioms)
  have "xs \<noteq> []" if "dec_ok (\<lambda>f. 0 < blen f) crc uc ncol d" "0 < n"
    "decoding_Read crc uc zero ncol d n = Some (Ret (d', xs, None))" for d n d' xs
    using decoding_Read_ok [OF assms that(1,2), of zero] that(3) by auto
  with sr show ?thesis by (intro eager_reader.intro eager_reader_axioms.intro) auto
qed

lemma NewDecodingReader_ok:
  assumes "uc_ok uc" and "\<forall>f\<in>set fs. P f \<and> wf_batch ncol f" and "ms = concat (map (batch_msgs crc uc) fs)"
  shows "dec_ok P crc uc ncol (NewDecodingReader ms)"
    and "dec_str crc uc zero ncol (NewDecodingReader ms) = concat (map rows_of_batch fs)"
  using assms dec_str_batches [OF assms(1), of fs ncol "NewDecodingReader ms" crc zero]
  by (auto simp: dec_ok_def NewDecodingReader_def)

lemma readall_decoding:
  assumes "uc_ok uc" and "\<forall>f\<in>set fs. wf_batch ncol f" and "0 < chunk"
    and "ms = concat (map (batch_msgs crc uc) fs)"
  shows "\<exists>d. ReadAll (decoding_Read crc uc zero ncol) chunk (NewDecodingReader ms) [] =
    Some (Ret (d, concat (map rows_of_batch fs), None))"
proof -
  have sr: "slice_reader (decoding_Read crc uc zero ncol) (dec_ok (\<lambda>_. True) crc uc ncol) (dec_str crc uc zero ncol)
      (\<lambda>_. EOF) (dec_mu crc uc zero ncol)"
    using decoding_reader [OF assms(1)] by (rule eof_alone_reader.axioms)
  from slice_reader.readall_loop_spec [OF sr NewDecodingReader_ok(1) [OF assms(1) _ assms(4)] assms(3), of "[]"]
    NewDecodingReader_ok(2) [OF assms(1) _ assms(4), of "\<lambda>_. True" ncol zero] assms(2)
  show ?thesis by (auto simp: ReadAll_def)
qed

lemma fold_enc_Write:
  assumes "uc_ok uc"
  shows "ew (fold (\<lambda>f e. fst (enc_Write put_list crc uc e f)) fs e) = ew e @ concat (map (batch_msgs crc uc) fs)"
proof (induction fs arbitrary: e)
  case (Cons f fs)
  obtain c where "enc_Write put_list crc uc e f = (\<lparr>ew = ew e @ batch_msgs crc uc f, ecrc = c\<rparr>, None)"
    by (rule enc_Write_put [OF assms])
  with Cons show ?case by simp
qed simp

text \<open>
  C14.  Round trip of the codec: batches written one after the other by the encoding writer, with
  columns encoded by gob or by their own codec, are read back by the decoding reader as the rows
  of all batches in order, ending in EOF, whatever the size of the reader's frame; checksums of
  intact batches always match.
\<close>

theorem codec_roundtrip:
  assumes "uc_ok uc" and "\<forall>f\<in>set fs. wf_batch ncol f" and "0 < chunk"
  shows "\<exists>d. ReadAll (decoding_Read crc uc zero ncol) chunk
      (NewDecodingReader (ew (fold (\<lambda>f e. fst (enc_Write put_list crc uc e f)) fs (NewEncodingWriter [])))) [] =
    Some (Ret (d, concat (map rows_of_batch fs), None))"
  using readall_decoding [OF assms refl] fold_enc_Write [OF assms(1), of crc fs "NewEncodingWriter []"]
  by (simp add: NewEncodingWriter_def)

theorem codec_roundtrip_witness:
  "\<exists>d. ReadAll (decoding_Read (\<lambda>ms. of_nat (length ms)) (\<lambda>i. if i = 1 then Some (\<lambda>c. Inr (rev c), \<lambda>u n. Inr (rev u)) else None)
       (\<lambda>_. 0) 2) 2
      (NewDecodingReader (ew (fold (\<lambda>f e. fst (enc_Write put_list (\<lambda>ms. of_nat (length ms))
         (\<lambda>i. if i = 1 then Some (\<lambda>c. Inr (rev c), \<lambda>u n. Inr (rev u)) else None) e f))
         [\<lparr>blen = 3, bcols = [[1, 2, 3], [4, 5, 6::int]]\<rparr>, \<lparr>blen = 1, bcols = [[7], [8]]\<rparr>] (NewEncodingWriter [])))) [] =
    Some (Ret (d, concat (map rows_of_batch [\<lparr>blen = 3, bcols = [[1, 2, 3], [4, 5, 6]]\<rparr>, \<lparr>blen = 1, bcols = [[7], [8]]\<rparr>]), None))"
  by (rule codec_roundtrip) (auto simp: uc_ok_def wf_batch_def split: if_splits)

text \<open>
  \<open>MultiReader\<close> is the concatenation of its readers, provided that none of them returns rows
  together with an error: read to the end it delivers the rows of all of them in order and ends
  with EOF when they all do.
\<close>

theorem MultiReader_concat:
  assumes "eof_alone_reader rd ok str fin mu" and "\<forall>r\<in>set rs. ok r \<and> fin r = EOF" and "0 < chunk"
  shows "\<exists>m. ReadAll (multi_Read rd) chunk (MultiReader rs) [] = Some (Ret (m, concat (map str rs), None))"
proof -
  note multi = eof_alone_reader.multi_reader [OF assms(1)]
  have "\<forall>r\<in>set rs. fin r = EOF" using assms(2) by blast
  note cat = cat_concat [OF this, of str]
  have "\<forall>r\<in>set (mq (MultiReader rs)). \<exists>r'. r = Some r' \<and> ok r'" using assms(2) by (auto simp: MultiReader_def)
  from slice_reader.readall_loop_spec [OF multi this assms(3), of "[]"] cat show ?thesis
    by (auto simp: ReadAll_def MultiReader_def)
qed

theorem MultiReader_concat_witness:
  "\<exists>m. ReadAll (multi_Read (decoding_Read (\<lambda>_. 0) (\<lambda>_. None) (\<lambda>_. 0) 1)) 5
      (MultiReader [NewDecodingReader [MInt 2, MBool False, MCol [1, 2::int], MSum 0],
         NewDecodingReader [MInt 1, MBool False, MCol [3], MSum 0 :: (int, unit) msg]]) [] =
    Some (Ret (m, [[1], [2], [3]], None))"
proof -
  let ?uc = "\<lambda>_. None :: ((int list \<Rightarrow> goerror + unit) \<times> (unit \<Rightarrow> nat \<Rightarrow> goerror + int list)) option"
  have uc: "uc_ok ?uc" by (simp add: uc_ok_def)
  have d: "dec_ok (\<lambda>_. True) (\<lambda>_. 0) ?uc 1 (NewDecodingReader [MInt (int (length xs)), MBool False, MCol xs, MSum 0]) \<and>
      dec_str (\<lambda>_. 0) ?uc (\<lambda>_. 0) 1 (NewDecodingReader [MInt (int (length xs)), MBool False, MCol xs, MSum 0])
        = concat (map rows_of_batch [\<lparr>blen = length xs, bcols = [xs]\<rparr>])" for xs
    by (intro conjI NewDecodingReader_ok [OF uc, where P = "\<lambda>_. True" and fs = "[\<lparr>blen = length xs, bcols = [xs]\<rparr>]"])
      (simp_all add: wf_batch_def batch_msgs_def col_msgs_def)
  show ?thesis
    using MultiReader_concat [OF decoding_reader [OF uc, where P = "\<lambda>_. True" and crc = "\<lambda>_. 0" and zero = "\<lambda>_. 0" and ncol = 1], where chunk = 5
        and rs = "[NewDecodingReader [MInt 2, MBool False, MCol [1, 2], MSum 0], NewDecodingReader [MInt 1, MBool False, MCol [3], MSum 0]]"]
      d [of "[1, 2]"] d [of "[3]"]
    by (simp add: batch_rows_def)
qed

section \<open>Damaged streams\<close>

text \<open>A batch whose checksum is not that of what has been read ends the reader with an integrity error, which stays.\<close>

definition bad_checksum :: goerror where
  "bad_checksum = ErrE [AIntegrity] (Some (ErrNew ''computed checksum but expected checksum''))"

lemma decoding_Read_bad:
  assumes "uc_ok uc" and "wf_batch ncol f" and "h = MInt (int (blen f)) # cols_msgs uc 0 (bcols f)" and "stored \<noteq> crc h"
    and d: "dstream d = h @ MSum stored # rest" "derr d = None" "dbuf d = []"
  shows "\<exists>d'. decoding_Read crc uc zero ncol d n = Some (Ret (d', [], Some bad_checksum)) \<and> derr d' = Some bad_checksum"
proof -
  let ?d = "d\<lparr>dstream := cols_msgs uc 0 (bcols f) @ MSum stored # rest, dcrc := [MInt (int (blen f))]\<rparr>"
  have c: "\<forall>c\<in>set (bcols f). length c = blen f" and nc: "ncol = length (bcols f)" using assms(2) by (auto simp: wf_batch_def)
  have "decode_cols uc zero (blen f) 0 ncol ?d =
      Ret (?d\<lparr>dstream := MSum stored # rest, dcrc := dcrc ?d @ cols_msgs uc 0 (bcols f)\<rparr>, Inr (bcols f))"
    unfolding nc by (rule decode_cols_msgs [OF assms(1) c]) simp
  then show ?thesis using assms(3,4) d by (simp add: decoding_Read_def dec_msg_def decode_def Let_def bad_checksum_def)
qed

lemma readall_bad:
  assumes uc: "uc_ok uc" and f: "wf_batch ncol f" and h: "h = MInt (int (blen f)) # cols_msgs uc 0 (bcols f)" and st: "stored \<noteq> crc h" and ch: "0 < chunk"
  shows "\<forall>f\<in>set fs. wf_batch ncol f \<Longrightarrow> dstream d = concat (map (batch_msgs crc uc) fs) @ h @ MSum stored # rest \<Longrightarrow> derr d = None \<Longrightarrow>
    \<exists>d'. readall_loop (decoding_Read crc uc zero ncol) chunk d acc = Some (Ret (d', acc @ dbuf d @ concat (map rows_of_batch fs), Some bad_checksum)) \<and>
      derr d' = Some bad_checksum"
proof (induction "length (dbuf d) + (\<Sum>f\<leftarrow>fs. Suc (blen f))" arbitrary: d fs acc rule: less_induct)
  case less
  have bad: "bad_checksum \<noteq> EOF" by (simp add: bad_checksum_def)
  show ?case
  proof (cases "dbuf d = []")
    case False
    let ?d = "d\<lparr>dbuf := drop chunk (dbuf d)\<rparr>"
    have "length (dbuf ?d) < length (dbuf d)" using False ch by simp
    from less.hyps [of ?d fs "acc @ take chunk (dbuf d)"] this less.prems obtain d' where
      "readall_loop (decoding_Read crc uc zero ncol) chunk ?d (acc @ take chunk (dbuf d)) =
        Some (Ret (d', (acc @ take chunk (dbuf d)) @ drop chunk (dbuf d) @ concat (map rows_of_batch fs), Some bad_checksum))" "derr d' = Some bad_checksum" by auto
    then show ?thesis using False less.prems(3) by (subst readall_loop.simps) (simp add: decoding_Read_def Let_def)
  next
    case True
    show ?thesis
    proof (cases fs)
      case Nil
      have "dstream d = h @ MSum stored # rest" using less.prems(2) Nil by simp
      from decoding_Read_bad [where crc = crc, OF uc f h st this less.prems(3) True, of zero chunk] obtain d' where
        "decoding_Read crc uc zero ncol d chunk = Some (Ret (d', [], Some bad_checksum))" "derr d' = Some bad_checksum" by blast
      then show ?thesis using True Nil bad by (subst readall_loop.simps) simp
    next
      case (Cons b gs)
      let ?rest = "concat (map (batch_msgs crc uc) gs) @ h @ MSum stored # rest"
      have s: "dstream d = batch_msgs crc uc b @ ?rest" using less.prems(2) Cons by simp
      obtain d1 where d1: "dec_msg (d\<lparr>dcrc := []\<rparr>) = (d1, Inr (MInt (int (blen b))))" using s by (auto simp: dec_msg_def batch_msgs_def Let_def)
      have "wf_batch ncol b" using less.prems(1) Cons by simp
      from decode_batch [OF uc this d1 s, of zero] obtain d2 where d2: "decode crc uc zero ncol (blen b) d1 = Ret (d2, Inr (bcols b))"
        "dstream d2 = ?rest" "derr d2 = derr d" "dbuf d2 = dbuf d" by metis
      let ?d = "d2\<lparr>dbuf := drop chunk (rows_of_batch b)\<rparr>"
      have r: "decoding_Read crc uc zero ncol d chunk = Some (Ret (?d, take chunk (rows_of_batch b), None))"
        using d1 d2 True less.prems(3) by (auto simp: decoding_Read_def Let_def)
      have "length (dbuf ?d) + (\<Sum>f\<leftarrow>gs. Suc (blen f)) < length (dbuf d) + (\<Sum>f\<leftarrow>fs. Suc (blen f))" using Cons by simp
      from less.hyps [OF this, of "acc @ take chunk (rows_of_batch b)"] less.prems(1,3) d2(2,3) Cons obtain d' where
        "readall_loop (decoding_Read crc uc zero ncol) chunk ?d (acc @ take chunk (rows_of_batch b)) =
          Some (Ret (d', (acc @ take chunk (rows_of_batch b)) @ drop chunk (rows_of_batch b) @ concat (map rows_of_batch gs), Some bad_checksum))"
        "derr d' = Some bad_checksum" by auto
      then show ?thesis using r True Cons by (subst readall_loop.simps) simp
    qed
  qed
qed

text \<open>
  C32.  Checksums keep a damaged batch out.  Take any stream of good batches followed by one that, as it is read, does
  not have the checksum stored with it, whatever follows: read to the end in batches of any size, the
  reader delivers all rows of the good batches, none of the damaged one, and an integrity error; and every
  later read returns no rows and that error again.
\<close>

theorem decoding_Read_checksum:
  assumes "uc_ok uc" and "\<forall>b\<in>set fs. wf_batch ncol b" and "wf_batch ncol f" and "h = MInt (int (blen f)) # cols_msgs uc 0 (bcols f)"
    and "stored \<noteq> crc h" and "0 < chunk"
  shows "\<exists>d err. ReadAll (decoding_Read crc uc zero ncol) chunk
      (NewDecodingReader (concat (map (batch_msgs crc uc) fs) @ h @ MSum stored # rest)) [] =
        Some (Ret (d, concat (map rows_of_batch fs), Some (ErrE [AIntegrity] err))) \<and>
    (\<forall>n. decoding_Read crc uc zero ncol d n = Some (Ret (d, [], Some (ErrE [AIntegrity] err))))"
proof -
  let ?d = "NewDecodingReader (concat (map (batch_msgs crc uc) fs) @ h @ MSum stored # rest)"
  have "dstream ?d = concat (map (batch_msgs crc uc) fs) @ h @ MSum stored # rest" "derr ?d = None" "dbuf ?d = []" by (simp_all add: NewDecodingReader_def)
  from readall_bad [OF assms(1,3-6,2) this(1,2), of zero "[]"] this(3) obtain d' where
    "readall_loop (decoding_Read crc uc zero ncol) chunk ?d [] = Some (Ret (d', concat (map rows_of_batch fs), Some bad_checksum))" "derr d' = Some bad_checksum" by auto
  then show ?thesis
    by (intro exI [of _ d'] exI [of _ "Some (ErrNew ''computed checksum but expected checksum'')"]) (simp add: ReadAll_def decoding_Read_def bad_checksum_def)
qed

theorem decoding_Read_checksum_witness:
  "\<exists>d err. ReadAll (decoding_Read (\<lambda>ms. of_nat (length ms)) (\<lambda>_. None) (\<lambda>_. 0) 1) 1
     (NewDecodingReader [MInt (int 2), MBool False, MCol [1, 2::int], MSum 3, MInt (int 1), MBool False, MCol [5], MSum 9]) [] =
    Some (Ret (d, [[1], [2]], Some (ErrE [AIntegrity] err)))"
proof -
  have r: "[0 ..< 2] = [0, Suc 0]" by (simp add: upt_rec)
  show ?thesis
    using decoding_Read_checksum [where uc = "\<lambda>_. None" and crc = "\<lambda>ms. of_nat (length ms)" and ncol = 1 and f = "\<lparr>blen = 1, bcols = [[5::int]]\<rparr>"
        and fs = "[\<lparr>blen = 2, bcols = [[1, 2]]\<rparr>]" and h = "[MInt (int 1), MBool False, MCol [5]]" and stored = 9 and chunk = 1 and rest = "[]" and zero = "\<lambda>_. 0"]
    by (simp add: uc_ok_def wf_batch_def col_msgs_def batch_msgs_def batch_rows_def Let_def r) blast
qed

text \<open>
  A stream cut between the codec flag and the values of a column ends gracefully: the decoding
  reader reports EOF, so a consumer takes a truncated batch for the end of the data, although
  \<open>sliceio.EOF\<close> is documented to signal a graceful end of output.
\<close>

theorem truncated_column_is_EOF:
  assumes "uc 0 = None" and "0 < chunk"
  shows "\<exists>d. ReadAll (decoding_Read crc uc zero (Suc k)) chunk (NewDecodingReader [MInt (int m), MBool False]) [] =
    Some (Ret (d, [], None))"
  using assms
  by (simp add: ReadAll_def readall_loop.simps decoding_Read_def dec_msg_def NewDecodingReader_def
      decode_def decode_col_def Let_def)

theorem truncated_column_is_EOF_witness:
  "\<exists>d. ReadAll (decoding_Read (\<lambda>_. 0) (\<lambda>_. None) (\<lambda>_. 0::int) (Suc 1)) 128 (NewDecodingReader [MInt (int 100), MBool False]) [] =
    Some (Ret (d, [], None))"
  by (rule truncated_column_is_EOF) simp_all

section \<open>Spilling\<close>

lemma wf_batch_take_drop:
  "wf_batch ncol f \<Longrightarrow> wf_batch ncol (batch_take n f)" "wf_batch ncol f \<Longrightarrow> wf_batch ncol (batch_drop n f)"
  by (auto simp: wf_batch_def batch_take_def batch_drop_def)

lemma rows_take_drop:
  assumes "wf_batch ncol f" and "n \<le> blen f"
  shows "rows_of_batch (batch_take n f) @ rows_of_batch (batch_drop n f) = rows_of_batch f"
proof (rule nth_equalityI)
  show "length (rows_of_batch (batch_take n f) @ rows_of_batch (batch_drop n f)) = length (rows_of_batch f)"
    using assms(2) by (simp add: batch_take_def batch_drop_def)
  fix i assume "i < length (rows_of_batch (batch_take n f) @ rows_of_batch (batch_drop n f))"
  then show "(rows_of_batch (batch_take n f) @ rows_of_batch (batch_drop n f)) ! i = rows_of_batch f ! i"
    using assms by (auto simp: batch_take_def batch_drop_def batch_rows_def nth_append wf_batch_def)
qed

lemma spill_loop_spec:
  assumes "uc_ok uc" and "wf_batch ncol f" and "0 < batchSize"
  shows "\<exists>fs e'. spill_loop put_list crc uc batchSize e f = Some (e', None) \<and>
    ew e' = ew e @ concat (map (batch_msgs crc uc) fs) \<and> (\<forall>g\<in>set fs. wf_batch ncol g \<and> 0 < blen g) \<and>
    concat (map rows_of_batch fs) = rows_of_batch f"
  using assms(2)
proof (induction "blen f" arbitrary: f e rule: less_induct)
  case less
  show ?case
  proof (cases "blen f = 0")
    case True
    then show ?thesis by (subst spill_loop.simps) (auto simp: batch_rows_def intro!: exI [of _ "[]"])
  next
    case False
    define n where "n = (if blen f < batchSize then blen f else batchSize)"
    have n: "0 < n" "n \<le> blen f" using False assms(3) by (auto simp: n_def)
    obtain c where w: "enc_Write put_list crc uc e (batch_take n f) =
        (\<lparr>ew = ew e @ batch_msgs crc uc (batch_take n f), ecrc = c\<rparr>, None)" by (rule enc_Write_put [OF assms(1)])
    have "blen (batch_drop n f) < blen f" using n by (simp add: batch_drop_def)
    from less.hyps [OF this wf_batch_take_drop(2) [OF less.prems]] obtain fs e' where IH:
      "spill_loop put_list crc uc batchSize \<lparr>ew = ew e @ batch_msgs crc uc (batch_take n f), ecrc = c\<rparr> (batch_drop n f) = Some (e', None)"
      "ew e' = (ew e @ batch_msgs crc uc (batch_take n f)) @ concat (map (batch_msgs crc uc) fs)"
      "\<forall>g\<in>set fs. wf_batch ncol g \<and> 0 < blen g" "concat (map rows_of_batch fs) = rows_of_batch (batch_drop n f)"
      by fastforce
    have "spill_loop put_list crc uc batchSize e f = Some (e', None)"
      using False IH(1) w by (subst spill_loop.simps) (simp add: Let_def n_def)
    moreover have "0 < blen (batch_take n f)" using n by (simp add: batch_take_def)
    ultimately show ?thesis
      using IH n less.prems rows_take_drop [OF less.prems n(2)] wf_batch_take_drop(1) [OF less.prems, of n]
      by (intro exI [of _ "batch_take n f # fs"] exI [of _ e']) auto
  qed
qed

text \<open>
  C30.  Spilling: \<open>Spill\<close> writes a new file from which the rows of the frame are read back in order,
  in batches of at most \<open>SpillBatchSize\<close> rows, and leaves the other files alone.
\<close>

theorem Spill_roundtrip:
  assumes "uc_ok uc" and "wf_batch ncol f" and "0 < batchSize" and "0 < chunk"
  shows "\<exists>ms d. Spill crc uc batchSize dir f = Some (dir @ [ms], None) \<and>
    ReadAll (decoding_Read crc uc zero ncol) chunk (NewDecodingReader ms) [] = Some (Ret (d, rows_of_batch f, None))"
proof -
  obtain fs e' where sp: "spill_loop put_list crc uc batchSize (NewEncodingWriter []) f = Some (e', None)"
    "ew e' = concat (map (batch_msgs crc uc) fs)"
    "\<forall>g\<in>set fs. wf_batch ncol g \<and> 0 < blen g" "concat (map rows_of_batch fs) = rows_of_batch f"
    using spill_loop_spec [OF assms(1-3), of crc "NewEncodingWriter []"] by (auto simp: NewEncodingWriter_def)
  have "Spill crc uc batchSize dir f = Some (dir @ [ew e'], None)" using sp(1) by (simp add: Spill_def)
  moreover have "\<exists>d. ReadAll (decoding_Read crc uc zero ncol) chunk (NewDecodingReader (ew e')) [] =
      Some (Ret (d, rows_of_batch f, None))"
    using readall_decoding [OF assms(1) _ assms(4), of fs ncol "ew e'" crc zero] sp by (auto simp: NewEncodingWriter_def)
  ultimately show ?thesis by blast
qed

theorem Spill_roundtrip_witness:
  "\<exists>ms d. Spill (\<lambda>_. 0) (\<lambda>_. None) 2 [] \<lparr>blen = 3, bcols = [[1, 2, 3::int]]\<rparr> = Some ([] @ [ms], None) \<and>
    ReadAll (decoding_Read (\<lambda>_. 0) (\<lambda>_. None) (\<lambda>_. 0) 1) 2 (NewDecodingReader ms) [] =
      Some (Ret (d, rows_of_batch \<lparr>blen = 3, bcols = [[1, 2, 3]]\<rparr>, None))"
  by (rule Spill_roundtrip) (simp_all add: uc_ok_def wf_batch_def)

end
