(* ===== verification/SortIO.thy ===== *)
theory SortIO
  imports GoHeap Codec
begin

text \<open>
  \<open>sortio/sort.go\<close> and \<open>sortio/reader.go\<close>: external sorting, merging of sorted readers, and the
  reduction of sorted readers by key.

  A \<open>FrameBuffer\<close> is a reader with a window of a shared frame; the window is modelled by the rows
  it holds, so that the row at the buffer's position is \<open>cur\<close>.  Buffers are kept in a heap ordered
  by their current rows; the order on rows is the parameter \<open>lt\<close>, which \<open>Frame.Less\<close> computes.
\<close>

section \<open>Frame buffers\<close>

record ('s, 'r) FrameBuffer =
  fframe :: "'r list"
  freader :: 's
  fIndex :: nat
  fLen :: nat

definition cur :: "('s, 'r) FrameBuffer \<Rightarrow> 'r" where
  "cur b = fframe b ! fIndex b"

definition Fill ::
  "('s, 'r) reader \<Rightarrow> nat \<Rightarrow> ('s, 'r) FrameBuffer \<Rightarrow> (('s, 'r) FrameBuffer \<times> gerr) go option" where
  "Fill rd chunk b =
     (if fIndex b \<noteq> fLen b then Some (Panic ''FrameBuffer.Fill: fill on nonempty buffer'')
      else run_bind (rd (freader b) chunk) (\<lambda>(r', xs, err).
        let b' = b\<lparr>fframe := xs, freader := r', fLen := length xs\<rparr>
        in if err \<noteq> None \<and> err \<noteq> Some EOF then Some (Ret (b', err))
           else let err = (if err = Some EOF \<and> 0 < fLen b' then None else err);
                    b' = b'\<lparr>fIndex := 0\<rparr>;
                    err = (if fLen b' = 0 \<and> err = None then Some EOF else err)
                in Some (Ret (b', err))))"

type_synonym ('s, 'r) FrameBufferHeap = "('s, 'r) FrameBuffer list"

definition fb_Len :: "('s, 'r) FrameBufferHeap \<Rightarrow> nat" where
  "fb_Len h = length h"

definition fb_Less :: "('r \<Rightarrow> 'r \<Rightarrow> bool) \<Rightarrow> ('s, 'r) FrameBufferHeap \<Rightarrow> nat \<Rightarrow> nat \<Rightarrow> bool" where
  "fb_Less lt h i j = lt (cur (h ! i)) (cur (h ! j))"

definition fb_Swap :: "('s, 'r) FrameBufferHeap \<Rightarrow> nat \<Rightarrow> nat \<Rightarrow> ('s, 'r) FrameBufferHeap" where
  "fb_Swap h i j = h[i := h ! j, j := h ! i]"

definition fb_Push :: "('s, 'r) FrameBufferHeap \<Rightarrow> ('s, 'r) FrameBuffer \<Rightarrow> ('s, 'r) FrameBufferHeap" where
  "fb_Push h x = h @ [x]"

definition fb_Pop :: "('s, 'r) FrameBufferHeap \<Rightarrow> ('s, 'r) FrameBufferHeap \<times> ('s, 'r) FrameBuffer" where
  "fb_Pop h = (let n = length h in (take (n - 1) h, h ! (n - 1)))"

text \<open>The loop that fills a buffer for every reader and keeps those that have data.\<close>

fun fill_all ::
  "('s, 'r) reader \<Rightarrow> nat \<Rightarrow> 's list \<Rightarrow> ('s, 'r) FrameBufferHeap \<Rightarrow> (('s, 'r) FrameBufferHeap \<times> gerr) go option" where
  "fill_all rd chunk [] h = Some (Ret (h, None))"
| "fill_all rd chunk (r # rs) h =
     run_bind (Fill rd chunk \<lparr>fframe = [], freader = r, fIndex = 0, fLen = 0\<rparr>) (\<lambda>(b, err).
       if err = Some EOF then fill_all rd chunk rs h
       else if err \<noteq> None then Some (Ret (h, err))
       else fill_all rd chunk rs (h @ [b]))"

section \<open>The merge reader\<close>

record ('s, 'r) mergeReader =
  merge_err :: gerr
  merge_heap :: "('s, 'r) FrameBufferHeap"

definition NewMergeReader ::
  "('r \<Rightarrow> 'r \<Rightarrow> bool) \<Rightarrow> ('s, 'r) reader \<Rightarrow> nat \<Rightarrow> 's list \<Rightarrow> (goerror + ('s, 'r) mergeReader) go option" where
  "NewMergeReader lt rd batchSize readers =
     run_bind (fill_all rd batchSize readers []) (\<lambda>(h, err). case err of
         Some e \<Rightarrow> Some (Ret (Inl e))
       | None \<Rightarrow> Some (Ret (Inr \<lparr>merge_err = None, merge_heap = heap_Init (fb_Less lt) fb_Swap fb_Len h\<rparr>)))"

text \<open>
  One iteration of the loop in \<open>Read\<close>: the current row of the first buffer is copied out and the
  buffer advanced, refilled or removed.
\<close>

definition merge_step ::
  "('r \<Rightarrow> 'r \<Rightarrow> bool) \<Rightarrow> ('s, 'r) reader \<Rightarrow> nat \<Rightarrow> ('s, 'r) FrameBufferHeap \<Rightarrow> (('s, 'r) FrameBufferHeap \<times> 'r \<times> gerr) go option" where
  "merge_step lt rd batchSize h =
     (let b = h ! 0; x = cur b; b = b\<lparr>fIndex := Suc (fIndex b)\<rparr>;
          fixup = (\<lambda>b. heap_Fix (fb_Less lt) fb_Swap fb_Len (h[0 := b]) 0)
      in if fIndex b = fLen b
         then run_bind (Fill rd batchSize b) (\<lambda>(b', err).
           if err \<noteq> None \<and> err \<noteq> Some EOF then Some (Ret (h[0 := b'], x, err))
           else if err = Some EOF
           then Some (Ret (fst (heap_Remove (fb_Less lt) fb_Swap fb_Len fb_Pop (h[0 := b']) 0), x, None))
           else Some (Ret (fixup b', x, None)))
         else Some (Ret (fixup b, x, None)))"

primrec merge_loop ::
  "('r \<Rightarrow> 'r \<Rightarrow> bool) \<Rightarrow> ('s, 'r) reader \<Rightarrow> nat \<Rightarrow> nat \<Rightarrow> ('s, 'r) FrameBufferHeap
     \<Rightarrow> (('s, 'r) FrameBufferHeap \<times> 'r list \<times> gerr) go option" where
  "merge_loop lt rd batchSize 0 h = Some (Ret (h, [], None))"
| "merge_loop lt rd batchSize (Suc k) h =
     (if h = [] then Some (Ret (h, [], None))
      else run_bind (merge_step lt rd batchSize h) (\<lambda>(h', x, err).
        if err \<noteq> None then Some (Ret (h', [], err))
        else run_bind (merge_loop lt rd batchSize k h') (\<lambda>(h'', xs, err).
          if err \<noteq> None then Some (Ret (h'', [], err)) else Some (Ret (h'', x # xs, None)))))"

definition merge_Read ::
  "('r \<Rightarrow> 'r \<Rightarrow> bool) \<Rightarrow> ('s, 'r) reader \<Rightarrow> nat \<Rightarrow> (('s, 'r) mergeReader, 'r) reader" where
  "merge_Read lt rd batchSize m n =
     (if merge_err m \<noteq> None then Some (Ret (m, [], merge_err m))
      else run_bind (merge_loop lt rd batchSize n (merge_heap m)) (\<lambda>(h, xs, err).
        if err \<noteq> None then Some (Ret (\<lparr>merge_err = err, merge_heap = h\<rparr>, [], err))
        else let e = (if xs = [] then Some EOF else None)
             in Some (Ret (\<lparr>merge_err = e, merge_heap = h\<rparr>, xs, e))))"

section \<open>The reducing reader\<close>

text \<open>
  Rows are pairs of the key columns and the value column; \<open>lt\<close> orders keys.  \<open>combiner\<close> is the
  user's function.
\<close>

record ('s, 'k, 'v) reduceReader =
  red_readers :: "'s list"
  red_err :: gerr
  red_heap :: "('s, 'k \<times> 'v) FrameBufferHeap option"

definition Reduce :: "stype \<Rightarrow> 's list \<Rightarrow> ('s, 'k, 'v) reduceReader go" where
  "Reduce t readers =
     (if NumOut t - Prefix t \<noteq> 1 then Panic ''cannot reduce type''
      else Ret \<lparr>red_readers = readers, red_err = None, red_heap = None\<rparr>)"

abbreviation key_less :: "('k \<Rightarrow> 'k \<Rightarrow> bool) \<Rightarrow> 'k \<times> 'v \<Rightarrow> 'k \<times> 'v \<Rightarrow> bool" where
  "key_less lt x y \<equiv> lt (fst x) (fst y)"

lemma length_heap_Pop:
  "h \<noteq> [] \<Longrightarrow> length (fst (heap_Pop lessf fb_Swap fb_Len fb_Pop h)) < length h"
  by (simp add: heap_Pop_def fb_Pop_def Let_def heap_down_keeps [where g = length] fb_Swap_def)

text \<open>Gathering the buffers with the key of the first one popped; each iteration shortens the heap.\<close>

function (sequential) gather ::
  "('k \<Rightarrow> 'k \<Rightarrow> bool) \<Rightarrow> ('s, 'k \<times> 'v) FrameBufferHeap \<Rightarrow> ('s, 'k \<times> 'v) FrameBuffer list
     \<Rightarrow> ('s, 'k \<times> 'v) FrameBufferHeap \<times> ('s, 'k \<times> 'v) FrameBuffer list" where
  "gather lt h combine =
     (if h = [] then (h, combine)
      else if combine = [] \<or> \<not> key_less lt (cur (combine ! 0)) (cur (h ! 0))
      then let (h', b) = heap_Pop (fb_Less (key_less lt)) fb_Swap fb_Len fb_Pop h
           in gather lt h' (combine @ [b])
      else (h, combine))"
  by pat_completeness auto

termination
proof (relation "measure (\<lambda>(lt, h, combine). length h)")
  fix lt :: "'k \<Rightarrow> 'k \<Rightarrow> bool" and h :: "('s, 'k \<times> 'v) FrameBufferHeap" and combine p h' b
  assume "h \<noteq> []" and p: "p = heap_Pop (fb_Less (key_less lt)) fb_Swap fb_Len fb_Pop h" "(h', b) = p"
  have "h' = fst (heap_Pop (fb_Less (key_less lt)) fb_Swap fb_Len fb_Pop h)" using p by (metis fst_conv)
  then show "((lt, h', combine @ [b]), lt, h, combine) \<in> measure (\<lambda>(lt, h, combine). length h)"
    using length_heap_Pop [OF \<open>h \<noteq> []\<close>, of "fb_Less (key_less lt)"] by simp
qed simp

declare gather.simps [simp del]

fun combine_vals :: "('v \<Rightarrow> 'v \<Rightarrow> 'v go) \<Rightarrow> 'v \<Rightarrow> 'v list \<Rightarrow> 'v go" where
  "combine_vals combiner combined [] = Ret combined"
| "combine_vals combiner combined (v # vs) =
     go_bind (combiner combined v) (\<lambda>c. combine_vals combiner c vs)"

fun advance ::
  "('k \<Rightarrow> 'k \<Rightarrow> bool) \<Rightarrow> ('s, 'k \<times> 'v) reader \<Rightarrow> nat \<Rightarrow> ('s, 'k \<times> 'v) FrameBuffer list \<Rightarrow> ('s, 'k \<times> 'v) FrameBufferHeap
     \<Rightarrow> (('s, 'k \<times> 'v) FrameBufferHeap \<times> gerr) go option" where
  "advance lt rd chunk [] h = Some (Ret (h, None))"
| "advance lt rd chunk (b # bs) h =
     (let b = b\<lparr>fIndex := Suc (fIndex b)\<rparr>;
          push = (\<lambda>b. heap_Push (fb_Less (key_less lt)) fb_Swap fb_Len fb_Push h b)
      in if fIndex b = fLen b
         then run_bind (Fill rd chunk b) (\<lambda>(b', err).
           if err \<noteq> None \<and> err \<noteq> Some EOF then Some (Ret (h, err))
           else if err = None then advance lt rd chunk bs (push b')
           else advance lt rd chunk bs h)
         else advance lt rd chunk bs (push b))"

primrec reduce_loop ::
  "('k \<Rightarrow> 'k \<Rightarrow> bool) \<Rightarrow> ('v \<Rightarrow> 'v \<Rightarrow> 'v go) \<Rightarrow> ('s, 'k \<times> 'v) reader \<Rightarrow> nat \<Rightarrow> nat \<Rightarrow> ('s, 'k \<times> 'v) FrameBufferHeap
     \<Rightarrow> (('s, 'k \<times> 'v) FrameBufferHeap \<times> ('k \<times> 'v) list \<times> gerr) go option" where
  "reduce_loop lt combiner rd chunk 0 h = Some (Ret (h, [], None))"
| "reduce_loop lt combiner rd chunk (Suc k) h =
     (if h = [] then Some (Ret (h, [], None))
      else let (h', combine) = gather lt h [];
               vs = map (\<lambda>b. snd (cur b)) combine
           in run_bind (Some (combine_vals combiner (hd vs) (tl vs))) (\<lambda>combined.
             run_bind (advance lt rd chunk combine h') (\<lambda>(h'', err).
               if err \<noteq> None then Some (Ret (h'', [], err))
               else run_bind (reduce_loop lt combiner rd chunk k h'') (\<lambda>(h3, xs, err).
                 Some (Ret (h3, (fst (cur (combine ! 0)), combined) # xs, err))))))"

definition reduce_Read ::
  "('k \<Rightarrow> 'k \<Rightarrow> bool) \<Rightarrow> ('v \<Rightarrow> 'v \<Rightarrow> 'v go) \<Rightarrow> ('s, 'k \<times> 'v) reader \<Rightarrow> nat \<Rightarrow> (('s, 'k, 'v) reduceReader, 'k \<times> 'v) reader" where
  "reduce_Read lt combiner rd chunk r n =
     (if red_err r \<noteq> None then Some (Ret (r, [], red_err r))
      else run_bind (case red_heap r of
            Some h \<Rightarrow> Some (Ret (h, None))
          | None \<Rightarrow> run_bind (fill_all rd chunk (red_readers r) []) (\<lambda>(h, err). Some (Ret
              (if err \<noteq> None then h else heap_Init (fb_Less (key_less lt)) fb_Swap fb_Len h, err))))
        (\<lambda>(h, err).
          if err \<noteq> None then Some (Ret (r\<lparr>red_err := err, red_heap := Some h\<rparr>, [], err))
          else run_bind (reduce_loop lt combiner rd chunk n h) (\<lambda>(h', xs, err).
            if err \<noteq> None then Some (Ret (r\<lparr>red_err := err, red_heap := Some h'\<rparr>, xs, err))
            else Some (Ret (r\<lparr>red_heap := Some h'\<rparr>, xs, if h' = [] then Some EOF else None)))))"

section \<open>The sorting reader\<close>

text \<open>
  \<open>srt\<close> is \<open>sort.Sort\<close> on the rows of a frame and \<open>fsize\<close> the encoded size of a spill file.  The
  five-percent test is written in exact arithmetic; it only decides the size of the buffer.
\<close>

definition batch_of_rows :: "nat \<Rightarrow> 'v list list \<Rightarrow> 'v batch" where
  "batch_of_rows ncol xs = \<lparr>blen = length xs, bcols = map (\<lambda>j. map (\<lambda>x. x ! j) xs) [0 ..< ncol]\<rparr>"

partial_function (option) sort_loop ::
  "('v list list \<Rightarrow> 'v list list) \<Rightarrow> (('v, 'u) msg list \<Rightarrow> nat) \<Rightarrow> (('v, 'u) msg list \<Rightarrow> 32 word) \<Rightarrow> ('v, 'u) ucodec
     \<Rightarrow> nat \<Rightarrow> nat \<Rightarrow> nat \<Rightarrow> ('s, 'v list) reader \<Rightarrow> nat \<Rightarrow> 's \<Rightarrow> ('v, 'u) msg list list
     \<Rightarrow> (goerror + ('v, 'u) msg list list) go option" where
  "sort_loop srt fsize crc uc ncol batchSize spillTarget rd len r dir =
     run_bind (ReadFull rd r len) (\<lambda>(r', xs, err).
       if err \<noteq> None \<and> err \<noteq> Some EOF then Some (Ret (Inl (the err)))
       else case Spill crc uc batchSize dir (batch_of_rows ncol (srt xs)) of
           None \<Rightarrow> None
         | Some (dir', Some e) \<Rightarrow> Some (Ret (Inl e))
         | Some (dir', None) \<Rightarrow>
             if err = Some EOF then Some (Ret (Inr dir'))
             else if length xs = 0 then Some (Panic ''integer divide by zero'')
             else let bytesPerRow = fsize (last dir') div length xs
                  in if bytesPerRow = 0 then Some (Panic ''integer divide by zero'')
                     else let targetRows = max (spillTarget div bytesPerRow) batchSize;
                              near = (20 * \<bar>int len - int targetRows\<bar> \<le> int targetRows)
                          in sort_loop srt fsize crc uc ncol batchSize spillTarget rd
                               (if near then len else targetRows) r' dir')"

definition SortReader ::
  "('v list \<Rightarrow> 'v list \<Rightarrow> bool) \<Rightarrow> ('v list list \<Rightarrow> 'v list list) \<Rightarrow> (('v, 'u) msg list \<Rightarrow> nat) \<Rightarrow> (('v, 'u) msg list \<Rightarrow> 32 word)
     \<Rightarrow> ('v, 'u) ucodec \<Rightarrow> (nat \<Rightarrow> 'v) \<Rightarrow> nat \<Rightarrow> (('v, 'u) msg list list \<Rightarrow> ('v, 'u) msg list list) \<Rightarrow> nat \<Rightarrow> nat \<Rightarrow> nat
     \<Rightarrow> ('s, 'v list) reader \<Rightarrow> 's
     \<Rightarrow> (goerror + (('v, 'u) decodingReader closingReader, 'v list) mergeReader) go option" where
  "SortReader lt srt fsize crc uc zero ncol list batchSize canary spillTarget rd r =
     run_bind (sort_loop srt fsize crc uc ncol batchSize spillTarget rd canary r []) (\<lambda>res. case res of
         Inl e \<Rightarrow> Some (Ret (Inl e))
       | Inr dir \<Rightarrow> NewMergeReader lt (closing_Read (decoding_Read crc uc zero ncol)) batchSize
                      (spill_ClosingReaders list dir))"

section \<open>Buffers over readers that meet the contract\<close>

lemma weak_order_map:
  assumes "weak_order lt" shows "weak_order (\<lambda>a b. lt (f a) (f b))"
  by (rule weak_order.intro) (rule weak_order.lt_asym [OF assms], assumption, rule weak_order.not_lt_trans [OF assms])

lemma fb_heap:
  assumes "weak_order lt"
  shows "heap_interface (\<lambda>a b. lt (cur a) (cur b)) (fb_Less lt) fb_Swap fb_Len fb_Push fb_Pop
    (\<lambda>h. h) (\<lambda>x. x) (\<lambda>_. True) (\<lambda>_. True)"
proof -
  note weak_order_map [OF assms, of cur]
  then show ?thesis
    by (intro heap_interface.intro heap_interface_axioms.intro)
      (auto simp: fb_Len_def fb_Less_def fb_Swap_def fb_Push_def fb_Pop_def swap_list_def Let_def
        butlast_conv_take last_conv_nth)
qed

text \<open>The rows a buffer has left, and the rows all buffers of a heap have left.\<close>

definition fb_rows :: "('s \<Rightarrow> 'r list) \<Rightarrow> ('s, 'r) FrameBuffer \<Rightarrow> 'r list" where
  "fb_rows str b = drop (fIndex b) (fframe b) @ str (freader b)"

definition rest :: "('s \<Rightarrow> 'r list) \<Rightarrow> ('s, 'r) FrameBufferHeap \<Rightarrow> 'r multiset" where
  "rest str h = (\<Sum>b\<in>#mset h. mset (fb_rows str b))"

abbreviation ascending :: "('r \<Rightarrow> 'r \<Rightarrow> bool) \<Rightarrow> 'r list \<Rightarrow> bool" where
  "ascending lt xs \<equiv> sorted_wrt (\<lambda>x y. \<not> lt y x) xs"

text \<open>A buffer in the heap has a current row, and its rows satisfy \<open>Q\<close>, which says how they are sorted.\<close>

definition fb_ok :: "('s \<Rightarrow> bool) \<Rightarrow> ('s \<Rightarrow> 'r list) \<Rightarrow> ('s \<Rightarrow> goerror) \<Rightarrow> ('r list \<Rightarrow> bool) \<Rightarrow> ('s, 'r) FrameBuffer \<Rightarrow> bool" where
  "fb_ok ok str fin Q b \<longleftrightarrow> ok (freader b) \<and> fin (freader b) = EOF \<and> fLen b = length (fframe b) \<and>
     fIndex b < fLen b \<and> Q (fb_rows str b)"

definition tail_closed :: "('r list \<Rightarrow> bool) \<Rightarrow> bool" where
  "tail_closed Q \<longleftrightarrow> (\<forall>x xs. Q (x # xs) \<longrightarrow> Q xs)"

lemma tail_closed_sorted [simp]: "tail_closed (sorted_wrt R)"
  by (simp add: tail_closed_def)

lemma fb_rows_Cons:
  assumes "fb_ok ok str fin Q b"
  shows "fb_rows str b = cur b # fb_rows str (b\<lparr>fIndex := Suc (fIndex b)\<rparr>)"
  using assms by (simp add: fb_ok_def fb_rows_def cur_def Cons_nth_drop_Suc)

lemma Fill_spec:
  assumes "eager_reader rd ok str fin mu" and "0 < chunk"
    and "ok (freader b)" and "fin (freader b) = EOF" and "fIndex b = fLen b"
  shows "\<exists>b' err. Fill rd chunk b = Some (Ret (b', err)) \<and>
    (err = None \<and> str (freader b) \<noteq> [] \<and> fb_rows str b' = str (freader b) \<and>
       (Q (str (freader b)) \<longrightarrow> fb_ok ok str fin Q b') \<or>
     err = Some EOF \<and> str (freader b) = [])"
proof -
  have sr: "slice_reader rd ok str fin mu" using assms(1) by (rule eager_reader.axioms)
  show ?thesis
  proof (rule slice_reader.read_cases [OF sr assms(3,2)], goal_cases)
    case (1 r' xs)
    then show ?thesis
      using eager_reader.eager [OF assms(1,3,2)] assms(4,5)
      by (cases "xs = []") (auto simp: Fill_def Let_def fb_rows_def fb_ok_def)
  next
    case (2 r' xs)
    then show ?thesis
      using assms(4,5) by (cases "xs = []") (auto simp: Fill_def Let_def fb_rows_def fb_ok_def)
  qed
qed

lemma fill_all_spec:
  assumes "eager_reader rd ok str fin mu" and "0 < chunk"
    and "\<forall>r\<in>set rs. ok r \<and> fin r = EOF \<and> Q (str r)" and "\<forall>b\<in>set h. fb_ok ok str fin Q b"
  shows "\<exists>h'. fill_all rd chunk rs h = Some (Ret (h', None)) \<and> (\<forall>b\<in>set h'. fb_ok ok str fin Q b) \<and>
    map (fb_rows str) h' = map (fb_rows str) h @ filter (\<lambda>xs. xs \<noteq> []) (map str rs)"
  using assms(3,4)
proof (induction rs arbitrary: h)
  case (Cons r rs)
  let ?b = "\<lparr>fframe = [], freader = r, fIndex = 0, fLen = 0\<rparr>"
  obtain b' err where f: "Fill rd chunk ?b = Some (Ret (b', err))"
    and c: "err = None \<and> str r \<noteq> [] \<and> fb_rows str b' = str r \<and> fb_ok ok str fin Q b' \<or>
       err = Some EOF \<and> str r = []"
    using Fill_spec [OF assms(1,2), of ?b Q] Cons.prems(1) by auto
  from c show ?case
  proof
    assume "err = None \<and> str r \<noteq> [] \<and> fb_rows str b' = str r \<and> fb_ok ok str fin Q b'"
    with Cons.IH [of "h @ [b']"] Cons.prems f show ?thesis by auto
  next
    assume "err = Some EOF \<and> str r = []"
    with Cons.IH [of h] Cons.prems f show ?thesis by auto
  qed
qed simp

lemma rest_eqI: "mset (map (fb_rows str) h) = mset (map (fb_rows str) h') \<Longrightarrow> rest str h = rest str h'"
proof -
  have "rest str h = (\<Sum>xs\<in>#mset (map (fb_rows str) h). mset xs)" for h
    by (simp add: rest_def image_mset.compositionality comp_def)
  then show "mset (map (fb_rows str) h) = mset (map (fb_rows str) h') \<Longrightarrow> rest str h = rest str h'" by metis
qed

lemma rest_mset_eq: "mset h = mset h' \<Longrightarrow> rest str h = rest str h'"
  by (simp add: rest_def)

lemma rest_of_rows:
  assumes "map (fb_rows str) h = filter (\<lambda>xs. xs \<noteq> []) (map str rs)"
  shows "rest str h = (\<Sum>r\<leftarrow>rs. mset (str r))"
proof -
  have "rest str h = (\<Sum>xs\<leftarrow>map (fb_rows str) h. mset xs)"
    by (simp add: rest_def comp_def flip: sum_mset_sum_list)
  also have "\<dots> = (\<Sum>r\<leftarrow>rs. mset (str r))" unfolding assms by (induction rs) auto
  finally show ?thesis .
qed

section \<open>Merging\<close>

definition heap_ok :: "('s \<Rightarrow> bool) \<Rightarrow> ('s \<Rightarrow> 'r list) \<Rightarrow> ('s \<Rightarrow> goerror) \<Rightarrow> ('r list \<Rightarrow> bool) \<Rightarrow> ('r \<Rightarrow> 'r \<Rightarrow> bool) \<Rightarrow> ('s, 'r) FrameBufferHeap \<Rightarrow> bool" where
  "heap_ok ok str fin Q lt h \<longleftrightarrow> (\<forall>b\<in>set h. fb_ok ok str fin Q b) \<and> is_heap (\<lambda>a b. lt (cur a) (cur b)) h"

lemma heap_ok_min:
  assumes "weak_order lt" and "heap_ok ok str fin (ascending lt) lt h" and "h \<noteq> []" and "x \<in># rest str h"
  shows "\<not> lt x (cur (h ! 0))"
proof -
  obtain b where b: "b \<in> set h" "x \<in> set (fb_rows str b)" using assms(4) by (auto simp: rest_def)
  then obtain i where i: "i < length h" "b = h ! i" by (auto simp: in_set_conv_nth)
  have okb: "fb_ok ok str fin (ascending lt) b" using assms(2) b by (simp add: heap_ok_def)
  note wo = weak_order_map [OF assms(1), of cur]
  have "\<not> lt (cur b) (cur (h ! 0))"
    using weak_order.heap_min [OF wo, of h "length h" i] assms(2) i by (simp add: heap_ok_def)
  moreover have "\<not> lt x (cur b)"
    using okb b(2) fb_rows_Cons [OF okb] weak_order.lt_irrefl [OF assms(1)] by (auto simp: fb_ok_def)
  ultimately show ?thesis using weak_order.not_lt_trans [OF assms(1)] by blast
qed

lemma heap_replace_hole:
  assumes "is_heap lt h" and "h \<noteq> []" shows "heap_hole lt (h[0 := b]) (length h) 0 0"
  using assms by (auto simp: heap_from_def heap_hole_def hrel_def nth_list_update)

lemma merge_step_spec:
  assumes wo: "weak_order lt" and er: "eager_reader rd ok str fin mu" and bs: "0 < batchSize"
    and h: "heap_ok ok str fin Q lt h" "h \<noteq> []" and Q: "tail_closed Q"
  shows "\<exists>h'. merge_step lt rd batchSize h = Some (Ret (h', cur (h ! 0), None)) \<and> heap_ok ok str fin Q lt h' \<and>
    rest str h = add_mset (cur (h ! 0)) (rest str h')"
proof -
  note hi = fb_heap [OF wo]
  let ?b = "h ! 0" and ?c = "(h ! 0)\<lparr>fIndex := Suc (fIndex (h ! 0))\<rparr>"
  have b: "fb_ok ok str fin Q ?b" using h by (simp add: heap_ok_def)
  have hole: "heap_hole (\<lambda>a b. lt (cur a) (cur b)) (h[0 := c]) (length h) 0 0" for c
    using h by (intro heap_replace_hole) (auto simp: heap_ok_def)
  have hd: "mset h = add_mset ?b (mset (tl h))" "mset (h[0 := c]) = add_mset c (mset (tl h))" for c
    using h(2) by (cases h; simp)+
  have rows: "fb_rows str ?b = cur ?b # fb_rows str ?c" using fb_rows_Cons [OF b] .
  have Qc: "Q (fb_rows str ?c)" using Q b rows by (metis fb_ok_def tail_closed_def)
  have tl: "\<forall>b\<in>set (tl h). fb_ok ok str fin Q b" using h by (cases h) (auto simp: heap_ok_def)
  have fixed: "\<exists>h'. heap_Fix (fb_Less lt) fb_Swap fb_Len (h[0 := c]) 0 = h' \<and> heap_ok ok str fin Q lt h' \<and>
      rest str h = add_mset (cur ?b) (rest str h')"
    if c: "fb_ok ok str fin Q c" "fb_rows str c = fb_rows str ?c" for c
  proof -
    let ?h = "heap_Fix (fb_Less lt) fb_Swap fb_Len (h[0 := c]) 0"
    have m: "mset ?h = mset (h[0 := c])" and heap: "is_heap (\<lambda>a b. lt (cur a) (cur b)) ?h"
      using heap_interface.Fix_heap(2,3) [OF hi, of 0 "h[0 := c]"] hole h(2) by auto
    have "set ?h = insert c (set (tl h))" using m hd(2) by (metis set_mset_add_mset_insert set_mset_mset)
    with c tl heap have "heap_ok ok str fin Q lt ?h" by (auto simp: heap_ok_def)
    moreover have "rest str ?h = mset (fb_rows str ?c) + rest str (tl h)"
      using m hd(2) c(2) by (simp add: rest_def)
    ultimately show ?thesis using hd(1) rows by (simp add: rest_def)
  qed
  show ?thesis
  proof (cases "Suc (fIndex ?b) = fLen ?b")
    case False
    then have "fb_ok ok str fin Q ?c" using b Qc by (auto simp: fb_ok_def)
    with fixed [of ?c] False show ?thesis by (auto simp: merge_step_def Let_def)
  next
    case True
    have c: "ok (freader ?c)" "fin (freader ?c) = EOF" "fIndex ?c = fLen ?c"
      using b True by (auto simp: fb_ok_def)
    have str: "fb_rows str ?c = str (freader ?c)" using b True by (simp add: fb_rows_def fb_ok_def)
    obtain b' err where f: "Fill rd batchSize ?c = Some (Ret (b', err))"
      and cs: "err = None \<and> fb_rows str b' = fb_rows str ?c \<and> fb_ok ok str fin Q b' \<or>
        err = Some EOF \<and> fb_rows str ?c = []"
      using Fill_spec [OF er bs c, of Q] Qc str by auto
    from cs show ?thesis
    proof
      assume "err = None \<and> fb_rows str b' = fb_rows str ?c \<and> fb_ok ok str fin Q b'"
      with fixed [of b'] f True show ?thesis by (auto simp: merge_step_def Let_def)
    next
      assume e: "err = Some EOF \<and> fb_rows str ?c = []"
      obtain h' x where r: "heap_Remove (fb_Less lt) fb_Swap fb_Len fb_Pop (h[0 := b']) 0 = (h', x)" by fastforce
      have m: "mset h' = mset (tl h)" and heap: "is_heap (\<lambda>a b. lt (cur a) (cur b)) h'"
        using heap_interface.Remove_heap(4,5) [OF hi _ _ _ r] hole h(2) hd(2) by auto
      have "heap_ok ok str fin Q lt h'" using heap tl m by (metis heap_ok_def set_mset_mset)
      moreover have "rest str h = add_mset (cur ?b) (rest str h')"
        using hd(1) rows e m by (simp add: rest_def)
      ultimately show ?thesis using r f e True by (auto simp: merge_step_def Let_def)
    qed
  qed
qed

lemma heap_ok_rest_empty:
  assumes "heap_ok ok str fin Q lt h" shows "rest str h = {#} \<longleftrightarrow> h = []"
proof
  assume r: "rest str h = {#}"
  show "h = []"
  proof (cases h)
    case (Cons b h')
    then have "fb_ok ok str fin Q b" using assms by (simp add: heap_ok_def)
    with r Cons fb_rows_Cons [of ok str fin Q b] show ?thesis by (simp add: rest_def)
  qed
qed (simp add: rest_def)

lemma merge_loop_spec:
  assumes wo: "weak_order lt" and er: "eager_reader rd ok str fin mu" and bs: "0 < batchSize"
    and "heap_ok ok str fin (ascending lt) lt h"
  shows "\<exists>h' xs. merge_loop lt rd batchSize k h = Some (Ret (h', xs, None)) \<and>
    heap_ok ok str fin (ascending lt) lt h' \<and> rest str h = mset xs + rest str h' \<and>
    length xs = min k (size (rest str h)) \<and> ascending lt xs \<and> (\<forall>x\<in>set xs. \<forall>y\<in>#rest str h'. \<not> lt y x)"
  using assms(4)
proof (induction k arbitrary: h)
  case (Suc k)
  show ?case
  proof (cases "h = []")
    case True
    with Suc.prems show ?thesis by (simp add: rest_def)
  next
    case False
    let ?x = "cur (h ! 0)"
    obtain h1 where h1: "merge_step lt rd batchSize h = Some (Ret (h1, ?x, None))"
      "heap_ok ok str fin (ascending lt) lt h1" "rest str h = add_mset ?x (rest str h1)"
      using merge_step_spec [OF wo er bs Suc.prems False] by auto
    obtain h' xs where IH: "merge_loop lt rd batchSize k h1 = Some (Ret (h', xs, None))"
      "heap_ok ok str fin (ascending lt) lt h'" "rest str h1 = mset xs + rest str h'"
      "length xs = min k (size (rest str h1))" "ascending lt xs" "\<forall>x\<in>set xs. \<forall>y\<in>#rest str h'. \<not> lt y x"
      using Suc.IH [OF h1(2)] by blast
    have "\<not> lt y ?x" if "y \<in># rest str h1" for y
      using heap_ok_min [OF wo Suc.prems False, of y] h1(3) that by simp
    then have "ascending lt (?x # xs)" "\<forall>x\<in>set (?x # xs). \<forall>y\<in>#rest str h'. \<not> lt y x"
      using IH(3,5,6) by auto
    with IH h1 False show ?thesis
      by (intro exI [of _ h'] exI [of _ "?x # xs"]) simp
  qed
qed (simp)

lemma merge_loop_add:
  assumes "merge_loop lt rd bs a h = Some (Ret (h', xs, None))"
    and "merge_loop lt rd bs b h' = Some (Ret (h'', ys, None))"
  shows "merge_loop lt rd bs (a + b) h = Some (Ret (h'', xs @ ys, None))"
  using assms(1)
proof (induction a arbitrary: h xs)
  case 0
  with assms(2) show ?case by simp
next
  case (Suc a)
  show ?case
  proof (cases "h = []")
    case True
    with Suc.prems assms(2) show ?thesis by (cases b) auto
  next
    case False
    with Suc.prems obtain h1 x zs where s: "merge_step lt rd bs h = Some (Ret (h1, x, None))"
      "merge_loop lt rd bs a h1 = Some (Ret (h', zs, None))" "xs = x # zs"
      by (auto simp: run_bind_eq_Ret split: if_splits)
    with Suc.IH [OF s(2)] False show ?thesis by simp
  qed
qed

definition merge_ok :: "('s \<Rightarrow> bool) \<Rightarrow> ('s \<Rightarrow> 'r list) \<Rightarrow> ('s \<Rightarrow> goerror) \<Rightarrow> ('r \<Rightarrow> 'r \<Rightarrow> bool) \<Rightarrow> ('s, 'r) mergeReader \<Rightarrow> bool" where
  "merge_ok ok str fin lt m \<longleftrightarrow> heap_ok ok str fin (ascending lt) lt (merge_heap m) \<and>
     (merge_err m = None \<or> merge_err m = Some EOF \<and> merge_heap m = [])"

text \<open>The rows that a heap will deliver: what the loop returns when it may run until the heap is empty.\<close>

definition merge_rows ::
  "('r \<Rightarrow> 'r \<Rightarrow> bool) \<Rightarrow> ('s, 'r) reader \<Rightarrow> nat \<Rightarrow> ('s \<Rightarrow> 'r list) \<Rightarrow> ('s, 'r) FrameBufferHeap \<Rightarrow> 'r list" where
  "merge_rows lt rd batchSize str h =
     (case merge_loop lt rd batchSize (size (rest str h)) h of Some (Ret (h', xs, err)) \<Rightarrow> xs | _ \<Rightarrow> [])"

lemma mset_all_taken:
  assumes "N = mset ys + M" and "length ys = size N" shows "M = {#}"
proof -
  have "size N = length ys + size M" using assms(1) by simp
  then show ?thesis using assms(2) by simp
qed

lemma merge_drain:
  assumes "weak_order lt" and "eager_reader rd ok str fin mu" and "0 < batchSize"
    and "heap_ok ok str fin (ascending lt) lt h" and "size (rest str h) \<le> k"
  shows "merge_loop lt rd batchSize k h = Some (Ret ([], merge_rows lt rd batchSize str h, None))"
    and "mset (merge_rows lt rd batchSize str h) = rest str h" and "ascending lt (merge_rows lt rd batchSize str h)"
proof -
  let ?S = "size (rest str h)"
  obtain h3 zs where l: "merge_loop lt rd batchSize ?S h = Some (Ret (h3, zs, None))"
    "heap_ok ok str fin (ascending lt) lt h3" "rest str h = mset zs + rest str h3" "length zs = min ?S ?S" "ascending lt zs"
    using merge_loop_spec [OF assms(1-4), of ?S] by blast
  have r3: "rest str h3 = {#}" using mset_all_taken [OF l(3)] l(4) by simp
  then have h3: "h3 = []" using heap_ok_rest_empty [OF l(2)] by simp
  have e: "merge_rows lt rd batchSize str h = zs" using l(1) by (simp add: merge_rows_def)
  have "merge_loop lt rd batchSize (k - ?S) [] = Some (Ret ([], [], None))" by (cases "k - ?S") auto
  then have "merge_loop lt rd batchSize (?S + (k - ?S)) h = Some (Ret ([], zs @ [], None))"
    using merge_loop_add [OF l(1)] h3 by blast
  then show "merge_loop lt rd batchSize k h = Some (Ret ([], merge_rows lt rd batchSize str h, None))"
    using assms(5) e by simp
  show "mset (merge_rows lt rd batchSize str h) = rest str h" "ascending lt (merge_rows lt rd batchSize str h)"
    using l(3,5) r3 e by simp_all
qed

lemma merge_rows_split:
  assumes "weak_order lt" and "eager_reader rd ok str fin mu" and "0 < batchSize"
    and "heap_ok ok str fin (ascending lt) lt h" "heap_ok ok str fin (ascending lt) lt h1"
    and "merge_loop lt rd batchSize n h = Some (Ret (h1, xs, None))" and "rest str h = mset xs + rest str h1"
    and "length xs = min n (size (rest str h))"
  shows "merge_rows lt rd batchSize str h = xs @ merge_rows lt rd batchSize str h1"
proof -
  have "size (rest str h) \<le> n + size (rest str h1)" using assms(7,8) by (simp add: min_def split: if_splits)
  from merge_drain(1) [OF assms(1-4) this]
    merge_loop_add [OF assms(6) merge_drain(1) [OF assms(1-3,5) order_refl]]
  show ?thesis by simp
qed

abbreviation merge_str ::
  "('r \<Rightarrow> 'r \<Rightarrow> bool) \<Rightarrow> ('s, 'r) reader \<Rightarrow> nat \<Rightarrow> ('s \<Rightarrow> 'r list) \<Rightarrow> ('s, 'r) mergeReader \<Rightarrow> 'r list" where
  "merge_str lt rd batchSize str m \<equiv> merge_rows lt rd batchSize str (merge_heap m)"

lemma merge_Read_ok:
  assumes wo: "weak_order lt" and er: "eager_reader rd ok str fin mu" and bs: "0 < batchSize"
    and ok: "merge_ok ok str fin lt m" and n: "0 < n"
  shows "\<exists>m' xs e. merge_Read lt rd batchSize m n = Some (Ret (m', xs, e)) \<and> (e = None \<longleftrightarrow> xs \<noteq> []) \<and>
    read_ok (merge_ok ok str fin lt) (merge_str lt rd batchSize str) (\<lambda>_. EOF) (\<lambda>m. size (rest str (merge_heap m))) m n (m', xs, e)"
proof -
  let ?h = "merge_heap m" and ?S = "size (rest str (merge_heap m))"
  have hok: "heap_ok ok str fin (ascending lt) lt ?h" using ok by (simp add: merge_ok_def)
  have nil: "merge_rows lt rd batchSize str [] = []" by (simp add: merge_rows_def rest_def)
  obtain h1 xs where l: "merge_loop lt rd batchSize n ?h = Some (Ret (h1, xs, None))"
    "heap_ok ok str fin (ascending lt) lt h1" "rest str ?h = mset xs + rest str h1" "length xs = min n ?S"
    using merge_loop_spec [OF wo er bs hok, of n] by blast
  note str = merge_rows_split [OF wo er bs hok l(2,1,3,4)]
  consider "merge_err m \<noteq> None" | "merge_err m = None" "xs \<noteq> []" | "merge_err m = None" "xs = []" by blast
  then show ?thesis
  proof cases
    case 1
    then have "merge_err m = Some EOF" "merge_heap m = []" using ok by (auto simp: merge_ok_def)
    then show ?thesis using ok nil by (auto simp: merge_Read_def read_ok_def)
  next
    case 2
    have "?S = length xs + size (rest str h1)" using l(3) by simp
    then have "size (rest str h1) < ?S" using 2(2) by simp
    with 2 l str show ?thesis by (auto simp: merge_Read_def Let_def read_ok_def merge_ok_def)
  next
    case 3
    then have "?S = 0" using l(4) n by (simp add: min_def split: if_splits)
    then have "h1 = []" using l(3) heap_ok_rest_empty [OF l(2)] by auto
    with 3 l str nil show ?thesis by (auto simp: merge_Read_def Let_def read_ok_def merge_ok_def)
  qed
qed

lemma merge_reader:
  assumes "weak_order lt" and "eager_reader rd ok str fin mu" and "0 < batchSize"
  shows "slice_reader (merge_Read lt rd batchSize) (merge_ok ok str fin lt) (merge_str lt rd batchSize str)
    (\<lambda>_. EOF) (\<lambda>m. size (rest str (merge_heap m)))"
  using merge_Read_ok [OF assms] by (intro slice_reader.intro) blast

lemma merge_eager:
  assumes "weak_order lt" and "eager_reader rd ok str fin mu" and "0 < batchSize"
  shows "eager_reader (merge_Read lt rd batchSize) (merge_ok ok str fin lt) (merge_str lt rd batchSize str)
    (\<lambda>_. EOF) (\<lambda>m. size (rest str (merge_heap m)))"
proof (intro eager_reader.intro eager_reader_axioms.intro)
  fix m m' n assume m: "merge_ok ok str fin lt m" "0 < n" "merge_Read lt rd batchSize m n = Some (Ret (m', [], None))"
  from merge_Read_ok [OF assms m(1,2)] m(3) show "merge_str lt rd batchSize str m = []" by auto
qed (rule merge_reader [OF assms])

lemma NewMergeReader_spec:
  assumes "weak_order lt" and "eager_reader rd ok str fin mu" and "0 < batchSize"
    and "\<forall>r\<in>set rs. ok r \<and> fin r = EOF \<and> ascending lt (str r)"
  shows "\<exists>m. NewMergeReader lt rd batchSize rs = Some (Ret (Inr m)) \<and> merge_ok ok str fin lt m \<and>
    mset (merge_str lt rd batchSize str m) = (\<Sum>r\<leftarrow>rs. mset (str r)) \<and>
    ascending lt (merge_str lt rd batchSize str m)"
proof -
  obtain h where h: "fill_all rd batchSize rs [] = Some (Ret (h, None))" "\<forall>b\<in>set h. fb_ok ok str fin (ascending lt) b"
    "map (fb_rows str) h = filter (\<lambda>xs. xs \<noteq> []) (map str rs)"
    using fill_all_spec [OF assms(2,3), of rs "ascending lt" "[]"] assms(4) by auto
  let ?h = "heap_Init (fb_Less lt) fb_Swap fb_Len h"
  have init: "mset ?h = mset h" "is_heap (\<lambda>a b. lt (cur a) (cur b)) ?h"
    using heap_interface.Init_heap(2,3) [OF fb_heap [OF assms(1)], of h] by auto
  have hok: "heap_ok ok str fin (ascending lt) lt ?h"
    using init h(2) by (metis heap_ok_def set_mset_mset)
  have "rest str ?h = (\<Sum>r\<leftarrow>rs. mset (str r))"
    using rest_mset_eq [OF init(1)] rest_of_rows [OF h(3)] by simp
  with merge_drain(2,3) [OF assms(1-3) hok order_refl] h(1) hok show ?thesis
    by (auto simp: NewMergeReader_def merge_ok_def)
qed

text \<open>
  C31.  Merging: \<open>NewMergeReader\<close> over readers that are each sorted returns a reader that, read to
  the end with frames of any size, delivers a sorted permutation of all their rows, and ends with
  EOF.
\<close>

theorem merge_sorted_permutation:
  assumes "weak_order lt" and "eager_reader rd ok str fin mu" and "0 < batchSize" and "0 < chunk"
    and "\<forall>r\<in>set rs. ok r \<and> fin r = EOF \<and> ascending lt (str r)"
  shows "\<exists>m m' out. NewMergeReader lt rd batchSize rs = Some (Ret (Inr m)) \<and>
    ReadAll (merge_Read lt rd batchSize) chunk m [] = Some (Ret (m', out, None)) \<and>
    ascending lt out \<and> mset out = (\<Sum>r\<leftarrow>rs. mset (str r))"
proof -
  obtain m where m: "NewMergeReader lt rd batchSize rs = Some (Ret (Inr m))" "merge_ok ok str fin lt m"
    "mset (merge_str lt rd batchSize str m) = (\<Sum>r\<leftarrow>rs. mset (str r))" "ascending lt (merge_str lt rd batchSize str m)"
    using NewMergeReader_spec [OF assms(1-3,5)] by blast
  from slice_reader.readall_loop_spec [OF merge_reader [OF assms(1-3)] m(2) assms(4), of "[]"] m
  show ?thesis by (auto simp: ReadAll_def)
qed

lemma weak_order_less: "weak_order ((<) :: 'a::linorder \<Rightarrow> 'a \<Rightarrow> bool)"
  by unfold_locales auto

theorem merge_sorted_permutation_witness:
  "\<exists>m m' out. NewMergeReader (<) frame_Read 2 [[1, 4, 5], [2, 2, 9::int], []] = Some (Ret (Inr m)) \<and>
    ReadAll (merge_Read (<) frame_Read 2) 3 m [] = Some (Ret (m', out, None)) \<and>
    ascending (<) out \<and> mset out = (\<Sum>r\<leftarrow>[[1, 4, 5], [2, 2, 9], []]. mset r)"
  by (rule merge_sorted_permutation [OF weak_order_less frd.eager_reader_axioms]) auto

section \<open>Reducing\<close>

text \<open>
  What it means that \<open>out\<close> is a reduction of the rows \<open>M\<close> by \<open>g\<close>: strictly ascending keys, the keys
  of \<open>M\<close> and no other, and with each key the combination, in some order, of all its values.
\<close>

definition values_of :: "('k \<times> 'v) multiset \<Rightarrow> 'k \<Rightarrow> 'v multiset" where
  "values_of M k = image_mset snd (filter_mset (\<lambda>x. fst x = k) M)"

definition combined_from :: "('v \<Rightarrow> 'v \<Rightarrow> 'v) \<Rightarrow> 'v multiset \<Rightarrow> 'v \<Rightarrow> bool" where
  "combined_from g V v \<longleftrightarrow> (\<exists>w ws. mset (w # ws) = V \<and> v = foldl g w ws)"

definition reduction :: "('k \<Rightarrow> 'k \<Rightarrow> bool) \<Rightarrow> ('v \<Rightarrow> 'v \<Rightarrow> 'v) \<Rightarrow> ('k \<times> 'v) multiset \<Rightarrow> ('k \<times> 'v) list \<Rightarrow> bool" where
  "reduction lt g M out \<longleftrightarrow> sorted_wrt lt (map fst out) \<and> set (map fst out) = fst ` set_mset M \<and>
     (\<forall>(k, v)\<in>set out. combined_from g (values_of M k) v)"

abbreviation strict :: "('k \<Rightarrow> 'k \<Rightarrow> bool) \<Rightarrow> ('k \<times> 'v) list \<Rightarrow> bool" where
  "strict lt \<equiv> sorted_wrt (key_less lt)"

abbreviation red_ok ::
  "('s \<Rightarrow> bool) \<Rightarrow> ('s \<Rightarrow> ('k \<times> 'v) list) \<Rightarrow> ('s \<Rightarrow> goerror) \<Rightarrow> ('k \<Rightarrow> 'k \<Rightarrow> bool) \<Rightarrow> ('s, 'k \<times> 'v) FrameBufferHeap \<Rightarrow> bool" where
  "red_ok ok str fin lt h \<equiv> heap_ok ok str fin (strict lt) (key_less lt) h"

lemma combine_vals_Ret: "combine_vals (\<lambda>a b. Ret (g a b)) v vs = Ret (foldl g v vs)"
  by (induction vs arbitrary: v) auto

lemma gather_spec:
  assumes wo: "weak_order lt" and "gather lt h (c # combine) = (h', cs)"
    and "is_heap (\<lambda>a b. key_less lt (cur a) (cur b)) h" and "\<forall>b\<in>set h. \<not> key_less lt (cur b) (cur c)"
  shows "\<exists>ds. cs = c # combine @ ds \<and> mset h = mset ds + mset h' \<and>
    is_heap (\<lambda>a b. key_less lt (cur a) (cur b)) h' \<and>
    (\<forall>b\<in>set ds. \<not> key_less lt (cur c) (cur b) \<and> \<not> key_less lt (cur b) (cur c)) \<and>
    (\<forall>b\<in>set h'. key_less lt (cur c) (cur b))"
  using assms(2-4)
proof (induction "length h" arbitrary: h combine rule: less_induct)
  case less
  note wo2 = weak_order_map [OF weak_order_map [OF wo, of fst], of cur]
  show ?case
  proof (cases "h = [] \<or> key_less lt (cur c) (cur (h ! 0))")
    case True
    have "key_less lt (cur c) (cur b)" if b: "b \<in> set h" for b
    proof -
      have "\<not> key_less lt (cur b) (cur (h ! 0))"
        using weak_order.heap_min [OF wo2 less.prems(2)] b by (metis in_set_conv_nth)
      moreover have "key_less lt (cur c) (cur (h ! 0))" using True b by auto
      ultimately show ?thesis using weak_order.not_lt_trans [OF wo] weak_order.lt_asym [OF wo] by metis
    qed
    moreover have "h' = h" "cs = c # combine"
      using True less.prems(1) by (auto simp: gather.simps [of lt h] split: if_splits)
    ultimately show ?thesis using less.prems(2) by simp
  next
    case False
    obtain h1 b where p: "heap_Pop (fb_Less (key_less lt)) fb_Swap fb_Len fb_Pop h = (h1, b)" by fastforce
    note pop = heap_interface.Pop_heap(3-5) [OF fb_heap [OF weak_order_map [OF wo, of fst]] _ less.prems(2) _ p]
    have b: "b = h ! 0" and m: "mset h = add_mset b (mset h1)" and heap: "is_heap (\<lambda>a b. key_less lt (cur a) (cur b)) h1"
      using pop False by auto
    have len: "length h1 < length h" using m by (metis lessI size_add_mset size_mset)
    have sub: "set h = insert b (set h1)" using m by (metis set_mset_add_mset_insert set_mset_mset)
    have "gather lt h1 (c # combine @ [b]) = (h', cs)"
      using less.prems(1) False p by (simp add: gather.simps [of lt h])
    from less.hyps [OF len this heap] less.prems(3) sub obtain ds where IH:
      "cs = c # (combine @ [b]) @ ds" "mset h1 = mset ds + mset h'" "is_heap (\<lambda>a b. key_less lt (cur a) (cur b)) h'"
      "\<forall>b\<in>set ds. \<not> key_less lt (cur c) (cur b) \<and> \<not> key_less lt (cur b) (cur c)"
      "\<forall>b\<in>set h'. key_less lt (cur c) (cur b)" by auto
    with m False less.prems(3) sub b show ?thesis by (intro exI [of _ "b # ds"]) auto
  qed
qed

text \<open>The buffers with the least key, and those that remain.\<close>

lemma gather_first:
  assumes wo: "weak_order lt" and "red_ok ok str fin lt h" "h \<noteq> []"
  obtains h' c cs where "gather lt h [] = (h', c # cs)" and "mset h = add_mset c (mset cs) + mset h'"
    and "red_ok ok str fin lt h'" and "\<forall>b\<in>set (c # cs). fb_ok ok str fin (strict lt) b"
    and "\<forall>b\<in>set cs. \<not> key_less lt (cur c) (cur b) \<and> \<not> key_less lt (cur b) (cur c)"
    and "\<forall>b\<in>set h'. key_less lt (cur c) (cur b)"
proof -
  note wo2 = weak_order_map [OF weak_order_map [OF wo, of fst], of cur]
  have heap: "is_heap (\<lambda>a b. key_less lt (cur a) (cur b)) h" using assms(2) by (simp add: heap_ok_def)
  obtain h1 c where p: "heap_Pop (fb_Less (key_less lt)) fb_Swap fb_Len fb_Pop h = (h1, c)" by fastforce
  note pop = heap_interface.Pop_heap(3-5) [OF fb_heap [OF weak_order_map [OF wo, of fst]] _ heap assms(3) p]
  have c: "c = h ! 0" and m: "mset h = add_mset c (mset h1)" and heap1: "is_heap (\<lambda>a b. key_less lt (cur a) (cur b)) h1"
    using pop assms(3) by auto
  have sub: "set h = insert c (set h1)" using m by (metis set_mset_add_mset_insert set_mset_mset)
  have least: "\<forall>b\<in>set h1. \<not> key_less lt (cur b) (cur c)"
    using weak_order.heap_min [OF wo2 heap] sub c by (metis in_set_conv_nth insertI2)
  obtain h' cs0 where g: "gather lt h1 [c] = (h', cs0)" by fastforce
  from gather_spec [OF wo this heap1 least] obtain cs where cs: "cs0 = c # cs" "mset h1 = mset cs + mset h'"
    "is_heap (\<lambda>a b. key_less lt (cur a) (cur b)) h'"
    "\<forall>b\<in>set cs. \<not> key_less lt (cur c) (cur b) \<and> \<not> key_less lt (cur b) (cur c)"
    "\<forall>b\<in>set h'. key_less lt (cur c) (cur b)" by auto
  have "gather lt h [] = (h', c # cs)" using g p cs(1) assms(3) by (simp add: gather.simps [of lt h])
  moreover have "set h1 = set cs \<union> set h'" using cs(2) by (metis set_mset_mset set_mset_union)
  then have "red_ok ok str fin lt h'" "\<forall>b\<in>set (c # cs). fb_ok ok str fin (strict lt) b"
    using assms(2) sub cs(3) by (auto simp: heap_ok_def)
  ultimately show thesis using that m cs by simp
qed

lemma advance_spec:
  assumes wo: "weak_order lt" and er: "eager_reader rd ok str fin mu" and ch: "0 < chunk"
    and "red_ok ok str fin lt h" and "\<forall>b\<in>set bs. fb_ok ok str fin (strict lt) b"
  shows "\<exists>h'. advance lt rd chunk bs h = Some (Ret (h', None)) \<and> red_ok ok str fin lt h' \<and>
    rest str h' = rest str h + (\<Sum>b\<leftarrow>bs. mset (tl (fb_rows str b)))"
  using assms(4,5)
proof (induction bs arbitrary: h)
  case (Cons b bs)
  let ?c = "b\<lparr>fIndex := Suc (fIndex b)\<rparr>"
  have b: "fb_ok ok str fin (strict lt) b" using Cons.prems by simp
  have rows: "tl (fb_rows str b) = fb_rows str ?c" using fb_rows_Cons [OF b] by simp
  have Qc: "strict lt (fb_rows str ?c)" using b fb_rows_Cons [OF b] by (auto simp: fb_ok_def)
  have push: "red_ok ok str fin lt (heap_Push (fb_Less (key_less lt)) fb_Swap fb_Len fb_Push h x) \<and>
      rest str (heap_Push (fb_Less (key_less lt)) fb_Swap fb_Len fb_Push h x) = rest str h + mset (fb_rows str x)"
    if "fb_ok ok str fin (strict lt) x" for x
  proof -
    let ?h = "heap_Push (fb_Less (key_less lt)) fb_Swap fb_Len fb_Push h x"
    have m: "mset ?h = add_mset x (mset h)" and "is_heap (\<lambda>a b. key_less lt (cur a) (cur b)) ?h"
      using heap_interface.Push_heap(2,3) [OF fb_heap [OF weak_order_map [OF wo, of fst]], of h x] Cons.prems(1)
      by (auto simp: heap_ok_def)
    moreover have "set ?h = insert x (set h)" using m by (metis set_mset_add_mset_insert set_mset_mset)
    ultimately show ?thesis using that Cons.prems(1) by (auto simp: heap_ok_def rest_def)
  qed
  show ?case
  proof (cases "Suc (fIndex b) = fLen b")
    case False
    then have "fb_ok ok str fin (strict lt) ?c" using b Qc by (auto simp: fb_ok_def)
    with push [of ?c] Cons.IH [of "heap_Push (fb_Less (key_less lt)) fb_Swap fb_Len fb_Push h ?c"] Cons.prems False rows
    show ?thesis by (auto simp: Let_def)
  next
    case True
    have c: "ok (freader ?c)" "fin (freader ?c) = EOF" "fIndex ?c = fLen ?c" using b True by (auto simp: fb_ok_def)
    have str: "fb_rows str ?c = str (freader ?c)" using b True by (simp add: fb_rows_def fb_ok_def)
    obtain b' err where f: "Fill rd chunk ?c = Some (Ret (b', err))"
      and cs: "err = None \<and> fb_rows str b' = fb_rows str ?c \<and> fb_ok ok str fin (strict lt) b' \<or>
        err = Some EOF \<and> fb_rows str ?c = []"
      using Fill_spec [OF er ch c, of "strict lt"] Qc str by auto
    from cs show ?thesis
    proof
      assume "err = None \<and> fb_rows str b' = fb_rows str ?c \<and> fb_ok ok str fin (strict lt) b'"
      with push [of b'] Cons.IH [of "heap_Push (fb_Less (key_less lt)) fb_Swap fb_Len fb_Push h b'"] Cons.prems f True rows
      show ?thesis by (auto simp: Let_def)
    next
      assume "err = Some EOF \<and> fb_rows str ?c = []"
      with Cons.IH [of h] Cons.prems f True rows show ?thesis by (auto simp: Let_def)
    qed
  qed
qed simp

text \<open>The rows with the least key are the current rows of the gathered buffers.\<close>

lemma gathered_values:
  assumes wo: "weak_order lt" and tot: "\<forall>a b. \<not> lt a b \<longrightarrow> \<not> lt b a \<longrightarrow> a = b"
    and m: "mset h = add_mset c (mset cs) + mset h'" and "red_ok ok str fin lt h'"
    and ok: "\<forall>b\<in>set (c # cs). fb_ok ok str fin (strict lt) b"
    and same: "\<forall>b\<in>set cs. \<not> key_less lt (cur c) (cur b) \<and> \<not> key_less lt (cur b) (cur c)"
    and later: "\<forall>b\<in>set h'. key_less lt (cur c) (cur b)"
  defines "R \<equiv> rest str h' + (\<Sum>b\<leftarrow>c # cs. mset (tl (fb_rows str b)))"
  shows "rest str h = mset (map cur (c # cs)) + R"
    and "\<forall>b\<in>set cs. fst (cur b) = fst (cur c)"
    and "\<forall>x\<in>#R. lt (fst (cur c)) (fst x)"
proof -
  have cons: "fb_rows str b = cur b # tl (fb_rows str b)" if "fb_ok ok str fin (strict lt) b" for b
    using fb_rows_Cons [OF that] by simp
  have "(\<Sum>b\<leftarrow>bs. mset (fb_rows str b)) = mset (map cur bs) + (\<Sum>b\<leftarrow>bs. mset (tl (fb_rows str b)))"
    if "\<forall>b\<in>set bs. fb_ok ok str fin (strict lt) b" for bs
    using that
  proof (induction bs)
    case (Cons b bs)
    have "mset (fb_rows str b) = add_mset (cur b) (mset (tl (fb_rows str b)))"
      using cons [of b] Cons.prems by (metis list.set_intros(1) mset.simps(2))
    with Cons show ?case by simp
  qed simp
  from this [OF ok] show "rest str h = mset (map cur (c # cs)) + R"
    using m by (simp add: rest_def R_def flip: sum_mset_sum_list)
  show eq: "\<forall>b\<in>set cs. fst (cur b) = fst (cur c)" using same tot by blast
  have tails: "lt (fst (cur c)) (fst x)" if "b \<in> set (c # cs)" "x \<in> set (tl (fb_rows str b))" for b x
  proof -
    have "fst (cur b) = fst (cur c)" using that(1) eq by auto
    moreover have "strict lt (cur b # tl (fb_rows str b))" using ok that(1) cons by (metis fb_ok_def)
    ultimately show ?thesis using that(2) by auto
  qed
  have others: "lt (fst (cur c)) (fst x)" if "b \<in> set h'" "x \<in> set (fb_rows str b)" for b x
  proof -
    have b: "fb_ok ok str fin (strict lt) b" using assms(4) that(1) by (simp add: heap_ok_def)
    then have "x = cur b \<or> key_less lt (cur b) x" using that(2) cons [OF b] by (metis fb_ok_def set_ConsD sorted_wrt.simps(2))
    moreover have "key_less lt (cur c) (cur b)" using later that(1) by blast
    ultimately show ?thesis using weak_order.lt_trans [OF wo] by blast
  qed
  show "\<forall>x\<in>#R. lt (fst (cur c)) (fst x)"
    using tails others by (auto simp: R_def rest_def simp flip: sum_mset_sum_list)
qed

lemma reduction_Cons:
  assumes wo: "weak_order lt" and "reduction lt g M xs" and "\<forall>x\<in>#M. lt k (fst x)"
    and "\<forall>x\<in>#K. fst x = k" and "combined_from g (image_mset snd K) v"
  shows "reduction lt g (K + M) ((k, v) # xs)"
proof -
  have ne: "K \<noteq> {#}" using assms(5) by (auto simp: combined_from_def)
  have "filter_mset (\<lambda>x. fst x = k) M = filter_mset (\<lambda>_. False) M"
    using assms(3) weak_order.lt_irrefl [OF wo] by (intro filter_mset_cong) auto
  moreover have "filter_mset (\<lambda>x. fst x = k) K = K" using assms(4) by (simp add: filter_mset_eq_conv)
  ultimately have V: "values_of (K + M) k = image_mset snd K" by (simp add: values_of_def)
  have V': "values_of (K + M) k' = values_of M k'" if "k' \<noteq> k" for k'
  proof -
    have "filter_mset (\<lambda>x. fst x = k') K = filter_mset (\<lambda>_. False) K"
      using assms(4) that by (intro filter_mset_cong) auto
    then show ?thesis by (simp add: values_of_def)
  qed
  have "fst p \<in> fst ` set_mset M" if "p \<in> set xs" for p
    using assms(2) that by (metis image_eqI list.set_map reduction_def)
  then have keys: "\<forall>p\<in>set xs. lt k (fst p)" using assms(3) by (metis imageE)
  have "combined_from g (values_of (K + M) (fst p)) (snd p)" if "p \<in> set xs" for p
  proof -
    have "fst p \<noteq> k" using keys that weak_order.lt_irrefl [OF wo] by metis
    moreover have "combined_from g (values_of M (fst p)) (snd p)"
      using assms(2) that by (auto simp: reduction_def split_beta)
    ultimately show ?thesis using V' by simp
  qed
  moreover have "fst ` set_mset K = {k}" using ne assms(4) by auto
  ultimately show ?thesis
    using assms(2,3,5) keys V by (auto simp: reduction_def split_beta)
qed

lemma reduce_loop_spec:
  assumes wo: "weak_order lt" and tot: "\<forall>a b. \<not> lt a b \<longrightarrow> \<not> lt b a \<longrightarrow> a = b"
    and er: "eager_reader rd ok str fin mu" and ch: "0 < chunk" and "red_ok ok str fin lt h"
  shows "\<exists>h' xs M. reduce_loop lt (\<lambda>a b. Ret (g a b)) rd chunk n h = Some (Ret (h', xs, None)) \<and>
    red_ok ok str fin lt h' \<and> rest str h = M + rest str h' \<and> reduction lt g M xs \<and>
    (\<forall>x\<in>#M. \<forall>y\<in>#rest str h'. lt (fst x) (fst y)) \<and> length xs \<le> n \<and> (length xs = n \<or> h' = [])"
  using assms(5)
proof (induction n arbitrary: h)
  case 0
  then show ?case by (auto simp: reduction_def intro!: exI [of _ "{#}"])
next
  case (Suc n)
  show ?case
  proof (cases "h = []")
    case True
    then show ?thesis by (auto simp: reduction_def heap_ok_def rest_def heap_from_def intro!: exI [of _ "{#}"])
  next
    case False
    obtain h1 c cs where ga: "gather lt h [] = (h1, c # cs)" "mset h = add_mset c (mset cs) + mset h1"
      "red_ok ok str fin lt h1" "\<forall>b\<in>set (c # cs). fb_ok ok str fin (strict lt) b"
      "\<forall>b\<in>set cs. \<not> key_less lt (cur c) (cur b) \<and> \<not> key_less lt (cur b) (cur c)"
      "\<forall>b\<in>set h1. key_less lt (cur c) (cur b)"
      by (rule gather_first [OF wo Suc.prems False])
    note gv = gathered_values [OF wo tot ga(2-6)]
    obtain h2 where ad: "advance lt rd chunk (c # cs) h1 = Some (Ret (h2, None))" "red_ok ok str fin lt h2"
      "rest str h2 = rest str h1 + (\<Sum>b\<leftarrow>c # cs. mset (tl (fb_rows str b)))"
      using advance_spec [OF wo er ch ga(3,4)] by blast
    obtain h' xs M where IH: "reduce_loop lt (\<lambda>a b. Ret (g a b)) rd chunk n h2 = Some (Ret (h', xs, None))"
      "red_ok ok str fin lt h'" "rest str h2 = M + rest str h'" "reduction lt g M xs"
      "\<forall>x\<in>#M. \<forall>y\<in>#rest str h'. lt (fst x) (fst y)" "length xs \<le> n" "length xs = n \<or> h' = []"
      using Suc.IH [OF ad(2)] by blast
    let ?K = "mset (map cur (c # cs))" and ?v = "foldl g (snd (cur c)) (map (\<lambda>b. snd (cur b)) cs)"
    have later: "\<forall>x\<in>#M + rest str h'. lt (fst (cur c)) (fst x)" using gv(3) ad(3) IH(3) by simp
    have K: "\<forall>x\<in>#?K. fst x = fst (cur c)" using gv(2) by auto
    have cf: "combined_from g (image_mset snd ?K) ?v"
      unfolding combined_from_def by (intro exI [of _ "snd (cur c)"] exI [of _ "map (\<lambda>b. snd (cur b)) cs"])
        (simp add: image_mset.compositionality comp_def)
    have red: "reduction lt g (?K + M) ((fst (cur c), ?v) # xs)"
      by (rule reduction_Cons [OF wo IH(4) _ K cf]) (use later in simp)
    have "reduce_loop lt (\<lambda>a b. Ret (g a b)) rd chunk (Suc n) h = Some (Ret (h', (fst (cur c), ?v) # xs, None))"
      using False ga(1) ad(1) IH(1) by (simp add: combine_vals_Ret)
    moreover have "rest str h = (?K + M) + rest str h'" using gv(1) ad(3) IH(3) by (simp add: add.assoc)
    moreover have "\<forall>x\<in>#?K + M. \<forall>y\<in>#rest str h'. lt (fst x) (fst y)"
      using IH(5) later K by (metis union_iff)
    ultimately show ?thesis using red IH(2,6,7)
      by (intro exI [of _ h'] exI [of _ "(fst (cur c), ?v) # xs"] exI [of _ "?K + M"]) simp
  qed
qed

subsection \<open>The reducing reader meets the contract\<close>

lemma reduce_loop_add:
  assumes "reduce_loop lt f rd ch a h = Some (Ret (h', xs, None))"
    and "reduce_loop lt f rd ch b h' = Some (Ret (h'', ys, None))" and "length xs = a \<or> h' = []"
  shows "reduce_loop lt f rd ch (a + b) h = Some (Ret (h'', xs @ ys, None))"
  using assms(1,3)
proof (induction a arbitrary: h xs)
  case 0
  with assms(2) show ?case by simp
next
  case (Suc a)
  show ?case
  proof (cases "h = []")
    case True
    with Suc.prems assms(2) show ?thesis by (cases b) auto
  next
    case False
    obtain h1 cs where g: "gather lt h [] = (h1, cs)" by fastforce
    from Suc.prems(1) False g obtain v h2 zs where s:
      "combine_vals f (hd (map (\<lambda>b. snd (cur b)) cs)) (tl (map (\<lambda>b. snd (cur b)) cs)) = Ret v"
      "advance lt rd ch cs h1 = Some (Ret (h2, None))"
      "reduce_loop lt f rd ch a h2 = Some (Ret (h', zs, None))" "xs = (fst (cur (cs ! 0)), v) # zs"
      by (auto simp: run_bind_eq_Ret Let_def split: if_splits)
    with Suc.IH [OF s(3)] Suc.prems(2) False g show ?thesis by (simp add: Let_def)
  qed
qed

definition reduce_rows ::
  "('k \<Rightarrow> 'k \<Rightarrow> bool) \<Rightarrow> ('v \<Rightarrow> 'v \<Rightarrow> 'v go) \<Rightarrow> ('s, 'k \<times> 'v) reader \<Rightarrow> nat \<Rightarrow> ('s \<Rightarrow> ('k \<times> 'v) list)
     \<Rightarrow> ('s, 'k \<times> 'v) FrameBufferHeap \<Rightarrow> ('k \<times> 'v) list" where
  "reduce_rows lt f rd chunk str h =
     (case reduce_loop lt f rd chunk (size (rest str h)) h of Some (Ret (h', xs, err)) \<Rightarrow> xs | _ \<Rightarrow> [])"

lemma reduction_size: "reduction lt g M xs \<Longrightarrow> weak_order lt \<Longrightarrow> length xs \<le> size M"
proof -
  assume r: "reduction lt g M xs" and wo: "weak_order lt"
  have "sorted_wrt lt ks \<Longrightarrow> distinct ks" for ks
    using weak_order.lt_irrefl [OF wo] by (induction ks) auto
  then have "distinct (map fst xs)" using r by (simp add: reduction_def)
  then have "length xs = card (fst ` set_mset M)"
    using r by (metis reduction_def distinct_card length_map)
  also have "\<dots> \<le> card (set_mset M)" by (simp add: card_image_le)
  also have "\<dots> \<le> size M" by (induction M) (auto simp: card_insert_if)
  finally show ?thesis .
qed

lemma reduction_keys_empty: "reduction lt g M [] \<longleftrightarrow> M = {#}"
  by (auto simp: reduction_def)

lemma reduce_drain:
  fixes g :: "'v \<Rightarrow> 'v \<Rightarrow> 'v"
  assumes "weak_order lt" and "\<forall>a b. \<not> lt a b \<longrightarrow> \<not> lt b a \<longrightarrow> a = b"
    and "eager_reader rd ok str fin mu" and "0 < chunk" and "red_ok ok str fin lt h" and "size (rest str h) \<le> k"
  defines "f \<equiv> (\<lambda>a b. Ret (g a b))"
  shows "reduce_loop lt f rd chunk k h = Some (Ret ([], reduce_rows lt f rd chunk str h, None))"
    and "reduction lt g (rest str h) (reduce_rows lt f rd chunk str h)"
proof -
  let ?S = "size (rest str h)"
  obtain h' xs M where l: "reduce_loop lt f rd chunk ?S h = Some (Ret (h', xs, None))"
    "red_ok ok str fin lt h'" "rest str h = M + rest str h'" "reduction lt g M xs"
    "length xs \<le> ?S" "length xs = ?S \<or> h' = []"
    using reduce_loop_spec [OF assms(1-5), of g ?S] unfolding f_def by blast
  have h': "h' = []"
  proof (rule disjE [OF l(6)])
    assume "length xs = ?S"
    then have "size (rest str h') = 0" using reduction_size [OF l(4) assms(1)] l(3) by simp
    then show ?thesis using heap_ok_rest_empty [OF l(2)] by simp
  qed
  have e: "reduce_rows lt f rd chunk str h = xs" using l(1) by (simp add: reduce_rows_def)
  have "reduce_loop lt f rd chunk (k - ?S) [] = Some (Ret ([], [], None))" by (cases "k - ?S") auto
  then have "reduce_loop lt f rd chunk (?S + (k - ?S)) h = Some (Ret ([], xs @ [], None))"
    using reduce_loop_add [OF l(1)] h' l(6) by blast
  then show "reduce_loop lt f rd chunk k h = Some (Ret ([], reduce_rows lt f rd chunk str h, None))"
    using assms(6) e by simp
  have "rest str h = M" using l(3) h' by (simp add: rest_def)
  then show "reduction lt g (rest str h) (reduce_rows lt f rd chunk str h)" using l(4) e by simp
qed

lemma reduce_rows_split:
  assumes "weak_order lt" and "\<forall>a b. \<not> lt a b \<longrightarrow> \<not> lt b a \<longrightarrow> a = b"
    and "eager_reader rd ok str fin mu" and "0 < chunk" and "red_ok ok str fin lt h" "red_ok ok str fin lt h1"
    and "reduce_loop lt (\<lambda>a b. Ret (g a b)) rd chunk n h = Some (Ret (h1, xs, None))"
    and "rest str h = M + rest str h1" and "length xs = n \<or> h1 = []"
  shows "reduce_rows lt (\<lambda>a b. Ret (g a b)) rd chunk str h = xs @ reduce_rows lt (\<lambda>a b. Ret (g a b)) rd chunk str h1"
  using reduce_loop_add [OF assms(7) reduce_drain(1) [OF assms(1-4,6), of "size (rest str h)" g] assms(9)]
    reduce_drain(1) [OF assms(1-5), of "n + size (rest str h)" g] assms(8)
  by simp

definition reduce_init ::
  "('k \<Rightarrow> 'k \<Rightarrow> bool) \<Rightarrow> ('s, 'k \<times> 'v) reader \<Rightarrow> nat \<Rightarrow> ('s, 'k, 'v) reduceReader \<Rightarrow> ('s, 'k \<times> 'v) FrameBufferHeap" where
  "reduce_init lt rd chunk r = (case red_heap r of
       Some h \<Rightarrow> h
     | None \<Rightarrow> (case fill_all rd chunk (red_readers r) [] of
           Some (Ret (h, None)) \<Rightarrow> heap_Init (fb_Less (key_less lt)) fb_Swap fb_Len h
         | _ \<Rightarrow> []))"

definition reduce_ok ::
  "('s \<Rightarrow> bool) \<Rightarrow> ('s \<Rightarrow> ('k \<times> 'v) list) \<Rightarrow> ('s \<Rightarrow> goerror) \<Rightarrow> ('k \<Rightarrow> 'k \<Rightarrow> bool) \<Rightarrow> ('s, 'k, 'v) reduceReader \<Rightarrow> bool" where
  "reduce_ok ok str fin lt r \<longleftrightarrow> red_err r = None \<and> (case red_heap r of
       Some h \<Rightarrow> red_ok ok str fin lt h
     | None \<Rightarrow> (\<forall>s\<in>set (red_readers r). ok s \<and> fin s = EOF \<and> strict lt (str s)))"

lemma reduce_init_ok:
  assumes "weak_order lt" and "eager_reader rd ok str fin mu" and "0 < chunk" and "reduce_ok ok str fin lt r"
  shows "red_ok ok str fin lt (reduce_init lt rd chunk r)"
    and "red_heap r = None \<Longrightarrow> \<exists>h. fill_all rd chunk (red_readers r) [] = Some (Ret (h, None)) \<and>
      reduce_init lt rd chunk r = heap_Init (fb_Less (key_less lt)) fb_Swap fb_Len h"
    and "red_heap r = None \<Longrightarrow> rest str (reduce_init lt rd chunk r) = (\<Sum>s\<leftarrow>red_readers r. mset (str s))"
proof -
  have "red_ok ok str fin lt (reduce_init lt rd chunk r) \<and> (red_heap r = None \<longrightarrow>
      (\<exists>h. fill_all rd chunk (red_readers r) [] = Some (Ret (h, None)) \<and>
        reduce_init lt rd chunk r = heap_Init (fb_Less (key_less lt)) fb_Swap fb_Len h) \<and>
      rest str (reduce_init lt rd chunk r) = (\<Sum>s\<leftarrow>red_readers r. mset (str s)))"
  proof (cases "red_heap r")
    case (Some h)
    with assms(4) show ?thesis by (simp add: reduce_init_def reduce_ok_def)
  next
    case None
    then obtain h where h: "fill_all rd chunk (red_readers r) [] = Some (Ret (h, None))"
      "\<forall>b\<in>set h. fb_ok ok str fin (strict lt) b"
      "map (fb_rows str) h = filter (\<lambda>xs. xs \<noteq> []) (map str (red_readers r))"
      using fill_all_spec [OF assms(2,3), of "red_readers r" "strict lt" "[]"] assms(4) by (auto simp: reduce_ok_def)
    let ?h = "heap_Init (fb_Less (key_less lt)) fb_Swap fb_Len h"
    have init: "mset ?h = mset h" "is_heap (\<lambda>a b. key_less lt (cur a) (cur b)) ?h"
      using heap_interface.Init_heap(2,3) [OF fb_heap [OF weak_order_map [OF assms(1), of fst]], of h] by auto
    have "red_ok ok str fin lt ?h" using init h(2) mset_eq_setD [OF init(1)] by (simp add: heap_ok_def)
    moreover have "rest str ?h = (\<Sum>s\<leftarrow>red_readers r. mset (str s))"
      using rest_mset_eq [OF init(1)] rest_of_rows [OF h(3)] by simp
    ultimately show ?thesis using None h(1) by (simp add: reduce_init_def)
  qed
  then show "red_ok ok str fin lt (reduce_init lt rd chunk r)"
    and "red_heap r = None \<Longrightarrow> \<exists>h. fill_all rd chunk (red_readers r) [] = Some (Ret (h, None)) \<and>
      reduce_init lt rd chunk r = heap_Init (fb_Less (key_less lt)) fb_Swap fb_Len h"
    and "red_heap r = None \<Longrightarrow> rest str (reduce_init lt rd chunk r) = (\<Sum>s\<leftarrow>red_readers r. mset (str s))" by auto
qed

lemma reduce_Read_ok:
  fixes g :: "'v \<Rightarrow> 'v \<Rightarrow> 'v"
  assumes wo: "weak_order lt" and tot: "\<forall>a b. \<not> lt a b \<longrightarrow> \<not> lt b a \<longrightarrow> a = b"
    and er: "eager_reader rd ok str fin mu" and ch: "0 < chunk"
    and ok: "reduce_ok ok str fin lt r" and n: "0 < n"
  defines "f \<equiv> (\<lambda>a b. Ret (g a b))"
  shows "\<exists>res. reduce_Read lt f rd chunk r n = Some (Ret res) \<and>
    read_ok (reduce_ok ok str fin lt) (\<lambda>r. reduce_rows lt f rd chunk str (reduce_init lt rd chunk r)) (\<lambda>_. EOF)
      (\<lambda>r. size (rest str (reduce_init lt rd chunk r))) r n res"
proof -
  let ?h = "reduce_init lt rd chunk r"
  note io = reduce_init_ok [OF wo er ch ok]
  obtain h1 xs M where l: "reduce_loop lt f rd chunk n ?h = Some (Ret (h1, xs, None))"
    "red_ok ok str fin lt h1" "rest str ?h = M + rest str h1" "reduction lt g M xs" "length xs \<le> n" "length xs = n \<or> h1 = []"
    using reduce_loop_spec [OF wo tot er ch io(1), of g n] unfolding f_def by blast
  have rows: "reduce_rows lt f rd chunk str ?h = xs @ reduce_rows lt f rd chunk str h1"
    using reduce_rows_split [OF wo tot er ch io(1) l(2) _ l(3,6)] l(1) unfolding f_def by blast
  have e: "reduce_Read lt f rd chunk r n = Some (Ret (r\<lparr>red_heap := Some h1\<rparr>, xs, if h1 = [] then Some EOF else None))"
    using ok io(2) l(1) by (cases "red_heap r") (auto simp: reduce_Read_def reduce_ok_def reduce_init_def)
  have r': "reduce_ok ok str fin lt (r\<lparr>red_heap := Some h1\<rparr>)" "reduce_init lt rd chunk (r\<lparr>red_heap := Some h1\<rparr>) = h1"
    using ok l(2) by (auto simp: reduce_ok_def reduce_init_def)
  have "size (rest str h1) < size (rest str ?h)" if "h1 \<noteq> []"
    using l(3,4,6) that n reduction_size [OF l(4) wo] by simp
  moreover have "reduce_rows lt f rd chunk str [] = []" by (simp add: reduce_rows_def rest_def)
  ultimately show ?thesis using e r' rows l(5) by (auto simp: read_ok_def)
qed

text \<open>
  C12.  Reduction: the reader returned by \<open>sortio.Reduce\<close> over readers that are each strictly sorted
  by key (sorted and already combined) delivers, read with frames of any size, every key of its
  inputs exactly once, in ascending order, and with it the combination of all the values that any
  input has for the key.
\<close>

theorem Reduce_combines:
  assumes "weak_order lt" and "\<forall>a b. \<not> lt a b \<longrightarrow> \<not> lt b a \<longrightarrow> a = b"
    and "eager_reader rd ok str fin mu" and "0 < chunk" and "0 < n"
    and "\<forall>s\<in>set rs. ok s \<and> fin s = EOF \<and> sorted_wrt (key_less lt) (str s)" and "NumOut t - Prefix t = 1"
  shows "\<exists>r r' out. Reduce t rs = Ret r \<and>
    ReadAll (reduce_Read lt (\<lambda>a b. Ret (g a b)) rd chunk) n r [] = Some (Ret (r', out, None)) \<and>
    reduction lt g (\<Sum>s\<leftarrow>rs. mset (str s)) out"
proof -
  let ?r = "\<lparr>red_readers = rs, red_err = None, red_heap = None\<rparr>" and ?f = "\<lambda>a b. Ret (g a b)"
  have R: "Reduce t rs = Ret ?r" using assms(7) by (simp add: Reduce_def)
  have ok: "reduce_ok ok str fin lt ?r" using assms(6) by (simp add: reduce_ok_def)
  have sr: "slice_reader (reduce_Read lt ?f rd chunk) (reduce_ok ok str fin lt)
      (\<lambda>r. reduce_rows lt ?f rd chunk str (reduce_init lt rd chunk r)) (\<lambda>_. EOF)
      (\<lambda>r. size (rest str (reduce_init lt rd chunk r)))"
    using reduce_Read_ok [OF assms(1-4)] by (intro slice_reader.intro) blast
  note io = reduce_init_ok [OF assms(1,3,4) ok]
  from slice_reader.readall_loop_spec [OF sr ok assms(5), of "[]"]
    reduce_drain(2) [OF assms(1-4) io(1) order_refl, of g] io(3)
  show ?thesis using R by (auto simp: ReadAll_def)
qed

theorem Reduce_combines_witness:
  "\<exists>r r' out. Reduce (TypeSlice [TBasic ''string'', TBasic ''int'']) [[(1::int, 10::int), (3, 30)], [(1, 5), (2, 7)]] = Ret r \<and>
    ReadAll (reduce_Read (<) (\<lambda>a b. Ret (a + b)) frame_Read 2) 1 r [] = Some (Ret (r', out, None)) \<and>
    reduction (<) (+) (\<Sum>s\<leftarrow>[[(1, 10), (3, 30)], [(1, 5), (2, 7)]]. mset s) out"
  by (rule Reduce_combines [OF weak_order_less _ frd.eager_reader_axioms]) auto

section \<open>Sorting\<close>

lemma closing_eager:
  assumes "eager_reader rd ok str fin mu"
  shows "eager_reader (closing_Read rd) (\<lambda>c. ok (cr c)) (\<lambda>c. str (cr c)) (\<lambda>c. fin (cr c)) (\<lambda>c. mu (cr c))"
proof -
  have sr: "slice_reader rd ok str fin mu" using assms by (rule eager_reader.axioms)
  have "str (cr c) = []" if "ok (cr c)" "0 < n" "closing_Read rd c n = Some (Ret (c', [], None))" for c c' n
  proof -
    from that(3) obtain r' where "rd (cr c) n = Some (Ret (r', [], None))"
      by (auto simp: closing_Read_def run_bind_eq_Ret Let_def)
    with eager_reader.eager [OF assms that(1,2)] show ?thesis by blast
  qed
  with slice_reader.closing_reader [OF sr] show ?thesis
    by (intro eager_reader.intro eager_reader_axioms.intro) auto
qed

lemma rows_of_batch_of_rows:
  assumes "\<forall>x\<in>set xs. length x = ncol"
  shows "rows_of_batch (batch_of_rows ncol xs) = xs" and "wf_batch ncol (batch_of_rows ncol xs)"
proof -
  have "map (\<lambda>c. c ! k) (map (\<lambda>j. map (\<lambda>x. x ! j) xs) [0 ..< ncol]) = xs ! k" if "k < length xs" for k
    using assms that by (intro nth_equalityI) auto
  then show "rows_of_batch (batch_of_rows ncol xs) = xs"
    by (intro nth_equalityI) (simp_all add: batch_of_rows_def batch_rows_def)
qed (auto simp: wf_batch_def batch_of_rows_def)

text \<open>A file that holds the rows \<open>xs\<close> in non-empty batches.\<close>

definition holds_rows ::
  "(('v, 'u) msg list \<Rightarrow> 32 word) \<Rightarrow> ('v, 'u) ucodec \<Rightarrow> nat \<Rightarrow> 'v list list \<Rightarrow> ('v, 'u) msg list \<Rightarrow> bool" where
  "holds_rows crc uc ncol xs ms \<longleftrightarrow> (\<exists>fs. (\<forall>f\<in>set fs. 0 < blen f \<and> wf_batch ncol f) \<and>
     ms = concat (map (batch_msgs crc uc) fs) \<and> concat (map rows_of_batch fs) = xs)"

lemma Spill_holds:
  assumes "uc_ok uc" and "0 < batchSize" and "\<forall>x\<in>set xs. length x = ncol"
  shows "\<exists>ms. Spill crc uc batchSize dir (batch_of_rows ncol xs) = Some (dir @ [ms], None) \<and> holds_rows crc uc ncol xs ms"
proof -
  obtain fs e' where sp: "spill_loop put_list crc uc batchSize (NewEncodingWriter []) (batch_of_rows ncol xs) = Some (e', None)"
    "ew e' = concat (map (batch_msgs crc uc) fs)"
    "\<forall>g\<in>set fs. wf_batch ncol g \<and> 0 < blen g" "concat (map rows_of_batch fs) = rows_of_batch (batch_of_rows ncol xs)"
    using spill_loop_spec [OF assms(1) rows_of_batch_of_rows(2) [OF assms(3)] assms(2), of crc "NewEncodingWriter []"]
    by (auto simp: NewEncodingWriter_def)
  moreover have "holds_rows crc uc ncol xs (ew e')"
    unfolding holds_rows_def using sp rows_of_batch_of_rows(1) [OF assms(3)] by (intro exI [of _ fs]) auto
  ultimately show ?thesis by (simp add: Spill_def)
qed

text \<open>The encoding takes at least one byte per row.\<close>

definition byte_per_row :: "(('v, 'u) msg list \<Rightarrow> nat) \<Rightarrow> (('v, 'u) msg list \<Rightarrow> 32 word) \<Rightarrow> ('v, 'u) ucodec \<Rightarrow> bool" where
  "byte_per_row fsize crc uc \<longleftrightarrow>
     (\<forall>fs. length (concat (map rows_of_batch fs)) \<le> fsize (concat (map (batch_msgs crc uc) fs)))"

definition sorts :: "('r \<Rightarrow> 'r \<Rightarrow> bool) \<Rightarrow> ('r list \<Rightarrow> 'r list) \<Rightarrow> bool" where
  "sorts lt srt \<longleftrightarrow> (\<forall>xs. mset (srt xs) = mset xs \<and> ascending lt (srt xs))"

lemma sort_loop_spec:
  assumes sr: "slice_reader rd ok str fin mu" and uc: "uc_ok uc" and bs: "0 < batchSize"
    and srt: "sorts lt srt" and fs: "byte_per_row fsize crc uc"
    and "ok r" "fin r = EOF" "\<forall>x\<in>set (str r). length x = ncol" "0 < len"
  shows "\<exists>dir' runs. sort_loop srt fsize crc uc ncol batchSize spillTarget rd len r dir = Some (Ret (Inr (dir @ dir'))) \<and>
    list_all2 (holds_rows crc uc ncol) runs dir' \<and> (\<forall>xs\<in>set runs. ascending lt xs) \<and>
    (\<Sum>xs\<leftarrow>runs. mset xs) = mset (str r)"
  using assms(6-9)
proof (induction "length (str r)" arbitrary: r len dir rule: less_induct)
  case less
  from slice_reader.readfull_loop_spec [OF sr less.prems(1), of "[]" len] obtain r' xs e where
    rf: "ReadFull rd r len = Some (Ret (r', xs, e))" "ok r'" "str r = xs @ str r'" "fin r' = fin r"
    and cs: "case e of None \<Rightarrow> length xs = len | Some x \<Rightarrow> x = fin r \<and> str r' = []"
    unfolding ReadFull_def append_Nil by (metis le0 list.size(3))
  have m: "mset (srt xs) = mset xs" "ascending lt (srt xs)" using srt by (auto simp: sorts_def)
  have "\<forall>x\<in>set (srt xs). length x = ncol" using less.prems(3) rf(3) mset_eq_setD [OF m(1)] by auto
  from Spill_holds [OF uc bs this] obtain ms where sp:
    "Spill crc uc batchSize dir (batch_of_rows ncol (srt xs)) = Some (dir @ [ms], None)" "holds_rows crc uc ncol (srt xs) ms" by blast
  show ?case
  proof (cases e)
    case (Some x)
    then have "x = EOF" "str r' = []" using cs less.prems(2) by auto
    then have "sort_loop srt fsize crc uc ncol batchSize spillTarget rd len r dir = Some (Ret (Inr (dir @ [ms])))"
      using rf(1) sp(1) Some by (subst sort_loop.simps) simp
    then show ?thesis
      using sp(2) m rf(3) \<open>str r' = []\<close> by (intro exI [of _ "[ms]"] exI [of _ "[srt xs]"]) auto
  next
    case None
    then have len: "length xs = len" using cs by simp
    have "length (srt xs) \<le> fsize ms" using sp(2) fs unfolding holds_rows_def byte_per_row_def by metis
    moreover have "length (srt xs) = len" using m(1) len by (metis size_mset)
    ultimately have b: "0 < fsize ms div len" using less.prems(4) by (simp add: div_greater_zero_iff)
    define target where "target = max (spillTarget div (fsize ms div len)) batchSize"
    define len' where "len' = (if 20 * \<bar>int len - int target\<bar> \<le> int target then len else target)"
    have len': "0 < len'" using less.prems(4) bs by (auto simp: len'_def target_def)
    have e: "sort_loop srt fsize crc uc ncol batchSize spillTarget rd len r dir =
        sort_loop srt fsize crc uc ncol batchSize spillTarget rd len' r' (dir @ [ms])"
      using rf(1) sp(1) None len b less.prems(4)
      by (subst sort_loop.simps) (simp add: Let_def len'_def target_def)
    have "length (str r') < length (str r)" using rf(3) len less.prems(4) by simp
    from less.hyps [OF this rf(2) _ _ len', of "dir @ [ms]"] rf(3,4) less.prems(2,3) obtain dir' runs where
      "sort_loop srt fsize crc uc ncol batchSize spillTarget rd len' r' (dir @ [ms]) = Some (Ret (Inr ((dir @ [ms]) @ dir')))"
      "list_all2 (holds_rows crc uc ncol) runs dir'" "\<forall>xs\<in>set runs. ascending lt xs" "(\<Sum>xs\<leftarrow>runs. mset xs) = mset (str r')"
      by auto
    then show ?thesis
      using e sp(2) m rf(3) by (intro exI [of _ "ms # dir'"] exI [of _ "srt xs # runs"]) auto
  qed
qed

lemma holds_rows_reader:
  assumes "uc_ok uc" and "holds_rows crc uc ncol xs ms"
  shows "dec_ok (\<lambda>f. 0 < blen f) crc uc ncol (NewDecodingReader ms)" and "dec_str crc uc zero ncol (NewDecodingReader ms) = xs"
  using assms NewDecodingReader_ok [OF assms(1), where P = "\<lambda>f. 0 < blen f"]
  by (auto simp: holds_rows_def)

text \<open>The contract of the readers of spilled runs.\<close>

abbreviation run_ok where
  "run_ok crc uc ncol \<equiv> \<lambda>c. dec_ok (\<lambda>f. 0 < blen f) crc uc ncol (cr c)"

abbreviation run_str where
  "run_str crc uc zero ncol \<equiv> \<lambda>c. dec_str crc uc zero ncol (cr c)"

lemma run_reader:
  assumes "uc_ok uc"
  shows "eager_reader (closing_Read (decoding_Read crc uc zero ncol)) (run_ok crc uc ncol) (run_str crc uc zero ncol) (\<lambda>c. EOF) (\<lambda>c. dec_mu crc uc zero ncol (cr c))"
  using closing_eager [OF decoding_eager [OF assms]] .

lemma SortReader_ok:
  assumes "weak_order lt" and "sorts lt srt" and "slice_reader rd ok str fin mu" and "ok r" and "fin r = EOF"
    and "\<forall>x\<in>set (str r). length x = ncol" and "uc_ok uc" and "byte_per_row fsize crc uc"
    and "0 < batchSize" and "0 < canary" and "\<And>fs. mset (list fs) = mset fs"
  shows "\<exists>m. SortReader lt srt fsize crc uc zero ncol list batchSize canary spillTarget rd r = Some (Ret (Inr m)) \<and>
    merge_ok (run_ok crc uc ncol) (run_str crc uc zero ncol) (\<lambda>c. EOF) lt m \<and>
    mset (merge_str lt (closing_Read (decoding_Read crc uc zero ncol)) batchSize (run_str crc uc zero ncol) m) = mset (str r) \<and>
    ascending lt (merge_str lt (closing_Read (decoding_Read crc uc zero ncol)) batchSize (run_str crc uc zero ncol) m)"
proof -
  let ?rd = "closing_Read (decoding_Read crc uc zero ncol)"
  let ?str = "run_str crc uc zero ncol" and ?mk = "\<lambda>ms. NewClosingReader (NewDecodingReader ms)"
  obtain dir runs where d: "sort_loop srt fsize crc uc ncol batchSize spillTarget rd canary r [] = Some (Ret (Inr dir))"
    "list_all2 (holds_rows crc uc ncol) runs dir" "\<forall>xs\<in>set runs. ascending lt xs" "(\<Sum>xs\<leftarrow>runs. mset xs) = mset (str r)"
    using sort_loop_spec [OF assms(3,7,9,2,8,4-6,10), of spillTarget "[]"] by auto
  have files: "map (\<lambda>ms. ?str (?mk ms)) dir = runs"
    using d(2) holds_rows_reader(2) [OF assms(7)] by (induction rule: list_all2_induct) (auto simp: NewClosingReader_def)
  have ok: "dec_ok (\<lambda>f. 0 < blen f) crc uc ncol (NewDecodingReader ms)" if "ms \<in> set dir" for ms
    using d(2) that holds_rows_reader(1) [OF assms(7)] by (induction rule: list_all2_induct) auto
  have set: "set (list dir) = set dir" using assms(11) mset_eq_setD by metis
  have sorted: "\<forall>c\<in>set (spill_ClosingReaders list dir). run_ok crc uc ncol c \<and> EOF = EOF \<and> ascending lt (?str c)"
    using ok d(3) set files by (auto simp: spill_ClosingReaders_def spill_Readers_def NewClosingReader_def)
  have "(\<Sum>c\<leftarrow>spill_ClosingReaders list dir. mset (?str c)) = (\<Sum>ms\<in>#mset (list dir). mset (?str (?mk ms)))"
    by (simp add: spill_ClosingReaders_def spill_Readers_def comp_def flip: sum_mset_sum_list)
  also have "\<dots> = (\<Sum>xs\<leftarrow>map (\<lambda>ms. ?str (?mk ms)) dir. mset xs)"
    unfolding assms(11) by (simp add: comp_def flip: sum_mset_sum_list)
  finally have all: "(\<Sum>c\<leftarrow>spill_ClosingReaders list dir. mset (?str c)) = mset (str r)" using files d(4) by simp
  from NewMergeReader_spec [OF assms(1) run_reader [OF assms(7)] assms(9) sorted] all d(1)
  show ?thesis by (auto simp: SortReader_def)
qed

text \<open>
  C13.  External sorting: \<open>SortReader\<close> splits its input into runs, sorts and spills each, and returns
  a merge reader that delivers a sorted permutation of the rows of the input; this holds for every
  spill target, every size of the canary and of the batches, and every order in which the spill
  files are listed.
\<close>

theorem SortReader_sorts:
  assumes "weak_order lt" and "sorts lt srt" and "slice_reader rd ok str fin mu" and "ok r" and "fin r = EOF"
    and "\<forall>x\<in>set (str r). length x = ncol" and "uc_ok uc" and "byte_per_row fsize crc uc"
    and "0 < batchSize" and "0 < canary" and "\<And>fs. mset (list fs) = mset fs" and "0 < chunk"
  shows "\<exists>m m' out. SortReader lt srt fsize crc uc zero ncol list batchSize canary spillTarget rd r = Some (Ret (Inr m)) \<and>
    ReadAll (merge_Read lt (closing_Read (decoding_Read crc uc zero ncol)) batchSize) chunk m [] = Some (Ret (m', out, None)) \<and>
    ascending lt out \<and> mset out = mset (str r)"
proof -
  note er = run_reader [OF assms(7), of crc zero ncol]
  obtain m where m: "SortReader lt srt fsize crc uc zero ncol list batchSize canary spillTarget rd r = Some (Ret (Inr m))"
    "merge_ok (run_ok crc uc ncol) (run_str crc uc zero ncol) (\<lambda>c. EOF) lt m"
    "mset (merge_str lt (closing_Read (decoding_Read crc uc zero ncol)) batchSize (run_str crc uc zero ncol) m) = mset (str r)"
    "ascending lt (merge_str lt (closing_Read (decoding_Read crc uc zero ncol)) batchSize (run_str crc uc zero ncol) m)"
    using SortReader_ok [OF assms(1-11)] by blast
  from slice_reader.readall_loop_spec [OF merge_reader [OF assms(1) er assms(9)] m(2) assms(12), of "[]"] m
  show ?thesis by (auto simp: ReadAll_def)
qed

lemma count_rows_size:
  "length (concat (map rows_of_batch fs)) \<le>
     sum_list (map (case_msg nat (\<lambda>_. 0) (\<lambda>_. 0) (\<lambda>_. 0) (\<lambda>_. 0)) (concat (map (batch_msgs crc uc) fs)))"
proof (induction fs)
  case (Cons f fs)
  have "blen f \<le> sum_list (map (case_msg nat (\<lambda>_. 0) (\<lambda>_. 0) (\<lambda>_. 0) (\<lambda>_. 0)) (batch_msgs crc uc f))"
    by (simp add: batch_msgs_def Let_def)
  with Cons show ?case by simp
qed simp

theorem SortReader_sorts_witness:
  "\<exists>m m' out. SortReader (\<lambda>x y. hd x < hd y) (sort_key hd)
      (\<lambda>ms. sum_list (map (case_msg nat (\<lambda>_. 0) (\<lambda>_. 0) (\<lambda>_. 0) (\<lambda>_. 0)) ms)) (\<lambda>_. 0)
      (\<lambda>_. None :: ((int list \<Rightarrow> goerror + unit) \<times> (unit \<Rightarrow> nat \<Rightarrow> goerror + int list)) option) (\<lambda>_. 0) 1 rev 2 2 3
      frame_Read [[5], [1], [4], [2], [3]] = Some (Ret (Inr m)) \<and>
    ReadAll (merge_Read (\<lambda>x y. hd x < hd y) (closing_Read (decoding_Read (\<lambda>_. 0) (\<lambda>_. None) (\<lambda>_. 0) 1)) 2) 4 m [] =
      Some (Ret (m', out, None)) \<and>
    ascending (\<lambda>x y. hd x < hd y) out \<and> mset out = mset [[5], [1], [4], [2], [3]]"
proof (rule SortReader_sorts [OF _ _ frd.slice_reader_axioms])
  show "weak_order (\<lambda>x y. hd x < (hd y :: int))" by (rule weak_order_map [OF weak_order_less])
  show "sorts (\<lambda>x y. hd x < (hd y :: int)) (sort_key hd)"
    unfolding sorts_def
  proof (intro allI conjI)
    fix xs :: "int list list"
    have "sorted (map hd (sort_key hd xs))" by simp
    then show "ascending (\<lambda>x y. hd x < hd y) (sort_key hd xs)" by (simp add: sorted_wrt_map not_less)
  qed simp
qed (auto simp: uc_ok_def byte_per_row_def count_rows_size)

end
