(* ===== verification/Cogroup.thy ===== *)
theory Cogroup
  imports SortIO "HOL-Library.List_Lexorder"
begin

text \<open>
  \<open>cogroup.go\<close>: the reader of a cogroup.  It sorts every input by key, merges the sorted inputs through a heap of
  frame buffers, and delivers one row per key with, for every column of every input, the list of the values that the
  input has for the key.

  The sources tell the buffers of the heap apart by their offset: \<open>Off / bufferSize\<close> is the index of the input.  Here
  the rows of a buffer carry that index.  Rows are lists of columns of which the first \<open>cg_prefix\<close> are the key.  The
  parameters of \<open>sortio.SortReader\<close> are those of theory \<open>SortIO\<close>, per input where its type decides them.
\<close>

section \<open>The reader\<close>

record ('v, 'u) cogroup_env =
  cg_prefix :: nat
  cg_less :: "'v list \<Rightarrow> 'v list \<Rightarrow> bool"
  cg_sort :: "'v list list \<Rightarrow> 'v list list"
  cg_fsize :: "('v, 'u) msg list \<Rightarrow> nat"
  cg_crc :: "('v, 'u) msg list \<Rightarrow> 32 word"
  cg_uc :: "nat \<Rightarrow> ('v, 'u) ucodec"
  cg_zero :: "nat \<Rightarrow> nat \<Rightarrow> 'v"
  cg_ncol :: "nat \<Rightarrow> nat"
  cg_list :: "('v, 'u) msg list list \<Rightarrow> ('v, 'u) msg list list"
  cg_batch :: nat
  cg_canary :: nat

definition bufferSize :: nat where "bufferSize = 128"
definition spillSize :: nat where "spillSize = 2 ^ 25"

type_synonym ('v, 'u) sorted_input = "nat \<times> (('v, 'u) decodingReader closingReader, 'v list) mergeReader"

record ('s, 'v, 'u) cogroupReader =
  cgErr :: gerr
  cgReaders :: "'s list"
  cgHeap :: "(('v, 'u) sorted_input, nat \<times> 'v list) FrameBufferHeap option"

text \<open>A column of the output holds a key or the values of an input.\<close>

datatype 'v cell = KeyCell 'v | Vals "'v list"

text \<open>Rows and tagged rows are ordered by their keys (\<open>lessBuf\<close>).\<close>

abbreviation row_less :: "('v, 'u) cogroup_env \<Rightarrow> 'v list \<Rightarrow> 'v list \<Rightarrow> bool" where
  "row_less E x y \<equiv> cg_less E (take (cg_prefix E) x) (take (cg_prefix E) y)"

definition cg_key :: "('v, 'u) cogroup_env \<Rightarrow> nat \<times> 'v list \<Rightarrow> 'v list" where
  "cg_key E y = take (cg_prefix E) (snd y)"

abbreviation tag_less :: "('v, 'u) cogroup_env \<Rightarrow> nat \<times> 'v list \<Rightarrow> nat \<times> 'v list \<Rightarrow> bool" where
  "tag_less E x y \<equiv> cg_less E (cg_key E x) (cg_key E y)"

text \<open>Reading a sorted input.\<close>

definition input_Read :: "('v, 'u) cogroup_env \<Rightarrow> (('v, 'u) sorted_input, nat \<times> 'v list) reader" where
  "input_Read E = (\<lambda>(i, m) n.
     run_bind (merge_Read (row_less E) (closing_Read (decoding_Read (cg_crc E) (cg_uc E i) (cg_zero E i) (cg_ncol E i))) (cg_batch E) m n)
       (\<lambda>(m', xs, err). Some (Ret ((i, m'), map (Pair i) xs, err))))"

text \<open>The loop that sorts the inputs one by one and fills a buffer for each.\<close>

fun cg_open ::
  "('v, 'u) cogroup_env \<Rightarrow> ('s, 'v list) reader \<Rightarrow> nat \<Rightarrow> 's list \<Rightarrow> (('v, 'u) sorted_input, nat \<times> 'v list) FrameBufferHeap
     \<Rightarrow> ((('v, 'u) sorted_input, nat \<times> 'v list) FrameBufferHeap \<times> gerr) go option" where
  "cg_open E rd i [] h = Some (Ret (h, None))"
| "cg_open E rd i (r # rs) h =
     run_bind (SortReader (row_less E) (cg_sort E) (cg_fsize E) (cg_crc E) (cg_uc E i) (cg_zero E i) (cg_ncol E i) (cg_list E) (cg_batch E) (cg_canary E) spillSize rd r) (\<lambda>sorted.
       case sorted of
         Inl e \<Rightarrow> Some (Ret (h, Some e))
       | Inr m \<Rightarrow> run_bind (Fill (input_Read E) bufferSize \<lparr>fframe = [], freader = (i, m), fIndex = 0, fLen = 0\<rparr>) (\<lambda>(b, err).
           if err = Some EOF then cg_open E rd (Suc i) rs h
           else if err \<noteq> None then Some (Ret (h, err))
           else cg_open E rd (Suc i) rs (h @ [b])))"

text \<open>
  Gathering the rows of one key.  \<open>row\<close> has the rows gathered for each input and \<open>lst\<close> is the input of the last one
  (\<open>None\<close> for -1); an iteration takes the first row of the heap as the merge reader of \<open>sortio\<close> does.
\<close>

partial_function (option) cg_gather ::
  "('v, 'u) cogroup_env \<Rightarrow> (('v, 'u) sorted_input, nat \<times> 'v list) FrameBufferHeap \<Rightarrow> 'v list list list \<Rightarrow> nat option \<Rightarrow> 'v list
     \<Rightarrow> ((('v, 'u) sorted_input, nat \<times> 'v list) FrameBufferHeap \<times> 'v list list list \<times> 'v list \<times> gerr) go option" where
  "cg_gather E h row lst key =
     (if lst = None \<or> h \<noteq> [] \<and> \<not> row_less E (row ! the lst ! 0) (snd (cur (h ! 0)))
      then let idx = fst (cur (h ! 0)); row' = row[idx := row ! idx @ [snd (cur (h ! 0))]];
               key' = (if lst = None then take (cg_prefix E) (row' ! idx ! 0) else key)
           in run_bind (merge_step (tag_less E) (input_Read E) bufferSize h) (\<lambda>(h', x, err).
                if err \<noteq> None then Some (Ret (h', row', key', err)) else cg_gather E h' row' (Some idx) key')
      else Some (Ret (h, row, key, None)))"

text \<open>The row that is delivered for a key; an input without rows for the key has zero values, which are empty lists.\<close>

definition cg_emit :: "('v, 'u) cogroup_env \<Rightarrow> 'v list \<Rightarrow> 'v list list list \<Rightarrow> 'v cell list" where
  "cg_emit E key row = map KeyCell key @ concat (map (\<lambda>(i, xs).
     if xs = [] then replicate (cg_ncol E i - length key) (Vals [])
     else map (\<lambda>k. Vals (map (\<lambda>x. x ! k) xs)) [length key ..< cg_ncol E i]) (enumerate 0 row))"

primrec cg_loop ::
  "('v, 'u) cogroup_env \<Rightarrow> nat \<Rightarrow> nat \<Rightarrow> (('v, 'u) sorted_input, nat \<times> 'v list) FrameBufferHeap
     \<Rightarrow> ((('v, 'u) sorted_input, nat \<times> 'v list) FrameBufferHeap \<times> 'v cell list list \<times> gerr) go option" where
  "cg_loop E nr 0 h = Some (Ret (h, [], None))"
| "cg_loop E nr (Suc k) h =
     (if h = [] then Some (Ret (h, [], None))
      else run_bind (cg_gather E h (replicate nr []) None []) (\<lambda>(h', row, key, err).
        if err \<noteq> None then Some (Ret (h', [], err))
        else run_bind (cg_loop E nr k h') (\<lambda>(h'', out, err). Some (Ret (h'', cg_emit E key row # out, err)))))"

definition cogroup_Read :: "('v, 'u) cogroup_env \<Rightarrow> ('s, 'v list) reader \<Rightarrow> (('s, 'v, 'u) cogroupReader, 'v cell list) reader" where
  "cogroup_Read E rd c n =
     (if cgErr c \<noteq> None then Some (Ret (c, [], cgErr c))
      else run_bind (case cgHeap c of Some h \<Rightarrow> Some (Ret (h, None)) | None \<Rightarrow> cg_open E rd 0 (cgReaders c) []) (\<lambda>(h, err).
        if err \<noteq> None then Some (Ret (c\<lparr>cgErr := err, cgHeap := Some h\<rparr>, [], err))
        else let h = heap_Init (fb_Less (tag_less E)) fb_Swap fb_Len h
             in if n = 0 then Some (Panic ''bigslice.Cogroup: max == 0'')
                else run_bind (cg_loop E (length (cgReaders c)) n h) (\<lambda>(h', out, err).
                  let err = (if err \<noteq> None then err else if out = [] then Some EOF else None)
                  in Some (Ret (c\<lparr>cgErr := err, cgHeap := Some h'\<rparr>, out, err)))))"

definition cogroup_Reader :: "'s list \<Rightarrow> ('s, 'v, 'u) cogroupReader" where
  "cogroup_Reader deps = \<lparr>cgErr = None, cgReaders = deps, cgHeap = None\<rparr>"

section \<open>Grouping\<close>

text \<open>The rows of input \<open>i\<close> with key \<open>k\<close> among tagged rows.\<close>

definition group_of :: "('v, 'u) cogroup_env \<Rightarrow> (nat \<times> 'v list) multiset \<Rightarrow> 'v list \<Rightarrow> nat \<Rightarrow> 'v list multiset" where
  "group_of E T k i = image_mset snd (filter_mset (\<lambda>y. fst y = i \<and> cg_key E y = k) T)"

text \<open>\<open>gs\<close> are the keys of \<open>T\<close> in ascending order, each with its rows per input.\<close>

definition groups :: "('v, 'u) cogroup_env \<Rightarrow> nat \<Rightarrow> (nat \<times> 'v list) multiset \<Rightarrow> ('v list \<times> 'v list list list) list \<Rightarrow> bool" where
  "groups E nr T gs \<longleftrightarrow> sorted_wrt (cg_less E) (map fst gs) \<and> set (map fst gs) = cg_key E ` set_mset T \<and>
     (\<forall>(k, row)\<in>set gs. length row = nr \<and> (\<forall>i<nr. mset (row ! i) = group_of E T k i))"

definition cogroup_ok :: "('v, 'u) cogroup_env \<Rightarrow> bool" where
  "cogroup_ok E \<longleftrightarrow> weak_order (cg_less E) \<and> (\<forall>a b. \<not> cg_less E a b \<longrightarrow> \<not> cg_less E b a \<longrightarrow> a = b) \<and> sorts (row_less E) (cg_sort E) \<and>
     (\<forall>i. uc_ok (cg_uc E i) \<and> byte_per_row (cg_fsize E) (cg_crc E) (cg_uc E i)) \<and> (\<forall>fs. mset (cg_list E fs) = mset fs) \<and> 0 < cg_batch E \<and> 0 < cg_canary E"

text \<open>The contract of the sorted inputs.\<close>

definition in_ok :: "('v, 'u) cogroup_env \<Rightarrow> ('v, 'u) sorted_input \<Rightarrow> bool" where
  "in_ok E = (\<lambda>(i, m). merge_ok (run_ok (cg_crc E) (cg_uc E i) (cg_ncol E i)) (run_str (cg_crc E) (cg_uc E i) (cg_zero E i) (cg_ncol E i)) (\<lambda>_. EOF) (row_less E) m)"

definition in_str :: "('v, 'u) cogroup_env \<Rightarrow> ('v, 'u) sorted_input \<Rightarrow> (nat \<times> 'v list) list" where
  "in_str E = (\<lambda>(i, m). map (Pair i) (merge_str (row_less E) (closing_Read (decoding_Read (cg_crc E) (cg_uc E i) (cg_zero E i) (cg_ncol E i))) (cg_batch E)
     (run_str (cg_crc E) (cg_uc E i) (cg_zero E i) (cg_ncol E i)) m))"

definition in_mu :: "('v, 'u) cogroup_env \<Rightarrow> ('v, 'u) sorted_input \<Rightarrow> nat" where
  "in_mu E = (\<lambda>(i, m). size (rest (run_str (cg_crc E) (cg_uc E i) (cg_zero E i) (cg_ncol E i)) (merge_heap m)))"

lemma cogroup_okD:
  assumes "cogroup_ok E"
  shows "weak_order (row_less E)" and "weak_order (tag_less E)" and "weak_order (cg_less E)" and "\<not> cg_less E a b \<Longrightarrow> \<not> cg_less E b a \<Longrightarrow> a = b"
  using assms weak_order_map [of "cg_less E"] by (auto simp: cogroup_ok_def)

lemma input_reader:
  assumes "cogroup_ok E"
  shows "eager_reader (input_Read E) (in_ok E) (in_str E) (\<lambda>_. EOF) (in_mu E)"
proof -
  have uc: "uc_ok (cg_uc E i)" and bs: "0 < cg_batch E" for i using assms by (auto simp: cogroup_ok_def)
  have er: "eager_reader (merge_Read (row_less E) (closing_Read (decoding_Read (cg_crc E) (cg_uc E i) (cg_zero E i) (cg_ncol E i))) (cg_batch E))
      (merge_ok (run_ok (cg_crc E) (cg_uc E i) (cg_ncol E i)) (run_str (cg_crc E) (cg_uc E i) (cg_zero E i) (cg_ncol E i)) (\<lambda>_. EOF) (row_less E))
      (merge_str (row_less E) (closing_Read (decoding_Read (cg_crc E) (cg_uc E i) (cg_zero E i) (cg_ncol E i))) (cg_batch E) (run_str (cg_crc E) (cg_uc E i) (cg_zero E i) (cg_ncol E i)))
      (\<lambda>_. EOF) (\<lambda>m. size (rest (run_str (cg_crc E) (cg_uc E i) (cg_zero E i) (cg_ncol E i)) (merge_heap m)))" for i
    by (rule merge_eager [OF cogroup_okD(1) [OF assms] run_reader [OF uc] bs])
  have "\<exists>res. input_Read E s n = Some (Ret res) \<and> read_ok (in_ok E) (in_str E) (\<lambda>_. EOF) (in_mu E) s n res" if "in_ok E s" "0 < n" for s n
  proof (cases s)
    case (Pair i m)
    with slice_reader.read_law [OF eager_reader.axioms(1) [OF er [of i]], of m n] that obtain m' xs e where
      r: "merge_Read (row_less E) (closing_Read (decoding_Read (cg_crc E) (cg_uc E i) (cg_zero E i) (cg_ncol E i))) (cg_batch E) m n = Some (Ret (m', xs, e))"
        "read_ok (merge_ok (run_ok (cg_crc E) (cg_uc E i) (cg_ncol E i)) (run_str (cg_crc E) (cg_uc E i) (cg_zero E i) (cg_ncol E i)) (\<lambda>_. EOF) (row_less E))
          (merge_str (row_less E) (closing_Read (decoding_Read (cg_crc E) (cg_uc E i) (cg_zero E i) (cg_ncol E i))) (cg_batch E) (run_str (cg_crc E) (cg_uc E i) (cg_zero E i) (cg_ncol E i)))
          (\<lambda>_. EOF) (\<lambda>m. size (rest (run_str (cg_crc E) (cg_uc E i) (cg_zero E i) (cg_ncol E i)) (merge_heap m))) m n (m', xs, e)"
      by (auto simp: in_ok_def)
    then have "input_Read E s n = Some (Ret ((i, m'), map (Pair i) xs, e))" by (simp add: Pair input_Read_def)
    moreover have "read_ok (in_ok E) (in_str E) (\<lambda>_. EOF) (in_mu E) s n ((i, m'), map (Pair i) xs, e)"
      using r(2) by (cases e) (simp_all add: Pair read_ok_def in_ok_def in_str_def in_mu_def)
    ultimately show ?thesis by blast
  qed
  moreover have "in_str E s = []" if "in_ok E s" "0 < n" "input_Read E s n = Some (Ret (s', [], None))" for s s' n
    using that eager_reader.eager [OF er [of "fst s"], of "snd s" n]
    by (auto simp: input_Read_def in_ok_def in_str_def run_bind_eq_Ret split: prod.splits)
  ultimately show ?thesis by (intro eager_reader.intro slice_reader.intro eager_reader_axioms.intro) auto
qed

abbreviation cg_heap_ok :: "('v, 'u) cogroup_env \<Rightarrow> (('v, 'u) sorted_input, nat \<times> 'v list) FrameBufferHeap \<Rightarrow> bool" where
  "cg_heap_ok E h \<equiv> heap_ok (in_ok E) (in_str E) (\<lambda>_. EOF) (ascending (tag_less E)) (tag_less E) h"

abbreviation cg_rest :: "('v, 'u) cogroup_env \<Rightarrow> (('v, 'u) sorted_input, nat \<times> 'v list) FrameBufferHeap \<Rightarrow> (nat \<times> 'v list) multiset" where
  "cg_rest E h \<equiv> rest (in_str E) h"

lemma cg_step:
  assumes "cogroup_ok E" and "cg_heap_ok E h" and "h \<noteq> []"
  obtains h' where "merge_step (tag_less E) (input_Read E) bufferSize h = Some (Ret (h', cur (h ! 0), None))" and "cg_heap_ok E h'"
    and "cg_rest E h = add_mset (cur (h ! 0)) (cg_rest E h')"
  using merge_step_spec [OF cogroup_okD(2) [OF assms(1)] input_reader [OF assms(1)] _ assms(2,3), of bufferSize] by (auto simp: bufferSize_def)

lemma filter_mset_none: "(\<And>y. y \<in># M \<Longrightarrow> \<not> P y) \<Longrightarrow> filter_mset P M = {#}"
  by (induction M) auto

text \<open>From the first row on, the gathering takes the rows with the key of the group and leaves the others.\<close>

lemma cg_gather_more:
  assumes E: "cogroup_ok E"
  shows "cg_heap_ok E h \<Longrightarrow> \<forall>y\<in>#cg_rest E h. \<not> cg_less E (cg_key E y) k \<and> fst y < length row \<Longrightarrow>
    l < length row \<Longrightarrow> row ! l \<noteq> [] \<Longrightarrow> take (cg_prefix E) (row ! l ! 0) = k \<Longrightarrow> \<forall>i<length row. \<forall>x\<in>set (row ! i). take (cg_prefix E) x = k \<Longrightarrow>
    \<exists>h' row'. cg_gather E h row (Some l) k = Some (Ret (h', row', k, None)) \<and> cg_heap_ok E h' \<and> length row' = length row \<and>
      cg_rest E h' = filter_mset (\<lambda>y. cg_key E y \<noteq> k) (cg_rest E h) \<and> (\<forall>i<length row. mset (row' ! i) = mset (row ! i) + group_of E (cg_rest E h) k i)"
proof (induction "size (cg_rest E h)" arbitrary: h row l rule: less_induct)
  case less
  show ?case
  proof (cases "h \<noteq> [] \<and> \<not> cg_less E k (cg_key E (cur (h ! 0)))")
    case False
    have gt: "cg_key E y \<noteq> k" if y: "y \<in># cg_rest E h" for y
    proof
      assume e: "cg_key E y = k"
      have "h \<noteq> []" using y by (auto simp: rest_def)
      with False heap_ok_min [OF cogroup_okD(2) [OF E] less.prems(1) _ y] show False by (auto simp: e)
    qed
    then have "filter_mset (\<lambda>y. cg_key E y \<noteq> k) (cg_rest E h) = cg_rest E h" "\<forall>i. group_of E (cg_rest E h) k i = {#}"
      by (auto simp: group_of_def filter_mset_eq_conv filter_mset_none)
    moreover have "cg_gather E h row (Some l) k = Some (Ret (h, row, k, None))"
      using False less.prems(5) by (subst cg_gather.simps) (auto simp: cg_key_def)
    ultimately show ?thesis using less.prems(1) by simp
  next
    case True
    let ?y = "cur (h ! 0)" let ?row = "row[fst ?y := row ! fst ?y @ [snd ?y]]"
    obtain h1 where h1: "merge_step (tag_less E) (input_Read E) bufferSize h = Some (Ret (h1, ?y, None))" "cg_heap_ok E h1" "cg_rest E h = add_mset ?y (cg_rest E h1)"
      using cg_step [OF E less.prems(1)] True by blast
    have y: "\<not> cg_less E (cg_key E ?y) k" "fst ?y < length row" using less.prems(2) h1(3) by auto
    then have k: "cg_key E ?y = k" using True cogroup_okD(4) [OF E] by blast
    have row: "?row ! fst ?y \<noteq> []" "take (cg_prefix E) (?row ! fst ?y ! 0) = k" "\<forall>i<length ?row. \<forall>x\<in>set (?row ! i). take (cg_prefix E) x = k"
      using y(2) k less.prems(6) by (auto simp: nth_list_update nth_append cg_key_def)
    have "size (cg_rest E h1) < size (cg_rest E h)" "\<forall>y\<in>#cg_rest E h1. \<not> cg_less E (cg_key E y) k \<and> fst y < length ?row" "fst ?y < length ?row"
      using h1(3) less.prems(2) y(2) by auto
    from less.hyps [OF this(1) h1(2) this(2,3) row] obtain h' row' where IH: "cg_gather E h1 ?row (Some (fst ?y)) k = Some (Ret (h', row', k, None))" "cg_heap_ok E h'"
      "length row' = length ?row" "cg_rest E h' = filter_mset (\<lambda>y. cg_key E y \<noteq> k) (cg_rest E h1)" "\<forall>i<length ?row. mset (row' ! i) = mset (?row ! i) + group_of E (cg_rest E h1) k i"
      by blast
    have "cg_gather E h row (Some l) k = Some (Ret (h', row', k, None))"
      using True less.prems(5) h1(1) IH(1) by (subst cg_gather.simps) (auto simp: cg_key_def Let_def)
    moreover have "mset (row' ! i) = mset (row ! i) + group_of E (cg_rest E h) k i" if "i < length row" for i
      using IH(5) that y(2) k h1(3) by (auto simp: nth_list_update group_of_def)
    ultimately show ?thesis using IH(2-4) h1(3) k by auto
  qed
qed

lemma cg_gather_first:
  assumes E: "cogroup_ok E" and h: "cg_heap_ok E h" "h \<noteq> []" and nr: "\<forall>y\<in>#cg_rest E h. fst y < nr"
  obtains h' row k where "cg_gather E h (replicate nr []) None [] = Some (Ret (h', row, k, None))" and "cg_heap_ok E h'" and "length row = nr"
    and "cg_rest E h' = filter_mset (\<lambda>y. cg_key E y \<noteq> k) (cg_rest E h)" and "\<forall>i<nr. mset (row ! i) = group_of E (cg_rest E h) k i"
    and "k \<in> cg_key E ` set_mset (cg_rest E h)" and "\<forall>y\<in>#cg_rest E h'. cg_less E k (cg_key E y)"
proof -
  let ?y = "cur (h ! 0)" and ?k = "cg_key E (cur (h ! 0))" let ?row = "(replicate nr [])[fst ?y := [snd ?y]]"
  obtain h1 where h1: "merge_step (tag_less E) (input_Read E) bufferSize h = Some (Ret (h1, ?y, None))" "cg_heap_ok E h1" "cg_rest E h = add_mset ?y (cg_rest E h1)"
    using cg_step [OF E h] by blast
  have i: "fst ?y < nr" using nr h1(3) by auto
  have min: "\<not> cg_less E (cg_key E y) ?k" if "y \<in># cg_rest E h" for y
    using heap_ok_min [OF cogroup_okD(2) [OF E] h that] .
  have "\<forall>y\<in>#cg_rest E h1. \<not> cg_less E (cg_key E y) ?k \<and> fst y < length ?row" "fst ?y < length ?row" "?row ! fst ?y \<noteq> []" "take (cg_prefix E) (?row ! fst ?y ! 0) = ?k"
    "\<forall>i<length ?row. \<forall>x\<in>set (?row ! i). take (cg_prefix E) x = ?k"
    using min nr h1(3) i by (auto simp: nth_list_update cg_key_def)
  from cg_gather_more [OF E h1(2) this] obtain h' row where g: "cg_gather E h1 ?row (Some (fst ?y)) ?k = Some (Ret (h', row, ?k, None))" "cg_heap_ok E h'"
    "length row = nr" "cg_rest E h' = filter_mset (\<lambda>y. cg_key E y \<noteq> ?k) (cg_rest E h1)" "\<forall>i<nr. mset (row ! i) = mset (?row ! i) + group_of E (cg_rest E h1) ?k i"
    by auto
  show thesis
  proof (rule that [of h' row ?k])
    show "cg_gather E h (replicate nr []) None [] = Some (Ret (h', row, ?k, None))"
      using h1(1) g(1) i by (subst cg_gather.simps) (simp add: Let_def cg_key_def)
    show "\<forall>i<nr. mset (row ! i) = group_of E (cg_rest E h) ?k i"
      using g(5) h1(3) i by (auto simp: group_of_def nth_list_update)
    show "\<forall>y\<in>#cg_rest E h'. cg_less E ?k (cg_key E y)"
    proof
      fix y assume "y \<in># cg_rest E h'"
      then have "y \<in># cg_rest E h" "cg_key E y \<noteq> ?k" using g(4) h1(3) by auto
      with min [of y] cogroup_okD(4) [OF E] show "cg_less E ?k (cg_key E y)" by blast
    qed
  qed (use g h1(3) in auto)
qed

lemma group_of_filter:
  "P k \<Longrightarrow> group_of E (filter_mset (\<lambda>y. P (cg_key E y)) T) k i = group_of E T k i"
  unfolding group_of_def filter_filter_mset by (rule arg_cong [where f = "image_mset snd"], rule filter_mset_cong) auto

lemma groups_keys: "groups E nr T gs \<Longrightarrow> set (map fst gs) = cg_key E ` set_mset T"
  by (simp add: groups_def)

lemma groups_append:
  assumes "groups E nr (filter_mset (\<lambda>y. cg_key E y \<in> fst ` set gs) T) gs" and "groups E nr (filter_mset (\<lambda>y. cg_key E y \<notin> fst ` set gs) T) gs'"
    and "\<forall>k\<in>fst ` set gs. \<forall>k'\<in>fst ` set gs'. cg_less E k k'"
  shows "groups E nr T (gs @ gs')"
proof -
  have k: "set (map fst gs') = cg_key E ` set_mset (filter_mset (\<lambda>y. cg_key E y \<notin> fst ` set gs) T)" and k0: "set (map fst gs) = cg_key E ` set_mset (filter_mset (\<lambda>y. cg_key E y \<in> fst ` set gs) T)"
    using groups_keys [OF assms(1)] groups_keys [OF assms(2)] by blast+
  have "mset (row ! i) = group_of E T k i" if "(k, row) \<in> set gs" "i < nr" for k row i
  proof -
    have "k \<in> fst ` set gs" using that(1) by force
    then show ?thesis using assms(1) that group_of_filter [of "\<lambda>k. k \<in> fst ` set gs" k E T i] by (auto simp: groups_def)
  qed
  moreover have "mset (row ! i) = group_of E T k i" if "(k, row) \<in> set gs'" "i < nr" for k row i
  proof -
    have "k \<notin> fst ` set gs" using k that(1) by force
    then show ?thesis using assms(2) that group_of_filter [of "\<lambda>k. k \<notin> fst ` set gs" k E T i] by (auto simp: groups_def)
  qed
  moreover have "set (map fst (gs @ gs')) = cg_key E ` set_mset T" unfolding map_append set_append k k0 by auto
  ultimately show ?thesis using assms unfolding groups_def by (auto simp: sorted_wrt_append)
qed

abbreviation cg_out :: "('v, 'u) cogroup_env \<Rightarrow> ('v list \<times> 'v list list list) list \<Rightarrow> 'v cell list list" where
  "cg_out E gs \<equiv> map (\<lambda>(k, row). cg_emit E k row) gs"

lemma cg_loop_spec:
  assumes E: "cogroup_ok E"
  shows "cg_heap_ok E h \<Longrightarrow> \<forall>y\<in>#cg_rest E h. fst y < nr \<Longrightarrow>
    \<exists>h' gs. cg_loop E nr n h = Some (Ret (h', cg_out E gs, None)) \<and> cg_heap_ok E h' \<and> length gs \<le> n \<and> (length gs = n \<or> h' = []) \<and>
      cg_rest E h' = filter_mset (\<lambda>y. cg_key E y \<notin> fst ` set gs) (cg_rest E h) \<and> groups E nr (filter_mset (\<lambda>y. cg_key E y \<in> fst ` set gs) (cg_rest E h)) gs \<and>
      (\<forall>k\<in>fst ` set gs. \<forall>y\<in>#cg_rest E h'. cg_less E k (cg_key E y))"
proof (induction n arbitrary: h)
  case 0
  then show ?case by (intro exI [of _ h] exI [of _ "[]"]) (simp add: groups_def)
next
  case (Suc n)
  show ?case
  proof (cases "h = []")
    case True
    with Suc.prems show ?thesis by (intro exI [of _ h] exI [of _ "[]"]) (simp add: groups_def rest_def)
  next
    case False
    let ?T = "cg_rest E h"
    obtain h1 row k where g: "cg_gather E h (replicate nr []) None [] = Some (Ret (h1, row, k, None))" "cg_heap_ok E h1" "length row = nr"
      "cg_rest E h1 = filter_mset (\<lambda>y. cg_key E y \<noteq> k) ?T" "\<forall>i<nr. mset (row ! i) = group_of E ?T k i" "k \<in> cg_key E ` set_mset ?T" "\<forall>y\<in>#cg_rest E h1. cg_less E k (cg_key E y)"
      using cg_gather_first [OF E Suc.prems(1) False Suc.prems(2)] by metis
    have "\<forall>y\<in>#cg_rest E h1. fst y < nr" using Suc.prems(2) g(4) by simp
    from Suc.IH [OF g(2) this] obtain h' gs where IH: "cg_loop E nr n h1 = Some (Ret (h', cg_out E gs, None))" "cg_heap_ok E h'" "length gs \<le> n" "length gs = n \<or> h' = []"
      "cg_rest E h' = filter_mset (\<lambda>y. cg_key E y \<notin> fst ` set gs) (cg_rest E h1)" "groups E nr (filter_mset (\<lambda>y. cg_key E y \<in> fst ` set gs) (cg_rest E h1)) gs"
      "\<forall>k\<in>fst ` set gs. \<forall>y\<in>#cg_rest E h'. cg_less E k (cg_key E y)" by blast
    have keys: "set (map fst gs) = cg_key E ` set_mset (filter_mset (\<lambda>y. cg_key E y \<in> fst ` set gs) (cg_rest E h1))" by (rule groups_keys [OF IH(6)])
    have kgs: "cg_less E k k'" if "k' \<in> fst ` set gs" for k'
    proof -
      have "k' \<in> set (map fst gs)" using that by simp
      then show ?thesis unfolding keys using g(7) by auto
    qed
    then have nk: "k \<notin> fst ` set gs" using weak_order.lt_irrefl [OF cogroup_okD(3) [OF E]] by blast
    let ?T' = "filter_mset (\<lambda>y. cg_key E y \<in> fst ` set ((k, row) # gs)) ?T"
    have "groups E nr (filter_mset (\<lambda>y. cg_key E y \<in> fst ` set [(k, row)]) ?T') [(k, row)]"
      using g(3,5,6) group_of_filter [of "\<lambda>x. x = k" k E ?T'] group_of_filter [of "\<lambda>x. x \<in> insert k (fst ` set gs)" k E ?T] by (auto simp: groups_def)
    moreover have "filter_mset (\<lambda>y. cg_key E y \<notin> fst ` set [(k, row)]) ?T' = filter_mset (\<lambda>y. cg_key E y \<in> fst ` set gs) (cg_rest E h1)"
      unfolding g(4) filter_filter_mset using nk by (intro filter_mset_cong) auto
    ultimately have "groups E nr ?T' ([(k, row)] @ gs)" using IH(6) kgs by (intro groups_append) auto
    moreover have "cg_rest E h' = filter_mset (\<lambda>y. cg_key E y \<notin> fst ` set ((k, row) # gs)) ?T"
      unfolding IH(5) g(4) filter_filter_mset by (intro filter_mset_cong) auto
    moreover have "\<forall>y\<in>#cg_rest E h'. cg_less E k (cg_key E y)" using IH(5) g(7) by simp
    ultimately show ?thesis using False g(1) IH(1-4,7) by (intro exI [of _ h'] exI [of _ "(k, row) # gs"]) simp
  qed
qed

lemma cg_Init:
  assumes "cogroup_ok E" and "\<forall>b\<in>set h. fb_ok (in_ok E) (in_str E) (\<lambda>_. EOF) (ascending (tag_less E)) b"
  shows "cg_heap_ok E (heap_Init (fb_Less (tag_less E)) fb_Swap fb_Len h)" and "cg_rest E (heap_Init (fb_Less (tag_less E)) fb_Swap fb_Len h) = cg_rest E h"
proof -
  let ?h = "heap_Init (fb_Less (tag_less E)) fb_Swap fb_Len h"
  have init: "mset ?h = mset h" "is_heap (\<lambda>a b. tag_less E (cur a) (cur b)) ?h"
    using heap_interface.Init_heap(2,3) [OF fb_heap [OF cogroup_okD(2) [OF assms(1)]], of h] by auto
  show "cg_heap_ok E ?h" using init(2) assms(2) mset_eq_setD [OF init(1)] by (simp add: heap_ok_def)
  show "cg_rest E ?h = cg_rest E h" by (rule rest_mset_eq [OF init(1)])
qed

text \<open>Reading on, from a heap that has been opened.\<close>

lemma cogroup_readall:
  fixes c :: "('s, 'v, 'u) cogroupReader"
  assumes E: "cogroup_ok E" and n: "0 < n"
  shows "cgErr c = None \<Longrightarrow> cgHeap c = Some h \<or> cgHeap c = None \<and> cg_open E rd 0 (cgReaders c) [] = Some (Ret (h, None)) \<Longrightarrow>
    \<forall>b\<in>set h. fb_ok (in_ok E) (in_str E) (\<lambda>_. EOF) (ascending (tag_less E)) b \<Longrightarrow> \<forall>y\<in>#cg_rest E h. fst y < length (cgReaders c) \<Longrightarrow>
    \<exists>c' gs. readall_loop (cogroup_Read E rd) n c acc = Some (Ret (c', acc @ cg_out E gs, None)) \<and> groups E (length (cgReaders c)) (cg_rest E h) gs"
proof (induction "size (cg_rest E h)" arbitrary: c h acc rule: less_induct)
  case less
  let ?h = "heap_Init (fb_Less (tag_less E)) fb_Swap fb_Len h" and ?nr = "length (cgReaders c)"
  note i = cg_Init [OF E less.prems(3)]
  obtain h' gs where l: "cg_loop E ?nr n ?h = Some (Ret (h', cg_out E gs, None))" "cg_heap_ok E h'" "length gs \<le> n" "length gs = n \<or> h' = []"
    "cg_rest E h' = filter_mset (\<lambda>y. cg_key E y \<notin> fst ` set gs) (cg_rest E h)" "groups E ?nr (filter_mset (\<lambda>y. cg_key E y \<in> fst ` set gs) (cg_rest E h)) gs"
    "\<forall>k\<in>fst ` set gs. \<forall>y\<in>#cg_rest E h'. cg_less E k (cg_key E y)"
    using cg_loop_spec [OF E i(1), of ?nr n] less.prems(4) i(2) by auto
  have op: "(case cgHeap c of Some h \<Rightarrow> Some (Ret (h, None)) | None \<Rightarrow> cg_open E rd 0 (cgReaders c) []) = Some (Ret (h, None))" using less.prems(2) by auto
  let ?c = "c\<lparr>cgErr := if gs = [] then Some EOF else None, cgHeap := Some h'\<rparr>"
  have rd: "cogroup_Read E rd c n = Some (Ret (?c, cg_out E gs, if gs = [] then Some EOF else None))"
    using n less.prems(1) op l(1) by (simp add: cogroup_Read_def Let_def)
  show ?case
  proof (cases "gs = []")
    case True
    then have "h' = []" using l(4) n by simp
    then have "cg_rest E h = {#}" using l(5) True by (simp add: rest_def)
    with True rd n show ?thesis by (subst readall_loop.simps) (auto simp: groups_def intro!: exI [of _ "[]"])
  next
    case False
    have "set (map fst gs) = cg_key E ` set_mset (filter_mset (\<lambda>y. cg_key E y \<in> fst ` set gs) (cg_rest E h))" by (rule groups_keys [OF l(6)])
    moreover have "set (map fst gs) \<noteq> {}" using False by simp
    ultimately have "filter_mset (\<lambda>y. cg_key E y \<in> fst ` set gs) (cg_rest E h) \<noteq> {#}" by (metis image_is_empty set_mset_eq_empty_iff)
    then have sz: "size (cg_rest E h') < size (cg_rest E h)"
      using multiset_partition [of "cg_rest E h" "\<lambda>y. cg_key E y \<in> fst ` set gs"] l(5) by (metis nonempty_has_size size_union less_add_same_cancel2)
    have "\<forall>b\<in>set h'. fb_ok (in_ok E) (in_str E) (\<lambda>_. EOF) (ascending (tag_less E)) b" using l(2) by (simp add: heap_ok_def)
    from less.hyps [OF sz, of ?c "acc @ cg_out E gs"] this l(5) less.prems(4) False obtain c' gs' where IH:
      "readall_loop (cogroup_Read E rd) n ?c (acc @ cg_out E gs) = Some (Ret (c', (acc @ cg_out E gs) @ cg_out E gs', None))" "groups E ?nr (cg_rest E h') gs'" by auto
    have "set (map fst gs') = cg_key E ` set_mset (cg_rest E h')" by (rule groups_keys [OF IH(2)])
    then have "\<forall>k\<in>fst ` set gs. \<forall>k'\<in>fst ` set gs'. cg_less E k k'" using l(7) by auto
    with groups_append [OF l(6)] IH(2) l(5) have "groups E ?nr (cg_rest E h) (gs @ gs')" by simp
    with IH(1) rd l(3) False show ?thesis by (subst readall_loop.simps) (auto intro!: exI [of _ "gs @ gs'"])
  qed
qed

section \<open>Opening\<close>

abbreviation tagged :: "('s \<Rightarrow> 'v list list) \<Rightarrow> nat \<Rightarrow> 's list \<Rightarrow> (nat \<times> 'v list) multiset" where
  "tagged str i rs \<equiv> (\<Sum>(j, r)\<leftarrow>enumerate i rs. mset (map (Pair j) (str r)))"

lemma cg_open_ok:
  assumes E: "cogroup_ok E" and sr: "slice_reader rd ok str fin mu"
  shows "\<forall>b\<in>set h. fb_ok (in_ok E) (in_str E) (\<lambda>_. EOF) (ascending (tag_less E)) b \<Longrightarrow>
    \<forall>j<length rs. ok (rs ! j) \<and> fin (rs ! j) = EOF \<and> (\<forall>x\<in>set (str (rs ! j)). length x = cg_ncol E (i + j)) \<Longrightarrow>
    \<exists>h'. cg_open E rd i rs h = Some (Ret (h', None)) \<and> (\<forall>b\<in>set h'. fb_ok (in_ok E) (in_str E) (\<lambda>_. EOF) (ascending (tag_less E)) b) \<and>
      cg_rest E h' = cg_rest E h + tagged str i rs"
proof (induction rs arbitrary: i h)
  case (Cons r rs)
  have r: "ok r" "fin r = EOF" "\<forall>x\<in>set (str r). length x = cg_ncol E i" using Cons.prems(2) [rule_format, of 0] by auto
  have e: "sorts (row_less E) (cg_sort E)" "uc_ok (cg_uc E i)" "byte_per_row (cg_fsize E) (cg_crc E) (cg_uc E i)" "0 < cg_batch E" "0 < cg_canary E" "\<And>fs. mset (cg_list E fs) = mset fs"
    using E by (auto simp: cogroup_ok_def)
  from SortReader_ok [OF cogroup_okD(1) [OF E] e(1) sr r e(2-6), where zero = "cg_zero E i" and spillTarget = spillSize] obtain m where
    m: "SortReader (row_less E) (cg_sort E) (cg_fsize E) (cg_crc E) (cg_uc E i) (cg_zero E i) (cg_ncol E i) (cg_list E) (cg_batch E) (cg_canary E) spillSize rd r = Some (Ret (Inr m))"
      "in_ok E (i, m)" "mset (in_str E (i, m)) = mset (map (Pair i) (str r))" "ascending (tag_less E) (in_str E (i, m))"
    by (auto simp: in_ok_def in_str_def cg_key_def sorted_wrt_map)
  let ?b = "\<lparr>fframe = [], freader = (i, m), fIndex = 0, fLen = 0\<rparr>"
  from Fill_spec [OF input_reader [OF E], of bufferSize ?b "ascending (tag_less E)"] m(2,4) obtain b err where f: "Fill (input_Read E) bufferSize ?b = Some (Ret (b, err))"
    "err = None \<and> in_str E (i, m) \<noteq> [] \<and> fb_rows (in_str E) b = in_str E (i, m) \<and> fb_ok (in_ok E) (in_str E) (\<lambda>_. EOF) (ascending (tag_less E)) b \<or>
       err = Some EOF \<and> in_str E (i, m) = []" by (auto simp: bufferSize_def)
  have prem: "\<forall>j<length rs. ok (rs ! j) \<and> fin (rs ! j) = EOF \<and> (\<forall>x\<in>set (str (rs ! j)). length x = cg_ncol E (Suc i + j))"
    using Cons.prems(2) by (auto dest: spec [of _ "Suc j" for j])
  from f(2) show ?case
  proof
    assume c: "err = None \<and> in_str E (i, m) \<noteq> [] \<and> fb_rows (in_str E) b = in_str E (i, m) \<and> fb_ok (in_ok E) (in_str E) (\<lambda>_. EOF) (ascending (tag_less E)) b"
    then have "cg_rest E (h @ [b]) = cg_rest E h + mset (map (Pair i) (str r))" using m(3) by (simp add: rest_def)
    with Cons.IH [of "h @ [b]" "Suc i"] Cons.prems(1) prem c m(1) f(1) show ?thesis by (auto simp: add.assoc)
  next
    assume c: "err = Some EOF \<and> in_str E (i, m) = []"
    then have "str r = []" using m(3) by simp
    with Cons.IH [OF Cons.prems(1) prem] c m(1) f(1) show ?thesis by auto
  qed
qed simp

lemma cg_emit_cells:
  assumes "length k = cg_prefix E"
  shows "cg_emit E k row = map KeyCell k @
    concat (map (\<lambda>i. map (\<lambda>j. Vals (map (\<lambda>x. x ! j) (row ! i))) [cg_prefix E ..< cg_ncol E i]) [0 ..< length row])"
proof -
  have "enumerate 0 row = map (\<lambda>i. (i, row ! i)) [0 ..< length row]" by (rule nth_equalityI) (simp_all add: nth_enumerate_eq)
  moreover have "replicate (m - l) (Vals []) = map (\<lambda>j. Vals []) [l ..< m]" for m l :: nat by (simp add: map_replicate_const)
  ultimately show ?thesis using assms unfolding cg_emit_def by (auto simp: comp_def intro!: arg_cong [where f = concat] map_cong)
qed

text \<open>
  C25.  The reader of a cogroup delivers, read with frames of any size, one row for every key that any input has, in
  ascending order of the keys.  The cells of the row are the columns of the key and then, for every input and every value
  column of it, the list of that column's values in the input's rows with that key: all of those rows and no other, in
  one order for all columns of the input; the list is empty when the input does not have the key.  Every input has at
  least the columns of the key.
\<close>

theorem Cogroup_groups:
  assumes "cogroup_ok E" and "slice_reader rd ok str fin mu" and "0 < n"
    and "\<forall>j<length deps. ok (deps ! j) \<and> fin (deps ! j) = EOF \<and> cg_prefix E \<le> cg_ncol E j \<and> (\<forall>x\<in>set (str (deps ! j)). length x = cg_ncol E j)"
  shows "\<exists>c gs. ReadAll (cogroup_Read E rd) n (cogroup_Reader deps) [] = Some (Ret (c, map (\<lambda>(k, row). map KeyCell k @
        concat (map (\<lambda>i. map (\<lambda>j. Vals (map (\<lambda>x. x ! j) (row ! i))) [cg_prefix E ..< cg_ncol E i]) [0 ..< length deps])) gs, None)) \<and>
    sorted_wrt (cg_less E) (map fst gs) \<and>
    set (map fst gs) = (\<Union>r\<in>set deps. take (cg_prefix E) ` set (str r)) \<and>
    (\<forall>(k, row)\<in>set gs. length row = length deps \<and>
       (\<forall>i<length deps. mset (row ! i) = mset (filter (\<lambda>x. take (cg_prefix E) x = k) (str (deps ! i)))))"
proof -
  let ?T = "tagged str 0 deps"
  from cg_open_ok [OF assms(1,2), of "[]" deps 0] assms(4) obtain h where h: "cg_open E rd 0 deps [] = Some (Ret (h, None))"
    "\<forall>b\<in>set h. fb_ok (in_ok E) (in_str E) (\<lambda>_. EOF) (ascending (tag_less E)) b" "cg_rest E h = ?T" by (auto simp: rest_def)
  have T: "set_mset (tagged str i rs) = {(i + j, x) |j x. j < length rs \<and> x \<in> set (str (rs ! j))}" for i rs
  proof
    show "set_mset (tagged str i rs) \<subseteq> {(i + j, x) |j x. j < length rs \<and> x \<in> set (str (rs ! j))}"
      by (auto simp: in_set_enumerate_eq) (metis add.commute le_add_diff_inverse less_diff_conv2)
    show "{(i + j, x) |j x. j < length rs \<and> x \<in> set (str (rs ! j))} \<subseteq> set_mset (tagged str i rs)"
      by (auto simp: in_set_enumerate_eq image_iff intro!: bexI [of _ "(i + j, rs ! j)" for j])
  qed
  have G: "group_of E (tagged str i rs) k (i + j) = mset (filter (\<lambda>x. take (cg_prefix E) x = k) (str (rs ! j)))" if "j < length rs" for i j k rs
    using that
  proof (induction rs arbitrary: i j)
    case (Cons r rs)
    have a: "group_of E (M + N) k l = group_of E M k l + group_of E N k l" for M N l by (simp add: group_of_def)
    have b: "group_of E (mset (map (Pair i) xs)) k l = (if l = i then mset (filter (\<lambda>x. take (cg_prefix E) x = k) xs) else {#})" for xs l
      by (induction xs) (auto simp: group_of_def cg_key_def)
    have c: "group_of E (tagged str (Suc i) rs) k i = {#}"
      using T [of "Suc i" rs] by (auto simp: group_of_def intro!: filter_mset_none)
    show ?case using Cons.IH [of "j - 1" "Suc i"] Cons.prems by (cases j) (simp_all add: a b c del: mset_map)
  qed simp
  have "\<forall>y\<in>#cg_rest E h. fst y < length deps" unfolding h(3) T by auto
  with cogroup_readall [OF assms(1,3) _ _ h(2), of "cogroup_Reader deps" rd "[]"] h(1,3) obtain c gs where
    r: "readall_loop (cogroup_Read E rd) n (cogroup_Reader deps) [] = Some (Ret (c, cg_out E gs, None))" "groups E (length deps) ?T gs"
    by (auto simp: cogroup_Reader_def)
  have "cg_key E ` set_mset ?T = (\<Union>r\<in>set deps. take (cg_prefix E) ` set (str r))"
    unfolding T by (force simp: cg_key_def in_set_conv_nth)
  then have g: "sorted_wrt (cg_less E) (map fst gs)" "set (map fst gs) = (\<Union>r\<in>set deps. take (cg_prefix E) ` set (str r))"
    "\<forall>(k, row)\<in>set gs. length row = length deps \<and> (\<forall>i<length deps. mset (row ! i) = mset (filter (\<lambda>x. take (cg_prefix E) x = k) (str (deps ! i))))"
    using r(2) G [of _ deps 0] by (auto simp: groups_def)
  have "length k = cg_prefix E" if "k \<in> set (map fst gs)" for k
  proof -
    from that obtain i x where x: "i < length deps" "x \<in> set (str (deps ! i))" "k = take (cg_prefix E) x" unfolding g(2) by (auto simp: in_set_conv_nth [of _ deps])
    with assms(4) have "length x = cg_ncol E i" "cg_prefix E \<le> cg_ncol E i" by blast+
    then show ?thesis using x(3) by simp
  qed
  note klen = this
  have "cg_out E gs = map (\<lambda>(k, row). map KeyCell k @
      concat (map (\<lambda>i. map (\<lambda>j. Vals (map (\<lambda>x. x ! j) (row ! i))) [cg_prefix E ..< cg_ncol E i]) [0 ..< length deps])) gs"
  proof (rule map_cong [OF refl])
    fix x assume x: "x \<in> set gs"
    obtain k row where kr: "x = (k, row)" by (cases x)
    have "length row = length deps" using g(3) x kr by auto
    moreover have "length k = cg_prefix E" using klen [of k] x kr by force
    ultimately show "(case x of (k, row) \<Rightarrow> cg_emit E k row) = (case x of (k, row) \<Rightarrow> map KeyCell k @
        concat (map (\<lambda>i. map (\<lambda>j. Vals (map (\<lambda>x. x ! j) (row ! i))) [cg_prefix E ..< cg_ncol E i]) [0 ..< length deps]))"
      unfolding kr prod.case by (simp only: cg_emit_cells)
  qed
  with r(1) g show ?thesis unfolding ReadAll_def by (intro exI [of _ c] exI [of _ gs]) simp
qed

text \<open>Two inputs with an integer key and one column of values.\<close>

definition int_cogroup :: "(int, unit) cogroup_env" where
  "int_cogroup = \<lparr>cg_prefix = 1, cg_less = (<), cg_sort = sort_key (take 1), cg_fsize = (\<lambda>ms. sum_list (map (case_msg nat (\<lambda>_. 0) (\<lambda>_. 0) (\<lambda>_. 0) (\<lambda>_. 0)) ms)),
     cg_crc = (\<lambda>_. 0), cg_uc = (\<lambda>_ _. None), cg_zero = (\<lambda>_ _. 0), cg_ncol = (\<lambda>_. 2), cg_list = rev, cg_batch = 2, cg_canary = 2\<rparr>"

lemma int_cogroup_ok: "cogroup_ok int_cogroup"
proof -
  have "sorts (\<lambda>x y. take 1 x < (take 1 y :: int list)) (sort_key (take 1))"
    unfolding sorts_def
  proof (intro allI conjI)
    fix xs :: "int list list"
    have "sorted (map (take 1) (sort_key (take 1) xs))" by simp
    then show "ascending (\<lambda>x y. take 1 x < take 1 y) (sort_key (take 1) xs)" by (simp add: sorted_wrt_map not_less)
  qed simp
  then show ?thesis by (auto simp: cogroup_ok_def int_cogroup_def weak_order_less uc_ok_def byte_per_row_def count_rows_size)
qed

theorem Cogroup_groups_witness:
  "\<exists>c vs ws. ReadAll (cogroup_Read int_cogroup frame_Read) 1 (cogroup_Reader [[[2, 20], [1, 10], [2, 21]], [[2, 5]]]) [] =
      Some (Ret (c, [[KeyCell 1, Vals vs, Vals []], [KeyCell 2, Vals ws, Vals [5]]], None)) \<and> vs = [10] \<and> mset ws = {#20, 21#}"
proof -
  let ?deps = "[[[2, 20], [1, 10], [2, 21]], [[2, 5 :: int]]]"
  have "\<forall>j<length ?deps. True \<and> EOF = EOF \<and> cg_prefix int_cogroup \<le> cg_ncol int_cogroup j \<and> (\<forall>x\<in>set (?deps ! j). length x = cg_ncol int_cogroup j)"
    by (auto simp: int_cogroup_def less_Suc_eq)
  from Cogroup_groups [OF int_cogroup_ok frd.slice_reader_axioms zero_less_one this] obtain c gs where
    g: "ReadAll (cogroup_Read int_cogroup frame_Read) 1 (cogroup_Reader ?deps) [] = Some (Ret (c, map (\<lambda>(k, row). map KeyCell k @
        concat (map (\<lambda>i. map (\<lambda>j. Vals (map (\<lambda>x. x ! j) (row ! i))) [cg_prefix int_cogroup ..< cg_ncol int_cogroup i]) [0 ..< length ?deps])) gs, None))"
    and p: "sorted_wrt (cg_less int_cogroup) (map fst gs)" "set (map fst gs) = (\<Union>r\<in>set ?deps. take (cg_prefix int_cogroup) ` set r)"
      "\<forall>(k, row)\<in>set gs. length row = length ?deps \<and> (\<forall>i<length ?deps. mset (row ! i) = mset (filter (\<lambda>x. take (cg_prefix int_cogroup) x = k) (?deps ! i)))"
    by (elim exE conjE) (rule that)
  have sel: "cg_less int_cogroup = (<)" "cg_prefix int_cogroup = 1" "cg_ncol int_cogroup i = 2" for i by (simp_all add: int_cogroup_def)
  have keys: "set (map fst gs) = {[1], [2]}" unfolding p(2) by (auto simp: sel)
  have "sorted (map fst gs)" "distinct (map fst gs)" using p(1) unfolding sel strict_sorted_iff by blast+
  then have "map fst gs = sorted_list_of_set {[1], [2]}" using keys by (metis sorted_list_of_set.idem_if_sorted_distinct)
  also have "\<dots> = [[1], [2]]" by (simp add: insort_key_def sorted_list_of_set_insert)
  finally obtain r1 r2 where gs: "gs = [([1], r1), ([2], r2)]" by auto
  have r: "r1 ! 0 = [[1, 10]]" "r1 ! Suc 0 = []" "mset (r2 ! 0) = {#[2, 20], [2, 21]#}" "r2 ! Suc 0 = [[2, 5]]"
    using p(3) unfolding gs by (auto simp: sel less_Suc_eq)
  have "mset (map (\<lambda>x. x ! 1) (r2 ! 0)) = {#20, 21#}" using r(3) by simp
  moreover have "[1 ..< 2] = [Suc 0]" "[0 ..< 2] = [0, Suc 0]" by (simp_all add: upt_rec)
  ultimately show ?thesis using g r by (intro exI [of _ c] exI [of _ "[10]"] exI [of _ "map (\<lambda>x. x ! 1) (r2 ! 0)"]) (simp add: gs sel)
qed

end
