(* ===== verification/Task.thy ===== *)
theory Task
  imports Prelude "HOL-Library.List_Lexorder" "HOL-Library.Char_ord"
begin

text \<open>
  \<open>exec/task.go\<close>: tasks, their states and names, the graphs they form, and the notification of
  state changes.

  Tasks are pointers in the source; here they are addresses, and a heap \<open>h\<close> maps an address to the
  fields of its task that do not change while it is evaluated.  The fields that do change (state,
  error, wait channel, subscribers) are in the record \<open>taskRT\<close>, kept in the record \<open>tstore\<close> with the
  subscribers and the channels that have been closed.  The printers \<open>String\<close> and \<open>WriteGraph\<close> of
  tasks, and status reports, are not modelled.
\<close>

section \<open>States, dependencies, names\<close>

datatype TaskState = TaskInit | TaskWaiting | TaskRunning | TaskOk | TaskErr | TaskLost

fun state_num :: "TaskState \<Rightarrow> nat" where
  "state_num TaskInit = 0"
| "state_num TaskWaiting = 1"
| "state_num TaskRunning = 2"
| "state_num TaskOk = 3"
| "state_num TaskErr = 4"
| "state_num TaskLost = 5"

instantiation TaskState :: linorder
begin

definition less_eq_TaskState :: "TaskState \<Rightarrow> TaskState \<Rightarrow> bool" where
  "a \<le> b \<longleftrightarrow> state_num a \<le> state_num b"

definition less_TaskState :: "TaskState \<Rightarrow> TaskState \<Rightarrow> bool" where
  "a < b \<longleftrightarrow> state_num a < state_num b"

instance
proof
  fix a b :: TaskState
  show "a \<le> b \<Longrightarrow> b \<le> a \<Longrightarrow> a = b" by (cases a; cases b) (simp_all add: less_eq_TaskState_def)
qed (auto simp: less_eq_TaskState_def less_TaskState_def)

end

fun TaskState_String :: "TaskState \<Rightarrow> string" where
  "TaskState_String TaskInit = ''INIT''"
| "TaskState_String TaskWaiting = ''WAITING''"
| "TaskState_String TaskRunning = ''RUNNING''"
| "TaskState_String TaskOk = ''OK''"
| "TaskState_String TaskErr = ''ERROR''"
| "TaskState_String TaskLost = ''LOST''"

record TaskDep =
  dHead :: "nat option"
  dPartition :: nat
  dExpand :: bool
  dCombineKey :: string

record TaskName =
  nInvIndex :: nat
  nOp :: string
  nShard :: nat
  nNumShard :: nat

record Task =
  tName :: TaskName
  tDeps :: "TaskDep list"
  tGroup :: "nat list"

definition TaskName_IsCombiner :: "TaskName \<Rightarrow> bool" where
  "TaskName_IsCombiner n \<longleftrightarrow> nNumShard n = 0"

definition TaskName_String :: "TaskName \<Rightarrow> string" where
  "TaskName_String n =
     (if nNumShard n = 0 then nOp n @ ''_combiner''
      else nOp n @ ''@'' @ decimal (nNumShard n) @ '':'' @ decimal (nShard n))"

definition NumTask :: "(nat \<Rightarrow> 'a Task_scheme) \<Rightarrow> TaskDep \<Rightarrow> nat" where
  "NumTask h d = (case dHead d of
       None \<Rightarrow> 0
     | Some t \<Rightarrow> let n = length (tGroup (h t)) in if 0 < n then n else 1)"

definition dep_Task :: "(nat \<Rightarrow> 'a Task_scheme) \<Rightarrow> TaskDep \<Rightarrow> nat \<Rightarrow> nat option go" where
  "dep_Task h d i =
     (if i = 0 then Ret (dHead d)
      else case dHead d of
          None \<Rightarrow> Panic ''nil pointer dereference''
        | Some t \<Rightarrow> if i < length (tGroup (h t)) then Ret (Some (tGroup (h t) ! i)) else Panic ''index out of range'')"

definition Phase :: "(nat \<Rightarrow> 'a Task_scheme) \<Rightarrow> nat \<Rightarrow> nat list" where
  "Phase h t = (if tGroup (h t) = [] then [t] else tGroup (h t))"

definition Head :: "(nat \<Rightarrow> 'a Task_scheme) \<Rightarrow> nat \<Rightarrow> nat" where
  "Head h t = (if tGroup (h t) = [] then t else tGroup (h t) ! 0)"

section \<open>Traversal of the graph\<close>

text \<open>The tasks visited by the two inner loops of \<open>all\<close>, in order.\<close>

definition dep_tasks :: "(nat \<Rightarrow> 'a Task_scheme) \<Rightarrow> TaskDep \<Rightarrow> nat list" where
  "dep_tasks h d = (case dHead d of None \<Rightarrow> [] | Some t \<Rightarrow> t # tl (tGroup (h t)))"

definition succs :: "(nat \<Rightarrow> 'a Task_scheme) \<Rightarrow> nat \<Rightarrow> nat list" where
  "succs h t = concat (map (dep_tasks h) (tDeps (h t)))"

text \<open>
  The recursion of \<open>all\<close>, with the calls that are still to be made as an explicit stack.  It ends on
  every finite graph, also on one with cycles.
\<close>

partial_function (option) all_loop :: "(nat \<Rightarrow> 'a Task_scheme) \<Rightarrow> nat list \<Rightarrow> nat list \<Rightarrow> nat list option" where
  "all_loop h stack tasks = (case stack of
       [] \<Rightarrow> Some tasks
     | t # ts \<Rightarrow> if t \<in> set tasks then all_loop h ts tasks else all_loop h (succs h t @ ts) (tasks @ [t]))"

text \<open>\<open>order\<close> is the order in which the map is ranged over.\<close>

definition All :: "(nat list \<Rightarrow> nat list) \<Rightarrow> (nat \<Rightarrow> 'a Task_scheme) \<Rightarrow> nat \<Rightarrow> nat list option" where
  "All order h t = map_option (\<lambda>ts. sort_key (\<lambda>u. TaskName_String (tName (h u))) (order ts)) (all_loop h [t] [])"

lemma dep_tasks_Task:
  "map Ret (map Some (dep_tasks h d)) = map (dep_Task h d) [0 ..< NumTask h d]"
proof (cases "dHead d")
  case (Some t)
  have "[0 ..< NumTask h d] = 0 # [1 ..< NumTask h d]"
    using Some by (subst upt_conv_Cons) (auto simp: NumTask_def Let_def)
  moreover have "map (dep_Task h d) [1 ..< NumTask h d] = map Ret (map Some (tl (tGroup (h t))))"
    using Some by (intro nth_equalityI; cases "tGroup (h t) = []") (auto simp: NumTask_def dep_Task_def Let_def nth_tl)
  ultimately show ?thesis using Some by (simp add: dep_tasks_def dep_Task_def)
qed (simp add: dep_tasks_def NumTask_def)

definition edges :: "(nat \<Rightarrow> 'a Task_scheme) \<Rightarrow> (nat \<times> nat) set" where
  "edges h = {(t, u). u \<in> set (succs h t)}"

lemma all_loop_spec:
  assumes fin: "finite R" and closed: "\<forall>t\<in>R. set (succs h t) \<subseteq> R"
    and "set stack \<subseteq> R" "set tasks \<subseteq> R" "distinct tasks"
    and "\<forall>t\<in>set tasks. set (succs h t) \<subseteq> set tasks \<union> set stack"
  shows "\<exists>ts. all_loop h stack tasks = Some ts \<and> distinct ts \<and> set tasks \<union> set stack \<subseteq> set ts \<and> set ts \<subseteq> R \<and>
    (\<forall>t\<in>set ts. set (succs h t) \<subseteq> set ts)"
  using assms(3-6)
proof (induction "(card (R - set tasks), length stack)" arbitrary: stack tasks rule: wf_induct_rule [OF wf_lex_prod [OF wf_less_than wf_less_than]])
  case (1 stack tasks)
  note IH = 1(1) and prems = 1(2-5)
  show ?case
  proof (cases stack)
    case Nil
    then show ?thesis using prems by (subst all_loop.simps) auto
  next
    case (Cons t ts)
    show ?thesis
    proof (cases "t \<in> set tasks")
      case True
      have e: "all_loop h stack tasks = all_loop h ts tasks" using Cons True by (subst all_loop.simps) simp
      have "((card (R - set tasks), length ts), card (R - set tasks), length stack) \<in> less_than <*lex*> less_than"
        using Cons by simp
      moreover have "\<forall>u\<in>set tasks. set (succs h u) \<subseteq> set tasks \<union> set ts" using prems(4) Cons True by auto
      ultimately show ?thesis using IH [of tasks ts] prems(1-3) Cons True unfolding e by auto
    next
      case False
      have t: "t \<in> R" using prems(1) Cons by simp
      have e: "all_loop h stack tasks = all_loop h (succs h t @ ts) (tasks @ [t])" using Cons False by (subst all_loop.simps) simp
      have "R - set (tasks @ [t]) \<subset> R - set tasks" using t False by auto
      then have "card (R - set (tasks @ [t])) < card (R - set tasks)" using fin by (intro psubset_card_mono) auto
      then have "((card (R - set (tasks @ [t])), length (succs h t @ ts)), card (R - set tasks), length stack) \<in> less_than <*lex*> less_than"
        by simp
      moreover have "\<forall>u\<in>set (tasks @ [t]). set (succs h u) \<subseteq> set (tasks @ [t]) \<union> set (succs h t @ ts)"
        using prems(4) Cons by auto
      ultimately obtain us where "all_loop h (succs h t @ ts) (tasks @ [t]) = Some us" "distinct us"
        "set (tasks @ [t]) \<union> set (succs h t @ ts) \<subseteq> set us" "set us \<subseteq> R" "\<forall>t\<in>set us. set (succs h t) \<subseteq> set us"
        using IH [of "tasks @ [t]" "succs h t @ ts"] prems(1-3) Cons False closed t by auto
      then show ?thesis using e Cons by auto
    qed
  qed
qed

text \<open>
  \<open>All\<close> returns on every graph with finitely many reachable tasks, cyclic or not; it returns
  exactly the tasks reachable from its receiver through dependencies, each of them once, ordered by
  their names.
\<close>

theorem All_reachable:
  assumes "finite {u. (t, u) \<in> (edges h)\<^sup>*}" and "\<And>ts. mset (order ts) = mset ts"
  shows "\<exists>ts. All order h t = Some ts \<and> distinct ts \<and> set ts = {u. (t, u) \<in> (edges h)\<^sup>*} \<and>
    sorted (map (\<lambda>u. TaskName_String (tName (h u))) ts)"
proof -
  let ?R = "{u. (t, u) \<in> (edges h)\<^sup>*}"
  have "\<forall>t\<in>?R. set (succs h t) \<subseteq> ?R" by (auto simp: edges_def intro: rtrancl_into_rtrancl)
  then obtain ts where ts: "all_loop h [t] [] = Some ts" "distinct ts" "{t} \<subseteq> set ts" "set ts \<subseteq> ?R"
    "\<forall>t\<in>set ts. set (succs h t) \<subseteq> set ts"
    using all_loop_spec [OF assms(1), of h "[t]" "[]"] by auto
  have "u \<in> set ts" if "(t, u) \<in> (edges h)\<^sup>*" for u
    using that ts(3,5) by (induction rule: rtrancl_induct) (auto simp: edges_def)
  then have set: "set ts = ?R" using ts(4) by auto
  let ?us = "sort_key (\<lambda>u. TaskName_String (tName (h u))) (order ts)"
  have "mset ?us = mset ts" using assms(2) by simp
  then have "set ?us = set ts" "distinct ?us" using ts(2) by (metis mset_eq_setD, metis mset_eq_imp_distinct_iff)
  then show ?thesis using ts(1) set by (auto simp: All_def)
qed

theorem All_reachable_witness:
  "\<exists>ts. All rev (\<lambda>t. \<lparr>tName = \<lparr>nInvIndex = 1, nOp = ''op'', nShard = t, nNumShard = 2\<rparr>,
        tDeps = [\<lparr>dHead = Some (1 - t), dPartition = 0, dExpand = False, dCombineKey = []\<rparr>], tGroup = []\<rparr>) 1 = Some ts \<and>
     distinct ts \<and> set ts = {0, 1}"
proof -
  define h :: "nat \<Rightarrow> Task" where "h = (\<lambda>t. \<lparr>tName = \<lparr>nInvIndex = 1, nOp = ''op'', nShard = t, nNumShard = 2\<rparr>,
    tDeps = [\<lparr>dHead = Some (1 - t), dPartition = 0, dExpand = False, dCombineKey = []\<rparr>], tGroup = []\<rparr>)"
  have s: "succs h t = [1 - t]" for t by (simp add: succs_def dep_tasks_def h_def)
  have "u \<in> {0, 1}" if "(1, u) \<in> (edges h)\<^sup>*" for u
    using that by (induction rule: rtrancl_induct) (auto simp: edges_def s)
  moreover have "(1, 0) \<in> (edges h)\<^sup>*" by (rule r_into_rtrancl) (simp add: edges_def s)
  ultimately have r: "{u. (1, u) \<in> (edges h)\<^sup>*} = {0, 1}" by auto
  from All_reachable [of 1 h rev] show ?thesis unfolding r h_def [symmetric] by auto
qed

section \<open>Notification of state changes\<close>

record taskRT =
  rtState :: TaskState
  rtErr :: gerr
  rtLost :: nat
  rtWaitc :: "nat option"
  rtSubs :: "nat list"

record tstore =
  rts :: "nat \<Rightarrow> taskRT"
  subTasks :: "nat \<Rightarrow> nat set"
  closed :: "nat set"
  nextc :: nat

definition Notify :: "nat \<Rightarrow> nat \<Rightarrow> tstore \<Rightarrow> tstore" where
  "Notify t sub s = s\<lparr>subTasks := (subTasks s)(sub := insert t (subTasks s sub))\<rparr>"

text \<open>Whether the channel returned by \<open>Ready\<close> is closed already.\<close>

definition Ready :: "nat \<Rightarrow> tstore \<Rightarrow> bool" where
  "Ready sub s \<longleftrightarrow> subTasks s sub \<noteq> {}"

definition Tasks :: "(nat set \<Rightarrow> nat list) \<Rightarrow> nat \<Rightarrow> tstore \<Rightarrow> tstore \<times> nat list" where
  "Tasks order sub s = (s\<lparr>subTasks := (subTasks s)(sub := {})\<rparr>, order (subTasks s sub))"

definition Broadcast :: "nat \<Rightarrow> tstore \<Rightarrow> tstore" where
  "Broadcast t s =
     (let s1 = (case rtWaitc (rts s t) of
          None \<Rightarrow> s
        | Some c \<Rightarrow> s\<lparr>closed := insert c (closed s), rts := (rts s)(t := (rts s t)\<lparr>rtWaitc := None\<rparr>)\<rparr>)
      in fold (Notify t) (rtSubs (rts s t)) s1)"

definition task_Set :: "nat \<Rightarrow> TaskState \<Rightarrow> tstore \<Rightarrow> tstore" where
  "task_Set t st s = Broadcast t (s\<lparr>rts := (rts s)(t := (rts s t)\<lparr>rtState := st\<rparr>)\<rparr>)"

text \<open>The field \<open>state\<close> is assigned and nobody is told.\<close>

definition assign_state :: "nat \<Rightarrow> TaskState \<Rightarrow> tstore \<Rightarrow> tstore" where
  "assign_state t st s = s\<lparr>rts := (rts s)(t := (rts s t)\<lparr>rtState := st\<rparr>)\<rparr>"

definition task_Error :: "nat \<Rightarrow> goerror \<Rightarrow> tstore \<Rightarrow> tstore" where
  "task_Error t e s = Broadcast t (s\<lparr>rts := (rts s)(t := (rts s t)\<lparr>rtState := TaskErr, rtErr := Some e\<rparr>)\<rparr>)"

definition ErrTaskLost :: goerror where
  "ErrTaskLost = ErrNew ''task was lost''"

definition task_Err :: "nat \<Rightarrow> tstore \<Rightarrow> gerr go" where
  "task_Err t s = (case rtState (rts s t) of
       TaskErr \<Rightarrow> if rtErr (rts s t) = None then Panic ''TaskErr without an err'' else Ret (rtErr (rts s t))
     | TaskLost \<Rightarrow> Ret (Some ErrTaskLost)
     | _ \<Rightarrow> Ret None)"

definition task_State :: "nat \<Rightarrow> tstore \<Rightarrow> TaskState" where
  "task_State t s = rtState (rts s t)"

definition Subscribe :: "nat \<Rightarrow> nat \<Rightarrow> tstore \<Rightarrow> tstore" where
  "Subscribe t sub s =
     (if sub \<in> set (rtSubs (rts s t)) then s
      else s\<lparr>rts := (rts s)(t := (rts s t)\<lparr>rtSubs := rtSubs (rts s t) @ [sub]\<rparr>)\<rparr>)"

definition Unsubscribe :: "nat \<Rightarrow> nat \<Rightarrow> tstore \<Rightarrow> tstore" where
  "Unsubscribe t sub s = s\<lparr>rts := (rts s)(t := (rts s t)\<lparr>rtSubs := filter (\<lambda>x. x \<noteq> sub) (rtSubs (rts s t))\<rparr>)\<rparr>"

text \<open>
  \<open>Wait\<close> up to the select: the task's channel, made if there is none.  The rest of \<open>Wait\<close> blocks until
  the channel is closed (or the context is done) and takes the lock again.
\<close>

definition Wait_enter :: "nat \<Rightarrow> tstore \<Rightarrow> tstore \<times> nat" where
  "Wait_enter t s = (case rtWaitc (rts s t) of
       Some c \<Rightarrow> (s, c)
     | None \<Rightarrow> (s\<lparr>rts := (rts s)(t := (rts s t)\<lparr>rtWaitc := Some (nextc s)\<rparr>), nextc := Suc (nextc s)\<rparr>, nextc s))"

text \<open>
  The callers of \<open>WaitState\<close>, interleaved with each other and with changes of state: a caller checks
  the state with the lock held and returns or blocks on the channel; it checks again when the channel
  is closed.  A \<open>waiter\<close> is the task and state waited for, and where the caller is.  The evaluator and
  the executors also assign \<open>TaskInit\<close>, \<open>TaskWaiting\<close> and \<open>TaskRunning\<close> to the field \<open>state\<close> without a
  \<open>Broadcast\<close> (\<open>eval.go\<close>, \<open>bigmachine.go\<close>): the step \<open>assign\<close>.
\<close>

datatype wait_pc = Checking | Blocked nat | Returned TaskState

type_synonym waiter = "nat \<times> TaskState \<times> wait_pc"

inductive wait_step :: "tstore \<times> waiter list \<Rightarrow> tstore \<times> waiter list \<Rightarrow> bool" where
  set_state: "wait_step (s, ws) (task_Set t st s, ws)"
| set_error: "wait_step (s, ws) (task_Error t e s, ws)"
| assign: "st \<in> {TaskInit, TaskWaiting, TaskRunning} \<Longrightarrow> wait_step (s, ws) (assign_state t st s, ws)"
| subscribe: "wait_step (s, ws) (Subscribe t sub s, ws)"
| unsubscribe: "wait_step (s, ws) (Unsubscribe t sub s, ws)"
| call: "wait_step (s, ws) (s, ws @ [(t, st, Checking)])"
| wreturn: "i < length ws \<Longrightarrow> ws ! i = (t, st, Checking) \<Longrightarrow> st \<le> task_State t s \<Longrightarrow>
    wait_step (s, ws) (s, ws[i := (t, st, Returned (task_State t s))])"
| wblock: "i < length ws \<Longrightarrow> ws ! i = (t, st, Checking) \<Longrightarrow> task_State t s < st \<Longrightarrow> Wait_enter t s = (s', c) \<Longrightarrow>
    wait_step (s, ws) (s', ws[i := (t, st, Blocked c)])"
| wwake: "i < length ws \<Longrightarrow> ws ! i = (t, st, Blocked c) \<Longrightarrow> c \<in> closed s \<Longrightarrow>
    wait_step (s, ws) (s, ws[i := (t, st, Checking)])"

definition chans_ok :: "tstore \<Rightarrow> bool" where
  "chans_ok s \<longleftrightarrow> (\<forall>t c. rtWaitc (rts s t) = Some c \<longrightarrow> c < nextc s \<and> c \<notin> closed s) \<and> (\<forall>c\<in>closed s. c < nextc s) \<and>
     (\<forall>t u c. rtWaitc (rts s t) = Some c \<longrightarrow> rtWaitc (rts s u) = Some c \<longrightarrow> t = u)"

definition waiter_ok :: "tstore \<Rightarrow> waiter \<Rightarrow> bool" where
  "waiter_ok s = (\<lambda>(t, st, pc). \<forall>c. pc = Blocked c \<longrightarrow> c \<in> closed s \<or> rtWaitc (rts s t) = Some c \<and> (TaskOk \<le> st \<longrightarrow> task_State t s < st))"

definition wait_inv :: "tstore \<times> waiter list \<Rightarrow> bool" where
  "wait_inv = (\<lambda>(s, ws). chans_ok s \<and> (\<forall>w\<in>set ws. waiter_ok s w))"

lemma fold_Notify [simp]:
  "rts (fold (Notify t) subs s) = rts s" "closed (fold (Notify t) subs s) = closed s" "nextc (fold (Notify t) subs s) = nextc s"
  "subTasks (fold (Notify t) subs s) sub = (if sub \<in> set subs then insert t (subTasks s sub) else subTasks s sub)"
  by (induction subs arbitrary: s) (auto simp: Notify_def)

lemma Broadcast_simps [simp]:
  "rts (Broadcast t s) = (rts s)(t := (rts s t)\<lparr>rtWaitc := None\<rparr>)"
  "closed (Broadcast t s) = closed s \<union> set_option (rtWaitc (rts s t))"
  "nextc (Broadcast t s) = nextc s"
  "subTasks (Broadcast t s) sub = (if sub \<in> set (rtSubs (rts s t)) then insert t (subTasks s sub) else subTasks s sub)"
  by (auto simp: Broadcast_def Let_def split: option.splits)

lemma wait_inv_change:
  assumes "wait_inv (s, ws)" and "rtWaitc r = rtWaitc (rts s t)"
  shows "wait_inv (Broadcast t (s\<lparr>rts := (rts s)(t := r)\<rparr>), ws)"
proof -
  let ?s = "Broadcast t (s\<lparr>rts := (rts s)(t := r)\<rparr>)"
  have c: "chans_ok s" and w: "\<forall>w\<in>set ws. waiter_ok s w" using assms(1) by (auto simp: wait_inv_def)
  have "chans_ok ?s" using c assms(2) unfolding chans_ok_def by (auto split: if_splits)
  moreover have "waiter_ok ?s w" if "waiter_ok s w" for w
    using that assms(2) by (cases w) (auto simp: waiter_ok_def task_State_def)
  ultimately show ?thesis using w by (simp add: wait_inv_def)
qed

lemma Wait_enter_ok:
  assumes "chans_ok s" and "Wait_enter t s = (s', c)"
  shows "chans_ok s'" and "rtWaitc (rts s' t) = Some c" and "task_State u s' = task_State u s"
    and "waiter_ok s w \<Longrightarrow> waiter_ok s' w"
proof -
  have "chans_ok s' \<and> rtWaitc (rts s' t) = Some c \<and> (\<forall>u. task_State u s' = task_State u s) \<and> (\<forall>w. waiter_ok s w \<longrightarrow> waiter_ok s' w)"
  proof (cases "rtWaitc (rts s t)")
    case (Some c')
    then show ?thesis using assms by (simp add: Wait_enter_def)
  next
    case None
    then have s': "s' = s\<lparr>rts := (rts s)(t := (rts s t)\<lparr>rtWaitc := Some c\<rparr>), nextc := Suc (nextc s)\<rparr>" "c = nextc s"
      using assms(2) by (auto simp: Wait_enter_def)
    have "chans_ok s'" using assms(1) unfolding chans_ok_def s' by (auto intro: less_SucI split: if_splits)
    moreover have "waiter_ok s w \<Longrightarrow> waiter_ok s' w" for w
      using None by (cases w) (auto simp: waiter_ok_def task_State_def s')
    ultimately show ?thesis by (simp add: s' task_State_def)
  qed
  then show "chans_ok s'" and "rtWaitc (rts s' t) = Some c" and "task_State u s' = task_State u s"
    and "waiter_ok s w \<Longrightarrow> waiter_ok s' w" by blast+
qed

lemma wait_step_inv: "wait_step x y \<Longrightarrow> wait_inv x \<Longrightarrow> wait_inv y"
proof (induction rule: wait_step.induct)
  case (set_state s ws t st)
  then show ?case unfolding task_Set_def by (rule wait_inv_change) simp
next
  case (set_error s ws t e)
  then show ?case unfolding task_Error_def by (rule wait_inv_change) simp
next
  case (assign st s ws t)
  have "st < TaskOk" using assign(1) by (auto simp: less_TaskState_def)
  then have "st < st'" if "TaskOk \<le> st'" for st' using that by (rule less_le_trans)
  then have "waiter_ok (assign_state t st s) w" if "waiter_ok s w" for w
    using that by (cases w) (auto simp: waiter_ok_def task_State_def assign_state_def)
  moreover have "rtWaitc (rts (assign_state t st s) u) = rtWaitc (rts s u)" for u by (simp add: assign_state_def)
  then have "chans_ok (assign_state t st s) = chans_ok s" unfolding chans_ok_def by (simp add: assign_state_def)
  ultimately show ?case using assign(2) by (simp add: wait_inv_def)
next
  case (wblock i ws t st s s' c)
  then have c: "chans_ok s" "\<forall>w\<in>set ws. waiter_ok s w" by (auto simp: wait_inv_def)
  note e = Wait_enter_ok [OF c(1) wblock(4)]
  have "waiter_ok s' (t, st, Blocked c)" using e(2,3) wblock(3) by (simp add: waiter_ok_def)
  then show ?case using e(1,4) c(2) by (auto simp: wait_inv_def dest!: set_update_subset_insert [THEN subsetD])
qed (auto simp: wait_inv_def chans_ok_def waiter_ok_def task_State_def Subscribe_def Unsubscribe_def
    dest!: set_update_subset_insert [THEN subsetD])

text \<open>
  C20.  No wake-up is lost.  However calls of \<open>WaitState\<close> interleave with each other, with \<open>Set\<close> and \<open>Error\<close> and
  with the assignments that tell nobody, a caller that waits for \<open>TaskOk\<close> or a later state and is blocked while its
  task has reached that state is blocked on a channel that has been closed, and so can go on.  (Only such states
  are waited for outside the tests; a caller that waits for \<open>TaskWaiting\<close> or \<open>TaskRunning\<close> has no such guarantee.)
\<close>

theorem WaitState_no_lost_wakeup:
  assumes "wait_step\<^sup>*\<^sup>* (s0, []) (s, ws)" and "chans_ok s0" and "(t, st, Blocked c) \<in> set ws" and "TaskOk \<le> st" and "st \<le> task_State t s"
  shows "c \<in> closed s"
proof -
  have "wait_inv (s0, [])" using assms(2) by (simp add: wait_inv_def)
  with assms(1) have "wait_inv (s, ws)" by (induction rule: rtranclp_induct) (auto intro: wait_step_inv)
  then have "waiter_ok s (t, st, Blocked c)" using assms(3) by (auto simp: wait_inv_def)
  with assms(4,5) show ?thesis by (auto simp: waiter_ok_def)
qed

definition idle_store :: tstore where
  "idle_store = \<lparr>rts = (\<lambda>_. \<lparr>rtState = TaskInit, rtErr = None, rtLost = 0, rtWaitc = None, rtSubs = []\<rparr>),
     subTasks = (\<lambda>_. {}), closed = {}, nextc = 0\<rparr>"

theorem WaitState_no_lost_wakeup_witness:
  "\<exists>s ws. wait_step\<^sup>*\<^sup>* (idle_store, []) (s, ws) \<and> (7, TaskOk, Blocked 0) \<in> set ws \<and> task_State 7 s = TaskOk \<and> 0 \<in> closed s"
proof -
  let ?s1 = "fst (Wait_enter 7 idle_store)" and ?ws = "[(7, TaskOk, Blocked 0)]"
  let ?s = "task_Set 7 TaskOk (assign_state 7 TaskRunning ?s1)"
  have "wait_step (idle_store, []) (idle_store, [] @ [(7, TaskOk, Checking)])" by (rule call)
  moreover have "wait_step (idle_store, [] @ [(7, TaskOk, Checking)]) (?s1, ?ws)"
    using wblock [of 0 "[(7, TaskOk, Checking)]" 7 TaskOk idle_store ?s1 0]
    by (simp add: idle_store_def task_State_def Wait_enter_def less_TaskState_def)
  moreover have "wait_step (?s1, ?ws) (assign_state 7 TaskRunning ?s1, ?ws)" by (rule assign) simp
  moreover have "wait_step (assign_state 7 TaskRunning ?s1, ?ws) (?s, ?ws)" by (rule set_state)
  ultimately have st: "wait_step\<^sup>*\<^sup>* (idle_store, []) (?s, ?ws)" by (meson rtranclp.rtrancl_into_rtrancl rtranclp.rtrancl_refl)
  have ok: "task_State 7 ?s = TaskOk" by (simp add: task_State_def task_Set_def)
  have "chans_ok idle_store" by (simp add: chans_ok_def idle_store_def)
  from WaitState_no_lost_wakeup [OF st this, of 7 TaskOk 0] ok have "0 \<in> closed ?s" by simp
  with st ok show ?thesis by (intro exI [of _ ?s] exI [of _ ?ws]) simp
qed

end
