(* ===== verification/Frame.thy ===== *)
theory Frame
  imports SliceType
begin

text \<open>
  \<open>frame/frame.go\<close>, \<open>frame/ops.go\<close> and the copying primitives of \<open>frame/unsafe.go\<close>: columnar
  vectors over raw memory.

  Memory is an explicit store of arrays, because frames alias: \<open>Slice\<close> shares the columns of the
  frame it slices, and \<open>Copy\<close> and \<open>AppendFrame\<close> write through them.  A column is a Go slice
  value, that is an array, a base index, a length and a capacity; a frame is a window
  \<open>off, len, cap\<close> on all its columns.  \<open>rows\<close> reads the table that a frame stands for, and the
  lemmas relate each operation to list operations on it.
\<close>

section \<open>Columns and their operators\<close>

record 'v store =
  arrays :: "nat \<Rightarrow> 'v list"
  next_arr :: nat

record 'v ops =
  Less_op :: "('v \<Rightarrow> 'v \<Rightarrow> bool) option"
  HashWithSeed_op :: "('v \<Rightarrow> 32 word \<Rightarrow> 32 word) option"
  has_Encode :: bool
  has_Decode :: bool

definition no_ops :: "'v ops" where
  "no_ops = \<lparr>Less_op = None, HashWithSeed_op = None, has_Encode = False, has_Decode = False\<rparr>"

type_synonym 'v optab = "rtype \<Rightarrow> 'v ops option"

text \<open>
  \<open>RegisterOps\<close> on the table \<open>makeOps\<close>; the argument is given by its type and the operations
  it makes.
\<close>

definition typeOfOps :: rtype where
  "typeOfOps = TNamed ''frame.Ops'' (TStruct []) [] []"

definition RegisterOps :: "'v optab \<Rightarrow> rtype \<Rightarrow> 'v ops \<Rightarrow> 'v optab go" where
  "RegisterOps makeOps typ mk = (case underlying typ of
       TFunc [inp] [out] _ \<Rightarrow>
         (case underlying inp of
            TSlice elem \<Rightarrow>
              if out \<noteq> typeOfOps then Panic ''frame.RegisterOps: bad type''
              else if makeOps elem \<noteq> None
              then Panic ''frame.RegisterOps: ops already registered''
              else Ret (makeOps(elem \<mapsto> mk))
          | _ \<Rightarrow> Panic ''frame.RegisterOps: bad type'')
     | _ \<Rightarrow> Panic ''frame.RegisterOps: bad type'')"

definition makeSliceOps :: "'v optab \<Rightarrow> rtype \<Rightarrow> 'v ops go" where
  "makeSliceOps makeOps typ = (case makeOps typ of
       None \<Rightarrow> Ret no_ops
     | Some ops \<Rightarrow> if has_Encode ops \<noteq> has_Decode ops
                    then Panic ''encode and decode not defined together'' else Ret ops)"

definition CanCompare :: "'v optab \<Rightarrow> rtype \<Rightarrow> bool go" where
  "CanCompare makeOps typ = go_bind (makeSliceOps makeOps typ) (\<lambda>ops. Ret (Less_op ops \<noteq> None))"

definition CanHash :: "'v optab \<Rightarrow> rtype \<Rightarrow> bool go" where
  "CanHash makeOps typ =
     go_bind (makeSliceOps makeOps typ) (\<lambda>ops. Ret (HashWithSeed_op ops \<noteq> None))"

text \<open>
  A column: the slice value \<open>val\<close> is the array \<open>carr\<close> from index \<open>cbase\<close> on, with length
  \<open>vlen\<close> and capacity \<open>vcap\<close>.
\<close>

record 'v column =
  ctyp :: rtype
  carr :: nat
  cbase :: nat
  vlen :: nat
  vcap :: nat
  cops :: "'v ops"

definition newData :: "'v optab \<Rightarrow> rtype \<Rightarrow> nat \<Rightarrow> nat \<Rightarrow> nat \<Rightarrow> nat \<Rightarrow> 'v column go" where
  "newData makeOps t a b l c = go_bind (makeSliceOps makeOps t)
     (\<lambda>ops. Ret \<lparr>ctyp = t, carr = a, cbase = b, vlen = l, vcap = c, cops = ops\<rparr>)"

definition cell :: "'v store \<Rightarrow> 'v column \<Rightarrow> nat \<Rightarrow> 'v" where
  "cell h c k = arrays h (carr c) ! (cbase c + k)"

definition blit :: "'v list \<Rightarrow> nat \<Rightarrow> 'v list \<Rightarrow> 'v list" where
  "blit xs p vs = take p xs @ vs @ drop (p + length vs) xs"

definition write_arr :: "'v store \<Rightarrow> 'v column \<Rightarrow> nat \<Rightarrow> 'v list \<Rightarrow> 'v store" where
  "write_arr h c k vs =
     h\<lparr>arrays := (arrays h)(carr c := blit (arrays h (carr c)) (cbase c + k) vs)\<rparr>"

text \<open>
  \<open>assign\<close> moves one element, whatever its width; \<open>typedslicecopy\<close> has the semantics of
  \<open>memmove\<close>: the elements are read before any of them is written.
\<close>

definition assign :: "'v store \<Rightarrow> 'v column \<Rightarrow> nat \<Rightarrow> 'v column \<Rightarrow> nat \<Rightarrow> 'v store" where
  "assign h d k s l = write_arr h d k [cell h s l]"

definition typedslicecopy ::
  "'v store \<Rightarrow> 'v column \<Rightarrow> nat \<Rightarrow> nat \<Rightarrow> 'v column \<Rightarrow> nat \<Rightarrow> nat \<Rightarrow> 'v store \<times> nat" where
  "typedslicecopy h d doff dlen s soff slen =
     (let n = min dlen slen in (write_arr h d doff (map (\<lambda>k. cell h s (soff + k)) [0 ..< n]), n))"

section \<open>Frames\<close>

record 'v frame =
  fdata :: "'v column list option"
  foff :: nat
  flen :: nat
  fcap :: nat
  fprefix :: int

definition fcols :: "'v frame \<Rightarrow> 'v column list" where
  "fcols f = (case fdata f of None \<Rightarrow> [] | Some cs \<Rightarrow> cs)"

definition frame_type :: "'v frame \<Rightarrow> stype" where
  "frame_type f = Typed (map ctyp (fcols f)) (fprefix f + 1)"

definition frame_Empty :: "'v frame" where
  "frame_Empty = \<lparr>fdata = Some [], foff = 0, flen = 0, fcap = 0, fprefix = 0\<rparr>"

primrec make_data :: "'v optab \<Rightarrow> (rtype \<Rightarrow> 'v) \<Rightarrow> nat \<Rightarrow> rtype list \<Rightarrow> 'v store \<Rightarrow> ('v column list \<times> 'v store) go" where
  "make_data makeOps zero n [] h = Ret ([], h)"
| "make_data makeOps zero n (t # ts) h =
     go_bind (newData makeOps t (next_arr h) 0 n n)
       (\<lambda>c. go_bind (make_data makeOps zero n ts
               \<lparr>arrays = (arrays h)(next_arr h := replicate n (zero t)), next_arr = Suc (next_arr h)\<rparr>)
         (\<lambda>(cs, h'). Ret (c # cs, h')))"

definition frame_Make ::
  "'v optab \<Rightarrow> (rtype \<Rightarrow> 'v) \<Rightarrow> stype \<Rightarrow> int \<Rightarrow> int \<Rightarrow> 'v store \<Rightarrow> ('v frame \<times> 'v store) go" where
  "frame_Make makeOps zero types len cap h =
     (if len < 0 \<or> cap < len then Panic ''frame.Make: invalid len, cap''
      else go_bind (map_go (\<lambda>i. Out types (int i)) [0 ..< nat (NumOut types)])
        (\<lambda>ts. go_bind (make_data makeOps zero (nat cap) ts h)
          (\<lambda>(cs, h'). Ret (\<lparr>fdata = Some cs, foff = 0, flen = nat len, fcap = nat cap,
             fprefix = Prefix types - 1\<rparr>, h'))))"

text \<open>
  A Go value given to \<open>Slices\<close> or \<open>Values\<close> as a column: its type and, if it is a slice, its
  array, base, length and capacity.
\<close>

record gocol =
  gtyp :: rtype
  garr :: nat
  gbase :: nat
  glen :: nat
  gcap :: nat

fun slices_loop ::
  "'v optab \<Rightarrow> string \<Rightarrow> nat \<Rightarrow> gocol list \<Rightarrow> nat \<Rightarrow> nat \<Rightarrow> 'v column list \<Rightarrow> 'v frame go" where
  "slices_loop makeOps who i [] len cap cs =
     Ret \<lparr>fdata = Some cs, foff = 0, flen = len, fcap = cap, fprefix = 0\<rparr>"
| "slices_loop makeOps who i (g # gs) len cap cs =
     (if \<not> is_slice_kind (gtyp g) then Panic (who @ '': non-slice argument'')
      else if i \<noteq> 0 \<and> glen g \<noteq> len then Panic (who @ '': columns of unequal length'')
      else let len' = (if i = 0 then glen g else len);
               cap' = (if i = 0 then gcap g else if gcap g < cap then gcap g else cap)
           in go_bind (rtype_Elem (gtyp g)) (\<lambda>t.
                go_bind (newData makeOps t (garr g) (gbase g) (glen g) (gcap g)) (\<lambda>c.
                  slices_loop makeOps who (Suc i) gs len' cap' (cs @ [c]))))"

definition frame_Slices :: "'v optab \<Rightarrow> gocol list \<Rightarrow> 'v frame go" where
  "frame_Slices makeOps columns =
     (if columns = [] then Ret frame_Empty else slices_loop makeOps ''frame.Slices'' 0 columns 0 0 [])"

definition frame_Values :: "'v optab \<Rightarrow> gocol list \<Rightarrow> 'v frame go" where
  "frame_Values makeOps columns =
     (if columns = [] then Ret frame_Empty else slices_loop makeOps ''frame.Values'' 0 columns 0 0 [])"

definition Compatible :: "'v frame \<Rightarrow> 'v frame \<Rightarrow> bool" where
  "Compatible f g \<longleftrightarrow> map ctyp (fcols f) = map ctyp (fcols g)"

definition frame_Copy :: "'v store \<Rightarrow> 'v frame \<Rightarrow> 'v frame \<Rightarrow> ('v store \<times> nat) go" where
  "frame_Copy h dst src =
     (if \<not> Compatible dst src then Panic ''frame.Copy: incompatible frames''
      else if flen dst = 0 \<or> flen src = 0 then Ret (h, 0)
      else if flen dst = 1 \<and> flen src = 1
      then Ret (fold (\<lambda>(d, s) h. assign h d (foff dst) s (foff src)) (zip (fcols dst) (fcols src)) h, 1)
      else Ret (fold (\<lambda>(d, s) (h, n). typedslicecopy h d (foff dst) (flen dst) s (foff src) (flen src))
                  (zip (fcols dst) (fcols src)) (h, 0)))"

definition frame_IsZero :: "'v frame \<Rightarrow> bool" where
  "frame_IsZero f \<longleftrightarrow> fdata f = None"

definition frame_Slice :: "'v frame \<Rightarrow> int \<Rightarrow> int \<Rightarrow> 'v frame go" where
  "frame_Slice f i j =
     (if i < 0 \<or> j < i \<or> int (fcap f) < j then Panic ''frame.Slice: slice index out of bounds''
      else Ret \<lparr>fdata = fdata f, foff = foff f + nat i, flen = nat (j - i), fcap = fcap f - nat i,
                fprefix = fprefix f\<rparr>)"

text \<open>
  The capacity loop of \<open>grow\<close>, on 64-bit integers: it need not end when a doubling wraps
  around, hence the option type.
\<close>

definition wrap64 :: "int \<Rightarrow> int" where
  "wrap64 x = (x + 2 ^ 63) mod 2 ^ 64 - 2 ^ 63"

definition go_quot :: "int \<Rightarrow> int \<Rightarrow> int" where
  "go_quot x y = (if (x < 0) = (y < 0) then \<bar>x\<bar> div \<bar>y\<bar> else - (\<bar>x\<bar> div \<bar>y\<bar>))"

partial_function (option) grow_cap :: "int \<Rightarrow> int \<Rightarrow> int \<Rightarrow> int option" where
  "grow_cap i0 i1 m =
     (if m < i1 then grow_cap i0 i1 (if i0 < 1024 then wrap64 (m + m) else wrap64 (m + go_quot m 4))
      else Some m)"

definition frame_grow ::
  "'v optab \<Rightarrow> (rtype \<Rightarrow> 'v) \<Rightarrow> 'v frame \<Rightarrow> int \<Rightarrow> 'v store \<Rightarrow> ('v frame \<times> int \<times> int \<times> 'v store) go option" where
  "frame_grow makeOps zero f need h =
     (let i0 = int (flen f); i1 = wrap64 (i0 + need)
      in if i1 < i0 then Some (Panic ''frame.grow: overflow'')
         else if i1 \<le> int (fcap f) then Some (go_bind (frame_Slice f 0 i1) (\<lambda>g. Ret (g, i0, i1, h)))
         else map_option (\<lambda>m. go_bind (frame_Make makeOps zero (frame_type f) i1 m h)
                  (\<lambda>(g, h'). go_bind (frame_Copy h' g f) (\<lambda>(h'', n). Ret (g, i0, i1, h''))))
                (if fcap f = 0 then Some need else grow_cap i0 i1 (int (fcap f))))"

definition frame_Grow ::
  "'v optab \<Rightarrow> (rtype \<Rightarrow> 'v) \<Rightarrow> 'v frame \<Rightarrow> int \<Rightarrow> 'v store \<Rightarrow> ('v frame \<times> 'v store) go option" where
  "frame_Grow makeOps zero f n h =
     run_bind (frame_grow makeOps zero f n h) (\<lambda>(g, i0, i1, h'). Some (Ret (g, h')))"

definition frame_Ensure ::
  "'v optab \<Rightarrow> (rtype \<Rightarrow> 'v) \<Rightarrow> 'v frame \<Rightarrow> int \<Rightarrow> 'v store \<Rightarrow> ('v frame \<times> 'v store) go option" where
  "frame_Ensure makeOps zero f n h =
     (if int (flen f) = n then Some (Ret (f, h))
      else if n \<le> int (fcap f) then Some (go_bind (frame_Slice f 0 n) (\<lambda>g. Ret (g, h)))
      else frame_Grow makeOps zero f (n - int (flen f)) h)"

definition AppendFrame ::
  "'v optab \<Rightarrow> (rtype \<Rightarrow> 'v) \<Rightarrow> 'v frame \<Rightarrow> 'v frame \<Rightarrow> 'v store \<Rightarrow> ('v frame \<times> 'v store) go option" where
  "AppendFrame makeOps zero dst src h =
     run_bind
       (if frame_IsZero dst
        then Some (go_bind (frame_Make makeOps zero (frame_type src) (int (flen src)) (int (flen src)) h)
               (\<lambda>(g, h'). Ret (g, 0, int (flen src), h')))
        else frame_grow makeOps zero dst (int (flen src)) h)
       (\<lambda>(dst', i0, i1, h'). Some (go_bind (frame_Slice dst' i0 i1)
          (\<lambda>w. go_bind (frame_Copy h' w src) (\<lambda>(h'', n). Ret (dst', h'')))))"

definition frame_Prefixed :: "'v frame \<Rightarrow> int \<Rightarrow> 'v frame go" where
  "frame_Prefixed f prefix =
     (if int (length (fcols f)) < prefix \<or> prefix < 0 then Panic ''frame.Prefix: prefix is invalid''
      else Ret (f\<lparr>fprefix := prefix - 1\<rparr>))"

text \<open>\<open>Value(i)\<close> as the elements of the slice it returns; \<open>reflect.Value.Slice\<close> goes up to the capacity.\<close>

definition frame_Value :: "'v store \<Rightarrow> 'v frame \<Rightarrow> int \<Rightarrow> 'v list go" where
  "frame_Value h f i = go_bind (list_index (fcols f) i) (\<lambda>c.
     if foff f = 0 \<and> flen f = fcap f then Ret (map (cell h c) [0 ..< vlen c])
     else if vcap c < foff f + flen f then Panic ''reflect.Value.Slice: slice index out of bounds''
     else Ret (map (\<lambda>k. cell h c (foff f + k)) [0 ..< flen f]))"

definition frame_Index :: "'v store \<Rightarrow> 'v frame \<Rightarrow> int \<Rightarrow> int \<Rightarrow> 'v go" where
  "frame_Index h f col i = go_bind (list_index (fcols f) col) (\<lambda>c.
     if 0 \<le> int (foff f) + i \<and> int (foff f) + i < int (vlen c) then Ret (cell h c (nat (int (foff f) + i)))
     else Panic ''reflect: slice index out of range'')"

text \<open>\<open>reflect.Swapper\<close> on the slice value of a column.\<close>

definition col_swap :: "'v store \<Rightarrow> 'v column \<Rightarrow> int \<Rightarrow> int \<Rightarrow> 'v store go" where
  "col_swap h c i j =
     (if i < 0 \<or> int (vlen c) \<le> i \<or> j < 0 \<or> int (vlen c) \<le> j then Panic ''reflect: slice index out of range''
      else Ret (write_arr (write_arr h c (nat i) [cell h c (nat j)]) c (nat j) [cell h c (nat i)]))"

primrec swap_cols :: "int \<Rightarrow> int \<Rightarrow> 'v column list \<Rightarrow> 'v store \<Rightarrow> 'v store go" where
  "swap_cols i j [] h = Ret h"
| "swap_cols i j (c # cs) h = go_bind (col_swap h c i j) (swap_cols i j cs)"

definition frame_Swap :: "'v store \<Rightarrow> 'v frame \<Rightarrow> int \<Rightarrow> int \<Rightarrow> 'v store go" where
  "frame_Swap h f i j = swap_cols (i - int (foff f)) (j - int (foff f)) (fcols f) h"

definition frame_Zero :: "(rtype \<Rightarrow> 'v) \<Rightarrow> 'v store \<Rightarrow> 'v frame \<Rightarrow> 'v store" where
  "frame_Zero zero h f =
     fold (\<lambda>c h. write_arr h c (foff f) (replicate (flen f) (zero (ctyp c)))) (fcols f) h"

definition col_Less :: "'v store \<Rightarrow> 'v column \<Rightarrow> int \<Rightarrow> int \<Rightarrow> bool go" where
  "col_Less h c i j = (case Less_op (cops c) of
       None \<Rightarrow> Panic ''nil function''
     | Some lt \<Rightarrow> if 0 \<le> i \<and> i < int (vlen c) \<and> 0 \<le> j \<and> j < int (vlen c)
                   then Ret (lt (cell h c (nat i)) (cell h c (nat j))) else Panic ''index out of range'')"

primrec less_loop :: "'v store \<Rightarrow> int \<Rightarrow> int \<Rightarrow> bool go \<Rightarrow> 'v column list \<Rightarrow> bool go" where
  "less_loop h i j fin [] = fin"
| "less_loop h i j fin (c # cs) = go_bind (col_Less h c i j) (\<lambda>b. if b then Ret True
     else go_bind (col_Less h c j i) (\<lambda>b'. if b' then Ret False else less_loop h i j fin cs))"

definition frame_Less :: "'v store \<Rightarrow> 'v frame \<Rightarrow> int \<Rightarrow> int \<Rightarrow> bool go" where
  "frame_Less h f i j =
     (let i' = i + int (foff f); j' = j + int (foff f)
      in less_loop h i' j' (go_bind (list_index (fcols f) (fprefix f)) (\<lambda>c. col_Less h c i' j'))
           (take (nat (fprefix f)) (fcols f)))"

definition col_Hash :: "'v store \<Rightarrow> 'v column \<Rightarrow> int \<Rightarrow> 32 word \<Rightarrow> 32 word go" where
  "col_Hash h c i seed = (case HashWithSeed_op (cops c) of
       None \<Rightarrow> Panic ''nil function''
     | Some hf \<Rightarrow> if 0 \<le> i \<and> i < int (vlen c) then Ret (hf (cell h c (nat i)) seed)
                   else Panic ''index out of range'')"

primrec hash_loop :: "'v store \<Rightarrow> int \<Rightarrow> 32 word \<Rightarrow> 'v column list \<Rightarrow> 32 word \<Rightarrow> 32 word go" where
  "hash_loop h i seed [] hash = Ret hash"
| "hash_loop h i seed (c # cs) hash =
     go_bind (col_Hash h c i seed) (\<lambda>x. hash_loop h i seed cs (xor hash x))"

definition HashWithSeed :: "'v store \<Rightarrow> 'v frame \<Rightarrow> int \<Rightarrow> 32 word \<Rightarrow> 32 word go" where
  "HashWithSeed h f i seed =
     go_bind (hash_loop h (i + int (foff f)) seed (take (nat (fprefix f)) (fcols f)) 0)
       (\<lambda>hash. go_bind (list_index (fcols f) (fprefix f))
         (\<lambda>c. go_bind (col_Hash h c (i + int (foff f)) seed) (\<lambda>x. Ret (xor hash x))))"

definition frame_Hash :: "'v store \<Rightarrow> 'v frame \<Rightarrow> int \<Rightarrow> 32 word go" where
  "frame_Hash h f i = HashWithSeed h f i 0"

section \<open>The table a frame stands for\<close>

definition row :: "'v store \<Rightarrow> 'v frame \<Rightarrow> nat \<Rightarrow> 'v list" where
  "row h f k = map (\<lambda>c. cell h c (foff f + k)) (fcols f)"

definition rows :: "'v store \<Rightarrow> 'v frame \<Rightarrow> 'v list list" where
  "rows h f = map (row h f) [0 ..< flen f]"

text \<open>
  Well-formed frames: every column is allocated and reaches to the end of the window.
  \<open>sep\<close>: the columns lie in different arrays; \<open>apart\<close>: a column of one frame shares memory at
  most with the column of the other frame at the same position.
\<close>

definition wf_col :: "'v store \<Rightarrow> nat \<Rightarrow> 'v column \<Rightarrow> bool" where
  "wf_col h n c \<longleftrightarrow> n \<le> vcap c \<and> vlen c \<le> vcap c \<and> carr c < next_arr h \<and>
     cbase c + vcap c \<le> length (arrays h (carr c))"

definition wf_frame :: "'v store \<Rightarrow> 'v frame \<Rightarrow> bool" where
  "wf_frame h f \<longleftrightarrow> flen f \<le> fcap f \<and> list_all (wf_col h (foff f + fcap f)) (fcols f)"

definition sep :: "'v frame \<Rightarrow> bool" where
  "sep f \<longleftrightarrow> distinct (map carr (fcols f))"

definition apart :: "'v frame \<Rightarrow> 'v frame \<Rightarrow> bool" where
  "apart f g \<longleftrightarrow> (\<forall>i<length (fcols f). \<forall>j<length (fcols g). i \<noteq> j \<longrightarrow>
     carr (fcols f ! i) \<noteq> carr (fcols g ! j))"

lemma length_rows [simp]: "length (rows h f) = flen f"
  by (simp add: rows_def)

lemma nth_rows [simp]: "k < flen f \<Longrightarrow> rows h f ! k = row h f k"
  by (simp add: rows_def)

subsection \<open>Writing\<close>

lemma length_blit [simp]: "p + length vs \<le> length xs \<Longrightarrow> length (blit xs p vs) = length xs"
  by (simp add: blit_def)

lemma nth_blit:
  "p + length vs \<le> length xs \<Longrightarrow> k < length xs \<Longrightarrow>
     blit xs p vs ! k = (if p \<le> k \<and> k < p + length vs then vs ! (k - p) else xs ! k)"
  by (auto simp: blit_def nth_append)

lemma next_arr_write [simp]: "next_arr (write_arr h c k vs) = next_arr h"
  by (simp add: write_arr_def)

lemma arrays_write_other [simp]: "a \<noteq> carr c \<Longrightarrow> arrays (write_arr h c k vs) a = arrays h a"
  by (simp add: write_arr_def)

lemma length_arrays_write:
  "cbase c + k + length vs \<le> length (arrays h (carr c)) \<Longrightarrow>
     length (arrays (write_arr h c k vs) a) = length (arrays h a)"
  by (simp add: write_arr_def)

lemma cell_write_same:
  "cbase c + k + length vs \<le> length (arrays h (carr c)) \<Longrightarrow> cbase c + l < length (arrays h (carr c)) \<Longrightarrow>
     cell (write_arr h c k vs) c l = (if k \<le> l \<and> l < k + length vs then vs ! (l - k) else cell h c l)"
  by (auto simp: cell_def write_arr_def nth_blit add.commute)

lemma cell_write_other: "carr d \<noteq> carr c \<Longrightarrow> cell (write_arr h c k vs) d l = cell h d l"
  by (simp add: cell_def)

subsection \<open>Copying column by column\<close>

text \<open>
  Both paths of \<open>Copy\<close> run, for the columns in order, a write of the first \<open>n\<close> elements of the
  source window at the start of the destination window.
\<close>

definition copy_col :: "nat \<Rightarrow> nat \<Rightarrow> nat \<Rightarrow> 'v column \<times> 'v column \<Rightarrow> 'v store \<Rightarrow> 'v store" where
  "copy_col doff soff n = (\<lambda>(d, s) h. write_arr h d doff (map (\<lambda>k. cell h s (soff + k)) [0 ..< n]))"

lemma frame_Copy_fold:
  assumes "Compatible dst src" and "fcols dst \<noteq> []"
  shows "frame_Copy h dst src =
    (let n = min (flen dst) (flen src)
     in Ret (if n = 0 then h else fold (copy_col (foff dst) (foff src) n) (zip (fcols dst) (fcols src)) h, n))"
proof -
  have one: "(\<lambda>(d, s) h. assign h d k s l) = copy_col k l (Suc 0)" for k l
    by (simp add: fun_eq_iff assign_def copy_col_def)
  have many: "fold (\<lambda>(d, s) (h, n). typedslicecopy h d doff dlen s soff slen) ps (h, m) =
      (fold (copy_col doff soff (min dlen slen)) ps h, if ps = [] then m else min dlen slen)"
    for ps :: "('a column \<times> 'a column) list" and h doff dlen soff slen m
    by (induction ps arbitrary: h m) (auto simp: typedslicecopy_def copy_col_def Let_def)
  have "zip (fcols dst) (fcols src) \<noteq> []"
    using assms by (cases "fcols dst"; cases "fcols src") (auto simp: Compatible_def)
  then show ?thesis
    using assms by (auto simp: frame_Copy_def Let_def many one)
qed

lemma fold_copy_other:
  "a \<notin> carr ` set (map fst ps) \<Longrightarrow> arrays (fold (copy_col p q n) ps h) a = arrays h a"
proof (induction ps arbitrary: h)
  case (Cons x ps)
  then show ?case by (cases x) (auto simp: copy_col_def)
qed simp

lemma next_arr_fold_copy [simp]: "next_arr (fold (copy_col p q n) ps h) = next_arr h"
  by (induction ps arbitrary: h) (auto simp: copy_col_def)

lemma length_fold_copy:
  "\<forall>(d, s)\<in>set ps. cbase d + p + n \<le> length (arrays h (carr d)) \<Longrightarrow>
     length (arrays (fold (copy_col p q n) ps h) a) = length (arrays h a)"
proof (induction ps arbitrary: h)
  case (Cons x ps)
  obtain d s where x: "x = (d, s)" by (cases x)
  have "length (arrays (copy_col p q n x h) b) = length (arrays h b)" for b
    using Cons.prems x by (simp add: copy_col_def length_arrays_write)
  with Cons show ?case by simp
qed simp

lemma cell_fold_copy:
  assumes "i < length ds" and "length ss = length ds"
    and "distinct (map carr ds)" and "\<And>i' j. i' < length ds \<Longrightarrow> j < length ds \<Longrightarrow> i' \<noteq> j \<Longrightarrow> carr (ds ! i') \<noteq> carr (ss ! j)"
    and "\<forall>d\<in>set ds. cbase d + p + n \<le> length (arrays h (carr d))"
    and "cbase (ds ! i) + l < length (arrays h (carr (ds ! i)))"
  shows "cell (fold (copy_col p q n) (zip ds ss) h) (ds ! i) l =
    (if p \<le> l \<and> l < p + n then cell h (ss ! i) (q + (l - p)) else cell h (ds ! i) l)"
  using assms
proof (induction ds arbitrary: ss h i)
  case (Cons d ds)
  then obtain s ss' where ss: "ss = s # ss'" by (cases ss) auto
  let ?h = "copy_col p q n (d, s) h"
  have wr: "?h = write_arr h d p (map (\<lambda>k. cell h s (q + k)) [0 ..< n])" by (simp add: copy_col_def)
  have len: "length (arrays ?h a) = length (arrays h a)" for a
    using Cons.prems by (simp add: wr length_arrays_write)
  show ?case
  proof (cases i)
    case 0
    have "carr d \<notin> carr ` set (map fst (zip ds ss'))"
      using Cons.prems(3) by (auto dest: set_zip_leftD)
    then have "cell (fold (copy_col p q n) (zip ds ss') ?h) d l = cell ?h d l"
      by (simp add: cell_def fold_copy_other)
    moreover have "cell ?h d l = (if p \<le> l \<and> l < p + n then cell h s (q + (l - p)) else cell h d l)"
      using Cons.prems 0 unfolding wr by (subst cell_write_same) auto
    ultimately show ?thesis using 0 ss by simp
  next
    case (Suc i')
    have dist: "\<And>i' j. i' < length ds \<Longrightarrow> j < length ds \<Longrightarrow> i' \<noteq> j \<Longrightarrow> carr (ds ! i') \<noteq> carr (ss' ! j)"
      using Cons.prems(4) [of "Suc _" "Suc _"] ss by auto
    have "cell (fold (copy_col p q n) (zip ds ss') ?h) (ds ! i') l =
        (if p \<le> l \<and> l < p + n then cell ?h (ss' ! i') (q + (l - p)) else cell ?h (ds ! i') l)"
      by (rule Cons.IH) (use Cons.prems Suc ss len dist in auto)
    moreover have "carr (ss' ! i') \<noteq> carr d"
      using Cons.prems(1,2) Cons.prems(4) [of 0 "Suc i'"] Suc ss by force
    moreover have "carr (ds ! i') \<in> carr ` set ds" using Cons.prems(1) Suc by simp
    then have "carr (ds ! i') \<noteq> carr d" using Cons.prems(3) by auto
    ultimately show ?thesis using Suc ss by (simp add: wr cell_write_other)
  qed
qed simp

lemma wf_colD:
  assumes "wf_frame h f" and "i < length (fcols f)"
  shows "cbase (fcols f ! i) + foff f + fcap f \<le> length (arrays h (carr (fcols f ! i)))"
    and "carr (fcols f ! i) < next_arr h" and "flen f \<le> fcap f"
  using assms by (auto simp: wf_frame_def wf_col_def list_all_length dest!: spec)

text \<open>
  What \<open>Copy\<close> does to the store: the rows of the destination, and everything outside its
  columns.
\<close>

lemma frame_Copy_spec:
  assumes "wf_frame h dst" "wf_frame h src" and "Compatible dst src" and "fcols dst \<noteq> []"
    and "sep dst" and "apart dst src"
  defines "n \<equiv> min (flen dst) (flen src)"
  obtains h' where "frame_Copy h dst src = Ret (h', n)"
    and "\<And>k. k < fcap dst \<Longrightarrow> row h' dst k = (if k < n then row h src k else row h dst k)"
    and "\<And>a. a \<notin> carr ` set (fcols dst) \<Longrightarrow> arrays h' a = arrays h a"
    and "next_arr h' = next_arr h" and "\<And>a. length (arrays h' a) = length (arrays h a)"
    and "\<And>c l. c \<in> set (fcols dst) \<Longrightarrow> l < foff dst \<Longrightarrow> cell h' c l = cell h c l"
proof -
  let ?h = "if n = 0 then h else fold (copy_col (foff dst) (foff src) n) (zip (fcols dst) (fcols src)) h"
  have e: "frame_Copy h dst src = Ret (?h, n)"
    using frame_Copy_fold [OF assms(3,4), of h] by (simp only: n_def Let_def)
  have leq: "length (fcols src) = length (fcols dst)"
    using assms(3) by (metis Compatible_def length_map)
  have room: "\<forall>d\<in>set (fcols dst). cbase d + foff dst + n \<le> length (arrays h (carr d))"
    using wf_colD [OF assms(1)] by (fastforce simp: in_set_conv_nth n_def)
  have ap: "\<And>i' j. i' < length (fcols dst) \<Longrightarrow> j < length (fcols dst) \<Longrightarrow> i' \<noteq> j \<Longrightarrow>
      carr (fcols dst ! i') \<noteq> carr (fcols src ! j)" using assms(6) leq by (simp add: apart_def)
  have rows: "row ?h dst k = (if k < n then row h src k else row h dst k)" if k: "k < fcap dst" for k
  proof (cases "n = 0")
    case False
    have "cell ?h (fcols dst ! i) (foff dst + k) =
        (if k < n then cell h (fcols src ! i) (foff src + k) else cell h (fcols dst ! i) (foff dst + k))"
      if i: "i < length (fcols dst)" for i
      using cell_fold_copy [OF i leq _ ap room, of "foff dst + k" "foff src"] assms(5) False
        wf_colD(1) [OF assms(1) i] k by (auto simp: sep_def)
    then show ?thesis by (auto simp: row_def list_eq_iff_nth_eq leq)
  qed simp
  have "carr ` set (map fst (zip (fcols dst) (fcols src))) = carr ` set (fcols dst)"
    using leq by (simp only: map_fst_zip)
  then have other: "a \<notin> carr ` set (fcols dst) \<Longrightarrow> arrays ?h a = arrays h a" for a
    by (simp add: fold_copy_other)
  have len: "length (arrays ?h a) = length (arrays h a)" for a
    using room by (auto intro!: length_fold_copy dest: set_zip_leftD)
  have below: "cell ?h c l = cell h c l" if c: "c \<in> set (fcols dst)" and l: "l < foff dst" for c l
  proof -
    obtain i where i: "i < length (fcols dst)" "c = fcols dst ! i" using c by (auto simp: in_set_conv_nth)
    show ?thesis
      using cell_fold_copy [OF i(1) leq _ ap room, of l "foff src"] assms(5) l
        wf_colD(1) [OF assms(1) i(1)] i(2) by (auto simp: sep_def)
  qed
  have "next_arr ?h = next_arr h" by simp
  from that [OF e rows other this len below] show thesis .
qed

text \<open>
  \<open>frame.Copy\<close> of compatible frames copies \<open>min (len dst) (len src)\<close> rows: afterwards the
  destination holds those rows of the source followed by its own remaining rows, also when source
  and destination overlap within the same column arrays, and no other array has changed.
\<close>

theorem frame_Copy_rows:
  assumes "wf_frame h dst" "wf_frame h src" and "Compatible dst src" and "fcols dst \<noteq> []"
    and "sep dst" and "apart dst src"
  shows "\<exists>h'. frame_Copy h dst src = Ret (h', min (flen dst) (flen src)) \<and>
    rows h' dst = take (flen dst) (rows h src) @ drop (flen src) (rows h dst) \<and>
    (\<forall>a. a \<notin> carr ` set (fcols dst) \<longrightarrow> arrays h' a = arrays h a)"
proof -
  obtain h' where h': "frame_Copy h dst src = Ret (h', min (flen dst) (flen src))"
    and r: "\<And>k. k < fcap dst \<Longrightarrow>
      row h' dst k = (if k < min (flen dst) (flen src) then row h src k else row h dst k)"
    and o: "\<And>a. a \<notin> carr ` set (fcols dst) \<Longrightarrow> arrays h' a = arrays h a"
    using frame_Copy_spec [OF assms] by metis
  have "flen dst \<le> fcap dst" using assms(1) by (simp add: wf_frame_def)
  then have "rows h' dst = take (flen dst) (rows h src) @ drop (flen src) (rows h dst)"
    by (auto simp: list_eq_iff_nth_eq nth_append r)
  with h' o show ?thesis by blast
qed

theorem frame_Copy_rows_witness:
  "\<exists>h'. frame_Copy \<lparr>arrays = (\<lambda>_. [1, 2, 3, 4::int]), next_arr = 1\<rparr>
       \<lparr>fdata = Some [\<lparr>ctyp = TBasic ''int'', carr = 0, cbase = 0, vlen = 4, vcap = 4, cops = (no_ops :: int ops)\<rparr>],
        foff = 1, flen = 3, fcap = 3, fprefix = 0\<rparr>
       \<lparr>fdata = Some [\<lparr>ctyp = TBasic ''int'', carr = 0, cbase = 0, vlen = 4, vcap = 4, cops = (no_ops :: int ops)\<rparr>],
        foff = 0, flen = 2, fcap = 4, fprefix = 0\<rparr> = Ret (h', 2) \<and>
     rows h' \<lparr>fdata = Some [\<lparr>ctyp = TBasic ''int'', carr = 0, cbase = 0, vlen = 4, vcap = 4, cops = (no_ops :: int ops)\<rparr>],
        foff = 1, flen = 3, fcap = 3, fprefix = 0\<rparr> = [[1], [2], [4]]"
proof -
  let ?h = "\<lparr>arrays = (\<lambda>_. [1, 2, 3, 4::int]), next_arr = 1\<rparr>"
  let ?c = "\<lparr>ctyp = TBasic ''int'', carr = 0, cbase = 0, vlen = 4, vcap = 4, cops = (no_ops :: int ops)\<rparr>"
  let ?d = "\<lparr>fdata = Some [?c], foff = 1, flen = 3, fcap = 3, fprefix = 0\<rparr>"
  let ?s = "\<lparr>fdata = Some [?c], foff = 0, flen = 2, fcap = 4, fprefix = 0\<rparr>"
  have "\<exists>h'. frame_Copy ?h ?d ?s = Ret (h', min (flen ?d) (flen ?s)) \<and>
      rows h' ?d = take (flen ?d) (rows ?h ?s) @ drop (flen ?s) (rows ?h ?d) \<and>
      (\<forall>a. a \<notin> carr ` set (fcols ?d) \<longrightarrow> arrays h' a = arrays ?h a)"
    by (rule frame_Copy_rows)
      (auto simp: wf_frame_def wf_col_def Compatible_def sep_def apart_def fcols_def)
  then show ?thesis
    by (auto simp: rows_def row_def fcols_def cell_def numeral_3_eq_3 numeral_2_eq_2)
qed

section \<open>Slicing, growing and appending\<close>

lemma fcols_slice [simp]:
  "frame_Slice f i j = Ret g \<Longrightarrow> fcols g = fcols f"
  by (auto simp: frame_Slice_def fcols_def split: if_splits)

lemma frame_Slice_spec:
  assumes "0 \<le> i" "i \<le> j" "j \<le> int (fcap f)"
  obtains g where "frame_Slice f i j = Ret g" and "fcols g = fcols f" and "flen g = nat (j - i)"
    and "fcap g = fcap f - nat i" and "foff g = foff f + nat i" and "fprefix g = fprefix f"
    and "\<And>h k. row h g k = row h f (nat i + k)" and "\<And>h. wf_frame h f \<Longrightarrow> wf_frame h g"
proof -
  define g where "g = \<lparr>fdata = fdata f, foff = foff f + nat i, flen = nat (j - i), fcap = fcap f - nat i,
    fprefix = fprefix f\<rparr>"
  have c: "fcols g = fcols f" by (simp add: g_def fcols_def)
  have r: "row h g k = row h f (nat i + k)" for h k
    unfolding row_def c by (simp add: g_def add.assoc)
  have w: "wf_frame h g" if "wf_frame h f" for h
    using that assms unfolding wf_frame_def c
    by (auto simp: g_def list_all_iff wf_col_def nat_le_iff dest: bspec)
  show thesis
    by (rule that [of g]) (use assms c r w in \<open>auto simp: frame_Slice_def g_def\<close>)
qed

lemma makeSliceOps_ok:
  "\<forall>ops. makeOps t = Some ops \<longrightarrow> has_Encode ops = has_Decode ops \<Longrightarrow>
     makeSliceOps makeOps t = Ret (case makeOps t of None \<Rightarrow> no_ops | Some ops \<Rightarrow> ops)"
  by (auto simp: makeSliceOps_def split: option.splits)

definition wf_optab :: "'v optab \<Rightarrow> bool" where
  "wf_optab makeOps \<longleftrightarrow> (\<forall>t ops. makeOps t = Some ops \<longrightarrow> has_Encode ops = has_Decode ops)"

lemma make_data_spec:
  assumes "wf_optab makeOps"
  shows "\<exists>cs h'. make_data makeOps zero n ts h = Ret (cs, h') \<and> map ctyp cs = ts \<and>
    map carr cs = [next_arr h ..< next_arr h + length ts] \<and> next_arr h' = next_arr h + length ts \<and>
    (\<forall>c\<in>set cs. cbase c = 0 \<and> vlen c = n \<and> vcap c = n \<and> length (arrays h' (carr c)) = n) \<and>
    (\<forall>a<next_arr h. arrays h' a = arrays h a)"
proof (induction ts arbitrary: h)
  case (Cons t ts)
  let ?h = "\<lparr>arrays = (arrays h)(next_arr h := replicate n (zero t)), next_arr = Suc (next_arr h)\<rparr>"
  from Cons.IH [of ?h] obtain cs h' where IH: "make_data makeOps zero n ts ?h = Ret (cs, h')"
    "map ctyp cs = ts" "map carr cs = [Suc (next_arr h) ..< Suc (next_arr h) + length ts]"
    "next_arr h' = Suc (next_arr h) + length ts"
    "\<forall>c\<in>set cs. cbase c = 0 \<and> vlen c = n \<and> vcap c = n \<and> length (arrays h' (carr c)) = n"
    "\<forall>a<Suc (next_arr h). arrays h' a = arrays ?h a" by auto
  have mk: "\<exists>ops. makeSliceOps makeOps t = Ret ops"
    using assms by (auto simp: makeSliceOps_def wf_optab_def split: option.splits)
  have "arrays h' (next_arr h) = replicate n (zero t)" using IH(6) by simp
  moreover have "[next_arr h ..< next_arr h + length (t # ts)]
      = next_arr h # [Suc (next_arr h) ..< Suc (next_arr h) + length ts]"
    by (subst upt_conv_Cons) auto
  ultimately show ?case using IH mk by (auto simp: newData_def simp del: upt_Suc)
qed simp

lemma map_go_Out_frame:
  "map_go (\<lambda>i. Out (frame_type f) (int i)) [0 ..< nat (NumOut (frame_type f))] = Ret (map ctyp (fcols f))"
  using Columns_cols [of "frame_type f"] by (simp add: frame_type_def)

lemma frame_Make_spec:
  assumes "wf_optab makeOps" and "0 \<le> len" "len \<le> cap"
  obtains g h' where "frame_Make makeOps zero (frame_type f) len cap h = Ret (g, h')"
    and "map ctyp (fcols g) = map ctyp (fcols f)" and "wf_frame h' g" and "sep g"
    and "foff g = 0" "flen g = nat len" "fcap g = nat cap" "fprefix g = fprefix f"
    and "\<forall>c\<in>set (fcols g). next_arr h \<le> carr c"
    and "next_arr h \<le> next_arr h'" and "\<forall>a<next_arr h. arrays h' a = arrays h a"
proof -
  from make_data_spec [OF assms(1), of zero "nat cap" "map ctyp (fcols f)" h] obtain cs h'
    where m: "make_data makeOps zero (nat cap) (map ctyp (fcols f)) h = Ret (cs, h')"
      "map ctyp cs = map ctyp (fcols f)"
      "map carr cs = [next_arr h ..< next_arr h + length (map ctyp (fcols f))]"
      "next_arr h' = next_arr h + length (map ctyp (fcols f))"
      "\<forall>c\<in>set cs. cbase c = 0 \<and> vlen c = nat cap \<and> vcap c = nat cap \<and> length (arrays h' (carr c)) = nat cap"
      "\<forall>a<next_arr h. arrays h' a = arrays h a" by blast
  let ?g = "\<lparr>fdata = Some cs, foff = 0, flen = nat len, fcap = nat cap, fprefix = fprefix f\<rparr>"
  have arr: "\<forall>c\<in>set cs. next_arr h \<le> carr c \<and> carr c < next_arr h'"
    using m(3,4) by (metis atLeastLessThan_iff image_eqI list.set_map set_upt)
  have e: "frame_Make makeOps zero (frame_type f) len cap h = Ret (?g, h')"
    using assms(2,3) m(1) unfolding frame_Make_def map_go_Out_frame by (simp add: frame_type_def)
  have c: "fcols ?g = cs" by (simp add: fcols_def)
  have w: "wf_frame h' ?g"
    using arr m(5) assms(2,3) by (auto simp: wf_frame_def c list_all_iff wf_col_def nat_mono)
  have "sep ?g" using m(3) by (simp add: sep_def c)
  then show thesis
    using that [OF e] m arr w c by simp
qed

subsection \<open>The capacity loop\<close>

lemma wrap64_id: "- (2 ^ 63) \<le> x \<Longrightarrow> x < 2 ^ 63 \<Longrightarrow> wrap64 x = x"
  by (simp add: wrap64_def)

lemma grow_cap_total:
  assumes "0 < m" and "m < 2 * i1" and "i1 \<le> 2 ^ 62" and "i0 < 1024 \<or> 4 \<le> m"
  shows "\<exists>m'. grow_cap i0 i1 m = Some m' \<and> i1 \<le> m' \<and> m' < 2 * i1"
  using assms
proof (induction "nat (i1 - m)" arbitrary: m rule: less_induct)
  case less
  show ?case
  proof (cases "m < i1")
    case False
    with less.prems show ?thesis by (simp add: grow_cap.simps)
  next
    case True
    define m1 where "m1 = (if i0 < 1024 then m + m else m + m div 4)"
    have m1: "m < m1" "m1 < 2 * i1" "m1 < 2 ^ 63"
      using less.prems True by (auto simp: m1_def)
    have step: "grow_cap i0 i1 m = grow_cap i0 i1 m1"
      using True less.prems m1
      by (subst grow_cap.simps) (auto simp: m1_def go_quot_def wrap64_id split: if_splits)
    have "nat (i1 - m1) < nat (i1 - m)" using m1 True by simp
    from less.hyps [OF this] m1 less.prems step show ?thesis by auto
  qed
qed

text \<open>
  The capacity loop of \<open>Frame.grow\<close> returns: started from a positive capacity that does not
  suffice, for a demand of at most \<open>2 ^ 62\<close> rows (and at least four rows of capacity once the
  length has reached 1024), it ends without wrapping around, with a capacity that covers the
  demand and is less than twice as large.
\<close>

theorem grow_cap_bounds:
  assumes "0 < m" and "m < i1" and "i1 \<le> 2 ^ 62" and "i0 \<le> m"
  shows "\<exists>m'. grow_cap i0 i1 m = Some m' \<and> i1 \<le> m' \<and> m' < 2 * i1"
  using assms by (intro grow_cap_total) auto

theorem grow_cap_bounds_witness:
  "\<exists>m'. grow_cap 1500 5000 2000 = Some m' \<and> 5000 \<le> m' \<and> m' < 2 * 5000"
  by (rule grow_cap_bounds) auto

subsection \<open>Growing and appending\<close>

lemma row_cong:
  "fcols f = fcols g \<Longrightarrow> foff f + k = foff g + l \<Longrightarrow>
   (\<And>c. c \<in> set (fcols f) \<Longrightarrow> arrays h (carr c) = arrays h' (carr c)) \<Longrightarrow> row h f k = row h' g l"
  by (auto simp: row_def cell_def)

lemma wf_frame_mono:
  assumes "wf_frame h f" and "next_arr h \<le> next_arr h'"
    and "\<And>a. a < next_arr h \<Longrightarrow> length (arrays h' a) = length (arrays h a)"
  shows "wf_frame h' f"
  using assms by (fastforce simp: wf_frame_def wf_col_def list_all_iff)

lemma wf_frame_old: "wf_frame h f \<Longrightarrow> \<forall>c\<in>set (fcols f). carr c < next_arr h"
  by (auto simp: wf_frame_def wf_col_def list_all_iff)

lemma apart_fresh:
  assumes "\<forall>c\<in>set (fcols f). n \<le> carr c" and "\<forall>c\<in>set (fcols g). carr c < n"
  shows "apart f g"
  unfolding apart_def by (metis assms leD nth_mem)

text \<open>
  A frame is good for \<open>grow\<close> when its length and the demand stay in the range in which the
  capacity loop does not wrap.
\<close>

lemma frame_grow_spec:
  assumes "wf_optab makeOps" and "wf_frame h f" and "sep f" and "fcols f \<noteq> []"
    and "0 \<le> need" and "int (flen f) + need \<le> 2 ^ 62"
  obtains g h' where "frame_grow makeOps zero f need h = Some (Ret (g, int (flen f), int (flen f) + need, h'))"
    and "map ctyp (fcols g) = map ctyp (fcols f)" and "flen g = flen f + nat need"
    and "wf_frame h' g" and "sep g"
    and "\<And>k. k < flen f \<Longrightarrow> row h' g k = row h f k"
    and "\<And>a. a < next_arr h \<Longrightarrow> arrays h' a = arrays h a" and "next_arr h \<le> next_arr h'"
    and "fcols g = fcols f \<or> (\<forall>c\<in>set (fcols g). next_arr h \<le> carr c)" and "fprefix g = fprefix f"
proof -
  let ?i0 = "int (flen f)" and ?i1 = "int (flen f) + need"
  have i1: "wrap64 ?i1 = ?i1" using assms(5,6) by (intro wrap64_id) auto
  have le: "flen f \<le> fcap f" using assms(2) by (simp add: wf_frame_def)
  show thesis
  proof (cases "?i1 \<le> int (fcap f)")
    case True
    have nn: "0 \<le> ?i1" using assms(5) by simp
    obtain g where g: "frame_Slice f 0 ?i1 = Ret g" "fcols g = fcols f" "flen g = nat (?i1 - 0)"
      "fcap g = fcap f - nat 0" "foff g = foff f + nat 0" "fprefix g = fprefix f"
      "\<And>h k. row h g k = row h f (nat 0 + k)" "\<And>h. wf_frame h f \<Longrightarrow> wf_frame h g"
      by (rule frame_Slice_spec [OF order.refl nn True]) (rule that)
    have "frame_grow makeOps zero f need h = Some (Ret (g, ?i0, ?i1, h))"
      using True g(1) assms(5) by (simp add: frame_grow_def i1 Let_def)
    then show thesis
      by (rule that) (use g assms in \<open>auto simp: sep_def nat_add_distrib\<close>)
  next
    case False
    obtain m where m: "(if fcap f = 0 then Some need else grow_cap ?i0 ?i1 (int (fcap f))) = Some m" "?i1 \<le> m"
    proof (cases "fcap f = 0")
      case True
      with that [of need] le show thesis by simp
    next
      case nz: False
      with grow_cap_total [of "int (fcap f)" ?i1 ?i0] False assms(6) le obtain m'
        where "grow_cap ?i0 ?i1 (int (fcap f)) = Some m'" "?i1 \<le> m'" by fastforce
      with that nz show thesis by simp
    qed
    obtain g h1 where mk: "frame_Make makeOps zero (frame_type f) ?i1 m h = Ret (g, h1)"
      "map ctyp (fcols g) = map ctyp (fcols f)" "wf_frame h1 g" "sep g"
      "foff g = 0" "flen g = nat ?i1" "fcap g = nat m" "fprefix g = fprefix f"
      "\<forall>c\<in>set (fcols g). next_arr h \<le> carr c" "next_arr h \<le> next_arr h1"
      "\<forall>a<next_arr h. arrays h1 a = arrays h a"
      using frame_Make_spec [OF assms(1), of ?i1 m zero f h] m(2) assms(5) by auto
    have wf1: "wf_frame h1 f" using wf_frame_mono [OF assms(2) mk(10)] mk(11) by simp
    have old: "\<forall>c\<in>set (fcols f). carr c < next_arr h" using wf_frame_old [OF assms(2)] .
    then have ap: "apart g f" using apart_fresh [OF mk(9)] by blast
    have comp: "Compatible g f" using mk(2) by (simp add: Compatible_def)
    have ne: "fcols g \<noteq> []" using mk(2) assms(4) by auto
    obtain h' where cp: "frame_Copy h1 g f = Ret (h', min (flen g) (flen f))"
      "\<And>k. k < fcap g \<Longrightarrow> row h' g k = (if k < min (flen g) (flen f) then row h1 f k else row h1 g k)"
      "\<And>a. a \<notin> carr ` set (fcols g) \<Longrightarrow> arrays h' a = arrays h1 a"
      "next_arr h' = next_arr h1" "\<And>a. length (arrays h' a) = length (arrays h1 a)"
      using frame_Copy_spec [OF mk(3) wf1 comp ne mk(4) ap] by metis
    have e: "frame_grow makeOps zero f need h = Some (Ret (g, ?i0, ?i1, h'))"
      using False mk(1) cp(1) assms(5) unfolding frame_grow_def Let_def i1 m(1) by simp
    have r: "row h' g k = row h f k" if "k < flen f" for k
    proof -
      have "row h1 f k = row h f k" using old mk(11) by (intro row_cong) auto
      with cp(2) [of k] that mk(6,7) m(2) assms(5) show ?thesis by auto
    qed
    have wf': "wf_frame h' g" using wf_frame_mono [OF mk(3), of h'] cp(4,5) by simp
    have keep: "arrays h' a = arrays h a" if "a < next_arr h" for a
    proof -
      have "a \<notin> carr ` set (fcols g)" using mk(9) that by force
      with cp(3) mk(11) that show ?thesis by simp
    qed
    show thesis
      by (rule that [OF e mk(2) _ wf' mk(4) r keep]) (use mk cp(4) assms(5) in auto)
  qed
qed

text \<open>
  The frame into which \<open>AppendFrame\<close> copies: the rows of \<open>dst\<close> (none for the zero frame) with
  room for the rows of \<open>src\<close> after them.
\<close>

definition append_base :: "'v frame \<Rightarrow> nat" where
  "append_base dst = (if frame_IsZero dst then 0 else flen dst)"

lemma append_target:
  assumes "wf_optab makeOps" and "wf_frame h src" and "fcols src \<noteq> []"
    and "frame_IsZero dst \<or> wf_frame h dst \<and> sep dst \<and> Compatible dst src \<and> apart dst src"
    and "int (flen dst) + int (flen src) \<le> 2 ^ 62"
  obtains g h1 where "(if frame_IsZero dst
        then Some (go_bind (frame_Make makeOps zero (frame_type src) (int (flen src)) (int (flen src)) h)
               (\<lambda>(g, h'). Ret (g, 0, int (flen src), h')))
        else frame_grow makeOps zero dst (int (flen src)) h)
      = Some (Ret (g, int (append_base dst), int (append_base dst + flen src), h1))"
    and "Compatible g src" and "flen g = append_base dst + flen src" and "wf_frame h1 g" and "sep g"
    and "\<And>k. k < append_base dst \<Longrightarrow> row h1 g k = row h dst k"
    and "\<And>a. a < next_arr h \<Longrightarrow> arrays h1 a = arrays h a" and "next_arr h \<le> next_arr h1"
    and "apart g src"
proof (cases "frame_IsZero dst")
  case True
  obtain g h1 where mk: "frame_Make makeOps zero (frame_type src) (int (flen src)) (int (flen src)) h = Ret (g, h1)"
    "map ctyp (fcols g) = map ctyp (fcols src)" "wf_frame h1 g" "sep g"
    "foff g = 0" "flen g = nat (int (flen src))" "fcap g = nat (int (flen src))" "fprefix g = fprefix src"
    "\<forall>c\<in>set (fcols g). next_arr h \<le> carr c" "next_arr h \<le> next_arr h1"
    "\<forall>a<next_arr h. arrays h1 a = arrays h a"
    by (rule frame_Make_spec [OF assms(1) of_nat_0_le_iff order.refl]) (rule that)
  moreover have "apart g src" using apart_fresh [OF mk(9) wf_frame_old [OF assms(2)]] .
  ultimately show thesis
    using True by (intro that [of g h1]) (auto simp: append_base_def Compatible_def)
next
  case False
  then have d: "wf_frame h dst" "sep dst" "Compatible dst src" "apart dst src" using assms(4) by auto
  have ne: "fcols dst \<noteq> []" using d(3) assms(3) by (auto simp: Compatible_def)
  obtain g h1 where gr: "frame_grow makeOps zero dst (int (flen src)) h
      = Some (Ret (g, int (flen dst), int (flen dst) + int (flen src), h1))"
    "map ctyp (fcols g) = map ctyp (fcols dst)" "flen g = flen dst + nat (int (flen src))"
    "wf_frame h1 g" "sep g" "\<And>k. k < flen dst \<Longrightarrow> row h1 g k = row h dst k"
    "\<And>a. a < next_arr h \<Longrightarrow> arrays h1 a = arrays h a" "next_arr h \<le> next_arr h1"
    "fcols g = fcols dst \<or> (\<forall>c\<in>set (fcols g). next_arr h \<le> carr c)" "fprefix g = fprefix dst"
    by (rule frame_grow_spec [OF assms(1) d(1,2) ne of_nat_0_le_iff assms(5)]) (rule that)
  have "apart g src"
    using gr(9)
  proof
    assume "\<forall>c\<in>set (fcols g). next_arr h \<le> carr c"
    then show ?thesis using wf_frame_old [OF assms(2)] by (rule apart_fresh)
  qed (use d(4) in \<open>simp add: apart_def\<close>)
  then show thesis
    using False gr d(3) by (intro that [of g h1]) (auto simp: append_base_def Compatible_def)
qed

text \<open>
  C33.  \<open>AppendFrame(dst, src)\<close> returns a frame whose rows are those of \<open>dst\<close> followed by those
  of \<open>src\<close>, whether it writes into spare capacity of \<open>dst\<close>, reallocates, or starts from the zero
  frame; the frame it returns is again well formed with separate columns, so appends can be
  chained.
\<close>

theorem AppendFrame_rows:
  assumes "wf_optab makeOps" and src: "wf_frame h src" and "fcols src \<noteq> []"
    and "frame_IsZero dst \<or> wf_frame h dst \<and> sep dst \<and> Compatible dst src \<and> apart dst src"
    and "int (flen dst) + int (flen src) \<le> 2 ^ 62"
  shows "\<exists>g h'. AppendFrame makeOps zero dst src h = Some (Ret (g, h')) \<and>
    rows h' g = (if frame_IsZero dst then [] else rows h dst) @ rows h src \<and> wf_frame h' g \<and> sep g"
proof -
  let ?n = "append_base dst"
  obtain g h1 where g: "(if frame_IsZero dst
        then Some (go_bind (frame_Make makeOps zero (frame_type src) (int (flen src)) (int (flen src)) h)
               (\<lambda>(g, h'). Ret (g, 0, int (flen src), h')))
        else frame_grow makeOps zero dst (int (flen src)) h) = Some (Ret (g, int ?n, int (?n + flen src), h1))"
    "Compatible g src" "flen g = ?n + flen src" "wf_frame h1 g" "sep g"
    "\<And>k. k < ?n \<Longrightarrow> row h1 g k = row h dst k"
    "\<And>a. a < next_arr h \<Longrightarrow> arrays h1 a = arrays h a" "next_arr h \<le> next_arr h1" "apart g src"
    by (rule append_target [OF assms]) (rule that)
  have fit: "int (?n + flen src) \<le> int (fcap g)" using g(3,4) by (simp add: wf_frame_def)
  have le: "int ?n \<le> int (?n + flen src)" by simp
  obtain w where w: "frame_Slice g (int ?n) (int (?n + flen src)) = Ret w" "fcols w = fcols g"
    "flen w = nat (int (?n + flen src) - int ?n)" "fcap w = fcap g - nat (int ?n)"
    "foff w = foff g + nat (int ?n)" "fprefix w = fprefix g"
    "\<And>h k. row h w k = row h g (nat (int ?n) + k)" "\<And>h. wf_frame h g \<Longrightarrow> wf_frame h w"
    by (rule frame_Slice_spec [OF of_nat_0_le_iff le fit]) (rule that)
  have lw: "flen w = flen src" using w(3) by simp
  have src1: "wf_frame h1 src" using wf_frame_mono [OF src g(8)] g(7) by simp
  have cond: "Compatible w src" "fcols w \<noteq> []" "sep w" "apart w src"
    using g(2,5,9) w(2) assms(3) by (auto simp: Compatible_def sep_def apart_def)
  obtain h' where cp: "frame_Copy h1 w src = Ret (h', min (flen w) (flen src))"
    "\<And>k. k < fcap w \<Longrightarrow> row h' w k = (if k < min (flen w) (flen src) then row h1 src k else row h1 w k)"
    "next_arr h' = next_arr h1" "\<And>a. length (arrays h' a) = length (arrays h1 a)"
    "\<And>c l. c \<in> set (fcols w) \<Longrightarrow> l < foff w \<Longrightarrow> cell h' c l = cell h1 c l"
    using frame_Copy_spec [OF w(8) [OF g(4)] src1 cond] by metis
  have e: "AppendFrame makeOps zero dst src h = Some (Ret (g, h'))"
    using w(1) cp(1) by (simp add: AppendFrame_def g(1))
  have "row h' g k = (if k < ?n then row h dst k else row h src (k - ?n))" if k: "k < ?n + flen src" for k
  proof (cases "k < ?n")
    case True
    have "row h' g k = row h1 g k" using cp(5) w(2,5) True by (simp add: row_def)
    with g(6) True show ?thesis by simp
  next
    case False
    have "row h1 src (k - ?n) = row h src (k - ?n)"
      using wf_frame_old [OF src] g(7) by (intro row_cong) auto
    moreover have "k - ?n < fcap w" using w(4) g(3,4) k False by (auto simp: wf_frame_def)
    moreover have "k - ?n < flen src" using k False by linarith
    ultimately show ?thesis using cp(2) [of "k - ?n"] lw w(7) False by simp
  qed
  then have "rows h' g = (if frame_IsZero dst then [] else rows h dst) @ rows h src"
    using g(3) by (auto simp: list_eq_iff_nth_eq nth_append append_base_def)
  moreover have "wf_frame h' g" using wf_frame_mono [OF g(4), of h'] cp(3,4) by simp
  ultimately show ?thesis using e g(5) by blast
qed

theorem AppendFrame_rows_witness:
  "\<exists>g h'. AppendFrame (\<lambda>_. None) (\<lambda>_. 0)
       \<lparr>fdata = None, foff = 0, flen = 0, fcap = 0, fprefix = 0\<rparr>
       \<lparr>fdata = Some [\<lparr>ctyp = TBasic ''int'', carr = 0, cbase = 0, vlen = 4, vcap = 4, cops = (no_ops :: int ops)\<rparr>],
        foff = 1, flen = 2, fcap = 3, fprefix = 0\<rparr> \<lparr>arrays = (\<lambda>_. [1, 2, 3, 4]), next_arr = 1\<rparr> = Some (Ret (g, h')) \<and>
     rows h' g = [[2], [3]] \<and> wf_frame h' g \<and> sep g"
proof -
  let ?d = "\<lparr>fdata = None, foff = 0, flen = 0, fcap = 0, fprefix = 0\<rparr> :: int frame"
  let ?s = "\<lparr>fdata = Some [\<lparr>ctyp = TBasic ''int'', carr = 0, cbase = 0, vlen = 4, vcap = 4, cops = (no_ops :: int ops)\<rparr>],
        foff = 1, flen = 2, fcap = 3, fprefix = 0\<rparr>"
  let ?h = "\<lparr>arrays = (\<lambda>_. [1, 2, 3, 4::int]), next_arr = 1\<rparr>"
  have "\<exists>g h'. AppendFrame (\<lambda>_. None) (\<lambda>_. 0) ?d ?s ?h = Some (Ret (g, h')) \<and>
      rows h' g = (if frame_IsZero ?d then [] else rows ?h ?d) @ rows ?h ?s \<and> wf_frame h' g \<and> sep g"
    by (rule AppendFrame_rows) (auto simp: wf_optab_def wf_frame_def wf_col_def fcols_def frame_IsZero_def)
  then show ?thesis by (simp add: rows_def row_def fcols_def cell_def frame_IsZero_def numeral_2_eq_2)
qed

section \<open>Order, hash and exchange of rows\<close>

text \<open>
  The order that \<open>Less\<close> computes: lexicographic on the key columns, by the order of each column.
\<close>

fun row_less :: "('v \<Rightarrow> 'v \<Rightarrow> bool) list \<Rightarrow> 'v list \<Rightarrow> 'v list \<Rightarrow> bool" where
  "row_less [] xs ys = False"
| "row_less (lt # lts) (x # xs) (y # ys) = (lt x y \<or> (\<not> lt y x \<and> row_less lts xs ys))"
| "row_less _ _ _ = False"

definition key_orders :: "'v frame \<Rightarrow> ('v \<Rightarrow> 'v \<Rightarrow> bool) list" where
  "key_orders f = map (\<lambda>c. the (Less_op (cops c))) (take (nat (fprefix f + 1)) (fcols f))"

definition comparable :: "'v frame \<Rightarrow> bool" where
  "comparable f \<longleftrightarrow> 0 \<le> fprefix f \<and> fprefix f < int (length (fcols f)) \<and>
     (\<forall>c\<in>set (take (nat (fprefix f + 1)) (fcols f)). Less_op (cops c) \<noteq> None) \<and>
     (\<forall>c\<in>set (fcols f). foff f + flen f \<le> vlen c)"

lemma less_loop_row_less:
  assumes "\<forall>c\<in>set cs. Less_op (cops c) \<noteq> None \<and> i < vlen c \<and> j < vlen c"
    and "fin = Ret (row_less ls (map (\<lambda>c. cell h c i) ds) (map (\<lambda>c. cell h c j) ds))"
  shows "less_loop h (int i) (int j) fin cs =
    Ret (row_less (map (\<lambda>c. the (Less_op (cops c))) cs @ ls)
      (map (\<lambda>c. cell h c i) (cs @ ds)) (map (\<lambda>c. cell h c j) (cs @ ds)))"
  using assms(1)
proof (induction cs)
  case (Cons c cs)
  then obtain lt where "Less_op (cops c) = Some lt" by auto
  with Cons show ?case by (auto simp: col_Less_def)
qed (simp add: assms(2))

text \<open>
  \<open>Frame.Less\<close> compares rows lexicographically by their key columns: on a frame all of whose
  key columns have an order, and for rows within its length, it returns whether row \<open>i\<close> precedes
  row \<open>j\<close>, reading the window of the frame wherever it starts.
\<close>

theorem frame_Less_lex:
  assumes "comparable f" and "i < flen f" and "j < flen f"
  shows "frame_Less h f (int i) (int j) = Ret (row_less (key_orders f) (row h f i) (row h f j))"
proof -
  define p where "p = nat (fprefix f)"
  have p: "fprefix f = int p" "p < length (fcols f)" using assms(1) by (auto simp: comparable_def p_def)
  let ?c = "fcols f ! p" and ?cs = "take p (fcols f)"
  have split: "fcols f = ?cs @ ?c # drop (Suc p) (fcols f)" using p(2) by (rule id_take_nth_drop)
  have key: "take (nat (fprefix f + 1)) (fcols f) = ?cs @ [?c]"
    using p by (simp add: take_Suc_conv_app_nth nat_add_distrib)
  have len: "\<forall>c\<in>set (fcols f). i + foff f < vlen c \<and> j + foff f < vlen c"
    using assms by (fastforce simp: comparable_def)
  obtain lt where lt: "Less_op (cops ?c) = Some lt" using assms(1) key by (auto simp: comparable_def)
  have fin: "go_bind (list_index (fcols f) (fprefix f)) (\<lambda>c. col_Less h c (int (i + foff f)) (int (j + foff f)))
      = Ret (row_less [lt] (map (\<lambda>c. cell h c (i + foff f)) (?c # drop (Suc p) (fcols f)))
          (map (\<lambda>c. cell h c (j + foff f)) (?c # drop (Suc p) (fcols f))))"
    using p lt len nth_mem [OF p(2)] by (auto simp: list_index_def col_Less_def simp del: of_nat_add)
  have all: "\<forall>c\<in>set ?cs. Less_op (cops c) \<noteq> None \<and> i + foff f < vlen c \<and> j + foff f < vlen c"
    using assms(1) key len by (auto simp: comparable_def dest: in_set_takeD)
  have rows: "row h f k = map (\<lambda>c. cell h c (k + foff f)) (?cs @ ?c # drop (Suc p) (fcols f))" for k
    unfolding row_def by (subst split) (simp add: add.commute)
  have orders: "key_orders f = map (\<lambda>c. the (Less_op (cops c))) ?cs @ [lt]"
    unfolding key_orders_def key using lt by simp
  have "nat (fprefix f) = p" using p by simp
  then show ?thesis
    using less_loop_row_less [OF all fin] unfolding frame_Less_def Let_def rows orders by simp
qed

theorem frame_Less_lex_witness:
  "frame_Less \<lparr>arrays = (\<lambda>_. [5, 1, 2, 4::int]), next_arr = 1\<rparr>
     \<lparr>fdata = Some [\<lparr>ctyp = TBasic ''int'', carr = 0, cbase = 0, vlen = 4, vcap = 4,
        cops = no_ops\<lparr>Less_op := Some (<)\<rparr>\<rparr>], foff = 1, flen = 3, fcap = 3, fprefix = 0\<rparr> 0 2 = Ret True"
proof -
  let ?f = "\<lparr>fdata = Some [\<lparr>ctyp = TBasic ''int'', carr = 0, cbase = 0, vlen = 4, vcap = 4,
        cops = no_ops\<lparr>Less_op := Some ((<) :: int \<Rightarrow> int \<Rightarrow> bool)\<rparr>\<rparr>], foff = 1, flen = 3, fcap = 3, fprefix = 0\<rparr>"
  have "frame_Less \<lparr>arrays = (\<lambda>_. [5, 1, 2, 4]), next_arr = 1\<rparr> ?f (int 0) (int 2) =
      Ret (row_less (key_orders ?f) (row \<lparr>arrays = (\<lambda>_. [5, 1, 2, 4]), next_arr = 1\<rparr> ?f 0)
        (row \<lparr>arrays = (\<lambda>_. [5, 1, 2, 4]), next_arr = 1\<rparr> ?f 2))"
    by (rule frame_Less_lex) (simp_all add: comparable_def fcols_def)
  then show ?thesis by (simp add: key_orders_def fcols_def row_def cell_def)
qed

lemma swap_cols_spec:
  assumes "list_all (wf_col h n) cs" and "distinct (map carr cs)"
    and "\<forall>c\<in>set cs. i < vlen c \<and> j < vlen c"
  shows "\<exists>h'. swap_cols (int i) (int j) cs h = Ret h' \<and> next_arr h' = next_arr h \<and>
    (\<forall>a. length (arrays h' a) = length (arrays h a)) \<and>
    (\<forall>a. a \<notin> carr ` set cs \<longrightarrow> arrays h' a = arrays h a) \<and>
    (\<forall>c\<in>set cs. \<forall>k<vcap c. cell h' c k = cell h c (if k = i then j else if k = j then i else k))"
  using assms
proof (induction cs arbitrary: h)
  case (Cons c cs)
  let ?g = "write_arr h c i [cell h c j]" and ?h = "write_arr (write_arr h c i [cell h c j]) c j [cell h c i]"
  have c: "cbase c + vcap c \<le> length (arrays h (carr c))" "i < vcap c" "j < vcap c"
    using Cons.prems by (auto simp: wf_col_def)
  have lg: "length (arrays ?g a) = length (arrays h a)" for a using c by (simp add: length_arrays_write)
  have lh: "length (arrays ?h a) = length (arrays h a)" for a
    using c lg by (subst length_arrays_write) auto
  have sw: "col_swap h c (int i) (int j) = Ret ?h" using Cons.prems(3) by (simp add: col_swap_def)
  have own: "cell ?h c k = cell h c (if k = i then j else if k = j then i else k)" if "k < vcap c" for k
    using that c lg by (auto simp: cell_write_same)
  have "list_all (wf_col ?h n) cs" using Cons.prems(1) lh by (auto simp: list_all_iff wf_col_def)
  from Cons.IH [OF this] Cons.prems obtain h' where IH: "swap_cols (int i) (int j) cs ?h = Ret h'"
    "next_arr h' = next_arr ?h" "\<forall>a. length (arrays h' a) = length (arrays ?h a)"
    "\<forall>a. a \<notin> carr ` set cs \<longrightarrow> arrays h' a = arrays ?h a"
    "\<forall>c\<in>set cs. \<forall>k<vcap c. cell h' c k = cell ?h c (if k = i then j else if k = j then i else k)" by auto
  have "cell h' c k = cell ?h c k" for k using IH(4) Cons.prems(2) by (simp add: cell_def)
  moreover have "cell ?h d k = cell h d k" if "d \<in> set cs" for d k
  proof -
    have "carr d \<noteq> carr c" using Cons.prems(2) that by (metis distinct.simps(2) imageI list.simps(9) set_map)
    then show ?thesis by (simp add: cell_write_other)
  qed
  ultimately show ?case using IH sw own lh by simp
qed simp

text \<open>
  \<open>Frame.Swap(i, j)\<close> exchanges rows \<open>i\<close> and \<open>j\<close> of a frame that starts at the base of its
  columns, and leaves every other row in place; this is what sorting a frame needs.
\<close>

theorem frame_Swap_rows:
  assumes "wf_frame h f" and "sep f" and "foff f = 0" and "\<forall>c\<in>set (fcols f). flen f \<le> vlen c"
    and "i < flen f" and "j < flen f"
  shows "\<exists>h'. frame_Swap h f (int i) (int j) = Ret h' \<and>
    rows h' f = (rows h f)[i := rows h f ! j, j := rows h f ! i]"
proof -
  have "\<exists>h'. swap_cols (int i) (int j) (fcols f) h = Ret h' \<and> next_arr h' = next_arr h \<and>
    (\<forall>a. length (arrays h' a) = length (arrays h a)) \<and>
    (\<forall>a. a \<notin> carr ` set (fcols f) \<longrightarrow> arrays h' a = arrays h a) \<and>
    (\<forall>c\<in>set (fcols f). \<forall>k<vcap c. cell h' c k = cell h c (if k = i then j else if k = j then i else k))"
    using assms by (intro swap_cols_spec [where n = "foff f + fcap f"]) (auto simp: wf_frame_def sep_def)
  then obtain h' where h': "frame_Swap h f (int i) (int j) = Ret h'"
    and c: "\<forall>c\<in>set (fcols f). \<forall>k<vcap c. cell h' c k = cell h c (if k = i then j else if k = j then i else k)"
    using assms(3) by (auto simp: frame_Swap_def)
  have "\<forall>c\<in>set (fcols f). flen f \<le> vcap c" using assms(1,3) by (auto simp: wf_frame_def wf_col_def list_all_iff)
  then have "row h' f k = row h f (if k = i then j else if k = j then i else k)" if "k < flen f" for k
    using c that assms(3) by (auto simp: row_def)
  then have "rows h' f = (rows h f)[i := rows h f ! j, j := rows h f ! i]"
    using assms(5,6) by (auto simp: list_eq_iff_nth_eq nth_list_update)
  with h' show ?thesis by blast
qed

theorem frame_Swap_rows_witness:
  "\<exists>h'. frame_Swap \<lparr>arrays = (\<lambda>_. [5, 1, 2, 4::int]), next_arr = 1\<rparr>
     \<lparr>fdata = Some [\<lparr>ctyp = TBasic ''int'', carr = 0, cbase = 0, vlen = 4, vcap = 4, cops = no_ops\<rparr>],
      foff = 0, flen = 3, fcap = 4, fprefix = 0\<rparr> 0 2 = Ret h' \<and>
    rows h' \<lparr>fdata = Some [\<lparr>ctyp = TBasic ''int'', carr = 0, cbase = 0, vlen = 4, vcap = 4, cops = no_ops\<rparr>],
      foff = 0, flen = 3, fcap = 4, fprefix = 0\<rparr> = [[2], [1], [5]]"
proof -
  let ?f = "\<lparr>fdata = Some [\<lparr>ctyp = TBasic ''int'', carr = 0, cbase = 0, vlen = 4, vcap = 4, cops = (no_ops :: int ops)\<rparr>],
      foff = 0, flen = 3, fcap = 4, fprefix = 0\<rparr>" and ?h = "\<lparr>arrays = (\<lambda>_. [5, 1, 2, 4::int]), next_arr = 1\<rparr>"
  have "\<exists>h'. frame_Swap ?h ?f (int 0) (int 2) = Ret h' \<and>
      rows h' ?f = (rows ?h ?f)[0 := rows ?h ?f ! 2, 2 := rows ?h ?f ! 0]"
    by (rule frame_Swap_rows) (auto simp: wf_frame_def wf_col_def sep_def fcols_def)
  then show ?thesis by (simp add: rows_def row_def fcols_def cell_def numeral_3_eq_3 numeral_2_eq_2)
qed

text \<open>
  C40.  \<open>Frame.Swap\<close> subtracts the offset of the frame where \<open>Less\<close> and \<open>Index\<close> add it: on a
  frame with a column that was sliced from a positive offset, exchanging the first row with any
  other row panics, although both rows are within the frame.
\<close>

theorem frame_Swap_sliced_panics:
  assumes "fcols f \<noteq> []" and "0 < foff f" and "j < flen f"
  shows "\<exists>msg. frame_Swap h f 0 (int j) = Panic msg"
  using assms by (cases "fcols f") (auto simp: frame_Swap_def col_swap_def)

theorem frame_Swap_sliced_panics_witness:
  "\<exists>msg. frame_Swap \<lparr>arrays = (\<lambda>_. [5, 1, 2, 4::int]), next_arr = 1\<rparr>
     \<lparr>fdata = Some [\<lparr>ctyp = TBasic ''int'', carr = 0, cbase = 0, vlen = 4, vcap = 4, cops = no_ops\<rparr>],
      foff = 1, flen = 3, fcap = 3, fprefix = 0\<rparr> 0 (int 1) = Panic msg"
  by (rule frame_Swap_sliced_panics) (simp_all add: fcols_def)

end
