(* ===== verification/SliceOps.thy ===== *)
theory SliceOps
  imports SliceIO Frame "HOL-Library.AList"
begin

text \<open>
  \<open>slice.go\<close>, \<open>reduce.go\<close>, \<open>reshuffle.go\<close>, \<open>reshard.go\<close>, \<open>accum.go\<close> and \<open>scan.go\<close>: the slice
  operations, their type checks and their readers.

  Slices are pointers in the source; here they are addresses, and a map \<open>sl\<close> takes an address to
  the record \<open>Slice\<close>, whose fields are the results of the methods of the interface \<open>Slice\<close> (which
  do not change).  A constructor such as \<open>slice_Map\<close> checks its arguments as the source does, draws
  a name, and returns the record; a failed check is a panic.  The panics of \<open>typecheck\<close> carry the
  fixed part of their message.

  A reader of an operation is a state and a method \<open>Read\<close> as in \<open>SliceIO\<close>; rows are lists of
  column values.  A user's function that fills or consumes vectors is a parameter.  \<open>outT\<close> is the
  type of the frame passed to \<open>Read\<close> and \<open>opT\<close> the type of the operation.
\<close>

section \<open>Pragmas\<close>

datatype pragma = Exclusive | ExperimentalMaterialize | Procs int | Pragmas "pragma list"

fun pragma_Procs :: "pragma \<Rightarrow> int" where
  "pragma_Procs Exclusive = 1"
| "pragma_Procs ExperimentalMaterialize = 1"
| "pragma_Procs (Procs n) = n"
| "pragma_Procs (Pragmas ps) = fold (\<lambda>n need. if need < n then n else need) (map pragma_Procs ps) 1"

fun pragma_Exclusive :: "pragma \<Rightarrow> bool" where
  "pragma_Exclusive Exclusive \<longleftrightarrow> True"
| "pragma_Exclusive ExperimentalMaterialize \<longleftrightarrow> False"
| "pragma_Exclusive (Procs n) \<longleftrightarrow> False"
| "pragma_Exclusive (Pragmas ps) \<longleftrightarrow> list_ex id (map pragma_Exclusive ps)"

fun pragma_Materialize :: "pragma \<Rightarrow> bool" where
  "pragma_Materialize Exclusive \<longleftrightarrow> False"
| "pragma_Materialize ExperimentalMaterialize \<longleftrightarrow> True"
| "pragma_Materialize (Procs n) \<longleftrightarrow> False"
| "pragma_Materialize (Pragmas ps) \<longleftrightarrow> list_ex id (map pragma_Materialize ps)"

section \<open>Names\<close>

record Name =
  Op :: string
  nmFile :: string
  nmLine :: nat
  Index :: nat

text \<open>
  The global state of the package that names depend on: the helper functions and the counters.
  A frame of the call stack is its function, file and line.
\<close>

record pkg =
  helpers :: "string set"
  sliceNameIndexerMap :: "string \<times> string \<times> nat \<Rightarrow> nat"

type_synonym stackframe = "string \<times> string \<times> nat"

text \<open>\<open>Helper\<close>, called by a function named \<open>f\<close>.\<close>

definition slice_Helper :: "string \<Rightarrow> pkg \<Rightarrow> pkg" where
  "slice_Helper f g = g\<lparr>helpers := insert f (helpers g)\<rparr>"

definition newNameIndex :: "string \<Rightarrow> string \<Rightarrow> nat \<Rightarrow> pkg \<Rightarrow> pkg \<times> nat" where
  "newNameIndex op file line g =
     (let key = (op, file, line); c = sliceNameIndexerMap g key
      in (g\<lparr>sliceNameIndexerMap := (sliceNameIndexerMap g)(key := Suc c)\<rparr>, c))"

text \<open>The loop over the frames: the first frame after the last helper.\<close>

fun find_frame :: "string set \<Rightarrow> stackframe option \<Rightarrow> stackframe list \<Rightarrow> stackframe option" where
  "find_frame hs found [] = found"
| "find_frame hs found (fr # frs) =
     (let found = (case found of None \<Rightarrow> Some fr | Some x \<Rightarrow> Some x)
      in find_frame hs (if fst fr \<in> hs then None else found) frs)"

definition MakeName :: "string \<Rightarrow> stackframe list \<Rightarrow> pkg \<Rightarrow> (pkg \<times> Name) go" where
  "MakeName op frames g =
     (if frames = [] then Panic ''bigslice: no callers found''
      else let (file, line) = (case find_frame (helpers g) None (take 50 frames) of None \<Rightarrow> ('''', 0) | Some (f, fl, ln) \<Rightarrow> (fl, ln));
               (g', i) = newNameIndex op file line g
           in Ret (g', \<lparr>Op = op, nmFile = file, nmLine = line, Index = i\<rparr>))"

section \<open>Slices\<close>

type_synonym 'v Partitioner = "'v list list \<Rightarrow> int \<Rightarrow> int list go"

record 'v Dep =
  dpSlice :: nat
  dpShuffle :: bool
  dpPartitioner :: "'v Partitioner option"
  dpExpand :: bool

datatype ShardType = HashShard | RangeShard

text \<open>The files of a cached slice (\<open>internal/slicecache\<close>; its operations are in \<open>SliceCache\<close>).\<close>

record FileShardCache =
  fcPrefix :: string
  fcNumShards :: nat
  shardIsCached :: "bool list"
  requireAll :: bool

text \<open>The implementations of the interface, with the fields that their readers use.\<close>

datatype 'v impl =
    constSlice "'v list list"
  | readerFuncSlice "'v sfunc" rtype
  | writerFuncSlice "'v sfunc" rtype
  | mapSlice "'v sfunc"
  | filterSlice "'v sfunc"
  | flatmapSlice "'v sfunc"
  | foldSlice "'v sfunc"
  | headSlice int
  | scanSlice
  | prefixSlice nat
  | reduceSlice
  | reshuffleSlice
  | reshardSlice
  | cogroupSlice
  | cacheSlice FileShardCache
  | readCacheSlice FileShardCache
  | Result "nat list"

record 'v Slice =
  slImpl :: "'v impl"
  slName :: Name
  slType :: stype
  slNumShard :: int
  slShardType :: ShardType
  slDeps :: "'v Dep list"
  slCombiner :: "'v sfunc"
  slPragma :: "pragma option"

type_synonym 'v slices = "nat \<Rightarrow> 'v Slice"

definition singleDep :: "nat \<Rightarrow> bool \<Rightarrow> 'v Dep" where
  "singleDep s shuffle = \<lparr>dpSlice = s, dpShuffle = shuffle, dpPartitioner = None, dpExpand = False\<rparr>"

definition typ_of :: "'v slices \<Rightarrow> nat \<Rightarrow> stype" where
  "typ_of sl s = Typed (cols (slType (sl s))) (Prefix (slType (sl s)))"

definition typeOfError :: rtype where
  "typeOfError = TNamed ''error'' (TInterface [''Error'']) [] []"

definition is_int_kind :: "rtype \<Rightarrow> bool" where
  "is_int_kind t \<longleftrightarrow> underlying t = TBasic ''int''"

subsection \<open>Constructors\<close>

definition slice_Const :: "stackframe list \<Rightarrow> int \<Rightarrow> rtype list \<Rightarrow> 'v list list \<Rightarrow> pkg \<Rightarrow> (pkg \<times> 'v Slice) go" where
  "slice_Const frames nshard columns rws g =
     (if columns = [] then Panic ''const: must have at least one column''
      else go_bind (MakeName ''const'' frames g) (\<lambda>(g, name).
        if nshard < 1 then Panic ''const: shard must be >= 1''
        else case typecheck_Slices columns of
            None \<Rightarrow> Panic ''const: invalid slice inputs''
          | Some t \<Rightarrow> Ret (g, \<lparr>slImpl = constSlice rws, slName = name, slType = Typed (cols t) 1, slNumShard = nshard,
              slShardType = HashShard, slDeps = [], slCombiner = sfunc_Nil, slPragma = None\<rparr>)))"

definition slice_ReaderFunc ::
  "stackframe list \<Rightarrow> int \<Rightarrow> (rtype \<times> ('v list \<Rightarrow> 'v list go)) option \<Rightarrow> pragma list \<Rightarrow> pkg \<Rightarrow> (pkg \<times> 'v Slice) go" where
  "slice_ReaderFunc frames nshard read prags g =
     go_bind (MakeName ''reader'' frames g) (\<lambda>(g, name).
       let (f, ok) = sfunc_Of read
       in if \<not> ok \<or> NumOut (In f) < 3 then Panic ''readerfunc: invalid reader function type''
          else go_bind (Out (In f) 0) (\<lambda>t0.
            if \<not> is_int_kind t0 then Panic ''readerfunc: invalid reader function type''
            else go_bind (Out (OutT f) 0) (\<lambda>o0.
              if \<not> is_int_kind o0 then Panic ''readerfunc: function does not return (int, error)''
              else go_bind (Out (OutT f) 1) (\<lambda>o1.
                if o1 \<noteq> typeOfError then Panic ''readerfunc: function does not return (int, error)''
                else go_bind (Out (In f) 1) (\<lambda>stateType.
                  go_bind (stype_Slice (In f) 2 (NumOut (In f))) (\<lambda>arg.
                    go_bind (Devectorize arg) (\<lambda>t. case t of
                        None \<Rightarrow> Panic ''readerfunc: function is not vectorized''
                      | Some t \<Rightarrow> Ret (g, \<lparr>slImpl = readerFuncSlice f stateType, slName = name, slType = Typed (cols t) 1,
                          slNumShard = nshard, slShardType = HashShard, slDeps = [], slCombiner = sfunc_Nil,
                          slPragma = Some (Pragmas prags)\<rparr>))))))))"

definition slice_WriterFunc ::
  "stackframe list \<Rightarrow> 'v slices \<Rightarrow> nat \<Rightarrow> (rtype \<times> ('v list \<Rightarrow> 'v list go)) option \<Rightarrow> pkg \<Rightarrow> (pkg \<times> 'v Slice) go" where
  "slice_WriterFunc frames sl s write g =
     go_bind (MakeName ''writer'' frames g) (\<lambda>(g, name).
       let (f, ok) = sfunc_Of write; t = slType (sl s); bad = Panic ''writerfunc: invalid writer function type''
       in if \<not> ok \<or> NumOut (In f) \<noteq> 3 + NumOut t then bad
          else go_bind (Out (In f) 0) (\<lambda>t0. go_bind (Out (In f) 2) (\<lambda>t2.
            if \<not> is_int_kind t0 \<or> t2 \<noteq> typeOfError then bad
            else go_bind (Out (In f) 1) (\<lambda>stateType.
              go_bind (for_all (\<lambda>i. go_bind (Out t i) (\<lambda>x. go_bind (Out (In f) (i + 3)) (\<lambda>y. Ret (TSlice x = y)))) [0 ..< nat (NumOut t)])
                (\<lambda>match.
                  if \<not> match then bad
                  else if NumOut (OutT f) \<noteq> 1 then bad
                  else go_bind (Out (OutT f) 0) (\<lambda>o0.
                    if o0 \<noteq> typeOfError then bad
                    else Ret (g, (sl s)\<lparr>slImpl := writerFuncSlice f stateType, slName := name, slDeps := [singleDep s False],
                      slCombiner := sfunc_Nil, slPragma := None\<rparr>)))))))"

definition slice_Map ::
  "stackframe list \<Rightarrow> 'v slices \<Rightarrow> nat \<Rightarrow> (rtype \<times> ('v list \<Rightarrow> 'v list go)) option \<Rightarrow> pragma list \<Rightarrow> pkg \<Rightarrow> (pkg \<times> 'v Slice) go" where
  "slice_Map frames sl s func prags g =
     go_bind (MakeName ''map'' frames g) (\<lambda>(g, name).
       let (f, ok) = sfunc_Of func
       in if \<not> ok then Panic ''map: invalid map function''
          else go_bind (CanApply f (slType (sl s))) (\<lambda>app.
            if \<not> app then Panic ''map: function does not match input slice type''
            else if NumOut (OutT f) = 0 then Panic ''map: need at least one output column''
            else Ret (g, (sl s)\<lparr>slImpl := mapSlice f, slName := name, slType := Typed (cols (OutT f)) (Prefix (slType (sl s))),
              slShardType := HashShard, slDeps := [singleDep s False], slCombiner := sfunc_Nil, slPragma := Some (Pragmas prags)\<rparr>)))"

definition slice_Filter ::
  "stackframe list \<Rightarrow> 'v slices \<Rightarrow> nat \<Rightarrow> (rtype \<times> ('v list \<Rightarrow> 'v list go)) option \<Rightarrow> pragma list \<Rightarrow> pkg \<Rightarrow> (pkg \<times> 'v Slice) go" where
  "slice_Filter frames sl s pred prags g =
     go_bind (MakeName ''filter'' frames g) (\<lambda>(g, name).
       let (f, ok) = sfunc_Of pred
       in if \<not> ok then Panic ''filter: invalid predicate function''
          else go_bind (CanApply f (slType (sl s))) (\<lambda>app.
            if \<not> app then Panic ''filter: function does not match input slice type''
            else if NumOut (OutT f) \<noteq> 1 then Panic ''filter: predicate must return a single boolean value''
            else go_bind (Out (OutT f) 0) (\<lambda>o0.
              if underlying o0 \<noteq> TBasic ''bool'' then Panic ''filter: predicate must return a single boolean value''
              else Ret (g, (sl s)\<lparr>slImpl := filterSlice f, slName := name, slDeps := [singleDep s False],
                slCombiner := sfunc_Nil, slPragma := Some (Pragmas prags)\<rparr>))))"

definition slice_Flatmap ::
  "stackframe list \<Rightarrow> 'v slices \<Rightarrow> nat \<Rightarrow> (rtype \<times> ('v list \<Rightarrow> 'v list go)) option \<Rightarrow> pragma list \<Rightarrow> pkg \<Rightarrow> (pkg \<times> 'v Slice) go" where
  "slice_Flatmap frames sl s func prags g =
     go_bind (MakeName ''flatmap'' frames g) (\<lambda>(g, name).
       let (f, ok) = sfunc_Of func
       in if \<not> ok then Panic ''flatmap: invalid flatmap function''
          else go_bind (CanApply f (slType (sl s))) (\<lambda>app.
            if \<not> app then Panic ''flatmap: flatmap function does not match input slice type''
            else go_bind (Devectorize (OutT f)) (\<lambda>t. case t of
                None \<Rightarrow> Panic ''flatmap: flatmap function is not vectorized''
              | Some t \<Rightarrow> Ret (g, (sl s)\<lparr>slImpl := flatmapSlice f, slName := name, slType := Typed (cols t) (Prefix (slType (sl s))),
                  slShardType := HashShard, slDeps := [singleDep s False], slCombiner := sfunc_Nil, slPragma := Some (Pragmas prags)\<rparr>))))"

text \<open>\<open>canMakeAccumulatorForKey\<close> of \<open>accum.go\<close>.\<close>

definition canMakeAccumulatorForKey :: "rtype \<Rightarrow> bool" where
  "canMakeAccumulatorForKey t \<longleftrightarrow> underlying t \<in> {TBasic ''string'', TBasic ''int'', TBasic ''int64''}"

definition slice_Fold ::
  "stackframe list \<Rightarrow> 'v optab \<Rightarrow> 'v slices \<Rightarrow> nat \<Rightarrow> (rtype \<times> ('v list \<Rightarrow> 'v list go)) option \<Rightarrow> pkg \<Rightarrow> (pkg \<times> 'v Slice) go" where
  "slice_Fold frames makeOps sl s fld g =
     (let t = slType (sl s)
      in if NumOut t < 2 then Panic ''Fold can be applied only for slices with at least two columns''
         else go_bind (Out t 0) (\<lambda>key. go_bind (CanHash makeOps key) (\<lambda>ch.
           if \<not> ch then Panic ''fold: key type is not partitionable''
           else if \<not> canMakeAccumulatorForKey key then Panic ''fold: key type cannot be accumulated''
           else go_bind (MakeName ''fold'' frames g) (\<lambda>(g, name).
             let (f, ok) = sfunc_Of fld
             in if \<not> ok then Panic ''fold: invalid fold function''
                else if NumOut (OutT f) \<noteq> 1 then Panic ''fold: fold functions must return exactly one value''
                else go_bind (stype_Slice t 1 (NumOut t)) (\<lambda>rest.
                  go_bind (typecheck_Equal (In f) (stype_Append (OutT f) rest)) (\<lambda>eq.
                    if \<not> eq then Panic ''fold: expected func(acc, t2, t3, ..., tn)''
                    else go_bind (Out (OutT f) 0) (\<lambda>acc.
                      Ret (g, (sl s)\<lparr>slImpl := foldSlice f, slName := name, slType := Typed [key, acc] (Prefix t),
                        slDeps := [singleDep s True], slCombiner := sfunc_Nil, slPragma := None\<rparr>))))))))"

definition slice_Head :: "stackframe list \<Rightarrow> 'v slices \<Rightarrow> nat \<Rightarrow> int \<Rightarrow> pkg \<Rightarrow> (pkg \<times> 'v Slice) go" where
  "slice_Head frames sl s n g =
     go_bind (MakeName (''head('' @ decimal_int n @ '')'') frames g) (\<lambda>(g, name).
       Ret (g, (sl s)\<lparr>slImpl := headSlice n, slName := name, slDeps := [singleDep s False], slCombiner := sfunc_Nil, slPragma := None\<rparr>))"

definition slice_Scan :: "stackframe list \<Rightarrow> 'v slices \<Rightarrow> nat \<Rightarrow> pkg \<Rightarrow> (pkg \<times> 'v Slice) go" where
  "slice_Scan frames sl s g =
     go_bind (MakeName ''scan'' frames g) (\<lambda>(g, name).
       Ret (g, (sl s)\<lparr>slImpl := scanSlice, slName := name, slType := Typed [] (Prefix (slType (sl s))), slDeps := [singleDep s False],
         slCombiner := sfunc_Nil, slPragma := None\<rparr>))"

text \<open>\<open>Prefixed\<close> embeds the slice it is given and so keeps its methods, the dependencies among them.\<close>

definition slice_Prefixed :: "'v slices \<Rightarrow> nat \<Rightarrow> int \<Rightarrow> 'v Slice go" where
  "slice_Prefixed sl s prefix =
     (if prefix < 1 then Panic ''prefixed: prefix must include at least one column''
      else if NumOut (slType (sl s)) < prefix then Panic ''prefixed: prefix is greater than number of columns''
      else Ret ((sl s)\<lparr>slImpl := prefixSlice s, slType := Typed (cols (slType (sl s))) prefix,
        slPragma := Some (case slPragma (sl s) of None \<Rightarrow> Pragmas [] | Some p \<Rightarrow> p)\<rparr>))"

text \<open>
  \<open>Unwrap\<close> follows the chain of \<open>Prefixed\<close> slices.  A slice is made after the slice it embeds, so
  the chain descends in the order in which slices were made; \<open>None\<close> stands for a chain that does
  not end.
\<close>

partial_function (option) Unwrap :: "'v slices \<Rightarrow> nat \<Rightarrow> nat option" where
  "Unwrap sl s = (case slImpl (sl s) of prefixSlice t \<Rightarrow> Unwrap sl t | _ \<Rightarrow> Some s)"

definition canMakeCombiningFrame :: "'v optab \<Rightarrow> stype \<Rightarrow> rtype list go" where
  "canMakeCombiningFrame makeOps t =
     go_bind (map_go (\<lambda>i. go_bind (Out t (int i)) (\<lambda>x. go_bind (CanHash makeOps x) (\<lambda>h.
         if \<not> h then Ret [x] else go_bind (CanCompare makeOps x) (\<lambda>c. Ret (if c then [] else [x])))))
       [0 ..< nat (Prefix t)]) (\<lambda>fails. Ret (concat fails))"

definition slice_Reduce ::
  "stackframe list \<Rightarrow> 'v optab \<Rightarrow> 'v slices \<Rightarrow> nat \<Rightarrow> (rtype \<times> ('v list \<Rightarrow> 'v list go)) option \<Rightarrow> pkg \<Rightarrow> (pkg \<times> 'v Slice) go" where
  "slice_Reduce frames makeOps sl s red g =
     (let t = slType (sl s)
      in if NumOut t - Prefix t \<noteq> 1 then Panic ''the slice must only have one 1 residual column''
         else go_bind (canMakeCombiningFrame makeOps t) (\<lambda>fails.
           if fails \<noteq> [] then Panic ''cannot combine values for keys of type''
           else let (f, ok) = sfunc_Of red; bad = Panic ''reduce: invalid reduce function''
                in if \<not> ok then bad
                   else go_bind (Out t (NumOut t - 1)) (\<lambda>oT.
                     if NumOut (In f) \<noteq> 2 \<or> cols (In f) \<noteq> [oT, oT] \<or> NumOut (OutT f) \<noteq> 1 \<or> cols (OutT f) \<noteq> [oT] then bad
                     else go_bind (MakeName ''reduce'' frames g) (\<lambda>(g, name).
                       Ret (g, (sl s)\<lparr>slImpl := reduceSlice, slName := name,
                         slDeps := [\<lparr>dpSlice = s, dpShuffle = True, dpPartitioner = None, dpExpand = True\<rparr>],
                         slCombiner := f, slPragma := None\<rparr>)))))"

definition slice_Reshuffle :: "stackframe list \<Rightarrow> 'v optab \<Rightarrow> 'v slices \<Rightarrow> nat \<Rightarrow> pkg \<Rightarrow> (pkg \<times> 'v Slice) go" where
  "slice_Reshuffle frames makeOps sl s g =
     go_bind (canMakeCombiningFrame makeOps (slType (sl s))) (\<lambda>fails.
       if fails \<noteq> [] then Panic ''cannot combine values for keys of type''
       else go_bind (MakeName ''reshuffle'' frames g) (\<lambda>(g, name).
         Ret (g, (sl s)\<lparr>slImpl := reshuffleSlice, slName := name, slDeps := [singleDep s True], slCombiner := sfunc_Nil,
           slPragma := None\<rparr>)))"

text \<open>
  The partitioner that \<open>Repartition\<close> makes of the user's function; \<open>ofInt\<close> and \<open>toInt\<close> convert
  between integers and values.
\<close>

definition repart :: "(int \<Rightarrow> 'v) \<Rightarrow> ('v \<Rightarrow> int) \<Rightarrow> 'v \<Rightarrow> 'v sfunc \<Rightarrow> 'v Partitioner" where
  "repart ofInt toInt ctx f rws nshard =
     map_go (\<lambda>r. go_bind (sfunc_Call f ctx (ofInt nshard # r)) (\<lambda>res.
       case res of [] \<Rightarrow> Panic ''index out of range'' | x # _ \<Rightarrow> Ret (toInt x))) rws"

definition slice_Repartition ::
  "(int \<Rightarrow> 'v) \<Rightarrow> ('v \<Rightarrow> int) \<Rightarrow> 'v \<Rightarrow> stackframe list \<Rightarrow> 'v slices \<Rightarrow> nat \<Rightarrow> (rtype \<times> ('v list \<Rightarrow> 'v list go)) option \<Rightarrow> pkg
     \<Rightarrow> (pkg \<times> 'v Slice) go" where
  "slice_Repartition ofInt toInt ctx frames sl s part g =
     (let (f, ok) = sfunc_Of part; typeOfInt = TBasic ''int''
      in if \<not> ok then Panic ''repartition: not a function''
         else go_bind (typecheck_Equal (In f) (stype_Append (stype_New [typeOfInt]) (slType (sl s)))) (\<lambda>eqIn.
           if \<not> eqIn then Panic ''repartition: unexpected function type''
           else go_bind (typecheck_Equal (OutT f) (stype_New [typeOfInt])) (\<lambda>eqOut.
             if \<not> eqOut then Panic ''repartition: unexpected function type''
             else go_bind (MakeName ''repartition'' frames g) (\<lambda>(g, name).
               Ret (g, (sl s)\<lparr>slImpl := reshuffleSlice, slName := name,
                 slDeps := [\<lparr>dpSlice = s, dpShuffle = True, dpPartitioner = Some (repart ofInt toInt ctx f), dpExpand = False\<rparr>],
                 slCombiner := sfunc_Nil, slPragma := None\<rparr>)))))"

text \<open>\<open>Reshard\<close> returns its argument (\<open>None\<close>) when the number of shards is the one asked for.\<close>

definition slice_Reshard ::
  "stackframe list \<Rightarrow> 'v optab \<Rightarrow> 'v slices \<Rightarrow> nat \<Rightarrow> int \<Rightarrow> pkg \<Rightarrow> (pkg \<times> 'v Slice option) go" where
  "slice_Reshard frames makeOps sl s nshard g =
     go_bind (canMakeCombiningFrame makeOps (slType (sl s))) (\<lambda>fails.
       if fails \<noteq> [] then Panic ''cannot combine values for keys of type''
       else if slNumShard (sl s) = nshard then Ret (g, None)
       else go_bind (MakeName ''reshard'' frames g) (\<lambda>(g, name).
         Ret (g, Some ((sl s)\<lparr>slImpl := reshardSlice, slName := name, slNumShard := nshard, slDeps := [singleDep s True],
           slCombiner := sfunc_Nil, slPragma := None\<rparr>))))"

text \<open>The loops of \<open>Cogroup\<close>: over the slices after the first, and over the key columns.\<close>

primrec cogroup_check :: "rtype list \<Rightarrow> stype list \<Rightarrow> unit go" where
  "cogroup_check keys [] = Ret ()"
| "cogroup_check keys (t # ts) =
     (if NumOut t = 0 then Panic ''cogroup: slice has no columns''
      else if Prefix t \<noteq> int (length keys) then Panic ''cogroup: prefix mismatch''
      else go_bind (for_all (\<lambda>j. go_bind (Out t j) (\<lambda>x. Ret (x = keys ! nat j))) [0 ..< length keys]) (\<lambda>match.
        if match then cogroup_check keys ts else Panic ''cogroup: key column type mismatch''))"

primrec cogroup_ops :: "'v optab \<Rightarrow> rtype list \<Rightarrow> unit go" where
  "cogroup_ops makeOps [] = Ret ()"
| "cogroup_ops makeOps (k # ks) =
     go_bind (CanHash makeOps k) (\<lambda>h. if \<not> h then Panic ''cogroup: key column type cannot be hashed''
       else go_bind (CanCompare makeOps k) (\<lambda>c. if \<not> c then Panic ''cogroup: key column type cannot be sorted'' else cogroup_ops makeOps ks))"

definition slice_Cogroup :: "stackframe list \<Rightarrow> 'v optab \<Rightarrow> 'v slices \<Rightarrow> nat list \<Rightarrow> pkg \<Rightarrow> (pkg \<times> 'v Slice) go" where
  "slice_Cogroup frames makeOps sl ss g = (case ss of
       [] \<Rightarrow> Panic ''cogroup: expected at least one slice''
     | s # rest \<Rightarrow>
         if NumOut (slType (sl s)) = 0 then Panic ''cogroup: slice has no columns''
         else go_bind (map_go (\<lambda>j. Out (slType (sl s)) (int j)) [0 ..< nat (Prefix (slType (sl s)))]) (\<lambda>keys.
           go_bind (cogroup_check keys (map (\<lambda>t. slType (sl t)) rest)) (\<lambda>_.
             go_bind (cogroup_ops makeOps keys) (\<lambda>_.
               go_bind (map_go (\<lambda>t. map_go (\<lambda>i. go_bind (Out (slType (sl t)) (int i)) (\<lambda>x. Ret (TSlice x)))
                   [length keys ..< nat (NumOut (slType (sl t)))]) ss) (\<lambda>vals.
                 go_bind (MakeName ''cogroup'' frames g) (\<lambda>(g, name).
                   Ret (g, \<lparr>slImpl = cogroupSlice, slName = name, slType = Typed (keys @ concat vals) (int (length keys)),
                     slNumShard = fold (\<lambda>t n. if n < slNumShard (sl t) then slNumShard (sl t) else n) ss 0,
                     slShardType = HashShard, slDeps = map (\<lambda>t. singleDep t True) ss, slCombiner = sfunc_Nil, slPragma = None\<rparr>)))))))"

section \<open>Readers\<close>

text \<open>\<open>Assignable\<close> guards every read.\<close>

definition type_guard :: "bool go \<Rightarrow> 's \<Rightarrow> ('s \<times> 'r list \<times> gerr) go option \<Rightarrow> ('s \<times> 'r list \<times> gerr) go option" where
  "type_guard a s body = run_bind (Some a) (\<lambda>ok. if ok then body else Some (Ret (s, [], Some ErrTypeError)))"

subsection \<open>Constants\<close>

text \<open>\<open>None\<close> is the empty reader.\<close>

definition const_Reader :: "'r list \<Rightarrow> nat \<Rightarrow> nat \<Rightarrow> 'r list option" where
  "const_Reader f nshard shard =
     (let n = length f
      in if n = 0 then None
         else let shardn = n div nshard + 1; lo = shardn * shard; hi = lo + shardn
              in if n \<le> lo then None else let hi = (if n \<le> hi then n else hi) in Some (take (hi - lo) (drop lo f)))"

definition const_Read :: "stype \<Rightarrow> stype \<Rightarrow> ('r list, 'r) reader" where
  "const_Read opT outT f n = type_guard (Assignable opT outT) f
     (let m = length f; k = min n m in Some (Ret (drop k f, take k f, if m = 0 then Some EOF else None)))"

subsection \<open>Reader and writer functions\<close>

text \<open>\<open>temp\<close> is \<open>errors.IsTemporary\<close>; \<open>st0\<close> the zero value (or the new allocation) of the state.\<close>

record 'st readerFuncReader =
  rf_state :: "'st option"
  rf_err :: gerr
  consecutiveEmptyCalls :: nat

definition readerfunc_Read ::
  "(goerror \<Rightarrow> bool) \<Rightarrow> 'st \<Rightarrow> ('st, 'r) reader \<Rightarrow> stype \<Rightarrow> stype \<Rightarrow> ('st readerFuncReader, 'r) reader" where
  "readerfunc_Read temp st0 read opT outT r n =
     (if rf_err r \<noteq> None then Some (Ret (r, [], rf_err r))
      else type_guard (Assignable outT opT) r
        (let st = (case rf_state r of None \<Rightarrow> st0 | Some s \<Rightarrow> s)
         in run_bind (read st n) (\<lambda>(st', xs, e).
           let err = (case e of None \<Rightarrow> None
                      | Some x \<Rightarrow> Some (if x = EOF \<or> temp x then x else ErrE [AFatal] (Some x)))
           in Some (Ret (\<lparr>rf_state = Some st', rf_err = err,
                consecutiveEmptyCalls = (if xs = [] then Suc (consecutiveEmptyCalls r) else 0)\<rparr>, xs, err)))))"

record ('s, 'w) writerFuncReader =
  wf_reader :: 's
  wf_state :: "'w option"
  wf_err :: gerr

definition writer_Read ::
  "(goerror \<Rightarrow> bool) \<Rightarrow> 'w \<Rightarrow> ('w \<Rightarrow> gerr \<Rightarrow> 'r list \<Rightarrow> ('w \<times> gerr) go option) \<Rightarrow> ('s, 'r) reader \<Rightarrow> (('s, 'w) writerFuncReader, 'r) reader" where
  "writer_Read temp st0 write rd r n =
     (if wf_err r \<noteq> None then Some (Ret (r, [], wf_err r))
      else let st = (case wf_state r of None \<Rightarrow> st0 | Some s \<Rightarrow> s)
           in run_bind (rd (wf_reader r) n) (\<lambda>(r', xs, err). run_bind (write st err xs) (\<lambda>(st', werr).
                let err' = (case werr of
                      Some e \<Rightarrow> if err = None \<or> err = Some EOF then Some (if temp e then e else ErrE [AFatal] (Some e)) else err
                    | None \<Rightarrow> err)
                in Some (Ret (\<lparr>wf_reader = r', wf_state = Some st', wf_err = err'\<rparr>, xs, err')))))"

subsection \<open>Map, filter, flatmap\<close>

record 's opReader =
  op_reader :: 's
  op_err :: gerr

definition map_Read :: "'v sfunc \<Rightarrow> 'v \<Rightarrow> stype \<Rightarrow> stype \<Rightarrow> ('s, 'v list) reader \<Rightarrow> ('s opReader, 'v list) reader" where
  "map_Read f ctx opT outT rd m n =
     (if op_err m \<noteq> None then Some (Ret (m, [], op_err m))
      else type_guard (Assignable outT opT) m
        (run_bind (rd (op_reader m) n) (\<lambda>(r', xs, err).
           run_bind (Some (map_go (sfunc_Call f ctx) xs)) (\<lambda>ys. Some (Ret (\<lparr>op_reader = r', op_err = err\<rparr>, ys, err))))))"

text \<open>The predicate on one row; \<open>asBool\<close> reads a value of kind bool.\<close>

definition pred_Call :: "('v \<Rightarrow> bool) \<Rightarrow> 'v sfunc \<Rightarrow> 'v \<Rightarrow> 'v list \<Rightarrow> bool go" where
  "pred_Call asBool f ctx r =
     go_bind (sfunc_Call f ctx r) (\<lambda>res. case res of [] \<Rightarrow> Panic ''index out of range'' | b # _ \<Rightarrow> Ret (asBool b))"

primrec filter_rows :: "('r \<Rightarrow> bool go) \<Rightarrow> 'r list \<Rightarrow> 'r list go" where
  "filter_rows p [] = Ret []"
| "filter_rows p (x # xs) = go_bind (p x) (\<lambda>b. go_bind (filter_rows p xs) (\<lambda>ys. Ret (if b then x # ys else ys)))"

partial_function (option) filter_loop ::
  "('r \<Rightarrow> bool go) \<Rightarrow> ('s, 'r) reader \<Rightarrow> nat \<Rightarrow> 's \<Rightarrow> 'r list \<Rightarrow> ('s opReader \<times> 'r list \<times> gerr) go option" where
  "filter_loop p rd mx r acc =
     (if length acc < mx
      then run_bind (rd r (mx - length acc)) (\<lambda>(r', xs, err).
        run_bind (Some (filter_rows p xs)) (\<lambda>ys.
          if err = None then filter_loop p rd mx r' (acc @ ys)
          else Some (Ret (\<lparr>op_reader = r', op_err = err\<rparr>, acc @ ys, err))))
      else Some (Ret (\<lparr>op_reader = r, op_err = None\<rparr>, acc, None)))"

definition filter_Read :: "('r \<Rightarrow> bool go) \<Rightarrow> stype \<Rightarrow> stype \<Rightarrow> ('s, 'r) reader \<Rightarrow> ('s opReader, 'r) reader" where
  "filter_Read p opT outT rd f n =
     (if op_err f \<noteq> None then Some (Ret (f, [], op_err f))
      else type_guard (Assignable outT opT) f (filter_loop p rd n (op_reader f) []))"

record ('s, 'r, 'o) flatmapReader =
  fm_reader :: 's
  fm_in :: "'r list"
  begIn :: nat
  endIn :: nat
  fm_out :: "'o list"
  fm_eof :: bool

text \<open>
  The loop over the buffered inputs; \<open>call\<close> is the user's function, with the vectors it returns as
  the rows they hold, and \<open>space\<close> the length of the output.
\<close>

function flat_inner ::
  "('r \<Rightarrow> 'o list go) \<Rightarrow> 'r list \<Rightarrow> nat \<Rightarrow> nat \<Rightarrow> nat \<Rightarrow> 'o list \<Rightarrow> 'o list \<Rightarrow> (nat \<times> 'o list \<times> 'o list) go" where
  "flat_inner call inp i en space acc out =
     (if i < en \<and> length acc < space
      then go_bind (call (inp ! i)) (\<lambda>res.
        let n = min (space - length acc) (length res)
        in flat_inner call inp (Suc i) en space (acc @ take n res) (if n < length res then drop n res else out))
      else Ret (i, acc, out))"
  by pat_completeness auto

termination
  by (relation "measure (\<lambda>(call, inp, i, en, space, acc, out). en - i)") auto

declare flat_inner.simps [simp del]

partial_function (option) flat_loop ::
  "('r \<Rightarrow> 'o list go) \<Rightarrow> ('s, 'r) reader \<Rightarrow> nat \<Rightarrow> ('s, 'r, 'o) flatmapReader \<Rightarrow> 'o list
     \<Rightarrow> (('s, 'r, 'o) flatmapReader \<times> 'o list \<times> gerr) go option" where
  "flat_loop call rd space f acc =
     (if length acc < space \<and> (\<not> fm_eof f \<or> begIn f < endIn f)
      then run_bind
        (if begIn f = endIn f
         then run_bind (rd (fm_reader f) space) (\<lambda>(r', xs, err).
           if err \<noteq> None \<and> err \<noteq> Some EOF then Some (Ret (Inl (f\<lparr>fm_reader := r'\<rparr>, err)))
           else Some (Ret (Inr (f\<lparr>fm_reader := r', fm_in := xs, begIn := 0, endIn := length xs, fm_eof := (err = Some EOF)\<rparr>))))
         else Some (Ret (Inr f)))
        (\<lambda>res. case res of
            Inl (f, err) \<Rightarrow> Some (Ret (f, [], err))
          | Inr f \<Rightarrow> run_bind (Some (flat_inner call (fm_in f) (begIn f) (endIn f) space acc (fm_out f))) (\<lambda>(i, acc, out).
              flat_loop call rd space (f\<lparr>begIn := i, fm_out := out\<rparr>) acc))
      else Some (Ret (f, acc, if fm_eof f \<and> fm_out f = [] \<and> begIn f = endIn f then Some EOF else None)))"

definition flatmap_Read ::
  "('r \<Rightarrow> 'o list go) \<Rightarrow> stype \<Rightarrow> stype \<Rightarrow> ('s, 'r) reader \<Rightarrow> (('s, 'r, 'o) flatmapReader, 'o) reader" where
  "flatmap_Read call opT outT rd f n = type_guard (Assignable outT opT) f
     (let k = min n (length (fm_out f))
      in flat_loop call rd n (f\<lparr>fm_out := drop k (fm_out f)\<rparr>) (take k (fm_out f)))"

subsection \<open>Accumulators and fold\<close>

text \<open>
  The three accumulators of \<open>accum.go\<close> differ in the type of the key only.  The Go map is the list
  of its entries; \<open>order\<close> is the order in which it is ranged over.  A row is the key and the other
  columns; \<open>call\<close> is the user's function.
\<close>

primrec Accumulate :: "('v list \<Rightarrow> 'v go) \<Rightarrow> 'v \<Rightarrow> ('k \<times> 'v list) list \<Rightarrow> ('k \<times> 'v) list \<Rightarrow> ('k \<times> 'v) list go" where
  "Accumulate call zero [] st = Ret st"
| "Accumulate call zero (r # rws) st =
     (let val = (case map_of st (fst r) of None \<Rightarrow> zero | Some v \<Rightarrow> v)
      in go_bind (call (val # snd r)) (\<lambda>v. Accumulate call zero rws (AList.update (fst r) v st)))"

definition accum_Read ::
  "(('k \<times> 'v) list \<Rightarrow> ('k \<times> 'v) list) \<Rightarrow> ('k \<times> 'v) list \<Rightarrow> nat \<Rightarrow> ('k \<times> 'v) list \<times> ('k \<times> 'v) list \<times> gerr" where
  "accum_Read order st mx =
     (let es = order st; st' = drop mx es in (st', take mx es, if st' = [] then Some EOF else None))"

record ('s, 'k, 'v) foldReader =
  fo_reader :: 's
  fo_accum :: "('k \<times> 'v) list option"
  fo_err :: gerr

partial_function (option) fold_compute ::
  "('v list \<Rightarrow> 'v go) \<Rightarrow> 'v \<Rightarrow> nat \<Rightarrow> ('s, 'k \<times> 'v list) reader \<Rightarrow> 's \<Rightarrow> ('k \<times> 'v) list \<Rightarrow> ('s \<times> (goerror + ('k \<times> 'v) list)) go option" where
  "fold_compute call zero chunk rd r st = run_bind (rd r chunk) (\<lambda>(r', xs, err).
     if err \<noteq> None \<and> err \<noteq> Some EOF then Some (Ret (r', Inl (the err)))
     else run_bind (Some (Accumulate call zero xs st)) (\<lambda>st'.
       if err = Some EOF then Some (Ret (r', Inr st')) else fold_compute call zero chunk rd r' st'))"

definition fold_Read ::
  "('v list \<Rightarrow> 'v go) \<Rightarrow> 'v \<Rightarrow> (('k \<times> 'v) list \<Rightarrow> ('k \<times> 'v) list) \<Rightarrow> nat \<Rightarrow> stype \<Rightarrow> stype \<Rightarrow> ('s, 'k \<times> 'v list) reader
     \<Rightarrow> (('s, 'k, 'v) foldReader, 'k \<times> 'v) reader" where
  "fold_Read call zero order chunk opT outT rd f n =
     (if fo_err f \<noteq> None then Some (Ret (f, [], fo_err f))
      else type_guard (Assignable outT opT) f
        (run_bind
          (case fo_accum f of
             Some st \<Rightarrow> Some (Ret (fo_reader f, Inr st))
           | None \<Rightarrow> fold_compute call zero chunk rd (fo_reader f) [])
          (\<lambda>(r', res). case res of
              Inl e \<Rightarrow> Some (Ret (f\<lparr>fo_reader := r', fo_err := Some e\<rparr>, [], Some e))
            | Inr st \<Rightarrow>
                (let (st', xs, err) = accum_Read order st n
                 in Some (Ret (\<lparr>fo_reader = r', fo_accum = Some st', fo_err = err\<rparr>, xs, err))))))"

subsection \<open>Head and scan\<close>

record 's headReader =
  hd_reader :: 's
  hd_n :: int

definition head_Read :: "('s, 'r) reader \<Rightarrow> ('s headReader, 'r) reader" where
  "head_Read rd h n =
     (if hd_n h \<le> 0 then Some (Ret (h, [], Some EOF))
      else run_bind (rd (hd_reader h) n) (\<lambda>(r', xs, err).
        let left = hd_n h - int (length xs); k = (if left < 0 then int (length xs) - (- left) else int (length xs))
        in Some (Ret (\<lparr>hd_reader = r', hd_n = left\<rparr>, take (nat k) xs, err))))"

text \<open>\<open>scan\<close> is the user's function.\<close>

definition scan_Read ::
  "stype \<Rightarrow> (('s, 'r) scanner \<Rightarrow> (('s, 'r) scanner \<times> gerr) go option) \<Rightarrow> ('s, 'o) reader" where
  "scan_Read t scan r n = run_bind (scan (NewScanner t r)) (\<lambda>(sc, err).
     Some (Ret (sreader sc, [], if err = None then Some EOF else err)))"

text \<open>The reader of a reduction: with one dependency, that dependency's reader.\<close>

definition reduce_Reader :: "('s list \<Rightarrow> 'a go) \<Rightarrow> 's list \<Rightarrow> ('s + 'a) go" where
  "reduce_Reader reduce deps = (case deps of [d] \<Rightarrow> Ret (Inl d) | _ \<Rightarrow> go_bind (reduce deps) (\<lambda>r. Ret (Inr r)))"

text \<open>The readers of \<open>Reshuffle\<close>, \<open>Repartition\<close> and \<open>Reshard\<close>.\<close>

definition reshuffle_Reader :: "'s list \<Rightarrow> 's go" where
  "reshuffle_Reader deps = (case deps of [d] \<Rightarrow> Ret d | _ \<Rightarrow> Panic ''expected one dep'')"

subsection \<open>Lines of a file\<close>

text \<open>
  The function that \<open>ScanReader\<close> passes to \<open>ReaderFunc\<close>.  A \<open>bufio.Scanner\<close> is the lines it has left,
  the line it is at, and the error that ends them; \<open>open\<close> is the user's function.
\<close>

record linestate =
  ls_open :: bool
  ls_left :: "string list"
  ls_text :: string
  ls_err :: gerr
  ls_closed :: nat

primrec skip :: "nat \<Rightarrow> linestate \<Rightarrow> linestate \<times> gerr" where
  "skip 0 s = (s, None)"
| "skip (Suc n) s = (case ls_left s of
       [] \<Rightarrow> (s, if ls_err s \<noteq> None then ls_err s else Some EOF)
     | l # ls \<Rightarrow> skip n (s\<lparr>ls_left := ls, ls_text := l\<rparr>))"

text \<open>The loop over the vector: \<open>i\<close> lines are stored, \<open>k\<close> more fit.\<close>

primrec lines_loop :: "nat \<Rightarrow> bool \<Rightarrow> nat \<Rightarrow> nat \<Rightarrow> linestate \<Rightarrow> string list \<Rightarrow> linestate \<times> string list \<times> gerr" where
  "lines_loop nshard first i 0 s acc = (s, acc, None)"
| "lines_loop nshard first i (Suc k) s acc =
     (let (s, err) = (if \<not> first \<or> i \<noteq> 0 then skip nshard s else (s, None))
      in if err \<noteq> None then (s, acc, err) else lines_loop nshard first (Suc i) k s (acc @ [ls_text s]))"

definition close_on_error :: "linestate \<times> string list \<times> gerr \<Rightarrow> linestate \<times> string list \<times> gerr" where
  "close_on_error = (\<lambda>(s, xs, err). (if err \<noteq> None \<and> ls_open s then s\<lparr>ls_closed := Suc (ls_closed s)\<rparr> else s, xs, err))"

definition scanreader_read :: "(goerror + string list \<times> gerr) \<Rightarrow> nat \<Rightarrow> nat \<Rightarrow> (linestate, string) reader" where
  "scanreader_read opened nshard shard s n =
     (let first = \<not> ls_open s
      in Some (Ret (close_on_error (if first
           then case opened of
               Inl e \<Rightarrow> (s, [], Some e)
             | Inr (ls, e) \<Rightarrow>
                 (let (s, err) = skip shard \<lparr>ls_open = True, ls_left = ls, ls_text = [], ls_err = e, ls_closed = 0\<rparr>
                  in if err \<noteq> None then (s, [], err) else lines_loop nshard first 0 n s [])
           else lines_loop nshard first 0 n s []))))"

section \<open>Names are unique\<close>

datatype namecall = CallHelper string | CallMakeName string "stackframe list"

primrec name_calls :: "namecall list \<Rightarrow> pkg \<Rightarrow> Name list go" where
  "name_calls [] g = Ret []"
| "name_calls (c # cs) g = (case c of
       CallHelper f \<Rightarrow> name_calls cs (slice_Helper f g)
     | CallMakeName op frames \<Rightarrow> go_bind (MakeName op frames g) (\<lambda>(g, nm). go_bind (name_calls cs g) (\<lambda>nms. Ret (nm # nms))))"

lemma MakeName_index:
  assumes "MakeName op frames g = Ret (g', nm)"
  shows "Index nm = sliceNameIndexerMap g (Op nm, nmFile nm, nmLine nm)"
    and "sliceNameIndexerMap g' k = sliceNameIndexerMap g k + (if k = (Op nm, nmFile nm, nmLine nm) then 1 else 0)"
  using assms by (auto simp: MakeName_def newNameIndex_def Let_def split: if_splits prod.splits)

lemma name_calls_index:
  "name_calls cs g = Ret nms \<Longrightarrow> nm \<in> set nms \<Longrightarrow> sliceNameIndexerMap g (Op nm, nmFile nm, nmLine nm) \<le> Index nm"
proof (induction cs arbitrary: g nms)
  case (Cons c cs)
  show ?case
  proof (cases c)
    case (CallHelper f)
    with Cons show ?thesis by (fastforce simp: slice_Helper_def)
  next
    case (CallMakeName op frames)
    with Cons.prems obtain g' nm' nms' where r: "MakeName op frames g = Ret (g', nm')" "name_calls cs g' = Ret nms'" "nms = nm' # nms'"
      by (auto simp: go_bind_eq_Ret)
    with Cons.IH [OF r(2)] Cons.prems(2) MakeName_index [OF r(1)] show ?thesis by (fastforce split: if_splits)
  qed
qed simp

text \<open>
  Names are unique: whatever helpers are registered in between, and from wherever slices are
  made, no two calls of \<open>MakeName\<close> return the same name.
\<close>

theorem MakeName_unique:
  assumes "name_calls cs g = Ret nms"
  shows "distinct nms"
  using assms
proof (induction cs arbitrary: g nms)
  case (Cons c cs)
  show ?case
  proof (cases c)
    case (CallHelper f)
    with Cons show ?thesis by simp
  next
    case (CallMakeName op frames)
    with Cons.prems obtain g' nm nms' where r: "MakeName op frames g = Ret (g', nm)" "name_calls cs g' = Ret nms'" "nms = nm # nms'"
      by (auto simp: go_bind_eq_Ret)
    have "nm \<notin> set nms'"
      using name_calls_index [OF r(2), of nm] MakeName_index [OF r(1)] by force
    with Cons.IH [OF r(2)] r(3) show ?thesis by simp
  qed
qed simp

theorem MakeName_unique_witness:
  "name_calls [CallMakeName ''map'' [(''f'', ''a.go'', 3)], CallHelper ''f'', CallMakeName ''map'' [(''f'', ''b.go'', 1), (''g'', ''a.go'', 3)]]
     \<lparr>helpers = {}, sliceNameIndexerMap = (\<lambda>_. 0)\<rparr> =
     Ret [\<lparr>Op = ''map'', nmFile = ''a.go'', nmLine = 3, Index = 0\<rparr>, \<lparr>Op = ''map'', nmFile = ''a.go'', nmLine = 3, Index = 1\<rparr>] \<and>
   distinct [\<lparr>Op = ''map'', nmFile = ''a.go'', nmLine = 3, Index = 0\<rparr>, \<lparr>Op = ''map'', nmFile = ''a.go'', nmLine = 3, Index = 1\<rparr>]"
    (is "?calls = Ret ?nms \<and> _")
proof -
  have "?calls = Ret ?nms" by (simp add: MakeName_def newNameIndex_def slice_Helper_def)
  with MakeName_unique [OF this] show ?thesis by blast
qed

section \<open>Shards of a constant\<close>

lemma concat_chunks: "concat (map (\<lambda>i. take c (drop (c * i) xs)) [0 ..< k]) = take (c * k) xs"
proof (induction k)
  case (Suc k)
  have "take (c * Suc k) xs = take (c * k) xs @ take c (drop (c * k) xs)"
    using take_add [of "c * k" c xs] by (simp add: add.commute)
  with Suc show ?case by simp
qed simp

lemma const_Reader_rows:
  "(case const_Reader f nshard i of None \<Rightarrow> [] | Some xs \<Rightarrow> xs) = take (length f div nshard + 1) (drop ((length f div nshard + 1) * i) f)"
  by (auto simp: const_Reader_def Let_def)

text \<open>
  The shards of a constant slice partition its rows: the rows of the readers of all shards, in
  the order of the shards, are the rows of the constant, whatever its length.
\<close>

theorem const_shards:
  assumes "0 < nshard"
  shows "concat (map (\<lambda>i. case const_Reader f nshard i of None \<Rightarrow> [] | Some xs \<Rightarrow> xs) [0 ..< nshard]) = f"
proof -
  have "length f \<le> (length f div nshard + 1) * nshard"
    using dividend_less_times_div [OF assms, of "length f"] by (simp add: algebra_simps)
  then show ?thesis unfolding const_Reader_rows concat_chunks by simp
qed

theorem const_shards_witness:
  "concat (map (\<lambda>i. case const_Reader [1, 2, 3, 4, 5, 6::int] 4 i of None \<Rightarrow> [] | Some xs \<Rightarrow> xs) [0 ..< 4]) = [1, 2, 3, 4, 5, 6]"
  by (rule const_shards) simp

section \<open>Contracts of the readers\<close>

lemma type_guard_True [simp]: "type_guard (Ret True) s body = body"
  by (simp add: type_guard_def)

definition op_ok :: "('s \<Rightarrow> bool) \<Rightarrow> 's opReader \<Rightarrow> bool" where
  "op_ok ok m \<longleftrightarrow> (op_err m = None \<longrightarrow> ok (op_reader m))"

definition op_str :: "('r list \<Rightarrow> 'o list) \<Rightarrow> ('s \<Rightarrow> 'r list) \<Rightarrow> 's opReader \<Rightarrow> 'o list" where
  "op_str g str m = (case op_err m of None \<Rightarrow> g (str (op_reader m)) | Some e \<Rightarrow> [])"

definition op_fin :: "('s \<Rightarrow> goerror) \<Rightarrow> 's opReader \<Rightarrow> goerror" where
  "op_fin fin m = (case op_err m of None \<Rightarrow> fin (op_reader m) | Some e \<Rightarrow> e)"

lemmas op_defs = op_ok_def op_str_def op_fin_def

definition flat_ok :: "('s \<Rightarrow> bool) \<Rightarrow> ('s \<Rightarrow> goerror) \<Rightarrow> ('s, 'r, 'o) flatmapReader \<Rightarrow> bool" where
  "flat_ok ok fin f \<longleftrightarrow> begIn f \<le> endIn f \<and> endIn f \<le> length (fm_in f) \<and>
     (\<not> fm_eof f \<longrightarrow> ok (fm_reader f) \<and> fin (fm_reader f) = EOF)"

definition flat_str :: "('r \<Rightarrow> 'o list) \<Rightarrow> ('s \<Rightarrow> 'r list) \<Rightarrow> ('s, 'r, 'o) flatmapReader \<Rightarrow> 'o list" where
  "flat_str g str f = fm_out f @ concat (map g (take (endIn f - begIn f) (drop (begIn f) (fm_in f)))) @
     (if fm_eof f then [] else concat (map g (str (fm_reader f))))"

lemma filter_rows_Ret: "\<forall>x. p x = Ret (q x) \<Longrightarrow> filter_rows p xs = Ret (filter q xs)"
  by (induction xs) auto

lemma flat_inner_spec:
  assumes "\<forall>x. call x = Ret (g x)" and "i \<le> en" and "en \<le> length inp" and "length acc \<le> space"
  shows "\<exists>i' xs out'. flat_inner call inp i en space acc [] = Ret (i', acc @ xs, out') \<and> i' \<le> en \<and> length (acc @ xs) \<le> space \<and>
    concat (map g (take (en - i) (drop i inp))) = xs @ out' @ concat (map g (take (en - i') (drop i' inp))) \<and>
    (length (acc @ xs) = space \<or> out' = [] \<and> i' = en)"
  using assms(2-)
proof (induction "en - i" arbitrary: i acc)
  case 0
  then show ?case by (subst flat_inner.simps) auto
next
  case (Suc k)
  show ?case
  proof (cases "length acc < space")
    case False
    with Suc.prems show ?thesis by (subst flat_inner.simps) auto
  next
    case True
    let ?res = "g (inp ! i)"
    let ?n = "min (space - length acc) (length ?res)"
    have i: "i < en" using Suc.hyps(2) by simp
    have c: "take (en - i) (drop i inp) = inp ! i # take (en - Suc i) (drop (Suc i) inp)"
      using Suc.hyps(2) Suc.prems by (subst Cons_nth_drop_Suc [symmetric]) (auto simp: take_Cons')
    have e: "flat_inner call inp i en space acc [] =
        flat_inner call inp (Suc i) en space (acc @ take ?n ?res) (if ?n < length ?res then drop ?n ?res else [])"
      using i True assms(1) by (subst flat_inner.simps) (simp add: Let_def)
    show ?thesis
    proof (cases "?n < length ?res")
      case True
      then have "length (acc @ take ?n ?res) = space" using Suc.prems by auto
      then have "flat_inner call inp (Suc i) en space (acc @ take ?n ?res) (drop ?n ?res) = Ret (Suc i, acc @ take ?n ?res, drop ?n ?res)"
        by (subst flat_inner.simps) simp
      with e c True \<open>length (acc @ take ?n ?res) = space\<close> Suc.hyps(2) show ?thesis
        by (intro exI [of _ "Suc i"] exI [of _ "take ?n ?res"] exI [of _ "drop ?n ?res"]) auto
    next
      case False
      then have n: "take ?n ?res = ?res" "length (acc @ ?res) \<le> space" using True by auto
      have "k = en - Suc i" "Suc i \<le> en" using Suc.hyps(2) by auto
      from Suc.hyps(1) [OF this Suc.prems(2) n(2)] obtain i' xs out' where
        "flat_inner call inp (Suc i) en space (acc @ ?res) [] = Ret (i', (acc @ ?res) @ xs, out')" "i' \<le> en"
        "length ((acc @ ?res) @ xs) \<le> space"
        "concat (map g (take (en - Suc i) (drop (Suc i) inp))) = xs @ out' @ concat (map g (take (en - i') (drop i' inp)))"
        "length ((acc @ ?res) @ xs) = space \<or> out' = [] \<and> i' = en" by auto
      with e c n False show ?thesis
        by (intro exI [of _ i'] exI [of _ "?res @ xs"] exI [of _ out']) auto
    qed
  qed
qed

lemma map_reader:
  assumes "slice_reader rd ok str fin mu" and "Assignable outT opT = Ret True" and "\<forall>r. sfunc_Call f ctx r = Ret (g r)"
  shows "slice_reader (map_Read f ctx opT outT rd) (op_ok ok) (op_str (map g) str) (op_fin fin) (\<lambda>m. mu (op_reader m))"
proof
  fix m :: "'a opReader" and n :: nat
  assume m: "op_ok ok m" and n: "0 < n"
  have calls: "map_go (sfunc_Call f ctx) xs = Ret (map g xs)" for xs using assms(3) by (simp add: map_go_Ret)
  show "\<exists>res. map_Read f ctx opT outT rd m n = Some (Ret res) \<and>
      read_ok (op_ok ok) (op_str (map g) str) (op_fin fin) (\<lambda>m. mu (op_reader m)) m n res"
  proof (cases "op_err m")
    case (Some e)
    then show ?thesis by (simp add: map_Read_def read_ok_def op_defs)
  next
    case None
    then have "ok (op_reader m)" using m by (simp add: op_ok_def)
    from slice_reader.read_cases [OF assms(1) this n] show ?thesis
      by (cases) (use None assms(2) calls in \<open>simp_all add: map_Read_def read_ok_def op_defs\<close>)
  qed
qed

context slice_reader
begin

lemma filter_loop_spec:
  assumes "ok r" and "length acc \<le> mx" and "\<forall>x. p x = Ret (q x)"
  shows "\<exists>m xs e. filter_loop p rd mx r acc = Some (Ret (m, xs, e)) \<and> op_ok ok m \<and> length xs \<le> mx \<and>
    acc @ filter q (str r) = xs @ op_str (filter q) str m \<and> op_fin fin m = fin r \<and>
    (case e of None \<Rightarrow> length xs = mx | Some x \<Rightarrow> x = fin r \<and> op_str (filter q) str m = [])"
  using assms(1,2)
proof (induction "mu r" arbitrary: r acc rule: less_induct)
  case less
  show ?case
  proof (cases "length acc < mx")
    case False
    then show ?thesis using less.prems by (subst filter_loop.simps) (auto simp: op_defs)
  next
    case True
    then have "0 < mx - length acc" by simp
    from less.prems(1) this show ?thesis
    proof (cases rule: read_cases)
      case (more r' xs)
      have l: "length (acc @ filter q xs) \<le> mx" using le_trans [OF length_filter_le [of q xs] more(3)] True by simp
      have "filter_loop p rd mx r acc = filter_loop p rd mx r' (acc @ filter q xs)"
        using True more(1) filter_rows_Ret [OF assms(3)] by (subst filter_loop.simps) simp
      with less.hyps [OF more(6,2) l, unfolded more(5)] more(4) show ?thesis by simp
    next
      case (stop r' xs)
      have "length (acc @ filter q xs) \<le> mx" using le_trans [OF length_filter_le [of q xs] stop(3)] True by simp
      then show ?thesis
        using True stop filter_rows_Ret [OF assms(3)] by (subst filter_loop.simps) (simp add: op_defs)
    qed
  qed
qed

lemma filter_reader:
  assumes "Assignable outT opT = Ret True" and "\<forall>x. p x = Ret (q x)"
  shows "slice_reader (filter_Read p opT outT rd) (op_ok ok) (op_str (filter q) str) (op_fin fin) (\<lambda>m. length (op_str (filter q) str m))"
proof
  fix m :: "'s opReader" and n :: nat
  assume m: "op_ok ok m" and n: "0 < n"
  show "\<exists>res. filter_Read p opT outT rd m n = Some (Ret res) \<and>
      read_ok (op_ok ok) (op_str (filter q) str) (op_fin fin) (\<lambda>m. length (op_str (filter q) str m)) m n res"
  proof (cases "op_err m")
    case (Some e)
    then show ?thesis by (simp add: filter_Read_def read_ok_def op_defs)
  next
    case None
    then have "ok (op_reader m)" using m by (simp add: op_ok_def)
    from filter_loop_spec [OF this _ assms(2), of "[]" n] obtain m' xs e where
      "filter_loop p rd n (op_reader m) [] = Some (Ret (m', xs, e))" "op_ok ok m'" "length xs \<le> n"
      "filter q (str (op_reader m)) = xs @ op_str (filter q) str m'" "op_fin fin m' = fin (op_reader m)"
      "case e of None \<Rightarrow> length xs = n | Some x \<Rightarrow> x = fin (op_reader m) \<and> op_str (filter q) str m' = []" by auto
    then show ?thesis
      using None assms(1) n by (cases e) (auto simp: filter_Read_def read_ok_def op_str_def [of _ _ m] op_fin_def [of _ m])
  qed
qed

lemma flat_loop_spec:
  assumes "flat_ok ok fin f" and "length acc \<le> space" and "fm_out f = [] \<or> length acc = space" and "\<forall>x. call x = Ret (g x)"
  shows "\<exists>f' xs e. flat_loop call rd space f acc = Some (Ret (f', xs, e)) \<and> flat_ok ok fin f' \<and> length xs \<le> space \<and>
    acc @ flat_str g str f = xs @ flat_str g str f' \<and>
    (case e of None \<Rightarrow> length xs = space | Some x \<Rightarrow> x = EOF \<and> flat_str g str f' = [])"
  using assms(1-3)
proof (induction "2 * (if fm_eof f then 0 else Suc (mu (fm_reader f))) + (if begIn f < endIn f then 1 else 0)" arbitrary: f acc rule: less_induct)
  case less
  let ?m = "\<lambda>f. 2 * (if fm_eof f then 0 else Suc (mu (fm_reader f))) + (if begIn f < endIn f then 1 else (0::nat))"
  have inner: ?case if f1: "flat_ok ok fin f1" "fm_out f1 = []" "flat_str g str f1 = flat_str g str f" "length acc < space"
      "flat_loop call rd space f acc = run_bind (Some (flat_inner call (fm_in f1) (begIn f1) (endIn f1) space acc (fm_out f1)))
        (\<lambda>(i, acc, out). flat_loop call rd space (f1\<lparr>begIn := i, fm_out := out\<rparr>) acc)"
      "?m f1 - (if begIn f1 < endIn f1 then 1 else 0) < ?m f" for f1
  proof -
    from f1(1) obtain i' xs out' where r: "flat_inner call (fm_in f1) (begIn f1) (endIn f1) space acc [] = Ret (i', acc @ xs, out')"
      "i' \<le> endIn f1" "length (acc @ xs) \<le> space"
      "concat (map g (take (endIn f1 - begIn f1) (drop (begIn f1) (fm_in f1)))) = xs @ out' @ concat (map g (take (endIn f1 - i') (drop i' (fm_in f1))))"
      "length (acc @ xs) = space \<or> out' = [] \<and> i' = endIn f1"
      using flat_inner_spec [OF assms(4), of "begIn f1" "endIn f1" "fm_in f1" acc space] f1(4) by (auto simp: flat_ok_def)
    let ?f2 = "f1\<lparr>begIn := i', fm_out := out'\<rparr>"
    have e: "flat_loop call rd space f acc = flat_loop call rd space ?f2 (acc @ xs)" using r(1) f1(2,5) by simp
    have ok2: "flat_ok ok fin ?f2" using f1(1) r(2) by (simp add: flat_ok_def)
    have "flat_str g str f1 = xs @ flat_str g str ?f2" unfolding flat_str_def using f1(2) r(4) by simp
    then have s2: "acc @ flat_str g str f = (acc @ xs) @ flat_str g str ?f2" unfolding f1(3) [symmetric] by simp
    show ?case
    proof (cases "length (acc @ xs) = space")
      case True
      then have "flat_loop call rd space ?f2 (acc @ xs) =
          Some (Ret (?f2, acc @ xs, if fm_eof ?f2 \<and> fm_out ?f2 = [] \<and> begIn ?f2 = endIn ?f2 then Some EOF else None))"
        by (subst flat_loop.simps) simp
      with e ok2 s2 True show ?thesis by (auto simp: flat_str_def)
    next
      case False
      then have i: "out' = []" "i' = endIn f1" using r(5) by auto
      then have "?m ?f2 < ?m f" using f1(6) by (auto split: if_splits)
      from less.hyps [OF this ok2 r(3)] i e s2 show ?thesis by auto
    qed
  qed
  show ?case
  proof (cases "length acc < space \<and> (\<not> fm_eof f \<or> begIn f < endIn f)")
    case False
    then have "flat_loop call rd space f acc = Some (Ret (f, acc, if fm_eof f \<and> fm_out f = [] \<and> begIn f = endIn f then Some EOF else None))"
      by (subst flat_loop.simps) (rule if_not_P [OF False])
    moreover have "length acc = space \<or> fm_eof f \<and> begIn f = endIn f \<and> fm_out f = []"
      using False less.prems by (auto simp: flat_ok_def)
    ultimately show ?thesis using less.prems by (auto simp: flat_str_def)
  next
    case True
    then have out: "fm_out f = []" using less.prems by auto
    show ?thesis
    proof (cases "begIn f = endIn f")
      case False
      have "flat_loop call rd space f acc = run_bind (Some (flat_inner call (fm_in f) (begIn f) (endIn f) space acc (fm_out f)))
          (\<lambda>(i, acc, out). flat_loop call rd space (f\<lparr>begIn := i, fm_out := out\<rparr>) acc)"
        using True False by (subst flat_loop.simps) simp
      from inner [OF _ _ _ _ this] True False out less.prems show ?thesis by (auto simp: flat_ok_def)
    next
      case eq: True
      with True have r: "\<not> fm_eof f" "ok (fm_reader f)" "fin (fm_reader f) = EOF" "0 < space"
        using less.prems(1) by (auto simp: flat_ok_def)
      let ?f1 = "\<lambda>r' xs e. f\<lparr>fm_reader := r', fm_in := xs, begIn := 0, endIn := length xs, fm_eof := e\<rparr>"
      have unf: "flat_loop call rd space f acc = run_bind (Some (flat_inner call (fm_in f1) (begIn f1) (endIn f1) space acc (fm_out f1)))
          (\<lambda>(i, acc, out). flat_loop call rd space (f1\<lparr>begIn := i, fm_out := out\<rparr>) acc)"
        if "rd (fm_reader f) space = Some (Ret (r', xs, e))" "e = None \<or> e = Some EOF" "e' \<longleftrightarrow> e = Some EOF" "f1 = ?f1 r' xs e'" for r' xs e e' f1
        using True eq r(1) that by (subst flat_loop.simps) auto
      from r(2,4) show ?thesis
      proof (cases rule: read_cases)
        case (more r' xs)
        have a: "flat_ok ok fin (?f1 r' xs False)" "flat_str g str (?f1 r' xs False) = flat_str g str f"
          using more r out eq by (auto simp: flat_ok_def flat_str_def)
        show ?thesis
          by (rule inner [OF a(1) _ a(2) _ unf [OF more(1) _ _ refl, of False]]) (use True r(1) out more(6) in simp_all)
      next
        case (stop r' xs)
        have a: "flat_ok ok fin (?f1 r' xs True)" "flat_str g str (?f1 r' xs True) = flat_str g str f"
          using stop r out eq by (auto simp: flat_ok_def flat_str_def)
        show ?thesis
          by (rule inner [OF a(1) _ a(2) _ unf [OF stop(1) _ _ refl, of True]]) (use True r out in simp_all)
      qed
    qed
  qed
qed

lemma flatmap_reader:
  fixes g :: "'r \<Rightarrow> 'o list"
  assumes "Assignable outT opT = Ret True" and "\<forall>x. call x = Ret (g x)"
  shows "slice_reader (flatmap_Read call opT outT rd) (flat_ok ok fin) (flat_str g str) (\<lambda>_. EOF) (\<lambda>f. length (flat_str g str f))"
proof
  fix f :: "('s, 'r, 'o) flatmapReader" and n
  assume f: "flat_ok ok fin f" and n: "0 < (n :: nat)"
  let ?k = "min n (length (fm_out f))"
  let ?f = "f\<lparr>fm_out := drop ?k (fm_out f)\<rparr>"
  have "flat_ok ok fin ?f" "length (take ?k (fm_out f)) \<le> n" "fm_out ?f = [] \<or> length (take ?k (fm_out f)) = n"
    using f by (auto simp: flat_ok_def)
  from flat_loop_spec [OF this assms(2)] obtain f' xs e where
    "flat_loop call rd n ?f (take ?k (fm_out f)) = Some (Ret (f', xs, e))" "flat_ok ok fin f'" "length xs \<le> n"
    "take ?k (fm_out f) @ flat_str g str ?f = xs @ flat_str g str f'"
    "case e of None \<Rightarrow> length xs = n | Some x \<Rightarrow> x = EOF \<and> flat_str g str f' = []" by blast
  moreover have "take ?k (fm_out f) @ flat_str g str ?f = flat_str g str f" by (simp add: flat_str_def)
  ultimately show "\<exists>res. flatmap_Read call opT outT rd f n = Some (Ret res) \<and>
      read_ok (flat_ok ok fin) (flat_str g str) (\<lambda>_. EOF) (\<lambda>f. length (flat_str g str f)) f n res"
    using assms(1) n by (cases e) (auto simp: flatmap_Read_def Let_def read_ok_def)
qed

lemma head_reader:
  "slice_reader (head_Read rd) (\<lambda>h. 0 < hd_n h \<longrightarrow> ok (hd_reader h) \<and> fin (hd_reader h) = EOF)
     (\<lambda>h. take (nat (hd_n h)) (str (hd_reader h))) (\<lambda>_. EOF) (\<lambda>h. mu (hd_reader h))"
proof
  fix h :: "'s headReader" and n :: nat
  assume h: "0 < hd_n h \<longrightarrow> ok (hd_reader h) \<and> fin (hd_reader h) = EOF" and n: "0 < n"
  show "\<exists>res. head_Read rd h n = Some (Ret res) \<and> read_ok (\<lambda>h. 0 < hd_n h \<longrightarrow> ok (hd_reader h) \<and> fin (hd_reader h) = EOF)
     (\<lambda>h. take (nat (hd_n h)) (str (hd_reader h))) (\<lambda>_. EOF) (\<lambda>h. mu (hd_reader h)) h n res"
  proof (cases "0 < hd_n h")
    case False
    then show ?thesis by (simp add: head_Read_def read_ok_def)
  next
    case True
    with h have r: "ok (hd_reader h)" "fin (hd_reader h) = EOF" by auto
    have t: "take (nat (hd_n h)) (xs @ ys) = take (nat (if hd_n h - int (length xs) < 0 then int (length xs) - - (hd_n h - int (length xs)) else int (length xs))) xs @
        take (nat (hd_n h - int (length xs))) ys" for xs ys :: "'r list"
      using True by (auto simp: nat_diff_distrib')
    from r(1) n show ?thesis
      by (cases rule: read_cases) (use True r t in \<open>auto simp: head_Read_def Let_def read_ok_def\<close>)
  qed
qed

text \<open>Read to the end, \<open>Head\<close> delivers the first rows of any reader; the error is EOF once the rows have been delivered.\<close>

lemma head_collect:
  assumes "0 < n"
  shows "0 < hd_n h \<longrightarrow> ok (hd_reader h) \<Longrightarrow> \<exists>h' e. collect (head_Read rd) n h acc = Some (Ret (h', acc @ take (nat (hd_n h)) (str (hd_reader h)), e)) \<and>
    e \<in> {EOF, fin (hd_reader h)} \<and> (length (str (hd_reader h)) < nat (hd_n h) \<longrightarrow> e = fin (hd_reader h))"
proof (induction "mu (hd_reader h)" arbitrary: h acc rule: less_induct)
  case less
  show ?case
  proof (cases "0 < hd_n h")
    case False
    then show ?thesis by (subst collect.simps) (simp add: head_Read_def)
  next
    case True
    let ?k = "\<lambda>xs :: 'r list. nat (if hd_n h - int (length xs) < 0 then int (length xs) - - (hd_n h - int (length xs)) else int (length xs))"
    have t: "take (nat (hd_n h)) (xs @ ys) = take (?k xs) xs @ take (nat (hd_n h - int (length xs))) ys" for xs ys :: "'r list"
      using True by (auto simp: nat_diff_distrib')
    have "ok (hd_reader h)" using less.prems True by simp
    from this assms show ?thesis
    proof (cases rule: read_cases)
      case (more r' xs)
      let ?h = "\<lparr>hd_reader = r', hd_n = hd_n h - int (length xs)\<rparr>"
      have "collect (head_Read rd) n h acc = collect (head_Read rd) n ?h (acc @ take (?k xs) xs)"
        using True more(1) by (subst collect.simps) (simp add: head_Read_def Let_def)
      moreover from less.hyps [of ?h "acc @ take (?k xs) xs"] more(2,6) obtain h' e where
        "collect (head_Read rd) n ?h (acc @ take (?k xs) xs) = Some (Ret (h', (acc @ take (?k xs) xs) @ take (nat (hd_n h - int (length xs))) (str r'), e))"
        "e \<in> {EOF, fin r'}" "length (str r') < nat (hd_n h - int (length xs)) \<longrightarrow> e = fin r'" by auto
      moreover have "length (str r') < nat (hd_n h - int (length xs)) \<longleftrightarrow> length (str (hd_reader h)) < nat (hd_n h)" using more(4) by auto
      ultimately show ?thesis unfolding more(4) t using more(5) by simp
    next
      case (stop r' xs)
      then show ?thesis using True t [of xs "[]"] by (subst collect.simps) (simp add: head_Read_def Let_def)
    qed
  qed
qed

text \<open>A writer function that never fails does not change what is read, and a reader function's rows are read as they are.\<close>

lemma writer_reader:
  assumes "\<forall>w e xs. \<exists>w'. write w e xs = Some (Ret (w', None))"
  shows "slice_reader (writer_Read temp st0 write rd) (\<lambda>r. wf_err r = None \<longrightarrow> ok (wf_reader r))
    (\<lambda>r. case wf_err r of None \<Rightarrow> str (wf_reader r) | Some e \<Rightarrow> []) (\<lambda>r. case wf_err r of None \<Rightarrow> fin (wf_reader r) | Some e \<Rightarrow> e)
    (\<lambda>r. mu (wf_reader r))"
proof
  fix r :: "('s, 'a) writerFuncReader" and n :: nat
  assume r: "wf_err r = None \<longrightarrow> ok (wf_reader r)" and n: "0 < n"
  let ?st = "case wf_state r of None \<Rightarrow> st0 | Some s \<Rightarrow> s"
  show "\<exists>res. writer_Read temp st0 write rd r n = Some (Ret res) \<and> read_ok (\<lambda>r. wf_err r = None \<longrightarrow> ok (wf_reader r))
    (\<lambda>r. case wf_err r of None \<Rightarrow> str (wf_reader r) | Some e \<Rightarrow> []) (\<lambda>r. case wf_err r of None \<Rightarrow> fin (wf_reader r) | Some e \<Rightarrow> e)
    (\<lambda>r. mu (wf_reader r)) r n res"
  proof (cases "wf_err r")
    case (Some e)
    then show ?thesis by (simp add: writer_Read_def read_ok_def)
  next
    case None
    with r have "ok (wf_reader r)" by simp
    from this n show ?thesis
    proof (cases rule: read_cases)
      case (more s' xs)
      obtain w' where "write ?st None xs = Some (Ret (w', None))" using assms by blast
      with None more show ?thesis by (simp add: writer_Read_def read_ok_def Let_def)
    next
      case (stop s' xs)
      obtain w' where "write ?st (Some (fin (wf_reader r))) xs = Some (Ret (w', None))" using assms by blast
      with None stop show ?thesis by (simp add: writer_Read_def read_ok_def Let_def)
    qed
  qed
qed

lemma readerfunc_reader:
  assumes "Assignable outT opT = Ret True" and "ok st0"
  defines "cur \<equiv> \<lambda>r. case rf_state r of None \<Rightarrow> st0 | Some s \<Rightarrow> s"
  shows "slice_reader (readerfunc_Read temp st0 rd opT outT) (\<lambda>r. rf_err r = None \<longrightarrow> ok (cur r))
    (\<lambda>r. case rf_err r of None \<Rightarrow> str (cur r) | Some e \<Rightarrow> [])
    (\<lambda>r. case rf_err r of None \<Rightarrow> (let e = fin (cur r) in if e = EOF \<or> temp e then e else ErrE [AFatal] (Some e)) | Some e \<Rightarrow> e)
    (\<lambda>r. mu (cur r))"
proof
  fix r :: "'s readerFuncReader" and n :: nat
  assume r: "rf_err r = None \<longrightarrow> ok (cur r)" and n: "0 < n"
  show "\<exists>res. readerfunc_Read temp st0 rd opT outT r n = Some (Ret res) \<and> read_ok (\<lambda>r. rf_err r = None \<longrightarrow> ok (cur r))
    (\<lambda>r. case rf_err r of None \<Rightarrow> str (cur r) | Some e \<Rightarrow> [])
    (\<lambda>r. case rf_err r of None \<Rightarrow> (let e = fin (cur r) in if e = EOF \<or> temp e then e else ErrE [AFatal] (Some e)) | Some e \<Rightarrow> e)
    (\<lambda>r. mu (cur r)) r n res"
  proof (cases "rf_err r")
    case (Some e)
    then show ?thesis by (simp add: readerfunc_Read_def read_ok_def)
  next
    case None
    with r have "ok (cur r)" by simp
    from this n show ?thesis
      by (cases rule: read_cases) (use None assms(1) in \<open>auto simp: readerfunc_Read_def read_ok_def Let_def cur_def split: option.splits\<close>)
  qed
qed

end

lemma const_reader:
  assumes "Assignable opT outT = Ret True"
  shows "eof_alone_reader (const_Read opT outT) (\<lambda>_. True) (\<lambda>f. f) (\<lambda>_. EOF) length"
  using assms by unfold_locales (auto simp: const_Read_def Let_def read_ok_def)

text \<open>
  C22.  The reader of \<open>Flatmap\<close> delivers the flattened results of the user's function: read to the end
  in batches of any size, over any reader that ends with EOF, it returns the rows that the function
  makes of each input row, in order, and no other; results that do not fit a batch are not lost.
\<close>

theorem Flatmap_rows:
  assumes "slice_reader rd ok str fin mu" and "ok r" and "fin r = EOF" and "0 < chunk"
    and "\<forall>x. call x = Ret (g x)" and "Assignable outT opT = Ret True"
  shows "\<exists>f'. ReadAll (flatmap_Read call opT outT rd) chunk
      \<lparr>fm_reader = r, fm_in = [], begIn = 0, endIn = 0, fm_out = [], fm_eof = False\<rparr> [] = Some (Ret (f', concat (map g (str r)), None))"
proof -
  let ?f = "\<lparr>fm_reader = r, fm_in = [], begIn = 0, endIn = 0, fm_out = [], fm_eof = False\<rparr>"
  note fr = slice_reader.flatmap_reader [OF assms(1,6,5)]
  have "flat_ok ok fin ?f" "flat_str g str ?f = concat (map g (str r))" using assms(2,3) by (simp_all add: flat_ok_def flat_str_def)
  with slice_reader.readall_loop_spec [OF fr _ assms(4), of ?f "[]"] show ?thesis by (auto simp: ReadAll_def)
qed

theorem Flatmap_rows_witness:
  "\<exists>f'. ReadAll (flatmap_Read (\<lambda>n. Ret (replicate n n)) (TypeSlice [TBasic ''int'']) (TypeSlice [TBasic ''int'']) frame_Read) 2
      \<lparr>fm_reader = [3, 0, 2], fm_in = [], begIn = 0, endIn = 0, fm_out = [], fm_eof = False\<rparr> [] = Some (Ret (f', [3, 3, 3, 2, 2], None))"
proof -
  have "Assignable (TypeSlice [TBasic ''int'']) (TypeSlice [TBasic ''int'']) = Ret True"
    by (simp add: Assignable_cols AssignableTo_def)
  from Flatmap_rows [OF frd.slice_reader_axioms _ _ _ _ this, where r = "[3, 0, 2]" and chunk = 2 and call = "\<lambda>n. Ret (replicate n n)" and g = "\<lambda>n. replicate n n"]
  show ?thesis by (simp add: numeral_eq_Suc)
qed

text \<open>
  C23.  The readers of \<open>Map\<close>, \<open>Filter\<close> and \<open>Head\<close> deliver what the operations promise of any reader, and hand on the error
  that ends it.  Read to the end in batches of any size they deliver, in order and with nothing lost when rows come
  together with the error: the images of all rows, then the reader's own error; the rows the predicate accepts,
  then the reader's own error; the first \<open>k\<close> rows, then EOF or the reader's own error, which it must be when
  the reader has fewer than \<open>k\<close> rows.
\<close>

theorem ops_rows:
  assumes "slice_reader rd ok str fin mu" and "ok r" and "0 < chunk"
    and "\<forall>x. sfunc_Call f ctx x = Ret (g x)" and "\<forall>x. p x = Ret (q x)" and "Assignable outT opT = Ret True"
  shows "(\<exists>m. collect (map_Read f ctx opT outT rd) chunk \<lparr>op_reader = r, op_err = None\<rparr> [] = Some (Ret (m, map g (str r), fin r))) \<and>
    (\<exists>m. collect (filter_Read p opT outT rd) chunk \<lparr>op_reader = r, op_err = None\<rparr> [] = Some (Ret (m, filter q (str r), fin r))) \<and>
    (\<exists>h e. collect (head_Read rd) chunk \<lparr>hd_reader = r, hd_n = int k\<rparr> [] = Some (Ret (h, take k (str r), e)) \<and>
      e \<in> {EOF, fin r} \<and> (length (str r) < k \<longrightarrow> e = fin r))"
proof -
  let ?m = "\<lparr>op_reader = r, op_err = None\<rparr>" and ?h = "\<lparr>hd_reader = r, hd_n = int k\<rparr>"
  have ok: "op_ok ok ?m" "op_fin fin ?m = fin r" "op_str h str ?m = h (str r)" for h :: "'b list list \<Rightarrow> 'b list list"
    using assms(2) by (simp_all add: op_defs)
  from slice_reader.collect_spec [OF map_reader [OF assms(1,6,4)] ok(1) assms(3), of "[]"] ok(2,3)
  have "\<exists>m. collect (map_Read f ctx opT outT rd) chunk ?m [] = Some (Ret (m, map g (str r), fin r))" by auto
  moreover from slice_reader.collect_spec [OF slice_reader.filter_reader [OF assms(1,6,5)] ok(1) assms(3), of "[]"] ok(2,3)
  have "\<exists>m. collect (filter_Read p opT outT rd) chunk ?m [] = Some (Ret (m, filter q (str r), fin r))" by auto
  moreover from slice_reader.head_collect [OF assms(1,3), of ?h "[]"] assms(2)
  have "\<exists>h e. collect (head_Read rd) chunk ?h [] = Some (Ret (h, take k (str r), e)) \<and> e \<in> {EOF, fin r} \<and> (length (str r) < k \<longrightarrow> e = fin r)" by simp
  ultimately show ?thesis by blast
qed

definition pair_func :: "int sfunc" where
  "pair_func = \<lparr>In = TypeSlice [TBasic ''int''], OutT = FuncOut [TBasic ''int''], IsVariadic = False, fn = Some (\<lambda>xs. Ret (map (\<lambda>x. 2 * x) xs)),
     contextFunc = False\<rparr>"

theorem ops_rows_witness:
  "(\<exists>m. collect (map_Read pair_func 0 (TypeSlice [TBasic ''int'']) (TypeSlice [TBasic ''int'']) frame_Read) 2 \<lparr>op_reader = [[1], [2], [3]], op_err = None\<rparr> [] =
      Some (Ret (m, [[2], [4], [6]], EOF))) \<and>
   (\<exists>m. collect (filter_Read (\<lambda>x. Ret (x \<noteq> [2])) (TypeSlice [TBasic ''int'']) (TypeSlice [TBasic ''int'']) frame_Read) 2
      \<lparr>op_reader = [[1], [2], [3]], op_err = None\<rparr> [] = Some (Ret (m, [[1], [3::int]], EOF))) \<and>
   (\<exists>h. collect (head_Read frame_Read) 2 \<lparr>hd_reader = [[1], [2], [3::int]], hd_n = int 1\<rparr> [] = Some (Ret (h, [[1]], EOF)))"
proof -
  have "Assignable (TypeSlice [TBasic ''int'']) (TypeSlice [TBasic ''int'']) = Ret True"
    by (simp add: Assignable_cols AssignableTo_def)
  moreover have "\<forall>x. sfunc_Call pair_func 0 x = Ret (map (\<lambda>x. 2 * x) x)" by (simp add: sfunc_Call_def pair_func_def)
  ultimately show ?thesis
    using ops_rows [OF frd.slice_reader_axioms, where r = "[[1], [2], [3]]" and chunk = 2 and f = pair_func
      and ctx = 0 and g = "map (\<lambda>x. 2 * x)" and p = "\<lambda>x. Ret (x \<noteq> [2])" and q = "\<lambda>x. x \<noteq> [2]" and k = 1]
    by simp
qed

section \<open>Fold\<close>

definition vals_of :: "'k \<Rightarrow> ('k \<times> 'v list) list \<Rightarrow> 'v list list" where
  "vals_of k rws = map snd (filter (\<lambda>r. fst r = k) rws)"

lemma vals_of_simps [simp]:
  "vals_of k [] = []" "vals_of k (r # rws) = (if fst r = k then snd r # vals_of k rws else vals_of k rws)"
  by (simp_all add: vals_of_def)

lemma vals_of_Nil_iff: "vals_of k rws = [] \<longleftrightarrow> k \<notin> fst ` set rws"
  by (induction rws) auto

lemma Accumulate_append:
  "Accumulate call zero (xs @ ys) st = go_bind (Accumulate call zero xs st) (Accumulate call zero ys)"
proof (induction xs arbitrary: st)
  case (Cons x xs)
  then show ?case by (cases "call ((case map_of st (fst x) of None \<Rightarrow> zero | Some v \<Rightarrow> v) # snd x)") (simp_all add: Let_def)
qed simp

lemma Accumulate_spec:
  assumes "\<forall>args. call args = Ret (g args)" and "distinct (map fst st)"
  shows "\<exists>st'. Accumulate call zero rws st = Ret st' \<and> distinct (map fst st') \<and>
    (\<forall>k. map_of st' k = (if vals_of k rws = [] then map_of st k
       else Some (foldl (\<lambda>a vs. g (a # vs)) (case map_of st k of None \<Rightarrow> zero | Some v \<Rightarrow> v) (vals_of k rws))))"
  using assms(2)
proof (induction rws arbitrary: st)
  case (Cons r rws)
  let ?v = "g ((case map_of st (fst r) of None \<Rightarrow> zero | Some v \<Rightarrow> v) # snd r)"
  let ?st = "AList.update (fst r) ?v st"
  have "distinct (map fst ?st)" using Cons.prems by (rule distinct_update)
  from Cons.IH [OF this] obtain st' where st': "Accumulate call zero rws ?st = Ret st'" "distinct (map fst st')"
    "\<forall>k. map_of st' k = (if vals_of k rws = [] then map_of ?st k
       else Some (foldl (\<lambda>a vs. g (a # vs)) (case map_of ?st k of None \<Rightarrow> zero | Some v \<Rightarrow> v) (vals_of k rws)))" by blast
  moreover have e: "Accumulate call zero (r # rws) st = Accumulate call zero rws ?st" using assms(1) by (simp add: Let_def)
  ultimately show ?case unfolding e by (intro exI [of _ st']) (auto simp: update_conv')
qed simp

lemma fold_compute_spec:
  assumes "slice_reader rd ok str fin mu" and "0 < chunk" and "\<forall>args. call args = Ret (g args)"
    and "ok r" and "fin r = EOF" and "Accumulate call zero (str r) st = Ret st'"
  shows "\<exists>r'. fold_compute call zero chunk rd r st = Some (Ret (r', Inr st'))"
  using assms(4-)
proof (induction "mu r" arbitrary: r st rule: less_induct)
  case less
  show ?case
  proof (cases rule: slice_reader.read_cases [OF assms(1) less.prems(1) assms(2), case_names more stop])
    case (more r' xs)
    obtain st1 where st1: "Accumulate call zero xs st = Ret st1" "Accumulate call zero (str r') st1 = Ret st'"
      using less.prems(3) more(4) by (auto simp: Accumulate_append go_bind_eq_Ret)
    with less.hyps [OF more(6,2) _ st1(2)] more(1,5) less.prems(2) show ?thesis
      by (subst fold_compute.simps) simp
  next
    case (stop r' xs)
    then show ?thesis using less.prems(2,3) by (subst fold_compute.simps) simp
  qed
qed

lemma fold_Read_accum:
  assumes "Assignable outT opT = Ret True"
  shows "fold_Read call zero order chunk opT outT rd \<lparr>fo_reader = r, fo_accum = Some st, fo_err = None\<rparr> n =
    (let (st', xs, err) = accum_Read order st n in Some (Ret (\<lparr>fo_reader = r, fo_accum = Some st', fo_err = err\<rparr>, xs, err)))"
  using assms by (simp add: fold_Read_def)

lemma fold_drain:
  assumes "Assignable outT opT = Ret True" and "\<forall>es. mset (order es) = mset es" and "0 < c"
  shows "\<exists>f' xs. readall_loop (fold_Read call zero order chunk opT outT rd) c \<lparr>fo_reader = r, fo_accum = Some st, fo_err = None\<rparr> acc =
    Some (Ret (f', acc @ xs, None)) \<and> mset xs = mset st"
proof (induction "length st" arbitrary: st acc rule: less_induct)
  case less
  let ?st = "drop c (order st)" and ?xs = "take c (order st)"
  have len: "length (order st) = length st" by (metis assms(2) size_mset)
  show ?case
  proof (cases "?st = []")
    case True
    then have "mset ?xs = mset st" using assms(2) by (metis append_take_drop_id append.right_neutral)
    with True show ?thesis
      by (subst readall_loop.simps) (simp add: fold_Read_accum [OF assms(1)] accum_Read_def Let_def)
  next
    case False
    then have "length ?st < length st" using len assms(3) by (cases "order st") auto
    from less [OF this, of "acc @ ?xs"] obtain f' ys where
      "readall_loop (fold_Read call zero order chunk opT outT rd) c \<lparr>fo_reader = r, fo_accum = Some ?st, fo_err = None\<rparr> (acc @ ?xs) =
        Some (Ret (f', (acc @ ?xs) @ ys, None))" "mset ys = mset ?st" by blast
    moreover have "mset (?xs @ ys) = mset st" using assms(2) calculation(2) by (metis append_take_drop_id mset_append)
    ultimately show ?thesis using False
      by (subst readall_loop.simps) (intro exI [of _ f'] exI [of _ "?xs @ ys"], simp add: fold_Read_accum [OF assms(1)] accum_Read_def Let_def)
  qed
qed

text \<open>
  C24.  \<open>Fold\<close> delivers every key of its input once, with the user's function folded over the rows of
  that key in their order, starting from the zero value; this holds for every order in which the
  map of the accumulator is ranged over and for batches of any size.
\<close>

theorem Fold_groups:
  assumes "slice_reader rd ok str fin mu" and "ok r" and "fin r = EOF" and "0 < chunk" and "0 < c"
    and "\<forall>args. call args = Ret (g args)" and "\<forall>es. mset (order es) = mset es" and "Assignable outT opT = Ret True"
  shows "\<exists>f' xs. ReadAll (fold_Read call zero order chunk opT outT rd) c \<lparr>fo_reader = r, fo_accum = None, fo_err = None\<rparr> [] =
      Some (Ret (f', xs, None)) \<and> distinct (map fst xs) \<and>
    (\<forall>k v. (k, v) \<in> set xs \<longleftrightarrow> k \<in> fst ` set (str r) \<and> v = foldl (\<lambda>a vs. g (a # vs)) zero (vals_of k (str r)))"
proof -
  obtain st where st: "Accumulate call zero (str r) [] = Ret st" "distinct (map fst st)"
    "\<forall>k. map_of st k = (if vals_of k (str r) = [] then None else Some (foldl (\<lambda>a vs. g (a # vs)) zero (vals_of k (str r))))"
    using Accumulate_spec [OF assms(6), of "[]" zero "str r"] by auto
  from fold_compute_spec [OF assms(1,4,6,2,3) st(1)] obtain r' where
    "fold_compute call zero chunk rd r [] = Some (Ret (r', Inr st))" by blast
  then have "fold_Read call zero order chunk opT outT rd \<lparr>fo_reader = r, fo_accum = None, fo_err = None\<rparr> c =
      fold_Read call zero order chunk opT outT rd \<lparr>fo_reader = r', fo_accum = Some st, fo_err = None\<rparr> c"
    using assms(8) by (simp add: fold_Read_def)
  then have e: "readall_loop (fold_Read call zero order chunk opT outT rd) c \<lparr>fo_reader = r, fo_accum = None, fo_err = None\<rparr> [] =
      readall_loop (fold_Read call zero order chunk opT outT rd) c \<lparr>fo_reader = r', fo_accum = Some st, fo_err = None\<rparr> []"
    by (subst (1 2) readall_loop.simps) simp
  from fold_drain [OF assms(8,7,5), of call zero chunk rd r' st "[]"] obtain f' xs where
    xs: "readall_loop (fold_Read call zero order chunk opT outT rd) c \<lparr>fo_reader = r', fo_accum = Some st, fo_err = None\<rparr> [] =
      Some (Ret (f', xs, None))" "mset xs = mset st" by auto
  have "mset (map fst xs) = mset (map fst st)" using xs(2) by (metis mset_map)
  then have "distinct (map fst xs)" using st(2) by (metis mset_eq_imp_distinct_iff)
  moreover have "(k, v) \<in> set xs \<longleftrightarrow> map_of st k = Some v" for k v
    using st(2) xs(2) by (metis map_of_eq_Some_iff set_mset_mset)
  ultimately show ?thesis using xs(1) e st(3)
    by (intro exI [of _ f'] exI [of _ xs]) (auto simp: ReadAll_def vals_of_Nil_iff)
qed

theorem Fold_groups_witness:
  "\<exists>f' xs. ReadAll (fold_Read (\<lambda>args. Ret (sum_list args)) 0 rev 2 (TypeSlice [TBasic ''string'', TBasic ''int''])
       (TypeSlice [TBasic ''string'', TBasic ''int'']) frame_Read) 1
      \<lparr>fo_reader = [(''a'', [1]), (''b'', [2]), (''a'', [3::int])], fo_accum = None, fo_err = None\<rparr> [] = Some (Ret (f', xs, None)) \<and>
    distinct (map fst xs) \<and> (''a'', 4) \<in> set xs \<and> (''b'', 2) \<in> set xs"
proof -
  have "Assignable (TypeSlice [TBasic ''string'', TBasic ''int'']) (TypeSlice [TBasic ''string'', TBasic ''int'']) = Ret True"
    by (simp add: Assignable_cols AssignableTo_def)
  from Fold_groups [OF frd.slice_reader_axioms _ _ _ _ _ _ this, where r = "[(''a'', [1]), (''b'', [2]), (''a'', [3::int])]"
      and chunk = 2 and c = 1 and call = "\<lambda>args. Ret (sum_list args)" and g = sum_list and order = rev and zero = 0]
  show ?thesis by auto
qed

section \<open>Lines\<close>

fun every :: "nat \<Rightarrow> 'a list \<Rightarrow> 'a list" where
  "every n [] = []"
| "every n (x # xs) = x # every n (drop (n - 1) xs)"

lemma every_drop: "0 < n \<Longrightarrow> every n (drop i xs) = (if i < length xs then xs ! i # every n (drop i (drop n xs)) else [])"
  by (auto simp: add.commute simp flip: Cons_nth_drop_Suc)

lemma mset_every:
  assumes "0 < n"
  shows "(\<Sum>i<n. mset (every n (drop i xs))) = mset xs"
proof (induction "length xs" arbitrary: xs rule: less_induct)
  case less
  have take: "(\<Sum>i<k. if i < length xs then {#xs ! i#} else {#}) = mset (take k xs)" for k
    by (induction k) (auto simp: take_Suc_conv_app_nth)
  have "mset (every n (drop i xs)) = (if i < length xs then {#xs ! i#} else {#}) + mset (every n (drop i (drop n xs)))" for i
    by (subst every_drop [OF assms]) simp
  then have "(\<Sum>i<n. mset (every n (drop i xs))) = mset (take n xs) + (\<Sum>i<n. mset (every n (drop i (drop n xs))))"
    by (simp only: sum.distrib take)
  also have "(\<Sum>i<n. mset (every n (drop i (drop n xs)))) = mset (drop n xs)"
    using less [of "drop n xs"] assms by (cases xs) auto
  finally show ?case by (metis append_take_drop_id mset_append)
qed

text \<open>The lines that the following calls will deliver, and the error that ends them.\<close>

definition next_lines :: "nat \<Rightarrow> linestate \<Rightarrow> string list" where
  "next_lines n s = every n (drop (n - 1) (ls_left s))"

definition lines_end :: "gerr \<Rightarrow> goerror" where
  "lines_end e = (case e of None \<Rightarrow> EOF | Some x \<Rightarrow> x)"

lemma skip_ok:
  "n \<le> length (ls_left s) \<Longrightarrow>
     skip n s = (s\<lparr>ls_left := drop n (ls_left s), ls_text := (if n = 0 then ls_text s else ls_left s ! (n - 1))\<rparr>, None)"
proof (induction n arbitrary: s)
  case (Suc n)
  then show ?case by (cases "ls_left s") (auto simp: nth_Cons')
qed simp

lemma skip_fail:
  "length (ls_left s) < n \<Longrightarrow>
     \<exists>s'. skip n s = (s', Some (lines_end (ls_err s))) \<and> ls_left s' = [] \<and> ls_open s' = ls_open s \<and> ls_err s' = ls_err s"
proof (induction n arbitrary: s)
  case (Suc n)
  show ?case
  proof (cases "ls_left s")
    case (Cons l ls)
    with Suc.IH [of "s\<lparr>ls_left := ls, ls_text := l\<rparr>"] Suc.prems show ?thesis by simp
  qed (auto simp: lines_end_def split: option.splits)
qed simp

lemma lines_loop_spec:
  assumes "0 < n" and "\<not> first \<or> i \<noteq> 0"
  shows "\<exists>s'. lines_loop n first i k s acc = (s', acc @ take k (next_lines n s), if k \<le> length (next_lines n s) then None else Some (lines_end (ls_err s))) \<and>
    ls_open s' = ls_open s \<and> ls_err s' = ls_err s \<and> next_lines n s' = drop k (next_lines n s)"
  using assms(2)
proof (induction k arbitrary: i s acc)
  case (Suc k)
  show ?case
  proof (cases "n \<le> length (ls_left s)")
    case True
    let ?s = "s\<lparr>ls_left := drop n (ls_left s), ls_text := ls_left s ! (n - 1)\<rparr>"
    have nl: "next_lines n s = ls_left s ! (n - 1) # next_lines n ?s"
      unfolding next_lines_def using True assms(1) by (subst every_drop [OF assms(1)]) simp
    from Suc.IH [of "Suc i" ?s "acc @ [ls_left s ! (n - 1)]"] Suc.prems nl assms(1) True show ?thesis
      by (auto simp: skip_ok)
  next
    case False
    then have "next_lines n s = []" by (simp add: next_lines_def)
    moreover obtain s' where "skip n s = (s', Some (lines_end (ls_err s)))" "ls_left s' = []" "ls_open s' = ls_open s" "ls_err s' = ls_err s"
      using skip_fail [of s n] False by auto
    ultimately show ?thesis using Suc.prems by (auto simp: next_lines_def)
  qed
qed (simp add: next_lines_def)

definition shard_lines :: "nat \<Rightarrow> nat \<Rightarrow> string list \<Rightarrow> linestate \<Rightarrow> string list" where
  "shard_lines n shard ls s = (if ls_open s then next_lines n s else every n (drop shard ([] # ls)))"

lemma close_on_error_state:
  obtains s' where "close_on_error (s, xs, err) = (s', xs, err)" and "ls_open s' = ls_open s" and "ls_err s' = ls_err s"
    and "next_lines n s' = next_lines n s"
  by (rule that [of "fst (close_on_error (s, xs, err))"]) (auto simp: close_on_error_def next_lines_def)

lemma scanreader_first:
  assumes "0 < n" and "0 < m" and "\<not> ls_open s"
  shows "\<exists>s'. scanreader_read (Inr (ls, e)) n shard s m = Some (Ret (s', take m (shard_lines n shard ls s),
      if m \<le> length (shard_lines n shard ls s) then None else Some (lines_end e))) \<and>
    ls_open s' \<and> ls_err s' = e \<and> next_lines n s' = drop m (shard_lines n shard ls s)"
proof (cases "shard \<le> length ls")
  case True
  let ?z = "\<lparr>ls_open = True, ls_left = ls, ls_text = [], ls_err = e, ls_closed = 0\<rparr>"
  let ?t = "if shard = 0 then [] else ls ! (shard - 1)"
  let ?s = "?z\<lparr>ls_left := drop shard ls, ls_text := ?t\<rparr>"
  have sk: "skip shard ?z = (?s, None)" using skip_ok [of shard ?z] True by simp
  have "drop shard ([] # ls) = ?t # drop shard ls" using True by (cases shard) (auto simp: Cons_nth_drop_Suc)
  then have sl: "shard_lines n shard ls s = ?t # next_lines n ?s" using assms(3) by (simp add: shard_lines_def next_lines_def)
  obtain k where k: "m = Suc k" using assms(2) by (cases m) auto
  from lines_loop_spec [OF assms(1), of True 1 k ?s "[?t]"] obtain s' where
    "lines_loop n True 1 k ?s [?t] = (s', [?t] @ take k (next_lines n ?s), if k \<le> length (next_lines n ?s) then None else Some (lines_end e))"
    "ls_open s'" "ls_err s' = e" "next_lines n s' = drop k (next_lines n ?s)" by auto
  then have "lines_loop n True 0 m ?s [] = (s', take m (shard_lines n shard ls s),
      if m \<le> length (shard_lines n shard ls s) then None else Some (lines_end e))"
    "ls_open s'" "ls_err s' = e" "next_lines n s' = drop m (shard_lines n shard ls s)" using sl k by auto
  moreover from this(1) have "scanreader_read (Inr (ls, e)) n shard s m = Some (Ret (close_on_error (s', take m (shard_lines n shard ls s),
      if m \<le> length (shard_lines n shard ls s) then None else Some (lines_end e))))"
    using assms(3) sk by (simp add: scanreader_read_def)
  moreover obtain s'' where "close_on_error (s', take m (shard_lines n shard ls s), if m \<le> length (shard_lines n shard ls s) then None else Some (lines_end e)) =
      (s'', take m (shard_lines n shard ls s), if m \<le> length (shard_lines n shard ls s) then None else Some (lines_end e))"
    "ls_open s'' = ls_open s'" "ls_err s'' = ls_err s'" "next_lines n s'' = next_lines n s'" by (rule close_on_error_state)
  ultimately show ?thesis by (intro exI [of _ s'']) simp
next
  case False
  then obtain s' where "skip shard \<lparr>ls_open = True, ls_left = ls, ls_text = [], ls_err = e, ls_closed = 0\<rparr> = (s', Some (lines_end e))"
    "ls_left s' = []" "ls_open s'" "ls_err s' = e"
    using skip_fail [of "\<lparr>ls_open = True, ls_left = ls, ls_text = [], ls_err = e, ls_closed = 0\<rparr>" shard] by auto
  moreover have "shard_lines n shard ls s = []" using False assms(3) by (simp add: shard_lines_def)
  ultimately show ?thesis using assms(2,3) by (auto simp: scanreader_read_def close_on_error_def next_lines_def)
qed

lemma scanreader_reader:
  assumes "0 < n"
  shows "slice_reader (scanreader_read (Inr (ls, e)) n shard) (\<lambda>s. ls_open s \<longrightarrow> ls_err s = e) (shard_lines n shard ls)
    (\<lambda>_. lines_end e) (\<lambda>s. length (shard_lines n shard ls s))"
proof
  fix s :: linestate and m :: nat
  assume s: "ls_open s \<longrightarrow> ls_err s = e" and m: "0 < m"
  let ?ls = "shard_lines n shard ls s"
  have ex: "\<exists>s'. scanreader_read (Inr (ls, e)) n shard s m = Some (Ret (s', take m ?ls, if m \<le> length ?ls then None else Some (lines_end e))) \<and>
    ls_open s' \<and> ls_err s' = e \<and> next_lines n s' = drop m ?ls"
  proof (cases "ls_open s")
    case False
    then show ?thesis by (rule scanreader_first [OF assms m])
  next
    case True
    from lines_loop_spec [OF assms, of False 0 m s "[]"] obtain s' where s':
      "lines_loop n False 0 m s [] = (s', take m ?ls, if m \<le> length ?ls then None else Some (lines_end e))"
      "ls_open s'" "ls_err s' = e" "next_lines n s' = drop m ?ls" using True s by (auto simp: shard_lines_def)
    moreover obtain s'' where "close_on_error (s', take m ?ls, if m \<le> length ?ls then None else Some (lines_end e)) =
        (s'', take m ?ls, if m \<le> length ?ls then None else Some (lines_end e))"
      "ls_open s'' = ls_open s'" "ls_err s'' = ls_err s'" "next_lines n s'' = next_lines n s'" by (rule close_on_error_state)
    ultimately show ?thesis using True by (intro exI [of _ s'']) (simp add: scanreader_read_def)
  qed
  from ex obtain s' where "scanreader_read (Inr (ls, e)) n shard s m = Some (Ret (s', take m ?ls, if m \<le> length ?ls then None else Some (lines_end e)))"
    "ls_open s'" "ls_err s' = e" "shard_lines n shard ls s' = drop m ?ls" by (auto simp: shard_lines_def)
  then show "\<exists>res. scanreader_read (Inr (ls, e)) n shard s m = Some (Ret res) \<and>
      read_ok (\<lambda>s. ls_open s \<longrightarrow> ls_err s = e) (shard_lines n shard ls) (\<lambda>_. lines_end e) (\<lambda>s. length (shard_lines n shard ls s)) s m res"
    using m by (intro exI [of _ "(s', take m ?ls, if m \<le> length ?ls then None else Some (lines_end e))"]) (auto simp: read_ok_def)
qed

text \<open>
  \<open>ScanReader\<close> delivers one line too many: over its shards, each read to the end, it returns every
  line of the file once and in addition an empty line.  (The first shard takes the text of the
  scanner before anything has been scanned.)
\<close>

theorem ScanReader_lines:
  assumes "0 < nshard" and "0 < chunk" and "Assignable outT opT = Ret True" and "\<not> ls_open st0"
  shows "\<exists>rs. length rs = nshard \<and>
    (\<forall>i<nshard. \<exists>r'. ReadAll (readerfunc_Read temp st0 (scanreader_read (Inr (ls, None)) nshard i) opT outT) chunk
      \<lparr>rf_state = None, rf_err = None, consecutiveEmptyCalls = 0\<rparr> [] = Some (Ret (r', rs ! i, None))) \<and>
    mset (concat rs) = add_mset '''' (mset ls)"
proof -
  let ?rs = "map (\<lambda>i. every nshard (drop i ([] # ls))) [0 ..< nshard]"
  have "\<exists>r'. ReadAll (readerfunc_Read temp st0 (scanreader_read (Inr (ls, None)) nshard i) opT outT) chunk
      \<lparr>rf_state = None, rf_err = None, consecutiveEmptyCalls = 0\<rparr> [] = Some (Ret (r', ?rs ! i, None))" if "i < nshard" for i
  proof -
    note rd = slice_reader.readerfunc_reader [OF scanreader_reader [OF assms(1), where ls = ls and e = None and shard = i], OF assms(3), of st0]
    from slice_reader.readall_loop_spec [OF rd _ assms(2), where s = "\<lparr>rf_state = None, rf_err = None, consecutiveEmptyCalls = 0\<rparr>" and acc = "[]"]
      assms(4) that
    show ?thesis by (auto simp: ReadAll_def lines_end_def shard_lines_def)
  qed
  moreover have "mset (concat ?rs) = (\<Sum>i<nshard. mset (every nshard (drop i ([] # ls))))"
    by (simp add: mset_concat o_def lessThan_atLeast0 interv_sum_list_conv_sum_set_nat)
  ultimately show ?thesis using mset_every [OF assms(1), of "[] # ls"]
    by (intro exI [of _ ?rs]) simp
qed

theorem ScanReader_lines_witness:
  "\<exists>rs. length rs = 2 \<and>
    (\<forall>i<2. \<exists>r'. ReadAll (readerfunc_Read (\<lambda>_. False) \<lparr>ls_open = False, ls_left = [], ls_text = [], ls_err = None, ls_closed = 0\<rparr>
        (scanreader_read (Inr ([''a'', ''b'', ''c''], None)) 2 i) (TypeSlice [TBasic ''string'']) (TypeSlice [TBasic ''string''])) 8
      \<lparr>rf_state = None, rf_err = None, consecutiveEmptyCalls = 0\<rparr> [] = Some (Ret (r', rs ! i, None))) \<and>
    mset (concat rs) = {#'''', ''a'', ''b'', ''c''#}"
proof -
  have "Assignable (TypeSlice [TBasic ''string'']) (TypeSlice [TBasic ''string'']) = Ret True"
    by (simp add: Assignable_cols AssignableTo_def)
  from ScanReader_lines [OF _ _ this, of 2 8 "\<lparr>ls_open = False, ls_left = [], ls_text = [], ls_err = None, ls_closed = 0\<rparr>" "\<lambda>_. False" "[''a'', ''b'', ''c'']"]
  show ?thesis by simp
qed

end
