(* ===== verification/SliceCache.thy ===== *)
theory SliceCache
  imports SliceOps SortIO
begin

text \<open>
  \<open>internal/slicecache\<close> and \<open>cache.go\<close>: slices whose shards are kept in files.

  The file library (\<open>grailbio/base/file\<close>) is not part of the repository: it is the parameter \<open>lib\<close>, a
  record of the operations that are called, on a file system of any type.  What the code relies on
  is \<open>file_ok\<close>: a file that was created, written and closed without an error is found again and holds
  what was written.  Reading and writing go through the codec of \<open>sliceio\<close>.
\<close>

record ('fs, 'v, 'u) filelib =
  fl_Stat :: "'fs \<Rightarrow> string \<Rightarrow> bool"
  fl_Open :: "'fs \<Rightarrow> string \<Rightarrow> goerror + ('v, 'u) msg list"
  fl_Create :: "'fs \<Rightarrow> string \<Rightarrow> 'fs \<times> gerr"
  fl_Write :: "string \<Rightarrow> ('fs, 'v, 'u) putter"
  fl_Close :: "'fs \<Rightarrow> string \<Rightarrow> 'fs \<times> gerr"
  fl_Discard :: "'fs \<Rightarrow> string \<Rightarrow> 'fs"

section \<open>The cache of a slice\<close>

definition pad4 :: "nat \<Rightarrow> string" where
  "pad4 n = (let d = decimal n in replicate (4 - length d) (CHR ''0'') @ d)"

definition cache_path :: "FileShardCache \<Rightarrow> nat \<Rightarrow> string" where
  "cache_path c shard = fcPrefix c @ ''-'' @ pad4 shard @ ''-of-'' @ pad4 (fcNumShards c)"

definition NewFileShardCache :: "('fs, 'v, 'u) filelib \<Rightarrow> 'fs \<Rightarrow> string \<Rightarrow> nat \<Rightarrow> FileShardCache" where
  "NewFileShardCache lib fs prefix numShards =
     (if prefix = [] then \<lparr>fcPrefix = [], fcNumShards = 0, shardIsCached = [], requireAll = False\<rparr>
      else let c = \<lparr>fcPrefix = prefix, fcNumShards = numShards, shardIsCached = replicate numShards False, requireAll = False\<rparr>
           in c\<lparr>shardIsCached := map (\<lambda>shard. fl_Stat lib fs (cache_path c shard)) [0 ..< numShards]\<rparr>)"

text \<open>A nil \<open>*FileShardCache\<close> is \<open>None\<close>.\<close>

definition fsc_IsCached :: "FileShardCache option \<Rightarrow> nat \<Rightarrow> bool go" where
  "fsc_IsCached c shard = (case c of None \<Rightarrow> Ret False | Some c \<Rightarrow> list_index (shardIsCached c) (int shard))"

definition RequireAllCached :: "FileShardCache \<Rightarrow> FileShardCache" where
  "RequireAllCached c =
     (let c = c\<lparr>requireAll := True\<rparr>
      in if list_all id (shardIsCached c) then c else c\<lparr>shardIsCached := map (\<lambda>_. False) (shardIsCached c)\<rparr>)"

text \<open>\<open>CacheReader\<close>: the error of an error reader, or the path of a file reader.\<close>

definition fsc_CacheReader :: "FileShardCache \<Rightarrow> nat \<Rightarrow> (goerror + string) go" where
  "fsc_CacheReader c shard = go_bind (list_index (shardIsCached c) (int shard)) (\<lambda>cached.
     if \<not> cached
     then let path = (if requireAll c then fcPrefix c @ ''-NNNN-of-'' @ pad4 (fcNumShards c) else cache_path c shard)
          in Ret (Inl (ErrNew (''cache '' @ fcPrefix c @ '' invalid for shard '' @ decimal shard @ ''('' @ decimal (fcNumShards c) @ ''); check '' @ path)))
     else Ret (Inr (cache_path c shard)))"

subsection \<open>Cached slices\<close>

definition slice_Cache ::
  "stackframe list \<Rightarrow> ('fs, 'w, 'u) filelib \<Rightarrow> 'fs \<Rightarrow> 'v slices \<Rightarrow> nat \<Rightarrow> string \<Rightarrow> pkg \<Rightarrow> (pkg \<times> 'v Slice) go" where
  "slice_Cache frames lib fs sl s prefix g =
     (let c = RequireAllCached (NewFileShardCache lib fs prefix (nat (slNumShard (sl s))))
      in go_bind (MakeName ''cache'' frames g) (\<lambda>(g, name).
        Ret (g, (sl s)\<lparr>slImpl := cacheSlice c, slName := name, slDeps := [singleDep s False], slCombiner := sfunc_Nil, slPragma := None\<rparr>)))"

definition slice_CachePartial ::
  "stackframe list \<Rightarrow> ('fs, 'w, 'u) filelib \<Rightarrow> 'fs \<Rightarrow> 'v slices \<Rightarrow> nat \<Rightarrow> string \<Rightarrow> pkg \<Rightarrow> (pkg \<times> 'v Slice) go" where
  "slice_CachePartial frames lib fs sl s prefix g =
     (let c = NewFileShardCache lib fs prefix (nat (slNumShard (sl s)))
      in go_bind (MakeName ''cachepartial'' frames g) (\<lambda>(g, name).
        Ret (g, (sl s)\<lparr>slImpl := cacheSlice c, slName := name, slDeps := [singleDep s False], slCombiner := sfunc_Nil, slPragma := None\<rparr>)))"

definition slice_ReadCache ::
  "stackframe list \<Rightarrow> ('fs, 'w, 'u) filelib \<Rightarrow> 'fs \<Rightarrow> stype \<Rightarrow> nat \<Rightarrow> string \<Rightarrow> pkg \<Rightarrow> (pkg \<times> 'v Slice) go" where
  "slice_ReadCache frames lib fs typ numShard prefix g =
     (let c = RequireAllCached (NewFileShardCache lib fs prefix numShard)
      in go_bind (MakeName ''readcache'' frames g) (\<lambda>(g, name).
        Ret (g, \<lparr>slImpl = readCacheSlice c, slName = name, slType = typ, slNumShard = int numShard, slShardType = HashShard, slDeps = [],
          slCombiner = sfunc_Nil, slPragma = None\<rparr>)))"

section \<open>Readers of cached slices\<close>

text \<open>
  \<open>newFileReader\<close>: the file is opened by the first read; \<open>frClosed\<close> counts the calls of \<open>Close\<close>, whose
  errors are logged only.
\<close>

record ('v, 'u) fileReader =
  frDec :: "('v, 'u) decodingReader option"
  frClosed :: nat

definition file_Read ::
  "('fs, 'v, 'u) filelib \<Rightarrow> 'fs \<Rightarrow> (('v, 'u) msg list \<Rightarrow> 32 word) \<Rightarrow> ('v, 'u) ucodec \<Rightarrow> (nat \<Rightarrow> 'v) \<Rightarrow> nat \<Rightarrow> string
     \<Rightarrow> (('v, 'u) fileReader, 'v list) reader" where
  "file_Read lib fs crc uc zero ncol path f n =
     (let opened = (case frDec f of
          Some d \<Rightarrow> Inr d
        | None \<Rightarrow> (case fl_Open lib fs path of Inl e \<Rightarrow> Inl e | Inr ms \<Rightarrow> Inr (NewDecodingReader ms)))
      in case opened of
          Inl e \<Rightarrow> Some (Ret (f, [], Some e))
        | Inr d \<Rightarrow> run_bind (decoding_Read crc uc zero ncol d n) (\<lambda>(d', xs, err).
            Some (Ret (\<lparr>frDec = Some d', frClosed = (if err \<noteq> None then Suc (frClosed f) else frClosed f)\<rparr>, xs, err))))"

text \<open>
  \<open>newWritethroughReader\<close>.  The encoder writes to the file system, which the state of the reader
  carries in its field \<open>ew\<close>.
\<close>

record ('s, 'fs, 'v, 'u) writethroughReader =
  wtReader :: 's
  wtOpen :: bool
  wtEnc :: "('fs, 'v, 'u) encoder"

definition writethrough_Read ::
  "('fs, 'v, 'u) filelib \<Rightarrow> (('v, 'u) msg list \<Rightarrow> 32 word) \<Rightarrow> ('v, 'u) ucodec \<Rightarrow> nat \<Rightarrow> string \<Rightarrow> ('s, 'v list) reader
     \<Rightarrow> (('s, 'fs, 'v, 'u) writethroughReader, 'v list) reader" where
  "writethrough_Read lib crc uc ncol path rd r n =
     (let (r, operr) = (if wtOpen r then (r, None)
          else case fl_Create lib (ew (wtEnc r)) path of
              (fs, Some e) \<Rightarrow> (r\<lparr>wtEnc := (wtEnc r)\<lparr>ew := fs\<rparr>\<rparr>, Some e)
            | (fs, None) \<Rightarrow> (r\<lparr>wtOpen := True, wtEnc := NewEncodingWriter fs\<rparr>, None))
      in if operr \<noteq> None then Some (Ret (r, [], operr))
         else run_bind (rd (wtReader r) n) (\<lambda>(rd', xs, err).
           let r = r\<lparr>wtReader := rd'\<rparr>
           in if err = None \<or> err = Some EOF
              then case enc_Write (fl_Write lib path) crc uc (wtEnc r) (batch_of_rows ncol xs) of
                  (e', Some werr) \<Rightarrow> Some (Ret (r\<lparr>wtEnc := e'\<rparr>, xs, Some werr))
                | (e', None) \<Rightarrow>
                    if err = Some EOF
                    then case fl_Close lib (ew e') path of
                        (fs, Some cerr) \<Rightarrow> Some (Ret (r\<lparr>wtEnc := e'\<lparr>ew := fs\<rparr>\<rparr>, xs, Some cerr))
                      | (fs, None) \<Rightarrow> Some (Ret (r\<lparr>wtEnc := e'\<lparr>ew := fs\<rparr>\<rparr>, xs, err))
                    else Some (Ret (r\<lparr>wtEnc := e'\<rparr>, xs, err))
              else Some (Ret (r\<lparr>wtEnc := (wtEnc r)\<lparr>ew := fl_Discard lib (ew (wtEnc r)) path\<rparr>\<rparr>, xs, err))))"

section \<open>Writing through and reading back\<close>

text \<open>
  What is relied on of the file library for the file \<open>path\<close>; \<open>pend fs\<close> is what has been written to the
  file since it was created.
\<close>

definition file_ok :: "('fs, 'v, 'u) filelib \<Rightarrow> string \<Rightarrow> ('fs \<Rightarrow> ('v, 'u) msg list) \<Rightarrow> bool" where
  "file_ok lib path pend \<longleftrightarrow>
     (\<forall>fs. \<exists>fs'. fl_Create lib fs path = (fs', None) \<and> pend fs' = []) \<and>
     (\<forall>fs m. \<exists>fs'. fl_Write lib path fs m = (fs', None) \<and> pend fs' = pend fs @ [m]) \<and>
     (\<forall>fs. \<exists>fs'. fl_Close lib fs path = (fs', None) \<and> fl_Open lib fs' path = Inr (pend fs) \<and> fl_Stat lib fs' path)"

text \<open>
  Encoding to a writer that appends the bytes \<open>ser m\<close> of each message \<open>m\<close> to what has been written, and never
  fails while it is in a state of \<open>P\<close>.
\<close>

definition appends :: "('w, 'v, 'u) putter \<Rightarrow> ('w \<Rightarrow> bool) \<Rightarrow> ('w \<Rightarrow> 'b list) \<Rightarrow> (('v, 'u) msg \<Rightarrow> 'b list) \<Rightarrow> bool" where
  "appends put P pend ser \<longleftrightarrow> (\<forall>w m. P w \<longrightarrow> (\<exists>w'. put w m = (w', None) \<and> P w' \<and> pend w' = pend w @ ser m))"

lemma enc_msg_appends:
  assumes "appends put P pend ser" and "P (ew e)"
  shows "\<exists>e'. enc_msg put e m = (e', None) \<and> P (ew e') \<and> pend (ew e') = pend (ew e) @ ser m \<and> ecrc e' = ecrc e @ [m]"
proof -
  from assms obtain w' where "put (ew e) m = (w', None)" "P w'" "pend w' = pend (ew e) @ ser m" unfolding appends_def by blast
  then show ?thesis by (simp add: enc_msg_def)
qed

lemma write_cols_appends:
  assumes "uc_ok uc" and put: "appends put P pend ser" and "P (ew e)"
  shows "\<exists>e'. write_cols put uc i cs e = (e', None) \<and> P (ew e') \<and> pend (ew e') = pend (ew e) @ concat (map ser (cols_msgs uc i cs)) \<and>
    ecrc e' = ecrc e @ cols_msgs uc i cs"
  using assms(3)
proof (induction cs arbitrary: i e)
  case (Cons c cs)
  note em = enc_msg_appends [OF put]
  from em [OF Cons.prems, of "MBool (uc i \<noteq> None)"] obtain e1 where
    e1: "enc_msg put e (MBool (uc i \<noteq> None)) = (e1, None)" "P (ew e1)" "pend (ew e1) = pend (ew e) @ ser (MBool (uc i \<noteq> None))"
      "ecrc e1 = ecrc e @ [MBool (uc i \<noteq> None)]" by blast
  show ?case
  proof (cases "uc i")
    case None
    from em [OF e1(2), of "MCol c"] obtain e2 where
      "enc_msg put e1 (MCol c) = (e2, None)" "P (ew e2)" "pend (ew e2) = pend (ew e1) @ ser (MCol c)" "ecrc e2 = ecrc e1 @ [MCol c]" by blast
    with e1 Cons.IH [of e2 "Suc i"] None show ?thesis by (auto simp: col_msgs_def)
  next
    case (Some p)
    obtain enc dec where p: "p = (enc, dec)" by (cases p)
    with assms(1) Some obtain u where u: "enc c = Inr u" unfolding uc_ok_def by blast
    from em [OF e1(2), of "MUser u"] obtain e2 where
      "enc_msg put e1 (MUser u) = (e2, None)" "P (ew e2)" "pend (ew e2) = pend (ew e1) @ ser (MUser u)" "ecrc e2 = ecrc e1 @ [MUser u]" by blast
    with e1 Cons.IH [of e2 "Suc i"] Some p u show ?thesis by (auto simp: col_msgs_def)
  qed
qed simp

lemma enc_Write_appends:
  assumes "uc_ok uc" and put: "appends put P pend ser" and "P (ew e)"
  obtains e' where "enc_Write put crc uc e f = (e', None)" and "P (ew e')" and "pend (ew e') = pend (ew e) @ concat (map ser (batch_msgs crc uc f))"
proof -
  from enc_msg_appends [OF put, of "e\<lparr>ecrc := []\<rparr>" "MInt (int (blen f))"] assms(3) obtain e1 where
    e1: "enc_msg put (e\<lparr>ecrc := []\<rparr>) (MInt (int (blen f))) = (e1, None)" "P (ew e1)" "pend (ew e1) = pend (ew e) @ ser (MInt (int (blen f)))"
      "ecrc e1 = [MInt (int (blen f))]" by auto
  from write_cols_appends [OF assms(1) put e1(2), of 0 "bcols f"] obtain e2 where
    e2: "write_cols put uc 0 (bcols f) e1 = (e2, None)" "P (ew e2)" "pend (ew e2) = pend (ew e1) @ concat (map ser (cols_msgs uc 0 (bcols f)))"
      "ecrc e2 = MInt (int (blen f)) # cols_msgs uc 0 (bcols f)" using e1(4) by auto
  from enc_msg_appends [OF put e2(2), of "MSum (crc (ecrc e2))"] obtain e3 where
    "enc_msg put e2 (MSum (crc (ecrc e2))) = (e3, None)" "P (ew e3)" "pend (ew e3) = pend (ew e2) @ ser (MSum (crc (ecrc e2)))" by blast
  with e1 e2 show thesis by (intro that [of e3]) (simp_all add: enc_Write_def batch_msgs_def Let_def)
qed

lemma enc_Write_pend:
  assumes "uc_ok uc" and "\<forall>w m. \<exists>w'. put w m = (w', None) \<and> pend w' = pend w @ [m]"
  obtains e' where "enc_Write put crc uc e f = (e', None)" and "pend (ew e') = pend (ew e) @ batch_msgs crc uc f"
proof -
  have "appends put (\<lambda>_. True) pend (\<lambda>m. [m])" using assms(2) by (simp add: appends_def)
  from enc_Write_appends [OF assms(1) this, where e = e and crc = crc and f = f] that show thesis by auto
qed

text \<open>The messages of the rows \<open>xs\<close> written in batches.\<close>

definition file_rows :: "(('v, 'u) msg list \<Rightarrow> 32 word) \<Rightarrow> ('v, 'u) ucodec \<Rightarrow> nat \<Rightarrow> 'v list list \<Rightarrow> ('v, 'u) msg list \<Rightarrow> bool" where
  "file_rows crc uc ncol xs ms \<longleftrightarrow>
     (\<exists>fs. (\<forall>f\<in>set fs. wf_batch ncol f) \<and> concat (map rows_of_batch fs) = xs \<and> ms = concat (map (batch_msgs crc uc) fs))"

lemma file_rows_snoc:
  assumes "file_rows crc uc ncol xs ms" and "\<forall>y\<in>set ys. length y = ncol"
  shows "file_rows crc uc ncol (xs @ ys) (ms @ batch_msgs crc uc (batch_of_rows ncol ys))"
proof -
  from assms(1) obtain fs where "\<forall>f\<in>set fs. wf_batch ncol f" "concat (map rows_of_batch fs) = xs" "ms = concat (map (batch_msgs crc uc) fs)"
    by (auto simp: file_rows_def)
  then show ?thesis
    using rows_of_batch_of_rows [OF assms(2)] unfolding file_rows_def by (intro exI [of _ "fs @ [batch_of_rows ncol ys]"]) auto
qed

lemma writethrough_loop:
  assumes "slice_reader rd ok str fin mu" and "0 < chunk" and "uc_ok uc" and "file_ok lib path pend"
    and "ok (wtReader r)" and "fin (wtReader r) = EOF" and "\<forall>x\<in>set (str (wtReader r)). length x = ncol"
    and "wtOpen r" and "file_rows crc uc ncol acc (pend (ew (wtEnc r)))"
  shows "\<exists>r' ms. readall_loop (writethrough_Read lib crc uc ncol path rd) chunk r acc = Some (Ret (r', acc @ str (wtReader r), None)) \<and>
    fl_Open lib (ew (wtEnc r')) path = Inr ms \<and> fl_Stat lib (ew (wtEnc r')) path \<and> file_rows crc uc ncol (acc @ str (wtReader r)) ms"
  using assms(5-)
proof (induction "mu (wtReader r)" arbitrary: r acc rule: less_induct)
  case less
  have put: "\<forall>fs m. \<exists>fs'. fl_Write lib path fs m = (fs', None) \<and> pend fs' = pend fs @ [m]" using assms(4) by (simp add: file_ok_def)
  show ?case
  proof (cases rule: slice_reader.read_cases [OF assms(1) less.prems(1) assms(2), case_names more stop])
    case (more s' xs)
    obtain e' where e': "enc_Write (fl_Write lib path) crc uc (wtEnc r) (batch_of_rows ncol xs) = (e', None)"
      "pend (ew e') = pend (ew (wtEnc r)) @ batch_msgs crc uc (batch_of_rows ncol xs)" by (rule enc_Write_pend [OF assms(3) put])
    let ?r = "r\<lparr>wtReader := s', wtEnc := e'\<rparr>"
    have "file_rows crc uc ncol (acc @ xs) (pend (ew (wtEnc ?r)))"
      using file_rows_snoc [OF less.prems(5), of xs] less.prems(3) more(4) e'(2) by simp
    moreover have "readall_loop (writethrough_Read lib crc uc ncol path rd) chunk r acc =
        readall_loop (writethrough_Read lib crc uc ncol path rd) chunk ?r (acc @ xs)"
      using more(1,3) e'(1) less.prems(4) by (subst readall_loop.simps) (simp add: writethrough_Read_def)
    ultimately show ?thesis using less.hyps [of ?r "acc @ xs"] more less.prems by auto
  next
    case (stop s' xs)
    obtain e' where e': "enc_Write (fl_Write lib path) crc uc (wtEnc r) (batch_of_rows ncol xs) = (e', None)"
      "pend (ew e') = pend (ew (wtEnc r)) @ batch_msgs crc uc (batch_of_rows ncol xs)" by (rule enc_Write_pend [OF assms(3) put])
    obtain fs where fs: "fl_Close lib (ew e') path = (fs, None)" "fl_Open lib fs path = Inr (pend (ew e'))" "fl_Stat lib fs path"
      using assms(4) unfolding file_ok_def by blast
    have "file_rows crc uc ncol (acc @ xs) (pend (ew e'))"
      using file_rows_snoc [OF less.prems(5), of xs] less.prems(3) stop(4) e'(2) by simp
    with stop e'(1) fs less.prems(2,4) show ?thesis
      by (subst readall_loop.simps) (simp add: writethrough_Read_def)
  qed
qed

text \<open>The file reader is the decoding reader of the file it opens.\<close>

lemma file_reader:
  assumes "fl_Open lib fs path = Inr ms" and "slice_reader (decoding_Read crc uc zero ncol) ok str fin mu"
  defines "opd \<equiv> \<lambda>f. case frDec f of None \<Rightarrow> NewDecodingReader ms | Some d \<Rightarrow> d"
  shows "slice_reader (file_Read lib fs crc uc zero ncol path) (\<lambda>f. ok (opd f)) (\<lambda>f. str (opd f)) (\<lambda>f. fin (opd f)) (\<lambda>f. mu (opd f))"
proof
  fix f n
  assume f: "ok (opd f)" and n: "0 < (n :: nat)"
  have "file_Read lib fs crc uc zero ncol path f n = run_bind (decoding_Read crc uc zero ncol (opd f) n) (\<lambda>(d', xs, err).
      Some (Ret (\<lparr>frDec = Some d', frClosed = (if err \<noteq> None then Suc (frClosed f) else frClosed f)\<rparr>, xs, err)))"
    using assms(1) by (cases "frDec f") (simp_all add: file_Read_def opd_def)
  then show "\<exists>res. file_Read lib fs crc uc zero ncol path f n = Some (Ret res) \<and>
      read_ok (\<lambda>f. ok (opd f)) (\<lambda>f. str (opd f)) (\<lambda>f. fin (opd f)) (\<lambda>f. mu (opd f)) f n res"
    by (cases rule: slice_reader.read_cases [OF assms(2) f n]) (simp_all add: read_ok_def opd_def)
qed

lemma readall_file:
  assumes "uc_ok uc" and "fl_Open lib fs path = Inr ms" and "file_rows crc uc ncol xs ms" and "0 < chunk"
  shows "\<exists>f'. ReadAll (file_Read lib fs crc uc zero ncol path) chunk \<lparr>frDec = None, frClosed = 0\<rparr> [] = Some (Ret (f', xs, None))"
proof -
  from assms(3) obtain bs where bs: "\<forall>f\<in>set bs. wf_batch ncol f" "concat (map rows_of_batch bs) = xs" "ms = concat (map (batch_msgs crc uc) bs)"
    by (auto simp: file_rows_def)
  note sr = eof_alone_reader.axioms(1) [OF decoding_reader [OF assms(1), where P = "\<lambda>_. True" and crc = crc and zero = zero and ncol = ncol]]
  from slice_reader.readall_loop_spec [OF file_reader [OF assms(2) sr] _ assms(4), where s = "\<lparr>frDec = None, frClosed = 0\<rparr>" and acc = "[]"]
    NewDecodingReader_ok [OF assms(1) _ bs(3), of "\<lambda>_. True" ncol] bs(1,2)
  show ?thesis by (auto simp: ReadAll_def)
qed

text \<open>
  C26.  Round trip of the cache: reading a shard through the cache to its end returns its rows and
  leaves a file for the shard, which a later evaluation finds and from which it reads the same
  rows, whatever the sizes of the batches.
\<close>

theorem cache_roundtrip:
  assumes "slice_reader rd ok str fin mu" and "ok r" and "fin r = EOF" and "\<forall>x\<in>set (str r). length x = ncol"
    and "uc_ok uc" and "file_ok lib path pend" and "0 < chunk" and "0 < chunk'"
  shows "\<exists>r' f'. ReadAll (writethrough_Read lib crc uc ncol path rd) chunk \<lparr>wtReader = r, wtOpen = False, wtEnc = NewEncodingWriter fs\<rparr> [] =
      Some (Ret (r', str r, None)) \<and> fl_Stat lib (ew (wtEnc r')) path \<and>
    ReadAll (file_Read lib (ew (wtEnc r')) crc uc zero ncol path) chunk' \<lparr>frDec = None, frClosed = 0\<rparr> [] = Some (Ret (f', str r, None))"
proof -
  let ?r = "\<lparr>wtReader = r, wtOpen = False, wtEnc = NewEncodingWriter fs\<rparr>"
  obtain fs' where fs': "fl_Create lib fs path = (fs', None)" "pend fs' = []" using assms(6) unfolding file_ok_def by blast
  let ?r1 = "\<lparr>wtReader = r, wtOpen = True, wtEnc = NewEncodingWriter fs'\<rparr>"
  have "writethrough_Read lib crc uc ncol path rd ?r chunk = writethrough_Read lib crc uc ncol path rd ?r1 chunk"
    using fs'(1) by (simp add: writethrough_Read_def NewEncodingWriter_def)
  then have e: "readall_loop (writethrough_Read lib crc uc ncol path rd) chunk ?r [] = readall_loop (writethrough_Read lib crc uc ncol path rd) chunk ?r1 []"
    by (subst (1 2) readall_loop.simps) simp
  have "file_rows crc uc ncol [] (pend (ew (wtEnc ?r1)))"
    using fs'(2) unfolding file_rows_def by (intro exI [of _ "[]"]) (simp add: NewEncodingWriter_def)
  from writethrough_loop [OF assms(1,7,5,6), of ?r1 ncol crc "[]"] this assms(2-4) obtain r' ms where
    r': "readall_loop (writethrough_Read lib crc uc ncol path rd) chunk ?r1 [] = Some (Ret (r', str r, None))"
      "fl_Open lib (ew (wtEnc r')) path = Inr ms" "fl_Stat lib (ew (wtEnc r')) path" "file_rows crc uc ncol (str r) ms" by auto
  from readall_file [OF assms(5) r'(2,4) assms(8), of zero] r'(1,3) e show ?thesis by (auto simp: ReadAll_def)
qed

definition mem_lib :: "((string \<rightharpoonup> (int, unit) msg list) \<times> (string \<Rightarrow> (int, unit) msg list), int, unit) filelib" where
  "mem_lib = \<lparr>fl_Stat = (\<lambda>fs p. fst fs p \<noteq> None),
     fl_Open = (\<lambda>fs p. case fst fs p of None \<Rightarrow> Inl (ErrNew ''no such file'') | Some ms \<Rightarrow> Inr ms),
     fl_Create = (\<lambda>fs p. ((fst fs, (snd fs)(p := [])), None)),
     fl_Write = (\<lambda>p fs m. ((fst fs, (snd fs)(p := snd fs p @ [m])), None)),
     fl_Close = (\<lambda>fs p. (((fst fs)(p \<mapsto> snd fs p), snd fs), None)),
     fl_Discard = (\<lambda>fs p. fs)\<rparr>"

theorem cache_roundtrip_witness:
  "\<exists>r' f'. ReadAll (writethrough_Read mem_lib (\<lambda>_. 0) (\<lambda>_. None) 1 ''c-0000-of-0001'' frame_Read) 2
      \<lparr>wtReader = [[1], [2], [3]], wtOpen = False, wtEnc = NewEncodingWriter (Map.empty, \<lambda>_. [])\<rparr> [] = Some (Ret (r', [[1], [2], [3]], None)) \<and>
    fl_Stat mem_lib (ew (wtEnc r')) ''c-0000-of-0001'' \<and>
    ReadAll (file_Read mem_lib (ew (wtEnc r')) (\<lambda>_. 0) (\<lambda>_. None) (\<lambda>_. 0) 1 ''c-0000-of-0001'') 5 \<lparr>frDec = None, frClosed = 0\<rparr> [] =
      Some (Ret (f', [[1], [2], [3]], None))"
  by (rule cache_roundtrip [OF frd.slice_reader_axioms, where pend = "\<lambda>fs. snd fs ''c-0000-of-0001''"])
    (simp_all add: file_ok_def mem_lib_def uc_ok_def)

text \<open>
  A cache with an empty prefix, which \<open>NewFileShardCache\<close> treats as no cache, makes every lookup
  panic: it is not a nil pointer, and it has no entry for any shard.
\<close>

theorem empty_prefix_panics:
  "fsc_IsCached (Some (NewFileShardCache lib fs '''' n)) shard = Panic ''index out of range''"
  by (simp add: fsc_IsCached_def NewFileShardCache_def list_index_def)

text \<open>
  \<open>Cache\<close> uses its files only when there is one for every shard: a shard of the slice is cached
  exactly when the files of all shards are found.
\<close>

theorem Cache_all_or_nothing:
  assumes "prefix \<noteq> []" and "shard < n"
  shows "fsc_IsCached (Some (RequireAllCached (NewFileShardCache lib fs prefix n))) shard =
    Ret (\<forall>i<n. fl_Stat lib fs (prefix @ ''-'' @ pad4 i @ ''-of-'' @ pad4 n))"
  using assms by (auto simp: fsc_IsCached_def RequireAllCached_def NewFileShardCache_def list_index_def cache_path_def list_all_iff Let_def)

theorem Cache_all_or_nothing_witness:
  "fsc_IsCached (Some (RequireAllCached (NewFileShardCache mem_lib ([''p-0000-of-0002'' \<mapsto> []], \<lambda>_. []) ''p'' 2))) 0 =
     Ret (\<forall>i<2. fl_Stat mem_lib ([''p-0000-of-0002'' \<mapsto> []], \<lambda>_. []) (''p'' @ ''-'' @ pad4 i @ ''-of-'' @ pad4 2))"
  by (rule Cache_all_or_nothing) simp_all

end
