(* ===== verification/Store.thy ===== *)
theory Store
  imports Task SliceCache
begin

text \<open>
  \<open>exec/store.go\<close>: where workers keep the partitions of task outputs, in memory or in files.

  Bytes are \<open>8 word\<close>s.  The file library is not part of the repository: it is the parameter \<open>lib\<close>, and what
  the code relies on is \<open>bytes_ok\<close>.  The contract of a store is the locale \<open>task_store\<close>; a client lemma of it is
  what a worker does: create a writer for each partition, write to them in any order, commit them all.
  The memory store meets the contract; so does the file store, for task names that have distinct paths.
\<close>

unbundle bit_operations_syntax

type_synonym byte = "8 word"

type_synonym skey = "TaskName \<times> nat"

record sliceInfo =
  siSize :: int
  siRecords :: int

section \<open>The memory store\<close>

text \<open>A slice of bytes that is nil is \<open>None\<close>; a task that is not in a map is \<open>None\<close>, and reads as an empty slice.\<close>

record memoryStore =
  msTasks :: "TaskName \<rightharpoonup> byte list option list"
  msCounts :: "TaskName \<rightharpoonup> int list"

definition at_key :: "('k \<rightharpoonup> 'a list) \<Rightarrow> 'k \<Rightarrow> 'a list" where
  "at_key m k = (case m k of None \<Rightarrow> [] | Some xs \<Rightarrow> xs)"

definition newMemoryStore :: memoryStore where
  "newMemoryStore = \<lparr>msTasks = Map.empty, msCounts = Map.empty\<rparr>"

definition mem_get :: "memoryStore \<Rightarrow> skey \<Rightarrow> (byte list option \<times> int) go" where
  "mem_get m = (\<lambda>(task, prt).
     if length (at_key (msTasks m) task) \<le> prt then Ret (None, 0)
     else go_bind (list_index (at_key (msTasks m) task) (int prt)) (\<lambda>p.
       go_bind (list_index (at_key (msCounts m) task) (int prt)) (\<lambda>n. Ret (p, n))))"

text \<open>The loop of \<open>put\<close>, which appends to both maps until the partition is there.\<close>

function put_loop :: "memoryStore \<Rightarrow> TaskName \<Rightarrow> nat \<Rightarrow> memoryStore" where
  "put_loop m task prt =
     (if length (at_key (msTasks m) task) \<le> prt
      then put_loop (m\<lparr>msTasks := (msTasks m)(task \<mapsto> at_key (msTasks m) task @ [None]),
                       msCounts := (msCounts m)(task \<mapsto> at_key (msCounts m) task @ [0])\<rparr>) task prt
      else m)"
  by pat_completeness auto
termination
  by (relation "measure (\<lambda>(m, task, prt). Suc prt - length (at_key (msTasks m) task))") (auto simp: at_key_def split: option.splits)

declare put_loop.simps [simp del]

definition mem_put :: "memoryStore \<Rightarrow> skey \<Rightarrow> byte list option \<Rightarrow> int \<Rightarrow> (memoryStore \<times> gerr) go" where
  "mem_put m = (\<lambda>(task, prt) p n.
     let m = put_loop m task prt in
     go_bind (list_index (at_key (msTasks m) task) (int prt)) (\<lambda>old.
       if old \<noteq> None then Ret (m, Some (ErrE [AExists] None))
       else let p = (case p of None \<Rightarrow> [] | Some p \<Rightarrow> p);
                m = m\<lparr>msTasks := (msTasks m)(task \<mapsto> (at_key (msTasks m) task)[prt := Some p])\<rparr>
            in go_bind (list_index (at_key (msCounts m) task) (int prt)) (\<lambda>_.
                 Ret (m\<lparr>msCounts := (msCounts m)(task \<mapsto> (at_key (msCounts m) task)[prt := n])\<rparr>, None))))"

record memoryWriter =
  mwBuf :: "byte list"
  mwKey :: skey

definition mem_Create :: "memoryStore \<Rightarrow> skey \<Rightarrow> (memoryStore \<times> (goerror + memoryWriter)) go" where
  "mem_Create m k = go_bind (mem_get m k) (\<lambda>(b, _).
     Ret (m, if b \<noteq> None then Inl (ErrE [AExists] None) else Inr \<lparr>mwBuf = [], mwKey = k\<rparr>))"

definition mem_Write :: "memoryStore \<Rightarrow> memoryWriter \<Rightarrow> byte list \<Rightarrow> memoryStore \<times> memoryWriter \<times> gerr" where
  "mem_Write m w b = (m, w\<lparr>mwBuf := mwBuf w @ b\<rparr>, None)"

text \<open>The bytes of an empty buffer are nil.\<close>

definition mem_Commit :: "memoryStore \<Rightarrow> memoryWriter \<Rightarrow> int \<Rightarrow> (memoryStore \<times> gerr) go" where
  "mem_Commit m w n = mem_put m (mwKey w) (if mwBuf w = [] then None else Some (mwBuf w)) n"

definition mem_Abandon :: "memoryStore \<Rightarrow> memoryWriter \<Rightarrow> memoryStore" where
  "mem_Abandon m w = m"

definition mem_Open :: "memoryStore \<Rightarrow> skey \<Rightarrow> nat \<Rightarrow> (goerror + byte list) go" where
  "mem_Open m k off = go_bind (mem_get m k) (\<lambda>(p, _). Ret (case p of
       None \<Rightarrow> Inl (ErrE [ANotExist] None)
     | Some p \<Rightarrow> if length p < off then Inl (ErrE [AInvalid] None) else Inr (drop off p)))"

definition mem_Stat :: "memoryStore \<Rightarrow> skey \<Rightarrow> (goerror + sliceInfo) go" where
  "mem_Stat m k = go_bind (mem_get m k) (\<lambda>(b, n). Ret (case b of
       None \<Rightarrow> Inl (ErrE [ANotExist] None)
     | Some b \<Rightarrow> Inr \<lparr>siSize = int (length b), siRecords = n\<rparr>))"

text \<open>\<open>ctxErr\<close> is the error of the context.\<close>

definition mem_Discard :: "gerr \<Rightarrow> memoryStore \<Rightarrow> skey \<Rightarrow> (memoryStore \<times> gerr) go" where
  "mem_Discard ctxErr m = (\<lambda>(task, prt). Ret (case msTasks m task of
       None \<Rightarrow> (m, Some (ErrE [ANotExist] None))
     | Some ps \<Rightarrow> if length ps \<le> prt then (m, Some (ErrE [ANotExist] None))
                  else (m\<lparr>msTasks := (msTasks m)(task \<mapsto> ps[prt := None])\<rparr>, ctxErr)))"

section \<open>The file store\<close>

text \<open>\<open>binary.LittleEndian\<close> and the hash \<open>fnv.New32a\<close> of the standard library.\<close>

definition PutUint64 :: "64 word \<Rightarrow> byte list" where
  "PutUint64 v = map (\<lambda>i. ucast (drop_bit (8 * i) v)) [0 ..< 8]"

definition Uint64 :: "byte list \<Rightarrow> 64 word" where
  "Uint64 b = foldr (\<lambda>i acc. push_bit (8 * i) (ucast (b ! i)) OR acc) [0 ..< 8] 0"

definition fnv32a :: "byte list \<Rightarrow> 32 word" where
  "fnv32a bs = foldl (\<lambda>h b. (h XOR ucast b) * 16777619) 2166136261 bs"

fun hexadecimal :: "nat \<Rightarrow> string" where
  "hexadecimal n = (let d = (\<lambda>m. if m < 10 then char_of (48 + m) else char_of (87 + m))
     in if n < 16 then [d n] else hexadecimal (n div 16) @ [d (n mod 16)])"

declare hexadecimal.simps [simp del]

definition pad3 :: "nat \<Rightarrow> string" where
  "pad3 n = (let d = decimal n in replicate (3 - length d) (CHR ''0'') @ d)"

text \<open>
  The operations of the file library.  A reader is its position in the contents of the file; \<open>bl_Seek\<close> and
  \<open>bl_SeekEnd\<close> give the new position, the value returned, and the error.
\<close>

record 'fs bytelib =
  bl_Join :: "string \<Rightarrow> string \<Rightarrow> string"
  bl_Create :: "'fs \<Rightarrow> string \<Rightarrow> 'fs \<times> gerr"
  bl_Write :: "'fs \<Rightarrow> string \<Rightarrow> byte list \<Rightarrow> 'fs \<times> gerr"
  bl_Close :: "'fs \<Rightarrow> string \<Rightarrow> 'fs \<times> gerr"
  bl_Discard :: "'fs \<Rightarrow> string \<Rightarrow> 'fs"
  bl_Open :: "'fs \<Rightarrow> string \<Rightarrow> gerr"
  bl_Stat :: "'fs \<Rightarrow> string \<Rightarrow> goerror + nat"
  bl_Seek :: "'fs \<Rightarrow> string \<Rightarrow> nat \<Rightarrow> nat \<times> nat \<times> gerr"
  bl_SeekEnd :: "'fs \<Rightarrow> string \<Rightarrow> nat \<Rightarrow> nat \<times> nat \<times> gerr"
  bl_Read :: "'fs \<Rightarrow> string \<Rightarrow> nat \<Rightarrow> nat \<Rightarrow> byte list \<times> gerr"
  bl_Rest :: "'fs \<Rightarrow> string \<Rightarrow> nat \<Rightarrow> byte list"
  bl_Remove :: "'fs \<Rightarrow> string \<Rightarrow> 'fs \<times> gerr"

definition file_path :: "(string \<Rightarrow> string \<Rightarrow> string) \<Rightarrow> string \<Rightarrow> skey \<Rightarrow> string" where
  "file_path jn prefix = (\<lambda>(task, prt).
     let h0 = unat (drop_bit 24 (fnv32a (map of_char (TaskName_String task))));
         path = jn (jn prefix (hexadecimal h0)) (nOp task);
         path = (if TaskName_IsCombiner task then jn path ''combiner''
                 else jn path (pad3 (nShard task) @ ''-of-'' @ pad3 (nNumShard task)))
     in jn path (''p'' @ pad3 prt))"

text \<open>A file writer is known by the task and the partition whose file it writes.\<close>

definition file_Create :: "'fs bytelib \<Rightarrow> string \<Rightarrow> 'fs \<Rightarrow> skey \<Rightarrow> ('fs \<times> (goerror + skey)) go" where
  "file_Create lib prefix fs k = (case bl_Create lib fs (file_path (bl_Join lib) prefix k) of
       (fs, Some e) \<Rightarrow> Ret (fs, Inl e)
     | (fs, None) \<Rightarrow> Ret (fs, Inr k))"

definition file_Write :: "'fs bytelib \<Rightarrow> string \<Rightarrow> 'fs \<Rightarrow> skey \<Rightarrow> byte list \<Rightarrow> 'fs \<times> skey \<times> gerr" where
  "file_Write lib prefix fs k b = (case bl_Write lib fs (file_path (bl_Join lib) prefix k) b of (fs, e) \<Rightarrow> (fs, k, e))"

definition file_Commit :: "'fs bytelib \<Rightarrow> string \<Rightarrow> 'fs \<Rightarrow> skey \<Rightarrow> int \<Rightarrow> ('fs \<times> gerr) go" where
  "file_Commit lib prefix fs k n = (case bl_Write lib fs (file_path (bl_Join lib) prefix k) (PutUint64 (of_int n)) of
       (fs, Some _) \<Rightarrow> Ret (fs, None)
     | (fs, None) \<Rightarrow> Ret (bl_Close lib fs (file_path (bl_Join lib) prefix k)))"

text \<open>\<open>Discard\<close> of the embedded \<open>file.File\<close>.\<close>

definition file_Abandon :: "'fs bytelib \<Rightarrow> string \<Rightarrow> 'fs \<Rightarrow> skey \<Rightarrow> 'fs" where
  "file_Abandon lib prefix fs k = bl_Discard lib fs (file_path (bl_Join lib) prefix k)"

definition file_Open :: "'fs bytelib \<Rightarrow> string \<Rightarrow> 'fs \<Rightarrow> skey \<Rightarrow> nat \<Rightarrow> (goerror + byte list) go" where
  "file_Open lib prefix fs k off = Ret (let path = file_path (bl_Join lib) prefix k in
     case bl_Open lib fs path of
       Some e \<Rightarrow> Inl e
     | None \<Rightarrow> (case bl_Stat lib fs path of
         Inl e \<Rightarrow> Inl e
       | Inr sz \<Rightarrow> (case bl_Seek lib fs path off of (pos, n, err) \<Rightarrow>
           if err = None \<and> n \<noteq> off then Inl (ErrE [AInvalid] None)
           else Inr (take (nat (int sz - 8 - int off)) (bl_Rest lib fs path pos)))))"

definition file_Stat :: "'fs bytelib \<Rightarrow> string \<Rightarrow> 'fs \<Rightarrow> skey \<Rightarrow> (goerror + sliceInfo) go" where
  "file_Stat lib prefix fs k = Ret (let path = file_path (bl_Join lib) prefix k in
     case bl_Open lib fs path of
       Some e \<Rightarrow> Inl e
     | None \<Rightarrow> (case bl_SeekEnd lib fs path 8 of
         (_, _, Some e) \<Rightarrow> Inl e
       | (pos, n, None) \<Rightarrow> (case bl_Read lib fs path pos 8 of
           (_, Some e) \<Rightarrow> Inl e
         | (b, None) \<Rightarrow> Inr \<lparr>siSize = int n, siRecords = sint (Uint64 (b @ replicate (8 - length b) 0))\<rparr>)))"

definition file_Discard :: "'fs bytelib \<Rightarrow> string \<Rightarrow> 'fs \<Rightarrow> skey \<Rightarrow> ('fs \<times> gerr) go" where
  "file_Discard lib prefix fs k = Ret (bl_Remove lib fs (file_path (bl_Join lib) prefix k))"

section \<open>The contract of a store\<close>

text \<open>The interfaces \<open>Store\<close> and \<open>writeCommitter\<close>, for stores of type \<open>'s\<close> with writers of type \<open>'w\<close>.\<close>

record ('s, 'w) storeops =
  st_Create :: "'s \<Rightarrow> skey \<Rightarrow> ('s \<times> (goerror + 'w)) go"
  st_Write :: "'s \<Rightarrow> 'w \<Rightarrow> byte list \<Rightarrow> 's \<times> 'w \<times> gerr"
  st_Commit :: "'s \<Rightarrow> 'w \<Rightarrow> int \<Rightarrow> ('s \<times> gerr) go"
  st_Abandon :: "'s \<Rightarrow> 'w \<Rightarrow> 's"
  st_Open :: "'s \<Rightarrow> skey \<Rightarrow> nat \<Rightarrow> (goerror + byte list) go"
  st_Stat :: "'s \<Rightarrow> skey \<Rightarrow> (goerror + sliceInfo) go"
  st_Discard :: "'s \<Rightarrow> skey \<Rightarrow> ('s \<times> gerr) go"

definition memory_store :: "gerr \<Rightarrow> (memoryStore, memoryWriter) storeops" where
  "memory_store ctxErr = \<lparr>st_Create = mem_Create, st_Write = mem_Write, st_Commit = mem_Commit, st_Abandon = mem_Abandon, st_Open = mem_Open, st_Stat = mem_Stat,
     st_Discard = mem_Discard ctxErr\<rparr>"

definition file_store :: "'fs bytelib \<Rightarrow> string \<Rightarrow> ('fs, skey) storeops" where
  "file_store lib prefix = \<lparr>st_Create = file_Create lib prefix, st_Write = file_Write lib prefix, st_Commit = file_Commit lib prefix,
     st_Abandon = file_Abandon lib prefix, st_Open = file_Open lib prefix, st_Stat = file_Stat lib prefix, st_Discard = file_Discard lib prefix\<rparr>"

text \<open>
  \<open>abst s\<close> is what is stored, by task and partition, with the number of records; \<open>pend s w\<close> is what has been
  written to the writer \<open>w\<close>; \<open>K\<close> are the keys in use.
\<close>

locale task_store =
  fixes S :: "('s, 'w) storeops"
    and abst :: "'s \<Rightarrow> skey \<Rightarrow> (byte list \<times> int) option"
    and pend :: "'s \<Rightarrow> 'w \<Rightarrow> byte list"
    and wkey :: "'w \<Rightarrow> skey"
    and ok :: "'s \<Rightarrow> bool"
    and K :: "skey set"
  assumes create_law: "ok s \<Longrightarrow> k \<in> K \<Longrightarrow> abst s k = None \<Longrightarrow> \<exists>s' w. st_Create S s k = Ret (s', Inr w) \<and> ok s' \<and> wkey w = k \<and> pend s' w = [] \<and>
      (\<forall>k'\<in>K. abst s' k' = abst s k') \<and> (\<forall>w'. wkey w' \<in> K - {k} \<longrightarrow> pend s' w' = pend s w')"
    and write_law: "ok s \<Longrightarrow> wkey w \<in> K \<Longrightarrow> \<exists>s' w'. st_Write S s w b = (s', w', None) \<and> ok s' \<and> wkey w' = wkey w \<and> pend s' w' = pend s w @ b \<and>
      (\<forall>k'\<in>K. abst s' k' = abst s k') \<and> (\<forall>v. wkey v \<in> K - {wkey w} \<longrightarrow> pend s' v = pend s v)"
    and commit_law: "ok s \<Longrightarrow> wkey w \<in> K \<Longrightarrow> abst s (wkey w) = None \<Longrightarrow> - (2 ^ 63) \<le> n \<Longrightarrow> n < 2 ^ 63 \<Longrightarrow>
      \<exists>s'. st_Commit S s w n = Ret (s', None) \<and> ok s' \<and> (\<forall>k\<in>K. abst s' k = (if k = wkey w then Some (pend s w, n) else abst s k)) \<and>
        (\<forall>v. wkey v \<in> K - {wkey w} \<longrightarrow> pend s' v = pend s v)"
    and abandon_law: "ok s \<Longrightarrow> wkey w \<in> K \<Longrightarrow> ok (st_Abandon S s w) \<and> (\<forall>k\<in>K. abst (st_Abandon S s w) k = abst s k)"
    and open_law: "ok s \<Longrightarrow> k \<in> K \<Longrightarrow> abst s k = Some (p, n) \<Longrightarrow> off \<le> length p \<Longrightarrow> st_Open S s k off = Ret (Inr (drop off p))"
    and stat_law: "ok s \<Longrightarrow> k \<in> K \<Longrightarrow> abst s k = Some (p, n) \<Longrightarrow> st_Stat S s k = Ret (Inr \<lparr>siSize = int (length p), siRecords = n\<rparr>)"
    and missing_law: "ok s \<Longrightarrow> k \<in> K \<Longrightarrow> abst s k = None \<Longrightarrow> \<exists>e e'. st_Open S s k off = Ret (Inl e) \<and> st_Stat S s k = Ret (Inl e')"
    and discard_law: "ok s \<Longrightarrow> k \<in> K \<Longrightarrow> abst s k \<noteq> None \<Longrightarrow> \<exists>s'. st_Discard S s k = Ret (s', None) \<and> ok s' \<and>
      (\<forall>k'\<in>K. abst s' k' = (if k' = k then None else abst s k')) \<and> (\<forall>v. wkey v \<in> K - {k} \<longrightarrow> pend s' v = pend s v)"

section \<open>The memory store meets the contract\<close>

definition mem_ok :: "memoryStore \<Rightarrow> bool" where
  "mem_ok m \<longleftrightarrow> (\<forall>t. length (at_key (msCounts m) t) = length (at_key (msTasks m) t))"

definition mem_abs :: "memoryStore \<Rightarrow> skey \<Rightarrow> (byte list \<times> int) option" where
  "mem_abs m = (\<lambda>(t, p). if p < length (at_key (msTasks m) t)
     then map_option (\<lambda>b. (b, at_key (msCounts m) t ! p)) (at_key (msTasks m) t ! p) else None)"

lemma at_key_upd [simp]: "at_key (m(k \<mapsto> xs)) k' = (if k' = k then xs else at_key m k')"
  by (simp add: at_key_def)

lemma mem_get_abs:
  assumes "mem_ok m"
  shows "mem_get m k = Ret (case mem_abs m k of None \<Rightarrow> (None, if snd k < length (at_key (msTasks m) (fst k)) then at_key (msCounts m) (fst k) ! snd k else 0)
    | Some (b, n) \<Rightarrow> (Some b, n))"
  using assms by (auto simp: mem_get_def mem_abs_def list_index_def mem_ok_def split: prod.splits option.splits)

lemma put_loop_spec:
  "mem_ok m \<Longrightarrow> mem_ok (put_loop m t p) \<and> mem_abs (put_loop m t p) = mem_abs m \<and> p < length (at_key (msTasks (put_loop m t p)) t)"
proof (induction m t p rule: put_loop.induct)
  case (1 m t p)
  show ?case
  proof (cases "length (at_key (msTasks m) t) \<le> p")
    case True
    let ?m = "m\<lparr>msTasks := (msTasks m)(t \<mapsto> at_key (msTasks m) t @ [None]), msCounts := (msCounts m)(t \<mapsto> at_key (msCounts m) t @ [0])\<rparr>"
    have "mem_ok ?m" using 1(2) by (simp add: mem_ok_def)
    moreover have "mem_abs ?m = mem_abs m" using 1(2) by (auto simp: mem_abs_def fun_eq_iff nth_append mem_ok_def)
    ultimately show ?thesis using 1(1) [OF True] True by (simp add: put_loop.simps [of m])
  next
    case False
    then show ?thesis using 1(2) by (simp add: put_loop.simps [of m])
  qed
qed

lemma mem_put_spec:
  assumes "mem_ok m" and "mem_abs m k = None"
  shows "\<exists>m'. mem_put m k p n = Ret (m', None) \<and> mem_ok m' \<and> mem_abs m' = (mem_abs m)(k \<mapsto> (case p of None \<Rightarrow> [] | Some p \<Rightarrow> p, n))"
proof -
  obtain t q where k: "k = (t, q)" by fastforce
  let ?m = "put_loop m t q"
  note pl = put_loop_spec [OF assms(1), of t q]
  have e: "mem_abs m = mem_abs ?m" and ok: "mem_ok ?m" and q: "q < length (at_key (msTasks ?m) t)" using pl by simp_all
  have "at_key (msTasks ?m) t ! q = None" using assms(2) q unfolding k e by (simp add: mem_abs_def)
  moreover have "length (at_key (msCounts ?m) t) = length (at_key (msTasks ?m) t)" using ok by (simp add: mem_ok_def)
  ultimately show ?thesis
    using ok q unfolding k e by (auto simp: mem_put_def Let_def list_index_def mem_ok_def mem_abs_def fun_eq_iff nth_list_update)
qed

interpretation ms: task_store "memory_store None" mem_abs "\<lambda>_. mwBuf" mwKey mem_ok UNIV
proof
  fix s :: memoryStore and k and w :: memoryWriter and b p :: "byte list" and n :: int and off :: nat
  assume ok: "mem_ok s"
  note get = mem_get_abs [OF ok, of k]
  show "\<exists>s' w. st_Create (memory_store None) s k = Ret (s', Inr w) \<and> mem_ok s' \<and> mwKey w = k \<and> mwBuf w = [] \<and>
      (\<forall>k'\<in>UNIV. mem_abs s' k' = mem_abs s k') \<and> (\<forall>w'. mwKey w' \<in> UNIV - {k} \<longrightarrow> mwBuf w' = mwBuf w')" if "mem_abs s k = None"
    using that get ok by (simp add: memory_store_def mem_Create_def)
  show "\<exists>s' w'. st_Write (memory_store None) s w b = (s', w', None) \<and> mem_ok s' \<and> mwKey w' = mwKey w \<and> mwBuf w' = mwBuf w @ b \<and>
      (\<forall>k'\<in>UNIV. mem_abs s' k' = mem_abs s k') \<and> (\<forall>v. mwKey v \<in> UNIV - {mwKey w} \<longrightarrow> mwBuf v = mwBuf v)"
    using ok by (simp add: memory_store_def mem_Write_def)
  show "\<exists>s'. st_Commit (memory_store None) s w n = Ret (s', None) \<and> mem_ok s' \<and>
      (\<forall>k\<in>UNIV. mem_abs s' k = (if k = mwKey w then Some (mwBuf w, n) else mem_abs s k)) \<and> (\<forall>v. mwKey v \<in> UNIV - {mwKey w} \<longrightarrow> mwBuf v = mwBuf v)"
    if "mem_abs s (mwKey w) = None"
    using mem_put_spec [OF ok that, of "if mwBuf w = [] then None else Some (mwBuf w)" n] by (auto simp: memory_store_def mem_Commit_def)
  show "mem_ok (st_Abandon (memory_store None) s w) \<and> (\<forall>k\<in>UNIV. mem_abs (st_Abandon (memory_store None) s w) k = mem_abs s k)"
    using ok by (simp add: memory_store_def mem_Abandon_def)
  show "st_Open (memory_store None) s k off = Ret (Inr (drop off p))" if "mem_abs s k = Some (p, n)" "off \<le> length p"
    using that get by (simp add: memory_store_def mem_Open_def)
  show "st_Stat (memory_store None) s k = Ret (Inr \<lparr>siSize = int (length p), siRecords = n\<rparr>)" if "mem_abs s k = Some (p, n)"
    using that get by (simp add: memory_store_def mem_Stat_def)
  show "\<exists>e e'. st_Open (memory_store None) s k off = Ret (Inl e) \<and> st_Stat (memory_store None) s k = Ret (Inl e')" if "mem_abs s k = None"
    using that get by (simp add: memory_store_def mem_Open_def mem_Stat_def)
  show "\<exists>s'. st_Discard (memory_store None) s k = Ret (s', None) \<and> mem_ok s' \<and> (\<forall>k'\<in>UNIV. mem_abs s' k' = (if k' = k then None else mem_abs s k')) \<and>
      (\<forall>v. mwKey v \<in> UNIV - {k} \<longrightarrow> mwBuf v = mwBuf v)" if "mem_abs s k \<noteq> None"
  proof -
    obtain t q where k: "k = (t, q)" by fastforce
    with that obtain ps where "msTasks s t = Some ps" "q < length ps" by (auto simp: mem_abs_def at_key_def split: if_splits option.splits)
    then show ?thesis using ok k by (auto simp: memory_store_def mem_Discard_def mem_ok_def mem_abs_def at_key_def nth_list_update)
  qed
qed

section \<open>The file store meets the contract\<close>

lemma length_PutUint64 [simp]: "length (PutUint64 v) = 8"
  by (simp add: PutUint64_def)

lemma bit_foldr_or: "bit (foldr (\<lambda>i acc. f i OR acc) is (0 :: 'a::len word)) n \<longleftrightarrow> (\<exists>i\<in>set is. bit (f i) n)"
  by (induction "is") (auto simp: bit_or_iff)

lemma Uint64_Put: "Uint64 (PutUint64 v) = v"
proof (rule bit_word_eqI)
  fix n assume "n < LENGTH(64)"
  then have n: "n < 64" by simp
  have b: "bit (push_bit (8 * i) (ucast (PutUint64 v ! i) :: 64 word)) n \<longleftrightarrow> 8 * i \<le> n \<and> n < 8 * i + 8 \<and> bit v n" if "i < 8" for i
    using n that by (auto simp: PutUint64_def bit_push_bit_iff bit_ucast_iff bit_drop_bit_eq)
  have "n div 8 < 8" "8 * (n div 8) \<le> n \<and> n < 8 * (n div 8) + 8" using n by auto
  then show "bit (Uint64 (PutUint64 v)) n \<longleftrightarrow> bit v n" unfolding Uint64_def bit_foldr_or using b by (metis atLeastLessThan_iff set_upt zero_le)
qed

lemma count_roundtrip:
  assumes "- (2 ^ 63) \<le> n" and "n < 2 ^ 63"
  shows "sint (Uint64 (PutUint64 (of_int n))) = n"
  unfolding Uint64_Put using assms by (simp add: signed_of_int signed_take_bit_int_eq_self)

text \<open>
  What is relied on of the file library: what was written to a file since it was created is found in it once it
  is closed, and nothing else changes.  \<open>content fs path\<close> is the content of a file, and \<open>wr fs path\<close> what has
  been written to the one that is being created.
\<close>

definition bytes_ok :: "'fs bytelib \<Rightarrow> ('fs \<Rightarrow> string \<Rightarrow> byte list option) \<Rightarrow> ('fs \<Rightarrow> string \<Rightarrow> byte list) \<Rightarrow> bool" where
  "bytes_ok lib content wr \<longleftrightarrow>
     (\<forall>fs p. \<exists>fs'. bl_Create lib fs p = (fs', None) \<and> content fs' = content fs \<and> wr fs' = (wr fs)(p := [])) \<and>
     (\<forall>fs p b. \<exists>fs'. bl_Write lib fs p b = (fs', None) \<and> content fs' = content fs \<and> wr fs' = (wr fs)(p := wr fs p @ b)) \<and>
     (\<forall>fs p. \<exists>fs'. bl_Close lib fs p = (fs', None) \<and> content fs' = (content fs)(p \<mapsto> wr fs p) \<and> wr fs' = wr fs) \<and>
     (\<forall>fs p. content (bl_Discard lib fs p) = content fs) \<and>
     (\<forall>fs p. case content fs p of
         None \<Rightarrow> bl_Open lib fs p \<noteq> None
       | Some c \<Rightarrow> bl_Open lib fs p = None \<and> bl_Stat lib fs p = Inr (length c) \<and> (\<forall>i\<le>length c. bl_Seek lib fs p i = (i, i, None)) \<and>
           (\<forall>i\<le>length c. bl_SeekEnd lib fs p i = (length c - i, length c - i, None)) \<and>
           (\<forall>i n. i < length c \<longrightarrow> bl_Read lib fs p i n = (take n (drop i c), None)) \<and> (\<forall>i. bl_Rest lib fs p i = drop i c) \<and>
           (\<exists>fs'. bl_Remove lib fs p = (fs', None) \<and> content fs' = (content fs)(p := None) \<and> wr fs' = wr fs))"

definition file_abs :: "('fs \<Rightarrow> string \<Rightarrow> byte list option) \<Rightarrow> (skey \<Rightarrow> string) \<Rightarrow> 'fs \<Rightarrow> skey \<Rightarrow> (byte list \<times> int) option" where
  "file_abs content path fs k = map_option (\<lambda>c. (take (length c - 8) c, sint (Uint64 (drop (length c - 8) c)))) (content fs (path k))"

definition files_ok :: "('fs \<Rightarrow> string \<Rightarrow> byte list option) \<Rightarrow> (skey \<Rightarrow> string) \<Rightarrow> skey set \<Rightarrow> 'fs \<Rightarrow> bool" where
  "files_ok content path K fs \<longleftrightarrow> (\<forall>k\<in>K. \<forall>c. content fs (path k) = Some c \<longrightarrow> 8 \<le> length c)"

lemma file_store_contract:
  fixes lib :: "'fs bytelib" and prefix :: string
  defines "path \<equiv> file_path (bl_Join lib) prefix"
  assumes lib: "bytes_ok lib content wr" and inj: "inj_on path K"
  shows "task_store (file_store lib prefix) (file_abs content path) (\<lambda>fs k. wr fs (path k)) (\<lambda>k. k) (files_ok content path K) K"
proof
  let ?S = "file_store lib prefix" and ?abs = "file_abs content path" and ?ok = "files_ok content path K"
  note ops = file_store_def file_Create_def file_Write_def file_Commit_def file_Abandon_def file_Open_def file_Stat_def file_Discard_def path_def [symmetric]
  note lb = lib [unfolded bytes_ok_def]
  have ne: "path k' \<noteq> path k" if "k \<in> K" "k' \<in> K - {k}" for k k' using inj_onD [OF inj, of k' k] that by auto
  fix s :: 'fs and k w :: skey and b p :: "byte list" and n :: int and off :: nat
  assume ok: "?ok s"
  have fnd: "\<exists>c. content s (path k) = Some c \<and> p = take (length c - 8) c \<and> n = sint (Uint64 (drop (length c - 8) c)) \<and> 8 \<le> length c"
    if "k \<in> K" "?abs s k = Some (p, n)" for k p n using that ok by (auto simp: file_abs_def files_ok_def)
  show "\<exists>s' w. st_Create ?S s k = Ret (s', Inr w) \<and> ?ok s' \<and> w = k \<and> wr s' (path w) = [] \<and> (\<forall>k'\<in>K. ?abs s' k' = ?abs s k') \<and>
      (\<forall>w'. w' \<in> K - {k} \<longrightarrow> wr s' (path w') = wr s (path w'))" if "k \<in> K" "?abs s k = None"
  proof -
    from lb obtain s' where "bl_Create lib s (path k) = (s', None)" "content s' = content s" "wr s' = (wr s)(path k := [])" by blast
    then show ?thesis using ok ne that(1) by (auto simp: ops files_ok_def file_abs_def)
  qed
  show "\<exists>s' w'. st_Write ?S s w b = (s', w', None) \<and> ?ok s' \<and> w' = w \<and> wr s' (path w') = wr s (path w) @ b \<and> (\<forall>k'\<in>K. ?abs s' k' = ?abs s k') \<and>
      (\<forall>v. v \<in> K - {w} \<longrightarrow> wr s' (path v) = wr s (path v))" if "w \<in> K"
  proof -
    from lb obtain s' where "bl_Write lib s (path w) b = (s', None)" "content s' = content s" "wr s' = (wr s)(path w := wr s (path w) @ b)" by blast
    then show ?thesis using ok ne that by (auto simp: ops files_ok_def file_abs_def)
  qed
  show "\<exists>s'. st_Commit ?S s w n = Ret (s', None) \<and> ?ok s' \<and> (\<forall>k\<in>K. ?abs s' k = (if k = w then Some (wr s (path w), n) else ?abs s k)) \<and>
      (\<forall>v. v \<in> K - {w} \<longrightarrow> wr s' (path v) = wr s (path v))" if "w \<in> K" "?abs s w = None" "- (2 ^ 63) \<le> n" "n < 2 ^ 63"
  proof -
    from lb obtain s1 where s1: "bl_Write lib s (path w) (PutUint64 (of_int n)) = (s1, None)" "content s1 = content s"
      "wr s1 = (wr s)(path w := wr s (path w) @ PutUint64 (of_int n))" by blast
    from lb obtain s2 where s2: "bl_Close lib s1 (path w) = (s2, None)" "content s2 = (content s1)(path w \<mapsto> wr s1 (path w))" "wr s2 = wr s1" by blast
    show ?thesis using s1 s2 ok ne that(1) count_roundtrip [OF that(3,4)] by (auto simp: ops files_ok_def file_abs_def)
  qed
  show "?ok (st_Abandon ?S s w) \<and> (\<forall>k\<in>K. ?abs (st_Abandon ?S s w) k = ?abs s k)" if "w \<in> K"
    using ok lb by (simp add: ops files_ok_def file_abs_def)
  show "st_Open ?S s k off = Ret (Inr (drop off p))" if "k \<in> K" "?abs s k = Some (p, n)" "off \<le> length p"
  proof -
    from fnd [OF that(1,2)] obtain c where c: "content s (path k) = Some c" "p = take (length c - 8) c" "8 \<le> length c" by blast
    have l: "bl_Open lib s (path k) = None" "bl_Stat lib s (path k) = Inr (length c)" "bl_Seek lib s (path k) off = (off, off, None)" "bl_Rest lib s (path k) off = drop off c"
      using lb [THEN conjunct2, THEN conjunct2, THEN conjunct2, THEN conjunct2, rule_format, of s "path k"] c that(3) by simp_all
    have "nat (int (length c) - 8 - int off) = length c - 8 - off" using c(3) by simp
    then show ?thesis using l c(2) by (simp add: ops drop_take)
  qed
  show "st_Stat ?S s k = Ret (Inr \<lparr>siSize = int (length p), siRecords = n\<rparr>)" if "k \<in> K" "?abs s k = Some (p, n)"
  proof -
    from fnd [OF that] obtain c where c: "content s (path k) = Some c" "p = take (length c - 8) c" "n = sint (Uint64 (drop (length c - 8) c))" "8 \<le> length c" by blast
    then have l: "bl_Open lib s (path k) = None" "bl_SeekEnd lib s (path k) 8 = (length c - 8, length c - 8, None)"
      "bl_Read lib s (path k) (length c - 8) 8 = (drop (length c - 8) c, None)"
      using lb [THEN conjunct2, THEN conjunct2, THEN conjunct2, THEN conjunct2, rule_format, of s "path k"] by auto
    then show ?thesis using c by (simp add: ops)
  qed
  show "\<exists>e e'. st_Open ?S s k off = Ret (Inl e) \<and> st_Stat ?S s k = Ret (Inl e')" if "k \<in> K" "?abs s k = None"
    using that lb [THEN conjunct2, THEN conjunct2, THEN conjunct2, THEN conjunct2, rule_format, of s "path k"] by (auto simp: ops file_abs_def)
  show "\<exists>s'. st_Discard ?S s k = Ret (s', None) \<and> ?ok s' \<and> (\<forall>k'\<in>K. ?abs s' k' = (if k' = k then None else ?abs s k')) \<and>
      (\<forall>v. v \<in> K - {k} \<longrightarrow> wr s' (path v) = wr s (path v))" if "k \<in> K" "?abs s k \<noteq> None"
  proof -
    note k = that
    obtain s' where "bl_Remove lib s (path k) = (s', None)" "content s' = (content s)(path k := None)" "wr s' = wr s"
      using k(2) lb [THEN conjunct2, THEN conjunct2, THEN conjunct2, THEN conjunct2, rule_format, of s "path k"] by (auto simp: file_abs_def)
    then show ?thesis using ok inj_on_eq_iff [OF inj _ k(1)] by (simp add: ops file_abs_def files_ok_def)
  qed
qed

section \<open>Paths\<close>

text \<open>
  What is relied on of \<open>file.Join\<close>: a path and a name without slashes are joined by a slash, unless the path ends in
  one already.
\<close>

definition plain :: "string \<Rightarrow> bool" where
  "plain s \<longleftrightarrow> s \<noteq> [] \<and> CHR ''/'' \<notin> set s"

definition join_ok :: "(string \<Rightarrow> string \<Rightarrow> string) \<Rightarrow> bool" where
  "join_ok jn \<longleftrightarrow> (\<forall>a b. a \<noteq> [] \<and> plain b \<longrightarrow> jn a b = a @ (if last a = CHR ''/'' then [] else ''/'') @ b)"

lemma joined_inj:
  assumes "CHR ''/'' \<notin> set b" and "CHR ''/'' \<notin> set b'" and "a @ ''/'' @ b = a' @ ''/'' @ b'"
  shows "a = a' \<and> b = b'"
proof -
  have t: "takeWhile (\<lambda>c. c \<noteq> CHR ''/'') (rev x @ CHR ''/'' # ys) = rev x" if "CHR ''/'' \<notin> set x" for x ys
    using that by (subst takeWhile_append2) auto
  have "rev b @ CHR ''/'' # rev a = rev b' @ CHR ''/'' # rev a'" using assms(3) by (metis append.assoc append_Cons append_Nil rev.simps(2) rev_append)
  with t [OF assms(1)] t [OF assms(2)] have "rev b = rev b'" by metis
  then show ?thesis using assms(3) by simp
qed

lemma undec_zeros: "undec (replicate k (CHR ''0'') @ cs) = undec cs"
  by (induction k) (simp_all add: of_char_def)

lemma pad3_digits: "list_all is_digit (pad3 n)" "pad3 n \<noteq> []" "undec (pad3 n) = n"
proof -
  have "is_digit (CHR ''0'')" by (simp add: is_digit_def)
  then show "list_all is_digit (pad3 n)" using decimal_digits [of n] by (auto simp: pad3_def Let_def list_all_iff)
qed (use decimal_digits [of n] in \<open>simp_all add: pad3_def Let_def undec_zeros del: undec.simps\<close>)

lemma pad3_slash: "CHR ''/'' \<notin> set (pad3 n)"
  using pad3_digits(1) [of n] by (auto simp: list_all_iff is_digit_def)

lemma plain_hexadecimal: "plain (hexadecimal n)"
proof (induction n rule: hexadecimal.induct)
  case (1 n)
  define d where "d m = (if m < 10 then char_of (48 + m) else char_of (87 + m) :: char)" for m :: nat
  have d: "d m \<noteq> CHR ''/''" if "m < 16" for m :: nat
  proof -
    have "of_char (d m) \<noteq> (of_char (CHR ''/'') :: nat)" using that by (simp add: d_def of_char_of)
    then show ?thesis by metis
  qed
  have "hexadecimal n = (if n < 16 then [d n] else hexadecimal (n div 16) @ [d (n mod 16)])" by (subst hexadecimal.simps) (simp add: d_def Let_def)
  then show ?case using 1 d [of n] d [of "n mod 16"] by (auto simp: plain_def)
qed

definition shard_spec :: "TaskName \<Rightarrow> string" where
  "shard_spec t = (if TaskName_IsCombiner t then ''combiner'' else pad3 (nShard t) @ ''-of-'' @ pad3 (nNumShard t))"

lemma shard_spec_inj:
  assumes "shard_spec t = shard_spec u"
  shows "nNumShard t = nNumShard u \<and> (nNumShard t \<noteq> 0 \<longrightarrow> nShard t = nShard u)"
proof -
  have d: "\<not> is_digit (CHR ''-'')" "\<not> is_digit (CHR ''c'')" by (simp_all add: is_digit_def)
  have tw: "takeWhile is_digit (pad3 n @ CHR ''-'' # xs) = pad3 n" for n xs
    using pad3_digits(1) [of n] d by (subst takeWhile_append2) (auto simp: list_all_iff)
  have hd: "is_digit (hd (pad3 n @ xs))" for n xs using pad3_digits(1,2) [of n] by (cases "pad3 n") auto
  consider "TaskName_IsCombiner t" "TaskName_IsCombiner u" | "\<not> TaskName_IsCombiner t" "\<not> TaskName_IsCombiner u"
    using assms hd d(2) unfolding shard_spec_def by (metis list.sel(1))
  then show ?thesis
  proof cases
    case 2
    then have e: "pad3 (nShard t) @ CHR ''-'' # ''of-'' @ pad3 (nNumShard t) = pad3 (nShard u) @ CHR ''-'' # ''of-'' @ pad3 (nNumShard u)"
      using assms by (simp add: shard_spec_def)
    then have "pad3 (nShard t) = pad3 (nShard u)" by (metis tw)
    moreover from this e have "pad3 (nNumShard t) = pad3 (nNumShard u)" by simp
    ultimately show ?thesis by (metis pad3_digits(3))
  qed (simp add: TaskName_IsCombiner_def)
qed

lemma file_path_keys:
  assumes "join_ok jn" and "root \<noteq> []" and "plain (nOp t)" and "plain (nOp u)"
    and "file_path jn root (t, p) = file_path jn root (u, q)"
  shows "nOp t = nOp u \<and> nNumShard t = nNumShard u \<and> (nNumShard t \<noteq> 0 \<longrightarrow> nShard t = nShard u) \<and> p = q"
proof -
  let ?h = "\<lambda>t. hexadecimal (unat (drop_bit 24 (fnv32a (map of_char (TaskName_String t)))))"
  define R where "R = root @ (if last root = CHR ''/'' then [] else ''/'')"
  have jr: "jn root b = R @ b" "R @ b \<noteq> []" "last (R @ b) \<noteq> CHR ''/''" if "plain b" for b
    using assms(1,2) that by (auto simp: join_ok_def plain_def R_def dest: last_in_set)
  have jn: "jn a b = a @ ''/'' @ b" "a @ ''/'' @ b \<noteq> []" "last (a @ ''/'' @ b) \<noteq> CHR ''/''" if "a \<noteq> []" "last a \<noteq> CHR ''/''" "plain b" for a b
    using assms(1) that by (auto simp: join_ok_def plain_def dest: last_in_set)
  have dig: "plain (''p'' @ pad3 n)" "plain (shard_spec t)" for n t
    using pad3_slash pad3_digits(2) by (auto simp: plain_def shard_spec_def)
  have path: "file_path jn root (t, p) = (((R @ ?h t) @ ''/'' @ nOp t) @ ''/'' @ shard_spec t) @ ''/'' @ (''p'' @ pad3 p)" if "plain (nOp t)" for t p
  proof -
    note r = jr [OF plain_hexadecimal]
    have "file_path jn root (t, p) = jn (jn (jn (jn root (?h t)) (nOp t)) (shard_spec t)) (''p'' @ pad3 p)"
      by (simp add: file_path_def Let_def shard_spec_def)
    then show ?thesis
      using r(1) jn [OF r(2,3) that] jn [OF jn(2,3) [OF r(2,3) that] dig(2)] jn [OF jn(2,3) [OF jn(2,3) [OF r(2,3) that] dig(2)] dig(1)] by metis
  qed
  have ns: "CHR ''/'' \<notin> set (''p'' @ pad3 n)" "CHR ''/'' \<notin> set (shard_spec t)" for n t using dig by (simp_all add: plain_def)
  from joined_inj [OF ns(1) ns(1) assms(5) [unfolded path [OF assms(3)] path [OF assms(4)]]]
  have e: "((R @ ?h t) @ ''/'' @ nOp t) @ ''/'' @ shard_spec t = ((R @ ?h u) @ ''/'' @ nOp u) @ ''/'' @ shard_spec u" "pad3 p = pad3 q" by auto
  from joined_inj [OF ns(2) ns(2) e(1)] have e1: "(R @ ?h t) @ ''/'' @ nOp t = (R @ ?h u) @ ''/'' @ nOp u" "shard_spec t = shard_spec u" by auto
  have "nOp t = nOp u" using joined_inj [OF _ _ e1(1)] assms(3,4) by (simp add: plain_def)
  moreover have "p = q" using e(2) by (metis pad3_digits(3))
  ultimately show ?thesis using shard_spec_inj [OF e1(2)] by simp
qed

text \<open>
  C35.  Two partitions are kept in the same file only if their tasks have the same printed name, and they are the
  same partition.  (The index of the invocation is not part of the path: the tasks of different invocations
  are told apart by their operation names.)
\<close>

theorem file_path_inj:
  assumes "join_ok jn" and "root \<noteq> []" and "plain (nOp t)" and "plain (nOp u)"
    and "file_path jn root (t, p) = file_path jn root (u, q)"
  shows "TaskName_String t = TaskName_String u \<and> p = q"
  using file_path_keys [OF assms] by (auto simp: TaskName_String_def)

theorem file_path_inj_witness:
  "TaskName_String \<lparr>nInvIndex = 1, nOp = ''inv1_map'', nShard = 2, nNumShard = 5\<rparr> = TaskName_String \<lparr>nInvIndex = 7, nOp = ''inv1_map'', nShard = 2, nNumShard = 5\<rparr> \<and> (3 :: nat) = 3"
  by (rule file_path_inj [where jn = "\<lambda>a b. a @ (if last a = CHR ''/'' then [] else ''/'') @ b" and root = "''/tmp/''"]) (simp_all add: join_ok_def plain_def file_path_def TaskName_String_def TaskName_IsCombiner_def)

section \<open>Sequences of operations\<close>

text \<open>
  A client writes a partition through a writer that it commits, reads from an offset, asks for the metadata, and
  discards.
\<close>

datatype sop = OpPut skey "byte list list" int | OpOpen skey nat | OpStat skey | OpDiscard skey

datatype sres = RDone | RData "byte list" | RInfo sliceInfo | RFailed

fun write_all :: "('s, 'w) storeops \<Rightarrow> 's \<Rightarrow> 'w \<Rightarrow> byte list list \<Rightarrow> 's \<times> 'w \<times> gerr" where
  "write_all S s w [] = (s, w, None)"
| "write_all S s w (b # bs) = (case st_Write S s w b of
     (s, w, None) \<Rightarrow> write_all S s w bs
   | (s, w, Some e) \<Rightarrow> (s, w, Some e))"

definition put_all :: "('s, 'w) storeops \<Rightarrow> 's \<Rightarrow> skey \<Rightarrow> byte list list \<Rightarrow> int \<Rightarrow> ('s \<times> gerr) go" where
  "put_all S s k bs n = go_bind (st_Create S s k) (\<lambda>(s, r). case r of
       Inl e \<Rightarrow> Ret (s, Some e)
     | Inr w \<Rightarrow> (case write_all S s w bs of
         (s, w, Some e) \<Rightarrow> Ret (s, Some e)
       | (s, w, None) \<Rightarrow> st_Commit S s w n))"

fun run_op :: "('s, 'w) storeops \<Rightarrow> sop \<Rightarrow> 's \<Rightarrow> ('s \<times> sres) go" where
  "run_op S (OpPut k bs n) s = go_bind (put_all S s k bs n) (\<lambda>(s, err). Ret (s, if err = None then RDone else RFailed))"
| "run_op S (OpOpen k off) s = go_bind (st_Open S s k off) (\<lambda>r. Ret (s, case r of Inl e \<Rightarrow> RFailed | Inr b \<Rightarrow> RData b))"
| "run_op S (OpStat k) s = go_bind (st_Stat S s k) (\<lambda>r. Ret (s, case r of Inl e \<Rightarrow> RFailed | Inr i \<Rightarrow> RInfo i))"
| "run_op S (OpDiscard k) s = go_bind (st_Discard S s k) (\<lambda>(s, err). Ret (s, if err = None then RDone else RFailed))"

fun run_ops :: "('s, 'w) storeops \<Rightarrow> sop list \<Rightarrow> 's \<Rightarrow> ('s \<times> sres list) go" where
  "run_ops S [] s = Ret (s, [])"
| "run_ops S (x # xs) s = go_bind (run_op S x s) (\<lambda>(s, r). go_bind (run_ops S xs s) (\<lambda>(s, rs). Ret (s, r # rs)))"

text \<open>The abstract store: a map from keys to contents and numbers of records.\<close>

fun abs_op :: "sop \<Rightarrow> (skey \<rightharpoonup> byte list \<times> int) \<Rightarrow> (skey \<rightharpoonup> byte list \<times> int) \<times> sres" where
  "abs_op (OpPut k bs n) a = (a(k \<mapsto> (concat bs, n)), RDone)"
| "abs_op (OpOpen k off) a = (a, case a k of None \<Rightarrow> RFailed | Some (p, _) \<Rightarrow> RData (drop off p))"
| "abs_op (OpStat k) a = (a, case a k of None \<Rightarrow> RFailed | Some (p, n) \<Rightarrow> RInfo \<lparr>siSize = int (length p), siRecords = n\<rparr>)"
| "abs_op (OpDiscard k) a = (a(k := None), RDone)"

fun abs_ops :: "sop list \<Rightarrow> (skey \<rightharpoonup> byte list \<times> int) \<Rightarrow> sres list" where
  "abs_ops [] a = []"
| "abs_ops (x # xs) a = snd (abs_op x a) # abs_ops xs (fst (abs_op x a))"

text \<open>The protocol: a partition is written when it is not stored, discarded when it is, and not read from beyond its end.\<close>

fun legal :: "sop \<Rightarrow> (skey \<rightharpoonup> byte list \<times> int) \<Rightarrow> bool" where
  "legal (OpPut k bs n) a \<longleftrightarrow> a k = None \<and> - (2 ^ 63) \<le> n \<and> n < 2 ^ 63"
| "legal (OpOpen k off) a \<longleftrightarrow> (case a k of None \<Rightarrow> True | Some (p, _) \<Rightarrow> off \<le> length p)"
| "legal (OpStat k) a \<longleftrightarrow> True"
| "legal (OpDiscard k) a \<longleftrightarrow> a k \<noteq> None"

fun legal_ops :: "sop list \<Rightarrow> (skey \<rightharpoonup> byte list \<times> int) \<Rightarrow> bool" where
  "legal_ops [] a \<longleftrightarrow> True"
| "legal_ops (x # xs) a \<longleftrightarrow> legal x a \<and> legal_ops xs (fst (abs_op x a))"

fun op_key :: "sop \<Rightarrow> skey" where
  "op_key (OpPut k bs n) = k"
| "op_key (OpOpen k off) = k"
| "op_key (OpStat k) = k"
| "op_key (OpDiscard k) = k"

context task_store
begin

lemma write_all_ok:
  "ok s \<Longrightarrow> wkey w \<in> K \<Longrightarrow> \<exists>s' w'. write_all S s w bs = (s', w', None) \<and> ok s' \<and> wkey w' = wkey w \<and> pend s' w' = pend s w @ concat bs \<and> (\<forall>k\<in>K. abst s' k = abst s k)"
proof (induction bs arbitrary: s w)
  case (Cons b bs)
  from write_law [OF Cons.prems, of b] obtain s1 w1 where s1: "st_Write S s w b = (s1, w1, None)" "ok s1" "wkey w1 = wkey w" "pend s1 w1 = pend s w @ b"
    "\<forall>k\<in>K. abst s1 k = abst s k" by blast
  with Cons.IH [of s1 w1] Cons.prems(2) show ?case by auto
qed simp

lemma put_all_ok:
  assumes "ok s" and "k \<in> K" and "abst s k = None" and "- (2 ^ 63) \<le> n" and "n < 2 ^ 63"
  shows "\<exists>s'. put_all S s k bs n = Ret (s', None) \<and> ok s' \<and> (\<forall>k'\<in>K. abst s' k' = (if k' = k then Some (concat bs, n) else abst s k'))"
proof -
  from create_law [OF assms(1-3)] obtain s1 w where s1: "st_Create S s k = Ret (s1, Inr w)" "ok s1" "wkey w = k" "pend s1 w = []" "\<forall>k'\<in>K. abst s1 k' = abst s k'" by blast
  from write_all_ok [of s1 w bs] s1 assms(2) obtain s2 w2 where s2: "write_all S s1 w bs = (s2, w2, None)" "ok s2" "wkey w2 = k" "pend s2 w2 = concat bs"
    "\<forall>k'\<in>K. abst s2 k' = abst s k'" by auto
  from commit_law [OF s2(2), of w2 n] s2(3-5) assms(2-5) obtain s3 where "st_Commit S s2 w2 n = Ret (s3, None)" "ok s3"
    "\<forall>k'\<in>K. abst s3 k' = (if k' = k then Some (concat bs, n) else abst s k')" by auto
  with s1(1) s2(1) show ?thesis by (auto simp: put_all_def)
qed

lemma run_op_ok:
  assumes "ok s" and "\<forall>k\<in>K. abst s k = a k" and "op_key x \<in> K" and "legal x a"
  shows "\<exists>s'. run_op S x s = Ret (s', snd (abs_op x a)) \<and> ok s' \<and> (\<forall>k\<in>K. abst s' k = fst (abs_op x a) k)"
proof (cases x)
  case (OpPut k bs n)
  with assms put_all_ok [of s k n bs] show ?thesis by auto
next
  case (OpOpen k off)
  then show ?thesis using assms missing_law [of s k off] open_law [of s k _ _ off] by (cases "a k") auto
next
  case (OpStat k)
  then show ?thesis using assms missing_law [of s k 0] stat_law [of s k] by (cases "a k") auto
next
  case (OpDiscard k)
  with assms discard_law [of s k] show ?thesis by auto
qed

lemma run_ops_ok:
  "ok s \<Longrightarrow> \<forall>k\<in>K. abst s k = a k \<Longrightarrow> \<forall>x\<in>set xs. op_key x \<in> K \<Longrightarrow> legal_ops xs a \<Longrightarrow> \<exists>s'. run_ops S xs s = Ret (s', abs_ops xs a)"
proof (induction xs arbitrary: s a)
  case (Cons x xs)
  from run_op_ok [OF Cons.prems(1,2), of x] Cons.prems(3,4) obtain s1 where s1: "run_op S x s = Ret (s1, snd (abs_op x a))" "ok s1" "\<forall>k\<in>K. abst s1 k = fst (abs_op x a) k" by auto
  with Cons.IH [OF s1(2,3)] Cons.prems(3,4) show ?case by auto
qed simp

end

text \<open>
  C9.  The memory store and the file store refine the same abstract store, a map from tasks and partitions to
  bytes and numbers of records: for every sequence of operations that follows the protocol, on tasks whose
  files have distinct paths, both stores, initially empty, answer every operation as the map does.  The file
  store keeps the number of records at the end of the file, outside of what is read back.
\<close>

theorem stores_refine_map:
  assumes "bytes_ok lib content wr" and "\<forall>p. content fs p = None" and "inj_on (file_path (bl_Join lib) root) (op_key ` set xs)" and "legal_ops xs Map.empty"
  shows "(\<exists>m. run_ops (memory_store None) xs newMemoryStore = Ret (m, abs_ops xs Map.empty)) \<and>
    (\<exists>fs'. run_ops (file_store lib root) xs fs = Ret (fs', abs_ops xs Map.empty))"
proof
  have "mem_ok newMemoryStore" "mem_abs newMemoryStore k = None" for k
    by (auto simp: mem_ok_def mem_abs_def newMemoryStore_def at_key_def split: prod.splits)
  then show "\<exists>m. run_ops (memory_store None) xs newMemoryStore = Ret (m, abs_ops xs Map.empty)"
    using ms.run_ops_ok [of newMemoryStore Map.empty xs] assms(4) by simp
  show "\<exists>fs'. run_ops (file_store lib root) xs fs = Ret (fs', abs_ops xs Map.empty)"
    using task_store.run_ops_ok [OF file_store_contract [OF assms(1,3)], of fs Map.empty xs] assms(2,4) by (simp add: files_ok_def file_abs_def)
qed

text \<open>A file system in memory: the files, and those that are being written.\<close>

definition mem_bytes :: "((string \<rightharpoonup> byte list) \<times> (string \<Rightarrow> byte list)) bytelib" where
  "mem_bytes = \<lparr>bl_Join = (\<lambda>a b. a @ (if last a = CHR ''/'' then [] else ''/'') @ b), bl_Create = (\<lambda>fs p. ((fst fs, (snd fs)(p := [])), None)),
     bl_Write = (\<lambda>fs p b. ((fst fs, (snd fs)(p := snd fs p @ b)), None)), bl_Close = (\<lambda>fs p. (((fst fs)(p \<mapsto> snd fs p), snd fs), None)),
     bl_Discard = (\<lambda>fs p. fs),
     bl_Open = (\<lambda>fs p. if fst fs p = None then Some (ErrNew ''no such file'') else None),
     bl_Stat = (\<lambda>fs p. case fst fs p of None \<Rightarrow> Inl (ErrNew ''no such file'') | Some c \<Rightarrow> Inr (length c)),
     bl_Seek = (\<lambda>fs p i. (i, i, None)), bl_SeekEnd = (\<lambda>fs p i. let n = length (the (fst fs p)) - i in (n, n, None)),
     bl_Read = (\<lambda>fs p i n. (take n (drop i (the (fst fs p))), None)), bl_Rest = (\<lambda>fs p i. drop i (the (fst fs p))),
     bl_Remove = (\<lambda>fs p. (((fst fs)(p := None), snd fs), if fst fs p = None then Some (ErrNew ''no such file'') else None))\<rparr>"

lemma mem_bytes_ok: "bytes_ok mem_bytes fst snd"
  unfolding bytes_ok_def by (auto simp: mem_bytes_def Let_def split: option.splits)

theorem stores_refine_map_witness:
  "\<exists>fs'. run_ops (file_store mem_bytes ''/tmp'')
      [OpPut (\<lparr>nInvIndex = 1, nOp = ''map'', nShard = 0, nNumShard = 2\<rparr>, 0) [[1, 2], [3]] 7, OpOpen (\<lparr>nInvIndex = 1, nOp = ''map'', nShard = 0, nNumShard = 2\<rparr>, 0) 1,
       OpStat (\<lparr>nInvIndex = 1, nOp = ''map'', nShard = 0, nNumShard = 2\<rparr>, 0)] (Map.empty, \<lambda>_. []) =
     Ret (fs', [RDone, RData [2, 3], RInfo \<lparr>siSize = 3, siRecords = 7\<rparr>])"
  using stores_refine_map [OF mem_bytes_ok, of "(Map.empty, \<lambda>_. [])" "''/tmp''"
      "[OpPut (\<lparr>nInvIndex = 1, nOp = ''map'', nShard = 0, nNumShard = 2\<rparr>, 0) [[1, 2], [3]] 7, OpOpen (\<lparr>nInvIndex = 1, nOp = ''map'', nShard = 0, nNumShard = 2\<rparr>, 0) 1,
       OpStat (\<lparr>nInvIndex = 1, nOp = ''map'', nShard = 0, nNumShard = 2\<rparr>, 0)]"] by (simp del: run_ops.simps)

end
