(* ===== verification/Eval.thy ===== *)
theory Eval
  imports Task "HOL-Library.FSet"
begin

text \<open>
  \<open>exec/eval.go\<close>: the evaluator of task graphs.

  \<open>evstate\<close> is the struct \<open>state\<close> (waitlists, counts, the tasks to run and the tasks pending), with one
  definition per method.  A round of the evaluator reads the state of each task at most once (\<open>wait\<close>
  memoizes the decision); in the model the states are those of one instant, the argument \<open>st\<close>.
  \<open>Enqueue\<close> recurses along dependencies and would not return on a cyclic graph: its first argument
  bounds the depth, and it is shown to return for every acyclic graph of smaller depth.

  The loop of \<open>Eval\<close>, the goroutines it starts, the executor and the loss of machines are the step
  relation \<open>eval_step\<close>.
\<close>

section \<open>The state of an evaluation\<close>

record evstate =
  edeps :: "nat \<Rightarrow> nat fset option"
  ecounts :: "nat \<Rightarrow> int"
  etodo :: "nat set"
  epending :: "nat set"
  ewait :: "nat \<Rightarrow> nat option"
  eerr :: gerr

definition newState :: evstate where
  "newState = \<lparr>edeps = Map.empty, ecounts = (\<lambda>_. 0), etodo = {}, epending = {}, ewait = Map.empty, eerr = None\<rparr>"

definition ev_schedule :: "nat \<Rightarrow> evstate \<Rightarrow> evstate" where
  "ev_schedule t s = (if t \<in> epending s then s else s\<lparr>etodo := insert t (etodo s)\<rparr>)"

definition ev_delete :: "nat \<Rightarrow> TaskDep \<Rightarrow> evstate \<Rightarrow> evstate" where
  "ev_delete t d s = (case dHead d of
       None \<Rightarrow> s
     | Some src \<Rightarrow> s\<lparr>edeps := (edeps s)(src := map_option (\<lambda>D. D |-| {|t|}) (edeps s src))\<rparr>)"

definition ev_clear :: "(nat \<Rightarrow> 'a Task_scheme) \<Rightarrow> nat \<Rightarrow> evstate \<Rightarrow> evstate" where
  "ev_clear h t s = fold (ev_delete t) (tDeps (h t)) (s\<lparr>ecounts := (ecounts s)(t := 0)\<rparr>)"

definition ev_add :: "nat \<Rightarrow> nat \<Rightarrow> nat \<Rightarrow> evstate \<Rightarrow> evstate" where
  "ev_add src dst n s = (case edeps s src of
       None \<Rightarrow> s\<lparr>edeps := (edeps s)(src \<mapsto> {|dst|}), ecounts := (ecounts s)(dst := ecounts s dst + int n)\<rparr>
     | Some D \<Rightarrow>
         if dst |\<in>| D then s
         else s\<lparr>edeps := (edeps s)(src \<mapsto> finsert dst D), ecounts := (ecounts s)(dst := ecounts s dst + int n)\<rparr>)"

fun done_loop :: "nat list \<Rightarrow> (nat \<Rightarrow> int) \<Rightarrow> nat list \<Rightarrow> (nat \<Rightarrow> int) \<times> nat list" where
  "done_loop [] counts ready = (counts, ready)"
| "done_loop (dst # dsts) counts ready =
     (let counts = counts(dst := counts dst - 1)
      in done_loop dsts counts (if counts dst = 0 then ready @ [dst] else ready))"

text \<open>\<open>order\<close> is the order in which a set is ranged over.\<close>

definition ev_done :: "(nat set \<Rightarrow> nat list) \<Rightarrow> nat \<Rightarrow> evstate \<Rightarrow> evstate \<times> nat list" where
  "ev_done order src s =
     (let (counts, ready) = done_loop (order (case edeps s src of None \<Rightarrow> {} | Some D \<Rightarrow> fset D)) (ecounts s) []
      in (s\<lparr>ecounts := counts\<rparr>, ready))"

text \<open>The loops of \<open>Enqueue\<close>; \<open>rec\<close> is the recursive call.\<close>

fun enqueue_deps ::
  "(nat \<Rightarrow> evstate \<Rightarrow> (evstate \<times> nat) go option) \<Rightarrow> nat \<Rightarrow> TaskDep list \<Rightarrow> bool \<Rightarrow> evstate \<Rightarrow> (evstate \<times> bool) go option" where
  "enqueue_deps rec t [] ready s = Some (Ret (s, ready))"
| "enqueue_deps rec t (d # ds) ready s = (case dHead d of
       None \<Rightarrow> Some (Panic ''nil pointer dereference'')
     | Some src \<Rightarrow> run_bind (rec src s) (\<lambda>(s, n).
         if n = 0 then enqueue_deps rec t ds ready s
         else enqueue_deps rec t ds False (ev_add src t n s)))"

fun enqueue_phase ::
  "(nat \<Rightarrow> evstate \<Rightarrow> (evstate \<times> nat) go option) \<Rightarrow> (nat \<Rightarrow> 'a Task_scheme) \<Rightarrow> (nat \<Rightarrow> TaskState) \<Rightarrow> nat list \<Rightarrow> nat \<Rightarrow> evstate
     \<Rightarrow> (evstate \<times> nat) go option" where
  "enqueue_phase rec h st [] nwait s = Some (Ret (s, nwait))"
| "enqueue_phase rec h st (t # ts) nwait s =
     (if st t \<in> {TaskOk, TaskErr} then enqueue_phase rec h st ts nwait s
      else if st t \<in> {TaskWaiting, TaskRunning} then enqueue_phase rec h st ts (Suc nwait) (ev_schedule t s)
      else run_bind (enqueue_deps rec t (tDeps (h t)) True (ev_clear h t s)) (\<lambda>(s, ready).
        enqueue_phase rec h st ts (Suc nwait) (if ready then ev_schedule t s else s)))"

primrec Enqueue ::
  "nat \<Rightarrow> (nat \<Rightarrow> 'a Task_scheme) \<Rightarrow> (nat \<Rightarrow> TaskState) \<Rightarrow> nat \<Rightarrow> evstate \<Rightarrow> (evstate \<times> nat) go option" where
  "Enqueue 0 h st t s = None"
| "Enqueue (Suc k) h st t s = (case ewait s (Head h t) of
       Some n \<Rightarrow> Some (Ret (s, n))
     | None \<Rightarrow> run_bind (enqueue_phase (Enqueue k h st) h st (Phase h t) 0 s) (\<lambda>(s, nwait).
         Some (Ret (s\<lparr>ewait := (ewait s)(Head h t \<mapsto> nwait)\<rparr>, nwait))))"

fun enqueue_all ::
  "nat \<Rightarrow> (nat \<Rightarrow> 'a Task_scheme) \<Rightarrow> (nat \<Rightarrow> TaskState) \<Rightarrow> nat list \<Rightarrow> evstate \<Rightarrow> evstate go option" where
  "enqueue_all k h st [] s = Some (Ret s)"
| "enqueue_all k h st (t # ts) s = run_bind (Enqueue k h st t s) (\<lambda>(s, n). enqueue_all k h st ts s)"

definition ev_Return ::
  "nat \<Rightarrow> (nat set \<Rightarrow> nat list) \<Rightarrow> (nat \<Rightarrow> 'a Task_scheme) \<Rightarrow> (nat \<Rightarrow> TaskState) \<Rightarrow> (nat \<Rightarrow> gerr) \<Rightarrow> nat \<Rightarrow> evstate
     \<Rightarrow> evstate go option" where
  "ev_Return k order h st terr t s =
     (if t \<notin> epending s then Some (Panic ''exec.Eval: done task: not pending'')
      else let s = s\<lparr>ewait := Map.empty, epending := epending s - {t}\<rparr>
           in case st t of
               TaskErr \<Rightarrow> Some (Ret (s\<lparr>eerr := Some (ErrE [] (terr t))\<rparr>))
             | TaskOk \<Rightarrow> (let (s, ready) = ev_done order (Head h t) s in enqueue_all k h st ready s)
             | TaskLost \<Rightarrow> run_bind (Enqueue k h st t s) (\<lambda>(s, n). Some (Ret s))
             | _ \<Rightarrow> Some (Ret (ev_schedule t s)))"

definition Runnable :: "(nat set \<Rightarrow> nat list) \<Rightarrow> evstate \<Rightarrow> evstate \<times> nat list" where
  "Runnable order s = (s\<lparr>etodo := {}, epending := epending s \<union> etodo s\<rparr>, order (etodo s))"

definition Todo :: "evstate \<Rightarrow> bool" where
  "Todo s \<longleftrightarrow> etodo s \<noteq> {}"

definition Done :: "evstate \<Rightarrow> bool" where
  "Done s \<longleftrightarrow> eerr s \<noteq> None \<or> etodo s = {} \<and> epending s = {}"

section \<open>The evaluation loop\<close>

definition maxConsecutiveLost :: nat where
  "maxConsecutiveLost = 5"

text \<open>
  \<open>xbatch\<close>: tasks returned by \<open>Runnable\<close> that are still to be started.  \<open>xwatch\<close>: the goroutines that
  wait for a task to finish, with the flag \<open>runner\<close>.  \<open>xdone\<close>: tasks sent on \<open>donec\<close>.  \<open>xrun\<close>: tasks
  on which the executor's \<open>Run\<close> is active.  \<open>xother\<close>: the goroutines of other evaluators that wait for a task they
  have submitted.  \<open>xresult\<close>: what \<open>Eval\<close> has returned.  \<open>xfin\<close> is a history variable: the tasks that \<open>Return\<close> has
  found in state \<open>TaskOk\<close>.  The states, errors and counts of losses belong to the tasks and are shared by all evaluators.
\<close>

record evalsys =
  xst :: "nat \<Rightarrow> TaskState"
  xterr :: "nat \<Rightarrow> gerr"
  xlost :: "nat \<Rightarrow> nat"
  xev :: evstate
  xbatch :: "nat list"
  xwatch :: "(nat \<times> bool) list"
  xdone :: "nat list"
  xrun :: "nat set"
  xother :: "nat list"
  xresult :: "gerr option"
  xfin :: "nat set"

text \<open>The body of the loop over the runnable tasks, for one of them.\<close>

definition start_task :: "nat \<Rightarrow> evalsys \<Rightarrow> evalsys" where
  "start_task t x =
     (let x = (if xst x t = TaskLost then x\<lparr>xst := (xst x)(t := TaskInit)\<rparr> else x);
          runner = (xst x t = TaskInit);
          x = (if runner then x\<lparr>xst := (xst x)(t := TaskWaiting), xrun := insert t (xrun x)\<rparr> else x)
      in x\<lparr>xwatch := xwatch x @ [(t, runner)]\<rparr>)"

text \<open>
  The goroutine that waited for a task, once the task has finished: the runner counts consecutive
  losses (with \<open>enableMaxConsecutiveLost\<close>) and gives up on a task that is lost too often.
\<close>

definition count_lost :: "nat \<Rightarrow> evalsys \<Rightarrow> evalsys" where
  "count_lost t x = (case xst x t of
       TaskOk \<Rightarrow> x\<lparr>xlost := (xlost x)(t := 0)\<rparr>
     | TaskLost \<Rightarrow>
         (let n = Suc (xlost x t); x = x\<lparr>xlost := (xlost x)(t := n)\<rparr>
          in if maxConsecutiveLost \<le> n
             then x\<lparr>xst := (xst x)(t := TaskErr),
                    xterr := (xterr x)(t := Some (ErrNew (''lost on '' @ decimal n @ '' consecutive attempts'')))\<rparr>
             else x)
     | _ \<Rightarrow> x)"

definition watch_task :: "nat \<Rightarrow> bool \<Rightarrow> evalsys \<Rightarrow> evalsys" where
  "watch_task t runner x = (let x = (if runner then count_lost t x else x) in x\<lparr>xdone := xdone x @ [t]\<rparr>)"

text \<open>
  \<open>others\<close> says whether other evaluators work on the same tasks: they start a task whose dependencies
  are done, as this one does, and their goroutines count its losses when it has finished.
\<close>

inductive eval_step ::
  "nat \<Rightarrow> (nat set \<Rightarrow> nat list) \<Rightarrow> (nat \<Rightarrow> 'a Task_scheme) \<Rightarrow> bool \<Rightarrow> evalsys \<Rightarrow> evalsys \<Rightarrow> bool"
  for k order h others where
  receive: "xresult x = None \<Longrightarrow> xbatch x = [] \<Longrightarrow> \<not> Done (xev x) \<Longrightarrow> \<not> Todo (xev x) \<Longrightarrow> t \<in> set (xdone x) \<Longrightarrow>
    ev_Return k order h (xst x) (xterr x) t (xev x) = Some (Ret ev) \<Longrightarrow>
    eval_step k order h others x (x\<lparr>xev := ev, xdone := remove1 t (xdone x),
      xfin := (if xst x t = TaskOk then insert t (xfin x) else xfin x)\<rparr>)"
| runnable: "xresult x = None \<Longrightarrow> xbatch x = [] \<Longrightarrow> \<not> Done (xev x) \<Longrightarrow> Todo (xev x) \<Longrightarrow>
    Runnable order (xev x) = (ev, ts) \<Longrightarrow> eval_step k order h others x (x\<lparr>xev := ev, xbatch := ts\<rparr>)"
| start: "xresult x = None \<Longrightarrow> xbatch x = t # ts \<Longrightarrow> eval_step k order h others x (start_task t (x\<lparr>xbatch := ts\<rparr>))"
| finish: "xresult x = None \<Longrightarrow> xbatch x = [] \<Longrightarrow> Done (xev x) \<Longrightarrow>
    eval_step k order h others x (x\<lparr>xresult := Some (eerr (xev x))\<rparr>)"
| cancel: "xresult x = None \<Longrightarrow> xbatch x = [] \<Longrightarrow> \<not> Done (xev x) \<Longrightarrow> \<not> Todo (xev x) \<Longrightarrow> xwatch x \<noteq> [] \<Longrightarrow>
    eval_step k order h others x (x\<lparr>xresult := Some (Some e)\<rparr>)"
| watch: "xwatch x = ws @ (t, runner) # ws' \<Longrightarrow> TaskOk \<le> xst x t \<Longrightarrow>
    eval_step k order h others x (watch_task t runner (x\<lparr>xwatch := ws @ ws'\<rparr>))"
| exec_run: "t \<in> xrun x \<Longrightarrow> xst x t = TaskWaiting \<Longrightarrow>
    eval_step k order h others x (x\<lparr>xst := (xst x)(t := TaskRunning)\<rparr>)"
| exec_finish: "t \<in> xrun x \<Longrightarrow> TaskOk \<le> s \<Longrightarrow> (s = TaskErr \<longrightarrow> e \<noteq> None) \<Longrightarrow>
    eval_step k order h others x (x\<lparr>xst := (xst x)(t := s), xrun := xrun x - {t},
      xterr := (if s = TaskErr then (xterr x)(t := e) else xterr x)\<rparr>)"
| lose: "xst x t = TaskOk \<Longrightarrow> eval_step k order h others x (x\<lparr>xst := (xst x)(t := TaskLost)\<rparr>)"
| other: "others \<Longrightarrow> xst x t \<in> {TaskInit, TaskLost} \<Longrightarrow>
    (\<forall>d\<in>set (tDeps (h t)). \<forall>src. dHead d = Some src \<longrightarrow> (\<forall>u\<in>set (Phase h src). xst x u = TaskOk)) \<Longrightarrow>
    eval_step k order h others x (x\<lparr>xst := (xst x)(t := TaskWaiting), xrun := insert t (xrun x), xother := xother x @ [t]\<rparr>)"
| other_watch: "others \<Longrightarrow> t \<in> set (xother x) \<Longrightarrow> TaskOk \<le> xst x t \<Longrightarrow>
    eval_step k order h others x (count_lost t (x\<lparr>xother := remove1 t (xother x)\<rparr>))"

text \<open>
  \<open>Eval\<close> begins by enqueueing the roots.  The tasks come with the states and the counts of losses that earlier and
  concurrent evaluations have given them; \<open>busy\<close> are those that other evaluators have submitted and the executor runs.
\<close>

definition eval_init ::
  "nat \<Rightarrow> (nat \<Rightarrow> 'a Task_scheme) \<Rightarrow> (nat \<Rightarrow> TaskState) \<Rightarrow> (nat \<Rightarrow> nat) \<Rightarrow> nat list \<Rightarrow> nat list \<Rightarrow> evalsys go option" where
  "eval_init k h st lost busy roots = run_bind (enqueue_all k h st roots newState) (\<lambda>ev.
     Some (Ret \<lparr>xst = st, xterr = (\<lambda>_. None), xlost = lost, xev = ev, xbatch = [], xwatch = [], xdone = [], xrun = set busy,
       xother = busy, xresult = None, xfin = {}\<rparr>))"

section \<open>Task graphs\<close>

text \<open>
  A well-formed graph: phases partition the tasks, a dependency names the head of a phase, and
  dependencies descend in the rank \<open>rk\<close>, so that the graph is acyclic.
\<close>

definition graph_ok :: "(nat \<Rightarrow> 'a Task_scheme) \<Rightarrow> (nat \<Rightarrow> nat) \<Rightarrow> bool" where
  "graph_ok h rk \<longleftrightarrow> (\<forall>t. t \<in> set (Phase h t) \<and> distinct (Phase h t) \<and>
     (\<forall>u\<in>set (Phase h t). Phase h u = Phase h t \<and> rk u = rk t) \<and>
     (\<forall>d\<in>set (tDeps (h t)). \<exists>src. dHead d = Some src \<and> Head h src = src \<and> rk src < rk t))"

lemma Head_Phase: "Head h t = hd (Phase h t)"
  by (auto simp: Head_def Phase_def hd_conv_nth)

lemma graph_okD:
  assumes "graph_ok h rk"
  shows "t \<in> set (Phase h t)" and "distinct (Phase h t)" and "u \<in> set (Phase h t) \<Longrightarrow> Phase h u = Phase h t"
    and "u \<in> set (Phase h t) \<Longrightarrow> rk u = rk t" and "Phase h (Head h t) = Phase h t" and "rk (Head h t) = rk t"
    and "Head h (Head h t) = Head h t" and "u \<in> set (Phase h t) \<Longrightarrow> Head h u = Head h t"
proof -
  show a: "t \<in> set (Phase h t)" "distinct (Phase h t)" for t using assms by (auto simp: graph_ok_def)
  show b: "u \<in> set (Phase h t) \<Longrightarrow> Phase h u = Phase h t" "u \<in> set (Phase h t) \<Longrightarrow> rk u = rk t" for u
    using assms by (auto simp: graph_ok_def)
  have "Head h t \<in> set (Phase h t)" unfolding Head_Phase using a(1) [of t] by (cases "Phase h t") auto
  then show c: "Phase h (Head h t) = Phase h t" "rk (Head h t) = rk t" using b by auto
  show "Head h (Head h t) = Head h t" using c(1) by (simp add: Head_Phase)
  show "u \<in> set (Phase h t) \<Longrightarrow> Head h u = Head h t" using b(1) by (simp add: Head_Phase)
qed

definition unfinished :: "(nat \<Rightarrow> TaskState) \<Rightarrow> nat \<Rightarrow> bool" where
  "unfinished st t \<longleftrightarrow> st t \<notin> {TaskOk, TaskErr}"

definition opens :: "(nat \<Rightarrow> 'a Task_scheme) \<Rightarrow> (nat \<Rightarrow> TaskState) \<Rightarrow> nat \<Rightarrow> nat set" where
  "opens h st t = {u \<in> set (Phase h t). unfinished st u}"

definition nopen :: "(nat \<Rightarrow> 'a Task_scheme) \<Rightarrow> (nat \<Rightarrow> TaskState) \<Rightarrow> nat \<Rightarrow> nat" where
  "nopen h st t = length (filter (unfinished st) (Phase h t))"

lemma graph_dep:
  assumes "graph_ok h rk" and "d \<in> set (tDeps (h t))"
  shows "\<exists>src. dHead d = Some src \<and> Head h src = src \<and> rk src < rk t"
  using assms unfolding graph_ok_def by blast

lemma nopen_card: "graph_ok h rk \<Longrightarrow> nopen h st t = card (opens h st t)"
  using graph_okD(2) [of h rk t] distinct_card [of "filter (unfinished st) (Phase h t)"]
  by (simp add: nopen_def opens_def)

definition heads :: "(nat \<Rightarrow> 'a Task_scheme) \<Rightarrow> nat \<Rightarrow> nat set" where
  "heads h t = {src. \<exists>d\<in>set (tDeps (h t)). dHead d = Some src}"

lemma finite_heads [simp]: "finite (heads h t)"
proof -
  have "heads h t \<subseteq> the ` dHead ` set (tDeps (h t))" by (force simp: heads_def)
  then show ?thesis by (rule finite_subset) simp
qed

section \<open>Waitlists\<close>

text \<open>The phases whose waitlist has a task, and the effect of the methods on it.\<close>

definition waits :: "evstate \<Rightarrow> nat \<Rightarrow> nat set" where
  "waits s t = {src. \<exists>D. edeps s src = Some D \<and> t |\<in>| D}"

lemma ev_delete_simps [simp]:
  "ecounts (ev_delete t d s) = ecounts s" "etodo (ev_delete t d s) = etodo s" "epending (ev_delete t d s) = epending s"
  "ewait (ev_delete t d s) = ewait s" "eerr (ev_delete t d s) = eerr s"
  "waits (ev_delete t d s) v = (if v = t then waits s t - set_option (dHead d) else waits s v)"
  by (auto simp: ev_delete_def waits_def split: option.splits if_splits)

lemma fold_ev_delete [simp]:
  "ecounts (fold (ev_delete t) ds s) = ecounts s" "etodo (fold (ev_delete t) ds s) = etodo s"
  "epending (fold (ev_delete t) ds s) = epending s" "ewait (fold (ev_delete t) ds s) = ewait s"
  "eerr (fold (ev_delete t) ds s) = eerr s"
  "waits (fold (ev_delete t) ds s) v =
    (if v = t then waits s t - {src. \<exists>d\<in>set ds. dHead d = Some src} else waits s v)"
  by (induction ds arbitrary: s) auto

lemma ev_clear_simps [simp]:
  "ecounts (ev_clear h t s) = (ecounts s)(t := 0)" "etodo (ev_clear h t s) = etodo s"
  "epending (ev_clear h t s) = epending s" "ewait (ev_clear h t s) = ewait s" "eerr (ev_clear h t s) = eerr s"
  "waits (ev_clear h t s) v = (if v = t then waits s t - heads h t else waits s v)"
  by (simp_all add: ev_clear_def heads_def waits_def [of "s\<lparr>ecounts := _\<rparr>"] flip: waits_def)

lemma ev_add_simps [simp]:
  "etodo (ev_add src t n s) = etodo s" "epending (ev_add src t n s) = epending s" "ewait (ev_add src t n s) = ewait s"
  "eerr (ev_add src t n s) = eerr s"
  "waits (ev_add src t n s) v = (if v = t then insert src (waits s t) else waits s v)"
  "ecounts (ev_add src t n s) = (if src \<in> waits s t then ecounts s else (ecounts s)(t := ecounts s t + int n))"
  by (auto simp: ev_add_def waits_def split: option.splits if_splits)

lemma ev_schedule_simps [simp]:
  "ecounts (ev_schedule t s) = ecounts s" "epending (ev_schedule t s) = epending s" "ewait (ev_schedule t s) = ewait s"
  "eerr (ev_schedule t s) = eerr s" "waits (ev_schedule t s) v = waits s v"
  "etodo (ev_schedule t s) = (if t \<in> epending s then etodo s else insert t (etodo s))"
  by (auto simp: ev_schedule_def waits_def)

section \<open>The invariant of the waitlists\<close>

text \<open>
  \<open>U\<close> is the set of tasks that the evaluator has found unfinished and that have not been returned
  as done since.  A task in \<open>U\<close> is scheduled or pending, or it is blocked: it has a positive count,
  which is at most the number of tasks in \<open>U\<close> in the phases on whose waitlists it is.
\<close>

definition served :: "(nat \<Rightarrow> 'a Task_scheme) \<Rightarrow> (nat \<Rightarrow> TaskState) \<Rightarrow> evstate \<Rightarrow> nat set \<Rightarrow> nat \<Rightarrow> bool" where
  "served h st s U t \<longleftrightarrow> t \<in> etodo s \<union> epending s \<or>
     st t \<in> {TaskInit, TaskLost} \<and> 0 < ecounts s t \<and>
     ecounts s t \<le> (\<Sum>src\<in>waits s t. int (card (U \<inter> set (Phase h src))))"

definition ev_inv :: "(nat \<Rightarrow> 'a Task_scheme) \<Rightarrow> (nat \<Rightarrow> TaskState) \<Rightarrow> evstate \<Rightarrow> nat set \<Rightarrow> nat set \<Rightarrow> bool" where
  "ev_inv h st s U X \<longleftrightarrow> finite (etodo s) \<and> etodo s \<inter> epending s = {} \<and> etodo s \<union> epending s \<subseteq> U \<and> (\<forall>t. waits s t \<subseteq> heads h t) \<and> (\<forall>t\<in>U - X. served h st s U t) \<and>
     (\<forall>src n. ewait s src = Some n \<longrightarrow>
        Head h src = src \<and> n = nopen h st src \<and> opens h st src \<subseteq> U \<and> opens h st src \<inter> X = {})"

lemma served_mono:
  assumes "served h st s U t" and "U \<subseteq> U'" and "waits s' t = waits s t" and "ecounts s' t = ecounts s t"
    and "etodo s \<union> epending s \<subseteq> etodo s' \<union> epending s'"
  shows "served h st s' U' t"
proof -
  have "(\<Sum>src\<in>waits s t. int (card (U \<inter> set (Phase h src)))) \<le> (\<Sum>src\<in>waits s t. int (card (U' \<inter> set (Phase h src))))"
    using assms(2) by (intro sum_mono) (auto intro: card_mono)
  with assms show ?thesis by (auto simp: served_def)
qed

lemma ev_inv_waits:
  assumes "ev_inv h st s U X" shows "waits s t \<subseteq> heads h t" and "finite (waits s t)"
  using assms finite_subset [OF _ finite_heads, of "waits s t" h t] by (simp_all add: ev_inv_def)

text \<open>A step that concerns the waitlists and the count of one exempted task only keeps the rest.\<close>

lemma ev_inv_touch:
  assumes "ev_inv h st s U X" and "t \<in> X" and "\<And>v. v \<noteq> t \<Longrightarrow> waits s' v = waits s v \<and> ecounts s' v = ecounts s v"
    and "waits s' t \<subseteq> heads h t" and "etodo s' = etodo s" and "epending s' = epending s" and "ewait s' = ewait s"
  shows "ev_inv h st s' U X"
proof -
  have "served h st s' U v" if "v \<in> U - X" for v
  proof (rule served_mono [of h st s U v])
    show "served h st s U v" using assms(1) that by (simp add: ev_inv_def)
    have "v \<noteq> t" using assms(2) that by auto
    then show "waits s' v = waits s v" "ecounts s' v = ecounts s v" using assms(3) by simp_all
  qed (use assms(5,6) in auto)
  moreover have "waits s' v \<subseteq> heads h v" for v using assms(1,3,4) by (cases "v = t") (auto simp: ev_inv_def)
  ultimately show ?thesis using assms(1,5-7) by (simp add: ev_inv_def)
qed

lemma ev_inv_exempt:
  assumes "graph_ok h rk" and "ev_inv h st s U X" and "ewait s (Head h t) = None"
  shows "ev_inv h st s U (insert t X)"
proof -
  have "t \<notin> opens h st src" if "ewait s src = Some n" for src n
  proof
    assume "t \<in> opens h st src"
    then have "Head h t = Head h src" using graph_okD(8) [OF assms(1)] by (simp add: opens_def)
    moreover have "Head h src = src" using assms(2) that by (auto simp: ev_inv_def)
    ultimately show False using assms(3) that by simp
  qed
  with assms(2) show ?thesis by (fastforce simp: ev_inv_def)
qed

lemma ev_inv_serve:
  assumes "ev_inv h st s U (insert t X)" and "served h st s (insert t U) t"
  shows "ev_inv h st s (insert t U) (X - {t})"
proof -
  have "served h st s (insert t U) v" if "v \<in> insert t U - (X - {t})" for v
  proof (cases "v = t")
    case False
    then have "served h st s U v" using assms(1) that by (auto simp: ev_inv_def)
    then show ?thesis by (rule served_mono) auto
  qed (simp add: assms(2))
  moreover have "\<forall>src n. ewait s src = Some n \<longrightarrow> Head h src = src \<and> n = nopen h st src \<and>
      opens h st src \<subseteq> insert t U \<and> opens h st src \<inter> (X - {t}) = {}"
    using assms(1) unfolding ev_inv_def by blast
  ultimately show ?thesis using assms(1) unfolding ev_inv_def by blast
qed

lemma ev_inv_schedule:
  assumes "ev_inv h st s U (insert t X)"
  shows "ev_inv h st (ev_schedule t s) (insert t U) (X - {t})"
proof -
  have "served h st (ev_schedule t s) (insert t U) v" if "v \<in> insert t U - insert t X" for v
  proof (rule served_mono [of h st s U v])
    show "served h st s U v" using assms that by (auto simp: ev_inv_def)
  qed auto
  moreover have "\<forall>src n. ewait s src = Some n \<longrightarrow> Head h src = src \<and> n = nopen h st src \<and>
      opens h st src \<subseteq> insert t U \<and> opens h st src \<inter> insert t X = {}"
    using assms unfolding ev_inv_def by blast
  ultimately have "ev_inv h st (ev_schedule t s) (insert t U) (insert t X)" using assms by (auto simp: ev_inv_def)
  moreover have "served h st (ev_schedule t s) (insert t (insert t U)) t" by (simp add: served_def)
  ultimately show ?thesis using ev_inv_serve [of h st "ev_schedule t s" "insert t U" t X] by simp
qed

section \<open>Enqueueing\<close>

text \<open>
  What a call leaves alone: pending tasks, the error, and the entries of tasks of rank at least \<open>r\<close>.
  A task that it schedules from its initial or lost state has finished dependencies.
\<close>

definition deps_finished :: "(nat \<Rightarrow> 'a Task_scheme) \<Rightarrow> (nat \<Rightarrow> TaskState) \<Rightarrow> nat \<Rightarrow> bool" where
  "deps_finished h st t \<longleftrightarrow> (\<forall>src\<in>heads h t. opens h st src = {})"

definition ev_frame ::
  "(nat \<Rightarrow> 'a Task_scheme) \<Rightarrow> (nat \<Rightarrow> TaskState) \<Rightarrow> (nat \<Rightarrow> nat) \<Rightarrow> nat \<Rightarrow> evstate \<Rightarrow> evstate \<Rightarrow> bool" where
  "ev_frame h st rk r s s' \<longleftrightarrow> epending s' = epending s \<and> eerr s' = eerr s \<and> etodo s \<subseteq> etodo s' \<and>
     (\<forall>v. r \<le> rk v \<longrightarrow> ecounts s' v = ecounts s v \<and> waits s' v = waits s v \<and> ewait s' v = ewait s v) \<and>
     (\<forall>v\<in>etodo s' - etodo s. st v \<in> {TaskWaiting, TaskRunning} \<or> deps_finished h st v)"

lemma ev_frame_refl [simp]: "ev_frame h st rk r s s"
  by (simp add: ev_frame_def)

lemma ev_frame_trans: "ev_frame h st rk r s s' \<Longrightarrow> ev_frame h st rk r' s' s'' \<Longrightarrow> r \<le> q \<Longrightarrow> r' \<le> q \<Longrightarrow> ev_frame h st rk q s s''"
  unfolding ev_frame_def by (smt (verit) Diff_iff order_trans subset_iff)

lemma ev_frame_weaken: "ev_frame h st rk r s s' \<Longrightarrow> r \<le> q \<Longrightarrow> ev_frame h st rk q s s'"
  by (simp add: ev_frame_def)

text \<open>The contract of a call of \<open>Enqueue\<close> on task \<open>t\<close>.\<close>

definition enqueued ::
  "(nat \<Rightarrow> 'a Task_scheme) \<Rightarrow> (nat \<Rightarrow> TaskState) \<Rightarrow> (nat \<Rightarrow> nat) \<Rightarrow> nat \<Rightarrow> nat set \<Rightarrow> evstate \<Rightarrow> nat set \<Rightarrow> nat set \<Rightarrow> evstate \<Rightarrow> bool" where
  "enqueued h st rk r T s U X s' \<longleftrightarrow> (\<exists>U' X'. U \<subseteq> U' \<and> X' \<subseteq> X \<and> T \<subseteq> U' \<and> X' \<inter> T = {} \<and>
     ev_inv h st s' U' X' \<and> ev_frame h st rk r s s')"

definition enqueue_ok ::
  "(nat \<Rightarrow> 'a Task_scheme) \<Rightarrow> (nat \<Rightarrow> TaskState) \<Rightarrow> (nat \<Rightarrow> nat) \<Rightarrow> nat \<Rightarrow> (nat \<Rightarrow> evstate \<Rightarrow> (evstate \<times> nat) go option) \<Rightarrow> bool" where
  "enqueue_ok h st rk r rec \<longleftrightarrow> (\<forall>t s U X. rk t < r \<longrightarrow> ev_inv h st s U X \<longrightarrow>
     (\<exists>s'. rec t s = Some (Ret (s', nopen h st t)) \<and> enqueued h st rk (Suc (rk t)) (opens h st t) s U X s'))"

text \<open>The count of a task whose dependencies are being enqueued.\<close>

definition counted :: "(nat \<Rightarrow> 'a Task_scheme) \<Rightarrow> (nat \<Rightarrow> TaskState) \<Rightarrow> evstate \<Rightarrow> nat set \<Rightarrow> nat \<Rightarrow> bool" where
  "counted h st s U t \<longleftrightarrow> ecounts s t = (\<Sum>src\<in>waits s t. int (nopen h st src)) \<and>
     (\<forall>src\<in>waits s t. opens h st src \<subseteq> U \<and> 0 < nopen h st src)"

lemma enqueue_deps_spec:
  assumes g: "graph_ok h rk" and rec: "enqueue_ok h st rk (rk t) rec"
    and "set ds \<subseteq> set (tDeps (h t))" and "ewait s (Head h t) = None"
    and "ev_inv h st s U (insert t X)" and "counted h st s U t"
  shows "\<exists>s' U' X'. enqueue_deps rec t ds (waits s t = {}) s = Some (Ret (s', waits s' t = {})) \<and>
    U \<subseteq> U' \<and> X' \<subseteq> X \<and> ev_inv h st s' U' (insert t X') \<and> counted h st s' U' t \<and> waits s t \<subseteq> waits s' t \<and>
    (\<forall>d\<in>set ds. \<forall>src. dHead d = Some src \<longrightarrow> opens h st src = {} \<or> src \<in> waits s' t) \<and>
    ewait s' (Head h t) = None \<and> ev_frame h st rk (Suc (rk t)) s s'"
  using assms(3-6)
proof (induction ds arbitrary: s U X)
  case Nil
  then show ?case by fastforce
next
  case (Cons d ds)
  have d: "d \<in> set (tDeps (h t))" using Cons.prems(1) by simp
  obtain src where src: "dHead d = Some src" "rk src < rk t" using graph_dep [OF g d] by blast
  have hd: "src \<in> heads h t" using d src(1) by (auto simp: heads_def)
  obtain s1 U1 X1 where s1: "rec src s = Some (Ret (s1, nopen h st src))" "U \<subseteq> U1" "X1 \<subseteq> insert t X" "opens h st src \<subseteq> U1"
    "ev_inv h st s1 U1 X1" "ev_frame h st rk (Suc (rk src)) s s1"
    using rec src(2) Cons.prems(3) unfolding enqueue_ok_def enqueued_def by metis
  have keep: "ecounts s1 t = ecounts s t" "waits s1 t = waits s t" "ewait s1 (Head h t) = None"
    using s1(6) src(2) Cons.prems(2) graph_okD(6) [OF g, of t] by (auto simp: ev_frame_def)
  have i1: "ev_inv h st s1 U1 (insert t (X1 - {t}))"
    using ev_inv_exempt [OF g s1(5) keep(3)] by simp
  have c1: "counted h st s1 U1 t" using Cons.prems(4) keep s1(2) by (auto simp: counted_def)
  have f1: "ev_frame h st rk (rk t) s s1" using ev_frame_weaken [OF s1(6)] src(2) by simp
  show ?case
  proof (cases "nopen h st src = 0")
    case True
    then have "opens h st src = {}" using nopen_card [OF g, of st src] by (simp add: opens_def)
    have "\<exists>s' U' X'. enqueue_deps rec t ds (waits s1 t = {}) s1 = Some (Ret (s', waits s' t = {})) \<and>
      U1 \<subseteq> U' \<and> X' \<subseteq> X1 - {t} \<and> ev_inv h st s' U' (insert t X') \<and> counted h st s' U' t \<and> waits s1 t \<subseteq> waits s' t \<and>
      (\<forall>d\<in>set ds. \<forall>src. dHead d = Some src \<longrightarrow> opens h st src = {} \<or> src \<in> waits s' t) \<and>
      ewait s' (Head h t) = None \<and> ev_frame h st rk (Suc (rk t)) s1 s'"
      using Cons.prems(1) by (intro Cons.IH [OF _ keep(3) i1 c1]) simp
    then obtain s' U' X' where s': "enqueue_deps rec t ds (waits s1 t = {}) s1 = Some (Ret (s', waits s' t = {}))"
      "U1 \<subseteq> U'" "X' \<subseteq> X1 - {t}" "ev_inv h st s' U' (insert t X')" "counted h st s' U' t" "waits s1 t \<subseteq> waits s' t"
      "\<forall>d\<in>set ds. \<forall>src. dHead d = Some src \<longrightarrow> opens h st src = {} \<or> src \<in> waits s' t"
      "ewait s' (Head h t) = None" "ev_frame h st rk (Suc (rk t)) s1 s'" by blast
    have "enqueue_deps rec t (d # ds) (waits s t = {}) s = Some (Ret (s', waits s' t = {}))"
      using src(1) s1(1) True s'(1) keep(2) by simp
    moreover have "ev_frame h st rk (Suc (rk t)) s s'" by (rule ev_frame_trans [OF f1 s'(9)]) simp_all
    moreover have "U \<subseteq> U'" "X' \<subseteq> X" "waits s t \<subseteq> waits s' t" using s1(2,3) s'(2,3,6) keep(2) by auto
    ultimately show ?thesis using s'(4,5,7,8) src(1) \<open>opens h st src = {}\<close> by (intro exI [of _ s'] exI [of _ U'] exI [of _ X']) simp
  next
    case False
    define s2 where "s2 = ev_add src t (nopen h st src) s1"
    have w2: "waits s2 t = insert src (waits s1 t)" by (simp add: s2_def)
    have i2: "ev_inv h st s2 U1 (insert t (X1 - {t}))"
    proof (rule ev_inv_touch [OF i1])
      show "waits s2 t \<subseteq> heads h t" using w2 hd i1 by (auto simp: ev_inv_def)
    qed (auto simp: s2_def)
    have "finite (waits s1 t)" by (rule ev_inv_waits [OF i1])
    then have c2: "counted h st s2 U1 t"
      using c1 s1(4) False by (cases "src \<in> waits s1 t") (auto simp: counted_def s2_def insert_absorb)
    have k2: "ewait s2 (Head h t) = None" using keep(3) by (simp add: s2_def)
    have "\<exists>s' U' X'. enqueue_deps rec t ds (waits s2 t = {}) s2 = Some (Ret (s', waits s' t = {})) \<and>
      U1 \<subseteq> U' \<and> X' \<subseteq> X1 - {t} \<and> ev_inv h st s' U' (insert t X') \<and> counted h st s' U' t \<and> waits s2 t \<subseteq> waits s' t \<and>
      (\<forall>d\<in>set ds. \<forall>src. dHead d = Some src \<longrightarrow> opens h st src = {} \<or> src \<in> waits s' t) \<and>
      ewait s' (Head h t) = None \<and> ev_frame h st rk (Suc (rk t)) s2 s'"
      using Cons.prems(1) by (intro Cons.IH [OF _ k2 i2 c2]) simp
    then obtain s' U' X' where s': "enqueue_deps rec t ds (waits s2 t = {}) s2 = Some (Ret (s', waits s' t = {}))"
      "U1 \<subseteq> U'" "X' \<subseteq> X1 - {t}" "ev_inv h st s' U' (insert t X')" "counted h st s' U' t" "waits s2 t \<subseteq> waits s' t"
      "\<forall>d\<in>set ds. \<forall>src. dHead d = Some src \<longrightarrow> opens h st src = {} \<or> src \<in> waits s' t"
      "ewait s' (Head h t) = None" "ev_frame h st rk (Suc (rk t)) s2 s'" by blast
    have "enqueue_deps rec t (d # ds) (waits s t = {}) s = Some (Ret (s', waits s' t = {}))"
      using src(1) s1(1) False s'(1) w2 by (simp add: s2_def)
    moreover have "ev_frame h st rk (Suc (rk t)) s1 s2" by (auto simp: ev_frame_def s2_def)
    then have "ev_frame h st rk (Suc (rk t)) s s'"
      using ev_frame_trans [OF ev_frame_trans [OF f1 _ _ order_refl] s'(9)] by auto
    moreover have "U \<subseteq> U'" "X' \<subseteq> X" "waits s t \<subseteq> waits s' t" "src \<in> waits s' t" using s1(2,3) s'(2,3,6) keep(2) w2 by auto
    ultimately show ?thesis using s'(4,5,7,8) src(1) by (intro exI [of _ s'] exI [of _ U'] exI [of _ X']) simp
  qed
qed

text \<open>A task in its initial or lost state is cleared, its dependencies enqueued, and then served.\<close>

lemma enqueue_task_spec:
  assumes g: "graph_ok h rk" and rec: "enqueue_ok h st rk (rk t) rec" and t: "st t \<in> {TaskInit, TaskLost}"
    and w: "ewait s (Head h t) = None" and i: "ev_inv h st s U X"
  shows "\<exists>s1 ready. enqueue_deps rec t (tDeps (h t)) True (ev_clear h t s) = Some (Ret (s1, ready)) \<and>
    (let s' = (if ready then ev_schedule t s1 else s1)
     in enqueued h st rk (Suc (rk t)) {t} s U X s' \<and> ewait s' (Head h t) = None)"
proof -
  define s0 where "s0 = ev_clear h t s"
  have w0: "waits s0 t = {}" using ev_inv_waits(1) [OF i, of t] by (simp add: s0_def)
  have "ev_inv h st s U (insert t X)" by (rule ev_inv_exempt [OF g i w])
  then have i0: "ev_inv h st s0 U (insert t X)" by (rule ev_inv_touch [of h st s U _ t]) (use w0 in \<open>auto simp: s0_def\<close>)
  have "ecounts s0 t = 0" by (simp add: s0_def)
  then have c0: "counted h st s0 U t" using w0 by (simp add: counted_def)
  have e0: "ewait s0 (Head h t) = None" using w by (simp add: s0_def)
  obtain s1 U1 X1 where s1: "enqueue_deps rec t (tDeps (h t)) (waits s0 t = {}) s0 = Some (Ret (s1, waits s1 t = {}))"
    "U \<subseteq> U1" "X1 \<subseteq> X" "ev_inv h st s1 U1 (insert t X1)" "counted h st s1 U1 t"
    "\<forall>d\<in>set (tDeps (h t)). \<forall>src. dHead d = Some src \<longrightarrow> opens h st src = {} \<or> src \<in> waits s1 t"
    "ewait s1 (Head h t) = None" "ev_frame h st rk (Suc (rk t)) s0 s1"
    using enqueue_deps_spec [OF g rec order_refl e0 i0 c0] by blast
  have f1: "ev_frame h st rk (Suc (rk t)) s s1"
  proof -
    have "ev_frame h st rk (Suc (rk t)) s s0" by (auto simp: ev_frame_def s0_def)
    then show ?thesis using ev_frame_trans [OF _ s1(8)] by blast
  qed
  define s2 where "s2 = (if waits s1 t = {} then ev_schedule t s1 else s1)"
  have "ev_inv h st s2 (insert t U1) (X1 - {t}) \<and> ev_frame h st rk (Suc (rk t)) s1 s2"
  proof (cases "waits s1 t = {}")
    case True
    then have "deps_finished h st t" using s1(6) by (auto simp: deps_finished_def heads_def)
    then have "ev_frame h st rk (Suc (rk t)) s1 s2" using True by (auto simp: ev_frame_def s2_def)
    then show ?thesis using ev_inv_schedule [OF s1(4)] True by (simp add: s2_def)
  next
    case False
    have "0 < (\<Sum>src\<in>waits s1 t. int (nopen h st src))"
      using s1(5) ev_inv_waits(2) [OF s1(4)] False by (intro sum_pos) (auto simp: counted_def)
    moreover have "(\<Sum>src\<in>waits s1 t. int (nopen h st src)) \<le> (\<Sum>src\<in>waits s1 t. int (card (insert t U1 \<inter> set (Phase h src))))"
      using s1(5) nopen_card [OF g] by (intro sum_mono) (auto simp: counted_def opens_def intro!: card_mono)
    ultimately have "served h st s1 (insert t U1) t" using s1(5) t by (simp add: served_def counted_def)
    then show ?thesis using ev_inv_serve [OF s1(4)] False by (simp add: s2_def)
  qed
  then have s2: "ev_inv h st s2 (insert t U1) (X1 - {t})" "ev_frame h st rk (Suc (rk t)) s s2"
    using ev_frame_trans [OF f1] by blast+
  then have "enqueued h st rk (Suc (rk t)) {t} s U X s2"
    unfolding enqueued_def using s1(2,3) by (intro exI [of _ "insert t U1"] exI [of _ "X1 - {t}"]) auto
  then show ?thesis using s1(1,7) w0 unfolding s0_def s2_def by simp
qed

lemma enqueuedE:
  assumes "enqueued h st rk r T s U X s'"
  obtains U' X' where "U \<subseteq> U'" and "X' \<subseteq> X" and "T \<subseteq> U'" and "X' \<inter> T = {}" and "ev_inv h st s' U' X'"
    and "ev_frame h st rk r s s'"
  using assms unfolding enqueued_def by (elim exE conjE)

lemma enqueued_trans:
  assumes "enqueued h st rk r T s U X s1" and "\<And>U X. ev_inv h st s1 U X \<Longrightarrow> enqueued h st rk r T' s1 U X s2"
  shows "enqueued h st rk r (T \<union> T') s U X s2"
proof -
  obtain U1 X1 where a: "U \<subseteq> U1" "X1 \<subseteq> X" "T \<subseteq> U1" "X1 \<inter> T = {}" "ev_inv h st s1 U1 X1" "ev_frame h st rk r s s1"
    using assms(1) unfolding enqueued_def by blast
  obtain U2 X2 where b: "U1 \<subseteq> U2" "X2 \<subseteq> X1" "T' \<subseteq> U2" "X2 \<inter> T' = {}" "ev_inv h st s2 U2 X2" "ev_frame h st rk r s1 s2"
    using assms(2) [OF a(5)] unfolding enqueued_def by blast
  have "ev_frame h st rk r s s2" by (rule ev_frame_trans [OF a(6) b(6)]) simp_all
  then show ?thesis unfolding enqueued_def using a b by (intro exI [of _ U2] exI [of _ X2]) auto
qed

lemma enqueue_phase_spec:
  assumes g: "graph_ok h rk" and rec: "enqueue_ok h st rk (rk t) rec"
    and "set ts \<subseteq> set (Phase h t)" and "ewait s (Head h t) = None" and "ev_inv h st s U X"
  shows "\<exists>s'. enqueue_phase rec h st ts n s = Some (Ret (s', n + length (filter (unfinished st) ts))) \<and>
    enqueued h st rk (Suc (rk t)) {u \<in> set ts. unfinished st u} s U X s' \<and> ewait s' (Head h t) = None"
  using assms(3-5)
proof (induction ts arbitrary: s U X n)
  case Nil
  then show ?case by (auto simp: enqueued_def)
next
  case (Cons u ts)
  have u: "Head h u = Head h t" "rk u = rk t" using Cons.prems(1) graph_okD [OF g] by auto
  have step: "\<exists>s'. enqueue_phase rec h st (u # ts) n s = Some (Ret (s', n + length (filter (unfinished st) (u # ts)))) \<and>
      enqueued h st rk (Suc (rk t)) {v \<in> set (u # ts). unfinished st v} s U X s' \<and> ewait s' (Head h t) = None"
    if un: "unfinished st u" and e: "enqueue_phase rec h st (u # ts) n s = enqueue_phase rec h st ts (Suc n) s1"
      and s1: "enqueued h st rk (Suc (rk t)) {u} s U X s1" "ewait s1 (Head h t) = None" for s1
  proof -
    obtain U1 X1 where i1: "ev_inv h st s1 U1 X1" using s1(1) by (auto simp: enqueued_def)
    have IH: "\<exists>s'. enqueue_phase rec h st ts (Suc n) s1 = Some (Ret (s', Suc n + length (filter (unfinished st) ts))) \<and>
      enqueued h st rk (Suc (rk t)) {u \<in> set ts. unfinished st u} s1 U X s' \<and> ewait s' (Head h t) = None"
      if "ev_inv h st s1 U X" for U X using Cons.IH [OF _ s1(2) that, of "Suc n"] Cons.prems(1) by auto
    then obtain s' where s': "enqueue_phase rec h st ts (Suc n) s1 = Some (Ret (s', Suc n + length (filter (unfinished st) ts)))"
      "ewait s' (Head h t) = None" using i1 by blast
    have "enqueued h st rk (Suc (rk t)) ({u} \<union> {v \<in> set ts. unfinished st v}) s U X s'"
      using IH s'(1) by (intro enqueued_trans [OF s1(1)]) force
    moreover have "{u} \<union> {v \<in> set ts. unfinished st v} = {v \<in> set (u # ts). unfinished st v}" using un by auto
    ultimately show ?thesis using e s' un by simp
  qed
  consider "st u \<in> {TaskOk, TaskErr}" | "st u \<in> {TaskWaiting, TaskRunning}" | "st u \<in> {TaskInit, TaskLost}"
    by (cases "st u") auto
  then show ?case
  proof cases
    case 1
    then have "\<not> unfinished st u" by (simp add: unfinished_def)
    then have "{v \<in> set (u # ts). unfinished st v} = {v \<in> set ts. unfinished st v}" by auto
    then show ?thesis using Cons.IH [OF _ Cons.prems(2,3), of n] Cons.prems(1) 1 \<open>\<not> unfinished st u\<close> by simp
  next
    case 2
    have "ev_inv h st s U (insert u X)" using ev_inv_exempt [OF g Cons.prems(3)] Cons.prems(2) u(1) by simp
    then have i: "ev_inv h st (ev_schedule u s) (insert u U) (X - {u})" by (rule ev_inv_schedule)
    have "ev_frame h st rk (Suc (rk t)) s (ev_schedule u s)" using 2 by (auto simp: ev_frame_def)
    then have "enqueued h st rk (Suc (rk t)) {u} s U X (ev_schedule u s)"
      unfolding enqueued_def using i by (intro exI [of _ "insert u U"] exI [of _ "X - {u}"]) auto
    moreover have "unfinished st u" using 2 by (auto simp: unfinished_def)
    ultimately show ?thesis using 2 Cons.prems(2) by (intro step [of "ev_schedule u s"]) auto
  next
    case 3
    have "ewait s (Head h u) = None" "enqueue_ok h st rk (rk u) rec" using Cons.prems(2) rec u by auto
    from enqueue_task_spec [OF g this(2) 3 this(1) Cons.prems(3)] obtain s1 ready where s1:
      "enqueue_deps rec u (tDeps (h u)) True (ev_clear h u s) = Some (Ret (s1, ready))"
      "enqueued h st rk (Suc (rk t)) {u} s U X (if ready then ev_schedule u s1 else s1)"
      "ewait (if ready then ev_schedule u s1 else s1) (Head h t) = None" unfolding u Let_def by blast
    have "unfinished st u" using 3 by (auto simp: unfinished_def)
    then show ?thesis using 3 s1 by (intro step [of "if ready then ev_schedule u s1 else s1"]) auto
  qed
qed

lemma Enqueue_spec:
  assumes g: "graph_ok h rk" shows "enqueue_ok h st rk k (Enqueue k h st)"
proof (induction k)
  case (Suc k)
  show ?case
    unfolding enqueue_ok_def
  proof (intro allI impI)
    fix t s U X assume r: "rk t < Suc k" and i: "ev_inv h st s U X"
    have rec: "enqueue_ok h st rk (rk t) (Enqueue k h st)" using Suc r by (simp add: enqueue_ok_def)
    have same: "opens h st (Head h t) = opens h st t" "nopen h st (Head h t) = nopen h st t"
      using graph_okD(5) [OF g, of t] by (simp_all add: opens_def nopen_def)
    show "\<exists>s'. Enqueue (Suc k) h st t s = Some (Ret (s', nopen h st t)) \<and>
        enqueued h st rk (Suc (rk t)) (opens h st t) s U X s'"
    proof (cases "ewait s (Head h t)")
      case (Some n)
      then have "n = nopen h st (Head h t)" "opens h st (Head h t) \<subseteq> U" "opens h st (Head h t) \<inter> X = {}"
        using i by (auto simp: ev_inv_def)
      then have "enqueued h st rk (Suc (rk t)) (opens h st t) s U X s"
        unfolding enqueued_def using i same by (intro exI [of _ U] exI [of _ X]) auto
      then show ?thesis using Some same \<open>n = _\<close> by simp
    next
      case None
      from enqueue_phase_spec [OF g rec order_refl None i, of 0] obtain s1 where s1:
        "enqueue_phase (Enqueue k h st) h st (Phase h t) 0 s = Some (Ret (s1, nopen h st t))"
        "enqueued h st rk (Suc (rk t)) (opens h st t) s U X s1" "ewait s1 (Head h t) = None"
        by (auto simp: nopen_def opens_def)
      let ?s = "s1\<lparr>ewait := (ewait s1)(Head h t \<mapsto> nopen h st t)\<rparr>"
      obtain U1 X1 where a: "U \<subseteq> U1" "X1 \<subseteq> X" "opens h st t \<subseteq> U1" "X1 \<inter> opens h st t = {}" "ev_inv h st s1 U1 X1"
        "ev_frame h st rk (Suc (rk t)) s s1" using s1(2) unfolding enqueued_def by blast
      have w: "waits ?s v = waits s1 v" for v by (simp add: waits_def)
      have "ev_inv h st ?s U1 X1"
        using a(3-5) same graph_okD(7) [OF g, of t] by (auto simp: ev_inv_def served_def w)
      moreover have "ev_frame h st rk (Suc (rk t)) s ?s" using a(6) graph_okD(6) [OF g, of t] by (auto simp: ev_frame_def w)
      ultimately have "enqueued h st rk (Suc (rk t)) (opens h st t) s U X ?s"
        unfolding enqueued_def using a(1-4) by blast
      then show ?thesis using None s1(1) by simp
    qed
  qed
qed (simp add: enqueue_ok_def)

lemma enqueued_weaken: "enqueued h st rk r T s U X s' \<Longrightarrow> r \<le> q \<Longrightarrow> enqueued h st rk q T s U X s'"
  unfolding enqueued_def by (metis ev_frame_weaken)

lemma enqueue_all_spec:
  assumes g: "graph_ok h rk" and "\<forall>t. rk t < k" and "ev_inv h st s U X"
  shows "\<exists>s'. enqueue_all k h st ts s = Some (Ret s') \<and> enqueued h st rk k (\<Union>t\<in>set ts. opens h st t) s U X s'"
  using assms(3)
proof (induction ts arbitrary: s U X)
  case Nil
  then show ?case by (auto simp: enqueued_def)
next
  case (Cons t ts)
  have call: "\<exists>s'. Enqueue k h st t s = Some (Ret (s', nopen h st t)) \<and> enqueued h st rk k (opens h st t) s U X s'"
    if "ev_inv h st s U X" for U X
    using Enqueue_spec [OF g, of st k] assms(2) that enqueued_weaken [of h st rk "Suc (rk t)" _ s U X _ k]
    unfolding enqueue_ok_def by (meson Suc_leI)
  then obtain s1 where s1: "Enqueue k h st t s = Some (Ret (s1, nopen h st t))" "enqueued h st rk k (opens h st t) s U X s1"
    using Cons.prems by blast
  then obtain U1 X1 where "ev_inv h st s1 U1 X1" by (auto simp: enqueued_def)
  then obtain s' where s': "enqueue_all k h st ts s1 = Some (Ret s')" using Cons.IH by blast
  have "enqueued h st rk k (opens h st t \<union> (\<Union>t\<in>set ts. opens h st t)) s U X s'"
    using Cons.IH s' by (intro enqueued_trans [OF s1(2)]) force
  then show ?case using s1(1) s' by simp
qed

section \<open>Rounds\<close>

definition order_ok :: "(nat set \<Rightarrow> nat list) \<Rightarrow> bool" where
  "order_ok order \<longleftrightarrow> (\<forall>A. finite A \<longrightarrow> set (order A) = A \<and> distinct (order A))"

text \<open>The invariant between rounds, when the memoized counts are void.\<close>

definition ev_live :: "(nat \<Rightarrow> 'a Task_scheme) \<Rightarrow> (nat \<Rightarrow> TaskState) \<Rightarrow> evstate \<Rightarrow> nat set \<Rightarrow> bool" where
  "ev_live h st s U \<longleftrightarrow> finite (etodo s) \<and> etodo s \<inter> epending s = {} \<and> etodo s \<union> epending s \<subseteq> U \<and>
     (\<forall>t. waits s t \<subseteq> heads h t) \<and> (\<forall>t\<in>U. served h st s U t)"

lemma ev_inv_live: "ev_inv h st s U {} \<Longrightarrow> ev_live h st s U"
  by (simp add: ev_inv_def ev_live_def)

lemma done_loop_eq:
  "distinct ds \<Longrightarrow> done_loop ds counts ready =
     (\<lambda>v. counts v - (if v \<in> set ds then 1 else 0), ready @ filter (\<lambda>v. counts v = 1) ds)"
proof (induction ds arbitrary: counts ready)
  case (Cons d ds)
  have "filter (\<lambda>v. (counts(d := counts d - 1)) v = 1) ds = filter (\<lambda>v. counts v = 1) ds"
    using Cons.prems by (intro filter_cong) auto
  then show ?case using Cons by (auto simp: Let_def fun_eq_iff)
qed simp

lemma card_le_Suc_Diff: "finite A \<Longrightarrow> card A \<le> Suc (card (A - {t}))"
  by (simp add: card_Diff_singleton_if) linarith

text \<open>A phase that loses one open task lowers the bound on the count of the tasks that wait for it by one.\<close>

lemma bound_remove:
  assumes g: "graph_ok h rk" and w: "waits s v \<subseteq> heads h v"
  shows "(\<Sum>src\<in>waits s v. int (card (U \<inter> set (Phase h src)))) - (if Head h t \<in> waits s v then 1 else 0)
    \<le> (\<Sum>src\<in>waits s v. int (card ((U - {t}) \<inter> set (Phase h src))))"
proof -
  have fin: "finite (waits s v)" using w finite_subset [OF _ finite_heads] by blast
  have "int (card (U \<inter> set (Phase h src))) - (if src = Head h t then 1 else 0) \<le> int (card ((U - {t}) \<inter> set (Phase h src)))"
    if src: "src \<in> waits s v" for src
  proof (cases "t \<in> set (Phase h src)")
    case True
    have "Head h src = src" using w src graph_dep [OF g] by (fastforce simp: heads_def)
    then have "src = Head h t" using graph_okD(8) [OF g True] by simp
    moreover have "card (U \<inter> set (Phase h src)) \<le> Suc (card (U \<inter> set (Phase h src) - {t}))"
      by (rule card_le_Suc_Diff) simp
    moreover have "U \<inter> set (Phase h src) - {t} = (U - {t}) \<inter> set (Phase h src)" by auto
    ultimately show ?thesis by simp
  next
    case False
    then have "(U - {t}) \<inter> set (Phase h src) = U \<inter> set (Phase h src)" by auto
    then show ?thesis by simp
  qed
  then have "(\<Sum>src\<in>waits s v. int (card (U \<inter> set (Phase h src))) - (if src = Head h t then 1 else 0))
      \<le> (\<Sum>src\<in>waits s v. int (card ((U - {t}) \<inter> set (Phase h src))))" by (rule sum_mono)
  then show ?thesis using fin by (simp add: sum_subtractf)
qed

lemma Return_done:
  assumes g: "graph_ok h rk" and "order_ok order" and l: "ev_live h st s U" and t: "t \<in> epending s"
    and d: "ev_done order (Head h t) (s\<lparr>ewait := Map.empty, epending := epending s - {t}\<rparr>) = (s', ready)"
  shows "ev_inv h st s' (U - {t}) {v \<in> set ready. st v \<in> {TaskInit, TaskLost}}"
    and "epending s' = epending s - {t}" and "eerr s' = eerr s" and "etodo s' = etodo s"
proof -
  define D where "D = (case edeps s (Head h t) of None \<Rightarrow> {} | Some D \<Rightarrow> fset D)"
  have D: "v \<in> D \<longleftrightarrow> Head h t \<in> waits s v" for v by (auto simp: D_def waits_def split: option.splits)
  have "finite D" by (simp add: D_def split: option.splits)
  then have o: "set (order D) = D" "distinct (order D)" using assms(2) by (auto simp: order_ok_def)
  have s': "s' = s\<lparr>ewait := Map.empty, epending := epending s - {t}, ecounts := (\<lambda>v. ecounts s v - (if v \<in> D then 1 else 0))\<rparr>"
    and r: "ready = filter (\<lambda>v. ecounts s v = 1) (order D)"
    using d o by (simp_all add: ev_done_def done_loop_eq flip: D_def)
  have w: "waits s' v = waits s v" for v by (simp add: waits_def s')
  have "served h st s' (U - {t}) v" if v: "v \<in> U - {t} - {v \<in> set ready. st v \<in> {TaskInit, TaskLost}}" for v
  proof -
    have sv: "served h st s U v" using l v by (simp add: ev_live_def)
    show ?thesis
    proof (cases "v \<in> etodo s \<union> epending s")
      case True
      then show ?thesis using v by (auto simp: served_def s')
    next
      case False
      then have b: "st v \<in> {TaskInit, TaskLost}" "0 < ecounts s v"
        "ecounts s v \<le> (\<Sum>src\<in>waits s v. int (card (U \<inter> set (Phase h src))))" using sv by (auto simp: served_def)
      have c: "ecounts s' v = ecounts s v - (if Head h t \<in> waits s v then 1 else 0)" by (simp add: s' D)
      have "waits s v \<subseteq> heads h v" using l by (simp add: ev_live_def)
      then have "ecounts s' v \<le> (\<Sum>src\<in>waits s' v. int (card ((U - {t}) \<inter> set (Phase h src))))"
        using bound_remove [OF g, of s v U t] b(3) unfolding c w by linarith
      moreover have "0 < ecounts s' v" using b(1,2) v o(1) by (auto simp: r s')
      ultimately show ?thesis using b(1) by (simp add: served_def)
    qed
  qed
  moreover have "etodo s' \<union> epending s' \<subseteq> U - {t}" using l t by (auto simp: ev_live_def s')
  ultimately show "ev_inv h st s' (U - {t}) {v \<in> set ready. st v \<in> {TaskInit, TaskLost}}"
    using l w by (auto simp: ev_inv_def ev_live_def s')
  show "epending s' = epending s - {t}" "eerr s' = eerr s" "etodo s' = etodo s" by (simp_all add: s')
qed

text \<open>One round: \<open>Return\<close> returns, keeps the invariant, and schedules only tasks whose dependencies are done.\<close>

lemma Return_spec:
  assumes g: "graph_ok h rk" and k: "\<forall>t. rk t < k" and o: "order_ok order" and l: "ev_live h st s U" and t: "t \<in> epending s"
  shows "\<exists>s'. ev_Return k order h st terr t s = Some (Ret s') \<and> epending s' = epending s - {t} \<and>
    (eerr s' = None \<longrightarrow> eerr s = None \<and> (\<exists>U'. ev_live h st s' U' \<and> U - {t} \<subseteq> U' \<and> (st t \<noteq> TaskOk \<longrightarrow> t \<in> U'))) \<and>
    (\<forall>v\<in>etodo s' - etodo s. v = t \<and> st t = TaskInit \<or> st v \<in> {TaskWaiting, TaskRunning} \<or> deps_finished h st v)"
proof -
  define s1 where "s1 = s\<lparr>ewait := Map.empty, epending := epending s - {t}\<rparr>"
  have i1: "ev_inv h st s1 U (insert t {})"
  proof -
    have "served h st s1 U v" if "v \<in> U - {t}" for v
      using l that by (auto simp: ev_live_def served_def s1_def waits_def)
    then show ?thesis using l by (auto simp: ev_inv_def ev_live_def s1_def waits_def)
  qed
  have R: "ev_Return k order h st terr t s = (case st t of
      TaskErr \<Rightarrow> Some (Ret (s1\<lparr>eerr := Some (ErrE [] (terr t))\<rparr>))
    | TaskOk \<Rightarrow> (let (s, ready) = ev_done order (Head h t) s1 in enqueue_all k h st ready s)
    | TaskLost \<Rightarrow> run_bind (Enqueue k h st t s1) (\<lambda>(s, n). Some (Ret s))
    | _ \<Rightarrow> Some (Ret (ev_schedule t s1)))" using t unfolding ev_Return_def s1_def Let_def by simp
  have sched: ?thesis if st: "st t \<in> {TaskInit, TaskWaiting, TaskRunning}"
  proof -
    have "ev_live h st (ev_schedule t s1) (insert t U)" using ev_inv_live ev_inv_schedule [OF i1] by simp
    then show ?thesis using st R by (intro exI [of _ "ev_schedule t s1"]) (auto simp: s1_def)
  qed
  show ?thesis
  proof (cases "st t")
    case TaskErr
    then show ?thesis using R by (simp add: s1_def)
  next
    case TaskOk
    obtain s2 ready where d: "ev_done order (Head h t) s1 = (s2, ready)" by fastforce
    note rd = Return_done [OF g o l t d [unfolded s1_def]]
    obtain s' where s': "enqueue_all k h st ready s2 = Some (Ret s')"
      "enqueued h st rk k (\<Union>t\<in>set ready. opens h st t) s2 (U - {t}) {v \<in> set ready. st v \<in> {TaskInit, TaskLost}} s'"
      using enqueue_all_spec [OF g k rd(1)] by blast
    obtain U' X' where U': "U - {t} \<subseteq> U'" "X' \<subseteq> {v \<in> set ready. st v \<in> {TaskInit, TaskLost}}"
      "(\<Union>t\<in>set ready. opens h st t) \<subseteq> U'" "X' \<inter> (\<Union>t\<in>set ready. opens h st t) = {}" "ev_inv h st s' U' X'" "ev_frame h st rk k s2 s'"
      by (rule enqueuedE [OF s'(2)])
    have "v \<in> opens h st v" if "st v \<in> {TaskInit, TaskLost}" for v
      using that graph_okD(1) [OF g, of v] by (auto simp: opens_def unfinished_def)
    then have "X' = {}" using U'(2,4) by blast
    then have "ev_live h st s' U'" using ev_inv_live U'(5) by blast
    moreover have "ev_Return k order h st terr t s = Some (Ret s')" using R TaskOk d s'(1) by simp
    moreover have "epending s' = epending s - {t}" "eerr s' = eerr s" "etodo s2 = etodo s" using rd(2-4) U'(6) by (simp_all add: ev_frame_def)
    moreover have "st v \<in> {TaskWaiting, TaskRunning} \<or> deps_finished h st v" if "v \<in> etodo s' - etodo s" for v
      using U'(6) rd(4) that by (simp add: ev_frame_def)
    ultimately show ?thesis using U'(1) TaskOk by (intro exI [of _ s'] conjI impI ballI exI [of _ U']) auto
  next
    case TaskLost
    obtain s' where s': "enqueue_all k h st [t] s1 = Some (Ret s')"
      "enqueued h st rk k (\<Union>t\<in>set [t]. opens h st t) s1 U {t} s'"
      using enqueue_all_spec [OF g k i1, of "[t]"] by blast
    then obtain U' X' where U': "U \<subseteq> U'" "X' \<subseteq> {t}" "opens h st t \<subseteq> U'" "X' \<inter> opens h st t = {}" "ev_inv h st s' U' X'"
      "ev_frame h st rk k s1 s'" unfolding enqueued_def by auto
    have "t \<in> opens h st t" using TaskLost graph_okD(1) [OF g, of t] by (auto simp: opens_def unfinished_def)
    then have "X' = {}" "t \<in> U'" using U'(2,3,4) by blast+
    then have "ev_live h st s' U'" using ev_inv_live U'(5) by blast
    moreover have "ev_Return k order h st terr t s = Some (Ret s')"
      using s'(1) R TaskLost by (auto simp: run_bind_def split: option.splits go.splits)
    ultimately show ?thesis using U'(1,6) \<open>t \<in> U'\<close> by (intro exI [of _ s']) (auto simp: ev_frame_def s1_def)
  qed (use sched in simp_all)
qed

section \<open>Evaluation by one evaluator\<close>



text \<open>The pending tasks are those that are about to be started, waited for or sent back, each once.\<close>

definition accounted :: "evalsys \<Rightarrow> bool" where
  "accounted x \<longleftrightarrow> finite (epending (xev x)) \<and>
     mset (xbatch x) + mset (map fst (xwatch x)) + mset (xdone x) = mset_set (epending (xev x))"

lemma accounted_pending:
  assumes "accounted x"
  shows "t \<in> set (xbatch x) \<Longrightarrow> t \<in> epending (xev x)" and "(t, r) \<in> set (xwatch x) \<Longrightarrow> t \<in> epending (xev x)"
    and "t \<in> set (xdone x) \<Longrightarrow> t \<in> epending (xev x)"
proof -
  have p: "finite (epending (xev x))"
    "mset (xbatch x) + mset (map fst (xwatch x)) + mset (xdone x) = mset_set (epending (xev x))"
    using assms by (auto simp: accounted_def)
  have "set_mset (mset (xbatch x) + mset (map fst (xwatch x)) + mset (xdone x)) = epending (xev x)"
    unfolding p(2) using p(1) by simp
  then have "set (xbatch x) \<union> fst ` set (xwatch x) \<union> set (xdone x) = epending (xev x)" by simp
  then show "t \<in> set (xbatch x) \<Longrightarrow> t \<in> epending (xev x)" "(t, r) \<in> set (xwatch x) \<Longrightarrow> t \<in> epending (xev x)"
    "t \<in> set (xdone x) \<Longrightarrow> t \<in> epending (xev x)" by force+
qed

lemma accounted_receive:
  assumes "accounted x" and t: "t \<in> set (xdone x)" and "epending ev = epending (xev x) - {t}"
  shows "mset (xbatch x) + mset (map fst (xwatch x)) + mset (remove1 t (xdone x)) = mset_set (epending ev)"
proof -
  have "add_mset t (mset (remove1 t (xdone x))) = mset (xdone x)" using t by simp
  then have "add_mset t (mset (xbatch x) + mset (map fst (xwatch x)) + mset (remove1 t (xdone x))) = mset_set (epending (xev x))"
    using assms(1) unfolding accounted_def by (metis union_mset_add_mset_right)
  moreover have "mset_set (epending (xev x)) = add_mset t (mset_set (epending (xev x) - {t}))"
    using assms(1) accounted_pending(3) [OF assms(1) t] by (simp add: accounted_def mset_set.remove)
  ultimately show ?thesis using assms(3) by simp
qed

lemma accounted_runnable:
  assumes "accounted x" and "order_ok order" and "xbatch x = []" and "finite (etodo (xev x))" and "etodo (xev x) \<inter> epending (xev x) = {}"
    and "Runnable order (xev x) = (ev, ts)"
  shows "mset ts + mset (map fst (xwatch x)) + mset (xdone x) = mset_set (epending ev)"
proof -
  have ev: "epending ev = epending (xev x) \<union> etodo (xev x)" "ts = order (etodo (xev x))" using assms(6) by (auto simp: Runnable_def)
  have "mset ts = mset_set (etodo (xev x))" using assms(2,4) by (simp add: ev(2) order_ok_def mset_set_set [symmetric])
  moreover have "epending (xev x) \<inter> etodo (xev x) = {}" using assms(5) by blast
  ultimately show ?thesis using assms(1,3,4) by (simp add: ev(1) accounted_def mset_set_Union ac_simps)
qed











section \<open>Evaluation beside other evaluators\<close>

text \<open>What is left of the invariant when other evaluators change the states of tasks.\<close>

definition tidy :: "evstate \<Rightarrow> bool" where
  "tidy s \<longleftrightarrow> finite (etodo s) \<and> finite (epending s) \<and> etodo s \<inter> epending s = {}"

lemma tidy_schedule: "tidy s \<Longrightarrow> tidy (ev_schedule t s)"
  by (simp add: tidy_def)

text \<open>\<open>Enqueue\<close> returns on every graph that is well-formed, whatever the states of its tasks.\<close>

definition enqueue_total :: "(nat \<Rightarrow> nat) \<Rightarrow> nat \<Rightarrow> (nat \<Rightarrow> evstate \<Rightarrow> (evstate \<times> nat) go option) \<Rightarrow> bool" where
  "enqueue_total rk r rec \<longleftrightarrow> (\<forall>t s. rk t < r \<longrightarrow> tidy s \<longrightarrow> (\<exists>s' n. rec t s = Some (Ret (s', n)) \<and> tidy s' \<and> epending s' = epending s))"

lemma enqueue_deps_total:
  assumes g: "graph_ok h rk" and rec: "enqueue_total rk (rk t) rec"
  shows "set ds \<subseteq> set (tDeps (h t)) \<Longrightarrow> tidy s \<Longrightarrow> \<exists>s' b. enqueue_deps rec t ds ready s = Some (Ret (s', b)) \<and> tidy s' \<and> epending s' = epending s"
proof (induction ds arbitrary: s ready)
  case (Cons d ds)
  from Cons.prems(1) graph_dep [OF g, of d t] obtain src where src: "dHead d = Some src" "rk src < rk t" by auto
  from rec src(2) Cons.prems(2) obtain s1 n where s1: "rec src s = Some (Ret (s1, n))" "tidy s1" "epending s1 = epending s"
    unfolding enqueue_total_def by blast
  moreover have "tidy (ev_add src t n s1)" using s1(2) by (simp add: tidy_def)
  ultimately show ?case using Cons.IH [of s1 ready] Cons.IH [of "ev_add src t n s1" False] Cons.prems(1) src(1) by simp
qed simp

lemma enqueue_phase_total:
  assumes g: "graph_ok h rk" and rec: "enqueue_total rk r rec"
  shows "\<forall>t\<in>set ts. rk t \<le> r \<Longrightarrow> tidy s \<Longrightarrow> \<exists>s' m. enqueue_phase rec h st ts n s = Some (Ret (s', m)) \<and> tidy s' \<and> epending s' = epending s"
proof (induction ts arbitrary: s n)
  case (Cons t ts)
  have "enqueue_total rk (rk t) rec" using rec Cons.prems(1) by (auto simp: enqueue_total_def)
  moreover have "tidy (ev_clear h t s)" using Cons.prems(2) by (simp add: tidy_def)
  ultimately obtain s1 b where s1: "enqueue_deps rec t (tDeps (h t)) True (ev_clear h t s) = Some (Ret (s1, b))" "tidy s1" "epending s1 = epending s"
    using enqueue_deps_total [OF g, of t rec "tDeps (h t)" "ev_clear h t s" True] by auto
  have IH: "\<exists>s' m. enqueue_phase rec h st ts n' s2 = Some (Ret (s', m)) \<and> tidy s' \<and> epending s' = epending s"
    if "tidy s2" "epending s2 = epending s" for s2 n' using Cons.IH [OF _ that(1)] Cons.prems(1) that(2) by auto
  have "tidy (if b then ev_schedule t s1 else s1)" "epending (if b then ev_schedule t s1 else s1) = epending s" using s1(2,3) tidy_schedule by simp_all
  note rest = IH [OF Cons.prems(2) refl] IH [OF tidy_schedule [OF Cons.prems(2)], of t] IH [OF this]
  show ?case using rest s1(1) by simp
qed simp

lemma Enqueue_total:
  assumes g: "graph_ok h rk" shows "enqueue_total rk k (Enqueue k h st)"
proof (induction k)
  case (Suc k)
  show ?case unfolding enqueue_total_def
  proof (intro allI impI)
    fix t s assume t: "rk t < Suc k" "tidy s"
    have "\<forall>u\<in>set (Phase h t). rk u \<le> k" using t(1) graph_okD(4) [OF g, of _ t] by auto
    from enqueue_phase_total [OF g Suc this t(2), of st 0] obtain s1 m where
      s1: "enqueue_phase (Enqueue k h st) h st (Phase h t) 0 s = Some (Ret (s1, m))" "tidy s1" "epending s1 = epending s" by blast
    moreover have "tidy (s1\<lparr>ewait := w\<rparr>)" for w using s1(2) by (simp add: tidy_def)
    ultimately show "\<exists>s' n. Enqueue (Suc k) h st t s = Some (Ret (s', n)) \<and> tidy s' \<and> epending s' = epending s"
      using t(2) by (cases "ewait s (Head h t)") auto
  qed
qed (simp add: enqueue_total_def)

lemma enqueue_all_total:
  assumes g: "graph_ok h rk" and k: "\<forall>t. rk t < k"
  shows "tidy s \<Longrightarrow> \<exists>s'. enqueue_all k h st ts s = Some (Ret s') \<and> tidy s' \<and> epending s' = epending s"
proof (induction ts arbitrary: s)
  case (Cons t ts)
  from Enqueue_total [OF g, of k st] k Cons.prems obtain s1 n where "Enqueue k h st t s = Some (Ret (s1, n))" "tidy s1" "epending s1 = epending s"
    unfolding enqueue_total_def by blast
  then show ?case using Cons.IH [of s1] by simp
qed simp

lemma Return_total:
  assumes g: "graph_ok h rk" and k: "\<forall>t. rk t < k" and t: "t \<in> epending s" and "tidy s"
  shows "\<exists>s'. ev_Return k order h st terr t s = Some (Ret s') \<and> tidy s' \<and> epending s' = epending s - {t}"
proof -
  define s1 where "s1 = s\<lparr>ewait := Map.empty, epending := epending s - {t}\<rparr>"
  have s1: "tidy s1" "epending s1 = epending s - {t}" using assms(4) by (auto simp: s1_def tidy_def)
  obtain s2 ready where d: "ev_done order (Head h t) s1 = (s2, ready)" by fastforce
  then have s2: "tidy s2" "epending s2 = epending s1" using s1(1) by (auto simp: ev_done_def tidy_def Let_def split: prod.splits)
  have R: "ev_Return k order h st terr t s = (case st t of
      TaskErr \<Rightarrow> Some (Ret (s1\<lparr>eerr := Some (ErrE [] (terr t))\<rparr>))
    | TaskOk \<Rightarrow> enqueue_all k h st ready s2
    | TaskLost \<Rightarrow> run_bind (Enqueue k h st t s1) (\<lambda>(s, n). Some (Ret s))
    | _ \<Rightarrow> Some (Ret (ev_schedule t s1)))" using t d unfolding ev_Return_def s1_def Let_def by (cases "st t") simp_all
  have lost: "\<exists>s' n. Enqueue k h st t s1 = Some (Ret (s', n)) \<and> tidy s' \<and> epending s' = epending s1"
    using Enqueue_total [OF g, of k st] k s1(1) unfolding enqueue_total_def by blast
  show ?thesis
  proof (cases "st t")
    case TaskOk
    then show ?thesis using R enqueue_all_total [OF g k s2(1), of st ready] s2(2) s1(2) by simp
  next
    case TaskLost
    then show ?thesis using R lost s1(2) by auto
  next
    case TaskErr
    then show ?thesis using R s1 by (simp add: tidy_def)
  qed (use R s1 tidy_schedule [OF s1(1), of t] in simp_all)
qed

text \<open>
  The invariant: the pending tasks are accounted for, the executor runs the tasks that are waiting or running and no
  others, and a task that a goroutine waits for is not in its initial state.
\<close>

definition sys_tidy :: "evalsys \<Rightarrow> bool" where
  "sys_tidy x \<longleftrightarrow> accounted x \<and> tidy (xev x) \<and> (\<forall>t. t \<in> xrun x \<longleftrightarrow> xst x t \<in> {TaskWaiting, TaskRunning}) \<and>
     (\<forall>(t, r)\<in>set (xwatch x). xst x t \<noteq> TaskInit)"

lemma count_lost_simps [simp]:
  "xev (count_lost t x) = xev x" "xbatch (count_lost t x) = xbatch x" "xwatch (count_lost t x) = xwatch x" "xdone (count_lost t x) = xdone x"
  "xrun (count_lost t x) = xrun x" "u \<noteq> t \<Longrightarrow> xst (count_lost t x) u = xst x u"
  by (auto simp: count_lost_def Let_def split: TaskState.splits)

lemma count_lost_state: "TaskOk \<le> xst x t \<Longrightarrow> TaskOk \<le> xst (count_lost t x) t"
  by (auto simp: count_lost_def Let_def less_eq_TaskState_def split: TaskState.splits)

lemma finished_states: "TaskOk \<le> s \<longleftrightarrow> s \<notin> {TaskInit, TaskWaiting, TaskRunning}"
  by (cases s) (auto simp: less_eq_TaskState_def)

lemma sys_tidy_state:
  assumes "sys_tidy x" and "xev y = xev x"
    and "mset (xbatch y) + mset (map fst (xwatch y)) + mset (xdone y) = mset (xbatch x) + mset (map fst (xwatch x)) + mset (xdone x)"
    and "\<And>t. t \<in> xrun y \<longleftrightarrow> xst y t \<in> {TaskWaiting, TaskRunning}" and "\<And>t r. (t, r) \<in> set (xwatch y) \<Longrightarrow> xst y t \<noteq> TaskInit"
  shows "sys_tidy y"
  using assms(1-3,5) unfolding sys_tidy_def accounted_def by (auto simp: assms(4))

lemma sys_tidy_count:
  assumes "sys_tidy x" and "TaskOk \<le> xst x t" and "xev y = xev x" and "xrun y = xrun x" and "xst y = xst x"
    and "set (xwatch y) \<subseteq> set (xwatch x)" and "r \<Longrightarrow> z = count_lost t y" and "\<not> r \<Longrightarrow> z = y"
    and "mset (xbatch y) + mset (map fst (xwatch y)) + mset (xdone y') = mset (xbatch x) + mset (map fst (xwatch x)) + mset (xdone x)"
  shows "sys_tidy (z\<lparr>xdone := xdone y'\<rparr>)"
proof (rule sys_tidy_state [OF assms(1)])
  have z: "xev z = xev x" "xrun z = xrun x" "xwatch z = xwatch y" "xbatch z = xbatch y" using assms(3,4,7,8) by (cases r; simp)+
  have o: "xst z u = xst x u" if "u \<noteq> t" for u using that assms(5,7,8) by (cases r; simp)
  have t: "TaskOk \<le> xst z t" using assms(2,5,7,8) count_lost_state [of y t] by (cases r) simp_all
  show "xev (z\<lparr>xdone := xdone y'\<rparr>) = xev x" "mset (xbatch (z\<lparr>xdone := xdone y'\<rparr>)) + mset (map fst (xwatch (z\<lparr>xdone := xdone y'\<rparr>))) +
      mset (xdone (z\<lparr>xdone := xdone y'\<rparr>)) = mset (xbatch x) + mset (map fst (xwatch x)) + mset (xdone x)" using z assms(9) by simp_all
  show "u \<in> xrun (z\<lparr>xdone := xdone y'\<rparr>) \<longleftrightarrow> xst (z\<lparr>xdone := xdone y'\<rparr>) u \<in> {TaskWaiting, TaskRunning}" for u
    using assms(1,2) t o [of u] z(2) by (cases "u = t") (auto simp: sys_tidy_def finished_states)
  show "(u, b) \<in> set (xwatch (z\<lparr>xdone := xdone y'\<rparr>)) \<Longrightarrow> xst (z\<lparr>xdone := xdone y'\<rparr>) u \<noteq> TaskInit" for u b
    using assms(1,6) t o [of u] z(3) by (cases "u = t") (auto simp: sys_tidy_def finished_states)
qed

lemma eval_step_tidy:
  assumes g: "graph_ok h rk" and k: "\<forall>t. rk t < k" and o: "order_ok order"
  shows "eval_step k order h others x y \<Longrightarrow> sys_tidy x \<Longrightarrow> sys_tidy y"
proof (induction rule: eval_step.induct)
  case (receive x t ev)
  have a: "accounted x" and td: "tidy (xev x)" using receive(7) by (auto simp: sys_tidy_def)
  from Return_total [OF g k accounted_pending(3) [OF a receive(5)] td, of order "xst x" "xterr x"] receive(6)
  have ev: "tidy ev" "epending ev = epending (xev x) - {t}" by auto
  from accounted_receive [OF a receive(5) ev(2)] ev(1) show ?case using receive(7) by (auto simp: sys_tidy_def accounted_def tidy_def)
next
  case (runnable x ev ts)
  have a: "accounted x" and td: "finite (etodo (xev x))" "etodo (xev x) \<inter> epending (xev x) = {}" using runnable(6) by (auto simp: sys_tidy_def tidy_def)
  from accounted_runnable [OF a o runnable(2) td runnable(5)] show ?case
    using runnable(5,6) by (auto simp: sys_tidy_def accounted_def tidy_def Runnable_def)
next
  case (start x t ts)
  then show ?case by (intro sys_tidy_state [OF start(3)]) (auto simp: start_task_def Let_def sys_tidy_def split: if_splits)
next
  case (watch x ws t runner ws')
  let ?y = "x\<lparr>xwatch := ws @ ws'\<rparr>"
  have "sys_tidy ((if runner then count_lost t ?y else ?y)\<lparr>xdone := xdone (x\<lparr>xdone := xdone x @ [t]\<rparr>)\<rparr>)"
    by (rule sys_tidy_count [OF watch(3,2), where y = ?y and r = runner]) (use watch(1) in auto)
  then show ?case by (cases runner) (simp_all add: watch_task_def Let_def)
next
  case (other_watch t x)
  let ?y = "x\<lparr>xother := remove1 t (xother x)\<rparr>"
  have "sys_tidy ((count_lost t ?y)\<lparr>xdone := xdone x\<rparr>)"
    by (rule sys_tidy_count [OF other_watch(4,3), where y = ?y and r = True]) auto
  moreover have "(count_lost t ?y)\<lparr>xdone := xdone x\<rparr> = count_lost t ?y" by (simp add: count_lost_def Let_def split: TaskState.splits)
  ultimately show ?case by simp
next
  case (exec_run t x)
  then show ?case by (intro sys_tidy_state [OF exec_run(3)]) (auto simp: sys_tidy_def)
next
  case (exec_finish t x s e)
  then show ?case by (intro sys_tidy_state [OF exec_finish(4)]) (auto simp: sys_tidy_def finished_states)
next
  case (lose x t)
  then show ?case by (intro sys_tidy_state [OF lose(2)]) (auto simp: sys_tidy_def)
next
  case (other x t)
  then show ?case by (intro sys_tidy_state [OF other(4)]) (auto simp: sys_tidy_def)
qed (simp_all add: sys_tidy_def accounted_def)

lemma reachable_tidy:
  assumes "graph_ok h rk" and "\<forall>t. rk t < k" and "order_ok order" and "\<forall>t. t \<in> set busy \<longleftrightarrow> st t \<in> {TaskWaiting, TaskRunning}"
    and "eval_init k h st lost busy roots = Some (Ret x0)" and "(eval_step k order h others)\<^sup>*\<^sup>* x0 x"
  shows "sys_tidy x"
proof -
  have "tidy newState" by (simp add: tidy_def newState_def)
  from enqueue_all_total [OF assms(1,2) this, of st roots] obtain ev where "enqueue_all k h st roots newState = Some (Ret ev)" "tidy ev" "epending ev = {}"
    by (auto simp: newState_def)
  then have "sys_tidy x0" using assms(4,5) by (auto simp: eval_init_def sys_tidy_def accounted_def)
  with assms(6) show ?thesis by (induction rule: rtranclp_induct) (auto intro: eval_step_tidy [OF assms(1-3)])
qed

text \<open>
  C17.  Evaluation does not get stuck, also beside other evaluators.  Say that when it begins, the executor runs the
  tasks that are waiting or running and no others.  Whatever has happened since, when the evaluator waits for its
  channels: \<open>Return\<close> returns and does not panic for every task that can be received; there is a task to receive or
  a goroutine that waits for a task; and every such goroutine can send at once, as its task has finished, or
  waits for a task that the executor is running.
\<close>

theorem Eval_not_stuck:
  assumes "graph_ok h rk" and "\<forall>t. rk t < k" and "order_ok order" and "\<forall>t. t \<in> set busy \<longleftrightarrow> st t \<in> {TaskWaiting, TaskRunning}"
    and "eval_init k h st lost busy roots = Some (Ret x0)" and "(eval_step k order h others)\<^sup>*\<^sup>* x0 x"
    and "xresult x = None" and "xbatch x = []" and "\<not> Done (xev x)" and "\<not> Todo (xev x)"
  shows "(\<forall>t\<in>set (xdone x). \<exists>ev. ev_Return k order h (xst x) (xterr x) t (xev x) = Some (Ret ev)) \<and> (xdone x \<noteq> [] \<or> xwatch x \<noteq> []) \<and>
    (\<forall>(t, runner)\<in>set (xwatch x). TaskOk \<le> xst x t \<or> t \<in> xrun x)"
proof -
  have i: "sys_tidy x" by (rule reachable_tidy [OF assms(1-6)])
  then have a: "accounted x" "tidy (xev x)" by (simp_all add: sys_tidy_def)
  have "\<exists>ev. ev_Return k order h (xst x) (xterr x) t (xev x) = Some (Ret ev)" if "t \<in> set (xdone x)" for t
    using Return_total [OF assms(1,2) accounted_pending(3) [OF a(1) that] a(2)] by blast
  moreover have "mset (map fst (xwatch x)) + mset (xdone x) \<noteq> {#}"
  proof -
    have "epending (xev x) \<noteq> {}" using assms(9,10) by (auto simp: Done_def Todo_def)
    then show ?thesis using a(1) assms(8) by (simp add: accounted_def mset_set_empty_iff)
  qed
  moreover have "TaskOk \<le> xst x t \<or> t \<in> xrun x" if "(t, r) \<in> set (xwatch x)" for t r
    using i that by (cases "xst x t") (auto simp: sys_tidy_def finished_states)
  ultimately show ?thesis by auto
qed

text \<open>
  Only ready tasks are scheduled.  A task that \<open>Return\<close> schedules is being run already, or every
  task of every phase it depends on is finished, except when it is the returned task itself, caught
  in its initial state.
\<close>

theorem Return_schedules_ready:
  assumes "graph_ok h rk" and "\<forall>t. rk t < k" and "order_ok order" and "ev_live h st s U" and "t \<in> epending s"
  shows "\<exists>s'. ev_Return k order h st terr t s = Some (Ret s') \<and>
    (\<forall>v\<in>etodo s' - etodo s. v = t \<and> st t = TaskInit \<or> st v \<in> {TaskWaiting, TaskRunning} \<or>
      (\<forall>d\<in>set (tDeps (h v)). \<forall>src. dHead d = Some src \<longrightarrow> (\<forall>u\<in>set (Phase h src). st u \<in> {TaskOk, TaskErr})))"
proof -
  have "deps_finished h st v \<longleftrightarrow> (\<forall>d\<in>set (tDeps (h v)). \<forall>src. dHead d = Some src \<longrightarrow> (\<forall>u\<in>set (Phase h src). st u \<in> {TaskOk, TaskErr}))" for v
    by (auto simp: deps_finished_def heads_def opens_def unfinished_def)
  then show ?thesis using Return_spec [OF assms(1-5), of terr] by (metis (no_types, lifting))
qed

section \<open>Executing steps\<close>

text \<open>The steps as an executable function of a schedule, for concrete runs.\<close>

datatype event = EReceive nat | ERunnable | EStart | EFinish | EWatch nat bool | EExec nat TaskState | EOther nat | EOtherWatch nat

definition do_event ::
  "nat \<Rightarrow> (nat set \<Rightarrow> nat list) \<Rightarrow> (nat \<Rightarrow> 'a Task_scheme) \<Rightarrow> bool \<Rightarrow> event \<Rightarrow> evalsys \<Rightarrow> evalsys option" where
  "do_event k order h others e x = (case e of
       EReceive t \<Rightarrow>
         if xresult x = None \<and> xbatch x = [] \<and> \<not> Done (xev x) \<and> \<not> Todo (xev x) \<and> t \<in> set (xdone x)
         then (case ev_Return k order h (xst x) (xterr x) t (xev x) of
             Some (Ret ev) \<Rightarrow> Some (x\<lparr>xev := ev, xdone := remove1 t (xdone x),
               xfin := (if xst x t = TaskOk then insert t (xfin x) else xfin x)\<rparr>)
           | _ \<Rightarrow> None)
         else None
     | ERunnable \<Rightarrow>
         if xresult x = None \<and> xbatch x = [] \<and> \<not> Done (xev x) \<and> Todo (xev x)
         then (let (ev, ts) = Runnable order (xev x) in Some (x\<lparr>xev := ev, xbatch := ts\<rparr>)) else None
     | EStart \<Rightarrow> (case xbatch x of [] \<Rightarrow> None | t # ts \<Rightarrow>
         if xresult x = None then Some (start_task t (x\<lparr>xbatch := ts\<rparr>)) else None)
     | EFinish \<Rightarrow>
         if xresult x = None \<and> xbatch x = [] \<and> Done (xev x) then Some (x\<lparr>xresult := Some (eerr (xev x))\<rparr>) else None
     | EWatch t r \<Rightarrow>
         if (t, r) \<in> set (xwatch x) \<and> TaskOk \<le> xst x t
         then Some (watch_task t r (x\<lparr>xwatch := remove1 (t, r) (xwatch x)\<rparr>)) else None
     | EExec t s \<Rightarrow>
         if t \<in> xrun x \<and> s \<in> {TaskOk, TaskLost}
         then Some (x\<lparr>xst := (xst x)(t := s), xrun := xrun x - {t}, xterr := xterr x\<rparr>) else None
     | EOther t \<Rightarrow>
         if others \<and> xst x t \<in> {TaskInit, TaskLost} \<and>
           (\<forall>d\<in>set (tDeps (h t)). case dHead d of None \<Rightarrow> True | Some src \<Rightarrow> \<forall>u\<in>set (Phase h src). xst x u = TaskOk)
         then Some (x\<lparr>xst := (xst x)(t := TaskWaiting), xrun := insert t (xrun x), xother := xother x @ [t]\<rparr>) else None
     | EOtherWatch t \<Rightarrow>
         if others \<and> t \<in> set (xother x) \<and> TaskOk \<le> xst x t
         then Some (count_lost t (x\<lparr>xother := remove1 t (xother x)\<rparr>)) else None)"

fun do_events ::
  "nat \<Rightarrow> (nat set \<Rightarrow> nat list) \<Rightarrow> (nat \<Rightarrow> 'a Task_scheme) \<Rightarrow> bool \<Rightarrow> event list \<Rightarrow> evalsys \<Rightarrow> evalsys option" where
  "do_events k order h others [] x = Some x"
| "do_events k order h others (e # es) x = Option.bind (do_event k order h others e x) (do_events k order h others es)"

lemma do_event_step: "do_event k order h others e x = Some y \<Longrightarrow> eval_step k order h others x y"
proof (cases e)
  case (EReceive t)
  assume "do_event k order h others e x = Some y"
  then obtain ev where "xresult x = None" "xbatch x = []" "\<not> Done (xev x)" "\<not> Todo (xev x)" "t \<in> set (xdone x)"
    "ev_Return k order h (xst x) (xterr x) t (xev x) = Some (Ret ev)"
    "y = x\<lparr>xev := ev, xdone := remove1 t (xdone x), xfin := (if xst x t = TaskOk then insert t (xfin x) else xfin x)\<rparr>"
    using EReceive unfolding do_event_def by (auto split: if_split_asm option.splits go.splits)
  then show ?thesis using receive [of x t k order h ev others] by blast
next
  case (EWatch t r)
  assume "do_event k order h others e x = Some y"
  then have e: "(t, r) \<in> set (xwatch x)" "TaskOk \<le> xst x t" "y = watch_task t r (x\<lparr>xwatch := remove1 (t, r) (xwatch x)\<rparr>)"
    using EWatch by (auto simp: do_event_def split: if_splits)
  then obtain ws ws' where "xwatch x = ws @ (t, r) # ws'" "(t, r) \<notin> set ws" by (meson split_list_first)
  then show ?thesis using watch [of x ws t r ws'] e by (simp add: remove1_append)
next
  case (EExec t s)
  assume "do_event k order h others e x = Some y"
  then have "t \<in> xrun x" "s \<in> {TaskOk, TaskLost}" "y = x\<lparr>xst := (xst x)(t := s), xrun := xrun x - {t}, xterr := xterr x\<rparr>"
    using EExec by (auto simp: do_event_def split: if_splits)
  then show ?thesis using exec_finish [of t x s None k order h others] by (auto simp: less_eq_TaskState_def)
qed (auto simp: do_event_def intro!: eval_step.intros split: if_splits option.splits go.splits list.splits prod.splits)

lemma do_events_steps: "do_events k order h others es x = Some y \<Longrightarrow> (eval_step k order h others)\<^sup>*\<^sup>* x y"
proof (induction es arbitrary: x)
  case (Cons e es)
  then obtain x1 where "do_event k order h others e x = Some x1" "do_events k order h others es x1 = Some y"
    by (auto simp: bind_eq_Some_conv)
  then show ?case using do_event_step Cons.IH by (meson converse_rtranclp_into_rtranclp)
qed simp

text \<open>Three tasks in a chain: 2 depends on 1 and 1 on 0.\<close>

definition chain :: "nat \<Rightarrow> Task" where
  "chain t = \<lparr>tName = \<lparr>nInvIndex = 1, nOp = ''op'', nShard = t, nNumShard = 1\<rparr>,
     tDeps = (if t \<in> {1, 2} then [\<lparr>dHead = Some (t - 1), dPartition = 0, dExpand = False, dCombineKey = []\<rparr>] else []), tGroup = []\<rparr>"

definition chain_rank :: "nat \<Rightarrow> nat" where
  "chain_rank t = (if t \<le> 2 then t else 0)"

lemma chain_ok: "graph_ok chain chain_rank" and chain_rank_less: "\<forall>t. chain_rank t < 3"
  by (auto simp: graph_ok_def Phase_def Head_def chain_def chain_rank_def)

lemma order_ok_sorted: "order_ok sorted_list_of_set"
  by (simp add: order_ok_def)

definition chain_run :: "bool \<Rightarrow> event list \<Rightarrow> evalsys option" where
  "chain_run others es = (case eval_init 3 chain (\<lambda>_. TaskInit) (\<lambda>_. 0) [] [2] of
       Some (Ret x) \<Rightarrow> do_events 3 sorted_list_of_set chain others es x | _ \<Rightarrow> None)"

lemma chain_runE:
  assumes "case chain_run others es of Some x \<Rightarrow> P x | None \<Rightarrow> False"
  obtains x0 x where "eval_init 3 chain (\<lambda>_. TaskInit) (\<lambda>_. 0) [] [2] = Some (Ret x0)"
    and "(eval_step 3 sorted_list_of_set chain others)\<^sup>*\<^sup>* x0 x" and "P x"
proof -
  from assms obtain x0 x where "eval_init 3 chain (\<lambda>_. TaskInit) (\<lambda>_. 0) [] [2] = Some (Ret x0)"
    "do_events 3 sorted_list_of_set chain others es x0 = Some x" "P x"
    unfolding chain_run_def by (auto split: option.splits go.splits)
  then show thesis using that do_events_steps by metis
qed



theorem Eval_not_stuck_witness:
  "\<exists>x0 x. eval_init 3 chain (\<lambda>_. TaskInit) (\<lambda>_. 0) [] [2] = Some (Ret x0) \<and> (eval_step 3 sorted_list_of_set chain True)\<^sup>*\<^sup>* x0 x \<and>
    xwatch x = [(1, False)] \<and> 1 \<in> xrun x \<and> xst x 1 = TaskWaiting"
proof -
  have "case chain_run True [ERunnable, EStart, EExec 0 TaskOk, EOther 1, EWatch 0 True, EReceive 0, ERunnable, EStart] of
      Some x \<Rightarrow> xresult x = None \<and> xbatch x = [] \<and> \<not> Done (xev x) \<and> \<not> Todo (xev x) \<and> xwatch x = [(1, False)] \<and> xst x 1 = TaskWaiting
    | None \<Rightarrow> False" by code_simp
  then show ?thesis
  proof (rule chain_runE)
    fix x0 x
    assume x: "eval_init 3 chain (\<lambda>_. TaskInit) (\<lambda>_. 0) [] [2] = Some (Ret x0)" "(eval_step 3 sorted_list_of_set chain True)\<^sup>*\<^sup>* x0 x"
      and c: "xresult x = None \<and> xbatch x = [] \<and> \<not> Done (xev x) \<and> \<not> Todo (xev x) \<and> xwatch x = [(1, False)] \<and> xst x 1 = TaskWaiting"
    from Eval_not_stuck [OF chain_ok chain_rank_less order_ok_sorted _ x] c have "1 \<in> xrun x" by (simp add: less_eq_TaskState_def)
    with c x show ?thesis by (intro exI [of _ x0] exI [of _ x]) simp
  qed
qed

theorem Return_schedules_ready_witness:
  "\<exists>s'. ev_Return 3 sorted_list_of_set chain (\<lambda>t. if t = 0 then TaskOk else TaskInit) (\<lambda>_. None) 0
      \<lparr>edeps = [0 \<mapsto> {|1|}], ecounts = (\<lambda>t. if t = 1 then 1 else 0), etodo = {}, epending = {0}, ewait = Map.empty, eerr = None\<rparr> = Some (Ret s') \<and>
    2 \<notin> etodo s'"
proof -
  let ?s = "\<lparr>edeps = [0 \<mapsto> {|1|}], ecounts = (\<lambda>t. if t = 1 then 1 else 0), etodo = {}, epending = {0::nat}, ewait = Map.empty, eerr = None\<rparr>"
  let ?st = "\<lambda>t::nat. if t = 0 then TaskOk else TaskInit"
  have w: "waits ?s t = (if t = Suc 0 then {0} else {})" for t by (auto simp: waits_def split: if_splits)
  have "ev_live chain ?st ?s {0, 1}"
    unfolding ev_live_def served_def w by (auto simp: heads_def chain_def Phase_def split: if_splits)
  from Return_schedules_ready [OF chain_ok chain_rank_less order_ok_sorted this, of 0 "\<lambda>_. None"]
  obtain s' where "ev_Return 3 sorted_list_of_set chain ?st (\<lambda>_. None) 0 ?s = Some (Ret s')"
    "\<forall>v\<in>etodo s'. v = 0 \<and> ?st 0 = TaskInit \<or> ?st v \<in> {TaskWaiting, TaskRunning} \<or>
      (\<forall>d\<in>set (tDeps (chain v)). \<forall>src. dHead d = Some src \<longrightarrow> (\<forall>u\<in>set (Phase chain src). ?st u \<in> {TaskOk, TaskErr}))"
    by auto
  moreover have "\<exists>d\<in>set (tDeps (chain 2)). dHead d = Some 1 \<and> 1 \<in> set (Phase chain 1)" by (simp add: chain_def Phase_def)
  ultimately show ?thesis by (intro exI [of _ s']) fastforce
qed

text \<open>
  C37.  Two evaluators on the same tasks: an evaluation can return without an error although its root
  has never been run.  In the run below another evaluator completes task 1 after task 0, on which it
  depends, has finished but before this evaluator receives task 0; \<open>Return\<close> then finds task 1 in
  state \<open>TaskOk\<close>, enqueues nothing, and the count of task 2 never drops.
\<close>

theorem Eval_concurrent_incomplete:
  "\<exists>x0 x. eval_init 3 chain (\<lambda>_. TaskInit) (\<lambda>_. 0) [] [2] = Some (Ret x0) \<and> (eval_step 3 sorted_list_of_set chain True)\<^sup>*\<^sup>* x0 x \<and>
    xresult x = Some None \<and> xst x 2 = TaskInit"
proof -
  have "case chain_run True [ERunnable, EStart, EExec 0 TaskOk, EWatch 0 True, EOther 1, EExec 1 TaskOk, EReceive 0, EFinish] of
      Some x \<Rightarrow> xresult x = Some None \<and> xst x 2 = TaskInit | None \<Rightarrow> False" by code_simp
  then show ?thesis by (rule chain_runE) blast
qed

text \<open>
  C38.  An evaluation of a root that is already in state \<open>TaskErr\<close> returns at once and without an error.
\<close>

theorem Eval_errored_root:
  assumes "st r = TaskErr" and "tGroup (h r) = []"
  shows "\<exists>x y. eval_init (Suc k) h st lost busy [r] = Some (Ret x) \<and> eval_step (Suc k) order h False x y \<and> xresult y = Some None"
proof -
  let ?ev = "newState\<lparr>ewait := [r \<mapsto> 0]\<rparr>"
  have "enqueue_all (Suc k) h st [r] newState = Some (Ret ?ev)"
    using assms by (simp add: newState_def Phase_def Head_def)
  then obtain x where x: "eval_init (Suc k) h st lost busy [r] = Some (Ret x)" "xresult x = None" "xbatch x = []" "xev x = ?ev"
    by (auto simp: eval_init_def)
  then have "eval_step (Suc k) order h False x (x\<lparr>xresult := Some (eerr (xev x))\<rparr>)"
    by (intro finish) (simp_all add: Done_def newState_def)
  then show ?thesis using x by (intro exI [of _ x] exI [of _ "x\<lparr>xresult := Some (eerr (xev x))\<rparr>"]) (simp add: newState_def)
qed

theorem Eval_errored_root_witness:
  "\<exists>x y. eval_init (Suc 0) chain (\<lambda>_. TaskErr) (\<lambda>_. 0) [] [0] = Some (Ret x) \<and>
    eval_step (Suc 0) sorted_list_of_set chain False x y \<and> xresult y = Some None"
  by (rule Eval_errored_root) (simp_all add: chain_def)

section \<open>Consecutive losses\<close>








end
