(* ===== verification/Compile.thy ===== *)
theory Compile
  imports SliceCache Eval
begin

text \<open>
  \<open>exec/compile.go\<close>: the compiler from slices to task graphs.

  The compiler allocates tasks: its state, the record \<open>compiler\<close>, has the heap of tasks with the
  address of the next one, the namer, the memo table and the compilation environment.  The closures
  stored in \<open>Task.Do\<close> are values of \<open>taskDo\<close>, one constructor per closure of the source, and \<open>run_do\<close>
  applies them.  Slices are addresses as in \<open>SliceOps\<close>.  The recursion of \<open>compile\<close> is bounded by its
  first argument; it is shown to return when the bound exceeds the address of the slice.
\<close>

section \<open>Tasks as the compiler makes them\<close>

datatype taskDo =
    DoFirst
  | DoCache nat nat
  | DoReader nat nat
  | DoPipe nat nat taskDo

datatype 'v cpart = DefaultPartitioner | CustomPartitioner "'v Partitioner"

record 'v CTask = Task +
  ctType :: nat
  ctDo :: "taskDo option"
  ctPartitioner :: "'v cpart option"
  ctNumPartition :: int
  ctCombiner :: "'v sfunc"
  ctCombineKey :: string
  ctPragma :: "pragma list"
  ctSlices :: "nat list"

text \<open>
  The closures: reading the first dependency, reading the cache, reading a slice from the task's
  dependencies, and reading it from the slice before it in the pipeline.  \<open>rdr\<close> is the method \<open>Reader\<close> of
  the slices, \<open>cache\<close> and \<open>wt\<close> are \<open>CacheReader\<close> and \<open>WritethroughReader\<close> of their caches.  The theorems on the
  meaning of tasks take \<open>wt\<close> to be the identity, because a write-through reader passes on the rows it reads; that it does, and what
  it writes, is in \<open>SliceCache\<close>.  The wrapper \<open>PprofReader\<close>, which only labels profiles, is left out.
\<close>

primrec run_do ::
  "(nat \<Rightarrow> nat \<Rightarrow> 'x list \<Rightarrow> 'x go) \<Rightarrow> (nat \<Rightarrow> nat \<Rightarrow> 'x go) \<Rightarrow> (nat \<Rightarrow> nat \<Rightarrow> 'x \<Rightarrow> 'x) \<Rightarrow> taskDo \<Rightarrow> 'x list \<Rightarrow> 'x go" where
  "run_do rdr cache wt DoFirst readers = (case readers of [] \<Rightarrow> Panic ''index out of range'' | r # _ \<Rightarrow> Ret r)"
| "run_do rdr cache wt (DoCache s shard) readers = cache s shard"
| "run_do rdr cache wt (DoReader s shard) readers = go_bind (rdr s shard readers) (\<lambda>r. Ret (wt s shard r))"
| "run_do rdr cache wt (DoPipe s shard prev) readers =
     go_bind (run_do rdr cache wt prev readers) (\<lambda>x. go_bind (rdr s shard [x]) (\<lambda>r. Ret (wt s shard r)))"

text \<open>\<open>defaultPartitioner\<close> on the rows of a frame; \<open>hash\<close> is \<open>Frame.Hash\<close> on a row.\<close>

definition defaultPartitioner :: "('v list \<Rightarrow> 32 word) \<Rightarrow> 'v Partitioner" where
  "defaultPartitioner hash rws nshard = map_go (\<lambda>r.
     if of_int nshard = (0 :: 32 word) then Panic ''integer divide by zero'' else Ret (uint (hash r mod of_int nshard))) rws"

section \<open>Partitioning, pipelining, naming\<close>

record 'v partitioner =
  pNum :: int
  pPart :: "'v Partitioner option"
  pComb :: "'v sfunc"
  pKey :: string

definition noPart :: "'v partitioner" where
  "noPart = \<lparr>pNum = 0, pPart = None, pComb = sfunc_Nil, pKey = []\<rparr>"

definition IsShuffle :: "'v partitioner \<Rightarrow> bool" where
  "IsShuffle p \<longleftrightarrow> pNum p \<noteq> 0"

definition p_Partitioner :: "'v partitioner \<Rightarrow> 'v cpart" where
  "p_Partitioner p = (case pPart p of None \<Rightarrow> DefaultPartitioner | Some f \<Rightarrow> CustomPartitioner f)"

definition p_NumPartition :: "'v partitioner \<Rightarrow> int" where
  "p_NumPartition p = (if pNum p = 0 then 1 else pNum p)"

definition result_tasks :: "'v impl \<Rightarrow> nat list option" where
  "result_tasks i = (case i of Result ts \<Rightarrow> Some ts | _ \<Rightarrow> None)"

definition materialized :: "'v Slice \<Rightarrow> bool" where
  "materialized x \<longleftrightarrow> (case slPragma x of None \<Rightarrow> False | Some p \<Rightarrow> pragma_Materialize p)"

partial_function (option) pipeline :: "'v slices \<Rightarrow> nat \<Rightarrow> nat list option" where
  "pipeline sl s = Option.bind (Unwrap sl s) (\<lambda>u.
     if result_tasks (slImpl (sl u)) \<noteq> None then Some []
     else case slDeps (sl s) of
         [d] \<Rightarrow> if dpShuffle d then Some [s]
                 else if materialized (sl (dpSlice d)) then Some [s]
                 else Option.bind (pipeline sl (dpSlice d)) (\<lambda>ss. Some (s # ss))
       | _ \<Rightarrow> Some [s])"

definition taskNamer_New :: "string \<Rightarrow> (string \<Rightarrow> nat) \<Rightarrow> (string \<Rightarrow> nat) \<times> string" where
  "taskNamer_New name n = (n(name := Suc (n name)), if n name = 0 then name else name @ decimal (n name))"

fun join :: "string \<Rightarrow> string list \<Rightarrow> string" where
  "join sp [] = []"
| "join sp [x] = x"
| "join sp (x # y # ys) = x @ sp @ join sp (y # ys)"

section \<open>The compilation environment\<close>

record CompileEnv =
  Writable :: bool
  TaskCached :: "TaskName \<Rightarrow> bool"

definition makeCompileEnv :: CompileEnv where
  "makeCompileEnv = \<lparr>Writable = True, TaskCached = (\<lambda>_. False)\<rparr>"

definition MarkCached :: "TaskName \<Rightarrow> CompileEnv \<Rightarrow> CompileEnv go" where
  "MarkCached n e = (if \<not> Writable e then Panic ''env not writable'' else Ret (e\<lparr>TaskCached := (TaskCached e)(n := True)\<rparr>))"

definition env_IsCached :: "TaskName \<Rightarrow> CompileEnv \<Rightarrow> bool" where
  "env_IsCached n e = TaskCached e n"

definition Freeze :: "CompileEnv \<Rightarrow> CompileEnv" where
  "Freeze e = e\<lparr>Writable := False\<rparr>"

section \<open>The compiler\<close>

record 'v compiler =
  namer :: "string \<Rightarrow> nat"
  invIndex :: nat
  machineCombiners :: bool
  memo :: "nat \<times> int \<Rightarrow> nat list option"
  env :: CompileEnv
  heap :: "nat \<Rightarrow> 'v CTask"
  nextTask :: nat

definition upd_task :: "nat \<Rightarrow> ('v CTask \<Rightarrow> 'v CTask) \<Rightarrow> 'v compiler \<Rightarrow> 'v compiler" where
  "upd_task t f c = c\<lparr>heap := (heap c)(t := f (heap c t))\<rparr>"

definition alloc :: "'v CTask list \<Rightarrow> 'v compiler \<Rightarrow> 'v compiler \<times> nat list" where
  "alloc new c =
     (let n = nextTask c; ts = [n ..< n + length new]
      in (c\<lparr>heap := (\<lambda>t. if t \<in> set ts then new ! (t - n) else heap c t), nextTask := n + length new\<rparr>, ts))"

text \<open>Reuse of the tasks of a result.\<close>

definition compile_result :: "nat list \<Rightarrow> nat \<Rightarrow> 'v partitioner \<Rightarrow> 'v compiler \<Rightarrow> ('v compiler \<times> (goerror + nat list)) go" where
  "compile_result tasks s part c =
     (if list_ex (\<lambda>t. \<not> sfunc_IsNil (ctCombiner (heap c t))) tasks then Ret (c, Inl (ErrNew ''cannot reuse task with combine key''))
      else if \<not> IsShuffle part then Ret (c, Inr tasks)
      else case tasks of
          [] \<Rightarrow> Panic ''index out of range''
        | t0 # _ \<Rightarrow>
            (let (nm, shuffleOpName) = taskNamer_New (nOp (tName (heap c t0)) @ ''_shuffle'') (namer c);
                 new = map (\<lambda>(shard, t). \<lparr>tName = \<lparr>nInvIndex = invIndex c, nOp = shuffleOpName, nShard = shard, nNumShard = length tasks\<rparr>,
                   tDeps = [\<lparr>dHead = Some t, dPartition = 0, dExpand = False, dCombineKey = []\<rparr>], tGroup = [], ctType = s, ctDo = Some DoFirst,
                   ctPartitioner = None, ctNumPartition = 0, ctCombiner = sfunc_Nil, ctCombineKey = [], ctPragma = ctPragma (heap c t),
                   ctSlices = ctSlices (heap c t)\<rparr>) (enumerate 0 tasks);
                 (c, ts) = alloc new (c\<lparr>namer := nm\<rparr>)
             in Ret (c, Inr ts)))"

text \<open>
  The loop over the dependencies of the last slice of the pipeline, \<open>ls\<close>; \<open>rc\<close> is the recursive call and
  \<open>ts\<close> are the tasks of the slice \<open>s\<close>.
\<close>

definition add_dep :: "nat \<times> TaskDep \<Rightarrow> 'v compiler \<Rightarrow> 'v compiler" where
  "add_dep = (\<lambda>(t, d). upd_task t (\<lambda>x. x\<lparr>tDeps := tDeps x @ [d]\<rparr>))"

fun compile_deps ::
  "(nat \<Rightarrow> 'v partitioner \<Rightarrow> 'v compiler \<Rightarrow> ('v compiler \<times> (goerror + nat list)) go option) \<Rightarrow> 'v slices \<Rightarrow> nat \<Rightarrow> nat \<Rightarrow> string \<Rightarrow> nat list
     \<Rightarrow> 'v Dep list \<Rightarrow> 'v compiler \<Rightarrow> ('v compiler \<times> gerr) go option" where
  "compile_deps rc sl ls s opName ts [] c = Some (Ret (c, None))"
| "compile_deps rc sl ls s opName ts (d # ds) c =
     (if \<not> dpShuffle d
      then run_bind (rc (dpSlice d) noPart c) (\<lambda>(c, r). case r of
          Inl e \<Rightarrow> Some (Ret (c, Some e))
        | Inr depTasks \<Rightarrow>
            if length ts \<noteq> length depTasks then Some (Panic ''tasks:%d deptasks:%d'')
            else compile_deps rc sl ls s opName ts ds (fold add_dep
              (zip ts (map (\<lambda>u. \<lparr>dHead = Some u, dPartition = 0, dExpand = dpExpand d, dCombineKey = []\<rparr>) depTasks)) c))
      else let combineKey = (if \<not> sfunc_IsNil (slCombiner (sl ls)) \<and> machineCombiners c then opName else []);
               depPart = \<lparr>pNum = slNumShard (sl s), pPart = dpPartitioner d, pComb = slCombiner (sl ls), pKey = combineKey\<rparr>
           in run_bind (rc (dpSlice d) depPart c) (\<lambda>(c, r). case r of
                Inl e \<Rightarrow> Some (Ret (c, Some e))
              | Inr depTasks \<Rightarrow> (case (ts, depTasks) of
                  (_ # _, []) \<Rightarrow> Some (Panic ''index out of range'')
                | _ \<Rightarrow> compile_deps rc sl ls s opName ts ds (fold add_dep
                    (map (\<lambda>(partition, t). (t, \<lparr>dHead = Some (hd depTasks), dPartition = partition, dExpand = dpExpand d, dCombineKey = combineKey\<rparr>))
                      (enumerate 0 ts)) c))))"

text \<open>
  The loops that compose the closures, for one slice \<open>x\<close> of the pipeline: marking the cached shards, then
  setting the field \<open>Do\<close> of every task.  \<open>slice_cache\<close> is the cache of a slice, \<open>None\<close> for \<open>slicecache.Empty\<close>.
\<close>

definition slice_cache :: "'v slices \<Rightarrow> nat \<Rightarrow> FileShardCache option" where
  "slice_cache sl x = (case Unwrap sl x of None \<Rightarrow> None
     | Some u \<Rightarrow> (case slImpl (sl u) of cacheSlice fc \<Rightarrow> Some fc | _ \<Rightarrow> None))"

fun mark_loop :: "FileShardCache option \<Rightarrow> (nat \<times> nat) list \<Rightarrow> 'v compiler \<Rightarrow> 'v compiler go" where
  "mark_loop fc [] c = Ret c"
| "mark_loop fc ((shard, t) # sts) c = go_bind (fsc_IsCached fc shard) (\<lambda>cached.
     if cached then go_bind (MarkCached (tName (heap c t)) (env c)) (\<lambda>e. mark_loop fc sts (c\<lparr>env := e\<rparr>))
     else mark_loop fc sts c)"

definition set_do :: "nat \<Rightarrow> nat \<times> nat \<Rightarrow> 'v compiler \<Rightarrow> 'v compiler" where
  "set_do x = (\<lambda>(shard, t) c.
     if env_IsCached (tName (heap c t)) (env c) then upd_task t (\<lambda>y. y\<lparr>ctDo := Some (DoCache x shard), tDeps := []\<rparr>) c
     else upd_task t (\<lambda>y. y\<lparr>ctDo := Some (case ctDo y of None \<Rightarrow> DoReader x shard | Some prev \<Rightarrow> DoPipe x shard prev)\<rparr>) c)"

fun compile_dos :: "'v slices \<Rightarrow> nat list \<Rightarrow> nat list \<Rightarrow> 'v compiler \<Rightarrow> 'v compiler go" where
  "compile_dos sl ts [] c = Ret c"
| "compile_dos sl ts (x # xs) c =
     go_bind (if Writable (env c) then mark_loop (slice_cache sl x) (enumerate 0 ts) c else Ret c) (\<lambda>c.
       compile_dos sl ts xs (fold (set_do x) (enumerate 0 ts) c))"

definition compile_pipeline ::
  "(nat \<Rightarrow> 'v partitioner \<Rightarrow> 'v compiler \<Rightarrow> ('v compiler \<times> (goerror + nat list)) go option) \<Rightarrow> 'v slices \<Rightarrow> nat \<Rightarrow> 'v partitioner
     \<Rightarrow> 'v compiler \<Rightarrow> ('v compiler \<times> (goerror + nat list)) go option" where
  "compile_pipeline rc sl s part c = Option.bind (pipeline sl s) (\<lambda>slices.
     let pragmas = List.map_filter (\<lambda>x. slPragma (sl x)) (rev slices);
         (nm, opName) = taskNamer_New (join ''_'' ((''inv'' @ decimal (invIndex c)) # map (\<lambda>x. Op (slName (sl x))) (rev slices))) (namer c)
     in if slNumShard (sl s) < 0 then Some (Panic ''makeslice: len out of range'')
        else if slices = [] then Some (Panic ''index out of range'')
        else let n = nat (slNumShard (sl s));
                 (c, ts) = alloc (map (\<lambda>i. \<lparr>tName = \<lparr>nInvIndex = invIndex c, nOp = opName, nShard = i, nNumShard = n\<rparr>, tDeps = [], tGroup = [],
                   ctType = hd slices, ctDo = None, ctPartitioner = Some (p_Partitioner part), ctNumPartition = p_NumPartition part,
                   ctCombiner = pComb part, ctCombineKey = pKey part, ctPragma = pragmas, ctSlices = []\<rparr>) [0 ..< n]) (c\<lparr>namer := nm\<rparr>);
                 ls = last slices
             in run_bind (compile_deps rc sl ls s opName ts (slDeps (sl ls)) c) (\<lambda>(c, err). case err of
                  Some e \<Rightarrow> Some (Ret (c, Inl e))
                | None \<Rightarrow> run_bind (Some (compile_dos sl ts (rev slices) c)) (\<lambda>c.
                    Some (Ret (fold (\<lambda>t. upd_task t (\<lambda>x. x\<lparr>ctSlices := slices\<rparr>)) ts c, Inr ts)))))"

text \<open>The method \<open>compile\<close>, with its deferred functions: the groups of shuffled tasks, then the memo table.\<close>

primrec compile ::
  "nat \<Rightarrow> 'v slices \<Rightarrow> nat \<Rightarrow> 'v partitioner \<Rightarrow> 'v compiler \<Rightarrow> ('v compiler \<times> (goerror + nat list)) go option" where
  "compile 0 sl s part c = None"
| "compile (Suc k) sl s part c =
     (let memoize = (sfunc_IsNil (pComb part) \<and> Option.is_none (pPart part)); key = (s, pNum part)
      in case (if memoize then memo c key else None) of
          Some ts \<Rightarrow> Some (Ret (c, Inr ts))
        | None \<Rightarrow> run_bind (Option.bind (Unwrap sl s) (\<lambda>u. case result_tasks (slImpl (sl u)) of
              Some tasks \<Rightarrow> Some (compile_result tasks s part c)
            | None \<Rightarrow> compile_pipeline (compile k sl) sl s part c))
            (\<lambda>(c, r). case r of
                Inl e \<Rightarrow> Some (Ret (c, Inl e))
              | Inr ts \<Rightarrow>
                  (let c = (if IsShuffle part then fold (\<lambda>t. upd_task t (\<lambda>x. x\<lparr>tGroup := ts\<rparr>)) ts c else c);
                       c = (if memoize then c\<lparr>memo := (memo c)(key \<mapsto> ts)\<rparr> else c)
                   in Some (Ret (c, Inr ts)))))"

text \<open>The function \<open>compile\<close>, for an invocation with index \<open>ix\<close> and environment \<open>e\<close>; \<open>h\<close> and \<open>n\<close> are the tasks of earlier invocations.\<close>

definition compile_invocation ::
  "nat \<Rightarrow> nat \<Rightarrow> CompileEnv \<Rightarrow> bool \<Rightarrow> (nat \<Rightarrow> 'v CTask) \<Rightarrow> nat \<Rightarrow> 'v slices \<Rightarrow> nat \<Rightarrow> ('v compiler \<times> (goerror + nat list)) go option" where
  "compile_invocation k ix e mc h n sl s =
     compile k sl s noPart \<lparr>namer = (\<lambda>_. 0), invIndex = ix, machineCombiners = mc, memo = (\<lambda>_. None), env = e, heap = h, nextTask = n\<rparr>"

end
