(* ===== verification/CompileGraph.thy ===== *)
theory CompileGraph
  imports Compile
begin

text \<open>
  What \<open>compile\<close> makes of a slice.  One induction over the compiler (\<open>compile_spec\<close>) shows, for slices
  built by the constructors, that \<open>compile\<close> returns tasks of a known shape: their closures compose the
  readers of the pipeline, or read the cache, and their dependencies name the tasks that the slices
  depended on were compiled to.  From the shape follow the well-formedness of the graph on which
  the evaluator relies, the uniqueness of names, and the meaning of the tasks.
\<close>

section \<open>Names\<close>

definition base_ok :: "string \<Rightarrow> bool" where
  "base_ok b \<longleftrightarrow> b \<noteq> [] \<and> \<not> is_digit (last b)"

definition mint :: "string \<Rightarrow> nat \<Rightarrow> string" where
  "mint b j = (if j = 0 then b else b @ decimal j)"

lemma mint_inj:
  assumes "base_ok b" and "base_ok b'" and "mint b i = mint b' j"
  shows "b = b' \<and> i = j"
proof -
  have tw: "takeWhile is_digit (rev (mint b k)) = (if k = 0 then [] else rev (decimal k))" if "base_ok b" for b k
  proof -
    have b: "takeWhile is_digit (rev b @ xs) = []" for xs using that by (cases b rule: rev_cases) (auto simp: base_ok_def)
    have "\<forall>x\<in>set (rev (decimal k)). is_digit x" using decimal_digits [of k] by (simp add: list_all_iff)
    then have "takeWhile is_digit (rev (decimal k) @ rev b) = rev (decimal k)"
      using b [of "[]"] by (subst takeWhile_append2) auto
    then show ?thesis using b [of "[]"] by (simp add: mint_def)
  qed
  have "(if i = 0 then [] else rev (decimal i)) = (if j = 0 then [] else rev (decimal j))"
    using tw [OF assms(1), of i] tw [OF assms(2), of j] assms(3) by simp
  then have "i = j" using decimal_digits [of i] decimal_digits [of j] decimal_inj [of i j] by (auto split: if_splits)
  with assms(3) show ?thesis by (auto simp: mint_def split: if_splits)
qed

lemma taskNamer_New_mint: "taskNamer_New b n = (n(b := Suc (n b)), mint b (n b))"
  by (simp add: taskNamer_New_def mint_def)

lemma base_ok_append: "base_ok b \<Longrightarrow> base_ok (a @ b)"
  by (simp add: base_ok_def)

lemma base_ok_join:
  assumes "base_ok (last xs)" and "xs \<noteq> []"
  shows "base_ok (join sp xs)"
  using assms by (induction sp xs rule: join.induct) (auto intro: base_ok_append)

section \<open>Well-formed slices\<close>

text \<open>
  Slices as the constructors make them (see \<open>SliceGraph\<close>): a slice is made after the slices it depends
  on, a dependency without a shuffle has the same number of shards, and a result has one task of an
  earlier invocation per shard, outside any group and without a combiner.
\<close>

definition slice_ok :: "(nat \<Rightarrow> 'v CTask) \<Rightarrow> nat \<Rightarrow> 'v slices \<Rightarrow> nat \<Rightarrow> bool" where
  "slice_ok h0 n0 sl s \<longleftrightarrow>
     0 < slNumShard (sl s) \<and> base_ok (Op (slName (sl s))) \<and>
     (\<forall>d\<in>set (slDeps (sl s)). dpSlice d < s \<and> (\<not> dpShuffle d \<longrightarrow> slNumShard (sl (dpSlice d)) = slNumShard (sl s))) \<and>
     (case slImpl (sl s) of
        prefixSlice u \<Rightarrow> u < s \<and> slNumShard (sl u) = slNumShard (sl s)
      | cacheSlice fc \<Rightarrow> length (shardIsCached fc) = nat (slNumShard (sl s))
      | Result ts \<Rightarrow> length ts = nat (slNumShard (sl s)) \<and> (\<forall>t\<in>set ts. t < n0 \<and> tGroup (h0 t) = [] \<and> sfunc_IsNil (ctCombiner (h0 t)))
      | _ \<Rightarrow> True)"

definition slices_ok :: "(nat \<Rightarrow> 'v CTask) \<Rightarrow> nat \<Rightarrow> 'v slices \<Rightarrow> nat \<Rightarrow> bool" where
  "slices_ok h0 n0 sl N \<longleftrightarrow> (\<forall>s<N. slice_ok h0 n0 sl s)"

lemma slices_okD: "slices_ok h0 n0 sl N \<Longrightarrow> s < N \<Longrightarrow> slice_ok h0 n0 sl s"
  by (simp add: slices_ok_def)

lemma slice_ok_dep:
  assumes "slice_ok h0 n0 sl s" and "d \<in> set (slDeps (sl s))"
  shows "dpSlice d < s" and "\<not> dpShuffle d \<Longrightarrow> slNumShard (sl (dpSlice d)) = slNumShard (sl s)"
  using assms unfolding slice_ok_def by blast+

lemma result_tasks_Some: "result_tasks i = Some ts \<longleftrightarrow> i = Result ts"
  by (cases i) (simp_all add: result_tasks_def)

lemma Unwrap_stop: "\<forall>v. slImpl (sl s) \<noteq> prefixSlice v \<Longrightarrow> Unwrap sl s = Some s"
  by (subst Unwrap.simps, cases "slImpl (sl s)") simp_all

lemma slice_cache_Some: "slice_cache sl x = Some fc \<Longrightarrow> \<exists>u. Unwrap sl x = Some u \<and> slImpl (sl u) = cacheSlice fc"
  unfolding slice_cache_def by (cases "Unwrap sl x", simp, rename_tac u, case_tac "slImpl (sl u)") simp_all

lemma Unwrap_spec:
  assumes "slices_ok h0 n0 sl N" and "s < N"
  shows "\<exists>u. u \<le> s \<and> Unwrap sl s = Some u \<and> slNumShard (sl u) = slNumShard (sl s) \<and> (\<forall>v. slImpl (sl u) \<noteq> prefixSlice v)"
  using assms(2)
proof (induction s rule: less_induct)
  case (less s)
  show ?case
  proof (cases "\<exists>v. slImpl (sl s) = prefixSlice v")
    case True
    then obtain v where v: "slImpl (sl s) = prefixSlice v" by blast
    then have "v < s" "slNumShard (sl v) = slNumShard (sl s)"
      using slices_okD [OF assms(1) less.prems] by (simp_all add: slice_ok_def)
    moreover from less.IH [OF this(1)] this(1) less.prems obtain u where
      "u \<le> v" "Unwrap sl v = Some u" "slNumShard (sl u) = slNumShard (sl v)" "\<forall>w. slImpl (sl u) \<noteq> prefixSlice w" by auto
    moreover have "Unwrap sl s = Unwrap sl v" using v by (subst Unwrap.simps) simp
    ultimately show ?thesis by (metis le_less_trans less_imp_le)
  next
    case False
    then show ?thesis using Unwrap_stop [of sl s] by (intro exI [of _ s]) simp
  qed
qed

definition result_of :: "'v slices \<Rightarrow> nat \<Rightarrow> nat list option" where
  "result_of sl s = Option.bind (Unwrap sl s) (\<lambda>u. result_tasks (slImpl (sl u)))"

lemma result_of_ok:
  assumes "slices_ok h0 n0 sl N" and "s < N" and "result_of sl s = Some ts"
  shows "length ts = nat (slNumShard (sl s))" and "\<forall>t\<in>set ts. t < n0 \<and> tGroup (h0 t) = [] \<and> sfunc_IsNil (ctCombiner (h0 t))"
proof -
  obtain u where u: "u \<le> s" "Unwrap sl s = Some u" "slNumShard (sl u) = slNumShard (sl s)" using Unwrap_spec [OF assms(1,2)] by blast
  then have "slImpl (sl u) = Result ts" using assms(3) by (simp add: result_of_def result_tasks_Some)
  moreover have "slice_ok h0 n0 sl u" using slices_okD [OF assms(1)] u(1) assms(2) by simp
  ultimately show "length ts = nat (slNumShard (sl s))" "\<forall>t\<in>set ts. t < n0 \<and> tGroup (h0 t) = [] \<and> sfunc_IsNil (ctCombiner (h0 t))"
    using u(3) by (simp_all add: slice_ok_def)
qed

lemma slice_cache_ok:
  assumes "slices_ok h0 n0 sl N" and "s < N" and "slice_cache sl s = Some fc"
  shows "length (shardIsCached fc) = nat (slNumShard (sl s))"
proof -
  obtain u where u: "u \<le> s" "Unwrap sl s = Some u" "slNumShard (sl u) = slNumShard (sl s)" using Unwrap_spec [OF assms(1,2)] by blast
  then have "slImpl (sl u) = cacheSlice fc" using slice_cache_Some [OF assms(3)] by simp
  moreover have "slice_ok h0 n0 sl u" using slices_okD [OF assms(1)] u(1) assms(2) by simp
  ultimately show ?thesis using u(3) by (simp add: slice_ok_def)
qed

text \<open>The slices of a pipeline: each reads the next one.\<close>

fun chained :: "'v slices \<Rightarrow> nat list \<Rightarrow> bool" where
  "chained sl (x # y # ys) \<longleftrightarrow> (\<exists>d. slDeps (sl x) = [d] \<and> \<not> dpShuffle d \<and> \<not> materialized (sl y) \<and> dpSlice d = y) \<and> result_of sl y = None \<and> chained sl (y # ys)"
| "chained sl _ \<longleftrightarrow> True"

lemma pipeline_spec:
  assumes "slices_ok h0 n0 sl N" and "s < N"
  shows "\<exists>ss. pipeline sl s = Some ss \<and> (if result_of sl s \<noteq> None then ss = []
    else ss \<noteq> [] \<and> hd ss = s \<and> chained sl ss \<and> (\<forall>x\<in>set ss. x \<le> s \<and> slNumShard (sl x) = slNumShard (sl s)))"
  using assms(2)
proof (induction s rule: less_induct)
  case (less s)
  obtain u where u: "Unwrap sl s = Some u" using Unwrap_spec [OF assms(1) less.prems] by blast
  show ?case
  proof (cases "result_of sl s")
    case (Some ts)
    with u show ?thesis by (subst pipeline.simps) (simp add: result_of_def)
  next
    case None
    have stop: ?thesis if "pipeline sl s = Some [s]" using that None by simp
    show ?thesis
    proof (cases "\<exists>d. slDeps (sl s) = [d] \<and> \<not> dpShuffle d \<and> \<not> materialized (sl (dpSlice d))")
      case False
      have "pipeline sl s = Some [s]"
        using u None False by (subst pipeline.simps) (auto simp: result_of_def split: list.splits)
      then show ?thesis by (rule stop)
    next
      case True
      then obtain d where d: "slDeps (sl s) = [d]" "\<not> dpShuffle d" "\<not> materialized (sl (dpSlice d))" by blast
      note dp = slice_ok_dep [OF slices_okD [OF assms(1) less.prems], of d]
      have dd: "dpSlice d < s" "slNumShard (sl (dpSlice d)) = slNumShard (sl s)" using dp d by auto
      from less.IH [OF dd(1)] dd(1) less.prems obtain ss where ss: "pipeline sl (dpSlice d) = Some ss"
        "if result_of sl (dpSlice d) \<noteq> None then ss = [] else ss \<noteq> [] \<and> hd ss = dpSlice d \<and> chained sl ss \<and>
           (\<forall>x\<in>set ss. x \<le> dpSlice d \<and> slNumShard (sl x) = slNumShard (sl (dpSlice d)))" by auto
      have e: "pipeline sl s = Some (s # ss)"
        using u None d ss(1) by (subst pipeline.simps) (simp add: result_of_def)
      show ?thesis
      proof (cases "result_of sl (dpSlice d)")
        case (Some ts)
        then show ?thesis using e ss(2) by (intro stop) simp
      next
        case r: None
        then obtain y ys where y: "ss = y # ys" "y = dpSlice d" using ss(2) by (cases ss) auto
        then show ?thesis using e ss(2) r None d dd by auto
      qed
    qed
  qed
qed

section \<open>Steps of the compiler on its heap\<close>

lemma upd_task_simps [simp]:
  "namer (upd_task t f c) = namer c" "invIndex (upd_task t f c) = invIndex c" "machineCombiners (upd_task t f c) = machineCombiners c"
  "memo (upd_task t f c) = memo c" "env (upd_task t f c) = env c" "nextTask (upd_task t f c) = nextTask c"
  "heap (upd_task t f c) = (heap c)(t := f (heap c t))"
  by (simp_all add: upd_task_def)

text \<open>\<open>touched ts c c'\<close>: only the dependencies, the closure and the list of slices of the tasks \<open>ts\<close> have changed.\<close>

definition touched :: "nat set \<Rightarrow> 'v compiler \<Rightarrow> 'v compiler \<Rightarrow> bool" where
  "touched A c c' \<longleftrightarrow> namer c' = namer c \<and> invIndex c' = invIndex c \<and> machineCombiners c' = machineCombiners c \<and> memo c' = memo c \<and>
     nextTask c' = nextTask c \<and> (\<forall>t. t \<notin> A \<longrightarrow> heap c' t = heap c t) \<and>
     (\<forall>t\<in>A. \<exists>ds dd ss. heap c' t = (heap c t)\<lparr>tDeps := ds, ctDo := dd, ctSlices := ss\<rparr>)"

lemma touched_refl: "touched A c c"
proof -
  have "heap c t = (heap c t)\<lparr>tDeps := tDeps (heap c t), ctDo := ctDo (heap c t), ctSlices := ctSlices (heap c t)\<rparr>" for t by simp
  then show ?thesis unfolding touched_def by blast
qed

lemma touched_trans:
  assumes "touched A c c'" and "touched A c' c''"
  shows "touched A c c''"
proof -
  have "\<exists>ds dd ss. heap c'' t = (heap c t)\<lparr>tDeps := ds, ctDo := dd, ctSlices := ss\<rparr>" if t: "t \<in> A" for t
  proof -
    from assms(1) t obtain ds dd ss where 1: "heap c' t = (heap c t)\<lparr>tDeps := ds, ctDo := dd, ctSlices := ss\<rparr>" unfolding touched_def by blast
    from assms(2) t obtain ds' dd' ss' where "heap c'' t = (heap c' t)\<lparr>tDeps := ds', ctDo := dd', ctSlices := ss'\<rparr>" unfolding touched_def by blast
    with 1 have "heap c'' t = (heap c t)\<lparr>tDeps := ds', ctDo := dd', ctSlices := ss'\<rparr>" by simp
    then show ?thesis by blast
  qed
  with assms show ?thesis by (simp add: touched_def)
qed

lemma touched_upd:
  assumes "t \<in> A" and "\<exists>ds dd ss. f (heap c t) = (heap c t)\<lparr>tDeps := ds, ctDo := dd, ctSlices := ss\<rparr>"
  shows "touched A c (upd_task t f c)"
proof -
  have "\<exists>ds dd ss. heap (upd_task t f c) u = (heap c u)\<lparr>tDeps := ds, ctDo := dd, ctSlices := ss\<rparr>" if "u \<in> A" for u
  proof (cases "u = t")
    case False
    then show ?thesis using touched_refl [of A c] that by (simp add: touched_def)
  qed (use assms(2) in simp)
  with assms(1) show ?thesis by (auto simp: touched_def)
qed

lemma touched_fold: "(\<And>x c. x \<in> set xs \<Longrightarrow> touched A c (f x c)) \<Longrightarrow> touched A c (fold f xs c)"
  by (induction xs arbitrary: c) (auto intro: touched_refl touched_trans)

lemma touched_same:
  assumes "touched A c c'"
  shows "tName (heap c' t) = tName (heap c t)" and "tGroup (heap c' t) = tGroup (heap c t)" and "ctType (heap c' t) = ctType (heap c t)"
    and "ctPartitioner (heap c' t) = ctPartitioner (heap c t)" and "ctNumPartition (heap c' t) = ctNumPartition (heap c t)"
    and "ctCombiner (heap c' t) = ctCombiner (heap c t)"
proof -
  consider "t \<notin> A" "heap c' t = heap c t" | ds dd ss where "heap c' t = (heap c t)\<lparr>tDeps := ds, ctDo := dd, ctSlices := ss\<rparr>"
    using assms unfolding touched_def by blast
  then show "tName (heap c' t) = tName (heap c t)" "tGroup (heap c' t) = tGroup (heap c t)" "ctType (heap c' t) = ctType (heap c t)"
    "ctPartitioner (heap c' t) = ctPartitioner (heap c t)" "ctNumPartition (heap c' t) = ctNumPartition (heap c t)"
    "ctCombiner (heap c' t) = ctCombiner (heap c t)" by (cases; simp)+
qed

lemma touched_add_dep: "t \<in> A \<Longrightarrow> touched A c (add_dep (t, d) c)"
  unfolding add_dep_def prod.case
  by (rule touched_upd) (simp, intro exI [of _ "tDeps (heap c t) @ [d]"] exI [of _ "ctDo (heap c t)"] exI [of _ "ctSlices (heap c t)"], simp)

lemma touched_set_do: "t \<in> A \<Longrightarrow> touched A c (set_do x (i, t) c)"
  unfolding set_do_def prod.case
proof (split if_split, intro conjI impI)
  assume t: "t \<in> A"
  show "touched A c (upd_task t (\<lambda>y. y\<lparr>ctDo := Some (DoCache x i), tDeps := []\<rparr>) c)"
    by (rule touched_upd [OF t]) (intro exI [of _ "[]"] exI [of _ "Some (DoCache x i)"] exI [of _ "ctSlices (heap c t)"], simp)
  show "touched A c (upd_task t (\<lambda>y. y\<lparr>ctDo := Some (case ctDo y of None \<Rightarrow> DoReader x i | Some prev \<Rightarrow> DoPipe x i prev)\<rparr>) c)"
    by (rule touched_upd [OF t]) (intro exI [of _ "tDeps (heap c t)"] exI [of _ "Some (case ctDo (heap c t) of None \<Rightarrow> DoReader x i | Some prev \<Rightarrow> DoPipe x i prev)"]
      exI [of _ "ctSlices (heap c t)"], simp)
qed

lemma touched_slices: "t \<in> A \<Longrightarrow> touched A c (upd_task t (\<lambda>x. x\<lparr>ctSlices := ss\<rparr>) c)"
  by (rule touched_upd) (simp, intro exI [of _ "tDeps (heap c t)"] exI [of _ "ctDo (heap c t)"] exI [of _ ss], simp)

subsection \<open>The loops over the tasks of a slice\<close>

lemma add_dep_other: "t \<noteq> u \<Longrightarrow> heap (add_dep (t, d) c) u = heap c u"
  by (simp add: add_dep_def)

lemma fold_add_dep:
  assumes "distinct (map fst tds)"
  shows "(\<forall>(t, d)\<in>set tds. heap (fold add_dep tds c) t = (heap c t)\<lparr>tDeps := tDeps (heap c t) @ [d]\<rparr>) \<and>
    (\<forall>t. t \<notin> fst ` set tds \<longrightarrow> heap (fold add_dep tds c) t = heap c t)"
  using assms
proof (induction tds arbitrary: c)
  case (Cons x tds)
  obtain t d where x: "x = (t, d)" by (cases x)
  let ?c = "add_dep (t, d) c"
  have IH: "\<forall>(t, d)\<in>set tds. heap (fold add_dep tds ?c) t = (heap ?c t)\<lparr>tDeps := tDeps (heap ?c t) @ [d]\<rparr>"
    "\<forall>t. t \<notin> fst ` set tds \<longrightarrow> heap (fold add_dep tds ?c) t = heap ?c t"
    using Cons.IH [of ?c] Cons.prems by auto
  have t: "t \<notin> fst ` set tds" using Cons.prems x by auto
  have "heap (fold add_dep tds ?c) u = (heap c u)\<lparr>tDeps := tDeps (heap c u) @ [e]\<rparr>" if "(u, e) \<in> set tds" for u e
  proof -
    have "u \<noteq> t" using that t by force
    then show ?thesis using IH(1) that add_dep_other [of t u d c] by auto
  qed
  moreover have "heap (fold add_dep tds ?c) t = (heap c t)\<lparr>tDeps := tDeps (heap c t) @ [d]\<rparr>" using IH(2) t by (simp add: add_dep_def)
  ultimately show ?case using x IH(2) by (auto simp: add_dep_other)
qed simp

lemma set_do_other: "t \<noteq> u \<Longrightarrow> heap (set_do x (i, t) c) u = heap c u" "env (set_do x (i, t) c) = env c"
  by (simp_all add: set_do_def)

lemma set_do_cong: "heap c t = heap c' t \<Longrightarrow> env c = env c' \<Longrightarrow> heap (set_do x (i, t) c) t = heap (set_do x (i, t) c') t"
  by (simp add: set_do_def)

lemma fold_set_do:
  assumes "distinct ts"
  shows "(\<forall>i<length ts. heap (fold (set_do x) (enumerate n ts) c) (ts ! i) = heap (set_do x (n + i, ts ! i) c) (ts ! i)) \<and>
    (\<forall>t. t \<notin> set ts \<longrightarrow> heap (fold (set_do x) (enumerate n ts) c) t = heap c t) \<and> env (fold (set_do x) (enumerate n ts) c) = env c"
  using assms
proof (induction ts arbitrary: n c)
  case (Cons t ts)
  let ?c = "set_do x (n, t) c"
  have IH: "\<forall>i<length ts. heap (fold (set_do x) (enumerate (Suc n) ts) ?c) (ts ! i) = heap (set_do x (Suc n + i, ts ! i) ?c) (ts ! i)"
    "\<forall>t. t \<notin> set ts \<longrightarrow> heap (fold (set_do x) (enumerate (Suc n) ts) ?c) t = heap ?c t"
    "env (fold (set_do x) (enumerate (Suc n) ts) ?c) = env c"
    using Cons.IH [of "Suc n" ?c] Cons.prems set_do_other by auto
  have "heap (set_do x (Suc n + i, ts ! i) ?c) (ts ! i) = heap (set_do x (n + Suc i, ts ! i) c) (ts ! i)" if "i < length ts" for i
  proof -
    have "t \<noteq> ts ! i" using Cons.prems that by auto
    then show ?thesis using set_do_cong [of ?c "ts ! i" c] by (simp add: set_do_other)
  qed
  moreover have "t \<notin> set ts" using Cons.prems by simp
  ultimately show ?case using IH by (auto simp: nth_Cons' set_do_other gr0_conv_Suc)
qed simp

lemma mark_loop_spec:
  assumes "\<forall>(i, t)\<in>set sts. \<exists>b. fsc_IsCached fc i = Ret b" and "Writable (env c)"
  shows "\<exists>e. mark_loop fc sts c = Ret (c\<lparr>env := e\<rparr>) \<and> Writable e \<and>
    (\<forall>nm. TaskCached e nm \<longleftrightarrow> TaskCached (env c) nm \<or> (\<exists>(i, t)\<in>set sts. nm = tName (heap c t) \<and> fsc_IsCached fc i = Ret True))"
  using assms
proof (induction fc sts c rule: mark_loop.induct)
  case (1 fc c)
  then show ?case by (intro exI [of _ "env c"]) simp
next
  case (2 fc i t sts c)
  from 2(3) obtain b where b: "fsc_IsCached fc i = Ret b" by auto
  show ?case
  proof (cases b)
    case True
    let ?e = "(env c)\<lparr>TaskCached := (TaskCached (env c))(tName (heap c t) := True)\<rparr>"
    have "MarkCached (tName (heap c t)) (env c) = Ret ?e" using 2(4) by (simp add: MarkCached_def)
    with 2(1) [of True ?e] 2(3,4) b True obtain e where
      "mark_loop fc ((i, t) # sts) c = Ret (c\<lparr>env := e\<rparr>)" "Writable e"
      "\<forall>nm. TaskCached e nm \<longleftrightarrow> TaskCached ?e nm \<or> (\<exists>(i, t)\<in>set sts. nm = tName (heap c t) \<and> fsc_IsCached fc i = Ret True)" by auto
    then show ?thesis using b True by (intro exI [of _ e]) auto
  next
    case False
    with 2(2) [of False] 2(3,4) b obtain e where
      "mark_loop fc ((i, t) # sts) c = Ret (c\<lparr>env := e\<rparr>)" "Writable e"
      "\<forall>nm. TaskCached e nm \<longleftrightarrow> TaskCached (env c) nm \<or> (\<exists>(i, t)\<in>set sts. nm = tName (heap c t) \<and> fsc_IsCached fc i = Ret True)" by auto
    then show ?thesis using b False by (intro exI [of _ e]) auto
  qed
qed

definition push_do :: "nat \<Rightarrow> nat \<Rightarrow> taskDo option \<Rightarrow> taskDo option" where
  "push_do i x d = Some (case d of None \<Rightarrow> DoReader x i | Some prev \<Rightarrow> DoPipe x i prev)"

definition cached_in :: "'v slices \<Rightarrow> nat list \<Rightarrow> nat \<Rightarrow> bool" where
  "cached_in sl ss i \<longleftrightarrow> (\<exists>x\<in>set ss. fsc_IsCached (slice_cache sl x) i = Ret True)"

definition do_result :: "nat list \<Rightarrow> nat \<Rightarrow> bool \<Rightarrow> 'v CTask \<Rightarrow> 'v CTask \<Rightarrow> bool" where
  "do_result L i cached x x' \<longleftrightarrow>
     (if cached then ctDo x' = Some (DoCache (last L) i) \<and> tDeps x' = [] else ctDo x' = fold (push_do i) L (ctDo x) \<and> tDeps x' = tDeps x)"

lemma touched_env: "touched A c (c\<lparr>env := e\<rparr>)"
  using touched_refl [of A c] by (simp add: touched_def)

lemma compile_dos_step:
  assumes "distinct ts" and "Writable (env c)" and "\<forall>i<length ts. \<exists>b. fsc_IsCached (slice_cache sl x) i = Ret b"
  shows "\<exists>c1. compile_dos sl ts (x # L) c = compile_dos sl ts L c1 \<and> touched (set ts) c c1 \<and> Writable (env c1) \<and>
    (\<forall>nm. TaskCached (env c1) nm \<longleftrightarrow> TaskCached (env c) nm \<or> (\<exists>i<length ts. nm = tName (heap c (ts ! i)) \<and> fsc_IsCached (slice_cache sl x) i = Ret True)) \<and>
    (\<forall>i<length ts. do_result [x] i (TaskCached (env c1) (tName (heap c (ts ! i)))) (heap c (ts ! i)) (heap c1 (ts ! i)))"
proof -
  have ix: "(\<exists>(i, t)\<in>set (enumerate 0 ts). P i t) \<longleftrightarrow> (\<exists>i<length ts. P i (ts ! i))" for P
    by (auto simp: in_set_enumerate_eq)
  have "\<forall>(i, t)\<in>set (enumerate 0 ts). \<exists>b. fsc_IsCached (slice_cache sl x) i = Ret b" using assms(3) by (auto simp: in_set_enumerate_eq)
  from mark_loop_spec [OF this assms(2)] obtain e where e: "mark_loop (slice_cache sl x) (enumerate 0 ts) c = Ret (c\<lparr>env := e\<rparr>)" "Writable e"
    "\<forall>nm. TaskCached e nm \<longleftrightarrow> TaskCached (env c) nm \<or> (\<exists>i<length ts. nm = tName (heap c (ts ! i)) \<and> fsc_IsCached (slice_cache sl x) i = Ret True)"
    unfolding ix by blast
  let ?c1 = "fold (set_do x) (enumerate 0 ts) (c\<lparr>env := e\<rparr>)"
  note fs = fold_set_do [OF assms(1), of x 0 "c\<lparr>env := e\<rparr>"]
  have "touched (set ts) c ?c1"
    by (rule touched_trans [OF touched_env touched_fold]) (auto simp: in_set_enumerate_eq intro!: touched_set_do)
  moreover have "env ?c1 = e" using fs by simp
  moreover have "do_result [x] i (TaskCached e (tName (heap c (ts ! i)))) (heap c (ts ! i)) (heap ?c1 (ts ! i))" if "i < length ts" for i
    using fs that by (simp add: do_result_def set_do_def env_IsCached_def push_do_def)
  moreover have "compile_dos sl ts (x # L) c = compile_dos sl ts L ?c1" using assms(2) e(1) by simp
  ultimately show ?thesis using e(2,3) by (intro exI [of _ ?c1]) simp
qed

lemma compile_dos_spec:
  assumes "distinct ts" and "Writable (env c)" and "\<forall>x\<in>set L. \<forall>i<length ts. \<exists>b. fsc_IsCached (slice_cache sl x) i = Ret b"
  shows "\<exists>c'. compile_dos sl ts L c = Ret c' \<and> touched (set ts) c c' \<and> Writable (env c') \<and>
    (\<forall>nm. TaskCached (env c') nm \<longleftrightarrow> TaskCached (env c) nm \<or> (\<exists>i<length ts. nm = tName (heap c (ts ! i)) \<and> cached_in sl L i)) \<and>
    (L \<noteq> [] \<longrightarrow> (\<forall>i<length ts. do_result L i (TaskCached (env c') (tName (heap c (ts ! i)))) (heap c (ts ! i)) (heap c' (ts ! i))))"
  using assms(2,3)
proof (induction L arbitrary: c)
  case Nil
  then show ?case by (auto intro: touched_refl simp: cached_in_def)
next
  case (Cons x L)
  from compile_dos_step [OF assms(1) Cons.prems(1), of sl x L] Cons.prems(2) obtain c1 where
    c1: "compile_dos sl ts (x # L) c = compile_dos sl ts L c1" "touched (set ts) c c1" "Writable (env c1)"
      "\<forall>nm. TaskCached (env c1) nm \<longleftrightarrow> TaskCached (env c) nm \<or> (\<exists>i<length ts. nm = tName (heap c (ts ! i)) \<and> fsc_IsCached (slice_cache sl x) i = Ret True)"
      "\<forall>i<length ts. do_result [x] i (TaskCached (env c1) (tName (heap c (ts ! i)))) (heap c (ts ! i)) (heap c1 (ts ! i))" by auto
  from Cons.IH [OF c1(3)] Cons.prems(2) obtain c' where
    c': "compile_dos sl ts L c1 = Ret c'" "touched (set ts) c1 c'" "Writable (env c')"
      "\<forall>nm. TaskCached (env c') nm \<longleftrightarrow> TaskCached (env c1) nm \<or> (\<exists>i<length ts. nm = tName (heap c1 (ts ! i)) \<and> cached_in sl L i)"
      "L \<noteq> [] \<longrightarrow> (\<forall>i<length ts. do_result L i (TaskCached (env c') (tName (heap c1 (ts ! i)))) (heap c1 (ts ! i)) (heap c' (ts ! i)))" by auto
  note same = touched_same(1) [OF c1(2)]
  have "do_result (x # L) i (TaskCached (env c') (tName (heap c (ts ! i)))) (heap c (ts ! i)) (heap c' (ts ! i))" if i: "i < length ts" for i
  proof (cases "L = []")
    case True
    then show ?thesis using c'(1) c1(5) i by simp
  next
    case False
    then show ?thesis
      using c'(4,5) c1(5) i unfolding do_result_def same by (fastforce split: if_splits)
  qed
  moreover have "TaskCached (env c') nm \<longleftrightarrow> TaskCached (env c) nm \<or> (\<exists>i<length ts. nm = tName (heap c (ts ! i)) \<and> cached_in sl (x # L) i)" for nm
    using c'(4) c1(4) unfolding same cached_in_def by auto
  ultimately show ?case using c1(1,2) c'(1-3) by (intro exI [of _ c']) (auto intro: touched_trans)
qed

section \<open>The invariant of the compiler\<close>

text \<open>
  \<open>compiled_for n0 sl c X s part ts\<close>: the tasks \<open>ts\<close> compute the slice \<open>s\<close> with partitioner \<open>part\<close>, one
  task per shard, and none of them is under construction (\<open>X\<close> are the tasks under construction).  The
  tasks of a result are reused as they are if there is no shuffle.
\<close>

definition compiled_for :: "nat \<Rightarrow> 'v slices \<Rightarrow> 'v compiler \<Rightarrow> nat set \<Rightarrow> nat \<Rightarrow> 'v partitioner \<Rightarrow> nat list \<Rightarrow> bool" where
  "compiled_for n0 sl c X s part ts \<longleftrightarrow>
     length ts = nat (slNumShard (sl s)) \<and> (\<forall>t\<in>set ts. t < nextTask c \<and> t \<notin> X) \<and>
     (if result_of sl s \<noteq> None \<and> pNum part = 0 then result_of sl s = Some ts
      else distinct ts \<and> (\<forall>i<length ts.
        n0 \<le> ts ! i \<and> ctType (heap c (ts ! i)) = s \<and> nShard (tName (heap c (ts ! i))) = i \<and>
        tGroup (heap c (ts ! i)) = (if pNum part = 0 then [] else ts) \<and>
        (result_of sl s = None \<longrightarrow>
           ctPartitioner (heap c (ts ! i)) = Some (p_Partitioner part) \<and> ctNumPartition (heap c (ts ! i)) = p_NumPartition part \<and>
           (if sfunc_IsNil (pComb part) then sfunc_IsNil (ctCombiner (heap c (ts ! i))) else ctCombiner (heap c (ts ! i)) = pComb part))))"

text \<open>The dependency \<open>td\<close> of shard \<open>i\<close> of the slice \<open>s\<close> on \<open>d\<close>; \<open>ls\<close> is the last slice of its pipeline.\<close>

definition dep_shape :: "nat \<Rightarrow> 'v slices \<Rightarrow> 'v compiler \<Rightarrow> nat set \<Rightarrow> nat \<Rightarrow> nat \<Rightarrow> nat \<Rightarrow> 'v Dep \<Rightarrow> TaskDep \<Rightarrow> bool" where
  "dep_shape n0 sl c X s ls i d td \<longleftrightarrow> dExpand td = dpExpand d \<and> (\<exists>dts.
     if dpShuffle d
     then dHead td = Some (hd dts) \<and> dPartition td = i \<and>
       (\<exists>key. compiled_for n0 sl c X (dpSlice d) \<lparr>pNum = slNumShard (sl s), pPart = dpPartitioner d, pComb = slCombiner (sl ls), pKey = key\<rparr> dts)
     else dHead td = Some (dts ! i) \<and> dPartition td = 0 \<and> compiled_for n0 sl c X (dpSlice d) noPart dts)"

definition pipe_shape :: "nat \<Rightarrow> 'v slices \<Rightarrow> 'v compiler \<Rightarrow> nat set \<Rightarrow> nat \<Rightarrow> nat \<Rightarrow> 'v CTask \<Rightarrow> bool" where
  "pipe_shape n0 sl c X s i x \<longleftrightarrow> (\<exists>ss. pipeline sl s = Some ss \<and>
     (ctDo x = Some (DoCache s i) \<and> tDeps x = [] \<and> cached_in sl ss i \<or>
      ctDo x = fold (push_do i) (rev ss) None \<and> \<not> cached_in sl ss i \<and> list_all2 (dep_shape n0 sl c X s (last ss) i) (slDeps (sl (last ss))) (tDeps x)))"

definition task_shape :: "nat \<Rightarrow> 'v slices \<Rightarrow> 'v compiler \<Rightarrow> nat set \<Rightarrow> nat \<Rightarrow> nat \<Rightarrow> 'v CTask \<Rightarrow> bool" where
  "task_shape n0 sl c X s i x \<longleftrightarrow> (case result_of sl s of
     Some tks \<Rightarrow> ctDo x = Some DoFirst \<and> tDeps x = [\<lparr>dHead = Some (tks ! i), dPartition = 0, dExpand = False, dCombineKey = []\<rparr>] \<and>
       ctNumPartition x = 0 \<and> ctPartitioner x = None
   | None \<Rightarrow> pipe_shape n0 sl c X s i x)"

definition compiled_task :: "nat \<Rightarrow> nat \<Rightarrow> 'v slices \<Rightarrow> 'v compiler \<Rightarrow> nat set \<Rightarrow> nat \<Rightarrow> bool" where
  "compiled_task N n0 sl c X t \<longleftrightarrow> ctType (heap c t) < N \<and>
     (\<exists>part ts. compiled_for n0 sl c X (ctType (heap c t)) part ts \<and> nShard (tName (heap c t)) < length ts \<and> ts ! nShard (tName (heap c t)) = t) \<and>
     task_shape n0 sl c X (ctType (heap c t)) (nShard (tName (heap c t))) (heap c t)"

definition names_ok :: "nat \<Rightarrow> 'v compiler \<Rightarrow> bool" where
  "names_ok n0 c \<longleftrightarrow> inj_on (\<lambda>t. tName (heap c t)) {n0 ..< nextTask c} \<and>
     (\<forall>t. n0 \<le> t \<and> t < nextTask c \<longrightarrow> nInvIndex (tName (heap c t)) = invIndex c \<and>
       (\<exists>b j. base_ok b \<and> j < namer c b \<and> nOp (tName (heap c t)) = mint b j))"

definition marks_ok :: "nat \<Rightarrow> 'v slices \<Rightarrow> 'v compiler \<Rightarrow> bool" where
  "marks_ok n0 sl c \<longleftrightarrow> Writable (env c) \<and> (\<forall>nm. TaskCached (env c) nm \<longrightarrow> (\<exists>t ss. n0 \<le> t \<and> t < nextTask c \<and> tName (heap c t) = nm \<and>
     pipeline sl (ctType (heap c t)) = Some ss \<and> cached_in sl ss (nShard nm)))"

definition memo_ok :: "nat \<Rightarrow> 'v slices \<Rightarrow> 'v compiler \<Rightarrow> nat set \<Rightarrow> bool" where
  "memo_ok n0 sl c X \<longleftrightarrow> (\<forall>s p ts. memo c (s, p) = Some ts \<longrightarrow>
     (\<exists>key comb. sfunc_IsNil comb \<and> compiled_for n0 sl c X s \<lparr>pNum = p, pPart = None, pComb = comb, pKey = key\<rparr> ts))"

definition tasks_inv :: "(nat \<Rightarrow> 'v CTask) \<Rightarrow> nat \<Rightarrow> nat \<Rightarrow> 'v slices \<Rightarrow> 'v compiler \<Rightarrow> nat set \<Rightarrow> bool" where
  "tasks_inv h0 n0 N sl c X \<longleftrightarrow> n0 \<le> nextTask c \<and> (\<forall>t. t < n0 \<or> nextTask c \<le> t \<longrightarrow> heap c t = h0 t) \<and> X \<subseteq> {n0 ..< nextTask c} \<and>
     (\<forall>t. n0 \<le> t \<and> t < nextTask c \<and> t \<notin> X \<longrightarrow> compiled_task N n0 sl c X t) \<and> (\<forall>t\<in>X. tGroup (heap c t) = [])"

definition cinv :: "(nat \<Rightarrow> 'v CTask) \<Rightarrow> nat \<Rightarrow> nat \<Rightarrow> 'v slices \<Rightarrow> 'v compiler \<Rightarrow> nat set \<Rightarrow> bool" where
  "cinv h0 n0 N sl c X \<longleftrightarrow> tasks_inv h0 n0 N sl c X \<and> memo_ok n0 sl c X \<and> names_ok n0 c \<and> marks_ok n0 sl c"

text \<open>What a step with tasks \<open>X\<close> under construction leaves as it is.\<close>

definition ext :: "'v compiler \<Rightarrow> nat set \<Rightarrow> 'v compiler \<Rightarrow> nat set \<Rightarrow> bool" where
  "ext c X c' X' \<longleftrightarrow> nextTask c \<le> nextTask c' \<and> (\<forall>t<nextTask c. t \<notin> X \<longrightarrow> heap c' t = heap c t) \<and> (\<forall>t\<in>X'. t < nextTask c \<longrightarrow> t \<in> X)"

lemma extD: "ext c X c' X' \<Longrightarrow> t < nextTask c \<Longrightarrow> t \<notin> X \<Longrightarrow> t < nextTask c' \<and> t \<notin> X' \<and> heap c' t = heap c t"
  unfolding ext_def by auto

lemma ext_trans: "ext c X c' X' \<Longrightarrow> ext c' X' c'' X'' \<Longrightarrow> ext c X c'' X''"
  unfolding ext_def by auto

lemma compiled_for_ext:
  assumes "compiled_for n0 sl c X s part ts" and "ext c X c' X'"
  shows "compiled_for n0 sl c' X' s part ts"
proof -
  have "t < nextTask c' \<and> t \<notin> X' \<and> heap c' t = heap c t" if "t \<in> set ts" for t
    using assms(1) extD [OF assms(2)] that unfolding compiled_for_def by blast
  then have "\<forall>t\<in>set ts. t < nextTask c' \<and> t \<notin> X'" "\<And>i. i < length ts \<Longrightarrow> heap c' (ts ! i) = heap c (ts ! i)" by auto
  with assms(1) show ?thesis unfolding compiled_for_def by simp
qed

lemma dep_shape_ext:
  assumes "dep_shape n0 sl c X s ls i d td" and "ext c X c' X'"
  shows "dep_shape n0 sl c' X' s ls i d td"
proof -
  note e = compiled_for_ext [OF _ assms(2)]
  from assms(1) show ?thesis unfolding dep_shape_def by (auto split: if_splits intro: e)
qed

lemma task_shape_ext:
  assumes "task_shape n0 sl c X s i x" and "ext c X c' X'"
  shows "task_shape n0 sl c' X' s i x"
proof -
  note e = dep_shape_ext [OF _ assms(2)]
  have "pipe_shape n0 sl c X s i x \<Longrightarrow> pipe_shape n0 sl c' X' s i x"
    unfolding pipe_shape_def by (auto elim!: list.rel_mono_strong intro: e)
  with assms(1) show ?thesis unfolding task_shape_def by (auto split: option.splits)
qed

lemma compiled_task_ext:
  assumes "compiled_task N n0 sl c X t" and "ext c X c' X'" and "t < nextTask c" and "t \<notin> X"
  shows "compiled_task N n0 sl c' X' t"
proof -
  have "heap c' t = heap c t" using extD [OF assms(2-4)] by simp
  with assms(1) show ?thesis
    using compiled_for_ext [OF _ assms(2)] task_shape_ext [OF _ assms(2)] unfolding compiled_task_def by fastforce
qed

lemma memo_ok_ext: "memo_ok n0 sl c X \<Longrightarrow> ext c X c' X' \<Longrightarrow> memo c' = memo c \<Longrightarrow> memo_ok n0 sl c' X'"
  unfolding memo_ok_def using compiled_for_ext by metis

lemma names_ok_same:
  assumes "names_ok n0 c" and "nextTask c' = nextTask c" and "namer c' = namer c" and "invIndex c' = invIndex c" and "\<And>t. tName (heap c' t) = tName (heap c t)"
  shows "names_ok n0 c'"
  using assms(1) unfolding names_ok_def assms(2-5) .

lemma marks_ok_same:
  assumes "marks_ok n0 sl c" and "nextTask c' = nextTask c" and "env c' = env c" and "\<And>t. tName (heap c' t) = tName (heap c t)" and "\<And>t. ctType (heap c' t) = ctType (heap c t)"
  shows "marks_ok n0 sl c'"
  using assms(1) unfolding marks_ok_def assms(2-5) .

lemma tasks_inv_same:
  assumes "tasks_inv h0 n0 N sl c X" and "ext c X c' X" and "nextTask c' = nextTask c" and "\<forall>t\<ge>nextTask c. heap c' t = heap c t" and "\<And>t. tGroup (heap c' t) = tGroup (heap c t)"
  shows "tasks_inv h0 n0 N sl c' X"
proof -
  have "t < n0 \<Longrightarrow> heap c' t = heap c t" for t using assms(1) extD [OF assms(2), of t] unfolding tasks_inv_def by force
  then show ?thesis using assms(1,4) compiled_task_ext [OF _ assms(2)] unfolding tasks_inv_def assms(3,5) by auto
qed

lemma cinv_touched:
  assumes "cinv h0 n0 N sl c X" and "touched A c c'" and "A \<subseteq> X" and "marks_ok n0 sl c'"
  shows "cinv h0 n0 N sl c' X" and "ext c X c' X"
proof -
  show e: "ext c X c' X" using assms(2,3) unfolding ext_def touched_def by auto
  have "nextTask c' = nextTask c" "namer c' = namer c" "invIndex c' = invIndex c" "memo c' = memo c" using assms(2) unfolding touched_def by auto
  moreover have "\<forall>t\<ge>nextTask c. heap c' t = heap c t"
  proof (intro allI impI)
    fix t assume "nextTask c \<le> t"
    then have "t \<notin> A" using assms(1,3) by (auto simp: cinv_def tasks_inv_def)
    then show "heap c' t = heap c t" using assms(2) by (simp add: touched_def)
  qed
  ultimately show "cinv h0 n0 N sl c' X"
    using assms(1,4) tasks_inv_same [OF _ e _ _ touched_same(2) [OF assms(2)]] memo_ok_ext [OF _ e] names_ok_same [of n0 c c', OF _ _ _ _ touched_same(1) [OF assms(2)]]
    unfolding cinv_def by simp
qed

lemma cinv_touched_env:
  assumes "cinv h0 n0 N sl c X" and "touched A c c'" and "A \<subseteq> X" and "env c' = env c"
  shows "cinv h0 n0 N sl c' X" and "ext c X c' X"
proof -
  have "marks_ok n0 sl c'"
    using assms(1,2,4) by (intro marks_ok_same [of n0 sl c, OF _ _ _ touched_same(1,3) [OF assms(2)]]) (simp_all add: cinv_def touched_def)
  then show "cinv h0 n0 N sl c' X" "ext c X c' X" using cinv_touched [OF assms(1-3)] by auto
qed

lemma cinv_memo:
  assumes "cinv h0 n0 N sl c X" and "compiled_for n0 sl c X s \<lparr>pNum = p, pPart = None, pComb = comb, pKey = key\<rparr> ts" and "sfunc_IsNil comb"
  shows "cinv h0 n0 N sl (c\<lparr>memo := (memo c)((s, p) \<mapsto> ts)\<rparr>) X"
proof -
  let ?c = "c\<lparr>memo := (memo c)((s, p) \<mapsto> ts)\<rparr>"
  have e: "ext c X ?c X" by (simp add: ext_def)
  have "memo_ok n0 sl ?c X"
    unfolding memo_ok_def
  proof (intro allI impI)
    fix s' p' ts' assume m: "memo ?c (s', p') = Some ts'"
    obtain key' comb' where kc: "sfunc_IsNil comb'" "compiled_for n0 sl c X s' \<lparr>pNum = p', pPart = None, pComb = comb', pKey = key'\<rparr> ts'"
    proof (cases "(s', p') = (s, p)")
      case True
      with m assms(2,3) show ?thesis by (intro that) auto
    next
      case False
      then have "memo c (s', p') = Some ts'" using m by (auto split: if_splits)
      with assms(1) show ?thesis using that unfolding cinv_def memo_ok_def by blast
    qed
    show "\<exists>key comb. sfunc_IsNil comb \<and> compiled_for n0 sl ?c X s' \<lparr>pNum = p', pPart = None, pComb = comb, pKey = key\<rparr> ts'"
      by (rule exI [of _ key'], rule exI [of _ comb']) (rule conjI [OF kc(1) compiled_for_ext [OF kc(2) e]])
  qed
  moreover have ci: "tasks_inv h0 n0 N sl c X" "names_ok n0 c" "marks_ok n0 sl c" using assms(1) by (simp_all add: cinv_def)
  have "names_ok n0 ?c" by (rule names_ok_same [OF ci(2)]) simp_all
  moreover have "marks_ok n0 sl ?c" by (rule marks_ok_same [OF ci(3)]) simp_all
  moreover have "tasks_inv h0 n0 N sl ?c X" by (rule tasks_inv_same [OF ci(1) e]) simp_all
  ultimately show ?thesis unfolding cinv_def by blast
qed

text \<open>Allocation of the tasks of a slice: they are under construction.\<close>

definition named_for :: "'v compiler \<Rightarrow> string \<Rightarrow> 'v CTask list \<Rightarrow> bool" where
  "named_for c b new \<longleftrightarrow> base_ok b \<and> (\<forall>i<length new. tGroup (new ! i) = [] \<and>
     tName (new ! i) = \<lparr>nInvIndex = invIndex c, nOp = mint b (namer c b), nShard = i, nNumShard = length new\<rparr>)"

lemma alloc_spec:
  assumes "alloc new (c\<lparr>namer := nm\<rparr>) = (c1, ts)"
  shows "ts = [nextTask c ..< nextTask c + length new]" and "\<And>i. i < length new \<Longrightarrow> heap c1 (ts ! i) = new ! i"
    and "\<And>t. t \<notin> set ts \<Longrightarrow> heap c1 t = heap c t" and "nextTask c1 = nextTask c + length new" and "namer c1 = nm"
    and "invIndex c1 = invIndex c" and "machineCombiners c1 = machineCombiners c" and "memo c1 = memo c" and "env c1 = env c"
  using assms by (auto simp: alloc_def Let_def)

lemma names_ok_alloc:
  assumes "names_ok n0 c" and "n0 \<le> nextTask c" and "named_for c b new" and "alloc new (c\<lparr>namer := (namer c)(b := Suc (namer c b))\<rparr>) = (c1, ts)"
  shows "names_ok n0 c1"
proof -
  note al = alloc_spec [OF assms(4)]
  let ?n = "nextTask c"
  have old: "heap c1 t = heap c t" if "t < ?n" for t using that al(1,3) by simp
  have fresh: "tName (heap c1 t) = \<lparr>nInvIndex = invIndex c, nOp = mint b (namer c b), nShard = t - ?n, nNumShard = length new\<rparr>"
    if "?n \<le> t" "t < ?n + length new" for t
  proof -
    have "heap c1 t = new ! (t - ?n)" using al(2) [of "t - ?n"] al(1) that by simp
    then show ?thesis using assms(3) that by (simp add: named_for_def)
  qed
  have ne: "tName (heap c1 t) \<noteq> tName (heap c1 u)" if tu: "n0 \<le> t" "t < ?n" "?n \<le> u" "u < ?n + length new" for t u
  proof
    assume eq: "tName (heap c1 t) = tName (heap c1 u)"
    obtain b' j where b': "base_ok b'" "j < namer c b'" "nOp (tName (heap c t)) = mint b' j"
      using assms(1) tu(1,2) unfolding names_ok_def by blast
    have "mint b' j = mint b (namer c b)" using eq fresh [OF tu(3,4)] old [OF tu(2)] b'(3) by simp
    then show False using mint_inj [OF b'(1)] assms(3) b'(2) by (auto simp: named_for_def)
  qed
  have "inj_on (\<lambda>t. tName (heap c1 t)) {n0 ..< nextTask c1}"
  proof (rule inj_onI)
    fix t u assume tu: "t \<in> {n0 ..< nextTask c1}" "u \<in> {n0 ..< nextTask c1}" and eq: "tName (heap c1 t) = tName (heap c1 u)"
    consider "t < ?n" "u < ?n" | "?n \<le> t" "?n \<le> u" using ne [of t u] ne [of u t] eq tu al(4) by force
    then show "t = u"
    proof cases
      case 1
      then show ?thesis using assms(1) eq old tu unfolding names_ok_def inj_on_def by auto
    next
      case 2
      then show ?thesis using fresh [of t] fresh [of u] eq tu al(4) by simp
    qed
  qed
  moreover have "nInvIndex (tName (heap c1 t)) = invIndex c1 \<and> (\<exists>b j. base_ok b \<and> j < namer c1 b \<and> nOp (tName (heap c1 t)) = mint b j)"
    if t: "n0 \<le> t" "t < nextTask c1" for t
  proof (cases "t < ?n")
    case True
    then obtain b' j where "base_ok b'" "j < namer c b'" "nOp (tName (heap c t)) = mint b' j" "nInvIndex (tName (heap c t)) = invIndex c"
      using assms(1) t(1) unfolding names_ok_def by blast
    then show ?thesis using old [OF True] al(5,6) by (auto intro!: exI [of _ b'] exI [of _ j])
  next
    case False
    then show ?thesis using fresh [of t] t al(4-6) assms(3) by (auto simp: named_for_def intro!: exI [of _ b] exI [of _ "namer c b"])
  qed
  ultimately show ?thesis unfolding names_ok_def by blast
qed

lemma cinv_alloc:
  assumes "cinv h0 n0 N sl c X" and "named_for c b new" and "alloc new (c\<lparr>namer := (namer c)(b := Suc (namer c b))\<rparr>) = (c1, ts)"
  shows "cinv h0 n0 N sl c1 (X \<union> set ts)" and "X \<inter> set ts = {}"
proof -
  note al = alloc_spec [OF assms(3)]
  have n0: "n0 \<le> nextTask c" "X \<subseteq> {n0 ..< nextTask c}" using assms(1) by (auto simp: cinv_def tasks_inv_def)
  then show "X \<inter> set ts = {}" using al(1) by auto
  have old: "heap c1 t = heap c t" if "t < nextTask c" for t using that al(1,3) by simp
  have e: "ext c X c1 (X \<union> set ts)" using old al(1,4) by (auto simp: ext_def)
  have "tGroup (heap c1 t) = []" if t: "t \<in> set ts" for t
  proof -
    have "t - nextTask c < length new" "ts ! (t - nextTask c) = t" using t al(1) by auto
    then show ?thesis using al(2) [of "t - nextTask c"] assms(2) by (simp add: named_for_def)
  qed
  then have "tasks_inv h0 n0 N sl c1 (X \<union> set ts)"
    using assms(1) n0 old al(1,3,4) compiled_task_ext [OF _ e] by (auto simp: cinv_def tasks_inv_def subset_iff)
  moreover have "memo_ok n0 sl c1 (X \<union> set ts)" using assms(1) memo_ok_ext [OF _ e al(8)] by (simp add: cinv_def)
  moreover have "names_ok n0 c1" using assms names_ok_alloc n0(1) by (auto simp: cinv_def)
  moreover have "marks_ok n0 sl c1"
    unfolding marks_ok_def al(9)
  proof (intro conjI allI impI)
    show "Writable (env c)" using assms(1) by (simp add: cinv_def marks_ok_def)
    fix nm assume "TaskCached (env c) nm"
    with assms(1) obtain t ss where "n0 \<le> t \<and> t < nextTask c \<and> tName (heap c t) = nm \<and> pipeline sl (ctType (heap c t)) = Some ss \<and> cached_in sl ss (nShard nm)"
      unfolding cinv_def marks_ok_def by blast
    then show "\<exists>t ss. n0 \<le> t \<and> t < nextTask c1 \<and> tName (heap c1 t) = nm \<and> pipeline sl (ctType (heap c1 t)) = Some ss \<and> cached_in sl ss (nShard nm)"
      using old [of t] al(4) by (intro exI [of _ t] exI [of _ ss]) simp
  qed
  ultimately show "cinv h0 n0 N sl c1 (X \<union> set ts)" unfolding cinv_def by blast
qed

text \<open>The deferred function that sets the groups, and the end of the construction.\<close>

lemma fold_group:
  defines "grp ts ts' c \<equiv> fold (\<lambda>t. upd_task t (\<lambda>x. x\<lparr>tGroup := ts\<rparr>)) ts' c"
  shows "heap (grp ts ts' c) t = (if t \<in> set ts' then (heap c t)\<lparr>tGroup := ts\<rparr> else heap c t)" and "nextTask (grp ts ts' c) = nextTask c"
    and "namer (grp ts ts' c) = namer c" and "invIndex (grp ts ts' c) = invIndex c" and "memo (grp ts ts' c) = memo c" and "env (grp ts ts' c) = env c"
  unfolding grp_def by (induction ts' arbitrary: c) auto

lemma task_shape_group: "task_shape n0 sl c X s i (x\<lparr>tGroup := ts\<rparr>) = task_shape n0 sl c X s i x"
  by (cases "result_of sl s") (simp_all add: task_shape_def pipe_shape_def)

definition constructed :: "nat \<Rightarrow> 'v slices \<Rightarrow> 'v compiler \<Rightarrow> nat set \<Rightarrow> nat \<Rightarrow> 'v partitioner \<Rightarrow> nat list \<Rightarrow> bool" where
  "constructed n0 sl c X s part ts \<longleftrightarrow> distinct ts \<and> length ts = nat (slNumShard (sl s)) \<and> (\<forall>i<length ts.
     ctType (heap c (ts ! i)) = s \<and> nShard (tName (heap c (ts ! i))) = i \<and> task_shape n0 sl c X s i (heap c (ts ! i)) \<and>
     (result_of sl s = None \<longrightarrow> ctPartitioner (heap c (ts ! i)) = Some (p_Partitioner part) \<and>
        ctNumPartition (heap c (ts ! i)) = p_NumPartition part \<and> ctCombiner (heap c (ts ! i)) = pComb part))"

lemma cinv_finish:
  fixes ts part and c :: "'v compiler"
  defines "c' \<equiv> if IsShuffle part then fold (\<lambda>t. upd_task t (\<lambda>x. x\<lparr>tGroup := ts\<rparr>)) ts c else c"
  assumes "cinv h0 n0 N sl c (X \<union> set ts)" and "X \<inter> set ts = {}" and "constructed n0 sl c (X \<union> set ts) s part ts"
    and "s < N" and "result_of sl s = None \<or> IsShuffle part"
  shows "cinv h0 n0 N sl c' X" and "compiled_for n0 sl c' X s part ts"
proof -
  let ?Y = "X \<union> set ts"
  have ho: "tasks_inv h0 n0 N sl c ?Y" and n0: "?Y \<subseteq> {n0 ..< nextTask c}" using assms(2) by (auto simp: cinv_def tasks_inv_def)
  have hp: "heap c' t = (if t \<in> set ts \<and> IsShuffle part then (heap c t)\<lparr>tGroup := ts\<rparr> else heap c t)" for t
    unfolding c'_def by (simp add: fold_group)
  have same: "nextTask c' = nextTask c" "namer c' = namer c" "invIndex c' = invIndex c" "memo c' = memo c" "env c' = env c"
    unfolding c'_def by (simp_all add: fold_group)
  have e: "ext c ?Y c' X" using hp same(1) by (simp add: ext_def)
  have con: "distinct ts" "length ts = nat (slNumShard (sl s))" using assms(4) by (simp_all add: constructed_def)
  have at: "n0 \<le> ts ! i \<and> ctType (heap c' (ts ! i)) = s \<and> nShard (tName (heap c' (ts ! i))) = i \<and> task_shape n0 sl c' X s i (heap c' (ts ! i)) \<and>
      tGroup (heap c' (ts ! i)) = (if pNum part = 0 then [] else ts) \<and>
      (result_of sl s = None \<longrightarrow> ctPartitioner (heap c' (ts ! i)) = Some (p_Partitioner part) \<and>
        ctNumPartition (heap c' (ts ! i)) = p_NumPartition part \<and> ctCombiner (heap c' (ts ! i)) = pComb part)" if i: "i < length ts" for i
  proof -
    have "task_shape n0 sl c' X s i (heap c (ts ! i))" using assms(4) i task_shape_ext [OF _ e] by (simp add: constructed_def)
    moreover have "tGroup (heap c (ts ! i)) = []" "n0 \<le> ts ! i" using ho n0 nth_mem [OF i] by (auto simp: tasks_inv_def)
    ultimately show ?thesis using assms(4) i hp [of "ts ! i"] by (simp add: constructed_def task_shape_group IsShuffle_def)
  qed
  show cf: "compiled_for n0 sl c' X s part ts"
    unfolding compiled_for_def using con at n0 same(1) assms(3,6) by (auto simp: IsShuffle_def)
  have "compiled_task N n0 sl c' X t" if t: "n0 \<le> t" "t < nextTask c'" "t \<notin> X" for t
  proof (cases "t \<in> set ts")
    case True
    then obtain i where i: "i < length ts" "t = ts ! i" by (auto simp: in_set_conv_nth)
    then show ?thesis using at cf assms(5) unfolding compiled_task_def by auto
  next
    case False
    then show ?thesis using ho t same(1) compiled_task_ext [OF _ e, of N n0 sl t] by (simp add: tasks_inv_def)
  qed
  then have "tasks_inv h0 n0 N sl c' X" using ho hp same(1) n0 assms(3) by (auto simp: tasks_inv_def)
  moreover have "names_ok n0 c'" "marks_ok n0 sl c'"
    using assms(2) same hp by (auto simp: cinv_def intro: names_ok_same [of n0 c] marks_ok_same [of n0 sl c])
  moreover have "memo_ok n0 sl c' X" using assms(2) memo_ok_ext [OF _ e same(4)] by (simp add: cinv_def)
  ultimately show "cinv h0 n0 N sl c' X" unfolding cinv_def by blast
qed

section \<open>What the compiler returns\<close>

definition grown :: "'v compiler \<Rightarrow> 'v compiler \<Rightarrow> bool" where
  "grown c c' \<longleftrightarrow> nextTask c \<le> nextTask c' \<and> invIndex c' = invIndex c \<and> (\<forall>t<nextTask c. heap c' t = heap c t)"

text \<open>\<open>returns r c X s part\<close>: the call \<open>r\<close> of the compiler returns tasks for the slice \<open>s\<close>; earlier tasks are left as they are.\<close>

definition returns where
  "returns h0 n0 N sl r c X s part \<longleftrightarrow> (\<exists>c' ts. r = Some (Ret (c', Inr ts)) \<and> cinv h0 n0 N sl c' X \<and> compiled_for n0 sl c' X s part ts \<and> grown c c')"

lemma grown_ext: "grown c c' \<Longrightarrow> ext c X c' X"
  by (simp add: grown_def ext_def)

lemma compile_result_spec:
  fixes c :: "'v compiler"
  assumes sl: "slices_ok h0 n0 sl N" "s < N" and ci: "cinv h0 n0 N sl c X" and r: "result_of sl s = Some tasks"
  shows "\<exists>c1 ts. compile_result tasks s part c = Ret (c1, Inr ts) \<and> grown c c1 \<and>
    (if IsShuffle part then X \<inter> set ts = {} \<and> cinv h0 n0 N sl c1 (X \<union> set ts) \<and> constructed n0 sl c1 (X \<union> set ts) s part ts \<and> (\<forall>t\<in>set ts. nextTask c \<le> t)
     else c1 = c \<and> compiled_for n0 sl c X s part ts)"
proof -
  note ok = result_of_ok [OF sl r]
  have ho: "tasks_inv h0 n0 N sl c X" using ci by (simp add: cinv_def)
  have nil: "\<not> list_ex (\<lambda>t. \<not> sfunc_IsNil (ctCombiner (heap c t))) tasks"
    using ok(2) ho by (auto simp: list_ex_iff tasks_inv_def)
  show ?thesis
  proof (cases "IsShuffle part")
    case False
    have "compiled_for n0 sl c X s part tasks"
      using ok ho r False by (fastforce simp: compiled_for_def tasks_inv_def IsShuffle_def)
    then show ?thesis using False nil by (simp add: compile_result_def grown_def)
  next
    case True
    have "tasks \<noteq> []" using ok(1) slices_okD [OF sl] by (auto simp: slice_ok_def)
    then obtain t0 tl where t0: "tasks = t0 # tl" by (cases tasks) auto
    define b where "b = nOp (tName (heap c t0)) @ ''_shuffle''"
    define new :: "'v CTask list" where "new = map (\<lambda>(shard, t). \<lparr>tName = \<lparr>nInvIndex = invIndex c, nOp = mint b (namer c b), nShard = shard, nNumShard = length tasks\<rparr>,
                   tDeps = [\<lparr>dHead = Some t, dPartition = 0, dExpand = False, dCombineKey = []\<rparr>], tGroup = [], ctType = s, ctDo = Some DoFirst,
                   ctPartitioner = None, ctNumPartition = 0, ctCombiner = sfunc_Nil, ctCombineKey = [], ctPragma = ctPragma (heap c t),
                   ctSlices = ctSlices (heap c t)\<rparr>) (enumerate 0 tasks)"
    obtain c1 ts where al: "alloc new (c\<lparr>namer := (namer c)(b := Suc (namer c b))\<rparr>) = (c1, ts)" by (cases "alloc new (c\<lparr>namer := (namer c)(b := Suc (namer c b))\<rparr>)")
    have "compile_result tasks s part c = Ret (c1, Inr ts)"
      using nil True t0 al unfolding compile_result_def new_def b_def by (simp add: taskNamer_New_mint Let_def)
    moreover have "base_ok b" unfolding b_def by (rule base_ok_append) code_simp
    then have nf: "named_for c b new" unfolding named_for_def new_def by (simp add: nth_enumerate_eq)
    note a = alloc_spec [OF al] and ci1 = cinv_alloc [OF ci nf al]
    have "constructed n0 sl c1 (X \<union> set ts) s part ts"
      unfolding constructed_def
    proof (intro conjI allI impI)
      show "distinct ts" "length ts = nat (slNumShard (sl s))" using a(1) ok(1) by (simp_all add: new_def)
      fix i assume "i < length ts"
      then have i: "i < length tasks" "i < length new" using a(1) by (simp_all add: new_def)
      show "ctType (heap c1 (ts ! i)) = s" "nShard (tName (heap c1 (ts ! i))) = i" "task_shape n0 sl c1 (X \<union> set ts) s i (heap c1 (ts ! i))"
        unfolding a(2) [OF i(2)] using i r by (simp_all add: new_def nth_enumerate_eq task_shape_def)
    qed (simp_all add: r)
    moreover have "grown c c1" using a(1,3,4,6) by (simp add: grown_def)
    moreover have "\<forall>t\<in>set ts. nextTask c \<le> t" using a(1) by simp
    ultimately show ?thesis using ci1 True by auto
  qed
qed

definition depended :: "nat \<Rightarrow> 'v slices \<Rightarrow> 'v compiler \<Rightarrow> nat set \<Rightarrow> nat \<Rightarrow> nat \<Rightarrow> nat list \<Rightarrow> 'v Dep list \<Rightarrow> 'v compiler \<Rightarrow> bool" where
  "depended n0 sl c' X s ls ts ds c \<longleftrightarrow> (\<forall>i<length ts. \<exists>tds. heap c' (ts ! i) = (heap c (ts ! i))\<lparr>tDeps := tDeps (heap c (ts ! i)) @ tds\<rparr> \<and>
     list_all2 (dep_shape n0 sl c' X s ls i) ds tds)"

lemma add_deps_spec:
  assumes "cinv h0 n0 N sl c1 X" and "set ts \<subseteq> X" and "distinct ts" and "length tds = length ts"
  shows "cinv h0 n0 N sl (fold add_dep (zip ts tds) c1) X" and "ext c1 X (fold add_dep (zip ts tds) c1) X"
    and "\<And>i. i < length ts \<Longrightarrow> heap (fold add_dep (zip ts tds) c1) (ts ! i) = (heap c1 (ts ! i))\<lparr>tDeps := tDeps (heap c1 (ts ! i)) @ [tds ! i]\<rparr>"
    and "\<And>t. t \<notin> set ts \<Longrightarrow> heap (fold add_dep (zip ts tds) c1) t = heap c1 t"
    and "nextTask (fold add_dep (zip ts tds) c1) = nextTask c1" and "invIndex (fold add_dep (zip ts tds) c1) = invIndex c1"
proof -
  let ?c = "fold add_dep (zip ts tds) c1"
  have t: "touched (set ts) c1 ?c" by (rule touched_fold) (auto intro!: touched_add_dep dest: set_zip_leftD)
  have e: "env ?c = env c1"
  proof -
    have "env (fold add_dep l c) = env c" for l and c :: "'a compiler" by (induction l arbitrary: c) (auto simp: add_dep_def)
    then show ?thesis by blast
  qed
  show "cinv h0 n0 N sl ?c X" "ext c1 X ?c X" using cinv_touched_env [OF assms(1) t assms(2) e] by auto
  have f: "distinct (map fst (zip ts tds))" "fst ` set (zip ts tds) = set ts" using assms(3,4) by (simp, metis assms(4) map_fst_zip set_map)
  show "heap ?c (ts ! i) = (heap c1 (ts ! i))\<lparr>tDeps := tDeps (heap c1 (ts ! i)) @ [tds ! i]\<rparr>" if "i < length ts" for i
  proof -
    have "(ts ! i, tds ! i) \<in> set (zip ts tds)" using that assms(4) by (auto simp: set_zip)
    then show ?thesis using fold_add_dep [OF f(1), of c1] by blast
  qed
  show "heap ?c u = heap c1 u" if "u \<notin> set ts" for u using fold_add_dep [OF f(1), of c1] f(2) that by blast
  show "nextTask ?c = nextTask c1" "invIndex ?c = invIndex c1" using t by (simp_all add: touched_def)
qed

lemma compile_dep_step:
  assumes "cinv h0 n0 N sl c X" and "set ts \<subseteq> X" and "distinct ts" and "length ts = nat (slNumShard (sl s))"
    and "\<And>part c. cinv h0 n0 N sl c X \<Longrightarrow> returns h0 n0 N sl (rc (dpSlice d) part c) c X (dpSlice d) part"
    and "\<not> dpShuffle d \<Longrightarrow> slNumShard (sl (dpSlice d)) = slNumShard (sl s)" and "0 < slNumShard (sl (dpSlice d))"
  shows "\<exists>c2. compile_deps rc sl ls s opName ts (d # ds) c = compile_deps rc sl ls s opName ts ds c2 \<and> cinv h0 n0 N sl c2 X \<and> ext c X c2 X \<and>
    nextTask c \<le> nextTask c2 \<and> invIndex c2 = invIndex c \<and> (\<forall>t<nextTask c. t \<notin> set ts \<longrightarrow> heap c2 t = heap c t) \<and> depended n0 sl c2 X s ls ts [d] c"
proof -
  have X: "t < nextTask c" if "t \<in> set ts" for t using that assms(1,2) by (auto simp: cinv_def tasks_inv_def)
  define key where "key = (if \<not> sfunc_IsNil (slCombiner (sl ls)) \<and> machineCombiners c then opName else [])"
  define part where "part = (if dpShuffle d then \<lparr>pNum = slNumShard (sl s), pPart = dpPartitioner d, pComb = slCombiner (sl ls), pKey = key\<rparr> else noPart)"
  from assms(5) [OF assms(1), of part] obtain c1 dts where
    rc: "rc (dpSlice d) part c = Some (Ret (c1, Inr dts))" "cinv h0 n0 N sl c1 X" "compiled_for n0 sl c1 X (dpSlice d) part dts" "grown c c1"
    unfolding returns_def by blast
  have len: "length dts = nat (slNumShard (sl (dpSlice d)))" "dts \<noteq> []" using rc(3) assms(7) by (auto simp: compiled_for_def)
  define tds where "tds = (if dpShuffle d
     then map (\<lambda>i. \<lparr>dHead = Some (hd dts), dPartition = i, dExpand = dpExpand d, dCombineKey = key\<rparr>) [0 ..< length ts]
     else map (\<lambda>u. \<lparr>dHead = Some u, dPartition = 0, dExpand = dpExpand d, dCombineKey = []\<rparr>) dts)"
  have lt: "length tds = length ts" using len(1) assms(4,6) by (simp add: tds_def)
  let ?c2 = "fold add_dep (zip ts tds) c1"
  note a = add_deps_spec [OF rc(2) assms(2,3) lt]
  have e: "ext c X c1 X" by (rule grown_ext [OF rc(4)])
  have z: "map (\<lambda>(i, t). (t, f i)) (enumerate 0 ts) = zip ts (map f [0 ..< length ts])" for f :: "nat \<Rightarrow> TaskDep"
    by (rule nth_equalityI) (simp_all add: nth_enumerate_eq)
  have "compile_deps rc sl ls s opName ts (d # ds) c = compile_deps rc sl ls s opName ts ds ?c2"
  proof (cases "dpShuffle d")
    case True
    have q: "(case ts of [] \<Rightarrow> B | _ # _ \<Rightarrow> case dts of [] \<Rightarrow> A | _ # _ \<Rightarrow> B) = B" for A B :: "('a compiler \<times> gerr) go option"
      using len(2) by (cases ts; cases dts) simp_all
    have p: "rc (dpSlice d) \<lparr>pNum = slNumShard (sl s), pPart = dpPartitioner d, pComb = slCombiner (sl ls), pKey = key\<rparr> c = Some (Ret (c1, Inr dts))"
      using rc(1) True by (simp add: part_def)
    show ?thesis
      using True by (simp only: compile_deps.simps key_def [symmetric] Let_def p tds_def z) (simp add: q z)
  next
    case False
    then show ?thesis using rc(1) lt by (simp add: part_def tds_def)
  qed
  moreover have "dep_shape n0 sl ?c2 X s ls i d (tds ! i)" if i: "i < length ts" for i
    using compiled_for_ext [OF rc(3) a(2)] i len(1) assms(4,6) unfolding dep_shape_def
    by (cases "dpShuffle d") (auto simp: tds_def part_def)
  then have "depended n0 sl ?c2 X s ls ts [d] c"
    using a(3) rc(4) X by (auto simp: depended_def grown_def intro!: exI [of _ "[tds ! i]" for i])
  ultimately show ?thesis using a(1,4,5,6) ext_trans [OF e a(2)] rc(4) by (intro exI [of _ ?c2]) (auto simp: grown_def)
qed

lemma depended_Cons:
  assumes "depended n0 sl c2 X s ls ts [d] c" and "depended n0 sl c3 X s ls ts ds c2" and "ext c2 X c3 X"
  shows "depended n0 sl c3 X s ls ts (d # ds) c"
  unfolding depended_def
proof (intro allI impI)
  fix i assume i: "i < length ts"
  from assms(1) i obtain tds1 where 1: "heap c2 (ts ! i) = (heap c (ts ! i))\<lparr>tDeps := tDeps (heap c (ts ! i)) @ tds1\<rparr>"
    "list_all2 (dep_shape n0 sl c2 X s ls i) [d] tds1" unfolding depended_def by blast
  from 1(2) obtain td where td: "tds1 = [td]" "dep_shape n0 sl c2 X s ls i d td" by (auto simp: list_all2_Cons1)
  from assms(2) i obtain tds2 where 2: "heap c3 (ts ! i) = (heap c2 (ts ! i))\<lparr>tDeps := tDeps (heap c2 (ts ! i)) @ tds2\<rparr>"
    "list_all2 (dep_shape n0 sl c3 X s ls i) ds tds2" unfolding depended_def by blast
  show "\<exists>tds. heap c3 (ts ! i) = (heap c (ts ! i))\<lparr>tDeps := tDeps (heap c (ts ! i)) @ tds\<rparr> \<and> list_all2 (dep_shape n0 sl c3 X s ls i) (d # ds) tds"
    using 1(1) 2 td(1) dep_shape_ext [OF td(2) assms(3)] by (intro exI [of _ "td # tds2"]) simp
qed

lemma compile_deps_spec:
  assumes "cinv h0 n0 N sl c X" and "set ts \<subseteq> X" and "distinct ts" and "length ts = nat (slNumShard (sl s))"
    and "\<And>d part c. d \<in> set ds \<Longrightarrow> cinv h0 n0 N sl c X \<Longrightarrow> returns h0 n0 N sl (rc (dpSlice d) part c) c X (dpSlice d) part"
    and "\<And>d. d \<in> set ds \<Longrightarrow> (\<not> dpShuffle d \<longrightarrow> slNumShard (sl (dpSlice d)) = slNumShard (sl s)) \<and> 0 < slNumShard (sl (dpSlice d))"
  shows "\<exists>c'. compile_deps rc sl ls s opName ts ds c = Some (Ret (c', None)) \<and> cinv h0 n0 N sl c' X \<and> ext c X c' X \<and>
    nextTask c \<le> nextTask c' \<and> invIndex c' = invIndex c \<and> (\<forall>t<nextTask c. t \<notin> set ts \<longrightarrow> heap c' t = heap c t) \<and> depended n0 sl c' X s ls ts ds c"
  using assms(1,5,6)
proof (induction ds arbitrary: c)
  case Nil
  then show ?case by (simp add: ext_def depended_def)
next
  case (Cons d ds)
  have "\<exists>c2. compile_deps rc sl ls s opName ts (d # ds) c = compile_deps rc sl ls s opName ts ds c2 \<and> cinv h0 n0 N sl c2 X \<and> ext c X c2 X \<and>
    nextTask c \<le> nextTask c2 \<and> invIndex c2 = invIndex c \<and> (\<forall>t<nextTask c. t \<notin> set ts \<longrightarrow> heap c2 t = heap c t) \<and> depended n0 sl c2 X s ls ts [d] c"
    by (rule compile_dep_step [OF Cons.prems(1) assms(2-4)]) (use Cons.prems(2,3) in auto)
  then obtain c2 where c2: "compile_deps rc sl ls s opName ts (d # ds) c = compile_deps rc sl ls s opName ts ds c2" "cinv h0 n0 N sl c2 X" "ext c X c2 X"
    "nextTask c \<le> nextTask c2" "invIndex c2 = invIndex c" "\<forall>t<nextTask c. t \<notin> set ts \<longrightarrow> heap c2 t = heap c t" "depended n0 sl c2 X s ls ts [d] c" by blast
  have "\<exists>c3. compile_deps rc sl ls s opName ts ds c2 = Some (Ret (c3, None)) \<and> cinv h0 n0 N sl c3 X \<and> ext c2 X c3 X \<and>
    nextTask c2 \<le> nextTask c3 \<and> invIndex c3 = invIndex c2 \<and> (\<forall>t<nextTask c2. t \<notin> set ts \<longrightarrow> heap c3 t = heap c2 t) \<and> depended n0 sl c3 X s ls ts ds c2"
    using Cons.prems(2,3) by (intro Cons.IH [OF c2(2)]) auto
  then obtain c3 where c3: "compile_deps rc sl ls s opName ts ds c2 = Some (Ret (c3, None))" "cinv h0 n0 N sl c3 X" "ext c2 X c3 X"
    "nextTask c2 \<le> nextTask c3" "invIndex c3 = invIndex c2" "\<forall>t<nextTask c2. t \<notin> set ts \<longrightarrow> heap c3 t = heap c2 t" "depended n0 sl c3 X s ls ts ds c2" by blast
  show ?case
    using c2 c3 ext_trans [OF c2(3) c3(3)] depended_Cons [OF c2(7) c3(7) c3(3)] by (intro exI [of _ c3]) auto
qed

text \<open>The closures of the tasks of a slice, once its dependencies are compiled.\<close>

lemma pipeline_dos_spec:
  assumes sl: "slices_ok h0 n0 sl N" "s < N" and ss: "pipeline sl s = Some ss" "ss \<noteq> []" "hd ss = s"
      "\<forall>x\<in>set ss. x \<le> s \<and> slNumShard (sl x) = slNumShard (sl s)"
    and ci: "cinv h0 n0 N sl c Y" "set ts \<subseteq> Y" "distinct ts" "length ts = nat (slNumShard (sl s))"
    and at: "\<forall>i<length ts. ctType (heap c (ts ! i)) = s \<and> nShard (tName (heap c (ts ! i))) = i \<and> ctDo (heap c (ts ! i)) = None \<and>
      list_all2 (dep_shape n0 sl c Y s (last ss) i) (slDeps (sl (last ss))) (tDeps (heap c (ts ! i)))"
  shows "\<exists>c'. compile_dos sl ts (rev ss) c = Ret c' \<and> touched (set ts) c c' \<and> cinv h0 n0 N sl c' Y \<and>
    (\<forall>i<length ts. pipe_shape n0 sl c' Y s i (heap c' (ts ! i)))"
proof -
  have w: "Writable (env c)" using ci(1) by (simp add: cinv_def marks_ok_def)
  have "\<exists>b. fsc_IsCached (slice_cache sl x) i = Ret b" if "x \<in> set (rev ss)" "i < length ts" for x i
  proof (cases "slice_cache sl x")
    case (Some fc)
    have x: "x < N" "slNumShard (sl x) = slNumShard (sl s)" using ss(4) sl(2) that(1) by auto
    have "i < length (shardIsCached fc)" using slice_cache_ok [OF sl(1) x(1) Some] x(2) that(2) ci(4) by simp
    then show ?thesis using Some by (simp add: fsc_IsCached_def list_index_def)
  qed (auto simp: fsc_IsCached_def)
  with compile_dos_spec [OF ci(3) w, of "rev ss" sl] ss(2) obtain c' where
    c': "compile_dos sl ts (rev ss) c = Ret c'" "touched (set ts) c c'" "Writable (env c')"
      "\<forall>nm. TaskCached (env c') nm \<longleftrightarrow> TaskCached (env c) nm \<or> (\<exists>i<length ts. nm = tName (heap c (ts ! i)) \<and> cached_in sl (rev ss) i)"
      "\<forall>i<length ts. do_result (rev ss) i (TaskCached (env c') (tName (heap c (ts ! i)))) (heap c (ts ! i)) (heap c' (ts ! i))" by auto
  note same = touched_same [OF c'(2)] and nx = c'(2) [unfolded touched_def]
  have Y: "n0 \<le> ts ! i \<and> ts ! i < nextTask c" if "i < length ts" for i
    using ci(1,2) nth_mem [OF that] unfolding cinv_def tasks_inv_def by force
  have "marks_ok n0 sl c'"
    unfolding marks_ok_def
  proof (intro conjI allI impI)
    fix nm assume "TaskCached (env c') nm"
    then consider "TaskCached (env c) nm" | i where "i < length ts" "nm = tName (heap c (ts ! i))" "cached_in sl ss i"
      using c'(4) by (auto simp: cached_in_def)
    then show "\<exists>t ss. n0 \<le> t \<and> t < nextTask c' \<and> tName (heap c' t) = nm \<and> pipeline sl (ctType (heap c' t)) = Some ss \<and> cached_in sl ss (nShard nm)"
    proof cases
      case 1
      then show ?thesis using ci(1) nx unfolding cinv_def marks_ok_def same by auto
    next
      case 2
      then show ?thesis using Y at ss(1) nx unfolding same by (intro exI [of _ "ts ! i"] exI [of _ ss]) auto
    qed
  qed (rule c'(3))
  note ci' = cinv_touched [OF ci(1) c'(2) ci(2) this]
  have "pipe_shape n0 sl c' Y s i (heap c' (ts ! i))" if i: "i < length ts" for i
  proof (cases "TaskCached (env c') (tName (heap c (ts ! i)))")
    case True
    then obtain t ss' where t: "n0 \<le> t" "t < nextTask c'" "tName (heap c' t) = tName (heap c (ts ! i))" "pipeline sl (ctType (heap c' t)) = Some ss'"
      "cached_in sl ss' (nShard (tName (heap c (ts ! i))))" using ci'(1) unfolding cinv_def marks_ok_def by blast
    have "inj_on (\<lambda>t. tName (heap c' t)) {n0 ..< nextTask c'}" using ci'(1) by (simp add: cinv_def names_ok_def)
    from inj_onD [OF this, of t "ts ! i"] have "t = ts ! i" using t(1-3) Y [OF i] nx same(1) by simp
    with t(4,5) at i ss(1) have "cached_in sl ss i" by (simp add: same)
    moreover have "last (rev ss) = s" using ss(2,3) by (simp add: last_rev)
    ultimately show ?thesis using c'(5) i True ss(1) by (simp add: pipe_shape_def do_result_def)
  next
    case False
    have "ctDo (heap c' (ts ! i)) = fold (push_do i) (rev ss) None" "tDeps (heap c' (ts ! i)) = tDeps (heap c (ts ! i))"
      using c'(5) at i False by (simp_all add: do_result_def)
    moreover have "list_all2 (dep_shape n0 sl c' Y s (last ss) i) (slDeps (sl (last ss))) (tDeps (heap c (ts ! i)))"
    proof (rule list.rel_mono_strong)
      show "list_all2 (dep_shape n0 sl c Y s (last ss) i) (slDeps (sl (last ss))) (tDeps (heap c (ts ! i)))" using at i by simp
    qed (rule dep_shape_ext [OF _ ci'(2)])
    moreover have "\<not> cached_in sl ss i" using c'(4) i False by (auto simp: cached_in_def)
    ultimately show ?thesis using ss(1) by (simp add: pipe_shape_def)
  qed
  with c'(1,2) ci'(1) show ?thesis by (intro exI [of _ c']) simp
qed

lemma fold_slices:
  defines "upd ss ts' c \<equiv> fold (\<lambda>t. upd_task t (\<lambda>x. x\<lparr>ctSlices := ss\<rparr>)) ts' c"
  shows "heap (upd ss ts' c) t = (if t \<in> set ts' then (heap c t)\<lparr>ctSlices := ss\<rparr> else heap c t)" and "env (upd ss ts' c) = env c"
  unfolding upd_def by (induction ts' arbitrary: c) auto

lemma pipe_shape_slices: "pipe_shape n0 sl c X s i (x\<lparr>ctSlices := ss\<rparr>) = pipe_shape n0 sl c X s i x"
  by (simp add: pipe_shape_def)

lemma compile_pipeline_spec:
  fixes c :: "'v compiler"
  assumes sl: "slices_ok h0 n0 sl N" "s < N" and ci: "cinv h0 n0 N sl c X" and r: "result_of sl s = None"
    and IH: "\<And>d part c X. d < s \<Longrightarrow> cinv h0 n0 N sl c X \<Longrightarrow> returns h0 n0 N sl (rc d part c) c X d part"
  shows "\<exists>c1 ts. compile_pipeline rc sl s part c = Some (Ret (c1, Inr ts)) \<and> grown c c1 \<and>
    X \<inter> set ts = {} \<and> cinv h0 n0 N sl c1 (X \<union> set ts) \<and> constructed n0 sl c1 (X \<union> set ts) s part ts \<and> (\<forall>t\<in>set ts. nextTask c \<le> t)"
proof -
  from pipeline_spec [OF sl] r obtain ss where ss: "pipeline sl s = Some ss" "ss \<noteq> []" "hd ss = s"
    "\<forall>x\<in>set ss. x \<le> s \<and> slNumShard (sl x) = slNumShard (sl s)" by auto
  have ls: "last ss \<le> s" "slNumShard (sl (last ss)) = slNumShard (sl s)" using ss(2,4) by auto
  have pos: "0 < slNumShard (sl x)" "base_ok (Op (slName (sl x)))" if "x < N" for x using slices_okD [OF sl(1) that] by (auto simp: slice_ok_def)
  define n where "n = nat (slNumShard (sl s))"
  define b where "b = join ''_'' ((''inv'' @ decimal (invIndex c)) # map (\<lambda>x. Op (slName (sl x))) (rev ss))"
  define new :: "'v CTask list" where "new = map (\<lambda>i. \<lparr>tName = \<lparr>nInvIndex = invIndex c, nOp = mint b (namer c b), nShard = i, nNumShard = n\<rparr>, tDeps = [], tGroup = [],
                   ctType = hd ss, ctDo = None, ctPartitioner = Some (p_Partitioner part), ctNumPartition = p_NumPartition part,
                   ctCombiner = pComb part, ctCombineKey = pKey part, ctPragma = List.map_filter (\<lambda>x. slPragma (sl x)) (rev ss), ctSlices = []\<rparr>) [0 ..< n]"
  obtain c1 ts where al: "alloc new (c\<lparr>namer := (namer c)(b := Suc (namer c b))\<rparr>) = (c1, ts)" by (cases "alloc new (c\<lparr>namer := (namer c)(b := Suc (namer c b))\<rparr>)")
  note a = alloc_spec [OF al]
  have "base_ok b" unfolding b_def by (rule base_ok_join) (use ss(2,3) pos(2) [OF sl(2)] in \<open>simp_all add: last_map last_rev\<close>)
  then have "named_for c b new" by (simp add: named_for_def new_def)
  note ci1 = cinv_alloc [OF ci this al]
  let ?Y = "X \<union> set ts"
  have ts: "distinct ts" "length ts = n" using a(1) by (simp_all add: new_def)
  have dps: "dpSlice d < s" "(\<not> dpShuffle d \<longrightarrow> slNumShard (sl (dpSlice d)) = slNumShard (sl s)) \<and> 0 < slNumShard (sl (dpSlice d))"
    if "d \<in> set (slDeps (sl (last ss)))" for d
    using slice_ok_dep [OF slices_okD [OF sl(1)] that] ls sl(2) pos(1) [of "dpSlice d"] by auto
  from compile_deps_spec [OF ci1(1) _ ts(1), of s "slDeps (sl (last ss))" rc "last ss" "mint b (namer c b)"] IH dps ts(2) obtain c2 where
    c2: "compile_deps rc sl (last ss) s (mint b (namer c b)) ts (slDeps (sl (last ss))) c1 = Some (Ret (c2, None))" "cinv h0 n0 N sl c2 ?Y"
      "nextTask c1 \<le> nextTask c2" "invIndex c2 = invIndex c1" "\<forall>t<nextTask c1. t \<notin> set ts \<longrightarrow> heap c2 t = heap c1 t"
      "depended n0 sl c2 ?Y s (last ss) ts (slDeps (sl (last ss))) c1" unfolding n_def by auto
  have at: "ctType (heap c2 (ts ! i)) = s \<and> nShard (tName (heap c2 (ts ! i))) = i \<and> ctDo (heap c2 (ts ! i)) = None \<and>
      ctPartitioner (heap c2 (ts ! i)) = Some (p_Partitioner part) \<and> ctNumPartition (heap c2 (ts ! i)) = p_NumPartition part \<and> ctCombiner (heap c2 (ts ! i)) = pComb part \<and>
      list_all2 (dep_shape n0 sl c2 ?Y s (last ss) i) (slDeps (sl (last ss))) (tDeps (heap c2 (ts ! i)))" if i: "i < length ts" for i
  proof -
    have i': "i < length new" "i < n" using i ts(2) by (simp_all add: new_def)
    show ?thesis using c2(6) i a(2) [OF i'(1)] i'(2) ss(3) by (auto simp: depended_def new_def)
  qed
  from pipeline_dos_spec [OF sl ss c2(2) _ ts(1)] at ts(2) obtain c3 where
    c3: "compile_dos sl ts (rev ss) c2 = Ret c3" "touched (set ts) c2 c3" "cinv h0 n0 N sl c3 ?Y" "\<forall>i<length ts. pipe_shape n0 sl c3 ?Y s i (heap c3 (ts ! i))"
    unfolding n_def by auto
  let ?c4 = "fold (\<lambda>t. upd_task t (\<lambda>x. x\<lparr>ctSlices := ss\<rparr>)) ts c3"
  have t4: "touched (set ts) c3 ?c4" by (rule touched_fold) (rule touched_slices)
  note ci4 = cinv_touched_env [OF c3(3) t4 _ fold_slices(2)]
  note f = c2(5) c3(2) [unfolded touched_def] t4 [unfolded touched_def] and same = touched_same [OF c3(2)] touched_same [OF t4]
  have "compile_pipeline rc sl s part c = Some (Ret (?c4, Inr ts))"
    using ss(1,2) pos(1) [OF sl(2)] al c2(1) c3(1) unfolding compile_pipeline_def b_def new_def n_def
    by (simp add: taskNamer_New_mint Let_def)
  moreover have "grown c ?c4"
    using a(1,3,4,6) c2(3,4) f by (auto simp: grown_def)
  moreover have "task_shape n0 sl ?c4 ?Y s i (heap ?c4 (ts ! i))" if "i < length ts" for i
  proof -
    have "task_shape n0 sl c3 ?Y s i (heap ?c4 (ts ! i))"
      using c3(4) r that by (simp add: task_shape_def fold_slices(1) pipe_shape_slices)
    then show ?thesis by (rule task_shape_ext) (use ci4(2) in auto)
  qed
  then have "constructed n0 sl ?c4 ?Y s part ts" using at ts by (simp add: constructed_def same n_def)
  moreover have "\<forall>t\<in>set ts. nextTask c \<le> t" using a(1) by simp
  ultimately show ?thesis using ci1(2) ci4(1) by (intro exI [of _ ?c4] exI [of _ ts]) auto
qed

lemma grown_group:
  assumes "grown c c1" and "\<forall>t\<in>set ts. nextTask c \<le> t"
  shows "grown c (if IsShuffle part then fold (\<lambda>t. upd_task t (\<lambda>x. x\<lparr>tGroup := ts\<rparr>)) ts c1 else c1)"
  using assms by (auto simp: grown_def fold_group)

lemma compile_spec:
  assumes "slices_ok h0 n0 sl N" and "s < N" and "cinv h0 n0 N sl c X" and "s < k"
  shows "returns h0 n0 N sl (compile k sl s part c) c X s part"
  using assms(2-4)
proof (induction k arbitrary: s part c X)
  case (Suc k)
  let ?m = "sfunc_IsNil (pComb part) \<and> Option.is_none (pPart part)"
  let ?in = "Option.bind (Unwrap sl s) (\<lambda>u. case result_tasks (slImpl (sl u)) of Some tasks \<Rightarrow> Some (compile_result tasks s part c)
     | None \<Rightarrow> compile_pipeline (compile k sl) sl s part c)"
  let ?grp = "\<lambda>ts c. if IsShuffle part then fold (\<lambda>t. upd_task t (\<lambda>x. x\<lparr>tGroup := ts\<rparr>)) ts c else c"
  let ?mem = "\<lambda>ts c. if ?m then c\<lparr>memo := (memo c)((s, pNum part) \<mapsto> ts)\<rparr> else c"
  show ?case
  proof (cases "if ?m then memo c (s, pNum part) else None")
    case (Some ts)
    then have m: ?m "memo c (s, pNum part) = Some ts" by (simp_all split: if_splits)
    from m(2) Suc.prems(2) obtain key comb where "sfunc_IsNil comb" "compiled_for n0 sl c X s \<lparr>pNum = pNum part, pPart = None, pComb = comb, pKey = key\<rparr> ts"
      unfolding cinv_def memo_ok_def by blast
    then have "compiled_for n0 sl c X s part ts" using m(1) by (simp add: compiled_for_def p_Partitioner_def p_NumPartition_def Option.is_none_def cong: if_cong)
    then show ?thesis using Suc.prems(2) Some by (simp add: returns_def grown_def)
  next
    case None
    have "\<exists>c1 ts. ?in = Some (Ret (c1, Inr ts)) \<and> grown c (?grp ts c1) \<and> cinv h0 n0 N sl (?grp ts c1) X \<and> compiled_for n0 sl (?grp ts c1) X s part ts"
    proof (cases "result_of sl s")
      case (Some tasks)
      then have i: "?in = Some (compile_result tasks s part c)" by (auto simp: result_of_def split: bind_splits)
      from compile_result_spec [OF assms(1) Suc.prems(1,2) Some, of part] obtain c1 ts where
        c1: "compile_result tasks s part c = Ret (c1, Inr ts)" "grown c c1"
        "if IsShuffle part then X \<inter> set ts = {} \<and> cinv h0 n0 N sl c1 (X \<union> set ts) \<and> constructed n0 sl c1 (X \<union> set ts) s part ts \<and> (\<forall>t\<in>set ts. nextTask c \<le> t)
         else c1 = c \<and> compiled_for n0 sl c X s part ts" by blast
      show ?thesis
      proof (cases "IsShuffle part")
        case True
        with c1(3) have t: "X \<inter> set ts = {}" "cinv h0 n0 N sl c1 (X \<union> set ts)" "constructed n0 sl c1 (X \<union> set ts) s part ts" "\<forall>t\<in>set ts. nextTask c \<le> t" by simp_all
        show ?thesis
          using i c1(1) cinv_finish [OF t(2,1,3) Suc.prems(1)] grown_group [OF c1(2) t(4), of part] True by (intro exI [of _ c1] exI [of _ ts]) simp
      next
        case False
        then show ?thesis using i c1 Suc.prems(2) by auto
      qed
    next
      case n: None
      obtain u where "Unwrap sl s = Some u" using Unwrap_spec [OF assms(1) Suc.prems(1)] by blast
      with n have i: "?in = compile_pipeline (compile k sl) sl s part c" by (simp add: result_of_def)
      have IH: "returns h0 n0 N sl (compile k sl d part c) c X d part" if "d < s" "cinv h0 n0 N sl c X" for d part c X
        using Suc.IH [of d c X part] that Suc.prems(1,3) by simp
      from compile_pipeline_spec [OF assms(1) Suc.prems(1,2) n IH, of part] obtain c1 ts where
        c1: "compile_pipeline (compile k sl) sl s part c = Some (Ret (c1, Inr ts))" "grown c c1" "X \<inter> set ts = {}" "cinv h0 n0 N sl c1 (X \<union> set ts)"
        "constructed n0 sl c1 (X \<union> set ts) s part ts" "\<forall>t\<in>set ts. nextTask c \<le> t" by blast
      show ?thesis
        using i c1(1) cinv_finish [OF c1(4,3,5) Suc.prems(1)] grown_group [OF c1(2,6), of part] n by (intro exI [of _ c1] exI [of _ ts]) simp
    qed
    then obtain c1 ts where c1: "?in = Some (Ret (c1, Inr ts))" "grown c (?grp ts c1)" "cinv h0 n0 N sl (?grp ts c1) X" "compiled_for n0 sl (?grp ts c1) X s part ts" by blast
    have "compile (Suc k) sl s part c = Some (Ret (?mem ts (?grp ts c1), Inr ts))"
      using None c1(1) by (simp add: Let_def)
    moreover have "cinv h0 n0 N sl (?mem ts (?grp ts c1)) X"
    proof (cases ?m)
      case True
      have eq: "\<lparr>pNum = pNum part, pPart = None, pComb = pComb part, pKey = pKey part\<rparr> = part" using True by (cases part) (simp add: Option.is_none_def)
      have "compiled_for n0 sl (?grp ts c1) X s \<lparr>pNum = pNum part, pPart = None, pComb = pComb part, pKey = pKey part\<rparr> ts" using c1(4) by (simp only: eq)
      from cinv_memo [OF c1(3) this] True show ?thesis by simp
    qed (use c1(3) in \<open>simp only: if_False\<close>)
    moreover have "compiled_for n0 sl (?mem ts (?grp ts c1)) X s part ts"
      by (rule compiled_for_ext [OF c1(4)]) (simp add: ext_def)
    moreover have "grown c (?mem ts (?grp ts c1))" using c1(2) by (simp add: grown_def)
    ultimately show ?thesis unfolding returns_def by blast
  qed
qed simp

end
