(* ===== verification/SliceGraph.thy ===== *)
theory SliceGraph
  imports CompileGraph
begin

text \<open>
  The slices of a session.  \<open>new_slice lib sl N x\<close> holds for every slice \<open>x\<close> that a constructor returns for
  arguments among the slices below \<open>N\<close>; \<open>built\<close> holds for the slices of a session that has called the
  constructors in turn and has got results of invocations, which embed the slice that was invoked.  All of them are
  well-formed in the sense of the compiler, provided that the arguments that the constructors do not
  check are sensible (\<open>unchecked_ok\<close>): \<open>ReaderFunc\<close>, \<open>Reshard\<close> and \<open>ReadCache\<close> take any number of shards, and \<open>Cache\<close> and
  \<open>CachePartial\<close> with an empty prefix make a cache without an entry for any shard.
\<close>

inductive new_slice :: "('fs, 'w, 'u) filelib \<Rightarrow> 'v slices \<Rightarrow> nat \<Rightarrow> 'v Slice \<Rightarrow> bool" for lib sl N where
  "slice_Const frames nshard columns rws g = Ret (g', x) \<Longrightarrow> new_slice lib sl N x"
| "slice_ReaderFunc frames nshard read prags g = Ret (g', x) \<Longrightarrow> new_slice lib sl N x"
| "slice_WriterFunc frames sl s write g = Ret (g', x) \<Longrightarrow> s < N \<Longrightarrow> new_slice lib sl N x"
| "slice_Map frames sl s func prags g = Ret (g', x) \<Longrightarrow> s < N \<Longrightarrow> new_slice lib sl N x"
| "slice_Filter frames sl s pred prags g = Ret (g', x) \<Longrightarrow> s < N \<Longrightarrow> new_slice lib sl N x"
| "slice_Flatmap frames sl s func prags g = Ret (g', x) \<Longrightarrow> s < N \<Longrightarrow> new_slice lib sl N x"
| "slice_Fold frames makeOps sl s fld g = Ret (g', x) \<Longrightarrow> s < N \<Longrightarrow> new_slice lib sl N x"
| "slice_Head frames sl s n g = Ret (g', x) \<Longrightarrow> s < N \<Longrightarrow> new_slice lib sl N x"
| "slice_Scan frames sl s g = Ret (g', x) \<Longrightarrow> s < N \<Longrightarrow> new_slice lib sl N x"
| "slice_Prefixed sl s prefix = Ret x \<Longrightarrow> s < N \<Longrightarrow> new_slice lib sl N x"
| "slice_Reduce frames makeOps sl s red g = Ret (g', x) \<Longrightarrow> s < N \<Longrightarrow> new_slice lib sl N x"
| "slice_Reshuffle frames makeOps sl s g = Ret (g', x) \<Longrightarrow> s < N \<Longrightarrow> new_slice lib sl N x"
| "slice_Repartition ofInt toInt ctx frames sl s part g = Ret (g', x) \<Longrightarrow> s < N \<Longrightarrow> new_slice lib sl N x"
| "slice_Reshard frames makeOps sl s nshard g = Ret (g', Some x) \<Longrightarrow> s < N \<Longrightarrow> new_slice lib sl N x"
| "slice_Cogroup frames makeOps sl ss g = Ret (g', x) \<Longrightarrow> \<forall>s\<in>set ss. s < N \<Longrightarrow> new_slice lib sl N x"
| "slice_Cache frames lib fs sl s prefix g = Ret (g', x) \<Longrightarrow> s < N \<Longrightarrow> new_slice lib sl N x"
| "slice_CachePartial frames lib fs sl s prefix g = Ret (g', x) \<Longrightarrow> s < N \<Longrightarrow> new_slice lib sl N x"
| "slice_ReadCache frames lib fs typ numShard prefix g = Ret (g', x) \<Longrightarrow> new_slice lib sl N x"

inductive built :: "('fs, 'w, 'u) filelib \<Rightarrow> (nat \<Rightarrow> 'v CTask) \<Rightarrow> nat \<Rightarrow> 'v slices \<Rightarrow> nat \<Rightarrow> bool" for lib h0 n0 where
  start: "built lib h0 n0 sl 0"
| slice: "built lib h0 n0 sl N \<Longrightarrow> new_slice lib sl N x \<Longrightarrow> built lib h0 n0 (sl(N := x)) (Suc N)"
| result: "built lib h0 n0 sl N \<Longrightarrow> s < N \<Longrightarrow> slNumShard (sl s) = int (length ts) \<Longrightarrow>
    \<forall>t\<in>set ts. t < n0 \<and> tGroup (h0 t) = [] \<and> sfunc_IsNil (ctCombiner (h0 t)) \<Longrightarrow>
    built lib h0 n0 (sl(N := (sl s)\<lparr>slImpl := Result ts\<rparr>)) (Suc N)"

text \<open>The arguments that the constructors do not check.\<close>

definition unchecked_ok :: "'v Slice \<Rightarrow> bool" where
  "unchecked_ok x \<longleftrightarrow> (case slImpl x of
       readerFuncSlice f t \<Rightarrow> 0 < slNumShard x
     | reshardSlice \<Rightarrow> 0 < slNumShard x
     | readCacheSlice c \<Rightarrow> 0 < slNumShard x
     | cacheSlice c \<Rightarrow> fcPrefix c \<noteq> []
     | _ \<Rightarrow> True)"

lemma MakeName_Op: "MakeName op frames g = Ret (g', name) \<Longrightarrow> Op name = op"
  by (auto simp: MakeName_def Let_def split: if_splits prod.splits)

lemma slice_ok_old:
  assumes "s < N" and "slice_ok h0 n0 sl s"
  shows "slice_ok h0 n0 (sl(N := x)) s"
proof -
  have u: "y \<le> s \<Longrightarrow> (sl(N := x)) y = sl y" for y using assms(1) by simp
  have "\<forall>d\<in>set (slDeps (sl s)). dpSlice d < s \<and> (\<not> dpShuffle d \<longrightarrow> slNumShard ((sl(N := x)) (dpSlice d)) = slNumShard (sl s))"
    using slice_ok_dep [OF assms(2)] u by (simp add: less_imp_le)
  then show ?thesis using assms unfolding slice_ok_def u [OF order_refl]
    by (cases "slImpl (sl s)") (auto simp: u simp del: fun_upd_apply)
qed

text \<open>What a constructor has to set; most slices keep the number of shards of the one they are made of.\<close>

definition made_ok :: "'v slices \<Rightarrow> nat \<Rightarrow> 'v Slice \<Rightarrow> bool" where
  "made_ok sl N x \<longleftrightarrow> 0 < slNumShard x \<and> base_ok (Op (slName x)) \<and>
     (\<forall>d\<in>set (slDeps x). dpSlice d < N \<and> (\<not> dpShuffle d \<longrightarrow> slNumShard (sl (dpSlice d)) = slNumShard x)) \<and>
     (\<forall>u. slImpl x = prefixSlice u \<longrightarrow> u < N \<and> slNumShard (sl u) = slNumShard x) \<and>
     (\<forall>fc. slImpl x = cacheSlice fc \<longrightarrow> length (shardIsCached fc) = nat (slNumShard x)) \<and> (\<forall>ts. slImpl x \<noteq> Result ts)"

lemma made_slice_ok:
  assumes "made_ok sl N x"
  shows "slice_ok h0 n0 (sl(N := x)) N"
  using assms by (cases "slImpl x") (auto simp: made_ok_def slice_ok_def)

lemma base_names:
  "base_ok ''const''" "base_ok ''reader''" "base_ok ''writer''" "base_ok ''map''" "base_ok ''filter''" "base_ok ''flatmap''" "base_ok ''fold''"
  "base_ok ''scan''" "base_ok ''reduce''" "base_ok ''reshuffle''" "base_ok ''repartition''" "base_ok ''reshard''" "base_ok ''cogroup''"
  "base_ok ''cache''" "base_ok ''cachepartial''" "base_ok ''readcache''" "base_ok (''head('' @ n @ '')'')"
  by (code_simp | simp add: base_ok_def is_digit_def)+

lemma cache_lengths:
  "prefix \<noteq> [] \<Longrightarrow> length (shardIsCached (NewFileShardCache lib fs prefix n)) = n"
  "length (shardIsCached (RequireAllCached c)) = length (shardIsCached c)"
  by (simp_all add: NewFileShardCache_def RequireAllCached_def Let_def)

lemma cache_prefix: "fcPrefix (NewFileShardCache lib fs prefix n) = prefix" "fcPrefix (RequireAllCached c) = fcPrefix c"
  by (simp_all add: NewFileShardCache_def RequireAllCached_def Let_def)

lemma fold_max_pos:
  fixes f :: "nat \<Rightarrow> int"
  shows "0 \<le> n \<Longrightarrow> (0 < n \<or> (\<exists>s\<in>set ss. 0 < f s)) \<Longrightarrow> 0 < fold (\<lambda>t n. if n < f t then f t else n) ss n"
  by (induction ss arbitrary: n) auto

lemma go_bindE: "go_bind m f = Ret y \<Longrightarrow> (\<And>a. m = Ret a \<Longrightarrow> f a = Ret y \<Longrightarrow> thesis) \<Longrightarrow> thesis"
  by (auto simp: go_bind_eq_Ret)

lemma if_PanicE: "(if b then Panic e else m) = Ret y \<Longrightarrow> (\<not> b \<Longrightarrow> m = Ret y \<Longrightarrow> thesis) \<Longrightarrow> thesis"
  by (simp split: if_splits)

lemma case_PanicE: "(case v of None \<Rightarrow> Panic e | Some a \<Rightarrow> f a) = Ret y \<Longrightarrow> (\<And>a. v = Some a \<Longrightarrow> f a = Ret y \<Longrightarrow> thesis) \<Longrightarrow> thesis"
  by (simp split: option.splits)

lemma RetE: "Ret z = Ret y \<Longrightarrow> (z = y \<Longrightarrow> thesis) \<Longrightarrow> thesis"
  by simp

lemma if_NoneE: "(if b then Ret (g, None) else m) = Ret (g', Some x) \<Longrightarrow> (m = Ret (g', Some x) \<Longrightarrow> thesis) \<Longrightarrow> thesis"
  by (simp split: if_splits)

lemmas go_elims = go_bindE if_PanicE case_PanicE if_NoneE RetE

lemma MakeName_base: "MakeName op frames g = Ret a \<Longrightarrow> base_ok op \<Longrightarrow> base_ok (Op (snd a))"
  by (cases a) (simp add: MakeName_Op)

lemmas made_simps = made_ok_def slice_ok_def singleDep_def cache_lengths cache_prefix unchecked_ok_def base_names base_names(17) [simplified]

lemma new_slice_ok:
  assumes "new_slice lib sl N x" and "slices_ok h0 n0 sl N" and un: "unchecked_ok x"
  shows "made_ok sl N x"
  using assms(1)
proof cases
  case 1
  then show ?thesis
    unfolding slice_Const_def Let_def prod.case_eq_if by (elim go_elims) (auto simp: made_simps dest: MakeName_base)
next
  case 2
  then show ?thesis using un
    unfolding slice_ReaderFunc_def Let_def prod.case_eq_if by (elim go_elims) (auto simp: made_simps dest: MakeName_base)
next
  case 3
  then show ?thesis using slices_okD [OF assms(2)]
    unfolding slice_WriterFunc_def Let_def prod.case_eq_if by (elim go_elims) (auto simp: made_simps dest: MakeName_base)
next
  case 4
  then show ?thesis using slices_okD [OF assms(2)]
    unfolding slice_Map_def Let_def prod.case_eq_if by (elim go_elims) (auto simp: made_simps dest: MakeName_base)
next
  case 5
  then show ?thesis using slices_okD [OF assms(2)]
    unfolding slice_Filter_def Let_def prod.case_eq_if by (elim go_elims) (auto simp: made_simps dest: MakeName_base)
next
  case 6
  then show ?thesis using slices_okD [OF assms(2)]
    unfolding slice_Flatmap_def Let_def prod.case_eq_if by (elim go_elims) (auto simp: made_simps dest: MakeName_base)
next
  case 7
  then show ?thesis using slices_okD [OF assms(2)]
    unfolding slice_Fold_def Let_def prod.case_eq_if by (elim go_elims) (auto simp: made_simps dest: MakeName_base)
next
  case 8
  then show ?thesis using slices_okD [OF assms(2)]
    unfolding slice_Head_def Let_def prod.case_eq_if by (elim go_elims) (auto simp: made_simps dest: MakeName_base)
next
  case 9
  then show ?thesis using slices_okD [OF assms(2)]
    unfolding slice_Scan_def Let_def prod.case_eq_if by (elim go_elims) (auto simp: made_simps dest: MakeName_base)
next
  case (10 s prefix)
  then have "slNumShard x = slNumShard (sl s)" "slName x = slName (sl s)" "slDeps x = slDeps (sl s)" "slImpl x = prefixSlice s"
    unfolding slice_Prefixed_def by (auto elim!: go_elims)
  with slices_okD [OF assms(2) 10(2)] 10(2) slice_ok_dep(1) [OF slices_okD [OF assms(2) 10(2)]]
  show ?thesis by (fastforce simp: made_ok_def slice_ok_def)
next
  case 11
  then show ?thesis using slices_okD [OF assms(2)]
    unfolding slice_Reduce_def Let_def prod.case_eq_if by (elim go_elims) (auto simp: made_simps dest: MakeName_base)
next
  case 12
  then show ?thesis using slices_okD [OF assms(2)]
    unfolding slice_Reshuffle_def Let_def prod.case_eq_if by (elim go_elims) (auto simp: made_simps dest: MakeName_base)
next
  case 13
  then show ?thesis using slices_okD [OF assms(2)]
    unfolding slice_Repartition_def Let_def prod.case_eq_if by (elim go_elims) (auto simp: made_simps dest: MakeName_base)
next
  case 14
  then show ?thesis using un slices_okD [OF assms(2)]
    unfolding slice_Reshard_def Let_def prod.case_eq_if by (elim go_elims) (auto simp: made_simps dest: MakeName_base)
next
  case (15 frames makeOps ss g g')
  then obtain s rest where ss: "ss = s # rest" by (cases ss) (simp_all add: slice_Cogroup_def)
  have "0 < slNumShard (sl s)" using slices_okD [OF assms(2)] 15(2) ss by (simp add: slice_ok_def)
  then have "0 < fold (\<lambda>t n. if n < slNumShard (sl t) then slNumShard (sl t) else n) ss 0" using ss by (intro fold_max_pos) auto
  with 15 show ?thesis
    unfolding slice_Cogroup_def Let_def prod.case_eq_if ss list.case by (elim go_elims) (auto simp: made_simps dest: MakeName_base)
next
  case 16
  then show ?thesis using un slices_okD [OF assms(2)]
    unfolding slice_Cache_def Let_def prod.case_eq_if by (elim go_elims) (auto simp: made_simps dest: MakeName_base)
next
  case 17
  then show ?thesis using un slices_okD [OF assms(2)]
    unfolding slice_CachePartial_def Let_def prod.case_eq_if by (elim go_elims) (auto simp: made_simps dest: MakeName_base)
next
  case 18
  then show ?thesis using un
    unfolding slice_ReadCache_def Let_def prod.case_eq_if by (elim go_elims) (auto simp: made_simps dest: MakeName_base)
qed

text \<open>
  C18.  Every slice that a session builds by the constructors, or gets as a result, is well-formed, with the slices it
  was built from: it has at least one shard, it depends on slices made before it, a dependency without a
  shuffle has as many shards as the slice itself, a cache has an entry for every shard, and its name does
  not end in a digit.  These are the hypotheses of the compiler.  The arguments that no constructor
  checks are taken to be sensible: a positive number of shards for \<open>ReaderFunc\<close>, \<open>Reshard\<close> and \<open>ReadCache\<close>, and
  a prefix for \<open>Cache\<close> and \<open>CachePartial\<close>.
\<close>

theorem built_slices_ok:
  assumes "built lib h0 n0 sl N" and "\<forall>s<N. unchecked_ok (sl s)"
  shows "slices_ok h0 n0 sl N"
  using assms
proof induction
  case start
  show ?case by (simp add: slices_ok_def)
next
  case (slice sl N x)
  have "unchecked_ok (sl s)" if "s < N" for s using slice.prems [rule_format, of s] that by simp
  moreover have "unchecked_ok x" using slice.prems by auto
  ultimately show ?case
    using made_slice_ok [OF new_slice_ok [OF slice.hyps(2) slice.IH], of h0 n0] slice_ok_old [of _ N h0 n0 sl x] slice.IH
    by (simp add: slices_ok_def less_Suc_eq del: fun_upd_apply)
next
  case (result sl N s ts)
  let ?x = "(sl s)\<lparr>slImpl := Result ts\<rparr>"
  have "unchecked_ok (sl s)" if "s < N" for s using result.prems [rule_format, of s] that by simp
  with result.IH have IH: "slices_ok h0 n0 sl N" by blast
  have s: "slice_ok h0 n0 sl s" by (rule slices_okD [OF IH result.hyps(2)])
  have "dpSlice d < N" if "d \<in> set (slDeps (sl s))" for d using slice_ok_dep(1) [OF s that] result.hyps(2) by simp
  then have "slice_ok h0 n0 (sl(N := ?x)) N"
    using s result.hyps(2-4) slice_ok_dep(2) [OF s] by (fastforce simp: slice_ok_def)
  with IH show ?case using slice_ok_old [of _ N h0 n0 sl ?x] by (simp add: slices_ok_def less_Suc_eq del: fun_upd_apply)
qed

text \<open>A session with one constant, and with its result.\<close>

definition blank :: "nat \<Rightarrow> 'v CTask" where
  "blank t = \<lparr>tName = \<lparr>nInvIndex = 0, nOp = [], nShard = 0, nNumShard = 0\<rparr>, tDeps = [], tGroup = [], ctType = 0, ctDo = None, ctPartitioner = None,
     ctNumPartition = 0, ctCombiner = sfunc_Nil, ctCombineKey = [], ctPragma = [], ctSlices = []\<rparr>"

lemma Const_example:
  "\<exists>g x. slice_Const [(''main'', ''main.go'', 1)] 2 [TSlice (TBasic ''int'')] [[1 :: int], [2]] \<lparr>helpers = {}, sliceNameIndexerMap = (\<lambda>_. 0)\<rparr> = Ret (g, x)"
  by (simp add: slice_Const_def MakeName_def newNameIndex_def typecheck_Slices_def Let_def)

theorem built_slices_ok_witness:
  "\<exists>g x. slice_Const [(''main'', ''main.go'', 1)] 2 [TSlice (TBasic ''int'')] [[1 :: int], [2]] \<lparr>helpers = {}, sliceNameIndexerMap = (\<lambda>_. 0)\<rparr> = Ret (g, x) \<and>
    slices_ok blank 5 ((\<lambda>_. x)(0 := x, Suc 0 := x\<lparr>slImpl := Result [3, 4]\<rparr>)) 2"
proof -
  from Const_example obtain g and x :: "int Slice" where
    x: "slice_Const [(''main'', ''main.go'', 1)] 2 [TSlice (TBasic ''int'')] [[1 :: int], [2]] \<lparr>helpers = {}, sliceNameIndexerMap = (\<lambda>_. 0)\<rparr> = Ret (g, x)" by blast
  let ?sl = "(\<lambda>_. x)(0 := x)"
  have c: "slNumShard x = 2" "\<exists>rws. slImpl x = constSlice rws" using x unfolding slice_Const_def Let_def prod.case_eq_if by (auto elim!: go_elims)
  have b: "built mem_lib blank 5 ?sl (Suc 0)" by (rule built.slice [OF built.start new_slice.intros(1) [OF x]])
  have "sfunc_IsNil (ctCombiner (blank t :: int CTask))" for t by (simp add: blank_def sfunc_Nil_def sfunc_IsNil_def)
  with built.result [OF b, of 0 "[3, 4]"] c have "built mem_lib blank 5 (?sl(Suc 0 := x\<lparr>slImpl := Result [3, 4]\<rparr>)) (Suc (Suc 0))"
    by (simp add: blank_def)
  from built_slices_ok [OF this] c x show ?thesis by (auto simp: unchecked_ok_def less_Suc_eq numeral_2_eq_2)
qed

end
