(* ===== verification/CompileCorrect.thy ===== *)
theory CompileCorrect
  imports SliceGraph
begin

text \<open>
  The theorems on \<open>compile\<close>: an invocation of well-formed slices compiles to a well-formed task graph,
  on top of the graphs of earlier invocations; the tasks have distinct names; and every task computes
  the shard of the slice it was compiled from.  Two uses of the compiler fall outside: a cached slice
  that is pipelined into another one, and a result that is shuffled.
\<close>

lemma list_all2_in2: "list_all2 P xs ys \<Longrightarrow> y \<in> set ys \<Longrightarrow> \<exists>x\<in>set xs. P x y"
  by (induction rule: list_all2_induct) auto

section \<open>Invocations\<close>

lemma cinv_init:
  "cinv h0 n0 N sl \<lparr>namer = (\<lambda>_. 0), invIndex = ix, machineCombiners = mc, memo = (\<lambda>_. None), env = makeCompileEnv, heap = h0, nextTask = n0\<rparr> {}"
  by (auto simp: cinv_def tasks_inv_def memo_ok_def names_ok_def marks_ok_def makeCompileEnv_def)

lemma invocation_spec:
  assumes "slices_ok h0 n0 sl N" and "s < N" and "s < k"
  obtains c ts where "compile_invocation k ix makeCompileEnv mc h0 n0 sl s = Some (Ret (c, Inr ts))" and "cinv h0 n0 N sl c {}"
    and "compiled_for n0 sl c {} s noPart ts" and "invIndex c = ix"
proof -
  from compile_spec [OF assms(1,2) cinv_init assms(3)] show thesis
    using that unfolding returns_def compile_invocation_def grown_def by fastforce
qed

section \<open>The graph\<close>

text \<open>
  The tasks of a session: the tasks below \<open>n\<close> refer to tasks below \<open>n\<close> only, and with the rest of the
  heap, which is blank, they form a well-formed graph of rank below \<open>M\<close>.
\<close>

definition tasks_ok :: "(nat \<Rightarrow> 'v CTask) \<Rightarrow> nat \<Rightarrow> nat \<Rightarrow> bool" where
  "tasks_ok h n M \<longleftrightarrow> (\<forall>t<n. (\<forall>u\<in>set (tGroup (h t)). u < n) \<and> (\<forall>d\<in>set (tDeps (h t)). \<forall>src. dHead d = Some src \<longrightarrow> src < n)) \<and>
     (\<forall>t\<ge>n. tGroup (h t) = [] \<and> tDeps (h t) = []) \<and> (\<exists>rk. graph_ok h rk \<and> (\<forall>t. rk t < M))"

lemma compiled_group:
  assumes "compiled_task N n0 sl c {} t" and "n0 \<le> t" and "slices_ok h0 n0 sl N"
  shows "tGroup (heap c t) = [] \<or>
    t \<in> set (tGroup (heap c t)) \<and> distinct (tGroup (heap c t)) \<and> (\<forall>u\<in>set (tGroup (heap c t)).
      n0 \<le> u \<and> u < nextTask c \<and> tGroup (heap c u) = tGroup (heap c t) \<and> ctType (heap c u) = ctType (heap c t))"
proof -
  let ?s = "ctType (heap c t)" and ?i = "nShard (tName (heap c t))"
  from assms(1) obtain part ts where ts: "?s < N" "compiled_for n0 sl c {} ?s part ts" "?i < length ts" "ts ! ?i = t" unfolding compiled_task_def by blast
  have "\<not> (result_of sl ?s \<noteq> None \<and> pNum part = 0)"
  proof
    assume "result_of sl ?s \<noteq> None \<and> pNum part = 0"
    then have "result_of sl ?s = Some ts" using ts(2) by (simp add: compiled_for_def)
    from result_of_ok(2) [OF assms(3) ts(1) this] show False using ts(3,4) assms(2) nth_mem [OF ts(3)] by auto
  qed
  with ts(2) have d: "distinct ts" "\<forall>u\<in>set ts. u < nextTask c" and
    at: "\<forall>i<length ts. n0 \<le> ts ! i \<and> ctType (heap c (ts ! i)) = ?s \<and> tGroup (heap c (ts ! i)) = (if pNum part = 0 then [] else ts)"
    unfolding compiled_for_def by (auto split: if_splits)
  have u: "n0 \<le> u \<and> u < nextTask c \<and> ctType (heap c u) = ?s \<and> tGroup (heap c u) = (if pNum part = 0 then [] else ts)" if "u \<in> set ts" for u
  proof -
    obtain j where j: "j < length ts" "u = ts ! j" using \<open>u \<in> set ts\<close> by (auto simp: in_set_conv_nth)
    show ?thesis unfolding j(2) using at [rule_format, OF j(1)] d(2) [rule_format, OF nth_mem [OF j(1)]] by (intro conjI) simp_all
  qed
  have "t \<in> set ts" using nth_mem [OF ts(3)] ts(4) by simp
  note g = u [OF this] and t = this
  show ?thesis
  proof (cases "pNum part = 0")
    case False
    then have g: "tGroup (heap c t) = ts" using g by simp
    have "n0 \<le> v \<and> v < nextTask c \<and> tGroup (heap c v) = ts \<and> ctType (heap c v) = ?s" if "v \<in> set ts" for v
      using u [OF that] False by simp
    then show ?thesis unfolding g using d(1) t by blast
  qed (use g in simp)
qed

text \<open>The source of a compiled dependency is the head of a phase, and comes before the task.\<close>

lemma compiled_dep:
  assumes "compiled_for n0 sl c {} x part dts" and "slices_ok h0 n0 sl N" and "x < N" and "\<forall>t<n0. heap c t = h0 t"
    and "i < length dts" and "pNum part \<noteq> 0 \<Longrightarrow> i = 0"
  shows "Head (heap c) (dts ! i) = dts ! i \<and> dts ! i < nextTask c \<and> (dts ! i < n0 \<or> ctType (heap c (dts ! i)) = x)"
proof (cases "result_of sl x \<noteq> None \<and> pNum part = 0")
  case True
  then have r: "result_of sl x = Some dts" using assms(1) by (simp add: compiled_for_def)
  show ?thesis using result_of_ok(2) [OF assms(2,3) r] assms(1,4) nth_mem [OF assms(5)] by (auto simp: compiled_for_def Head_def)
next
  case False
  then have "ctType (heap c (dts ! i)) = x" "tGroup (heap c (dts ! i)) = (if pNum part = 0 then [] else dts)" "dts ! i < nextTask c"
    using assms(1,5) unfolding compiled_for_def by auto
  then show ?thesis using assms(5,6) by (auto simp: Head_def)
qed

lemma compiled_deps:
  assumes "compiled_task N n0 sl c {} t" and "slices_ok h0 n0 sl N" and "\<forall>t<n0. heap c t = h0 t" and "n0 \<le> nextTask c"
    and "d \<in> set (tDeps (heap c t))"
  shows "\<exists>src. dHead d = Some src \<and> Head (heap c) src = src \<and> src < nextTask c \<and> (src < n0 \<or> ctType (heap c src) < ctType (heap c t))"
proof -
  let ?s = "ctType (heap c t)" and ?i = "nShard (tName (heap c t))"
  from assms(1) obtain part ts where ts: "?s < N" "compiled_for n0 sl c {} ?s part ts" "?i < length ts" "task_shape n0 sl c {} ?s ?i (heap c t)"
    unfolding compiled_task_def by blast
  have i: "?i < nat (slNumShard (sl ?s))" using ts(2,3) by (simp add: compiled_for_def)
  show ?thesis
  proof (cases "result_of sl ?s")
    case (Some tks)
    note ok = result_of_ok [OF assms(2) ts(1) Some]
    have "dHead d = Some (tks ! ?i)" using ts(4) Some assms(5) by (simp add: task_shape_def)
    moreover have "tks ! ?i \<in> set tks" using i ok(1) by simp
    ultimately show ?thesis using ok(2) assms(3,4) by (auto simp: Head_def)
  next
    case None
    from pipeline_spec [OF assms(2) ts(1)] None obtain ss where ss: "pipeline sl ?s = Some ss" "ss \<noteq> []"
      "\<forall>x\<in>set ss. x \<le> ?s \<and> slNumShard (sl x) = slNumShard (sl ?s)" by auto
    have "last ss \<le> ?s" "slNumShard (sl (last ss)) = slNumShard (sl ?s)" using ss(2,3) by auto
    note ls = this le_less_trans [OF this(1) ts(1)]
    have "list_all2 (dep_shape n0 sl c {} ?s (last ss) ?i) (slDeps (sl (last ss))) (tDeps (heap c t))"
      using ts(4) None ss(1) assms(5) by (auto simp: task_shape_def pipe_shape_def)
    then obtain sd where sd: "sd \<in> set (slDeps (sl (last ss)))" "dep_shape n0 sl c {} ?s (last ss) ?i sd d"
      using list_all2_in2 [OF _ assms(5)] by blast
    note dp = slice_ok_dep [OF slices_okD [OF assms(2) ls(3)] sd(1)]
    have x: "dpSlice sd < N" "dpSlice sd < ?s" using dp(1) ls by auto
    have pos: "0 < slNumShard (sl (dpSlice sd))" using slices_okD [OF assms(2) x(1)] by (simp add: slice_ok_def)
    from sd(2) obtain part' dts j where dts: "compiled_for n0 sl c {} (dpSlice sd) part' dts" "dHead d = Some (dts ! j)" "pNum part' \<noteq> 0 \<Longrightarrow> j = 0" "j < length dts"
    proof (cases "dpShuffle sd")
      case True
      with sd(2) obtain dts key where h: "dHead d = Some (hd dts)"
        "compiled_for n0 sl c {} (dpSlice sd) \<lparr>pNum = slNumShard (sl ?s), pPart = dpPartitioner sd, pComb = slCombiner (sl (last ss)), pKey = key\<rparr> dts"
        unfolding dep_shape_def by auto
      moreover have "dts \<noteq> []" using h(2) pos by (auto simp: compiled_for_def)
      ultimately show ?thesis by (intro that [of _ dts 0]) (auto simp: hd_conv_nth)
    next
      case False
      with sd(2) obtain dts where h: "dHead d = Some (dts ! ?i)" "compiled_for n0 sl c {} (dpSlice sd) noPart dts"
        unfolding dep_shape_def by auto
      moreover have "?i < length dts" using h(2) dp(2) [OF False] ls(2) i by (simp add: compiled_for_def)
      ultimately show ?thesis by (intro that [of noPart dts ?i]) (auto simp: noPart_def)
    qed
    from compiled_dep [OF dts(1) assms(2) x(1) assms(3) dts(4,3)] x(2) dts(2) show ?thesis by auto
  qed
qed

lemma cinv_tasks_ok:
  assumes "slices_ok h0 n0 sl N" and "cinv h0 n0 N sl c {}" and "tasks_ok h0 n0 M"
  shows "tasks_ok (heap c) (nextTask c) (M + N)"
proof -
  from assms(3) obtain rk0 where g0: "graph_ok h0 rk0" "\<forall>t. rk0 t < M" and
    cl: "\<And>t u. t < n0 \<Longrightarrow> u \<in> set (tGroup (h0 t)) \<Longrightarrow> u < n0" "\<And>t d src. t < n0 \<Longrightarrow> d \<in> set (tDeps (h0 t)) \<Longrightarrow> dHead d = Some src \<Longrightarrow> src < n0"
    "\<And>t. n0 \<le> t \<Longrightarrow> tGroup (h0 t) = [] \<and> tDeps (h0 t) = []" unfolding tasks_ok_def by blast
  have n0: "n0 \<le> nextTask c" and old: "\<And>t. t < n0 \<or> nextTask c \<le> t \<Longrightarrow> heap c t = h0 t"
    and new: "\<And>t. n0 \<le> t \<Longrightarrow> t < nextTask c \<Longrightarrow> compiled_task N n0 sl c {} t" using assms(2) by (auto simp: cinv_def tasks_inv_def)
  define rk where "rk t = (if n0 \<le> t \<and> t < nextTask c then M + ctType (heap c t) else rk0 t)" for t
  note dep = compiled_deps [OF new assms(1) _ n0] and grp = compiled_group [OF new _ assms(1)]
  have "t \<in> set (Phase (heap c) t) \<and> distinct (Phase (heap c) t) \<and> (\<forall>u\<in>set (Phase (heap c) t). Phase (heap c) u = Phase (heap c) t \<and> rk u = rk t) \<and>
     (\<forall>d\<in>set (tDeps (heap c t)). \<exists>src. dHead d = Some src \<and> Head (heap c) src = src \<and> rk src < rk t)" for t
  proof -
    consider "n0 \<le> t" "t < nextTask c" | "t < n0" | "n0 \<le> t" "nextTask c \<le> t" by linarith
    then show ?thesis
    proof cases
      case 1
      have "\<exists>src. dHead d = Some src \<and> Head (heap c) src = src \<and> rk src < rk t" if "d \<in> set (tDeps (heap c t))" for d
        using dep [OF 1 _ that] old 1 g0(2) by (auto simp: rk_def trans_less_add1)
      then show ?thesis using grp [OF 1 1(1)] 1 by (auto simp: Phase_def rk_def)
    next
      case 2
      have p: "Phase (heap c) t = Phase h0 t" using old 2 by (simp add: Phase_def)
      have u: "u < n0" if "u \<in> set (Phase h0 t)" for u using that 2 cl(1) [OF 2] by (auto simp: Phase_def split: if_splits)
      have "Phase (heap c) u = Phase h0 t \<and> rk u = rk t" if "u \<in> set (Phase h0 t)" for u
      proof -
        have "Phase (heap c) u = Phase h0 u" using old u [OF that] by (simp add: Phase_def)
        then show ?thesis using graph_okD(3,4) [OF g0(1) that] u [OF that] 2 by (simp add: rk_def)
      qed
      moreover have "\<exists>src. dHead d = Some src \<and> Head (heap c) src = src \<and> rk src < rk t" if "d \<in> set (tDeps (heap c t))" for d
      proof -
        have d: "d \<in> set (tDeps (h0 t))" using that old 2 by simp
        from graph_dep [OF g0(1) d] obtain src where "dHead d = Some src" "Head h0 src = src" "rk0 src < rk0 t" by blast
        moreover from cl(2) [OF 2 d this(1)] have "src < n0" .
        ultimately show ?thesis using old 2 by (auto simp: rk_def Head_def split: if_splits)
      qed
      ultimately show ?thesis using graph_okD(1,2) [OF g0(1), of t] unfolding p by blast
    next
      case 3
      then show ?thesis using old [of t] cl(3) [of t] by (simp add: Phase_def)
    qed
  qed
  then have "graph_ok (heap c) rk" by (simp add: graph_ok_def)
  moreover have "rk t < M + N" for t using new [of t] g0(2) by (auto simp: rk_def compiled_task_def trans_less_add1)
  moreover have "(\<forall>u\<in>set (tGroup (heap c t)). u < nextTask c) \<and> (\<forall>d\<in>set (tDeps (heap c t)). \<forall>src. dHead d = Some src \<longrightarrow> src < nextTask c)"
    if "t < nextTask c" for t
  proof (cases "t < n0")
    case True
    then show ?thesis using cl(1,2) [OF True] n0 old [of t] by fastforce
  next
    case False
    then have t: "n0 \<le> t" "\<forall>t<n0. heap c t = h0 t" using old by simp_all
    show ?thesis using grp [OF t(1) that t(1)] dep [OF t(1) that t(2)] by fastforce
  qed
  moreover have "tGroup (heap c t) = [] \<and> tDeps (heap c t) = []" if "nextTask c \<le> t" for t using that old [of t] cl(3) [of t] n0 by simp
  ultimately show ?thesis unfolding tasks_ok_def by blast
qed

text \<open>
  C10.  \<open>compile\<close> returns a well-formed task graph.  For well-formed slices and any earlier tasks that
  form a well-formed graph, compilation returns (there is no error, no panic, and the recursion ends
  before the depth bound), with one task per shard.  The earlier tasks are left as they are, and all
  tasks together form a well-formed graph again: phases partition the tasks and dependencies name
  heads of phases, without cycles.  The tasks returned are outside any group and without a combiner, so
  that they can be a result, from which later invocations compute.
\<close>

theorem compile_graph:
  assumes "slices_ok h0 n0 sl N" and "s < N" and "s < k" and "tasks_ok h0 n0 M"
  shows "\<exists>c ts. compile_invocation k ix makeCompileEnv mc h0 n0 sl s = Some (Ret (c, Inr ts)) \<and> tasks_ok (heap c) (nextTask c) (M + N) \<and>
    (\<forall>t<n0. heap c t = h0 t) \<and> length ts = nat (slNumShard (sl s)) \<and>
    (\<forall>t\<in>set ts. t < nextTask c \<and> tGroup (heap c t) = [] \<and> sfunc_IsNil (ctCombiner (heap c t)))"
proof -
  obtain c ts where c: "compile_invocation k ix makeCompileEnv mc h0 n0 sl s = Some (Ret (c, Inr ts))" "cinv h0 n0 N sl c {}"
    "compiled_for n0 sl c {} s noPart ts" using invocation_spec [OF assms(1-3)] by blast
  have old: "\<forall>t<n0. heap c t = h0 t" using c(2) by (simp add: cinv_def tasks_inv_def)
  have "t < nextTask c \<and> tGroup (heap c t) = [] \<and> sfunc_IsNil (ctCombiner (heap c t))" if t: "t \<in> set ts" for t
  proof (cases "result_of sl s")
    case (Some tks)
    then have "tks = ts" using c(3) by (simp add: compiled_for_def noPart_def)
    then show ?thesis using result_of_ok(2) [OF assms(1,2) Some] t old c(3) by (simp add: compiled_for_def)
  next
    case None
    then show ?thesis using c(3) t unfolding compiled_for_def noPart_def by (auto simp: in_set_conv_nth sfunc_IsNil_def sfunc_Nil_def)
  qed
  then show ?thesis using c old cinv_tasks_ok [OF assms(1) c(2) assms(4)] by (intro exI [of _ c] exI [of _ ts]) (auto simp: compiled_for_def)
qed

text \<open>
  C21.  The tasks of an invocation have distinct names, all with the index of the invocation: for slices
  whose operation names do not end in a digit, the namer never hands out a name twice, although it
  appends a counter without a separator.
\<close>

theorem compile_names:
  assumes "slices_ok h0 n0 sl N" and "s < N" and "s < k" and "compile_invocation k ix makeCompileEnv mc h0 n0 sl s = Some (Ret (c, Inr ts))"
  shows "inj_on (\<lambda>t. tName (heap c t)) {n0 ..< nextTask c} \<and> (\<forall>t\<in>{n0 ..< nextTask c}. nInvIndex (tName (heap c t)) = ix)"
proof -
  obtain c' ts' where c: "compile_invocation k ix makeCompileEnv mc h0 n0 sl s = Some (Ret (c', Inr ts'))" "cinv h0 n0 N sl c' {}" "invIndex c' = ix"
    using invocation_spec [OF assms(1-3)] by blast
  then have "c' = c" using assms(4) by simp
  then show ?thesis using c(2,3) by (simp add: cinv_def names_ok_def)
qed

section \<open>The meaning of the tasks\<close>

text \<open>
  The data that flow between tasks have the type \<open>'x\<close>.  An executor gives a task one reader for each
  dependency, or, if the dependency is expanded, one for each of its tasks (\<open>depReaders\<close> in
  \<open>exec/local.go\<close>): \<open>out u p\<close> is partition \<open>p\<close> of the output of the task \<open>u\<close>, \<open>multi\<close> reads its arguments
  in turn and \<open>comb\<close> combines them by a combiner.  \<open>split\<close> is the partition of an output.
\<close>

definition dep_inputs ::
  "(nat \<Rightarrow> 'v CTask) \<Rightarrow> (nat \<Rightarrow> nat \<Rightarrow> 'x) \<Rightarrow> ('x list \<Rightarrow> 'x) \<Rightarrow> ('v sfunc \<Rightarrow> 'x list \<Rightarrow> 'x) \<Rightarrow> TaskDep \<Rightarrow> 'x list" where
  "dep_inputs h out multi comb d =
     (let us = dep_tasks h d; q = map (\<lambda>u. out u (dPartition d)) us
      in if us \<noteq> [] \<and> \<not> sfunc_IsNil (ctCombiner (h (hd us))) then [comb (ctCombiner (h (hd us))) q]
         else if dExpand d then q else [multi q])"

definition task_out :: "('v cpart option \<Rightarrow> int \<Rightarrow> 'x \<Rightarrow> nat \<Rightarrow> 'x) \<Rightarrow> (nat \<Rightarrow> 'v CTask) \<Rightarrow> (nat \<Rightarrow> 'x) \<Rightarrow> nat \<Rightarrow> nat \<Rightarrow> 'x" where
  "task_out split h T u p = split (ctPartitioner (h u)) (ctNumPartition (h u)) (T u) p"

text \<open>
  The meaning of slices, \<open>V s i\<close> for shard \<open>i\<close> of \<open>s\<close>: what the reader of a slice makes of the shards
  it depends on, with no tasks involved.  A shuffle dependency contributes partition \<open>i\<close> of every shard.
\<close>

definition slice_inputs ::
  "'v slices \<Rightarrow> ('v cpart option \<Rightarrow> int \<Rightarrow> 'x \<Rightarrow> nat \<Rightarrow> 'x) \<Rightarrow> ('x list \<Rightarrow> 'x) \<Rightarrow> ('v sfunc \<Rightarrow> 'x list \<Rightarrow> 'x)
     \<Rightarrow> (nat \<Rightarrow> nat \<Rightarrow> 'x) \<Rightarrow> nat \<Rightarrow> nat \<Rightarrow> 'v Dep \<Rightarrow> 'x list" where
  "slice_inputs sl split multi comb V s i d =
     (let q = (if dpShuffle d
               then map (\<lambda>j. split (Some (case dpPartitioner d of None \<Rightarrow> DefaultPartitioner | Some f \<Rightarrow> CustomPartitioner f))
                      (slNumShard (sl s)) (V (dpSlice d) j) i) [0 ..< nat (slNumShard (sl (dpSlice d)))]
               else [V (dpSlice d) i])
      in if dpShuffle d \<and> \<not> sfunc_IsNil (slCombiner (sl s)) then [comb (slCombiner (sl s)) q]
         else if dpExpand d then q else [multi q])"

definition slice_values where
  "slice_values sl N rdr split multi comb V \<longleftrightarrow> (\<forall>s<N. result_of sl s = None \<longrightarrow> (\<forall>i<nat (slNumShard (sl s)).
     rdr s i (concat (map (slice_inputs sl split multi comb V s i) (slDeps (sl s)))) = Ret (V s i)))"

text \<open>What the values of the tasks of earlier invocations have to satisfy: \<open>R t\<close> is the output of the task \<open>t\<close>.\<close>

definition result_values where
  "result_values sl N h0 V R \<longleftrightarrow> (\<forall>s<N. \<forall>tks. result_of sl s = Some tks \<longrightarrow>
     (\<forall>i<length tks. V s i = R (tks ! i) \<and> ctNumPartition (h0 (tks ! i)) = 1))"

text \<open>A slice whose own cache is not used has no cached slice in its pipeline; a cache holds the rows of its slice.\<close>

definition caches_ok where
  "caches_ok sl N cache V \<longleftrightarrow> (\<forall>s<N. \<forall>i ss. pipeline sl s = Some ss \<and> cached_in sl ss i \<longrightarrow>
     fsc_IsCached (slice_cache sl s) i = Ret True \<and> cache s i = Ret (V s i))"

definition no_result_shuffle :: "'v slices \<Rightarrow> nat \<Rightarrow> bool" where
  "no_result_shuffle sl N \<longleftrightarrow> (\<forall>s<N. \<forall>d\<in>set (slDeps (sl s)). dpShuffle d \<longrightarrow> result_of sl (dpSlice d) = None)"

definition task_value :: "nat \<Rightarrow> (nat \<Rightarrow> nat \<Rightarrow> 'x) \<Rightarrow> (nat \<Rightarrow> 'x) \<Rightarrow> (nat \<Rightarrow> 'v CTask) \<Rightarrow> nat \<Rightarrow> 'x" where
  "task_value n0 V R h t = (if t < n0 then R t else V (ctType (h t)) (nShard (tName (h t))))"

lemma slice_inputs_pipe:
  assumes "\<And>x. multi [x] = x" and "\<not> dpShuffle d"
  shows "slice_inputs sl split multi comb V s i d = [V (dpSlice d) i]"
  using assms by (simp add: slice_inputs_def Let_def)

lemma pipe_run:
  assumes "chained sl ss" and "ss \<noteq> []" and "\<forall>x\<in>set ss. x < N \<and> i < nat (slNumShard (sl x)) \<and> result_of sl x = None"
    and "slice_values sl N rdr split multi comb V" and "\<And>x. multi [x] = x" and "rdr (last ss) i inp = Ret (V (last ss) i)"
  shows "\<exists>d. fold (push_do i) (rev ss) None = Some d \<and> run_do rdr cache (\<lambda>_ _ x. x) d inp = Ret (V (hd ss) i)"
  using assms(1-4,6)
proof (induction sl ss rule: chained.induct)
  case (1 sl x y ys)
  then obtain d where d: "slDeps (sl x) = [d]" "\<not> dpShuffle d" "dpSlice d = y" by auto
  from 1 obtain p where p: "fold (push_do i) (rev (y # ys)) None = Some p" "run_do rdr cache (\<lambda>_ _ x. x) p inp = Ret (V y i)" by auto
  have "x < N" "result_of sl x = None" "i < nat (slNumShard (sl x))" using 1(4) by auto
  then have "rdr x i (concat (map (slice_inputs sl split multi comb V x i) (slDeps (sl x)))) = Ret (V x i)"
    using 1(5) by (simp only: slice_values_def)
  then have v: "rdr x i [V y i] = Ret (V x i)" using d slice_inputs_pipe [of multi d, OF assms(5) d(2)] by simp
  have "fold (push_do i) (rev (x # y # ys)) None = push_do i x (fold (push_do i) (rev (y # ys)) None)" by simp
  also have "\<dots> = Some (DoPipe x i p)" unfolding p(1) by (simp add: push_do_def)
  finally show ?case using p(2) v by simp
qed (simp_all add: push_do_def)

text \<open>What a compiled dependency gives to its task is what the dependency of the slice contributes.\<close>

definition sem_ok where
  "sem_ok h0 n0 N sl h V R split multi \<longleftrightarrow> slices_ok h0 n0 sl N \<and> (\<forall>t<n0. h t = h0 t) \<and> result_values sl N h0 V R \<and> no_result_shuffle sl N \<and>
     (\<forall>x. multi [x] = x) \<and> (\<forall>p x. split p 1 x 0 = x)"

lemma same_shard_value:
  assumes ok: "sem_ok h0 n0 N sl (heap c) V R split multi" and "compiled_for n0 sl c {} x noPart dts" and "x < N" and "i < length dts"
  shows "tGroup (heap c (dts ! i)) = [] \<and> sfunc_IsNil (ctCombiner (heap c (dts ! i))) \<and>
    task_out split (heap c) (task_value n0 V R (heap c)) (dts ! i) 0 = V x i"
proof (cases "result_of sl x")
  case (Some tks)
  then have "tks = dts" using assms(2) by (simp add: compiled_for_def noPart_def)
  moreover have "slices_ok h0 n0 sl N" "\<forall>t<n0. heap c t = h0 t" "result_values sl N h0 V R" "\<forall>p x. split p 1 x 0 = x" using ok by (simp_all add: sem_ok_def)
  ultimately show ?thesis
    using result_of_ok(2) [OF _ assms(3) Some] Some assms(3,4) nth_mem [OF assms(4)]
    by (simp add: result_values_def task_out_def task_value_def)
next
  case None
  then have "\<not> dts ! i < n0" using assms(2,4) by (simp add: compiled_for_def not_less)
  with None show ?thesis
    using assms(2,4) ok by (simp add: sem_ok_def compiled_for_def noPart_def p_NumPartition_def sfunc_IsNil_def sfunc_Nil_def task_out_def task_value_def)
qed

lemma dep_value:
  assumes ok: "sem_ok h0 n0 N sl (heap c) V R split multi" and "dep_shape n0 sl c {} s ls i d td" and "d \<in> set (slDeps (sl ls))" and "ls < N"
    and "slNumShard (sl ls) = slNumShard (sl s)" and "i < nat (slNumShard (sl s))"
  shows "dep_inputs (heap c) (task_out split (heap c) (task_value n0 V R (heap c))) multi comb td = slice_inputs sl split multi comb V ls i d"
proof -
  have sl: "slices_ok h0 n0 sl N" and nores: "no_result_shuffle sl N" using ok by (simp_all add: sem_ok_def)
  note dp = slice_ok_dep [OF slices_okD [OF sl assms(4)] assms(3)]
  have x: "dpSlice d < N" using dp(1) assms(4) by simp
  show ?thesis
  proof (cases "dpShuffle d")
    case False
    with assms(2) obtain dts where dts: "dHead td = Some (dts ! i)" "dPartition td = 0" "dExpand td = dpExpand d" "compiled_for n0 sl c {} (dpSlice d) noPart dts"
      unfolding dep_shape_def by auto
    have "i < length dts" using dts(4) dp(2) [OF False] assms(5,6) by (simp add: compiled_for_def)
    from same_shard_value [OF ok dts(4) x this] show ?thesis
      using False dts(1-3) by (simp add: dep_inputs_def slice_inputs_def dep_tasks_def Let_def)
  next
    case True
    with assms(2) obtain dts key where h: "dHead td = Some (hd dts)" "dPartition td = i" "dExpand td = dpExpand d"
      "compiled_for n0 sl c {} (dpSlice d) \<lparr>pNum = slNumShard (sl s), pPart = dpPartitioner d, pComb = slCombiner (sl ls), pKey = key\<rparr> dts"
      unfolding dep_shape_def by auto
    have r: "result_of sl (dpSlice d) = None" using nores True assms(3,4) by (simp add: no_result_shuffle_def)
    have pos: "0 < slNumShard (sl (dpSlice d))" "0 < slNumShard (sl s)"
      using slices_okD [OF sl x] assms(6) by (simp_all add: slice_ok_def)
    have len: "length dts = nat (slNumShard (sl (dpSlice d)))" using h(4) by (simp add: compiled_for_def)
    have ne: "dts \<noteq> []" using len pos(1) by auto
    have at: "\<not> dts ! j < n0 \<and> ctType (heap c (dts ! j)) = dpSlice d \<and> nShard (tName (heap c (dts ! j))) = j \<and> tGroup (heap c (dts ! j)) = dts \<and>
      ctPartitioner (heap c (dts ! j)) = Some (case dpPartitioner d of None \<Rightarrow> DefaultPartitioner | Some f \<Rightarrow> CustomPartitioner f) \<and>
      ctNumPartition (heap c (dts ! j)) = slNumShard (sl s) \<and>
      (if sfunc_IsNil (slCombiner (sl ls)) then sfunc_IsNil (ctCombiner (heap c (dts ! j))) else ctCombiner (heap c (dts ! j)) = slCombiner (sl ls))"
      if "j < length dts" for j
      using h(4) r pos(2) that by (auto simp: compiled_for_def p_Partitioner_def p_NumPartition_def)
    have us: "dep_tasks (heap c) td = dts" using h(1) at [of 0] ne by (cases dts) (simp_all add: dep_tasks_def)
    have q: "map (\<lambda>u. task_out split (heap c) (task_value n0 V R (heap c)) u (dPartition td)) dts =
      map (\<lambda>j. split (Some (case dpPartitioner d of None \<Rightarrow> DefaultPartitioner | Some f \<Rightarrow> CustomPartitioner f))
        (slNumShard (sl ls)) (V (dpSlice d) j) i) [0 ..< nat (slNumShard (sl (dpSlice d)))]"
      using at len h(2) assms(5) by (intro nth_equalityI) (simp_all add: task_out_def task_value_def)
    show ?thesis
      unfolding dep_inputs_def slice_inputs_def us q Let_def using at [of 0] ne True h(3) by (simp add: hd_conv_nth)
  qed
qed

text \<open>The tasks that a compiled task depends on: tasks of a result, or tasks of an earlier slice; they have the partition it reads.\<close>

lemma compiled_succ:
  assumes ok: "sem_ok h0 n0 N sl (heap c) V R split multi" and t: "compiled_task N n0 sl c {} t"
    and "d \<in> set (tDeps (heap c t))" and u: "u \<in> set (dep_tasks (heap c) d)"
  shows "dPartition d < nat (ctNumPartition (heap c u)) \<and>
    (n0 \<le> u \<and> u < nextTask c \<and> ctType (heap c u) < ctType (heap c t) \<or> (\<exists>x<N. \<exists>tks. result_of sl x = Some tks \<and> u \<in> set tks))"
proof -
  let ?s = "ctType (heap c t)" and ?i = "nShard (tName (heap c t))"
  have sl: "slices_ok h0 n0 sl N" "\<forall>t<n0. heap c t = h0 t" "result_values sl N h0 V R" "no_result_shuffle sl N" using ok by (simp_all add: sem_ok_def)
  have res: ?thesis if "x < N" "result_of sl x = Some tks" "j < length tks" "dHead d = Some (tks ! j)" "dPartition d = 0" for x tks j
    using result_of_ok(2) [OF sl(1) that(1,2)] nth_mem [OF that(3)] that u sl(2,3) by (auto simp: dep_tasks_def result_values_def)
  from t obtain part ts where ts: "?s < N" "compiled_for n0 sl c {} ?s part ts" "?i < length ts" "task_shape n0 sl c {} ?s ?i (heap c t)"
    unfolding compiled_task_def by blast
  have i: "?i < nat (slNumShard (sl ?s))" using ts(2,3) by (simp add: compiled_for_def)
  show ?thesis
  proof (cases "result_of sl ?s")
    case (Some tks)
    show ?thesis using res [OF ts(1) Some, of ?i] result_of_ok(1) [OF sl(1) ts(1) Some] i ts(4) Some assms(3) by (simp add: task_shape_def)
  next
    case None
    from pipeline_spec [OF sl(1) ts(1)] None obtain ss where ss: "pipeline sl ?s = Some ss" "ss \<noteq> []"
      "\<forall>x\<in>set ss. x \<le> ?s \<and> slNumShard (sl x) = slNumShard (sl ?s)" by auto
    have "last ss \<le> ?s" "slNumShard (sl (last ss)) = slNumShard (sl ?s)" using ss(2,3) by auto
    note ls = this le_less_trans [OF this(1) ts(1)]
    have "list_all2 (dep_shape n0 sl c {} ?s (last ss) ?i) (slDeps (sl (last ss))) (tDeps (heap c t))"
      using ts(4) None ss(1) assms(3) by (auto simp: task_shape_def pipe_shape_def)
    then obtain sd where sd: "sd \<in> set (slDeps (sl (last ss)))" "dep_shape n0 sl c {} ?s (last ss) ?i sd d"
      using list_all2_in2 [OF _ assms(3)] by blast
    note dp = slice_ok_dep [OF slices_okD [OF sl(1) ls(3)] sd(1)]
    have x: "dpSlice sd < N" "dpSlice sd < ?s" using dp(1) ls by auto
    have pos: "0 < slNumShard (sl (dpSlice sd))" "0 < slNumShard (sl ?s)" using slices_okD [OF sl(1) x(1)] slices_okD [OF sl(1) ts(1)] by (simp_all add: slice_ok_def)
    show ?thesis
    proof (cases "dpShuffle sd")
      case True
      with sd(2) obtain dts key where h: "dHead d = Some (hd dts)" "dPartition d = ?i"
        "compiled_for n0 sl c {} (dpSlice sd) \<lparr>pNum = slNumShard (sl ?s), pPart = dpPartitioner sd, pComb = slCombiner (sl (last ss)), pKey = key\<rparr> dts"
        unfolding dep_shape_def by auto
      have r: "result_of sl (dpSlice sd) = None" using sl(4) True sd(1) ls(3) by (simp add: no_result_shuffle_def)
      have ne: "dts \<noteq> []" using h(3) pos(1) by (auto simp: compiled_for_def)
      have at: "n0 \<le> v \<and> v < nextTask c \<and> ctType (heap c v) = dpSlice sd \<and> tGroup (heap c v) = dts \<and> ctNumPartition (heap c v) = slNumShard (sl ?s)" if "v \<in> set dts" for v
        using h(3) r pos(2) that by (auto simp: compiled_for_def p_NumPartition_def in_set_conv_nth)
      have "u \<in> set dts" using u h(1) at [of "hd dts"] ne by (auto simp: dep_tasks_def dest: list.set_sel)
      then show ?thesis using at h(2) i x(2) by simp
    next
      case False
      with sd(2) obtain dts where h: "dHead d = Some (dts ! ?i)" "dPartition d = 0" "compiled_for n0 sl c {} (dpSlice sd) noPart dts"
        unfolding dep_shape_def by auto
      have j: "?i < length dts" using h(3) dp(2) [OF False] ls(2) i by (simp add: compiled_for_def)
      show ?thesis
      proof (cases "result_of sl (dpSlice sd)")
        case (Some tks)
        then show ?thesis using res [OF x(1) Some, of ?i] h j by (simp add: compiled_for_def noPart_def)
      next
        case None
        then have "n0 \<le> dts ! ?i \<and> dts ! ?i < nextTask c \<and> ctType (heap c (dts ! ?i)) = dpSlice sd \<and> tGroup (heap c (dts ! ?i)) = [] \<and> ctNumPartition (heap c (dts ! ?i)) = 1"
          using h(3) j by (auto simp: compiled_for_def noPart_def p_NumPartition_def)
        then show ?thesis using u h(1,2) x(2) by (auto simp: dep_tasks_def)
      qed
    qed
  qed
qed

lemma chained_results: "chained sl ss \<Longrightarrow> result_of sl (hd ss) = None \<Longrightarrow> \<forall>x\<in>set ss. result_of sl x = None"
  by (induction sl ss rule: chained.induct) auto

lemma task_correct:
  assumes ok: "sem_ok h0 n0 N sl (heap c) V R split multi" and v: "slice_values sl N rdr split multi comb V" and ca: "caches_ok sl N cache V"
    and t: "compiled_task N n0 sl c {} t" "n0 \<le> t"
  defines "inputs \<equiv> concat (map (dep_inputs (heap c) (task_out split (heap c) (task_value n0 V R (heap c))) multi comb) (tDeps (heap c t)))"
  shows "\<exists>d. ctDo (heap c t) = Some d \<and> run_do rdr cache (\<lambda>_ _ x. x) d inputs = Ret (task_value n0 V R (heap c) t)"
proof -
  let ?s = "ctType (heap c t)" and ?i = "nShard (tName (heap c t))"
  have sl: "slices_ok h0 n0 sl N" "\<forall>t<n0. heap c t = h0 t" "result_values sl N h0 V R" "\<And>x. multi [x] = x" "\<And>p x. split p 1 x 0 = x"
    using ok by (simp_all add: sem_ok_def)
  have tv: "task_value n0 V R (heap c) t = V ?s ?i" using t(2) by (simp add: task_value_def)
  from t(1) obtain part ts where ts: "?s < N" "compiled_for n0 sl c {} ?s part ts" "?i < length ts" "task_shape n0 sl c {} ?s ?i (heap c t)"
    unfolding compiled_task_def by blast
  have i: "?i < nat (slNumShard (sl ?s))" using ts(2,3) by (simp add: compiled_for_def)
  show ?thesis
  proof (cases "result_of sl ?s")
    case (Some tks)
    note rok = result_of_ok [OF sl(1) ts(1) Some]
    have m: "?i < length tks" using i rok(1) by simp
    have "inputs = [R (tks ! ?i)]"
      using ts(4) Some rok(2) nth_mem [OF m] sl(2-5) ts(1) m
      by (simp add: inputs_def task_shape_def dep_inputs_def dep_tasks_def task_out_def task_value_def result_values_def Let_def)
    then show ?thesis using ts(4) Some sl(3) ts(1) m tv by (simp add: task_shape_def result_values_def)
  next
    case None
    from pipeline_spec [OF sl(1) ts(1)] None obtain ss where ss: "pipeline sl ?s = Some ss" "ss \<noteq> []" "hd ss = ?s" "chained sl ss"
      "\<forall>x\<in>set ss. x \<le> ?s \<and> slNumShard (sl x) = slNumShard (sl ?s)" by auto
    have ls: "last ss \<le> ?s" "slNumShard (sl (last ss)) = slNumShard (sl ?s)" using ss(2,5) by auto
    note lsN = le_less_trans [OF ls(1) ts(1)]
    have rs: "\<forall>x\<in>set ss. result_of sl x = None" by (rule chained_results [OF ss(4)]) (simp add: ss(3) None)
    have "pipe_shape n0 sl c {} ?s ?i (heap c t)" using ts(4) None by (simp add: task_shape_def)
    then consider
        "ctDo (heap c t) = Some (DoCache ?s ?i)" "cached_in sl ss ?i"
      | "ctDo (heap c t) = fold (push_do ?i) (rev ss) None" "list_all2 (dep_shape n0 sl c {} ?s (last ss) ?i) (slDeps (sl (last ss))) (tDeps (heap c t))"
      unfolding pipe_shape_def ss(1) by (elim exE conjE disjE) simp_all
    then show ?thesis
    proof cases
      case 1
      then show ?thesis using ca ts(1) ss(1) tv unfolding caches_ok_def by fastforce
    next
      case 2
      have "map (dep_inputs (heap c) (task_out split (heap c) (task_value n0 V R (heap c))) multi comb) (tDeps (heap c t)) =
        map (slice_inputs sl split multi comb V (last ss) ?i) (slDeps (sl (last ss)))"
        using 2(2) dep_value [OF ok _ _ lsN ls(2) i]
        by (auto simp: list_all2_conv_all_nth intro!: nth_equalityI)
      then have "rdr (last ss) ?i inputs = Ret (V (last ss) ?i)"
        using v lsN rs ss(2) i ls(2) unfolding inputs_def slice_values_def by simp
      moreover have "\<forall>x\<in>set ss. x < N \<and> ?i < nat (slNumShard (sl x)) \<and> result_of sl x = None"
        using ss(5) rs i ts(1) by auto
      ultimately show ?thesis
        using pipe_run [OF ss(4,2) _ v sl(4)] 2(1) ss(3) tv by metis
    qed
  qed
qed

lemma invocation_correct:
  assumes "slices_ok h0 n0 sl N" and "s < N" and c: "cinv h0 n0 N sl c {}" "compiled_for n0 sl c {} s noPart ts"
    and "slice_values sl N rdr split multi comb V" and "result_values sl N h0 V R" and "caches_ok sl N cache V" and "no_result_shuffle sl N"
    and "\<forall>x. multi [x] = x" and "\<forall>p x. split p 1 x 0 = x"
  shows "sem_ok h0 n0 N sl (heap c) V R split multi"
    and "n0 \<le> t \<Longrightarrow> t < nextTask c \<Longrightarrow> \<exists>d. ctDo (heap c t) = Some d \<and>
      run_do rdr cache (\<lambda>_ _ x. x) d (concat (map (dep_inputs (heap c) (task_out split (heap c) (task_value n0 V R (heap c))) multi comb) (tDeps (heap c t)))) =
        Ret (task_value n0 V R (heap c) t)"
    and "map (task_value n0 V R (heap c)) ts = map (V s) [0 ..< nat (slNumShard (sl s))]"
proof -
  show ok: "sem_ok h0 n0 N sl (heap c) V R split multi"
    using c(1) assms(1,6,8-10) by (simp add: sem_ok_def cinv_def tasks_inv_def)
  have "task_value n0 V R (heap c) (ts ! i) = V s i" if "i < length ts" for i
  proof (cases "result_of sl s")
    case (Some tks)
    then have "tks = ts" using c(2) by (simp add: compiled_for_def noPart_def)
    then show ?thesis using result_of_ok(2) [OF assms(1,2) Some] assms(2,6) Some that by (simp add: result_values_def task_value_def)
  next
    case None
    then have "\<not> ts ! i < n0" using c(2) that by (simp add: compiled_for_def not_less)
    with None show ?thesis using c(2) that by (simp add: compiled_for_def task_value_def)
  qed
  moreover have "length ts = nat (slNumShard (sl s))" using c(2) by (simp add: compiled_for_def)
  ultimately show "map (task_value n0 V R (heap c)) ts = map (V s) [0 ..< nat (slNumShard (sl s))]" by (intro nth_equalityI) simp_all
  assume "n0 \<le> t" "t < nextTask c"
  moreover then have "compiled_task N n0 sl c {} t" using c(1) by (simp add: cinv_def tasks_inv_def)
  ultimately show "\<exists>d. ctDo (heap c t) = Some d \<and>
      run_do rdr cache (\<lambda>_ _ x. x) d (concat (map (dep_inputs (heap c) (task_out split (heap c) (task_value n0 V R (heap c))) multi comb) (tDeps (heap c t)))) =
        Ret (task_value n0 V R (heap c) t)" using task_correct [OF ok assms(5,7)] by blast
qed

text \<open>
  C2.  The tasks compute the slices.  Take any meaning \<open>V\<close> of the slices that satisfies the equations of
  their readers.  If the outputs of the tasks that a compiled task depends on hold the shards of the
  slices that these tasks were compiled from, then its closure, run on the readers that an executor
  makes for its dependencies, yields its own shard; and the tasks returned for \<open>s\<close> are the shards of
  \<open>s\<close>, in order.  So pipelining, sharing of tasks, reuse of results, caching and the layout of shuffles do
  not change the meaning of a slice.  Results must not be shuffled, and a cached slice must not be
  pipelined into another slice.
\<close>

theorem compile_correct:
  assumes "slices_ok h0 n0 sl N" and "s < N" and "s < k"
    and "compile_invocation k ix makeCompileEnv mc h0 n0 sl s = Some (Ret (c, Inr ts))"
    and "slice_values sl N rdr split multi comb V" and "result_values sl N h0 V R" and "caches_ok sl N cache V" and "no_result_shuffle sl N"
    and "\<forall>x. multi [x] = x" and "\<forall>p x. split p 1 x 0 = x"
  shows "(\<forall>t. n0 \<le> t \<and> t < nextTask c \<longrightarrow> (\<exists>d. ctDo (heap c t) = Some d \<and>
      run_do rdr cache (\<lambda>_ _ x. x) d (concat (map (dep_inputs (heap c) (task_out split (heap c) (task_value n0 V R (heap c))) multi comb) (tDeps (heap c t)))) =
        Ret (task_value n0 V R (heap c) t))) \<and>
    map (task_value n0 V R (heap c)) ts = map (V s) [0 ..< nat (slNumShard (sl s))]"
proof -
  obtain c' ts' where c': "compile_invocation k ix makeCompileEnv mc h0 n0 sl s = Some (Ret (c', Inr ts'))" "cinv h0 n0 N sl c' {}"
    "compiled_for n0 sl c' {} s noPart ts'" using invocation_spec [OF assms(1-3)] by blast
  then have c: "cinv h0 n0 N sl c {}" "compiled_for n0 sl c {} s noPart ts" using assms(4) by simp_all
  show ?thesis using invocation_correct(2,3) [OF assms(1,2) c assms(5-)] by blast
qed

section \<open>Examples\<close>

declare Unwrap.simps [code] pipeline.simps [code]

definition ex_slice :: "int impl \<Rightarrow> string \<Rightarrow> int Dep list \<Rightarrow> int Slice" where
  "ex_slice impl op deps = \<lparr>slImpl = impl, slName = \<lparr>Op = op, nmFile = [], nmLine = 0, Index = 0\<rparr>, slType = TypeSlice [TBasic ''int''],
     slNumShard = 2, slShardType = HashShard, slDeps = deps, slCombiner = sfunc_Nil, slPragma = None\<rparr>"

text \<open>A constant, mapped, reshuffled and mapped again.\<close>

definition ex_slices :: "int slices" where
  "ex_slices s = (if s = 0 then ex_slice (constSlice [[1, 2]]) ''const'' [] else if s = 1 then ex_slice (mapSlice sfunc_Nil) ''map'' [singleDep 0 False]
     else if s = 2 then ex_slice reshuffleSlice ''reshuffle'' [singleDep 1 True] else ex_slice (mapSlice sfunc_Nil) ''map'' [singleDep 2 False])"

lemma ex_slices_ok: "slices_ok blank 0 ex_slices 4"
proof -
  have "base_ok ''const''" "base_ok ''map''" "base_ok ''reshuffle''" by code_simp+
  then have "slice_ok blank 0 ex_slices s" if "s \<in> {0, 1, 2, 3}" for s
    using that by (auto simp: slice_ok_def ex_slices_def ex_slice_def singleDep_def)
  then show ?thesis by (simp add: slices_ok_def numeral_eq_Suc less_Suc_eq)
qed

lemma blank_ok: "tasks_ok blank 0 1"
  by (auto simp: tasks_ok_def graph_ok_def blank_def Phase_def intro!: exI [of _ "\<lambda>_. 0"])

theorem compile_graph_witness:
  "\<exists>c ts. compile_invocation 4 1 makeCompileEnv False blank 0 ex_slices 3 = Some (Ret (c, Inr ts)) \<and> tasks_ok (heap c) (nextTask c) 5 \<and> length ts = 2"
  using compile_graph [OF ex_slices_ok _ _ blank_ok, of 3 4 1 False] by (auto simp: ex_slices_def ex_slice_def)

definition run_example :: "int slices \<Rightarrow> nat \<Rightarrow> (int compiler \<times> nat list) option" where
  "run_example sl s = (case compile_invocation 4 1 makeCompileEnv False blank 0 sl s of Some (Ret (c, Inr ts)) \<Rightarrow> Some (c, ts) | _ \<Rightarrow> None)"

lemma run_exampleD: "run_example sl s = Some (c, ts) \<Longrightarrow> compile_invocation 4 1 makeCompileEnv False blank 0 sl s = Some (Ret (c, Inr ts))"
  by (simp add: run_example_def split: option.splits go.splits sum.splits prod.splits)

lemma ex_run:
  "case run_example ex_slices 3 of None \<Rightarrow> False | Some (c, ts) \<Rightarrow> nextTask c = 4 \<and> ts = [0, 1] \<and>
     map (\<lambda>t. TaskName_String (tName (heap c t))) [0, 1, 2, 3] =
       [''inv1_reshuffle_map@2:0'', ''inv1_reshuffle_map@2:1'', ''inv1_const_map@2:0'', ''inv1_const_map@2:1'']"
  by code_simp

lemma ex_runE:
  obtains c where "compile_invocation 4 1 makeCompileEnv False blank 0 ex_slices 3 = Some (Ret (c, Inr [0, 1]))" and "nextTask c = 4"
  using ex_run run_exampleD [of ex_slices 3] by (auto split: option.splits)

theorem compile_names_witness:
  "\<exists>c. compile_invocation 4 1 makeCompileEnv False blank 0 ex_slices 3 = Some (Ret (c, Inr [0, 1])) \<and> inj_on (\<lambda>t. tName (heap c t)) {0 ..< 4}"
proof (rule ex_runE)
  fix c :: "int compiler"
  assume c: "compile_invocation 4 1 makeCompileEnv False blank 0 ex_slices 3 = Some (Ret (c, Inr [0, 1]))" "nextTask c = 4"
  from compile_names [OF ex_slices_ok _ _ c(1)] c show ?thesis by auto
qed

text \<open>Integers are added one by the maps, and split by their parity by the shuffle.\<close>

definition ex_rdr :: "nat \<Rightarrow> nat \<Rightarrow> int list list \<Rightarrow> int list go" where
  "ex_rdr s i ins = Ret (if s = 0 then [10 * int i + 1, 10 * int i + 2] else if s = 2 then concat ins else map (\<lambda>v. v + 1) (concat ins))"

definition ex_split :: "int cpart option \<Rightarrow> int \<Rightarrow> int list \<Rightarrow> nat \<Rightarrow> int list" where
  "ex_split p n x i = filter (\<lambda>v. v mod n = int i) x"

definition ex_V :: "nat \<Rightarrow> nat \<Rightarrow> int list" where
  "ex_V s i = (if s = 0 then [10 * int i + 1, 10 * int i + 2] else if s = 1 then [10 * int i + 2, 10 * int i + 3]
     else if s = 2 then [int i + 2, int i + 12] else [int i + 3, int i + 13])"

lemma ex_results: "result_of ex_slices s = None"
proof -
  have "Unwrap ex_slices s = Some s" by (rule Unwrap_stop) (simp add: ex_slices_def ex_slice_def)
  then show ?thesis by (simp add: result_of_def ex_slices_def ex_slice_def result_tasks_def)
qed

lemma ex_values: "slice_values ex_slices 4 ex_rdr ex_split concat (\<lambda>f. concat) ex_V"
proof -
  have "\<forall>s\<in>{0, 1, 2, 3}. \<forall>i\<in>{0, 1}. ex_rdr s i (concat (map (slice_inputs ex_slices ex_split concat (\<lambda>f. concat) ex_V s i) (slDeps (ex_slices s)))) = Ret (ex_V s i)"
    by code_simp
  moreover have "s \<in> {0, 1, 2, 3}" if "s < 4" for s :: nat using that by (auto simp: numeral_eq_Suc less_Suc_eq)
  moreover have "i \<in> {0, 1}" if "i < nat (slNumShard (ex_slices s))" for i s using that by (auto simp: ex_slices_def ex_slice_def split: if_splits)
  ultimately show ?thesis unfolding slice_values_def by blast
qed

lemma ex_caches: "caches_ok ex_slices 4 cache V"
proof -
  have "slice_cache ex_slices x = None" for x
  proof (cases "slice_cache ex_slices x")
    case (Some fc)
    then show ?thesis using slice_cache_Some [OF Some] by (auto simp: ex_slices_def ex_slice_def split: if_splits)
  qed
  then show ?thesis by (simp add: caches_ok_def cached_in_def fsc_IsCached_def)
qed

theorem compile_correct_witness:
  "\<exists>c. compile_invocation 4 1 makeCompileEnv False blank 0 ex_slices 3 = Some (Ret (c, Inr [0, 1])) \<and>
    (\<forall>t<4. \<exists>d. ctDo (heap c t) = Some d \<and>
      run_do ex_rdr (\<lambda>_ _. Panic []) (\<lambda>_ _ x. x) d (concat (map (dep_inputs (heap c)
        (task_out ex_split (heap c) (task_value 0 ex_V (\<lambda>_. []) (heap c))) concat (\<lambda>f. concat)) (tDeps (heap c t)))) =
      Ret (task_value 0 ex_V (\<lambda>_. []) (heap c) t)) \<and>
    map (task_value 0 ex_V (\<lambda>_. []) (heap c)) [0, 1] = [[3, 13], [4, 14]]"
proof (rule ex_runE)
  fix c :: "int compiler"
  assume c: "compile_invocation 4 1 makeCompileEnv False blank 0 ex_slices 3 = Some (Ret (c, Inr [0, 1]))" "nextTask c = 4"
  have n: "nat (slNumShard (ex_slices 3)) = 2" by (simp add: ex_slices_def ex_slice_def)
  have "map (ex_V 3) [0 ..< 2] = [[3, 13], [4, 14]]" by code_simp
  moreover have "result_values ex_slices 4 blank ex_V (\<lambda>_. [])" "no_result_shuffle ex_slices 4"
    by (simp_all add: result_values_def no_result_shuffle_def ex_results)
  moreover have "\<forall>p x. ex_split p 1 x 0 = x" by (simp add: ex_split_def)
  ultimately show ?thesis
    using compile_correct [OF ex_slices_ok _ _ c(1) ex_values _ ex_caches, of "\<lambda>_. []" "\<lambda>_ _. Panic []"] c n by (intro exI [of _ c]) simp
qed

text \<open>\<open>CacheReader\<close> of the cache of a slice, which panics for \<open>slicecache.Empty\<close>.\<close>

definition shard_CacheReader :: "'v slices \<Rightarrow> nat \<Rightarrow> nat \<Rightarrow> (goerror + string) go" where
  "shard_CacheReader sl s shard = (case slice_cache sl s of None \<Rightarrow> Panic ''always empty'' | Some c \<Rightarrow> fsc_CacheReader c shard)"

definition cached_map :: "int slices" where
  "cached_map s = (if s = 0 then ex_slice (constSlice [[1, 2]]) ''const'' []
     else if s = 1 then ex_slice (cacheSlice \<lparr>fcPrefix = ''p'', fcNumShards = 2, shardIsCached = [True, True], requireAll = True\<rparr>) ''cache'' [singleDep 0 False]
     else ex_slice (mapSlice sfunc_Nil) ''map'' [singleDep 1 False])"

lemma invocation_shape:
  assumes "slices_ok h0 n0 sl N" and "s < N" and "s < k" and "compile_invocation k ix makeCompileEnv mc h0 n0 sl s = Some (Ret (c, Inr ts))"
    and "n0 \<le> t" and "t < nextTask c"
  shows "task_shape n0 sl c {} (ctType (heap c t)) (nShard (tName (heap c t))) (heap c t)"
proof -
  obtain c' ts' where "compile_invocation k ix makeCompileEnv mc h0 n0 sl s = Some (Ret (c', Inr ts'))" "cinv h0 n0 N sl c' {}"
    using invocation_spec [OF assms(1-3)] by blast
  then have "cinv h0 n0 N sl c {}" using assms(4) by simp
  then have "compiled_task N n0 sl c {} t" using assms(5,6) by (simp add: cinv_def tasks_inv_def)
  then show ?thesis by (simp add: compiled_task_def)
qed

text \<open>
  C39.  A cached slice that is pipelined into another slice makes the task fail.  The environment records
  that the task is cached, and the closure of every slice of the pipeline is then replaced by the cache
  of that slice, so the one set last is that of the outermost slice.  In every program: a task that is compiled
  from a slice without a cache, into whose pipeline goes a slice with a cache that holds the task's shard, has no
  dependencies and panics whenever it is run, whatever the slices read and whatever its inputs.
\<close>

theorem cached_pipeline_panics:
  assumes "slices_ok h0 n0 sl N" and "s < N" and "s < k" and "compile_invocation k ix makeCompileEnv mc h0 n0 sl s = Some (Ret (c, Inr ts))"
    and "n0 \<le> t" and "t < nextTask c" and "result_of sl (ctType (heap c t)) = None" and "slice_cache sl (ctType (heap c t)) = None"
    and "pipeline sl (ctType (heap c t)) = Some ss" and "x \<in> set ss" and "fsc_IsCached (slice_cache sl x) (nShard (tName (heap c t))) = Ret True"
  shows "tDeps (heap c t) = [] \<and>
    (\<exists>d. ctDo (heap c t) = Some d \<and> (\<forall>rdr wt inputs. run_do rdr (shard_CacheReader sl) wt d inputs = Panic ''always empty''))"
proof -
  let ?s = "ctType (heap c t)" and ?i = "nShard (tName (heap c t))"
  have "pipe_shape n0 sl c {} ?s ?i (heap c t)" using invocation_shape [OF assms(1-6)] assms(7) by (simp add: task_shape_def)
  moreover have "cached_in sl ss ?i" using assms(10,11) by (auto simp: cached_in_def)
  ultimately have "ctDo (heap c t) = Some (DoCache ?s ?i)" "tDeps (heap c t) = []" using assms(9) by (auto simp: pipe_shape_def)
  then show ?thesis using assms(8) by (simp add: shard_CacheReader_def)
qed

lemma cached_map_ok: "slices_ok blank 0 cached_map 3"
proof -
  have "base_ok ''const''" "base_ok ''cache''" "base_ok ''map''" by code_simp+
  then have "slice_ok blank 0 cached_map s" if "s \<in> {0, 1, 2}" for s
    using that by (auto simp: slice_ok_def cached_map_def ex_slice_def singleDep_def)
  moreover have "s < 3 \<longleftrightarrow> s \<in> {0, 1, 2 :: nat}" for s by auto
  ultimately show ?thesis by (simp add: slices_ok_def)
qed

theorem cached_pipeline_panics_witness:
  "\<exists>c d. run_example cached_map 2 = Some (c, [0, 1]) \<and> ctDo (heap c 1) = Some d \<and>
    run_do (\<lambda>_ _ _. Ret (Inr [])) (shard_CacheReader cached_map) (\<lambda>_ _ x. x) d [] = Panic ''always empty''"
proof -
  have "case run_example cached_map 2 of None \<Rightarrow> False | Some (c, ts) \<Rightarrow> ts = [0, 1] \<and> nextTask c = 2 \<and> ctType (heap c 1) = 2 \<and> nShard (tName (heap c 1)) = 1"
    by code_simp
  then obtain c where c: "run_example cached_map 2 = Some (c, [0, 1])" "nextTask c = 2" "ctType (heap c 1) = 2" "nShard (tName (heap c 1)) = 1"
    by (auto split: option.splits)
  have p: "pipeline cached_map 2 = Some [2, 1, 0]" "result_of cached_map 2 = None" "slice_cache cached_map 2 = None" "fsc_IsCached (slice_cache cached_map 1) 1 = Ret True"
    by code_simp+
  from cached_pipeline_panics [OF cached_map_ok _ _ run_exampleD [OF c(1)], of 1 "[2, 1, 0]" 1] c p show ?thesis by auto
qed

end
