(* ===== verification/Combiner.thy ===== *)
theory Combiner
  imports SortIO
begin

text \<open>
  \<open>exec/combiner.go\<close>: the hash table that combines values by key.

  The table lies in one frame: the first \<open>cap\<close> rows are the slots, the rest is the scratch space
  (\<open>scratch\<close> is a slice of \<open>data\<close>).  A row is a key and a value.  \<open>hash\<close> is \<open>HashWithSeed\<close> of the key
  columns at the seed of the table, \<open>lt\<close> the order of keys, \<open>combiner\<close> the user's function.  Probing
  is a loop without a bound in the source; it is a partial function here, and a theorem shows that
  it always ends.
\<close>

section \<open>The hash table\<close>

record ('k, 'v) combiningFrame =
  cdata :: "('k \<times> 'v) list"
  nscratch :: nat
  threshold :: nat
  hits :: "nat list"
  clen :: nat
  ccap :: nat
  cmask :: nat

definition hashMaxCapacity :: nat where
  "hashMaxCapacity = 2 ^ 29"

text \<open>
  The threshold is \<open>int(0.7 * float64(ndata))\<close>; for the powers of two up to the maximal capacity
  the floating-point product rounds down to \<open>7 * ndata div 10\<close>.
\<close>

definition cf_make :: "'k \<times> 'v \<Rightarrow> nat \<Rightarrow> nat \<Rightarrow> ('k, 'v) combiningFrame \<Rightarrow> ('k, 'v) combiningFrame go" where
  "cf_make zero ndata ns c =
     (if and ndata (ndata - 1) \<noteq> 0 then Panic ''hash table size not a power of two''
      else Ret (c\<lparr>cdata := replicate (ndata + ns) zero, nscratch := ns, hits := replicate ndata 0,
                  threshold := 7 * ndata div 10, cmask := ndata - 1, ccap := ndata\<rparr>))"

definition makeCombiningFrame :: "'k \<times> 'v \<Rightarrow> stype \<Rightarrow> nat \<Rightarrow> nat \<Rightarrow> ('k, 'v) combiningFrame go" where
  "makeCombiningFrame zero t n ns =
     (if NumOut t - Prefix t \<noteq> 1 then Panic ''combining frame expects 1 residual column''
      else cf_make zero n ns \<lparr>cdata = [], nscratch = 0, threshold = 0, hits = [], clen = 0, ccap = 0, cmask = 0\<rparr>)"

text \<open>The probe sequence: \<open>idx = (idx + try) & mask\<close> until the slot is one to stop at.\<close>

partial_function (option) probe :: "(nat \<Rightarrow> bool) \<Rightarrow> nat \<Rightarrow> nat \<Rightarrow> nat \<Rightarrow> nat option" where
  "probe stop msk idx try = (if stop idx then Some idx else probe stop msk (and (idx + try) msk) (Suc try))"

text \<open>The loop of \<open>added\<close> that moves the old slots into the new table.\<close>

fun rehash ::
  "('k \<Rightarrow> 32 word) \<Rightarrow> (nat \<times> 'k \<times> 'v) list \<Rightarrow> ('k, 'v) combiningFrame \<Rightarrow> ('k, 'v) combiningFrame option" where
  "rehash hash [] c = Some c"
| "rehash hash ((n, row) # rows) c =
     (if n = 0 then rehash hash rows c
      else Option.bind (probe (\<lambda>idx. hits c ! idx = 0) (cmask c) (and (unat (hash (fst row))) (cmask c)) 1)
        (\<lambda>idx. rehash hash rows (c\<lparr>hits := (hits c)[idx := n], cdata := (cdata c)[idx := row]\<rparr>)))"

definition added :: "('k \<Rightarrow> 32 word) \<Rightarrow> 'k \<times> 'v \<Rightarrow> ('k, 'v) combiningFrame \<Rightarrow> ('k, 'v) combiningFrame go option" where
  "added hash zero c =
     (let c = c\<lparr>clen := Suc (clen c)\<rparr>
      in if clen c \<le> threshold c then Some (Ret c)
         else if ccap c = hashMaxCapacity then Some (Panic ''hash table too large'')
         else run_bind (Some (cf_make zero (ccap c * 2) (nscratch c) c)) (\<lambda>c'.
           let scratch0 = drop (ccap c) (cdata c);
               c' = c'\<lparr>cdata := take (ccap c') (cdata c') @ scratch0\<rparr>
           in map_option Ret (rehash hash (zip (hits c) (take (ccap c) (cdata c))) c')))"

definition same_key :: "('k \<Rightarrow> 'k \<Rightarrow> bool) \<Rightarrow> 'k \<Rightarrow> 'k \<Rightarrow> bool" where
  "same_key lt a b \<longleftrightarrow> \<not> lt a b \<and> \<not> lt b a"

text \<open>The body of the loop of \<open>combine\<close> for row \<open>i\<close> of the scratch space.\<close>

definition combine_row ::
  "('k \<Rightarrow> 'k \<Rightarrow> bool) \<Rightarrow> ('k \<Rightarrow> 32 word) \<Rightarrow> ('v \<Rightarrow> 'v \<Rightarrow> 'v go) \<Rightarrow> 'k \<times> 'v \<Rightarrow> nat \<Rightarrow> ('k, 'v) combiningFrame
     \<Rightarrow> ('k, 'v) combiningFrame go option" where
  "combine_row lt hash combiner zero i c =
     (let row = cdata c ! (ccap c + i)
      in if hits c = [] then Some (Panic ''index out of range'')
         else Option.bind (probe (\<lambda>idx. hits c ! idx = 0 \<or> same_key lt (fst (cdata c ! idx)) (fst row))
                (cmask c) (and (unat (hash (fst row))) (cmask c)) 1)
           (\<lambda>idx. if hits c ! idx = 0
              then added hash zero (c\<lparr>hits := (hits c)[idx := 1],
                     cdata := (cdata c)[idx := row, ccap c + i := cdata c ! idx]\<rparr>)
              else run_bind (Some (combiner (snd (cdata c ! idx)) (snd row))) (\<lambda>v.
                Some (Ret (c\<lparr>cdata := (cdata c)[idx := (fst (cdata c ! idx), v)],
                             hits := (hits c)[idx := Suc (hits c ! idx)]\<rparr>)))))"

primrec combine_loop ::
  "('k \<Rightarrow> 'k \<Rightarrow> bool) \<Rightarrow> ('k \<Rightarrow> 32 word) \<Rightarrow> ('v \<Rightarrow> 'v \<Rightarrow> 'v go) \<Rightarrow> 'k \<times> 'v \<Rightarrow> nat \<Rightarrow> nat \<Rightarrow> ('k, 'v) combiningFrame
     \<Rightarrow> ('k, 'v) combiningFrame go option" where
  "combine_loop lt hash combiner zero i 0 c = Some (Ret c)"
| "combine_loop lt hash combiner zero i (Suc n) c =
     run_bind (combine_row lt hash combiner zero i c) (combine_loop lt hash combiner zero (Suc i) n)"

text \<open>\<open>Combine\<close>: the frame is copied to the scratch space chunk by chunk.\<close>

fun combine_chunks ::
  "('k \<Rightarrow> 'k \<Rightarrow> bool) \<Rightarrow> ('k \<Rightarrow> 32 word) \<Rightarrow> ('v \<Rightarrow> 'v \<Rightarrow> 'v go) \<Rightarrow> 'k \<times> 'v \<Rightarrow> nat \<Rightarrow> ('k \<times> 'v) list \<Rightarrow> ('k, 'v) combiningFrame
     \<Rightarrow> ('k, 'v) combiningFrame go option" where
  "combine_chunks lt hash combiner zero 0 f c = Some (Ret c)"
| "combine_chunks lt hash combiner zero (Suc k) f c =
     (let n = min (nscratch c) (length f);
          c' = c\<lparr>cdata := take (ccap c) (cdata c) @ take n f @ drop (ccap c + n) (cdata c)\<rparr>
      in run_bind (combine_loop lt hash combiner zero 0 n c')
           (combine_chunks lt hash combiner zero k (drop (nscratch c) f)))"

definition cf_Combine ::
  "('k \<Rightarrow> 'k \<Rightarrow> bool) \<Rightarrow> ('k \<Rightarrow> 32 word) \<Rightarrow> ('v \<Rightarrow> 'v \<Rightarrow> 'v go) \<Rightarrow> 'k \<times> 'v \<Rightarrow> ('k \<times> 'v) list \<Rightarrow> ('k, 'v) combiningFrame
     \<Rightarrow> ('k, 'v) combiningFrame go option" where
  "cf_Combine lt hash combiner zero f c =
     (if nscratch c = 0 then Some (Panic ''integer divide by zero'')
      else combine_chunks lt hash combiner zero ((length f + nscratch c - 1) div nscratch c) f c)"

text \<open>The loop of \<open>Compact\<close> over the slots, with \<open>j\<close> the number of rows moved to the front.\<close>

fun compact_loop :: "nat list \<Rightarrow> nat \<Rightarrow> nat \<Rightarrow> ('k \<times> 'v) list \<Rightarrow> ('k \<times> 'v) list \<times> nat" where
  "compact_loop [] i j d = (d, j)"
| "compact_loop (n # ns) i j d =
     (if n = 0 then compact_loop ns (Suc i) j d
      else compact_loop ns (Suc i) (Suc j) (d[i := d ! j, j := d ! i]))"

definition Compact :: "('k, 'v) combiningFrame \<Rightarrow> ('k, 'v) combiningFrame \<times> ('k \<times> 'v) list" where
  "Compact c = (let (d, j) = compact_loop (hits c) 0 0 (cdata c)
     in (c\<lparr>cdata := d, hits := map (\<lambda>_. 0) (hits c), clen := 0\<rparr>, take j d))"

section \<open>Triangular probing\<close>

text \<open>The slot after \<open>t\<close> steps from hash \<open>h\<close> in a table of \<open>2 ^ m\<close> slots.\<close>

definition tri :: "nat \<Rightarrow> nat" where
  "tri t = t * (t + 1) div 2"

definition pos :: "nat \<Rightarrow> nat \<Rightarrow> nat \<Rightarrow> nat" where
  "pos m h t = (h + tri t) mod 2 ^ m"

lemma tri_Suc: "tri (Suc t) = tri t + Suc t"
  by (simp add: tri_def)

lemma two_tri: "2 * tri t = t * (t + 1)"
  by (induction t) (auto simp: tri_def)

lemma pos_Suc: "pos m h (Suc t) = (pos m h t + Suc t) mod 2 ^ m"
  unfolding pos_def tri_Suc by (simp only: mod_add_left_eq add.assoc)

lemma pos_less [simp]: "pos m h t < 2 ^ m"
  by (simp add: pos_def)

lemma tri_inj_lt:
  assumes "i < j" and "j < 2 ^ m" and "pos m h i = pos m h j" shows False
proof -
  have "tri i \<le> tri j" using assms(1) unfolding tri_def by (intro div_le_mono mult_le_mono) auto
  moreover have "(h + tri i) mod 2 ^ m = (h + tri j) mod 2 ^ m" using assms(3) by (simp add: pos_def)
  ultimately have "2 ^ m dvd tri j - tri i"
    using mod_eq_dvd_iff_nat [of "h + tri i" "h + tri j" "2 ^ m"] by simp
  then have "2 ^ Suc m dvd 2 * (tri j - tri i)" by simp
  moreover have "2 * (tri j - tri i) = (j - i) * (i + j + 1)"
  proof -
    have "2 * (tri j - tri i) = j * (j + 1) - i * (i + 1)" by (simp add: diff_mult_distrib2 two_tri)
    also have "\<dots> = (j - i) * (i + j + 1)"
      using assms(1) by (auto simp: algebra_simps less_iff_Suc_add)
    finally show ?thesis .
  qed
  ultimately have dvd: "2 ^ Suc m dvd (j - i) * (i + j + 1)" by simp
  have small: "j - i < 2 ^ Suc m" "i + j + 1 < 2 ^ Suc m" "0 < j - i" "0 < i + j + 1" using assms(1,2) by auto
  show False
  proof (cases "even (j - i)")
    case True
    then have "odd (i + j + 1)" using assms(1) by presburger
    then have "coprime (2 ^ Suc m) (i + j + 1)" by (simp add: coprime_power_left_iff)
    with dvd have "2 ^ Suc m dvd j - i" by (simp only: coprime_dvd_mult_left_iff)
    with small show False by (metis nat_dvd_not_less)
  next
    case False
    then have "coprime (2 ^ Suc m) (j - i)" by (simp add: coprime_power_left_iff)
    with dvd have "2 ^ Suc m dvd i + j + 1" by (simp only: coprime_dvd_mult_right_iff)
    with small show False by (metis nat_dvd_not_less)
  qed
qed

lemma pos_covers: "r < 2 ^ m \<Longrightarrow> \<exists>t < 2 ^ m. pos m h t = r"
proof -
  assume r: "r < 2 ^ m"
  have "inj_on (pos m h) {..<2 ^ m}"
    by (rule linorder_inj_onI) (auto dest: tri_inj_lt)
  moreover have "pos m h ` {..<2 ^ m} \<subseteq> {..<2 ^ m}" by auto
  ultimately have "pos m h ` {..<2 ^ m} = {..<2 ^ m}" by (simp add: endo_inj_surj)
  with r show ?thesis by (metis (no_types, lifting) imageE lessThan_iff)
qed

lemma and_mask: "and x (2 ^ m - 1) = x mod 2 ^ m" for x :: nat
  by (simp add: take_bit_eq_mask mask_eq_exp_minus_1 flip: take_bit_eq_mod)

lemmas and_mask_Suc = and_mask [unfolded One_nat_def]

lemma probe_walk:
  assumes "stop (pos m h (s + t))" and "\<And>u. u < t \<Longrightarrow> \<not> stop (pos m h (s + u))"
  shows "probe stop (2 ^ m - 1) (pos m h s) (Suc s) = Some (pos m h (s + t))"
  using assms
proof (induction t arbitrary: s)
  case 0
  then show ?case by (simp add: probe.simps)
next
  case (Suc t)
  have "\<not> stop (pos m h s)" using Suc.prems(2) [of 0] by simp
  then have "probe stop (2 ^ m - 1) (pos m h s) (Suc s) = probe stop (2 ^ m - 1) (pos m h (Suc s)) (Suc (Suc s))"
    by (subst probe.simps) (simp only: and_mask pos_Suc if_False)
  also have "\<dots> = Some (pos m h (Suc s + t))" using Suc.prems by (intro Suc.IH) (auto dest: Suc.prems(2) [of "Suc _", simplified])
  finally show ?case by simp
qed

lemma probe_first:
  assumes "stop r" and "r < 2 ^ m"
  obtains t where "probe stop (2 ^ m - 1) (h mod 2 ^ m) 1 = Some (pos m h t)" and "stop (pos m h t)"
    and "\<And>u. u < t \<Longrightarrow> \<not> stop (pos m h u)"
proof -
  obtain t0 where "pos m h t0 = r" using pos_covers [OF assms(2)] by blast
  then have ex: "stop (pos m h t0)" using assms(1) by simp
  define t where "t = (LEAST t. stop (pos m h t))"
  have t: "stop (pos m h t)" "\<And>u. u < t \<Longrightarrow> \<not> stop (pos m h u)"
    unfolding t_def by (rule LeastI [of "\<lambda>t. stop (pos m h t)", OF ex], rule not_less_Least)
  have "pos m h 0 = h mod 2 ^ m" by (simp add: pos_def tri_def)
  with probe_walk [of stop m h 0 t] t that [of t] show thesis by simp
qed

section \<open>The table\<close>

text \<open>
  \<open>slots\<close>: the rows in use.  \<open>reachable\<close>: the probe sequence of a hash leads to a slot through used
  slots only.  \<open>table_ok\<close>: every row in use is reachable from its hash and no key is stored twice.
\<close>

definition slots :: "nat list \<Rightarrow> ('k \<times> 'v) list \<Rightarrow> ('k \<times> 'v) set" where
  "slots hs d = {d ! j |j. j < length hs \<and> hs ! j \<noteq> 0}"

definition reachable :: "nat \<Rightarrow> nat list \<Rightarrow> nat \<Rightarrow> nat \<Rightarrow> bool" where
  "reachable m hs h j \<longleftrightarrow> (\<exists>t. pos m h t = j \<and> (\<forall>u<t. hs ! pos m h u \<noteq> 0))"

definition table_ok :: "('k \<Rightarrow> 32 word) \<Rightarrow> nat \<Rightarrow> nat list \<Rightarrow> ('k \<times> 'v) list \<Rightarrow> bool" where
  "table_ok hash m hs d \<longleftrightarrow> length hs = 2 ^ m \<and> 2 ^ m \<le> length d \<and>
     (\<forall>j<2 ^ m. hs ! j \<noteq> 0 \<longrightarrow> reachable m hs (unat (hash (fst (d ! j)))) j) \<and>
     (\<forall>i<2 ^ m. \<forall>j<2 ^ m. hs ! i \<noteq> 0 \<longrightarrow> hs ! j \<noteq> 0 \<longrightarrow> fst (d ! i) = fst (d ! j) \<longrightarrow> i = j)"

definition used :: "nat list \<Rightarrow> nat" where
  "used hs = length (filter (\<lambda>n. n \<noteq> 0) hs)"

lemma used_card: "used hs = card {j. j < length hs \<and> hs ! j \<noteq> 0}"
  by (simp add: used_def length_filter_conv_card)

lemma used_free: "used hs < length hs \<Longrightarrow> \<exists>j<length hs. hs ! j = 0"
proof (rule ccontr)
  assume u: "used hs < length hs" and "\<not> (\<exists>j<length hs. hs ! j = 0)"
  then have "{j. j < length hs \<and> hs ! j \<noteq> 0} = {..<length hs}" by auto
  with u show False by (simp add: used_card)
qed

lemma used_fill: "idx < length hs \<Longrightarrow> hs ! idx = 0 \<Longrightarrow> 0 < n \<Longrightarrow> used (hs[idx := n]) = Suc (used hs)"
proof -
  assume a: "idx < length hs" "hs ! idx = 0" "0 < n"
  have "{j. j < length (hs[idx := n]) \<and> hs[idx := n] ! j \<noteq> 0} = insert idx {j. j < length hs \<and> hs ! j \<noteq> 0}"
    using a by (auto simp: nth_list_update)
  with a show ?thesis by (simp add: used_card)
qed

lemma used_bump: "idx < length hs \<Longrightarrow> hs ! idx \<noteq> 0 \<Longrightarrow> 0 < n \<Longrightarrow> used (hs[idx := n]) = used hs"
proof -
  assume a: "idx < length hs" "hs ! idx \<noteq> 0" "0 < n"
  have "{j. j < length (hs[idx := n]) \<and> hs[idx := n] ! j \<noteq> 0} = {j. j < length hs \<and> hs ! j \<noteq> 0}"
    using a by (auto simp: nth_list_update)
  then show ?thesis by (simp add: used_card)
qed

lemma reachable_mono:
  "reachable m hs h j \<Longrightarrow> 0 < n \<Longrightarrow> length hs = 2 ^ m \<Longrightarrow> reachable m (hs[idx := n]) h j"
proof -
  assume r: "reachable m hs h j" and a: "0 < n" "length hs = 2 ^ m"
  then obtain t where "pos m h t = j" "\<forall>u<t. hs ! pos m h u \<noteq> 0" by (auto simp: reachable_def)
  with a have "pos m h t = j \<and> (\<forall>u<t. hs[idx := n] ! pos m h u \<noteq> 0)"
    by (cases "idx < length hs") (auto simp: nth_list_update list_update_beyond)
  then show ?thesis unfolding reachable_def by blast
qed

lemma slots_fill:
  "idx < length hs \<Longrightarrow> length hs \<le> length d \<Longrightarrow> hs ! idx = 0 \<Longrightarrow> 0 < n \<Longrightarrow>
     slots (hs[idx := n]) (d[idx := row]) = insert row (slots hs d)"
  unfolding slots_def
  by (intro set_eqI iffI) (auto simp: nth_list_update split: if_splits, metis neq0_conv)

lemma slotsI: "j < length hs \<Longrightarrow> hs ! j \<noteq> 0 \<Longrightarrow> d ! j \<in> slots hs d"
  unfolding slots_def mem_Collect_eq by (rule exI [of _ j]) simp

lemma table_fill:
  assumes ok: "table_ok hash m hs d" and idx: "idx < 2 ^ m" "hs ! idx = 0" and n: "0 < n"
    and reach: "reachable m hs (unat (hash (fst row))) idx" and fresh: "fst row \<notin> fst ` slots hs d"
  shows "table_ok hash m (hs[idx := n]) (d[idx := row])"
proof -
  have len: "length hs = 2 ^ m" "2 ^ m \<le> length d" using ok by (auto simp: table_ok_def)
  have nk: "fst (d ! j) \<noteq> fst row" if "j < 2 ^ m" "hs ! j \<noteq> 0" for j
  proof -
    have "d ! j \<in> slots hs d" using that len(1) by (simp add: slotsI)
    then have "fst (d ! j) \<in> fst ` slots hs d" by (rule imageI)
    with fresh show ?thesis by metis
  qed
  have "reachable m (hs[idx := n]) (unat (hash (fst (d[idx := row] ! j)))) j"
    if "j < 2 ^ m" "hs[idx := n] ! j \<noteq> 0" for j
    using that ok reach n idx len by (cases "j = idx") (auto simp: table_ok_def intro: reachable_mono)
  moreover have "i = j" if "i < 2 ^ m" "j < 2 ^ m" "hs[idx := n] ! i \<noteq> 0" "hs[idx := n] ! j \<noteq> 0"
    "fst (d[idx := row] ! i) = fst (d[idx := row] ! j)" for i j
  proof -
    have uniq: "i = j" if "hs ! i \<noteq> 0" "hs ! j \<noteq> 0" "fst (d ! i) = fst (d ! j)"
      using ok \<open>i < 2 ^ m\<close> \<open>j < 2 ^ m\<close> that by (simp add: table_ok_def)
    show ?thesis
      using that(3-5) nk [OF that(1)] nk [OF that(2)] uniq idx(1) len
      by (cases "i = idx"; cases "j = idx") simp_all
  qed
  ultimately show ?thesis using len by (simp add: table_ok_def)
qed

text \<open>Searching a key from its hash ends at its slot, or at a free slot that shows it is absent.\<close>

lemma table_search:
  fixes k :: 'k
  assumes ok: "table_ok hash m hs d" and free: "used hs < 2 ^ m"
  defines "stop \<equiv> (\<lambda>idx. hs ! idx = 0 \<or> fst (d ! idx) = k)"
  obtains idx where "probe stop (2 ^ m - 1) (unat (hash k) mod 2 ^ m) 1 = Some idx" and "idx < 2 ^ m"
    and "reachable m hs (unat (hash k)) idx"
    and "hs ! idx = 0 \<longrightarrow> k \<notin> fst ` slots hs d" and "hs ! idx \<noteq> 0 \<longrightarrow> fst (d ! idx) = k"
proof -
  have len: "length hs = 2 ^ m" using ok by (simp add: table_ok_def)
  obtain r where "r < 2 ^ m" "hs ! r = 0" using used_free [of hs] free len by auto
  then obtain t where p: "probe stop (2 ^ m - 1) (unat (hash k) mod 2 ^ m) 1 = Some (pos m (unat (hash k)) t)"
    and st: "stop (pos m (unat (hash k)) t)" and ns: "\<And>u. u < t \<Longrightarrow> \<not> stop (pos m (unat (hash k)) u)"
    using probe_first [of stop r m "unat (hash k)"] by (auto simp: stop_def)
  have reach: "reachable m hs (unat (hash k)) (pos m (unat (hash k)) t)"
    using ns by (auto simp: reachable_def stop_def)
  have absent: "k \<notin> fst ` slots hs d" if z: "hs ! pos m (unat (hash k)) t = 0"
  proof
    assume "k \<in> fst ` slots hs d"
    then obtain j where j: "j < 2 ^ m" "hs ! j \<noteq> 0" "fst (d ! j) = k" using len by (auto simp: slots_def)
    then obtain w where w: "pos m (unat (hash k)) w = j" "\<forall>u < w. hs ! pos m (unat (hash k)) u \<noteq> 0"
      using ok by (auto simp: table_ok_def reachable_def)
    have "\<not> w < t" using ns [of w] w(1) j(3) by (auto simp: stop_def)
    moreover have "w \<noteq> t" using z w(1) j(2) by auto
    ultimately show False using w(2) z by (metis linorder_neqE_nat)
  qed
  show thesis by (rule that [OF p pos_less reach]) (use st absent in \<open>auto simp: stop_def\<close>)
qed

lemma rehash_put:
  assumes ok: "table_ok hash m (hits c) (cdata c)" and mask: "cmask c = 2 ^ m - 1" and n: "n \<noteq> 0"
    and free: "used (hits c) < 2 ^ m" and fresh: "fst row \<notin> fst ` slots (hits c) (cdata c)"
  obtains idx where "idx < 2 ^ m" and "hits c ! idx = 0"
    and "rehash hash ((n, row) # rows) c =
           rehash hash rows (c\<lparr>hits := (hits c)[idx := n], cdata := (cdata c)[idx := row]\<rparr>)"
    and "table_ok hash m ((hits c)[idx := n]) ((cdata c)[idx := row])"
proof -
  let ?h = "unat (hash (fst row))"
  have "length (hits c) = 2 ^ m" using ok by (auto simp: table_ok_def)
  then obtain r where r: "r < 2 ^ m" "hits c ! r = 0" using used_free [of "hits c"] free by auto
  then obtain t where t: "probe (\<lambda>idx. hits c ! idx = 0) (2 ^ m - 1) (?h mod 2 ^ m) 1 = Some (pos m ?h t)"
    "hits c ! pos m ?h t = 0" "\<And>u. u < t \<Longrightarrow> hits c ! pos m ?h u \<noteq> 0"
    using probe_first [of "\<lambda>idx. hits c ! idx = 0" r m ?h] by auto
  have "reachable m (hits c) ?h (pos m ?h t)" using t(3) by (auto simp: reachable_def)
  then have "table_ok hash m ((hits c)[pos m ?h t := n]) ((cdata c)[pos m ?h t := row])"
    using table_fill [OF ok pos_less t(2)] n fresh by simp
  with t(1,2) show thesis using n mask and_mask by (intro that [of "pos m ?h t"]) simp_all
qed

lemma rehash_spec:
  assumes "table_ok hash m (hits c) (cdata c)" and "cmask c = 2 ^ m - 1"
    and "used (hits c) + length (filter (\<lambda>(n, row). n \<noteq> 0) rows) < 2 ^ m"
    and "distinct (map (fst \<circ> snd) (filter (\<lambda>(n, row). n \<noteq> 0) rows))"
    and "\<forall>(n, row)\<in>set rows. n \<noteq> 0 \<longrightarrow> fst row \<notin> fst ` slots (hits c) (cdata c)"
  shows "\<exists>c'. rehash hash rows c = Some c' \<and> table_ok hash m (hits c') (cdata c') \<and>
    used (hits c') = used (hits c) + length (filter (\<lambda>(n, row). n \<noteq> 0) rows) \<and>
    slots (hits c') (cdata c') = slots (hits c) (cdata c) \<union> snd ` set (filter (\<lambda>(n, row). n \<noteq> 0) rows) \<and>
    c' = c\<lparr>hits := hits c', cdata := cdata c'\<rparr> \<and> length (cdata c') = length (cdata c) \<and>
    drop (2 ^ m) (cdata c') = drop (2 ^ m) (cdata c)"
  using assms
proof (induction rows arbitrary: c)
  case (Cons p rows)
  obtain n row where p: "p = (n, row)" by (cases p)
  show ?case
  proof (cases "n = 0")
    case True
    with Cons p show ?thesis by simp
  next
    case False
    have len: "length (hits c) = 2 ^ m" "2 ^ m \<le> length (cdata c)" using Cons.prems(1) by (auto simp: table_ok_def)
    have "used (hits c) < 2 ^ m" "fst row \<notin> fst ` slots (hits c) (cdata c)" using Cons.prems(3,5) p False by auto
    then obtain idx where idx: "idx < 2 ^ m" "hits c ! idx = 0"
      and step: "rehash hash (p # rows) c =
           rehash hash rows (c\<lparr>hits := (hits c)[idx := n], cdata := (cdata c)[idx := row]\<rparr>)"
      and ok: "table_ok hash m ((hits c)[idx := n]) ((cdata c)[idx := row])"
      using rehash_put [OF Cons.prems(1,2) False, of row rows] unfolding p by blast
    let ?c = "c\<lparr>hits := (hits c)[idx := n], cdata := (cdata c)[idx := row]\<rparr>"
    have us: "used (hits ?c) = Suc (used (hits c))" using used_fill [of idx "hits c" n] idx False len by simp
    have sl: "slots (hits ?c) (cdata ?c) = insert row (slots (hits c) (cdata c))"
      using slots_fill [of idx "hits c" "cdata c" n row] idx False len by simp
    have fits: "used (hits ?c) + length (filter (\<lambda>(n, row). n \<noteq> 0) rows) < 2 ^ m"
      using Cons.prems(3) p False us by simp
    have dist: "distinct (map (fst \<circ> snd) (filter (\<lambda>(n, row). n \<noteq> 0) rows))"
      using Cons.prems(4) p False by (simp add: comp_def)
    have fresh: "\<forall>(n, row)\<in>set rows. n \<noteq> 0 \<longrightarrow> fst row \<notin> fst ` slots (hits ?c) (cdata ?c)"
    proof (rule ballI, rule case_prodI2, rule impI, rule notI)
      fix p' n' row' assume "p' \<in> set rows" "p' = (n', row')"
        and a: "n' \<noteq> 0" "fst row' \<in> fst ` slots (hits ?c) (cdata ?c)"
      then have q: "(n', row') \<in> set rows" by simp
      have "fst row' \<noteq> fst row" using Cons.prems(4) p False a(1) q by (cases row') (auto simp: image_iff)
      then have "fst row' \<in> fst ` slots (hits c) (cdata c)" using a(2) unfolding sl by blast
      then show False using Cons.prems(5) a(1) q by auto
    qed
    have "drop (2 ^ m) (cdata ?c) = drop (2 ^ m) (cdata c)" using idx(1) by simp
    then show ?thesis
      using Cons.IH [OF _ _ fits dist fresh] ok Cons.prems(2) unfolding step sl us
      by (auto simp: p False)
  qed
qed simp

section \<open>The contents of the table as a map\<close>

definition rows_of :: "nat list \<Rightarrow> ('k \<times> 'v) list \<Rightarrow> ('k \<times> 'v) list" where
  "rows_of hs d = map snd (filter (\<lambda>(n, row). n \<noteq> 0) (zip hs d))"

definition table :: "('k, 'v) combiningFrame \<Rightarrow> 'k \<rightharpoonup> 'v" where
  "table c = map_of (rows_of (hits c) (cdata c))"

definition cf_ok :: "('k \<Rightarrow> 32 word) \<Rightarrow> nat \<Rightarrow> ('k, 'v) combiningFrame \<Rightarrow> bool" where
  "cf_ok hash m c \<longleftrightarrow> m \<le> 29 \<and> table_ok hash m (hits c) (cdata c) \<and> cmask c = 2 ^ m - 1 \<and> ccap c = 2 ^ m \<and>
     length (cdata c) = 2 ^ m + nscratch c \<and> clen c = used (hits c) \<and> threshold c = 7 * 2 ^ m div 10 \<and>
     clen c \<le> threshold c"

definition scratch :: "('k, 'v) combiningFrame \<Rightarrow> ('k \<times> 'v) list" where
  "scratch c = drop (ccap c) (cdata c)"

text \<open>What combining a row means: the value of its key is combined with the stored one.\<close>

definition combined_with :: "('v \<Rightarrow> 'v \<Rightarrow> 'v) \<Rightarrow> 'k \<times> 'v \<Rightarrow> ('k \<rightharpoonup> 'v) \<Rightarrow> ('k \<rightharpoonup> 'v)" where
  "combined_with g row M = M(fst row \<mapsto> (case M (fst row) of None \<Rightarrow> snd row | Some w \<Rightarrow> g w (snd row)))"

lemma rows_of_Cons [simp]:
  "rows_of [] d = []" "rows_of (n # hs) (x # d) = (if n = 0 then rows_of hs d else x # rows_of hs d)"
  by (simp_all add: rows_of_def)

lemma set_rows_of: "length hs \<le> length d \<Longrightarrow> set (rows_of hs d) = slots hs d"
  by (force simp: rows_of_def slots_def set_zip image_iff)

lemma length_rows_of: "length hs \<le> length d \<Longrightarrow> length (rows_of hs d) = used hs"
  by (induction hs d rule: list_induct2') (auto simp: used_def)

lemma distinct_rows_of:
  "length hs \<le> length d \<Longrightarrow>
   (\<forall>i<length hs. \<forall>j<length hs. hs ! i \<noteq> 0 \<longrightarrow> hs ! j \<noteq> 0 \<longrightarrow> fst (d ! i) = fst (d ! j) \<longrightarrow> i = j) \<Longrightarrow>
   distinct (map fst (rows_of hs d))"
proof (induction hs d rule: list_induct2')
  case (4 n hs x d)
  have "fst x \<notin> fst ` slots hs d" if n: "n \<noteq> 0"
  proof
    assume "fst x \<in> fst ` slots hs d"
    then obtain j where "j < length hs" "hs ! j \<noteq> 0" "fst (d ! j) = fst x" by (auto simp: slots_def)
    with 4(3) n have "0 = Suc j" by (metis (no_types, lifting) Suc_less_eq length_Cons nth_Cons_0 nth_Cons_Suc zero_less_Suc)
    then show False by simp
  qed
  moreover have "distinct (map fst (rows_of hs d))"
    using 4(2,3) by (intro 4(1)) (simp, metis Suc_less_eq Suc_inject length_Cons nth_Cons_Suc)
  ultimately show ?case using 4(2) by (simp add: set_rows_of)
qed simp_all

lemma table_iff: "table_ok hash m (hits c) (cdata c) \<Longrightarrow> table c k = Some v \<longleftrightarrow> (k, v) \<in> slots (hits c) (cdata c)"
  unfolding table_def table_ok_def
  by (subst map_of_eq_Some_iff) (simp_all add: distinct_rows_of set_rows_of)

lemma table_eqI:
  assumes "table_ok hash m (hits c) (cdata c)" and "\<And>k v. (k, v) \<in> slots (hits c) (cdata c) \<longleftrightarrow> M k = Some v"
  shows "table c = M"
proof
  fix k
  have "table c k = Some v \<longleftrightarrow> M k = Some v" for v using assms by (simp add: table_iff)
  then show "table c k = M k" by (metis option.exhaust)
qed

lemma dom_table: "table_ok hash m (hits c) (cdata c) \<Longrightarrow> dom (table c) = fst ` slots (hits c) (cdata c)"
  by (simp add: table_def dom_map_of_conv_image_fst set_rows_of table_ok_def)

lemma card_dom_table: "table_ok hash m (hits c) (cdata c) \<Longrightarrow> card (dom (table c)) = used (hits c)"
  unfolding table_def dom_map_of_conv_image_fst table_ok_def set_map [symmetric]
  by (subst distinct_card) (simp_all add: distinct_rows_of length_rows_of)

lemma slots_bump:
  assumes "table_ok hash m hs d" and "idx < 2 ^ m" and "hs ! idx \<noteq> 0" and "fst row = fst (d ! idx)"
  shows "table_ok hash m (hs[idx := Suc n]) (d[idx := row])"
    and "slots (hs[idx := Suc n]) (d[idx := row]) = insert row {x \<in> slots hs d. fst x \<noteq> fst row}"
proof -
  have len: "length hs = 2 ^ m" "2 ^ m \<le> length d" using assms(1) by (auto simp: table_ok_def)
  have fsts: "fst (d[idx := row] ! j) = fst (d ! j)" for j
    using assms(2,4) len by (cases "j = idx") auto
  have nz: "hs[idx := Suc n] ! j \<noteq> 0 \<longleftrightarrow> hs ! j \<noteq> 0" if "j < 2 ^ m" for j
    using assms(2,3) that len by (cases "j = idx") auto
  show "table_ok hash m (hs[idx := Suc n]) (d[idx := row])"
    using assms(1) len fsts nz reachable_mono [of m hs _ _ "Suc n" idx] by (auto simp: table_ok_def)
  have uniq: "j = idx" if "j < 2 ^ m" "hs ! j \<noteq> 0" "fst (d ! j) = fst row" for j
    using assms that by (simp add: table_ok_def)
  show "slots (hs[idx := Suc n]) (d[idx := row]) = insert row {x \<in> slots hs d. fst x \<noteq> fst row}"
  proof (intro set_eqI iffI)
    fix x assume "x \<in> slots (hs[idx := Suc n]) (d[idx := row])"
    then obtain j where j: "x = d[idx := row] ! j" "j < 2 ^ m" "hs ! j \<noteq> 0" using nz len by (auto simp: slots_def)
    show "x \<in> insert row {x \<in> slots hs d. fst x \<noteq> fst row}"
    proof (cases "j = idx")
      case True
      then show ?thesis using j(1) assms(2) len by simp
    next
      case False
      then have "x = d ! j" using j(1) by simp
      then show ?thesis using uniq [OF j(2,3)] False j(2,3) len slotsI [of j hs d] by auto
    qed
  next
    fix x assume "x \<in> insert row {x \<in> slots hs d. fst x \<noteq> fst row}"
    then consider "x = row" | "x \<in> slots hs d" "fst x \<noteq> fst row" by blast
    then show "x \<in> slots (hs[idx := Suc n]) (d[idx := row])"
    proof cases
      case 1
      then show ?thesis using slotsI [of idx "hs[idx := Suc n]" "d[idx := row]"] assms(2) len by simp
    next
      case 2
      then obtain j where j: "x = d ! j" "j < 2 ^ m" "hs ! j \<noteq> 0" using len by (auto simp: slots_def)
      then have "j \<noteq> idx" using 2(2) assms(4) by auto
      then show ?thesis using slotsI [of j "hs[idx := Suc n]" "d[idx := row]"] j len by simp
    qed
  qed
qed

section \<open>Combining\<close>

definition maxKeys :: nat where
  "maxKeys = 7 * hashMaxCapacity div 10"

lemma threshold_grows: "n \<le> 7 * 2 ^ m div 10 \<Longrightarrow> Suc n \<le> 7 * 2 ^ Suc m div 10" for n :: nat
proof -
  assume "n \<le> 7 * 2 ^ m div 10"
  then have "10 * n \<le> 7 * 2 ^ m" by (simp add: less_eq_div_iff_mult_less_eq)
  moreover have "1 \<le> (2::nat) ^ m" by simp
  moreover have "10 * Suc n \<le> 7 * (2 * x)" if "10 * n \<le> 7 * x" "1 \<le> x" for x :: nat
    using that by (cases "n = 0") auto
  ultimately have "10 * Suc n \<le> 7 * (2 * 2 ^ m)" by blast
  then show ?thesis by (simp add: less_eq_div_iff_mult_less_eq)
qed

lemma table_ok_empty: "2 ^ m \<le> length d \<Longrightarrow> table_ok hash m (replicate (2 ^ m) 0) d"
  by (simp add: table_ok_def)

lemma used_empty [simp]: "used (replicate n 0) = 0"
  by (simp add: used_def)

lemma slots_empty [simp]: "slots (replicate n 0) d = {}"
  by (auto simp: slots_def)

lemma used_le: "used hs \<le> length hs"
  by (simp add: used_def)

lemma cf_make_pow:
  "cf_make zero (2 ^ m) ns c =
     Ret (c\<lparr>cdata := replicate (2 ^ m + ns) zero, nscratch := ns, hits := replicate (2 ^ m) 0,
            threshold := 7 * 2 ^ m div 10, cmask := 2 ^ m - 1, ccap := 2 ^ m\<rparr>)"
  unfolding cf_make_def and_mask by simp

text \<open>\<open>added\<close> counts the new key; the table is doubled when the load factor is exceeded, and keeps its rows.\<close>

lemma added_spec:
  assumes ok: "table_ok hash m (hits c) (cdata c)" and m: "m \<le> 29"
    and c: "cmask c = 2 ^ m - 1" "ccap c = 2 ^ m" "length (cdata c) = 2 ^ m + nscratch c" "threshold c = 7 * 2 ^ m div 10"
    and n: "used (hits c) = Suc (clen c)" "clen c \<le> threshold c" "Suc (clen c) \<le> maxKeys"
  obtains m' c' where "added hash zero c = Some (Ret c')" and "cf_ok hash m' c'" and "table c' = table c"
    and "scratch c' = scratch c" and "nscratch c' = nscratch c"
proof (cases "Suc (clen c) \<le> threshold c")
  case True
  with assms show thesis
    by (intro that [of "c\<lparr>clen := Suc (clen c)\<rparr>" m]) (auto simp: added_def cf_ok_def table_def scratch_def)
next
  case False
  then have "m \<noteq> 29" using n(3) c(4) by (auto simp: maxKeys_def hashMaxCapacity_def)
  then have m': "Suc m \<le> 29" "ccap c \<noteq> hashMaxCapacity" using m c(2) power_inject_exp [of 2 m 29] by (auto simp: hashMaxCapacity_def)
  define c1 where "c1 = c\<lparr>clen := Suc (clen c), hits := replicate (2 ^ Suc m) 0, threshold := 7 * 2 ^ Suc m div 10,
    cmask := 2 ^ Suc m - 1, ccap := 2 ^ Suc m, cdata := replicate (2 ^ Suc m) zero @ drop (2 ^ m) (cdata c)\<rparr>"
  let ?rows = "zip (hits c) (take (2 ^ m) (cdata c))"
  have len: "length (hits c) = 2 ^ m" using ok by (simp add: table_ok_def)
  have zips: "?rows = zip (hits c) (cdata c)" using take_zip [of "2 ^ m" "hits c" "cdata c"] len by simp
  have rows: "map snd (filter (\<lambda>(n, row). n \<noteq> 0) ?rows) = rows_of (hits c) (cdata c)"
    by (simp add: zips rows_of_def)
  have lenr: "length (filter (\<lambda>(n, row). n \<noteq> 0) ?rows) = used (hits c)"
    using arg_cong [OF rows, of length] length_rows_of [of "hits c" "cdata c"] len c(3) by simp
  have fits: "used (hits c1) + length (filter (\<lambda>(n, row). n \<noteq> 0) ?rows) < 2 ^ Suc m"
    using le_less_trans [OF used_le [of "hits c"], of "2 ^ Suc m"] unfolding lenr len by (simp add: c1_def)
  have dist: "distinct (map (fst \<circ> snd) (filter (\<lambda>(n, row). n \<noteq> 0) ?rows))"
    using distinct_rows_of [of "hits c" "cdata c"] ok unfolding map_map [symmetric] rows by (simp add: table_ok_def)
  have ok1: "table_ok hash (Suc m) (hits c1) (cdata c1)"
    unfolding c1_def by (simp del: power_Suc add: table_ok_empty)
  have mask1: "cmask c1 = 2 ^ Suc m - 1" by (simp add: c1_def)
  have fresh: "\<forall>(n, row)\<in>set ?rows. n \<noteq> 0 \<longrightarrow> fst row \<notin> fst ` slots (hits c1) (cdata c1)" by (simp add: c1_def)
  obtain c' where c': "rehash hash ?rows c1 = Some c'" "table_ok hash (Suc m) (hits c') (cdata c')"
    "used (hits c') = used (hits c)" "slots (hits c') (cdata c') = set (rows_of (hits c) (cdata c))"
    "c' = c1\<lparr>hits := hits c', cdata := cdata c'\<rparr>" "length (cdata c') = length (cdata c1)"
    "drop (2 ^ Suc m) (cdata c') = drop (2 ^ Suc m) (cdata c1)"
    using rehash_spec [OF ok1 mask1 fits dist fresh] unfolding lenr set_map [symmetric] rows by (auto simp: c1_def)
  have "2 ^ m * 2 = (2::nat) ^ Suc m" by simp
  then have run: "added hash zero c = Some (Ret c')"
    using False m'(2) c'(1) c(2,3) unfolding added_def
    by (simp del: power_Suc power_Suc2 add: c1_def cf_make_pow Let_def)
  have fields: "ccap c' = 2 ^ Suc m" "clen c' = Suc (clen c)" "threshold c' = 7 * 2 ^ Suc m div 10"
    "cmask c' = 2 ^ Suc m - 1" "nscratch c' = nscratch c" by (subst c'(5), simp add: c1_def)+
  have "cf_ok hash (Suc m) c'"
    using m' c' n c(3,4) fields threshold_grows [of "clen c" m] by (simp add: cf_ok_def c1_def)
  moreover have "table c' = table c"
    using table_iff [OF ok] c'(4) set_rows_of [of "hits c" "cdata c"] len c(3)
    by (intro table_eqI [OF c'(2)]) simp
  moreover have "scratch c' = scratch c" using fields c'(7) c(2) by (simp add: scratch_def c1_def)
  ultimately show thesis using that run fields by blast
qed

text \<open>One row of the scratch space is combined into the table; the rows behind it stay.\<close>

lemma table_scratch:
  assumes "length hs = 2 ^ m" and "2 ^ m \<le> j"
  shows "table_ok hash m hs (d[j := x]) = table_ok hash m hs d" and "slots hs (d[j := x]) = slots hs d"
proof -
  have same: "d[j := x] ! i = d ! i" if "i < 2 ^ m" for i using assms(2) that by simp
  show "table_ok hash m hs (d[j := x]) = table_ok hash m hs d" using same by (simp add: table_ok_def)
  show "slots hs (d[j := x]) = slots hs d" using same assms(1) unfolding slots_def by (metis (no_types, lifting))
qed

lemma combine_new:
  assumes ok: "cf_ok hash m c" and i: "i < nscratch c" and row: "scratch c ! i = row"
    and idx: "idx < 2 ^ m" "reachable m (hits c) (unat (hash (fst row))) idx" "hits c ! idx = 0"
    and fresh: "fst row \<notin> fst ` slots (hits c) (cdata c)"
    and room: "card (insert (fst row) (dom (table c))) \<le> maxKeys"
  defines "c1 \<equiv> c\<lparr>hits := (hits c)[idx := 1], cdata := (cdata c)[idx := row, ccap c + i := cdata c ! idx]\<rparr>"
  obtains m' c' where "added hash zero c1 = Some (Ret c')" and "cf_ok hash m' c'"
    and "table c' = combined_with g row (table c)"
    and "drop (Suc i) (scratch c') = drop (Suc i) (scratch c)" and "nscratch c' = nscratch c"
proof -
  have tok: "table_ok hash m (hits c) (cdata c)" and c: "m \<le> 29" "cmask c = 2 ^ m - 1" "ccap c = 2 ^ m"
    "length (cdata c) = 2 ^ m + nscratch c" "clen c = used (hits c)" "threshold c = 7 * 2 ^ m div 10" "clen c \<le> threshold c"
    using ok by (auto simp: cf_ok_def)
  have len: "length (hits c) = 2 ^ m" using tok by (simp add: table_ok_def)
  have tok1: "table_ok hash m (hits c1) (cdata c1)"
    using table_fill [OF tok idx(1,3) _ idx(2) fresh, of 1] c(3) len by (simp add: c1_def table_scratch)
  have sl1: "slots (hits c1) (cdata c1) = insert row (slots (hits c) (cdata c))"
    using slots_fill [of idx "hits c" "cdata c" 1 row] idx c(3,4) len by (simp add: c1_def table_scratch)
  have c1: "cmask c1 = 2 ^ m - 1" "ccap c1 = 2 ^ m" "length (cdata c1) = 2 ^ m + nscratch c1"
    "threshold c1 = 7 * 2 ^ m div 10" "clen c1 \<le> threshold c1" using c by (simp_all add: c1_def)
  have us1: "used (hits c1) = Suc (clen c1)"
    using used_fill [of idx "hits c" 1] idx len c(5) by (simp add: c1_def)
  have notin: "fst row \<notin> dom (table c)" using fresh dom_table [OF tok] by simp
  have "finite (dom (table c))" by (simp add: table_def finite_dom_map_of)
  then have "card (insert (fst row) (dom (table c))) = Suc (clen c)"
    using notin card_dom_table [OF tok] c(5) by simp
  then have "Suc (clen c1) \<le> maxKeys" using room by (simp add: c1_def)
  then obtain m' c' where c': "added hash zero c1 = Some (Ret c')" "cf_ok hash m' c'" "table c' = table c1"
    "scratch c' = scratch c1" "nscratch c' = nscratch c1"
    by (rule added_spec [OF tok1 c(1) c1(1-4) us1 c1(5), of zero])
  have none: "table c (fst row) = None" using notin by auto
  have slot: "(k, v) \<in> insert row (slots (hits c) (cdata c)) \<longleftrightarrow> combined_with g row (table c) k = Some v" for k v
    using table_iff [OF tok, symmetric] none by (cases row) (auto simp: combined_with_def)
  have "table c1 = combined_with g row (table c)"
    using slot by (intro table_eqI [OF tok1]) (simp only: sl1)
  moreover have "drop (Suc i) (scratch c1) = drop (Suc i) (scratch c)"
    using c(3) idx(1) by (simp add: scratch_def c1_def drop_update_swap)
  ultimately show thesis using that c' by (simp add: c1_def)
qed

lemma combine_old:
  fixes g :: "'v \<Rightarrow> 'v \<Rightarrow> 'v"
  assumes ok: "cf_ok hash m c" and idx: "idx < 2 ^ m" "hits c ! idx \<noteq> 0" "fst (cdata c ! idx) = fst row"
  defines "c1 \<equiv> c\<lparr>cdata := (cdata c)[idx := (fst (cdata c ! idx), g (snd (cdata c ! idx)) (snd row))],
                  hits := (hits c)[idx := Suc (hits c ! idx)]\<rparr>"
  shows "cf_ok hash m c1" and "table c1 = combined_with g row (table c)" and "scratch c1 = scratch c"
proof -
  have tok: "table_ok hash m (hits c) (cdata c)" and cap: "ccap c = 2 ^ m" using ok by (auto simp: cf_ok_def)
  then have len: "length (hits c) = 2 ^ m" by (simp add: table_ok_def)
  let ?new = "(fst row, g (snd (cdata c ! idx)) (snd row))"
  have "fst ?new = fst (cdata c ! idx)" using idx(3) by simp
  note bump = slots_bump [OF tok idx(1,2) this, of "hits c ! idx"]
  have tok1: "table_ok hash m (hits c1) (cdata c1)"
    and sl1: "slots (hits c1) (cdata c1) = insert ?new {x \<in> slots (hits c) (cdata c). fst x \<noteq> fst row}"
    using bump idx(3) by (simp_all add: c1_def)
  then show "cf_ok hash m c1"
    using ok used_bump [of idx "hits c" "Suc (hits c ! idx)"] idx len by (simp add: cf_ok_def c1_def)
  have "cdata c ! idx \<in> slots (hits c) (cdata c)" using idx len slotsI by metis
  then have "table c (fst row) = Some (snd (cdata c ! idx))"
    using table_iff [OF tok] idx(3) by (metis prod.collapse)
  then have "(k, v) \<in> insert ?new {x \<in> slots (hits c) (cdata c). fst x \<noteq> fst row} \<longleftrightarrow>
      combined_with g row (table c) k = Some v" for k v
    using table_iff [OF tok, symmetric] by (auto simp: combined_with_def)
  then show "table c1 = combined_with g row (table c)" by (intro table_eqI [OF tok1]) (simp only: sl1)
  show "scratch c1 = scratch c" using cap idx(1) by (simp add: scratch_def c1_def)
qed

lemma combine_row_spec:
  assumes ok: "cf_ok hash m c" and i: "i < nscratch c" and eq: "\<And>a b. same_key lt a b \<longleftrightarrow> a = b"
    and g: "\<And>w v. combiner w v = Ret (g w v)"
    and room: "card (insert (fst (scratch c ! i)) (dom (table c))) \<le> maxKeys"
  obtains m' c' where "combine_row lt hash combiner zero i c = Some (Ret c')" and "cf_ok hash m' c'"
    and "table c' = combined_with g (scratch c ! i) (table c)"
    and "drop (Suc i) (scratch c') = drop (Suc i) (scratch c)" and "nscratch c' = nscratch c"
proof -
  define row where "row = scratch c ! i"
  have tok: "table_ok hash m (hits c) (cdata c)" and c: "cmask c = 2 ^ m - 1" "ccap c = 2 ^ m"
    "length (cdata c) = 2 ^ m + nscratch c" "clen c = used (hits c)" "threshold c = 7 * 2 ^ m div 10" "clen c \<le> threshold c"
    using ok by (auto simp: cf_ok_def)
  have "hits c \<noteq> []" using tok by (auto simp: table_ok_def)
  have row: "cdata c ! (ccap c + i) = row" using c(2,3) by (simp add: row_def scratch_def)
  have "7 * 2 ^ m div 10 < (2 :: nat) ^ m" by (simp add: div_less_iff_less_mult)
  then have us: "used (hits c) < 2 ^ m" using c(4-6) by linarith
  obtain idx where idx: "probe (\<lambda>idx. hits c ! idx = 0 \<or> fst (cdata c ! idx) = fst row) (2 ^ m - 1)
      (unat (hash (fst row)) mod 2 ^ m) 1 = Some idx" "idx < 2 ^ m" "reachable m (hits c) (unat (hash (fst row))) idx"
    "hits c ! idx = 0 \<longrightarrow> fst row \<notin> fst ` slots (hits c) (cdata c)" "hits c ! idx \<noteq> 0 \<longrightarrow> fst (cdata c ! idx) = fst row"
    by (rule table_search [OF tok us, of "fst row"]) (rule that)
  show thesis
  proof (cases "hits c ! idx = 0")
    case True
    have run: "combine_row lt hash combiner zero i c = added hash zero (c\<lparr>hits := (hits c)[idx := 1],
        cdata := (cdata c)[idx := row, ccap c + i := cdata c ! idx]\<rparr>)"
      using \<open>hits c \<noteq> []\<close> idx(1) True by (simp add: combine_row_def row eq c(1) and_mask_Suc)
    have room': "card (insert (fst row) (dom (table c))) \<le> maxKeys" using room by (simp add: row_def)
    show thesis
      by (rule combine_new [OF ok i row_def [symmetric] idx(2,3) True idx(4) [rule_format, OF True] room', of zero g])
         (simp add: that run row_def)
  next
    case False
    note old = combine_old [OF ok idx(2) False idx(5) [rule_format, OF False], of g]
    have run: "combine_row lt hash combiner zero i c =
        Some (Ret (c\<lparr>cdata := (cdata c)[idx := (fst (cdata c ! idx), g (snd (cdata c ! idx)) (snd row))],
                      hits := (hits c)[idx := Suc (hits c ! idx)]\<rparr>))"
      using \<open>hits c \<noteq> []\<close> idx(1) False by (simp add: combine_row_def row eq c(1) and_mask_Suc g)
    show thesis by (rule that [OF run old(1)]) (simp_all add: old(2,3) flip: row_def)
  qed
qed

text \<open>The rows of the scratch space, in order.\<close>

lemma combined_with_dom [simp]: "dom (combined_with g row M) = insert (fst row) (dom M)"
  by (simp add: combined_with_def)

lemma dom_fold_combined: "dom (fold (combined_with g) rows M) = fst ` set rows \<union> dom M"
  by (induction rows arbitrary: M) auto

lemma finite_dom_table [simp]: "finite (dom (table c))"
  by (simp add: table_def finite_dom_map_of)

lemma combine_loop_spec:
  assumes "cf_ok hash m c" and eq: "\<And>a b. same_key lt a b \<longleftrightarrow> a = b" and g: "\<And>w v. combiner w v = Ret (g w v)"
    and "i + n \<le> nscratch c" and "card (fst ` set (take n (drop i (scratch c))) \<union> dom (table c)) \<le> maxKeys"
  shows "\<exists>m' c'. combine_loop lt hash combiner zero i n c = Some (Ret c') \<and> cf_ok hash m' c' \<and>
    table c' = fold (combined_with g) (take n (drop i (scratch c))) (table c) \<and> nscratch c' = nscratch c"
  using assms(1,4,5)
proof (induction n arbitrary: i c m)
  case (Suc n)
  have len: "length (scratch c) = nscratch c" using Suc.prems(1) by (auto simp: cf_ok_def scratch_def)
  then have i: "i < length (scratch c)" "i < nscratch c" using Suc.prems(2) by auto
  let ?row = "scratch c ! i"
  have rows: "take (Suc n) (drop i (scratch c)) = ?row # take n (drop (Suc i) (scratch c))"
    using i(1) by (simp add: Cons_nth_drop_Suc [symmetric])
  have "card (insert (fst ?row) (dom (table c))) \<le> card (fst ` set (take (Suc n) (drop i (scratch c))) \<union> dom (table c))"
    unfolding rows by (rule card_mono) auto
  then have room: "card (insert (fst ?row) (dom (table c))) \<le> maxKeys" using Suc.prems(3) by simp
  obtain m1 c1 where c1: "combine_row lt hash combiner zero i c = Some (Ret c1)" "cf_ok hash m1 c1"
    "table c1 = combined_with g ?row (table c)" "drop (Suc i) (scratch c1) = drop (Suc i) (scratch c)"
    "nscratch c1 = nscratch c"
    by (rule combine_row_spec [OF Suc.prems(1) i(2) eq g room]) (rule that)
  have "card (fst ` set (take n (drop (Suc i) (scratch c1))) \<union> dom (table c1)) \<le> maxKeys"
    using Suc.prems(3) unfolding rows c1(3,4) by simp
  then obtain m' c' where "combine_loop lt hash combiner zero (Suc i) n c1 = Some (Ret c')" "cf_ok hash m' c'"
    "table c' = fold (combined_with g) (take n (drop (Suc i) (scratch c))) (table c1)" "nscratch c' = nscratch c1"
    using Suc.IH [OF c1(2), of "Suc i"] Suc.prems(2) c1(4,5) by auto
  then show ?case using c1 rows by auto
qed auto

lemma combine_chunks_spec:
  assumes "cf_ok hash m c" and eq: "\<And>a b. same_key lt a b \<longleftrightarrow> a = b" and g: "\<And>w v. combiner w v = Ret (g w v)"
    and "length f \<le> k * nscratch c" and "card (fst ` set f \<union> dom (table c)) \<le> maxKeys"
  shows "\<exists>m' c'. combine_chunks lt hash combiner zero k f c = Some (Ret c') \<and> cf_ok hash m' c' \<and>
    table c' = fold (combined_with g) f (table c) \<and> nscratch c' = nscratch c"
  using assms(1,4,5)
proof (induction k arbitrary: f c m)
  case (Suc k)
  define n where "n = min (nscratch c) (length f)"
  define c0 where "c0 = c\<lparr>cdata := take (ccap c) (cdata c) @ take n f @ drop (ccap c + n) (cdata c)\<rparr>"
  have c: "ccap c = 2 ^ m" "length (cdata c) = 2 ^ m + nscratch c" "length (hits c) = 2 ^ m"
    using Suc.prems(1) by (auto simp: cf_ok_def table_ok_def)
  have same: "cdata c0 ! j = cdata c ! j" if "j < 2 ^ m" for j using that c by (simp add: c0_def nth_append)
  have ok0: "cf_ok hash m c0"
    using Suc.prems(1) same c by (auto simp: cf_ok_def table_ok_def c0_def n_def)
  have tok: "table_ok hash m (hits c0) (cdata c0)" "table_ok hash m (hits c) (cdata c)"
    using ok0 Suc.prems(1) by (simp_all add: cf_ok_def)
  have "slots (hits c0) (cdata c0) = slots (hits c) (cdata c)"
  proof -
    have "hits c0 = hits c" by (simp add: c0_def)
    then show ?thesis using same c(3) unfolding slots_def by (metis (no_types, lifting))
  qed
  then have tab0: "table c0 = table c" using table_iff [OF tok(2)] by (intro table_eqI [OF tok(1)]) simp
  have sc0: "take n (drop 0 (scratch c0)) = take n f" using c by (simp add: scratch_def c0_def n_def)
  have ns0: "nscratch c0 = nscratch c" by (simp add: c0_def)
  have sub: "fst ` set (take n f) \<union> dom (table c) \<subseteq> fst ` set f \<union> dom (table c)" by (auto dest: in_set_takeD)
  have "card (fst ` set (take n (drop 0 (scratch c0))) \<union> dom (table c0)) \<le> maxKeys"
    unfolding sc0 tab0 using card_mono [OF _ sub] Suc.prems(3) by simp
  then obtain m1 c1 where c1: "combine_loop lt hash combiner zero 0 n c0 = Some (Ret c1)" "cf_ok hash m1 c1"
    "table c1 = fold (combined_with g) (take n f) (table c)" "nscratch c1 = nscratch c"
    using combine_loop_spec [where combiner = combiner and g = g and i = 0 and n = n and zero = zero, OF ok0 eq g] ns0 unfolding sc0 tab0 by (auto simp: n_def)
  have split: "take n f @ drop (nscratch c) f = f" unfolding n_def by (simp add: min_def)
  have "length (drop (nscratch c) f) \<le> k * nscratch c1" using Suc.prems(2) c1(4) by simp
  moreover have "card (fst ` set (drop (nscratch c) f) \<union> dom (table c1)) \<le> maxKeys"
    using Suc.prems(3) unfolding c1(3) dom_fold_combined
    by (metis (no_types, lifting) Un_assoc image_Un set_append split sup_commute)
  ultimately obtain m' c' where "combine_chunks lt hash combiner zero k (drop (nscratch c) f) c1 = Some (Ret c')"
    "cf_ok hash m' c'" "table c' = fold (combined_with g) (drop (nscratch c) f) (table c1)" "nscratch c' = nscratch c1"
    using Suc.IH [OF c1(2)] by blast
  moreover have "combine_chunks lt hash combiner zero (Suc k) f c =
      run_bind (combine_loop lt hash combiner zero 0 n c0) (combine_chunks lt hash combiner zero k (drop (nscratch c) f))"
    by (simp add: n_def c0_def Let_def)
  ultimately show ?case using c1 fold_append [of "combined_with g" "take n f" "drop (nscratch c) f"] split by auto
qed auto

section \<open>Compacting\<close>

lemma compact_loop_spec:
  "j \<le> i \<Longrightarrow> i + length hs \<le> length d \<Longrightarrow> compact_loop hs i j d = (d', j') \<Longrightarrow>
   j' \<le> i + length hs \<and> length d' = length d \<and> take j' d' = take j d @ rows_of hs (drop i d)"
proof (induction hs i j d arbitrary: d' j' rule: compact_loop.induct)
  case (2 n ns i j d)
  have i: "i < length d" using 2(4) by simp
  have d: "drop i d = d ! i # drop (Suc i) d" by (rule Cons_nth_drop_Suc [symmetric, OF i])
  show ?case
  proof (cases "n = 0")
    case True
    then show ?thesis using 2(1) [OF True _ _] 2(3-5) d by auto
  next
    case False
    let ?d = "d[i := d ! j, j := d ! i]"
    have "take (Suc j) ?d = take j d @ [d ! i]" using 2(3) i by (simp add: take_Suc_conv_app_nth)
    moreover have "drop (Suc i) ?d = drop (Suc i) d" using 2(3) by simp
    ultimately show ?thesis using 2(2) [OF False _ _, of d' j'] 2(3-5) False d by auto
  qed
qed simp

lemma rows_of_zero [simp]: "rows_of (replicate n 0) d = []"
  by (auto simp: rows_of_def filter_empty_conv dest: set_zip_leftD)

lemma Compact_spec:
  assumes "cf_ok hash m c" and "Compact c = (c', rows)"
  shows "rows = rows_of (hits c) (cdata c)" and "cf_ok hash m c'" and "table c' = Map.empty"
    and "nscratch c' = nscratch c" and "map_of rows = table c" and "distinct (map fst rows)"
proof -
  have c: "table_ok hash m (hits c) (cdata c)" "length (hits c) = 2 ^ m" "length (cdata c) = 2 ^ m + nscratch c"
    using assms(1) by (auto simp: cf_ok_def table_ok_def)
  obtain d j where l: "compact_loop (hits c) 0 0 (cdata c) = (d, j)" by fastforce
  have d: "length d = length (cdata c)" "take j d = rows_of (hits c) (cdata c)"
    using compact_loop_spec [OF _ _ l] c by auto
  have c': "c' = c\<lparr>cdata := d, hits := replicate (2 ^ m) 0, clen := 0\<rparr>" "rows = take j d"
    using assms(2) l c(2) by (auto simp: Compact_def map_replicate_const)
  show rows: "rows = rows_of (hits c) (cdata c)" using c' d by simp
  show "cf_ok hash m c'" using assms(1) c' c d table_ok_empty [of m d hash] by (simp add: cf_ok_def)
  show "table c' = Map.empty" by (simp add: table_def c')
  show "nscratch c' = nscratch c" using c' by simp
  show "map_of rows = table c" by (simp add: rows table_def)
  show "distinct (map fst rows)" using distinct_rows_of [of "hits c" "cdata c"] c by (simp add: rows table_ok_def)
qed

lemma makeCombiningFrame_ok:
  assumes "makeCombiningFrame zero t (2 ^ m) ns = Ret c" and "m \<le> 29"
  shows "cf_ok hash m c" and "table c = Map.empty" and "nscratch c = ns"
proof -
  have c: "c = \<lparr>cdata = replicate (2 ^ m + ns) zero, nscratch = ns, threshold = 7 * 2 ^ m div 10,
      hits = replicate (2 ^ m) 0, clen = 0, ccap = 2 ^ m, cmask = 2 ^ m - 1\<rparr>"
    using assms(1) by (auto simp: makeCombiningFrame_def cf_make_pow split: if_splits)
  show "cf_ok hash m c" "table c = Map.empty" "nscratch c = ns"
    using assms(2) table_ok_empty [of m "cdata c" hash] by (simp_all add: c cf_ok_def table_def)
qed

lemma cf_Combine_spec:
  assumes "cf_ok hash m c" and "\<And>a b. same_key lt a b \<longleftrightarrow> a = b" and "0 < nscratch c"
    and "card (fst ` set f \<union> dom (table c)) \<le> maxKeys"
  shows "\<exists>m' c'. cf_Combine lt hash (\<lambda>w v. Ret (g w v)) zero f c = Some (Ret c') \<and> cf_ok hash m' c' \<and>
    table c' = fold (combined_with g) f (table c) \<and> nscratch c' = nscratch c"
proof -
  let ?ns = "nscratch c"
  have "length f \<le> (length f + ?ns - 1) div ?ns * ?ns"
    using assms(3) dividend_less_times_div [of ?ns "length f + ?ns - 1"] by (simp add: mult.commute)
  then show ?thesis
    using combine_chunks_spec [where combiner = "\<lambda>w v. Ret (g w v)" and g = g, OF assms(1,2) refl] assms(3,4)
    by (simp add: cf_Combine_def)
qed

text \<open>
  C11.  The combining hash table: a new table of a power-of-two size, into which the rows of a frame
  are combined (through the scratch space, with probing and doubling), holds exactly the keys of
  the frame, each with its values combined from the left in the order of the rows; no probe loop
  runs forever.  \<open>Compact\<close> returns these keys once each, and leaves an empty table.
\<close>

theorem Combine_Compact:
  assumes "\<And>a b. same_key lt a b \<longleftrightarrow> a = b" and "m \<le> 29" and "0 < ns" and "card (fst ` set f) \<le> maxKeys"
    and "makeCombiningFrame zero t (2 ^ m) ns = Ret c"
  shows "\<exists>c' c'' rows. cf_Combine lt hash (\<lambda>w v. Ret (g w v)) zero f c = Some (Ret c') \<and> Compact c' = (c'', rows) \<and>
    distinct (map fst rows) \<and> map_of rows = fold (combined_with g) f Map.empty \<and>
    clen c' = card (fst ` set f) \<and> table c'' = Map.empty \<and> clen c'' = 0"
proof -
  note mk = makeCombiningFrame_ok [OF assms(5,2)]
  obtain m' c' where c': "cf_Combine lt hash (\<lambda>w v. Ret (g w v)) zero f c = Some (Ret c')" "cf_ok hash m' c'"
    "table c' = fold (combined_with g) f Map.empty"
    using cf_Combine_spec [where f = f and g = g and zero = zero and hash = hash, OF mk(1) assms(1)] mk(2,3) assms(3,4) by auto
  obtain c'' rows where cp: "Compact c' = (c'', rows)" by fastforce
  have "clen c' = card (fst ` set f)"
    using c' card_dom_table [of hash m' c'] dom_fold_combined [of g f Map.empty] by (simp add: cf_ok_def)
  moreover have "clen c'' = 0" using cp by (auto simp: Compact_def split: prod.splits)
  ultimately show ?thesis using c' cp Compact_spec [OF c'(2) cp] by auto
qed

theorem Combine_Compact_witness:
  "\<exists>c' c'' rows. cf_Combine (<) (\<lambda>k. of_int k) (\<lambda>w v. Ret (w + v)) (0, 0) [(1, 10), (5, 2), (1::int, 5::int), (9, 1)]
      \<lparr>cdata = replicate 4 (0, 0), nscratch = 2, threshold = 1, hits = [0, 0], clen = 0, ccap = 2, cmask = 1\<rparr> = Some (Ret c') \<and>
    Compact c' = (c'', rows) \<and> distinct (map fst rows) \<and> map_of rows = [1 \<mapsto> 15, 5 \<mapsto> 2, 9 \<mapsto> 1] \<and>
    clen c' = 3 \<and> table c'' = Map.empty \<and> clen c'' = 0"
proof -
  have f: "fold (combined_with (+)) [(1, 10), (5, 2), (1::int, 5::int), (9, 1)] Map.empty = [1 \<mapsto> 15, 5 \<mapsto> 2, 9 \<mapsto> 1]"
    by (auto simp: combined_with_def)
  have c: "card (fst ` set [(1, 10), (5, 2), (1::int, 5::int), (9, 1)]) = 3" by code_simp
  have mk: "makeCombiningFrame (0, 0) (TypeSlice [TBasic ''int'', TBasic ''int'']) (2 ^ 1) 2 =
      Ret \<lparr>cdata = replicate 4 (0::int, 0::int), nscratch = 2, threshold = 1, hits = [0, 0], clen = 0, ccap = 2, cmask = 1\<rparr>"
    by code_simp
  have key: "same_key (<) a b \<longleftrightarrow> a = b" for a b :: int by (auto simp: same_key_def)
  show ?thesis
    using Combine_Compact [where hash = "\<lambda>k. of_int k" and g = "(+)" and f = "[(1, 10), (5, 2), (1, 5), (9, 1)]", OF key _ _ _ mk]
    unfolding f c by (simp add: maxKeys_def hashMaxCapacity_def)
qed

end
