(* ===== verification/SpillCombiner.thy ===== *)
theory SpillCombiner
  imports Combiner Frame "HOL-Library.List_Lexorder"
begin

text \<open>
  \<open>exec/combiner.go\<close>: the combiner, which keeps a combining hash table and spills its sorted contents
  to disk, and the readers that merge the spilled runs with the table.

  Rows are stored in frames as lists of values; the last column holds the value and the columns
  before it the key.  \<open>comb_env\<close> gathers what the combiner does not own: the order and the hash of
  keys, the user's function, sorting, the codecs and checksums of the encoder, the order in which a
  directory lists its files, and the batch and chunk sizes.  The counters published by \<open>expvar\<close>
  and the log are not modelled.
\<close>

section \<open>The combiner\<close>

record ('v, 'u) comb_env =
  ce_less :: "'v list \<Rightarrow> 'v list \<Rightarrow> bool"
  ce_hash :: "'v list \<Rightarrow> 32 word"
  ce_combiner :: "'v \<Rightarrow> 'v \<Rightarrow> 'v go"
  ce_sort :: "('v list \<times> 'v) list \<Rightarrow> ('v list \<times> 'v) list"
  ce_zero :: "nat \<Rightarrow> 'v"
  ce_ncol :: nat
  ce_crc :: "('v, 'u) msg list \<Rightarrow> 32 word"
  ce_uc :: "('v, 'u) ucodec"
  ce_list :: "('v, 'u) msg list list \<Rightarrow> ('v, 'u) msg list list"
  ce_batch :: nat
  ce_chunk :: nat

record ('v, 'u) combiner =
  targetSize :: nat
  comb :: "('v list, 'v) combiningFrame"
  spiller :: "('v, 'u) msg list list"
  total :: nat

definition row_list :: "'v list \<times> 'v \<Rightarrow> 'v list" where
  "row_list = (\<lambda>(k, v). k @ [v])"

definition row_pair :: "'v list \<Rightarrow> 'v list \<times> 'v" where
  "row_pair x = (butlast x, last x)"

definition zero_row :: "('v, 'u) comb_env \<Rightarrow> 'v list \<times> 'v" where
  "zero_row E = row_pair (map (ce_zero E) [0 ..< ce_ncol E])"

text \<open>\<open>tmp\<close> is the outcome of creating the spiller's directory.\<close>

definition newCombiner ::
  "'v optab \<Rightarrow> ('v, 'u) comb_env \<Rightarrow> gerr \<Rightarrow> nat \<Rightarrow> nat \<Rightarrow> stype \<Rightarrow> nat \<Rightarrow> (goerror + ('v, 'u) combiner) go" where
  "newCombiner ops E tmp initSize scratchSize t target = (case tmp of
       Some err \<Rightarrow> Ret (Inl err)
     | None \<Rightarrow> go_bind (makeCombiningFrame (zero_row E) t initSize scratchSize) (\<lambda>cf.
         go_bind (Out t 0) (\<lambda>ty. go_bind (CanCompare ops ty) (\<lambda>can.
           if \<not> can then Panic ''bigslice.newCombiner: cannot sort type''
           else Ret (Inr \<lparr>targetSize = target, comb = cf, spiller = [], total = 0\<rparr>)))))"

definition combiner_spill ::
  "('v, 'u) comb_env \<Rightarrow> ('v, 'u) combiner \<Rightarrow> ('v list \<times> 'v) list \<Rightarrow> (('v, 'u) combiner \<times> gerr) option" where
  "combiner_spill E c f = map_option (\<lambda>(dir, err).
       (if err = None then c\<lparr>spiller := dir, total := 0\<rparr> else c\<lparr>spiller := dir\<rparr>, err))
     (Spill (ce_crc E) (ce_uc E) (ce_batch E) (spiller c) (batch_of_rows (ce_ncol E) (map row_list (ce_sort E f))))"

definition combiner_Combine ::
  "('v, 'u) comb_env \<Rightarrow> ('v, 'u) combiner \<Rightarrow> ('v list \<times> 'v) list \<Rightarrow> (('v, 'u) combiner \<times> gerr) go option" where
  "combiner_Combine E c f =
     (let c = c\<lparr>total := total c + length f\<rparr>; nkeys = clen (comb c)
      in run_bind (cf_Combine (ce_less E) (ce_hash E) (ce_combiner E) (zero_row E) f (comb c)) (\<lambda>cf.
        if targetSize c \<le> nkeys
        then let (cf', spilled) = Compact cf
             in map_option Ret (combiner_spill E (c\<lparr>comb := cf'\<rparr>) spilled)
        else Some (Ret (c\<lparr>comb := cf\<rparr>, None))))"

definition combiner_Discard :: "('v, 'u) combiner \<Rightarrow> ('v, 'u) combiner" where
  "combiner_Discard c = c\<lparr>spiller := []\<rparr>"

text \<open>
  The readers merged by \<open>Reader\<close>: the spilled files and a frame.  The interface value is a sum, and
  the rows a file delivers are split into key and value.
\<close>

type_synonym ('v, 'u) run_reader = "('v, 'u) decodingReader closingReader + ('v list \<times> 'v) list"

fun run_Read :: "('v, 'u) comb_env \<Rightarrow> (('v, 'u) run_reader, 'v list \<times> 'v) reader" where
  "run_Read E (Inl r) n = run_bind (closing_Read (decoding_Read (ce_crc E) (ce_uc E) (ce_zero E) (ce_ncol E)) r n)
     (\<lambda>(r', xs, err). Some (Ret (Inl r', map row_pair xs, err)))"
| "run_Read E (Inr f) n = run_bind (frame_Read f n) (\<lambda>(f', xs, err). Some (Ret (Inr f', xs, err)))"

text \<open>The files stay readable after \<open>Cleanup\<close> has removed the directory, since they are open.\<close>

definition combiner_Reader ::
  "('v, 'u) comb_env \<Rightarrow> stype \<Rightarrow> ('v, 'u) combiner
     \<Rightarrow> (('v, 'u) combiner \<times> (('v, 'u) run_reader, 'v list, 'v) reduceReader) go" where
  "combiner_Reader E t c =
     (let readers = spill_ClosingReaders (ce_list E) (spiller c);
          (cf', f) = Compact (comb c)
      in go_bind (Reduce t (map Inl readers @ [Inr (ce_sort E f)]))
           (\<lambda>r. Ret (c\<lparr>comb := cf', spiller := []\<rparr>, r)))"

partial_function (option) writeto_loop ::
  "('s, 'v list \<times> 'v) reader \<Rightarrow> ('w, 'v, 'u) putter \<Rightarrow> ('v, 'u) comb_env \<Rightarrow> 's \<Rightarrow> ('w, 'v, 'u) encoder \<Rightarrow> nat
     \<Rightarrow> (('w, 'v, 'u) encoder \<times> nat \<times> gerr) go option" where
  "writeto_loop rd put E r enc tot =
     run_bind (rd r (ce_chunk E)) (\<lambda>(r', xs, err).
       if err \<noteq> None \<and> err \<noteq> Some EOF then Some (Ret (enc, tot, err))
       else case enc_Write put (ce_crc E) (ce_uc E) enc (batch_of_rows (ce_ncol E) (map row_list xs)) of
           (enc', Some writeErr) \<Rightarrow> Some (Ret (enc', tot + length xs, Some writeErr))
         | (enc', None) \<Rightarrow>
             if err = Some EOF then Some (Ret (enc', tot + length xs, None))
             else writeto_loop rd put E r' enc' (tot + length xs))"

definition WriteTo ::
  "('w, 'v, 'u) putter \<Rightarrow> ('v, 'u) comb_env \<Rightarrow> stype \<Rightarrow> ('v, 'u) combiner \<Rightarrow> ('w, 'v, 'u) encoder
     \<Rightarrow> (('w, 'v, 'u) encoder \<times> nat \<times> gerr) go option" where
  "WriteTo put E t c enc = run_bind (Some (combiner_Reader E t c)) (\<lambda>(c', r).
     writeto_loop (reduce_Read (ce_less E) (ce_combiner E) (run_Read E) (ce_chunk E)) put E r enc 0)"

text \<open>A sequence of calls of \<open>Combine\<close>, which stops at the first error.\<close>

fun combine_frames ::
  "('v, 'u) comb_env \<Rightarrow> ('v, 'u) combiner \<Rightarrow> ('v list \<times> 'v) list list \<Rightarrow> (('v, 'u) combiner \<times> gerr) go option" where
  "combine_frames E c [] = Some (Ret (c, None))"
| "combine_frames E c (f # fs) = run_bind (combiner_Combine E c f) (\<lambda>(c', err).
     if err \<noteq> None then Some (Ret (c', err)) else combine_frames E c' fs)"

section \<open>Partial results\<close>

text \<open>A map that holds, for each key of the rows \<open>P\<close>, a combination of all its values in \<open>P\<close>.\<close>

definition summary :: "('v \<Rightarrow> 'v \<Rightarrow> 'v) \<Rightarrow> ('k \<times> 'v) multiset \<Rightarrow> ('k \<rightharpoonup> 'v) \<Rightarrow> bool" where
  "summary g P M \<longleftrightarrow> dom M = fst ` set_mset P \<and> (\<forall>k v. M k = Some v \<longrightarrow> combined_from g (values_of P k) v)"

lemma values_of_simps [simp]:
  "values_of {#} k = {#}"
  "values_of (add_mset x P) k = (if fst x = k then add_mset (snd x) (values_of P k) else values_of P k)"
  "values_of (P + Q) k = values_of P k + values_of Q k"
  by (simp_all add: values_of_def)

lemma values_of_empty_iff: "values_of P k = {#} \<longleftrightarrow> k \<notin> fst ` set_mset P"
  by (auto simp: values_of_def image_iff simp flip: set_mset_eq_empty_iff)

lemma summary_empty: "summary g {#} Map.empty"
  by (simp add: summary_def)

lemma combined_from_snoc: "combined_from g V w \<Longrightarrow> combined_from g (add_mset v V) (g w v)"
proof -
  assume "combined_from g V w"
  then obtain a ws where "mset (a # ws) = V" "w = foldl g a ws" by (auto simp: combined_from_def)
  then have "mset (a # ws @ [v]) = add_mset v V \<and> g w v = foldl g a (ws @ [v])" by auto
  then show ?thesis unfolding combined_from_def by blast
qed

lemma combined_from_single: "combined_from g {#v#} v"
  unfolding combined_from_def by (intro exI [of _ v] exI [of _ "[]"]) simp

lemma summary_combine: "summary g P M \<Longrightarrow> summary g (add_mset x P) (combined_with g x M)"
proof -
  assume s: "summary g P M"
  have "combined_from g (values_of (add_mset x P) k) v" if "combined_with g x M k = Some v" for k v
  proof (cases "k = fst x")
    case False
    then show ?thesis using s that by (auto simp: summary_def combined_with_def)
  next
    case True
    show ?thesis
    proof (cases "M (fst x)")
      case None
      then have "values_of P (fst x) = {#}" using s by (auto simp: values_of_empty_iff summary_def)
      then show ?thesis using that True None by (auto simp: combined_with_def intro: combined_from_single)
    next
      case (Some w)
      then have "combined_from g (values_of P (fst x)) w" using s by (simp add: summary_def)
      then show ?thesis using that True Some by (auto simp: combined_with_def intro: combined_from_snoc)
    qed
  qed
  with s show ?thesis by (auto simp: summary_def)
qed

lemma summary_fold: "summary g P M \<Longrightarrow> summary g (mset f + P) (fold (combined_with g) f M)"
proof (induction f arbitrary: P M)
  case (Cons x f)
  from Cons.IH [OF summary_combine [OF Cons.prems]] show ?case by simp
qed simp

text \<open>Combinations of combinations, for an associative function.\<close>

lemma foldl_assoc:
  assumes "\<And>x y z. g (g x y) z = g x (g y z)"
  shows "g x (foldl g a ws) = foldl g (g x a) ws"
  by (induction ws arbitrary: a) (auto simp: assms)

lemma combined_from_append:
  assumes "\<And>x y z. g (g x y) z = g x (g y z)" and "combined_from g V v" and "combined_from g W w"
  shows "combined_from g (V + W) (g v w)"
proof -
  obtain a xs where a: "mset (a # xs) = V" "v = foldl g a xs" using assms(2) by (auto simp: combined_from_def)
  obtain b ys where b: "mset (b # ys) = W" "w = foldl g b ys" using assms(3) by (auto simp: combined_from_def)
  have "mset (a # xs @ b # ys) = V + W" using a b by auto
  moreover have "g v w = foldl g a (xs @ b # ys)" using a b foldl_assoc [of g, OF assms(1)] by simp
  ultimately show ?thesis unfolding combined_from_def by blast
qed

lemma combined_from_nested:
  assumes "\<And>x y z. g (g x y) z = g x (g y z)"
  shows "\<forall>p\<in>set (p0 # ps). combined_from g (snd p) (fst p) \<Longrightarrow>
    combined_from g (\<Sum>p\<leftarrow>p0 # ps. snd p) (foldl g (fst p0) (map fst ps))"
proof (induction ps rule: rev_induct)
  case (snoc p ps)
  then have "combined_from g ((\<Sum>p\<leftarrow>p0 # ps. snd p) + snd p) (g (foldl g (fst p0) (map fst ps)) (fst p))"
    by (intro combined_from_append [of g, OF assms]) auto
  then show ?case by (simp add: add.assoc)
qed auto

lemma mset_map_perm: "mset (map f xs) = mset ys \<Longrightarrow> \<exists>xs'. mset xs' = mset xs \<and> map f xs' = ys"
proof (induction ys arbitrary: xs)
  case (Cons y ys)
  then obtain x where x: "x \<in> set xs" "f x = y" by (metis imageE list.set_intros(1) set_map set_mset_mset)
  then have "mset (map f (remove1 x xs)) = mset ys" using Cons.prems by (simp add: image_mset_Diff)
  then obtain xs' where "mset xs' = mset (remove1 x xs)" "map f xs' = ys" using Cons.IH by blast
  then have "mset (x # xs') = mset xs \<and> map f (x # xs') = y # ys" using x by simp
  then show ?case by (rule exI)
qed simp

text \<open>A run: rows with distinct keys that are a summary of the rows combined into it.\<close>

definition is_run :: "('v \<Rightarrow> 'v \<Rightarrow> 'v) \<Rightarrow> ('k \<times> 'v) multiset \<Rightarrow> ('k \<times> 'v) list \<Rightarrow> bool" where
  "is_run g P xs \<longleftrightarrow> distinct (map fst xs) \<and> summary g P (map_of xs)"

lemma values_of_distinct:
  "distinct (map fst xs) \<Longrightarrow> values_of (mset xs) k = (case map_of xs k of None \<Rightarrow> {#} | Some v \<Rightarrow> {#v#})"
proof (induction xs)
  case (Cons x xs)
  then show ?case
    by (cases x) (auto simp: values_of_empty_iff map_of_eq_None_iff image_iff split: option.splits dest: map_of_SomeD)
qed simp

lemma runs_values:
  assumes "list_all2 (is_run g) Ps runs"
  shows "\<exists>ps. mset (map fst ps) = values_of (\<Sum>r\<leftarrow>runs. mset r) k \<and>
    (\<Sum>p\<leftarrow>ps. snd p) = values_of (sum_list Ps) k \<and> (\<forall>p\<in>set ps. combined_from g (snd p) (fst p))"
  using assms
proof (induction rule: list_all2_induct)
  case (Cons P Ps r runs)
  then obtain ps where ps: "mset (map fst ps) = values_of (\<Sum>r\<leftarrow>runs. mset r) k"
    "(\<Sum>p\<leftarrow>ps. snd p) = values_of (sum_list Ps) k" "\<forall>p\<in>set ps. combined_from g (snd p) (fst p)" by blast
  have d: "values_of (mset r) k = (case map_of r k of None \<Rightarrow> {#} | Some v \<Rightarrow> {#v#})" and s: "summary g P (map_of r)"
    using Cons(1) values_of_distinct by (auto simp: is_run_def)
  show ?case
  proof (cases "map_of r k")
    case None
    then have "values_of P k = {#}" using s by (auto simp: values_of_empty_iff summary_def)
    then show ?thesis using ps d None by (intro exI [of _ ps]) simp
  next
    case (Some w)
    then have "combined_from g (values_of P k) w" using s by (simp add: summary_def)
    then show ?thesis using ps d Some by (intro exI [of _ "(w, values_of P k) # ps"]) simp
  qed
qed simp

lemma reduction_of_runs:
  assumes assoc: "\<And>x y z. g (g x y) z = g x (g y z)" and runs: "list_all2 (is_run g) Ps runs"
    and red: "reduction lt g (\<Sum>r\<leftarrow>runs. mset r) out"
  shows "reduction lt g (sum_list Ps) out"
proof -
  have "combined_from g (values_of (sum_list Ps) k) v" if kv: "(k, v) \<in> set out" for k v
  proof -
    obtain ps where ps: "mset (map fst ps) = values_of (\<Sum>r\<leftarrow>runs. mset r) k"
      "(\<Sum>p\<leftarrow>ps. snd p) = values_of (sum_list Ps) k" "\<forall>p\<in>set ps. combined_from g (snd p) (fst p)"
      using runs_values [OF runs] by blast
    obtain w ws where w: "mset (w # ws) = values_of (\<Sum>r\<leftarrow>runs. mset r) k" "v = foldl g w ws"
      using red kv unfolding reduction_def combined_from_def by blast
    obtain ps' where ps': "mset ps' = mset ps" "map fst ps' = w # ws" using mset_map_perm [of fst ps "w # ws"] ps(1) w(1) by metis
    then obtain p0 ps1 where p0: "ps' = p0 # ps1" "fst p0 = w" "map fst ps1 = ws" by (cases ps') auto
    have "combined_from g (\<Sum>p\<leftarrow>p0 # ps1. snd p) (foldl g (fst p0) (map fst ps1))"
      using ps(3) mset_eq_setD [OF ps'(1)] p0(1) by (intro combined_from_nested [of g, OF assoc]) auto
    moreover have "(\<Sum>p\<leftarrow>p0 # ps1. snd p) = values_of (sum_list Ps) k"
      using ps(2) ps'(1) p0(1) by (metis mset_map sum_mset_sum_list)
    ultimately show ?thesis using p0 w(2) by simp
  qed
  moreover have "fst ` set_mset (\<Sum>r\<leftarrow>runs. mset r) = fst ` set_mset (sum_list Ps)"
    using runs by (induction rule: list_all2_induct) (auto simp: is_run_def summary_def dom_map_of_conv_image_fst image_Un)
  ultimately show ?thesis using red by (auto simp: reduction_def)
qed

section \<open>The invariant of the combiner\<close>

definition env_ok :: "('v \<Rightarrow> 'v \<Rightarrow> 'v) \<Rightarrow> ('v, 'u) comb_env \<Rightarrow> bool" where
  "env_ok g E \<longleftrightarrow> weak_order (ce_less E) \<and> (\<forall>a b. same_key (ce_less E) a b \<longleftrightarrow> a = b) \<and>
     ce_combiner E = (\<lambda>w v. Ret (g w v)) \<and> (\<forall>x y z. g (g x y) z = g x (g y z)) \<and>
     sorts (key_less (ce_less E)) (ce_sort E) \<and> uc_ok (ce_uc E) \<and> (\<forall>fs. mset (ce_list E fs) = mset fs) \<and>
     0 < ce_batch E \<and> 0 < ce_chunk E"

text \<open>
  The combiner has taken the rows \<open>R\<close>: \<open>Ps\<close> are the rows that went into each spilled run and \<open>P\<close> those
  in the table.
\<close>

definition comb_ok ::
  "('v \<Rightarrow> 'v \<Rightarrow> 'v) \<Rightarrow> ('v, 'u) comb_env \<Rightarrow> ('v list \<times> 'v) multiset \<Rightarrow> ('v, 'u) combiner \<Rightarrow> bool" where
  "comb_ok g E R c \<longleftrightarrow> (\<exists>m Ps P runs. cf_ok (ce_hash E) m (comb c) \<and> 0 < nscratch (comb c) \<and>
     summary g P (table (comb c)) \<and> list_all2 (is_run g) Ps runs \<and> (\<forall>r\<in>set runs. strict (ce_less E) r) \<and>
     list_all2 (\<lambda>r. holds_rows (ce_crc E) (ce_uc E) (ce_ncol E) (map row_list r)) runs (spiller c) \<and>
     R = sum_list Ps + P \<and> (\<forall>x\<in>#R. Suc (length (fst x)) = ce_ncol E))"

lemma row_pair_list [simp]: "row_pair (row_list x) = x"
  by (cases x) (simp add: row_pair_def row_list_def)

lemma length_row_list [simp]: "length (row_list x) = Suc (length (fst x))"
  by (cases x) (simp add: row_list_def)

lemma ascending_strict:
  assumes key: "\<And>a b. same_key lt a b \<longleftrightarrow> a = b"
  shows "ascending (key_less lt) xs \<Longrightarrow> distinct (map fst xs) \<Longrightarrow> strict lt xs"
proof (induction xs)
  case (Cons x xs)
  have "lt (fst x) (fst y)" if y: "y \<in> set xs" for y
  proof -
    have "fst x \<noteq> fst y" using Cons.prems(2) y by auto
    moreover have "\<not> lt (fst y) (fst x)" using Cons.prems(1) y by simp
    ultimately show ?thesis using key [of "fst x" "fst y"] by (auto simp: same_key_def)
  qed
  with Cons show ?case by simp
qed simp

lemma sorted_run:
  assumes "env_ok g E" and "is_run g P xs"
  shows "strict (ce_less E) (ce_sort E xs)" and "is_run g P (ce_sort E xs)"
proof -
  have m: "mset (ce_sort E xs) = mset xs" using assms(1) by (simp add: env_ok_def sorts_def)
  have d: "distinct (map fst (ce_sort E xs))" "distinct (map fst xs)"
    using assms(2) mset_eq_imp_distinct_iff [of "map fst (ce_sort E xs)" "map fst xs"] m by (auto simp: is_run_def)
  show "strict (ce_less E) (ce_sort E xs)"
    using assms(1) ascending_strict [OF _ _ d(1), of "ce_less E"] by (simp add: env_ok_def sorts_def)
  have "map_of (ce_sort E xs) = map_of xs"
    using d mset_eq_setD [OF m] by (intro map_of_eqI) (auto simp: map_of_eq_Some_iff image_iff)
  then show "is_run g P (ce_sort E xs)" using assms(2) d(1) by (simp add: is_run_def)
qed

lemma Compact_run:
  assumes "cf_ok hash m c" and "summary g P (table c)" and "Compact c = (c', xs)"
  shows "is_run g P xs" and "summary g {#} (table c')"
  using assms(2) Compact_spec [OF assms(1,3)] summary_empty by (simp_all add: is_run_def)

lemma run_lengths:
  assumes "is_run g P xs" and "\<forall>x\<in>#P. Suc (length (fst x)) = n" shows "\<forall>x\<in>set xs. length (row_list x) = n"
proof
  fix x assume "x \<in> set xs"
  then have "fst x \<in> fst ` set_mset P" using assms(1) by (auto simp: is_run_def summary_def dom_map_of_conv_image_fst)
  then show "length (row_list x) = n" using assms(2) by (cases x) (auto simp: row_list_def)
qed

lemma combiner_Combine_ok:
  assumes E: "env_ok g E" and c: "comb_ok g E R c" and len: "\<forall>x\<in>set f. Suc (length (fst x)) = ce_ncol E"
    and room: "card (fst ` set_mset (mset f + R)) \<le> maxKeys"
  shows "\<exists>c'. combiner_Combine E c f = Some (Ret (c', None)) \<and> comb_ok g E (mset f + R) c'"
proof -
  obtain m Ps P runs where ok: "cf_ok (ce_hash E) m (comb c)" "0 < nscratch (comb c)" "summary g P (table (comb c))"
    "list_all2 (is_run g) Ps runs" "\<forall>r\<in>set runs. strict (ce_less E) r"
    "list_all2 (\<lambda>r. holds_rows (ce_crc E) (ce_uc E) (ce_ncol E) (map row_list r)) runs (spiller c)"
    "R = sum_list Ps + P" "\<forall>x\<in>#R. Suc (length (fst x)) = ce_ncol E"
    using c unfolding comb_ok_def by blast
  have "fst ` set f \<union> dom (table (comb c)) \<subseteq> fst ` set_mset (mset f + R)"
    using ok(3,7) by (auto simp: summary_def)
  then have "card (fst ` set f \<union> dom (table (comb c))) \<le> maxKeys" using room card_mono [rotated] by (metis finite_imageI finite_set_mset le_trans)
  then obtain m' cf where cf: "cf_Combine (ce_less E) (ce_hash E) (ce_combiner E) (zero_row E) f (comb c) = Some (Ret cf)"
    "cf_ok (ce_hash E) m' cf" "table cf = fold (combined_with g) f (table (comb c))" "nscratch cf = nscratch (comb c)"
    using cf_Combine_spec [where lt = "ce_less E" and f = f and g = g and zero = "zero_row E", OF ok(1) _ ok(2)] E by (auto simp: env_ok_def)
  have sum: "summary g (mset f + P) (table cf)" using summary_fold [OF ok(3)] cf(3) by simp
  have R: "mset f + R = sum_list Ps + (mset f + P)" using ok(7) by simp
  have lens: "\<forall>x\<in>#mset f + R. Suc (length (fst x)) = ce_ncol E" using len ok(8) by auto
  show ?thesis
  proof (cases "targetSize c \<le> clen (comb c)")
    case False
    then have "combiner_Combine E c f = Some (Ret (c\<lparr>total := total c + length f, comb := cf\<rparr>, None))"
      using cf(1) by (simp add: combiner_Combine_def)
    moreover have "comb_ok g E (mset f + R) (c\<lparr>total := total c + length f, comb := cf\<rparr>)"
      unfolding comb_ok_def using ok cf sum R lens
      by (intro exI [of _ m'] exI [of _ Ps] exI [of _ "mset f + P"] exI [of _ runs]) simp
    ultimately show ?thesis by blast
  next
    case True
    obtain cf' xs where cp: "Compact cf = (cf', xs)" by fastforce
    note run = Compact_run [OF cf(2) sum cp]
    note srt = sorted_run [OF E run(1)]
    have uc: "uc_ok (ce_uc E)" "0 < ce_batch E" using E by (auto simp: env_ok_def)
    have "\<forall>x\<in>set (map row_list (ce_sort E xs)). length x = ce_ncol E"
      using run_lengths [OF srt(2), of "ce_ncol E"] lens unfolding R by auto
    from Spill_holds [OF uc this] obtain ms where ms:
      "Spill (ce_crc E) (ce_uc E) (ce_batch E) (spiller c) (batch_of_rows (ce_ncol E) (map row_list (ce_sort E xs))) =
        Some (spiller c @ [ms], None)" "holds_rows (ce_crc E) (ce_uc E) (ce_ncol E) (map row_list (ce_sort E xs)) ms"
      by blast
    let ?c = "c\<lparr>total := 0, comb := cf', spiller := spiller c @ [ms]\<rparr>"
    have "combiner_Combine E c f = Some (Ret (?c, None))"
      using True cf(1) cp ms(1) by (simp add: combiner_Combine_def combiner_spill_def)
    moreover have "comb_ok g E (mset f + R) ?c"
      unfolding comb_ok_def using ok ms(2) run(2) srt R lens Compact_spec(2,4) [OF cf(2) cp] cf(4)
      by (intro exI [of _ m'] exI [of _ "Ps @ [mset f + P]"] exI [of _ "{#}"] exI [of _ "runs @ [ce_sort E xs]"])
        (auto intro: list_all2_appendI)
    ultimately show ?thesis by blast
  qed
qed

lemma combine_frames_ok:
  assumes "env_ok g E" and "comb_ok g E R c" and "\<forall>x\<in>set (concat fs). Suc (length (fst x)) = ce_ncol E"
    and "card (fst ` set_mset (mset (concat fs) + R)) \<le> maxKeys"
  shows "\<exists>c'. combine_frames E c fs = Some (Ret (c', None)) \<and> comb_ok g E (mset (concat fs) + R) c'"
  using assms(2-4)
proof (induction fs arbitrary: c R)
  case (Cons f fs)
  have sub: "fst ` set_mset (mset f + R) \<subseteq> fst ` set_mset (mset (concat (f # fs)) + R)" by auto
  have "card (fst ` set_mset (mset f + R)) \<le> maxKeys"
    using card_mono [OF _ sub] Cons.prems(3) by simp
  then obtain c1 where c1: "combiner_Combine E c f = Some (Ret (c1, None))" "comb_ok g E (mset f + R) c1"
    using combiner_Combine_ok [OF assms(1) Cons.prems(1), of f] Cons.prems(2) by auto
  have e: "mset (concat fs) + (mset f + R) = mset (concat (f # fs)) + R" by simp
  have "\<exists>c'. combine_frames E c1 fs = Some (Ret (c', None)) \<and> comb_ok g E (mset (concat fs) + (mset f + R)) c'"
    using Cons.prems(2,3) by (intro Cons.IH [OF c1(2)]) (simp, simp only: e)
  then show ?case using c1(1) unfolding e by auto
qed auto

section \<open>Reading the combiner\<close>

definition run_ok :: "('v, 'u) comb_env \<Rightarrow> ('v, 'u) run_reader \<Rightarrow> bool" where
  "run_ok E = case_sum (\<lambda>c. dec_ok (\<lambda>f. 0 < blen f) (ce_crc E) (ce_uc E) (ce_ncol E) (cr c)) (\<lambda>_. True)"

definition run_rows :: "('v, 'u) comb_env \<Rightarrow> ('v, 'u) run_reader \<Rightarrow> ('v list \<times> 'v) list" where
  "run_rows E = case_sum (\<lambda>c. map row_pair (dec_str (ce_crc E) (ce_uc E) (ce_zero E) (ce_ncol E) (cr c))) (\<lambda>f. f)"

definition run_mu :: "('v, 'u) comb_env \<Rightarrow> ('v, 'u) run_reader \<Rightarrow> nat" where
  "run_mu E = case_sum (\<lambda>c. dec_mu (ce_crc E) (ce_uc E) (ce_zero E) (ce_ncol E) (cr c)) length"

lemma run_eager:
  assumes "uc_ok (ce_uc E)"
  shows "eager_reader (run_Read E) (run_ok E) (run_rows E) (\<lambda>_. EOF) (run_mu E)"
proof -
  note er = closing_eager [OF decoding_eager [OF assms, of "ce_crc E" "ce_zero E" "ce_ncol E"]]
  note sr = eager_reader.axioms(1) [OF er]
  show ?thesis
  proof (unfold_locales, goal_cases)
    case (1 s n)
    show ?case
    proof (cases s)
      case (Inl c)
      with 1 show ?thesis
        using slice_reader.read_law [OF sr, of c n]
        by (fastforce simp: run_ok_def run_rows_def run_mu_def read_ok_def split: option.splits)
    next
      case (Inr f)
      with 1 show ?thesis
        using frd.read_law [of n f]
        by (fastforce simp: run_ok_def run_rows_def run_mu_def read_ok_def split: option.splits)
    qed
  next
    case (2 s n s')
    show ?case
    proof (cases s)
      case (Inl c)
      with 2 show ?thesis
        using eager_reader.eager [OF er, of c n] by (auto simp: run_ok_def run_rows_def run_bind_eq_Ret)
    next
      case (Inr f)
      with 2 show ?thesis using frd.eager [of n f] by (auto simp: run_rows_def run_bind_eq_Ret)
    qed
  qed
qed

lemma spilled_runs:
  assumes "uc_ok (ce_uc E)"
    and "list_all2 (\<lambda>r. holds_rows (ce_crc E) (ce_uc E) (ce_ncol E) (map row_list r)) runs dir"
  shows "map (\<lambda>ms. run_rows E (Inl (NewClosingReader (NewDecodingReader ms)))) dir = runs"
    and "\<forall>ms\<in>set dir. run_ok E (Inl (NewClosingReader (NewDecodingReader ms)))"
  using assms(2)
  by (induction rule: list_all2_induct)
     (auto simp: run_rows_def run_ok_def NewClosingReader_def comp_def holds_rows_reader [OF assms(1)])

text \<open>The reader of a combiner meets the contract of readers, and its rows are a reduction of all rows.\<close>

abbreviation comb_str :: "('v, 'u) comb_env \<Rightarrow> (('v, 'u) run_reader, 'v list, 'v) reduceReader \<Rightarrow> ('v list \<times> 'v) list" where
  "comb_str E r \<equiv> reduce_rows (ce_less E) (ce_combiner E) (run_Read E) (ce_chunk E) (run_rows E)
     (reduce_init (ce_less E) (run_Read E) (ce_chunk E) r)"

abbreviation comb_Read :: "('v, 'u) comb_env \<Rightarrow> ((('v, 'u) run_reader, 'v list, 'v) reduceReader, 'v list \<times> 'v) reader" where
  "comb_Read E \<equiv> reduce_Read (ce_less E) (ce_combiner E) (run_Read E) (ce_chunk E)"

lemma env_order: "env_ok g E \<Longrightarrow> \<forall>a b. \<not> ce_less E a b \<longrightarrow> \<not> ce_less E b a \<longrightarrow> a = b"
  unfolding env_ok_def same_key_def by blast

lemma comb_reader:
  assumes "env_ok g E"
  shows "slice_reader (comb_Read E) (reduce_ok (run_ok E) (run_rows E) (\<lambda>_. EOF) (ce_less E)) (comb_str E) (\<lambda>_. EOF)
    (\<lambda>r. size (rest (run_rows E) (reduce_init (ce_less E) (run_Read E) (ce_chunk E) r)))"
proof (rule slice_reader.intro)
  have E: "weak_order (ce_less E)" "uc_ok (ce_uc E)" "0 < ce_chunk E" "ce_combiner E = (\<lambda>w v. Ret (g w v))"
    using assms by (auto simp: env_ok_def)
  fix r :: "(('a, 'b) run_reader, 'a list, 'a) reduceReader" and n :: nat
  assume "reduce_ok (run_ok E) (run_rows E) (\<lambda>_. EOF) (ce_less E) r" "0 < n"
  from reduce_Read_ok [OF E(1) env_order [OF assms] run_eager [OF E(2)] E(3) this, of g]
  show "\<exists>res. comb_Read E r n = Some (Ret res) \<and>
    read_ok (reduce_ok (run_ok E) (run_rows E) (\<lambda>_. EOF) (ce_less E)) (comb_str E) (\<lambda>_. EOF)
      (\<lambda>r. size (rest (run_rows E) (reduce_init (ce_less E) (run_Read E) (ce_chunk E) r))) r n res"
    unfolding E(4) .
qed

lemma combiner_Reader_ok:
  assumes E: "env_ok g E" and c: "comb_ok g E R c" and t: "NumOut t - Prefix t = 1"
  shows "\<exists>c' r. combiner_Reader E t c = Ret (c', r) \<and>
    reduce_ok (run_ok E) (run_rows E) (\<lambda>_. EOF) (ce_less E) r \<and> reduction (ce_less E) g R (comb_str E r)"
proof -
  obtain m Ps P runs where ok: "cf_ok (ce_hash E) m (comb c)" "summary g P (table (comb c))"
    "list_all2 (is_run g) Ps runs" "\<forall>r\<in>set runs. strict (ce_less E) r"
    "list_all2 (\<lambda>r. holds_rows (ce_crc E) (ce_uc E) (ce_ncol E) (map row_list r)) runs (spiller c)" "R = sum_list Ps + P"
    using c unfolding comb_ok_def by blast
  have e: "weak_order (ce_less E)" "uc_ok (ce_uc E)" "0 < ce_chunk E" "ce_combiner E = (\<lambda>w v. Ret (g w v))"
    "mset (ce_list E fs) = mset fs" "\<And>x y z. g (g x y) z = g x (g y z)" for fs using E by (auto simp: env_ok_def)
  obtain cf' xs where cp: "Compact (comb c) = (cf', xs)" by fastforce
  note run = sorted_run [OF E Compact_run(1) [OF ok(1,2) cp]]
  let ?mk = "\<lambda>ms. Inl (NewClosingReader (NewDecodingReader ms))"
  define rs where "rs = map ?mk (ce_list E (spiller c)) @ [Inr (ce_sort E xs)]"
  define r :: "(('a, 'b) run_reader, 'a list, 'a) reduceReader"
    where "r = \<lparr>red_readers = rs, red_err = None, red_heap = None\<rparr>"
  have R: "combiner_Reader E t c = Ret (c\<lparr>comb := cf', spiller := []\<rparr>, r)"
    using t cp by (simp add: combiner_Reader_def Reduce_def r_def rs_def spill_ClosingReaders_def spill_Readers_def comp_def)
  note files = spilled_runs [OF e(2) ok(5)]
  have "run_ok E s \<and> EOF = EOF \<and> strict (ce_less E) (run_rows E s)" if "s \<in> set rs" for s
  proof -
    have "set (ce_list E (spiller c)) = set (spiller c)" using e(5) by (metis set_mset_mset)
    with that consider ms where "ms \<in> set (spiller c)" "s = ?mk ms" | "s = Inr (ce_sort E xs)" by (auto simp: rs_def)
    then show ?thesis
    proof cases
      case 1
      then show ?thesis using files ok(4) by auto
    next
      case 2
      then show ?thesis using run(1) by (simp add: run_ok_def run_rows_def)
    qed
  qed
  then have rok: "reduce_ok (run_ok E) (run_rows E) (\<lambda>_. EOF) (ce_less E) r" by (simp add: reduce_ok_def r_def)
  have "(\<Sum>ms\<leftarrow>ce_list E (spiller c). mset (run_rows E (?mk ms))) = (\<Sum>ms\<in>#mset (ce_list E (spiller c)). mset (run_rows E (?mk ms)))"
    by (simp flip: sum_mset_sum_list)
  also have "\<dots> = (\<Sum>x\<leftarrow>map (\<lambda>ms. run_rows E (?mk ms)) (spiller c). mset x)"
    unfolding e(5) by (simp add: comp_def flip: sum_mset_sum_list)
  finally have all: "(\<Sum>s\<leftarrow>rs. mset (run_rows E s)) = (\<Sum>x\<leftarrow>runs @ [ce_sort E xs]. mset x)"
    unfolding files(1) by (simp add: rs_def comp_def run_rows_def)
  let ?h = "reduce_init (ce_less E) (run_Read E) (ce_chunk E) r"
  have "red_heap r = None" "red_readers r = rs" by (simp_all add: r_def)
  then have h: "rest (run_rows E) ?h = (\<Sum>x\<leftarrow>runs @ [ce_sort E xs]. mset x)"
    using reduce_init_ok(3) [OF e(1) run_eager [OF e(2)] e(3) rok] all by simp
  have "reduction (ce_less E) g (rest (run_rows E) ?h) (comb_str E r)"
    using reduce_drain(2) [OF e(1) env_order [OF E] run_eager [OF e(2)] e(3)
      reduce_init_ok(1) [OF e(1) run_eager [OF e(2)] e(3) rok] order_refl, of g] unfolding e(4) .
  then have red: "reduction (ce_less E) g (\<Sum>x\<leftarrow>runs @ [ce_sort E xs]. mset x) (comb_str E r)" unfolding h .
  have "list_all2 (is_run g) (Ps @ [P]) (runs @ [ce_sort E xs])" using ok(3) run(2) by (intro list_all2_appendI) simp_all
  then have "reduction (ce_less E) g (sum_list (Ps @ [P])) (comb_str E r)" by (rule reduction_of_runs [OF e(6) _ red])
  then show ?thesis using R rok ok(6) by auto
qed

lemma writeto_loop_spec:
  assumes sr: "slice_reader rd ok str fin mu" and uc: "uc_ok (ce_uc E)" and ch: "0 < ce_chunk E"
    and "ok r" "fin r = EOF" "\<forall>x\<in>set (str r). Suc (length (fst x)) = ce_ncol E"
  shows "\<exists>enc' bs. writeto_loop rd put_list E r enc tot = Some (Ret (enc', tot + length (str r), None)) \<and>
    ew enc' = ew enc @ concat (map (batch_msgs (ce_crc E) (ce_uc E)) bs) \<and> (\<forall>b\<in>set bs. wf_batch (ce_ncol E) b) \<and>
    concat (map rows_of_batch bs) = map row_list (str r)"
  using assms(4-6)
proof (induction "mu r" arbitrary: r enc tot rule: less_induct)
  case less
  let ?b = "\<lambda>xs. batch_of_rows (ce_ncol E) (map row_list xs)"
  have b: "rows_of_batch (?b xs) = map row_list xs" "wf_batch (ce_ncol E) (?b xs)"
    if "set xs \<subseteq> set (str r)" for xs
    using rows_of_batch_of_rows [of "map row_list xs" "ce_ncol E"] that less.prems(3) by auto
  show ?case
  proof (rule slice_reader.read_cases [OF sr less.prems(1) ch], goal_cases)
    case (1 r' xs)
    obtain c where w: "enc_Write put_list (ce_crc E) (ce_uc E) enc (?b xs) =
        (\<lparr>ew = ew enc @ batch_msgs (ce_crc E) (ce_uc E) (?b xs), ecrc = c\<rparr>, None)" by (rule enc_Write_put [OF uc])
    from less.hyps [OF 1(6,2), where enc = "\<lparr>ew = ew enc @ batch_msgs (ce_crc E) (ce_uc E) (?b xs), ecrc = c\<rparr>"
        and tot = "tot + length xs"] 1(4,5) less.prems(2,3)
    obtain enc' bs where "writeto_loop rd put_list E r' \<lparr>ew = ew enc @ batch_msgs (ce_crc E) (ce_uc E) (?b xs), ecrc = c\<rparr>
        (tot + length xs) = Some (Ret (enc', tot + length xs + length (str r'), None))"
      "ew enc' = ew enc @ batch_msgs (ce_crc E) (ce_uc E) (?b xs) @ concat (map (batch_msgs (ce_crc E) (ce_uc E)) bs)"
      "\<forall>b\<in>set bs. wf_batch (ce_ncol E) b" "concat (map rows_of_batch bs) = map row_list (str r')" by auto
    then show ?thesis
      using 1(1,4) b [of xs] w
      by (intro exI [of _ enc'] exI [of _ "?b xs # bs"]) (simp add: writeto_loop.simps [of rd _ E r])
  next
    case (2 r' xs)
    obtain c where w: "enc_Write put_list (ce_crc E) (ce_uc E) enc (?b xs) =
        (\<lparr>ew = ew enc @ batch_msgs (ce_crc E) (ce_uc E) (?b xs), ecrc = c\<rparr>, None)" by (rule enc_Write_put [OF uc])
    then show ?thesis
      using 2(1,4) b [of xs] less.prems(2)
      by (intro exI [of _ "\<lparr>ew = ew enc @ batch_msgs (ce_crc E) (ce_uc E) (?b xs), ecrc = c\<rparr>"] exI [of _ "[?b xs]"])
        (simp add: writeto_loop.simps [of rd _ E r])
  qed
qed

text \<open>
  C8.  The combiner, end to end: rows combined frame by frame into a new combiner, with the table
  spilled to sorted files whenever it holds the target number of keys, are written by \<open>WriteTo\<close> as
  one reduction: every key exactly once, in ascending order, with the combination of all values it
  was given in any frame.  This holds for every target size (also 0, when every frame is spilled),
  every order in which the files are listed, and every batch size; the user's function has to be
  associative, and the keys in memory have to fit the largest table.
\<close>

theorem combiner_reduces:
  assumes "env_ok g E" and "newCombiner ops E None (2 ^ m) ns t target = Ret (Inr c)" and "m \<le> 29" and "0 < ns"
    and "\<forall>f\<in>set fs. \<forall>x\<in>set f. Suc (length (fst x)) = ce_ncol E" and "card (fst ` set (concat fs)) \<le> maxKeys"
  shows "\<exists>c' enc' bs out. combine_frames E c fs = Some (Ret (c', None)) \<and>
    WriteTo put_list E t c' enc = Some (Ret (enc', length out, None)) \<and>
    ew enc' = ew enc @ concat (map (batch_msgs (ce_crc E) (ce_uc E)) bs) \<and>
    concat (map rows_of_batch bs) = map row_list out \<and> reduction (ce_less E) g (mset (concat fs)) out"
proof -
  obtain cf where mk: "makeCombiningFrame (zero_row E) t (2 ^ m) ns = Ret cf" and c: "comb c = cf" "spiller c = []"
    using assms(2) by (auto simp: newCombiner_def go_bind_eq_Ret split: if_splits)
  note cf = makeCombiningFrame_ok [OF mk assms(3)]
  have t: "NumOut t - Prefix t = 1" using mk by (simp add: makeCombiningFrame_def split: if_splits)
  have "comb_ok g E {#} c"
    unfolding comb_ok_def using cf c assms(4) summary_empty [of g]
    by (intro exI [of _ m] exI [of _ "[]"] exI [of _ "{#}"] exI [of _ "[]"]) simp
  then obtain c' where c': "combine_frames E c fs = Some (Ret (c', None))" "comb_ok g E (mset (concat fs)) c'"
    using combine_frames_ok [OF assms(1), of "{#}" c fs] assms(5,6) by auto
  obtain c'' r where r: "combiner_Reader E t c' = Ret (c'', r)" "reduce_ok (run_ok E) (run_rows E) (\<lambda>_. EOF) (ce_less E) r"
    "reduction (ce_less E) g (mset (concat fs)) (comb_str E r)" using combiner_Reader_ok [OF assms(1) c'(2) t] by blast
  have lens: "\<forall>x\<in>set (comb_str E r). Suc (length (fst x)) = ce_ncol E"
  proof
    fix x assume "x \<in> set (comb_str E r)"
    then have "fst x \<in> fst ` set (concat fs)" using r(3) by (auto simp: reduction_def)
    then obtain y where "y \<in> set (concat fs)" "fst x = fst y" by blast
    then show "Suc (length (fst x)) = ce_ncol E" using assms(5) by auto
  qed
  have uc: "uc_ok (ce_uc E)" "0 < ce_chunk E" using assms(1) by (simp_all add: env_ok_def)
  obtain enc' bs where w: "writeto_loop (comb_Read E) put_list E r enc 0 = Some (Ret (enc', 0 + length (comb_str E r), None))"
    "ew enc' = ew enc @ concat (map (batch_msgs (ce_crc E) (ce_uc E)) bs)"
    "concat (map rows_of_batch bs) = map row_list (comb_str E r)"
    using writeto_loop_spec [OF comb_reader [OF assms(1)] uc r(2) refl lens, of enc 0] by blast
  have "WriteTo put_list E t c' enc = Some (Ret (enc', length (comb_str E r), None))"
    using w(1) r(1) by (simp add: WriteTo_def)
  then show ?thesis using c'(1) w(2,3) r(3) by blast
qed

definition int_env :: "(int, unit) comb_env" where
  "int_env = \<lparr>ce_less = (<), ce_hash = (\<lambda>k. of_int (hd k)), ce_combiner = (\<lambda>a b. Ret (a + b)), ce_sort = sort_key fst,
     ce_zero = (\<lambda>_. 0), ce_ncol = 2, ce_crc = (\<lambda>_. 0), ce_uc = (\<lambda>_. None), ce_list = rev, ce_batch = 2, ce_chunk = 2\<rparr>"

lemma sorts_sort_key: "sorts (key_less (<)) (sort_key fst)"
  unfolding sorts_def
proof (intro allI conjI)
  fix xs :: "('a::linorder \<times> 'b) list"
  have "sorted (map fst (sort_key fst xs))" by simp
  then show "ascending (key_less (<)) (sort_key fst xs)" by (simp add: sorted_wrt_map not_less)
qed simp

lemma same_key_less: "same_key (<) a b \<longleftrightarrow> a = b" for a b :: "'a::linorder"
  by (auto simp: same_key_def)

lemma int_env_ok: "env_ok (+) int_env"
  by (simp add: env_ok_def int_env_def weak_order_less same_key_less uc_ok_def sorts_sort_key)

theorem combiner_reduces_witness:
  "\<exists>c c' enc' bs out. newCombiner (\<lambda>_. Some (no_ops\<lparr>Less_op := Some (<)\<rparr>)) int_env None (2 ^ 1) 2
       (TypeSlice [TBasic ''int'', TBasic ''int'']) 0 = Ret (Inr c) \<and>
    combine_frames int_env c [[([1], 10), ([5], 2)], [([1], 5)]] = Some (Ret (c', None)) \<and>
    WriteTo put_list int_env (TypeSlice [TBasic ''int'', TBasic ''int'']) c' (NewEncodingWriter []) =
      Some (Ret (enc', length out, None)) \<and>
    ew enc' = concat (map (batch_msgs (ce_crc int_env) (ce_uc int_env)) bs) \<and>
    concat (map rows_of_batch bs) = map row_list out \<and> reduction (<) (+) {#([1], 10), ([5], 2), ([1], 5)#} out"
proof -
  let ?ops = "\<lambda>_. Some (no_ops\<lparr>Less_op := Some (<)\<rparr>)"
  let ?t = "TypeSlice [TBasic ''int'', TBasic ''int'']"
  obtain c where c: "newCombiner ?ops int_env None (2 ^ 1) 2 ?t 0 = Ret (Inr c)"
    by (simp add: newCombiner_def makeCombiningFrame_def cf_make_def CanCompare_def makeSliceOps_def list_index_def no_ops_def)
  have "card (fst ` set (concat [[([1::int], 10::int), ([5], 2)], [([1], 5)]])) \<le> maxKeys"
    by (simp add: maxKeys_def hashMaxCapacity_def card_insert_if)
  from combiner_reduces [OF int_env_ok c _ _ _ this, of "NewEncodingWriter []"] c
  show ?thesis by (auto simp: int_env_def NewEncodingWriter_def)
qed

end
