(* ===== verification/Local.thy ===== *)
theory Local
  imports CompileCorrect SpillCombiner
begin

text \<open>
  \<open>exec/buffer.go\<close> and \<open>exec/local.go\<close>: the buffers that hold the output of tasks in memory, and the
  executor that runs tasks in the process.

  A buffer holds, for every partition, a list of frames; frames are given by their rows.  The readers
  of the buffers meet the contract of \<open>SliceIO\<close>.  The executor's state is the record \<open>localExecutor\<close>;
  what its operations do to tasks is what they set under the lock of the task (the broadcasts that follow
  are in \<open>Task\<close>).  The limiter only delays a task and is left out.
\<close>

section \<open>Task buffers\<close>

type_synonym 'r taskBuffer = "'r list list list"

fun slice_loop :: "'r list list \<Rightarrow> int \<Rightarrow> int \<Rightarrow> 'r list \<times> int" where
  "slice_loop [] n off = ([], - 1)"
| "slice_loop (f # fs) n off = (if off < n + int (length f) then (f, off - n) else slice_loop fs (n + int (length f)) off)"

definition tb_Slice :: "'r taskBuffer \<Rightarrow> int \<Rightarrow> int \<Rightarrow> ('r list \<times> int) go" where
  "tb_Slice b prt off = go_bind (list_index b prt) (\<lambda>fs. Ret (slice_loop fs 0 off))"

record 'r taskBufferReader =
  tbq :: "'r taskBuffer"
  tbi :: nat
  tbj :: nat
  tbk :: nat
  tbclosed :: bool

text \<open>The loop of \<open>Read\<close>, which leaves the indices at the next row, and whether there is one.\<close>

function tb_seek :: "'r taskBuffer \<Rightarrow> nat \<Rightarrow> nat \<Rightarrow> nat \<Rightarrow> (nat \<times> nat \<times> nat \<times> bool) go" where
  "tb_seek q i j k =
     (if length q = i then Ret (i, j, k, False)
      else if length q < i then Panic ''index out of range''
      else if length (q ! i) = j then tb_seek q (Suc i) 0 0
      else if length (q ! i) < j then Panic ''index out of range''
      else if length (q ! i ! j) = k then tb_seek q i (Suc j) 0
      else Ret (i, j, k, True))"
  by pat_completeness auto
termination
  by (relation "measures [\<lambda>(q, i, j, k). length q - i, \<lambda>(q, i, j, k). length (q ! i) - j]") auto

declare tb_seek.simps [simp del]

definition tb_Read :: "('r taskBufferReader, 'r) reader" where
  "tb_Read r n =
     (if tbclosed r then Some (Panic ''closed'')
      else run_bind (Some (tb_seek (tbq r) (tbi r) (tbj r) (tbk r))) (\<lambda>(i, j, k, more).
        if \<not> more then Some (Ret (r\<lparr>tbi := i, tbj := j, tbk := k\<rparr>, [], Some EOF))
        else let f = tbq r ! i ! j; m = (if length f - k < n then length f - k else n)
             in if length f < k then Some (Panic ''frame.Slice: slice index out of bounds'')
                else Some (Ret (r\<lparr>tbi := i, tbj := j, tbk := k + m\<rparr>, take m (drop k f), None))))"

definition tb_Close :: "'r taskBufferReader \<Rightarrow> 'r taskBufferReader" where
  "tb_Close r = r\<lparr>tbq := [], tbclosed := True\<rparr>"

text \<open>The readers that the executor hands out: an error, an empty one, and one of a buffer.\<close>

datatype 'r lreader = LErr goerror | LEmpty | LBuf "'r taskBufferReader"

definition tb_Reader :: "'r taskBuffer \<Rightarrow> nat \<Rightarrow> 'r lreader go" where
  "tb_Reader b prt =
     (if b = [] then Ret LEmpty
      else if prt < length b then Ret (LBuf \<lparr>tbq = [b ! prt], tbi = 0, tbj = 0, tbk = 0, tbclosed = False\<rparr>)
      else Panic ''slice bounds out of range'')"

fun lread :: "('r lreader, 'r) reader" where
  "lread (LErr e) n = run_bind (err_Read e n) (\<lambda>(e', xs, err). Some (Ret (LErr e', xs, err)))"
| "lread LEmpty n = run_bind (empty_Read () n) (\<lambda>(_, xs, err). Some (Ret (LEmpty, xs, err)))"
| "lread (LBuf r) n = run_bind (tb_Read r n) (\<lambda>(r', xs, err). Some (Ret (LBuf r', xs, err)))"

text \<open>\<open>multiReader\<close> of \<open>local.go\<close>.\<close>

record 's lmulti =
  lq :: "'s list"
  lerr :: gerr

partial_function (option) lmulti_loop :: "('s, 'r) reader \<Rightarrow> 's list \<Rightarrow> nat \<Rightarrow> ('s lmulti \<times> 'r list \<times> gerr) go option" where
  "lmulti_loop rd q n = (case q of
       [] \<Rightarrow> Some (Ret (\<lparr>lq = [], lerr = None\<rparr>, [], Some EOF))
     | r # q' \<Rightarrow> run_bind (rd r n) (\<lambda>(r', xs, err).
         if err = Some EOF then lmulti_loop rd q' n
         else if err \<noteq> None then Some (Ret (\<lparr>lq = r' # q', lerr = err\<rparr>, xs, err))
         else if xs \<noteq> [] then Some (Ret (\<lparr>lq = r' # q', lerr = None\<rparr>, xs, err))
         else lmulti_loop rd (r' # q') n))"

definition lmulti_Read :: "('s, 'r) reader \<Rightarrow> ('s lmulti, 'r) reader" where
  "lmulti_Read rd m n = (if lerr m \<noteq> None then Some (Ret (m, [], lerr m)) else lmulti_loop rd (lq m) n)"

section \<open>Buffering the output of a task\<close>

text \<open>The rows of a frame with their partitions; a frame of a partition has room for \<open>chunk\<close> rows.\<close>

fun bo_append :: "nat \<Rightarrow> ('r \<times> int) list \<Rightarrow> 'r taskBuffer \<Rightarrow> 'r taskBuffer go" where
  "bo_append chunk [] buf = Ret buf"
| "bo_append chunk ((x, p) # ps) buf = go_bind (list_index buf p) (\<lambda>fs.
     bo_append chunk ps (buf[nat p := (if fs = [] \<or> length (last fs) = chunk then fs @ [[x]] else butlast fs @ [last fs @ [x]])]))"

definition bo_frame :: "('r list \<Rightarrow> int \<Rightarrow> int list go) \<Rightarrow> int \<Rightarrow> nat \<Rightarrow> 'r list \<Rightarrow> 'r taskBuffer \<Rightarrow> 'r taskBuffer go" where
  "bo_frame part np chunk xs buf =
     (if 1 < np then go_bind (part xs np) (\<lambda>shards. bo_append chunk (zip xs shards) buf)
      else if xs \<noteq> [] then go_bind (list_index buf 0) (\<lambda>fs. Ret (buf[0 := fs @ [xs]]))
      else Ret buf)"

partial_function (option) bo_loop ::
  "('s, 'r) reader \<Rightarrow> ('r list \<Rightarrow> int \<Rightarrow> int list go) \<Rightarrow> int \<Rightarrow> nat \<Rightarrow> 's \<Rightarrow> 'r taskBuffer \<Rightarrow> ('r taskBuffer \<times> gerr) go option" where
  "bo_loop rd part np chunk s buf = run_bind (rd s chunk) (\<lambda>(s', xs, err).
     if err \<noteq> None \<and> err \<noteq> Some EOF then Some (Ret ([], err))
     else run_bind (Some (bo_frame part np chunk xs buf)) (\<lambda>buf.
       if err = Some EOF then Some (Ret (buf, None)) else bo_loop rd part np chunk s' buf))"

text \<open>The deferred function turns a panic of the loop into a fatal error; the buffer is not used then.\<close>

definition bufferOutput ::
  "nat \<Rightarrow> ('s, 'r) reader \<Rightarrow> ('r list \<Rightarrow> int \<Rightarrow> int list go) \<Rightarrow> int \<Rightarrow> nat \<Rightarrow> 's \<Rightarrow> ('r taskBuffer \<times> gerr) go option" where
  "bufferOutput numOut rd part np chunk out =
     (if numOut = 0 then run_bind (rd out 0) (\<lambda>(s', xs, err). Some (Ret ([], if err = Some EOF then None else err)))
      else if np < 0 then Some (Panic ''makeslice: len out of range'')
      else map_option (\<lambda>r. case r of
          Ret res \<Rightarrow> Ret res
        | Panic msg \<Rightarrow> Ret ([], Some (ErrE [AFatal] (Some (ErrNew (''panic while evaluating slice: '' @ msg))))))
        (bo_loop rd part np chunk out (replicate (nat np) [])))"

section \<open>Readers of buffers\<close>

definition tb_at :: "'r taskBuffer \<Rightarrow> nat \<Rightarrow> nat \<Rightarrow> nat \<Rightarrow> bool" where
  "tb_at q i j k \<longleftrightarrow> i \<le> length q \<and> (i < length q \<longrightarrow> j \<le> length (q ! i) \<and> (j < length (q ! i) \<longrightarrow> k \<le> length (q ! i ! j)))"

text \<open>The rows from an index on.\<close>

definition tb_rest :: "'r taskBuffer \<Rightarrow> nat \<Rightarrow> nat \<Rightarrow> nat \<Rightarrow> 'r list" where
  "tb_rest q i j k = (if i < length q
     then (if j < length (q ! i) then drop k (q ! i ! j) @ concat (drop (Suc j) (q ! i)) else []) @ concat (concat (drop (Suc i) q))
     else [])"

lemma tb_rest_first: "i < length q \<Longrightarrow> tb_rest q i 0 0 = concat (q ! i) @ concat (concat (drop (Suc i) q))"
  by (cases "q ! i") (auto simp: tb_rest_def)

lemma tb_rest_step:
  "length (q ! i) = j \<Longrightarrow> i < length q \<Longrightarrow> tb_rest q i j k = tb_rest q (Suc i) 0 0"
  "length (q ! i ! j) = k \<Longrightarrow> i < length q \<Longrightarrow> j < length (q ! i) \<Longrightarrow> tb_rest q i j k = tb_rest q i (Suc j) 0"
proof -
  show "tb_rest q i j k = tb_rest q (Suc i) 0 0" if "length (q ! i) = j" "i < length q"
  proof (cases "Suc i < length q")
    case True
    then show ?thesis using that tb_rest_first [OF True] by (simp add: tb_rest_def Cons_nth_drop_Suc [symmetric])
  qed (use that in \<open>simp add: tb_rest_def\<close>)
  show "tb_rest q i j k = tb_rest q i (Suc j) 0" if "length (q ! i ! j) = k" "i < length q" "j < length (q ! i)"
    using that by (cases "Suc j < length (q ! i)") (simp_all add: tb_rest_def Cons_nth_drop_Suc [symmetric])
qed

lemma tb_seek_spec:
  assumes "tb_at q i j k"
  shows "\<exists>i' j' k' more. tb_seek q i j k = Ret (i', j', k', more) \<and> tb_at q i' j' k' \<and> tb_rest q i' j' k' = tb_rest q i j k \<and>
    (if more then i' < length q \<and> j' < length (q ! i') \<and> k' < length (q ! i' ! j') else tb_rest q i j k = [])"
  using assms
proof (induction q i j k rule: tb_seek.induct)
  case (1 q i j k)
  consider "i = length q" | "i < length q" "length (q ! i) = j" | "i < length q" "j < length (q ! i)" "length (q ! i ! j) = k"
    | "i < length q" "j < length (q ! i)" "k < length (q ! i ! j)"
    using 1(3) unfolding tb_at_def by fastforce
  then show ?case
  proof cases
    case 1
    then have "tb_seek q i j k = Ret (i, j, k, False)" "tb_rest q i j k = []" by (subst tb_seek.simps, simp_all add: tb_rest_def)
    then show ?thesis using \<open>tb_at q i j k\<close> by (intro exI [of _ i] exI [of _ j] exI [of _ k] exI [of _ False]) simp
  next
    case 2
    have "tb_seek q i j k = tb_seek q (Suc i) 0 0" using 2 by (subst tb_seek.simps) simp
    then show ?thesis unfolding tb_rest_step(1) [OF 2(2,1)] using 2 by (simp only:) (rule "1.IH"(1), simp_all add: tb_at_def)
  next
    case 3
    have "tb_seek q i j k = tb_seek q i (Suc j) 0" using 3 by (subst tb_seek.simps) simp
    then show ?thesis unfolding tb_rest_step(2) [OF 3(3,1,2)] using 3 by (simp only:) (rule "1.IH"(2), simp_all add: tb_at_def)
  next
    case 4
    then have "tb_seek q i j k = Ret (i, j, k, True)" by (subst tb_seek.simps) simp
    then show ?thesis using \<open>tb_at q i j k\<close> 4 by (intro exI [of _ i] exI [of _ j] exI [of _ k] exI [of _ True]) simp
  qed
qed

definition tb_ok :: "'r taskBufferReader \<Rightarrow> bool" where
  "tb_ok r \<longleftrightarrow> \<not> tbclosed r \<and> tb_at (tbq r) (tbi r) (tbj r) (tbk r)"

definition tb_rows :: "'r taskBufferReader \<Rightarrow> 'r list" where
  "tb_rows r = tb_rest (tbq r) (tbi r) (tbj r) (tbk r)"

lemma tb_Read_spec:
  assumes "tb_ok r" and "0 < n"
  shows "\<exists>r' xs e. tb_Read r n = Some (Ret (r', xs, e)) \<and> (e \<noteq> None \<longrightarrow> xs = []) \<and> read_ok tb_ok tb_rows (\<lambda>_. EOF) (\<lambda>r. length (tb_rows r)) r n (r', xs, e)"
proof -
  let ?q = "tbq r"
  from tb_seek_spec [of ?q "tbi r" "tbj r" "tbk r"] assms(1) obtain i j k more where
    s: "tb_seek ?q (tbi r) (tbj r) (tbk r) = Ret (i, j, k, more)" "tb_at ?q i j k" "tb_rest ?q i j k = tb_rows r"
      "if more then i < length ?q \<and> j < length (?q ! i) \<and> k < length (?q ! i ! j) else tb_rows r = []"
    unfolding tb_ok_def tb_rows_def by auto
  show ?thesis
  proof (cases more)
    case False
    then show ?thesis using s assms(1) by (simp add: tb_Read_def tb_ok_def read_ok_def tb_rows_def)
  next
    case True
    define m where "m = (if length (?q ! i ! j) - k < n then length (?q ! i ! j) - k else n)"
    have m: "0 < m" "k + m \<le> length (?q ! i ! j)" "m \<le> n" using s(4) True assms(2) by (auto simp: m_def)
    have "tb_Read r n = Some (Ret (r\<lparr>tbi := i, tbj := j, tbk := k + m\<rparr>, take m (drop k (?q ! i ! j)), None))"
      using s(1,4) True assms(1) by (simp add: tb_Read_def tb_ok_def m_def Let_def)
    moreover have "tb_rows r = take m (drop k (?q ! i ! j)) @ tb_rows (r\<lparr>tbi := i, tbj := j, tbk := k + m\<rparr>)"
    proof -
      have "drop k f = take m (drop k f) @ drop (k + m) f" for f :: "'a list" by (metis add.commute append_take_drop_id drop_drop)
      from this [of "?q ! i ! j"] have "tb_rest ?q i j k = take m (drop k (?q ! i ! j)) @ tb_rest ?q i j (k + m)" using s(4) True by (simp add: tb_rest_def)
      with s(3) show ?thesis by (simp add: tb_rows_def)
    qed
    ultimately show ?thesis using s(4) True m assms(1) by (simp add: read_ok_def tb_ok_def tb_at_def)
  qed
qed

fun lr_ok :: "'r lreader \<Rightarrow> bool" where
  "lr_ok (LBuf r) \<longleftrightarrow> tb_ok r"
| "lr_ok _ \<longleftrightarrow> True"

fun lr_rows :: "'r lreader \<Rightarrow> 'r list" where
  "lr_rows (LBuf r) = tb_rows r"
| "lr_rows _ = []"

fun lr_fin :: "'r lreader \<Rightarrow> goerror" where
  "lr_fin (LErr e) = e"
| "lr_fin _ = EOF"

interpretation lrd: eof_alone_reader lread lr_ok lr_rows lr_fin "\<lambda>r. length (lr_rows r)"
proof
  fix r :: "'a lreader" and n :: nat
  assume "lr_ok r" "0 < n"
  then have "\<exists>r' xs e. lread r n = Some (Ret (r', xs, e)) \<and> (e \<noteq> None \<longrightarrow> xs = []) \<and> read_ok lr_ok lr_rows lr_fin (\<lambda>r. length (lr_rows r)) r n (r', xs, e)"
  proof (cases r)
    case (LBuf b)
    with \<open>lr_ok r\<close> tb_Read_spec [of b n] \<open>0 < n\<close> obtain b' xs e where
      "tb_Read b n = Some (Ret (b', xs, e))" "e \<noteq> None \<longrightarrow> xs = []" "read_ok tb_ok tb_rows (\<lambda>_. EOF) (\<lambda>r. length (tb_rows r)) b n (b', xs, e)" by auto
    then show ?thesis using LBuf by (auto simp: read_ok_def split: option.splits)
  qed (simp_all add: err_Read_def empty_Read_def read_ok_def)
  then obtain r' xs e where x: "lread r n = Some (Ret (r', xs, e))" "e \<noteq> None \<longrightarrow> xs = []"
    "read_ok lr_ok lr_rows lr_fin (\<lambda>r. length (lr_rows r)) r n (r', xs, e)" by blast
  then show "\<exists>res. lread r n = Some (Ret res) \<and> read_ok lr_ok lr_rows lr_fin (\<lambda>r. length (lr_rows r)) r n res" by blast
  show "ys = []" if "lread r n = Some (Ret (s', ys, Some f))" for s' ys f using that x by simp
qed

section \<open>What is buffered\<close>

text \<open>The rows of partition \<open>p\<close>, where \<open>pf\<close> assigns rows to partitions.\<close>

definition part_rows :: "('r \<Rightarrow> int) \<Rightarrow> int \<Rightarrow> 'r list \<Rightarrow> nat \<Rightarrow> 'r list" where
  "part_rows pf np xs p = (if 1 < np then filter (\<lambda>x. nat (pf x) = p) xs else xs)"

text \<open>A partitioner that assigns each row by itself, as \<open>defaultPartitioner\<close> and the partitioners of \<open>Repartition\<close> do.\<close>

definition rowwise :: "('r list \<Rightarrow> int \<Rightarrow> int list go) \<Rightarrow> int \<Rightarrow> ('r \<Rightarrow> int) \<Rightarrow> bool" where
  "rowwise part np pf \<longleftrightarrow> (\<forall>xs. part xs np = Ret (map pf xs))"

lemma part_rows_append: "part_rows pf np (xs @ ys) p = part_rows pf np xs p @ part_rows pf np ys p"
  by (simp add: part_rows_def)

lemma bo_append_spec:
  assumes "\<forall>x\<in>set xs. 0 \<le> pf x \<and> pf x < int (length buf)"
  shows "\<exists>buf'. bo_append chunk (zip xs (map pf xs)) buf = Ret buf' \<and> length buf' = length buf \<and>
    (\<forall>p<length buf. concat (buf' ! p) = concat (buf ! p) @ filter (\<lambda>x. nat (pf x) = p) xs)"
  using assms
proof (induction xs arbitrary: buf)
  case (Cons x xs)
  let ?fs = "buf ! nat (pf x)"
  let ?fs' = "if ?fs = [] \<or> length (last ?fs) = chunk then ?fs @ [[x]] else butlast ?fs @ [last ?fs @ [x]]"
  let ?b = "buf[nat (pf x) := ?fs']"
  have c: "concat ?fs' = concat ?fs @ [x]" by (cases ?fs rule: rev_cases) auto
  have "list_index buf (pf x) = Ret ?fs" using Cons.prems by (simp add: list_index_def)
  then have "bo_append chunk (zip (x # xs) (map pf (x # xs))) buf = bo_append chunk (zip xs (map pf xs)) ?b" by simp
  moreover from Cons.IH [of ?b] Cons.prems obtain b' where
    "bo_append chunk (zip xs (map pf xs)) ?b = Ret b'" "length b' = length buf" "\<forall>p<length buf. concat (b' ! p) = concat (?b ! p) @ filter (\<lambda>x. nat (pf x) = p) xs" by auto
  ultimately show ?case using c Cons.prems by (intro exI [of _ b']) (auto simp: nth_list_update)
qed simp

lemma bo_frame_spec:
  assumes "rowwise part np pf" and "0 < np" and "\<forall>x\<in>set xs. 0 \<le> pf x \<and> pf x < np" and "length buf = nat np"
  shows "\<exists>buf'. bo_frame part np chunk xs buf = Ret buf' \<and> length buf' = nat np \<and> (\<forall>p<nat np. concat (buf' ! p) = concat (buf ! p) @ part_rows pf np xs p)"
proof (cases "1 < np")
  case True
  then show ?thesis using assms bo_append_spec [of xs pf buf chunk] by (auto simp: bo_frame_def part_rows_def rowwise_def)
next
  case False
  then have "np = 1" using assms(2) by simp
  then obtain fs where "buf = [fs]" using assms(4) by (cases buf) auto
  then show ?thesis using \<open>np = 1\<close> by (auto simp: bo_frame_def part_rows_def list_index_def)
qed

lemma bo_loop_spec:
  assumes rd: "slice_reader rd ok str fin mu" and "0 < chunk" and pt: "rowwise part np pf" "0 < np"
    and "ok s" and "\<forall>x\<in>set (str s). 0 \<le> pf x \<and> pf x < np" and "length buf = nat np"
  shows "if fin s = EOF then \<exists>b. bo_loop rd part np chunk s buf = Some (Ret (b, None)) \<and> length b = nat np \<and>
      (\<forall>p<nat np. concat (b ! p) = concat (buf ! p) @ part_rows pf np (str s) p)
    else bo_loop rd part np chunk s buf = Some (Ret ([], Some (fin s)))"
  using assms(5-)
proof (induction "mu s" arbitrary: s buf rule: less_induct)
  case less
  from slice_reader.read_cases [OF rd less.prems(1) assms(2), case_names more stop] show ?case
  proof cases
    case (more s' xs)
    from bo_frame_spec [OF pt, of xs buf chunk] less.prems(2,3) more(4) obtain b where
      b: "bo_frame part np chunk xs buf = Ret b" "length b = nat np" "\<forall>p<nat np. concat (b ! p) = concat (buf ! p) @ part_rows pf np xs p" by auto
    have "bo_loop rd part np chunk s buf = bo_loop rd part np chunk s' b"
      using more(1) b(1) by (subst bo_loop.simps) simp
    with less.hyps [OF more(6,2) _ b(2)] less.prems(2) more(4,5) b(3) show ?thesis
      by (auto simp: part_rows_append split: if_splits)
  next
    case (stop s' xs)
    show ?thesis
    proof (cases "fin s = EOF")
      case True
      from bo_frame_spec [OF pt, of xs buf chunk] less.prems(2,3) stop(4) obtain b where
        b: "bo_frame part np chunk xs buf = Ret b" "length b = nat np" "\<forall>p<nat np. concat (b ! p) = concat (buf ! p) @ part_rows pf np xs p" by auto
      then have "bo_loop rd part np chunk s buf = Some (Ret (b, None))" using stop(1) True by (subst bo_loop.simps) simp
      with b(2,3) stop(4) True show ?thesis by simp
    next
      case False
      then show ?thesis using stop(1) by (subst bo_loop.simps) simp
    qed
  qed
qed

text \<open>A buffer that holds the partitions of rows \<open>xs\<close>; a task without columns has a nil buffer.\<close>

definition holds :: "('r \<Rightarrow> int) \<Rightarrow> int \<Rightarrow> 'r list \<Rightarrow> 'r taskBuffer \<Rightarrow> bool" where
  "holds pf np xs b \<longleftrightarrow> length b = nat np \<and> (\<forall>p<nat np. concat (b ! p) = part_rows pf np xs p)"

lemma bufferOutput_holds:
  assumes "slice_reader rd ok str fin mu" and "0 < chunk" and "rowwise part np pf" and "0 < np"
    and "ok s" and "\<forall>x\<in>set (str s). 0 \<le> pf x \<and> pf x < np" and "fin s = EOF" and "0 < numOut"
  shows "\<exists>b. bufferOutput numOut rd part np chunk s = Some (Ret (b, None)) \<and> holds pf np (str s) b"
  using bo_loop_spec [OF assms(1-6), of "replicate (nat np) []"] assms(4,7,8) by (auto simp: bufferOutput_def holds_def)

lemma holds_Reader:
  assumes "holds pf np xs b" and "0 < np" and "p < nat np"
  shows "\<exists>r. tb_Reader b p = Ret r \<and> lr_ok r \<and> lr_rows r = part_rows pf np xs p \<and> lr_fin r = EOF"
proof -
  have "b \<noteq> []" "p < length b" using assms by (auto simp: holds_def)
  moreover have "tb_rest [b ! p] 0 0 0 = concat (b ! p)" using tb_rest_first [of 0 "[b ! p]"] by simp
  ultimately show ?thesis using assms by (auto simp: tb_Reader_def holds_def tb_ok_def tb_at_def tb_rows_def)
qed

text \<open>
  C27.  Buffering is a round trip, partition by partition: the output of a task, read to the end into a
  buffer with the frames it comes in, is read back from partition \<open>p\<close> of the buffer as exactly the rows that
  the partitioner assigns to \<open>p\<close>, in their order, whatever the sizes of the frames on both sides; with one
  partition, all rows come back.  If the output ends with an error, so does the buffering.
\<close>

theorem bufferOutput_roundtrip:
  assumes "slice_reader rd ok str fin mu" and "0 < chunk" and "rowwise part np pf" and "0 < np"
    and "ok s" and "\<forall>x\<in>set (str s). 0 \<le> pf x \<and> pf x < np" and "0 < numOut" and "0 < chunk'"
  shows "if fin s = EOF
    then \<exists>b. bufferOutput numOut rd part np chunk s = Some (Ret (b, None)) \<and>
      (\<forall>p<nat np. \<exists>r r'. tb_Reader b p = Ret r \<and> ReadAll lread chunk' r [] = Some (Ret (r', part_rows pf np (str s) p, None)))
    else bufferOutput numOut rd part np chunk s = Some (Ret ([], Some (fin s)))"
proof (cases "fin s = EOF")
  case True
  from bufferOutput_holds [OF assms(1-6) True assms(7)] obtain b where
    b: "bufferOutput numOut rd part np chunk s = Some (Ret (b, None))" "holds pf np (str s) b" by blast
  have "\<exists>r r'. tb_Reader b p = Ret r \<and> ReadAll lread chunk' r [] = Some (Ret (r', part_rows pf np (str s) p, None))" if "p < nat np" for p
  proof -
    from holds_Reader [OF b(2) assms(4) that] obtain r where
      r: "tb_Reader b p = Ret r" "lr_ok r" "lr_rows r = part_rows pf np (str s) p" "lr_fin r = EOF" by blast
    from lrd.readall_loop_spec [OF r(2) assms(8), of "[]"] r show ?thesis unfolding ReadAll_def by fastforce
  qed
  with b(1) True show ?thesis by auto
next
  case False
  then show ?thesis using bo_loop_spec [OF assms(1-6), of "replicate (nat np) []"] assms(4,7) by (simp add: bufferOutput_def)
qed

section \<open>The reader of several tasks\<close>

context eof_alone_reader
begin

abbreviation lm_ok :: "'s lmulti \<Rightarrow> bool" where
  "lm_ok m \<equiv> \<forall>r\<in>set (lq m). ok r"

abbreviation lm_rows :: "'s lmulti \<Rightarrow> 'r list" where
  "lm_rows m \<equiv> (if lerr m = None then cat_str str fin (map Some (lq m)) else [])"

abbreviation lm_end :: "'s lmulti \<Rightarrow> goerror" where
  "lm_end m \<equiv> (case lerr m of None \<Rightarrow> cat_fin fin (map Some (lq m)) | Some e \<Rightarrow> e)"

abbreviation lm_mu :: "'s list \<Rightarrow> nat" where
  "lm_mu q \<equiv> (\<Sum>r\<leftarrow>q. Suc (mu r))"

lemma lmulti_loop_spec:
  assumes "\<forall>r\<in>set q. ok r" and "0 < n"
  shows "\<exists>res. lmulti_loop rd q n = Some (Ret res) \<and> read_ok lm_ok lm_rows lm_end (\<lambda>m. lm_mu (lq m)) \<lparr>lq = q, lerr = None\<rparr> n res"
  using assms(1)
proof (induction "lm_mu q" arbitrary: q rule: less_induct)
  case less
  let ?ok = "read_ok lm_ok lm_rows lm_end (\<lambda>m. lm_mu (lq m))"
  show ?case
  proof (cases q)
    case Nil
    then show ?thesis by (subst lmulti_loop.simps) (simp add: read_ok_def)
  next
    case (Cons r q')
    then have r: "ok r" and q': "\<forall>r\<in>set q'. ok r" using less.prems by auto
    have again: ?thesis if e: "lmulti_loop rd q n = lmulti_loop rd q2 n" and q2: "lm_mu q2 < lm_mu q" "\<forall>r\<in>set q2. ok r"
      "cat_str str fin (map Some q2) = cat_str str fin (map Some q)" "cat_fin fin (map Some q2) = cat_fin fin (map Some q)" for q2
    proof -
      from less.hyps [OF q2(1,2)] obtain res where res: "lmulti_loop rd q2 n = Some (Ret res)" "?ok \<lparr>lq = q2, lerr = None\<rparr> n res" by blast
      have "?ok \<lparr>lq = q, lerr = None\<rparr> n res" using res(2) q2(1,3,4) by (cases res) (auto simp: read_ok_def split: option.splits)
      then show ?thesis using e res(1) by simp
    qed
    from r assms(2) show ?thesis
    proof (cases rule: read_cases)
      case (more r' xs)
      show ?thesis
      proof (cases "xs = []")
        case False
        then show ?thesis using more q' Cons by (subst lmulti_loop.simps) (simp add: read_ok_def)
      next
        case True
        then have "lmulti_loop rd q n = lmulti_loop rd (r' # q') n" using more(1) Cons by (subst lmulti_loop.simps) simp
        then show ?thesis by (rule again) (use more True q' Cons in auto)
      qed
    next
      case (stop r' xs)
      have "xs = []" using alone [OF r assms(2) stop(1)] .
      show ?thesis
      proof (cases "fin r = EOF")
        case True
        then have "lmulti_loop rd q n = lmulti_loop rd q' n" using stop(1) Cons by (subst lmulti_loop.simps) simp
        then show ?thesis by (rule again) (use stop(4) True q' Cons \<open>xs = []\<close> in auto)
      next
        case False
        then show ?thesis using stop q' Cons \<open>xs = []\<close> by (subst lmulti_loop.simps) (simp add: read_ok_def)
      qed
    qed
  qed
qed

lemma local_multi: "slice_reader (lmulti_Read rd) lm_ok lm_rows lm_end (\<lambda>m. lm_mu (lq m))"
proof
  fix m :: "'s lmulti" and n :: nat
  assume ok: "lm_ok m" and n: "0 < n"
  show "\<exists>res. lmulti_Read rd m n = Some (Ret res) \<and> read_ok lm_ok lm_rows lm_end (\<lambda>m. lm_mu (lq m)) m n res"
  proof (cases "lerr m")
    case None
    then obtain q where m: "m = \<lparr>lq = q, lerr = None\<rparr>" by (cases m) auto
    show ?thesis using lmulti_loop_spec [OF _ n, of q] ok unfolding m lmulti_Read_def by simp
  next
    case (Some e)
    with ok show ?thesis by (simp add: lmulti_Read_def read_ok_def)
  qed
qed

end

section \<open>The readers of dependencies\<close>

definition local_Reader :: "(nat \<Rightarrow> 'r taskBuffer option) \<Rightarrow> nat \<Rightarrow> nat \<Rightarrow> 'r lreader go" where
  "local_Reader bufs t prt = (case bufs t of None \<Rightarrow> Ret (LErr (ErrNew ''no data'')) | Some b \<Rightarrow> tb_Reader b prt)"

text \<open>
  What the combiner of a task needs besides its code: the operators, the environment of \<open>SpillCombiner\<close>, the
  outcome of making a directory, the sizes of the tables and the type of the rows.
\<close>

record ('v, 'u) comb_cfg =
  cc_ops :: "'v optab"
  cc_env :: "('v, 'u) comb_env"
  cc_tmp :: gerr
  cc_init :: nat
  cc_scratch :: nat
  cc_type :: stype

datatype ('v, 'u) dreader =
    DOne "'v list lreader"
  | DMulti "'v list lreader lmulti"
  | DComb "('v, 'u) comb_env" "(('v, 'u) run_reader, 'v list, 'v) reduceReader"

partial_function (option) local_combine ::
  "('s, 'v list) reader \<Rightarrow> ('v, 'u) comb_env \<Rightarrow> nat \<Rightarrow> 's \<Rightarrow> ('v, 'u) combiner \<Rightarrow> (goerror + ('v, 'u) combiner) go option" where
  "local_combine rd E chunk r c = run_bind (rd r chunk) (\<lambda>(r', xs, err).
     if err \<noteq> None \<and> err \<noteq> Some EOF then Some (Ret (Inl (ErrE [] err)))
     else run_bind (combiner_Combine E c (map row_pair xs)) (\<lambda>(c', cerr).
       if cerr \<noteq> None then Some (Ret (Inl (ErrE [AFatal] cerr)))
       else if err = Some EOF then Some (Ret (Inr c')) else local_combine rd E chunk r' c'))"

definition dep_reader ::
  "(nat \<Rightarrow> 'v CTask) \<Rightarrow> (nat \<Rightarrow> ('v, 'u) comb_cfg) \<Rightarrow> nat \<Rightarrow> (nat \<Rightarrow> 'v list taskBuffer option) \<Rightarrow> TaskDep \<Rightarrow> (goerror + ('v, 'u) dreader list) go option" where
  "dep_reader h cc chunk bufs d =
     run_bind (Some (map_go (\<lambda>j. go_bind (dep_Task h d j) (\<lambda>u. case u of
         None \<Rightarrow> Panic ''nil pointer dereference'' | Some u \<Rightarrow> local_Reader bufs u (dPartition d))) [0 ..< NumTask h d])) (\<lambda>q.
       case dHead d of
         Some t0 \<Rightarrow>
           if \<not> sfunc_IsNil (ctCombiner (h t0))
           then let C = cc t0 in run_bind (Some (newCombiner (cc_ops C) (cc_env C) (cc_tmp C) (cc_init C) (cc_scratch C) (cc_type C) (chunk * 100))) (\<lambda>c.
             case c of
               Inl e \<Rightarrow> Some (Ret (Inl (ErrE [AFatal] (Some e))))
             | Inr c \<Rightarrow> run_bind (local_combine (lmulti_Read lread) (cc_env C) chunk \<lparr>lq = q, lerr = None\<rparr> c) (\<lambda>r. case r of
                 Inl e \<Rightarrow> Some (Ret (Inl e))
               | Inr c \<Rightarrow> run_bind (Some (combiner_Reader (cc_env C) (cc_type C) c)) (\<lambda>(c', rr). Some (Ret (Inr [DComb (cc_env C) rr])))))
           else Some (Ret (Inr (if dExpand d then map DOne q else [DMulti \<lparr>lq = q, lerr = None\<rparr>])))
       | None \<Rightarrow> Some (Ret (Inr (if dExpand d then map DOne q else [DMulti \<lparr>lq = q, lerr = None\<rparr>]))))"

fun depReaders ::
  "(nat \<Rightarrow> 'v CTask) \<Rightarrow> (nat \<Rightarrow> ('v, 'u) comb_cfg) \<Rightarrow> nat \<Rightarrow> (nat \<Rightarrow> 'v list taskBuffer option) \<Rightarrow> TaskDep list \<Rightarrow> (goerror + ('v, 'u) dreader list) go option" where
  "depReaders h cc chunk bufs [] = Some (Ret (Inr []))"
| "depReaders h cc chunk bufs (d # ds) = run_bind (dep_reader h cc chunk bufs d) (\<lambda>r. case r of
     Inl e \<Rightarrow> Some (Ret (Inl e))
   | Inr rs \<Rightarrow> run_bind (depReaders h cc chunk bufs ds) (\<lambda>r'. case r' of
       Inl e \<Rightarrow> Some (Ret (Inl e))
     | Inr rs' \<Rightarrow> Some (Ret (Inr (rs @ rs')))))"

fun dread :: "(('v, 'u) dreader, 'v list) reader" where
  "dread (DOne r) n = run_bind (lread r n) (\<lambda>(r', xs, e). Some (Ret (DOne r', xs, e)))"
| "dread (DMulti m) n = run_bind (lmulti_Read lread m n) (\<lambda>(m', xs, e). Some (Ret (DMulti m', xs, e)))"
| "dread (DComb E r) n = run_bind (reduce_Read (ce_less E) (ce_combiner E) (run_Read E) (ce_chunk E) r n) (\<lambda>(r', xs, e). Some (Ret (DComb E r', map row_list xs, e)))"

section \<open>The executor\<close>

definition run_part :: "('v list \<Rightarrow> 32 word) \<Rightarrow> 'v cpart option \<Rightarrow> 'v Partitioner" where
  "run_part hash po = (case po of
       None \<Rightarrow> (\<lambda>_ _. Panic ''nil pointer dereference'')
     | Some DefaultPartitioner \<Rightarrow> defaultPartitioner hash
     | Some (CustomPartitioner f) \<Rightarrow> f)"

text \<open>
  The code that the executor calls: \<open>errors.Match(fatalErr, _)\<close>, the environments of the combiners, the size
  of frames, the number of columns of a slice, the closures of tasks, which make a reader from the readers
  of the dependencies, the method \<open>Read\<close> of these readers, and \<open>Frame.Hash\<close>.
\<close>

record ('v, 'u, 's) lenv =
  le_fatal :: "goerror \<Rightarrow> bool"
  le_cc :: "nat \<Rightarrow> ('v, 'u) comb_cfg"
  le_chunk :: nat
  le_numOut :: "nat \<Rightarrow> nat"
  le_do :: "taskDo \<Rightarrow> ('v, 'u) dreader list \<Rightarrow> 's go"
  le_rd :: "('s, 'v list) reader"
  le_hash :: "'v list \<Rightarrow> 32 word"

record 'v localExecutor =
  leTasks :: tstore
  leBuffers :: "nat \<Rightarrow> 'v list taskBuffer option"

definition set_result :: "nat \<Rightarrow> TaskState \<Rightarrow> gerr \<Rightarrow> tstore \<Rightarrow> tstore" where
  "set_result t st err s = Broadcast t (s\<lparr>rts := (rts s)(t := (rts s t)\<lparr>rtState := st, rtErr := (if err = None then rtErr (rts s t) else err)\<rparr>)\<rparr>)"

definition local_Run ::
  "('v, 'u, 's) lenv \<Rightarrow> (nat \<Rightarrow> 'v CTask) \<Rightarrow> nat \<Rightarrow> 'v localExecutor \<Rightarrow> 'v localExecutor go option" where
  "local_Run L h t l =
     run_bind (depReaders h (le_cc L) (le_chunk L) (leBuffers l) (tDeps (h t))) (\<lambda>inp. case inp of
       Inl err \<Rightarrow> Some (Ret (l\<lparr>leTasks := (if le_fatal L err then task_Error t err (leTasks l) else task_Set t TaskLost (leTasks l))\<rparr>))
     | Inr readers \<Rightarrow>
         let s1 = task_Set t TaskRunning (leTasks l)
         in case ctDo (h t) of
              None \<Rightarrow> Some (Panic ''nil pointer dereference'')
            | Some d \<Rightarrow> run_bind (Some (le_do L d readers)) (\<lambda>out.
                run_bind (bufferOutput (le_numOut L (ctType (h t))) (le_rd L) (run_part (le_hash L) (ctPartitioner (h t))) (ctNumPartition (h t)) (le_chunk L) out) (\<lambda>(buf, err).
                  case err of
                    None \<Rightarrow> Some (Ret \<lparr>leTasks = set_result t TaskOk None s1, leBuffers = (leBuffers l)(t \<mapsto> buf)\<rparr>)
                  | Some e \<Rightarrow> Some (Ret (l\<lparr>leTasks := set_result t (if le_fatal L e then TaskErr else TaskLost) err s1\<rparr>)))))"

definition local_Discard :: "(nat \<Rightarrow> 'v CTask) \<Rightarrow> nat \<Rightarrow> 'v localExecutor \<Rightarrow> 'v localExecutor" where
  "local_Discard h t l =
     (if \<not> sfunc_IsNil (ctCombiner (h t)) \<and> ctCombineKey (h t) \<noteq> '''' then l
      else if rtState (rts (leTasks l) t) = TaskOk
      then \<lparr>leTasks = task_Set t TaskLost (leTasks l), leBuffers = (leBuffers l)(t := None)\<rparr>
      else l)"

section \<open>What the readers of dependencies deliver\<close>

fun dr_ok :: "('v, 'u) dreader \<Rightarrow> bool" where
  "dr_ok (DOne r) \<longleftrightarrow> lr_ok r"
| "dr_ok (DMulti m) \<longleftrightarrow> (\<forall>r\<in>set (lq m). lr_ok r)"
| "dr_ok (DComb E r) \<longleftrightarrow> (\<exists>g. env_ok g E) \<and> reduce_ok (run_ok E) (run_rows E) (\<lambda>_. EOF) (ce_less E) r"

fun dr_rows :: "('v, 'u) dreader \<Rightarrow> 'v list list" where
  "dr_rows (DOne r) = lr_rows r"
| "dr_rows (DMulti m) = (if lerr m = None then cat_str lr_rows lr_fin (map Some (lq m)) else [])"
| "dr_rows (DComb E r) = map row_list (comb_str E r)"

fun dr_fin :: "('v, 'u) dreader \<Rightarrow> goerror" where
  "dr_fin (DOne r) = lr_fin r"
| "dr_fin (DMulti m) = (case lerr m of None \<Rightarrow> cat_fin lr_fin (map Some (lq m)) | Some e \<Rightarrow> e)"
| "dr_fin (DComb E r) = EOF"

fun dr_mu :: "('v, 'u) dreader \<Rightarrow> nat" where
  "dr_mu (DOne r) = length (lr_rows r)"
| "dr_mu (DMulti m) = (\<Sum>r\<leftarrow>lq m. Suc (length (lr_rows r)))"
| "dr_mu (DComb E r) = size (rest (run_rows E) (reduce_init (ce_less E) (run_Read E) (ce_chunk E) r))"

lemma multi_law: "slice_reader (lmulti_Read lread) (\<lambda>m. \<forall>r\<in>set (lq m). lr_ok r) (\<lambda>m. if lerr m = None then cat_str lr_rows lr_fin (map Some (lq m)) else [])
    (\<lambda>m. case lerr m of None \<Rightarrow> cat_fin lr_fin (map Some (lq m)) | Some e \<Rightarrow> e) (\<lambda>m. \<Sum>r\<leftarrow>lq m. Suc (length (lr_rows r)))"
  by (rule lrd.local_multi)

interpretation drd: slice_reader dread dr_ok dr_rows dr_fin dr_mu
proof
  fix r :: "('v, 'u) dreader" and n :: nat
  assume ok: "dr_ok r" and n: "0 < n"
  show "\<exists>res. dread r n = Some (Ret res) \<and> read_ok dr_ok dr_rows dr_fin dr_mu r n res"
  proof (cases r)
    case (DOne s)
    with lrd.read_law [of s n] ok n obtain s' xs e where "lread s n = Some (Ret (s', xs, e))"
      "read_ok lr_ok lr_rows lr_fin (\<lambda>r. length (lr_rows r)) s n (s', xs, e)" by auto
    then show ?thesis using DOne by (auto simp: read_ok_def split: option.splits)
  next
    case (DMulti m)
    with slice_reader.read_law [OF multi_law, of m n] ok n obtain m' xs e where m: "lmulti_Read lread m n = Some (Ret (m', xs, e))"
      "read_ok (\<lambda>m. \<forall>r\<in>set (lq m). lr_ok r) (\<lambda>m. if lerr m = None then cat_str lr_rows lr_fin (map Some (lq m)) else [])
        (\<lambda>m. case lerr m of None \<Rightarrow> cat_fin lr_fin (map Some (lq m)) | Some e \<Rightarrow> e) (\<lambda>m. \<Sum>r\<leftarrow>lq m. Suc (length (lr_rows r))) m n (m', xs, e)" by auto
    then show ?thesis using DMulti unfolding read_ok_def prod.case by (intro exI [of _ "(DMulti m', xs, e)"]) (simp cong: option.case_cong)
  next
    case (DComb E s)
    with ok obtain g where g: "env_ok g E" "reduce_ok (run_ok E) (run_rows E) (\<lambda>_. EOF) (ce_less E) s" by auto
    from slice_reader.read_law [OF comb_reader [OF g(1)] g(2) n] obtain s' xs e where s: "comb_Read E s n = Some (Ret (s', xs, e))"
      "read_ok (reduce_ok (run_ok E) (run_rows E) (\<lambda>_. EOF) (ce_less E)) (comb_str E) (\<lambda>_. EOF)
        (\<lambda>r. size (rest (run_rows E) (reduce_init (ce_less E) (run_Read E) (ce_chunk E) r))) s n (s', xs, e)" by auto
    then show ?thesis using DComb g(1) by (intro exI [of _ "(DComb E s', map row_list xs, e)"]) (auto simp: read_ok_def split: option.splits)
  qed
qed

text \<open>Combining a whole input.\<close>

lemma local_combine_ok:
  assumes rd: "slice_reader rd ok str fin mu" and E: "env_ok g E" and n: "0 < chunk"
    and "ok s" and "fin s = EOF" and "comb_ok g E R c" and "\<forall>x\<in>set (str s). Suc (length (fst (row_pair x))) = ce_ncol E"
    and "card (fst ` set_mset (mset (map row_pair (str s)) + R)) \<le> maxKeys"
  shows "\<exists>c'. local_combine rd E chunk s c = Some (Ret (Inr c')) \<and> comb_ok g E (mset (map row_pair (str s)) + R) c'"
  using assms(4-)
proof (induction "mu s" arbitrary: s c R rule: less_induct)
  case less
  have cmb: "\<exists>c'. combiner_Combine E c (map row_pair xs) = Some (Ret (c', None)) \<and> comb_ok g E (mset (map row_pair xs) + R) c'"
    if "str s = xs @ ys" for xs ys
  proof (rule combiner_Combine_ok [OF E less.prems(3)])
    have "fst ` set_mset (mset (map row_pair xs) + R) \<subseteq> fst ` set_mset (mset (map row_pair (str s)) + R)" using that by auto
    then show "card (fst ` set_mset (mset (map row_pair xs) + R)) \<le> maxKeys" using less.prems(5) card_mono [rotated] by (metis finite_imageI finite_set_mset le_trans)
  qed (use less.prems(4) that in auto)
  from slice_reader.read_cases [OF rd less.prems(1) n, case_names more stop] show ?case
  proof cases
    case (more s' xs)
    from cmb [OF more(4)] obtain c1 where c1: "combiner_Combine E c (map row_pair xs) = Some (Ret (c1, None))" "comb_ok g E (mset (map row_pair xs) + R) c1" by blast
    have e: "mset (map row_pair (str s')) + (mset (map row_pair xs) + R) = mset (map row_pair (str s)) + R" using more(4) by simp
    have "\<exists>c'. local_combine rd E chunk s' c1 = Some (Ret (Inr c')) \<and> comb_ok g E (mset (map row_pair (str s')) + (mset (map row_pair xs) + R)) c'"
      using less.prems(2,4,5) more(4,5) by (intro less.hyps [OF more(6,2) _ c1(2)]) (simp_all only: e, simp_all)
    then show ?thesis using more(1) c1(1) unfolding e by (subst local_combine.simps) simp
  next
    case (stop s' xs)
    from cmb [of xs "[]"] stop(4) obtain c1 where "combiner_Combine E c (map row_pair xs) = Some (Ret (c1, None))" "comb_ok g E (mset (map row_pair (str s)) + R) c1" by auto
    then show ?thesis using stop(1) less.prems(2) by (subst local_combine.simps) simp
  qed
qed

section \<open>Runs of tasks\<close>

text \<open>The partition of a row, for partitioners that assign each row by itself.\<close>

definition part_fun :: "('v list \<Rightarrow> 32 word) \<Rightarrow> 'v cpart option \<Rightarrow> int \<Rightarrow> 'v list \<Rightarrow> int" where
  "part_fun hash po np x = (case run_part hash po [x] np of Ret [p] \<Rightarrow> p | _ \<Rightarrow> 0)"

definition part_ok :: "('v list \<Rightarrow> 32 word) \<Rightarrow> 'v cpart option \<Rightarrow> int \<Rightarrow> bool" where
  "part_ok hash po np \<longleftrightarrow> 0 < np \<and> rowwise (run_part hash po) np (part_fun hash po np) \<and> (\<forall>x. 0 \<le> part_fun hash po np x \<and> part_fun hash po np x < np)"

lemma default_part_ok:
  assumes "0 < np" and "np < 2 ^ 32"
  shows "part_ok hash (Some DefaultPartitioner) np"
proof -
  have u: "uint (of_int np :: 32 word) = np" using assms by (simp add: unsigned_of_int take_bit_int_eq_self)
  then have nz: "of_int np \<noteq> (0 :: 32 word)" using assms(1) by auto
  have pf: "part_fun hash (Some DefaultPartitioner) np x = uint (hash x) mod np" for x
    using nz u by (simp add: part_fun_def run_part_def defaultPartitioner_def uint_mod_distrib)
  have "map_go (\<lambda>r. if of_int np = (0 :: 32 word) then Panic ''integer divide by zero'' else Ret (uint (hash r mod of_int np))) xs = Ret (map (\<lambda>x. uint (hash x) mod np) xs)" for xs
    using nz u by (induction xs) (simp_all add: uint_mod_distrib)
  then show ?thesis using assms(1) by (simp add: part_ok_def rowwise_def run_part_def defaultPartitioner_def pf)
qed

text \<open>Partition \<open>p\<close> of the output of a task: the abstract counterpart of a task buffer.\<close>

definition split_rows :: "('v list \<Rightarrow> 32 word) \<Rightarrow> 'v cpart option \<Rightarrow> int \<Rightarrow> 'v list list \<Rightarrow> nat \<Rightarrow> 'v list list" where
  "split_rows hash po np xs p = part_rows (part_fun hash po np) np xs p"

definition buffers_ok :: "('v list \<Rightarrow> 32 word) \<Rightarrow> (nat \<Rightarrow> 'v CTask) \<Rightarrow> (nat \<Rightarrow> 'v list list) \<Rightarrow> (nat \<Rightarrow> 'v list taskBuffer option) \<Rightarrow> bool" where
  "buffers_ok hash h T bufs \<longleftrightarrow> (\<forall>u b. bufs u = Some b \<longrightarrow>
     0 < ctNumPartition (h u) \<and> holds (part_fun hash (ctPartitioner (h u)) (ctNumPartition (h u))) (ctNumPartition (h u)) (T u) b)"

text \<open>
  What a combiner needs to work on the rows \<open>rws\<close>: an associative function, keys that fit the largest table,
  and rows of the right width; \<open>res\<close> are the rows it makes of them.
\<close>

definition combines :: "nat \<Rightarrow> ('v, 'u) comb_cfg \<Rightarrow> 'v list list \<Rightarrow> 'v list list \<Rightarrow> bool" where
  "combines chunk C rws res \<longleftrightarrow> (\<exists>g m c. env_ok g (cc_env C) \<and> cc_tmp C = None \<and> cc_init C = 2 ^ m \<and> m \<le> 29 \<and> 0 < cc_scratch C \<and>
     newCombiner (cc_ops C) (cc_env C) None (cc_init C) (cc_scratch C) (cc_type C) (chunk * 100) = Ret (Inr c) \<and>
     (\<forall>x\<in>set rws. Suc (length (fst (row_pair x))) = ce_ncol (cc_env C)) \<and> card (fst ` set (map row_pair rws)) \<le> maxKeys \<and>
     (\<forall>out. reduction (ce_less (cc_env C)) g (mset (map row_pair rws)) out \<longrightarrow> map row_list out = res))"

lemma newCombiner_ok:
  assumes "newCombiner ops E None (2 ^ m) ns t target = Ret (Inr c)" and "m \<le> 29" and "0 < ns"
  shows "comb_ok g E {#} c" and "NumOut t - Prefix t = 1"
proof -
  obtain cf where mk: "makeCombiningFrame (zero_row E) t (2 ^ m) ns = Ret cf" and c: "comb c = cf" "spiller c = []"
    using assms(1) by (auto simp: newCombiner_def go_bind_eq_Ret split: if_splits)
  show "NumOut t - Prefix t = 1" using mk by (simp add: makeCombiningFrame_def split: if_splits)
  show "comb_ok g E {#} c"
    unfolding comb_ok_def using makeCombiningFrame_ok [OF mk assms(2)] c assms(3) summary_empty [of g]
    by (intro exI [of _ m] exI [of _ "[]"] exI [of _ "{#}"] exI [of _ "[]"]) simp
qed

definition dep_combines :: "('v, 'u, 's) lenv \<Rightarrow> (nat \<Rightarrow> 'v CTask) \<Rightarrow> ('v sfunc \<Rightarrow> 'v list list list \<Rightarrow> 'v list list) \<Rightarrow> (nat \<Rightarrow> 'v list list) \<Rightarrow> TaskDep \<Rightarrow> bool" where
  "dep_combines L h cmb T d \<longleftrightarrow> (\<forall>u. dHead d = Some u \<and> \<not> sfunc_IsNil (ctCombiner (h u)) \<longrightarrow>
       (let q = map (\<lambda>u. task_out (split_rows (le_hash L)) h T u (dPartition d)) (dep_tasks h d)
        in combines (le_chunk L) (le_cc L u) (concat q) (cmb (ctCombiner (h u)) q)))"

definition dep_ready :: "('v, 'u, 's) lenv \<Rightarrow> (nat \<Rightarrow> 'v CTask) \<Rightarrow> ('v sfunc \<Rightarrow> 'v list list list \<Rightarrow> 'v list list) \<Rightarrow> (nat \<Rightarrow> 'v list list) \<Rightarrow> TaskDep \<Rightarrow> bool" where
  "dep_ready L h cmb T d \<longleftrightarrow> (\<forall>u\<in>set (dep_tasks h d). dPartition d < nat (ctNumPartition (h u))) \<and> dep_combines L h cmb T d"

lemma map_go_map: "map_go f (map g xs) = map_go (\<lambda>x. f (g x)) xs"
  by (induction xs) simp_all

lemma dep_queue:
  assumes "buffers_ok hash h T bufs" and "\<forall>u\<in>set (dep_tasks h d). bufs u \<noteq> None \<and> dPartition d < nat (ctNumPartition (h u))"
  shows "\<exists>q. map_go (\<lambda>j. go_bind (dep_Task h d j) (\<lambda>u. case u of None \<Rightarrow> Panic ''nil pointer dereference'' | Some u \<Rightarrow> local_Reader bufs u (dPartition d)))
      [0 ..< NumTask h d] = Ret q \<and> (\<forall>r\<in>set q. lr_ok r \<and> lr_fin r = EOF) \<and>
    map lr_rows q = map (\<lambda>u. task_out (split_rows hash) h T u (dPartition d)) (dep_tasks h d)"
proof -
  let ?f = "\<lambda>r. go_bind r (\<lambda>u. case u of None \<Rightarrow> Panic ''nil pointer dereference'' | Some u \<Rightarrow> local_Reader bufs u (dPartition d))"
  have rd: "\<exists>r. local_Reader bufs u (dPartition d) = Ret r \<and> lr_ok r \<and> lr_fin r = EOF \<and> lr_rows r = task_out (split_rows hash) h T u (dPartition d)"
    if "u \<in> set (dep_tasks h d)" for u
  proof -
    from assms(2) that obtain b where b: "bufs u = Some b" "dPartition d < nat (ctNumPartition (h u))" by auto
    from assms(1) b(1) have "0 < ctNumPartition (h u)" "holds (part_fun hash (ctPartitioner (h u)) (ctNumPartition (h u))) (ctNumPartition (h u)) (T u) b"
      by (auto simp: buffers_ok_def)
    from holds_Reader [OF this(2,1) b(2)] b(1) show ?thesis by (auto simp: local_Reader_def task_out_def split_rows_def)
  qed
  have "\<exists>q. map_go ?f (map Ret (map Some us)) = Ret q \<and> (\<forall>r\<in>set q. lr_ok r \<and> lr_fin r = EOF) \<and>
      map lr_rows q = map (\<lambda>u. task_out (split_rows hash) h T u (dPartition d)) us" if "set us \<subseteq> set (dep_tasks h d)" for us
    using that
  proof (induction us)
    case (Cons u us)
    then show ?case using rd [of u] by auto
  qed simp
  from this [of "dep_tasks h d"] show ?thesis unfolding dep_tasks_Task by (simp add: map_go_map)
qed

lemma dep_reader_ok:
  assumes bo: "buffers_ok (le_hash L) h T bufs" and "\<forall>u\<in>set (dep_tasks h d). bufs u \<noteq> None" and dr: "dep_ready L h cmb T d" and "0 < le_chunk L"
  shows "\<exists>rs. dep_reader h (le_cc L) (le_chunk L) bufs d = Some (Ret (Inr rs)) \<and> (\<forall>r\<in>set rs. dr_ok r \<and> dr_fin r = EOF) \<and>
    map dr_rows rs = dep_inputs h (task_out (split_rows (le_hash L)) h T) concat cmb d"
proof -
  let ?out = "\<lambda>u. task_out (split_rows (le_hash L)) h T u (dPartition d)"
  from dep_queue [OF bo, of d] assms(2) dr obtain q where q: "map_go (\<lambda>j. go_bind (dep_Task h d j) (\<lambda>u. case u of None \<Rightarrow> Panic ''nil pointer dereference''
      | Some u \<Rightarrow> local_Reader bufs u (dPartition d))) [0 ..< NumTask h d] = Ret q" "\<forall>r\<in>set q. lr_ok r \<and> lr_fin r = EOF"
    "map lr_rows q = map ?out (dep_tasks h d)" by (auto simp: dep_ready_def)
  note cat = cat_concat [of q lr_fin lr_rows]
  define rs :: "('a, 'b) dreader list" where "rs = (if dExpand d then map DOne q else [DMulti \<lparr>lq = q, lerr = None\<rparr>])"
  have plain: "\<forall>r\<in>set rs. dr_ok r \<and> dr_fin r = EOF" "map dr_rows rs = (if dExpand d then map ?out (dep_tasks h d) else [concat (map ?out (dep_tasks h d))])"
    using q(2,3) cat by (auto simp: rs_def comp_def)
  show ?thesis
  proof (cases "dHead d")
    case None
    then have "dep_tasks h d = []" by (simp add: dep_tasks_def)
    then show ?thesis using None plain q(1) by (intro exI [of _ rs]) (simp add: dep_reader_def dep_inputs_def Let_def rs_def [symmetric])
  next
    case (Some t0)
    then have hd: "dep_tasks h d \<noteq> []" "hd (dep_tasks h d) = t0" by (simp_all add: dep_tasks_def)
    show ?thesis
    proof (cases "sfunc_IsNil (ctCombiner (h t0))")
      case True
      then show ?thesis using plain q(1) Some hd by (intro exI [of _ rs]) (simp add: dep_reader_def dep_inputs_def Let_def rs_def [symmetric])
    next
      case False
      define C where "C = le_cc L t0"
      define rws where "rws = concat (map ?out (dep_tasks h d))"
      from dr Some False obtain g m c where c: "env_ok g (cc_env C)" "cc_tmp C = None" "cc_init C = 2 ^ m" "m \<le> 29" "0 < cc_scratch C"
        "newCombiner (cc_ops C) (cc_env C) None (cc_init C) (cc_scratch C) (cc_type C) (le_chunk L * 100) = Ret (Inr c)"
        "\<forall>x\<in>set rws. Suc (length (fst (row_pair x))) = ce_ncol (cc_env C)" "card (fst ` set (map row_pair rws)) \<le> maxKeys"
        "\<And>out. reduction (ce_less (cc_env C)) g (mset (map row_pair rws)) out \<Longrightarrow> map row_list out = cmb (ctCombiner (h t0)) (map ?out (dep_tasks h d))"
        unfolding dep_ready_def dep_combines_def combines_def C_def rws_def Let_def by blast
      note nc = newCombiner_ok [OF c(6) [unfolded c(3)] c(4,5)]
      have str: "cat_str lr_rows lr_fin (map Some q) = rws" "cat_fin lr_fin (map Some q) = EOF" using cat q(2,3) by (simp_all add: rws_def)
      obtain c1 where c1: "local_combine (lmulti_Read lread) (cc_env C) (le_chunk L) \<lparr>lq = q, lerr = None\<rparr> c = Some (Ret (Inr c1))"
        "comb_ok g (cc_env C) (mset (map row_pair rws)) c1"
        using local_combine_ok [OF multi_law c(1) assms(4), of "\<lparr>lq = q, lerr = None\<rparr>" "{#}" c] nc(1) [of g] c(7,8) q(2) str by auto
      obtain c2 r where r: "combiner_Reader (cc_env C) (cc_type C) c1 = Ret (c2, r)" "reduce_ok (run_ok (cc_env C)) (run_rows (cc_env C)) (\<lambda>_. EOF) (ce_less (cc_env C)) r"
        "reduction (ce_less (cc_env C)) g (mset (map row_pair rws)) (comb_str (cc_env C) r)" using combiner_Reader_ok [OF c(1) c1(2) nc(2)] by blast
      have "dep_reader h (le_cc L) (le_chunk L) bufs d = Some (Ret (Inr [DComb (cc_env C) r]))"
        using Some False q(1) c(2,6) c1(1) r(1) by (simp add: dep_reader_def C_def Let_def)
      then show ?thesis using False hd c(1) c(9) [OF r(3)] r(2) by (auto simp: dep_inputs_def Let_def)
    qed
  qed
qed

lemma depReaders_ok:
  assumes "buffers_ok (le_hash L) h T bufs" and "0 < le_chunk L"
  shows "\<forall>d\<in>set ds. (\<forall>u\<in>set (dep_tasks h d). bufs u \<noteq> None) \<and> dep_ready L h cmb T d \<Longrightarrow>
    \<exists>rs. depReaders h (le_cc L) (le_chunk L) bufs ds = Some (Ret (Inr rs)) \<and> (\<forall>r\<in>set rs. dr_ok r \<and> dr_fin r = EOF) \<and>
      map dr_rows rs = concat (map (dep_inputs h (task_out (split_rows (le_hash L)) h T) concat cmb) ds)"
proof (induction ds)
  case (Cons d ds)
  then obtain rs where rs: "depReaders h (le_cc L) (le_chunk L) bufs ds = Some (Ret (Inr rs))" "\<forall>r\<in>set rs. dr_ok r \<and> dr_fin r = EOF"
    "map dr_rows rs = concat (map (dep_inputs h (task_out (split_rows (le_hash L)) h T) concat cmb) ds)" by auto
  from Cons.prems dep_reader_ok [OF assms(1) _ _ assms(2), of d cmb] obtain rs1 where "dep_reader h (le_cc L) (le_chunk L) bufs d = Some (Ret (Inr rs1))"
    "\<forall>r\<in>set rs1. dr_ok r \<and> dr_fin r = EOF" "map dr_rows rs1 = dep_inputs h (task_out (split_rows (le_hash L)) h T) concat cmb d" by auto
  then show ?case using rs by (intro exI [of _ "rs1 @ rs"]) auto
qed simp

text \<open>
  The closures of tasks implement their meaning: given readers of its inputs, the closure \<open>d\<close> makes a reader
  of what \<open>run_do\<close> makes of the inputs.
\<close>

definition do_ok :: "('v, 'u, 's) lenv \<Rightarrow> (nat \<Rightarrow> nat \<Rightarrow> 'v list list list \<Rightarrow> 'v list list go) \<Rightarrow> (nat \<Rightarrow> nat \<Rightarrow> 'v list list go) \<Rightarrow> bool" where
  "do_ok L rdr cache \<longleftrightarrow> (\<exists>ok str fin mu. slice_reader (le_rd L) ok str fin mu \<and>
     (\<forall>d rs xs. (\<forall>r\<in>set rs. dr_ok r \<and> dr_fin r = EOF) \<and> run_do rdr cache (\<lambda>_ _ x. x) d (map dr_rows rs) = Ret xs \<longrightarrow>
       (\<exists>s. le_do L d rs = Ret s \<and> ok s \<and> str s = xs \<and> fin s = EOF)))"

text \<open>A task that can be run: its dependencies, its partitioner, and its closure, which yields \<open>T t\<close> from the values of its dependencies.\<close>

definition task_ready where
  "task_ready L h rdr cache cmb T t \<longleftrightarrow> 0 < le_chunk L \<and> 0 < le_numOut L (ctType (h t)) \<and>
     part_ok (le_hash L) (ctPartitioner (h t)) (ctNumPartition (h t)) \<and> (\<forall>d\<in>set (tDeps (h t)). dep_ready L h cmb T d) \<and>
     (\<exists>d. ctDo (h t) = Some d \<and>
       run_do rdr cache (\<lambda>_ _ x. x) d (concat (map (dep_inputs h (task_out (split_rows (le_hash L)) h T) concat cmb) (tDeps (h t)))) = Ret (T t))"

lemma local_Run_ok:
  assumes dok: "do_ok L rdr cache" and tr: "task_ready L h rdr cache cmb T t" and bo: "buffers_ok (le_hash L) h T (leBuffers l)"
    and dp: "\<forall>u\<in>set (succs h t). leBuffers l u \<noteq> None"
  shows "\<exists>l' b. local_Run L h t l = Some (Ret l') \<and> leBuffers l' = (leBuffers l)(t \<mapsto> b) \<and> buffers_ok (le_hash L) h T (leBuffers l') \<and>
    rtState (rts (leTasks l') t) = TaskOk \<and> (\<forall>u. u \<noteq> t \<longrightarrow> rts (leTasks l') u = rts (leTasks l) u)"
proof -
  let ?np = "ctNumPartition (h t)" and ?pf = "part_fun (le_hash L) (ctPartitioner (h t)) (ctNumPartition (h t))"
  from tr obtain d where d: "0 < le_chunk L" "0 < le_numOut L (ctType (h t))" "part_ok (le_hash L) (ctPartitioner (h t)) ?np" "\<forall>d\<in>set (tDeps (h t)). dep_ready L h cmb T d"
    "ctDo (h t) = Some d" "run_do rdr cache (\<lambda>_ _ x. x) d (concat (map (dep_inputs h (task_out (split_rows (le_hash L)) h T) concat cmb) (tDeps (h t)))) = Ret (T t)"
    unfolding task_ready_def by blast
  obtain rs where rs: "depReaders h (le_cc L) (le_chunk L) (leBuffers l) (tDeps (h t)) = Some (Ret (Inr rs))" "\<forall>r\<in>set rs. dr_ok r \<and> dr_fin r = EOF"
    "map dr_rows rs = concat (map (dep_inputs h (task_out (split_rows (le_hash L)) h T) concat cmb) (tDeps (h t)))"
    using depReaders_ok [OF bo d(1), of "tDeps (h t)" cmb] d(4) dp by (auto simp: succs_def)
  from dok rs d(6) obtain ok str fin mu s where s: "slice_reader (le_rd L) ok str fin mu" "le_do L d rs = Ret s" "ok s" "str s = T t" "fin s = EOF"
    unfolding do_ok_def by metis
  from d(3) have p: "rowwise (run_part (le_hash L) (ctPartitioner (h t))) ?np ?pf" "0 < ?np" "\<forall>x\<in>set (str s). 0 \<le> ?pf x \<and> ?pf x < ?np" by (auto simp: part_ok_def)
  from bufferOutput_holds [OF s(1) d(1) p(1,2) s(3) p(3) s(5) d(2)] s(4) obtain b where
    b: "bufferOutput (le_numOut L (ctType (h t))) (le_rd L) (run_part (le_hash L) (ctPartitioner (h t))) ?np (le_chunk L) s = Some (Ret (b, None))" "holds ?pf ?np (T t) b" by auto
  have "local_Run L h t l = Some (Ret \<lparr>leTasks = set_result t TaskOk None (task_Set t TaskRunning (leTasks l)), leBuffers = (leBuffers l)(t \<mapsto> b)\<rparr>)"
    using rs(1) d(5) s(2) b(1) by (simp add: local_Run_def Let_def)
  then show ?thesis using bo b(2) p(2) by (auto simp: set_result_def task_Set_def buffers_ok_def)
qed

text \<open>A task without partitions cannot store a row.\<close>

lemma bo_loop_none:
  assumes rd: "slice_reader rd ok str fin mu" and "0 < chunk" and "ok s" and "str s \<noteq> []" and "fin s = EOF"
  shows "\<exists>msg. bo_loop rd part 0 chunk s [] = Some (Panic msg)"
  using assms(3-)
proof (induction "mu s" arbitrary: s rule: less_induct)
  case less
  have none: "bo_frame part 0 chunk xs [] = (if xs = [] then Ret [] else Panic ''index out of range'')" for xs by (simp add: bo_frame_def list_index_def)
  from slice_reader.read_cases [OF rd less.prems(1) assms(2), case_names more stop] show ?case
  proof cases
    case (more s' xs)
    then show ?thesis using less.hyps [OF more(6,2)] less.prems(2,3) none [of xs] by (subst bo_loop.simps) auto
  next
    case (stop s' xs)
    then show ?thesis using less.prems(2,3) none [of xs] by (subst bo_loop.simps) auto
  qed
qed

lemma local_Run_none:
  assumes dok: "do_ok L rdr cache" and bo: "buffers_ok (le_hash L) h T (leBuffers l)" and "0 < le_chunk L" and "0 < le_numOut L (ctType (h t))"
    and dp: "\<forall>d\<in>set (tDeps (h t)). (\<forall>u\<in>set (dep_tasks h d). leBuffers l u \<noteq> None) \<and> dep_ready L h cmb T d" and "ctNumPartition (h t) = 0"
    and "ctDo (h t) = Some d" and "run_do rdr cache (\<lambda>_ _ x. x) d (concat (map (dep_inputs h (task_out (split_rows (le_hash L)) h T) concat cmb) (tDeps (h t)))) = Ret xs"
    and "xs \<noteq> []" and fatal: "\<forall>msg. le_fatal L (ErrE [AFatal] (Some (ErrNew msg)))"
  shows "\<exists>l'. local_Run L h t l = Some (Ret l') \<and> rtState (rts (leTasks l') t) = TaskErr \<and> leBuffers l' = leBuffers l"
proof -
  obtain rs where rs: "depReaders h (le_cc L) (le_chunk L) (leBuffers l) (tDeps (h t)) = Some (Ret (Inr rs))" "\<forall>r\<in>set rs. dr_ok r \<and> dr_fin r = EOF"
    "map dr_rows rs = concat (map (dep_inputs h (task_out (split_rows (le_hash L)) h T) concat cmb) (tDeps (h t)))"
    using depReaders_ok [OF bo assms(3) dp] by blast
  from dok rs assms(8) obtain ok str fin mu s where s: "slice_reader (le_rd L) ok str fin mu" "le_do L d rs = Ret s" "ok s" "str s = xs" "fin s = EOF"
    unfolding do_ok_def by metis
  from bo_loop_none [OF s(1) assms(3) s(3) _ s(5)] s(4) assms(9) obtain msg where
    "bo_loop (le_rd L) (run_part (le_hash L) (ctPartitioner (h t))) 0 (le_chunk L) s [] = Some (Panic msg)" by blast
  then show ?thesis using rs(1) s(2) assms(4,6,7) fatal by (simp add: local_Run_def bufferOutput_def set_result_def Let_def)
qed

lemma local_Discard_ok:
  assumes "buffers_ok hash h T (leBuffers l)"
  shows "buffers_ok hash h T (leBuffers (local_Discard h t l))"
  using assms by (auto simp: local_Discard_def buffers_ok_def)

text \<open>
  The life of the executor: a task of \<open>A\<close> is run when the outputs it depends on are there, and any output can
  be discarded in between.  A run is one step.  In the code runs overlap, but they share only the map \<open>buffers\<close>, and a run
  looks up the buffers of its dependencies when it starts and stores its own output when it ends.  A run that starts after
  one of its dependencies was discarded is given a reader that fails for it; such a run is not a step here.
\<close>

inductive local_step :: "('v, 'u, 's) lenv \<Rightarrow> (nat \<Rightarrow> 'v CTask) \<Rightarrow> nat set \<Rightarrow> 'v localExecutor \<Rightarrow> 'v localExecutor \<Rightarrow> bool" for L h A where
  run: "t \<in> A \<Longrightarrow> \<forall>u\<in>set (succs h t). leBuffers l u \<noteq> None \<Longrightarrow> local_Run L h t l = Some (Ret l') \<Longrightarrow> local_step L h A l l'"
| discard: "local_step L h A l (local_Discard h t l)"

lemma local_steps_ok:
  assumes "do_ok L rdr cache" and "\<forall>t\<in>A. task_ready L h rdr cache cmb T t" and "(local_step L h A)\<^sup>*\<^sup>* l0 l" and "buffers_ok (le_hash L) h T (leBuffers l0)"
  shows "buffers_ok (le_hash L) h T (leBuffers l)"
  using assms(3,4)
proof (induction rule: rtranclp_induct)
  case (step l l')
  from step(2) show ?case
  proof cases
    case (run t)
    with local_Run_ok [OF assms(1) _ step.IH [OF step.prems] run(2)] assms(2) show ?thesis by fastforce
  next
    case (discard t)
    then show ?thesis using local_Discard_ok step by simp
  qed
qed

lemma local_Reader_rows:
  assumes "buffers_ok hash h T bufs" and "bufs t = Some b" and "p < nat (ctNumPartition (h t))" and "0 < n"
  shows "\<exists>r r'. local_Reader bufs t p = Ret r \<and> ReadAll lread n r [] = Some (Ret (r', task_out (split_rows hash) h T t p, None))"
proof -
  have "0 < ctNumPartition (h t)" "holds (part_fun hash (ctPartitioner (h t)) (ctNumPartition (h t))) (ctNumPartition (h t)) (T t) b"
    using assms(1,2) by (auto simp: buffers_ok_def)
  from holds_Reader [OF this(2,1) assms(3)] obtain r where r: "tb_Reader b p = Ret r" "lr_ok r" "lr_rows r = task_out (split_rows hash) h T t p" "lr_fin r = EOF"
    by (auto simp: task_out_def split_rows_def)
  from lrd.readall_loop_spec [OF r(2) assms(4), of "[]"] r assms(2) show ?thesis unfolding ReadAll_def local_Reader_def by fastforce
qed

text \<open>
  C4.  The local executor refines the abstract executor that only keeps the meaning \<open>T\<close> of each task.  In
  every state that runs and discards lead to, a task whose dependencies have outputs can be run: the run
  returns, without a panic, the task is \<open>TaskOk\<close> and no other task changes; and the reader of any
  partition of any output delivers exactly that partition of \<open>T\<close>, for every size of frames.  Dependencies
  are read in turn, one by one (\<open>Expand\<close>), or through a combiner.
\<close>

theorem local_executor_refines:
  assumes "do_ok L rdr cache" and "\<forall>t\<in>A. task_ready L h rdr cache cmb T t" and "(local_step L h A)\<^sup>*\<^sup>* l0 l" and "buffers_ok (le_hash L) h T (leBuffers l0)"
  shows "(t \<in> A \<and> (\<forall>u\<in>set (succs h t). leBuffers l u \<noteq> None) \<longrightarrow>
      (\<exists>l'. local_Run L h t l = Some (Ret l') \<and> rtState (rts (leTasks l') t) = TaskOk \<and> dom (leBuffers l') = insert t (dom (leBuffers l)) \<and>
        (\<forall>u. u \<noteq> t \<longrightarrow> rts (leTasks l') u = rts (leTasks l) u))) \<and>
    (leBuffers l t \<noteq> None \<and> p < nat (ctNumPartition (h t)) \<and> 0 < n \<longrightarrow>
      (\<exists>r r'. local_Reader (leBuffers l) t p = Ret r \<and> ReadAll lread n r [] = Some (Ret (r', task_out (split_rows (le_hash L)) h T t p, None))))"
proof -
  note bo = local_steps_ok [OF assms]
  show ?thesis using local_Run_ok [OF assms(1) _ bo, of cmb t] assms(2) local_Reader_rows [OF bo, of t _ p n] by fastforce
qed

text \<open>A finite set of tasks without cycles can be run to the end.\<close>

lemma local_complete:
  assumes dok: "do_ok L rdr cache" and tr: "\<forall>t\<in>A. task_ready L h rdr cache cmb T t" and "finite A"
    and rk: "\<forall>t\<in>A. \<forall>u\<in>set (succs h t). u \<in> A \<and> rk u < (rk t :: nat) \<or> leBuffers l0 u \<noteq> None"
    and "buffers_ok (le_hash L) h T (leBuffers l0)"
  shows "\<exists>l. (local_step L h A)\<^sup>*\<^sup>* l0 l \<and> (\<forall>t\<in>A \<union> dom (leBuffers l0). leBuffers l t \<noteq> None)"
  using assms(4,5)
proof (induction "card {t\<in>A. leBuffers l0 t = None}" arbitrary: l0 rule: less_induct)
  case less
  let ?M = "{t\<in>A. leBuffers l0 t = None}"
  show ?case
  proof (cases "?M = {}")
    case True
    then have "\<forall>t\<in>A \<union> dom (leBuffers l0). leBuffers l0 t \<noteq> None" by auto
    then show ?thesis by (intro exI [of _ l0]) simp
  next
    case False
    then obtain x where "x \<in> ?M" unfolding ex_in_conv [symmetric] by (rule exE)
    from ex_has_least_nat [of "\<lambda>t. t \<in> ?M", OF this, of rk] obtain t where t: "t \<in> ?M" "\<forall>u. u \<in> ?M \<longrightarrow> rk t \<le> rk u" by (elim exE conjE)
    have dp: "\<forall>u\<in>set (succs h t). leBuffers l0 u \<noteq> None"
    proof (intro ballI notI)
      fix u assume u: "u \<in> set (succs h t)" "leBuffers l0 u = None"
      then have "u \<in> A" "rk u < rk t" using less.prems(1) [rule_format, of t u] t(1) by auto
      then show False using t(2) [rule_format, of u] u(2) by simp
    qed
    from local_Run_ok [OF dok _ less.prems(2) dp] tr t(1) obtain l1 b where l1: "local_Run L h t l0 = Some (Ret l1)" "leBuffers l1 = (leBuffers l0)(t \<mapsto> b)"
      "buffers_ok (le_hash L) h T (leBuffers l1)" by blast
    have "{u\<in>A. leBuffers l1 u = None} = ?M - {t}" using l1(2) by auto
    then have "card {u\<in>A. leBuffers l1 u = None} < card ?M" using card_Diff1_less [OF _ t(1)] assms(3) by simp
    moreover have "\<forall>x\<in>A. \<forall>u\<in>set (succs h x). u \<in> A \<and> rk u < rk x \<or> leBuffers l1 u \<noteq> None"
    proof (intro ballI)
      fix x u assume "x \<in> A" "u \<in> set (succs h x)"
      then show "u \<in> A \<and> rk u < rk x \<or> leBuffers l1 u \<noteq> None" using less.prems(1) [rule_format, of x u] l1(2) by auto
    qed
    ultimately have "\<exists>l. (local_step L h A)\<^sup>*\<^sup>* l1 l \<and> (\<forall>t\<in>A \<union> dom (leBuffers l1). leBuffers l t \<noteq> None)" by (rule less.hyps [OF _ _ l1(3)])
    then obtain l where l: "(local_step L h A)\<^sup>*\<^sup>* l1 l" "\<forall>t\<in>A \<union> dom (leBuffers l1). leBuffers l t \<noteq> None" by (elim exE conjE)
    have "local_step L h A l0 l1" using t(1) dp l1(1) by (intro local_step.run) auto
    from converse_rtranclp_into_rtranclp [of "local_step L h A", OF this l(1)] show ?thesis
      using l(2) l1(2) by (intro exI [of _ l]) auto
  qed
qed

section \<open>Examples\<close>

lemma reduction_eq:
  assumes r: "reduction (<) g (mset xs) out" and "map fst out = ks" and "\<And>k v. k \<in> set ks \<Longrightarrow> combined_from g (values_of (mset xs) k) v \<Longrightarrow> v = f k"
  shows "out = map (\<lambda>k. (k, f k)) ks"
proof -
  have "snd p = f (fst p)" if "p \<in> set out" for p using that r assms(2,3) by (fastforce simp: reduction_def)
  then have "out = map (\<lambda>p. (fst p, f (fst p))) out" by (intro map_idI [symmetric]) (metis prod.collapse)
  also have "\<dots> = map (\<lambda>k. (k, f k)) (map fst out)" by simp
  finally show ?thesis unfolding assms(2) .
qed

lemma combined_sum: "combined_from (+) V v \<Longrightarrow> v = sum_mset (V :: int multiset)"
proof -
  have "foldl (+) w ws = w + sum_list ws" for w :: int and ws by (induction ws arbitrary: w) simp_all
  then show "combined_from (+) V v \<Longrightarrow> v = sum_mset V" by (auto simp: combined_from_def sum_mset_sum_list)
qed

lemma sum_reduction:
  fixes xs :: "(int list \<times> int) list"
  assumes "reduction (<) (+) (mset xs) out"
  shows "out = map (\<lambda>k. (k, sum_mset (values_of (mset xs) k))) (sorted_list_of_set (fst ` set xs))"
proof (rule reduction_eq [OF assms])
  show "map fst out = sorted_list_of_set (fst ` set xs)"
    using assms by (auto simp: reduction_def strict_sorted_equal)
qed (rule combined_sum)

text \<open>Readers that hold the rows they are to deliver.\<close>

definition ex_lenv :: "(nat \<Rightarrow> nat \<Rightarrow> int list list list \<Rightarrow> int list list go) \<Rightarrow> (nat \<Rightarrow> nat \<Rightarrow> int list list go) \<Rightarrow> (int, unit, int list list) lenv" where
  "ex_lenv rdr cache = \<lparr>le_fatal = (\<lambda>e. case e of ErrE (AFatal # _) _ \<Rightarrow> True | _ \<Rightarrow> False),
     le_cc = (\<lambda>_. \<lparr>cc_ops = (\<lambda>_. Some (no_ops\<lparr>Less_op := Some (<)\<rparr>)), cc_env = int_env, cc_tmp = None, cc_init = 2 ^ 1, cc_scratch = 2,
       cc_type = TypeSlice [TBasic ''int'', TBasic ''int'']\<rparr>),
     le_chunk = 2, le_numOut = (\<lambda>_. 2), le_do = (\<lambda>d rs. run_do rdr cache (\<lambda>_ _ x. x) d (map dr_rows rs)), le_rd = frame_Read, le_hash = (\<lambda>r. of_int (hd r))\<rparr>"

lemma ex_do_ok: "do_ok (ex_lenv rdr cache) rdr cache"
  unfolding do_ok_def using frd.slice_reader_axioms by (fastforce simp: ex_lenv_def)

text \<open>A task whose output is combined for another one.\<close>

definition ex_heap :: "nat \<Rightarrow> int CTask" where
  "ex_heap t = (if t = 0 then (blank 0)\<lparr>ctDo := Some (DoCache 0 0), ctPartitioner := Some DefaultPartitioner, ctNumPartition := 1, ctCombiner := sfunc_Nil\<lparr>fn := Some Ret\<rparr>\<rparr>
     else (blank t)\<lparr>ctDo := Some DoFirst, tDeps := [\<lparr>dHead = Some 0, dPartition = 0, dExpand = False, dCombineKey = []\<rparr>],
       ctPartitioner := Some DefaultPartitioner, ctNumPartition := 1\<rparr>)"

definition ex_cache :: "nat \<Rightarrow> nat \<Rightarrow> int list list go" where
  "ex_cache s i = Ret [[1, 10], [5, 2], [1, 5]]"

definition ex_cmb :: "int sfunc \<Rightarrow> int list list list \<Rightarrow> int list list" where
  "ex_cmb f q = map (\<lambda>k. row_list (k, sum_mset (values_of (mset (map row_pair (concat q))) k))) (sorted_list_of_set (fst ` set (map row_pair (concat q))))"

definition ex_T :: "nat \<Rightarrow> int list list" where
  "ex_T t = (if t = 0 then [[1, 10], [5, 2], [1, 5]] else [[1, 15], [5, 2]])"

lemma ex_combines: "combines 2 (le_cc (ex_lenv rdr cache) u) [[1, 10], [5, 2], [1, 5]] (ex_cmb f [[[1, 10], [5, 2], [1, 5]]])"
proof -
  have "\<exists>c. newCombiner (\<lambda>_. Some (no_ops\<lparr>Less_op := Some (<)\<rparr>)) int_env None (2 ^ 1) 2 (TypeSlice [TBasic ''int'', TBasic ''int'']) (2 * 100) = Ret (Inr c)"
    by (simp add: newCombiner_def makeCombiningFrame_def cf_make_def CanCompare_def makeSliceOps_def list_index_def no_ops_def)
  moreover have "map row_list out = ex_cmb f [[[1, 10], [5, 2], [1, 5]]]" if "reduction (<) (+) (mset (map row_pair [[1, 10], [5, 2], [1, 5]])) out" for out
    using sum_reduction [OF that] by (simp add: ex_cmb_def)
  ultimately show ?thesis
    unfolding combines_def
    by (intro exI [of _ "(+)"] exI [of _ 1]) (auto simp: ex_lenv_def int_env_ok [unfolded int_env_def] int_env_def row_pair_def maxKeys_def hashMaxCapacity_def card_insert_if)
qed

lemma ex_task_ready: "task_ready (ex_lenv (\<lambda>_ _ _. Panic '''') ex_cache) ex_heap (\<lambda>_ _ _. Panic '''') ex_cache ex_cmb ex_T t"
proof -
  let ?L = "ex_lenv (\<lambda>_ _ _. Panic '''') ex_cache"
  let ?d = "\<lparr>dHead = Some 0, dPartition = 0, dExpand = False, dCombineKey = []\<rparr>"
  have p: "part_ok (le_hash ?L) (Some DefaultPartitioner) 1" by (rule default_part_ok) simp_all
  have o: "task_out (split_rows (le_hash ?L)) ex_heap ex_T 0 0 = [[1, 10], [5, 2], [1, 5]]"
    by (simp add: task_out_def split_rows_def part_rows_def ex_heap_def ex_T_def)
  have dt: "dep_tasks ex_heap ?d = [0]" by (simp add: dep_tasks_def ex_heap_def blank_def)
  have n: "\<not> sfunc_IsNil (ctCombiner (ex_heap 0))" "ctNumPartition (ex_heap 0) = 1" by (simp_all add: ex_heap_def sfunc_IsNil_def sfunc_Nil_def)
  have "sorted_list_of_set (set [[1], [5 :: int]]) = [[1], [5]]" by (rule sorted_list_of_set.idem_if_sorted_distinct) simp_all
  moreover have "fst ` set (map row_pair [[1, 10], [5, 2], [1, 5]]) = set [[1], [5 :: int]]" by (auto simp: row_pair_def)
  ultimately have c: "ex_cmb f [[[1, 10], [5, 2], [1, 5]]] = [[1, 15], [5, 2]]" for f
    by (simp add: ex_cmb_def row_list_def values_of_def) (simp add: row_pair_def)
  have d: "dep_ready ?L ex_heap ex_cmb ex_T ?d" "dep_inputs ex_heap (task_out (split_rows (le_hash ?L)) ex_heap ex_T) concat ex_cmb ?d = [[[1, 15], [5, 2]]]"
    using n ex_combines [of _ _ 0] by (simp_all add: dep_ready_def dep_combines_def dep_inputs_def dt o c) (simp add: ex_lenv_def)
  show ?thesis
  proof (cases "t = 0")
    case True
    then show ?thesis using p by (simp add: task_ready_def ex_heap_def ex_lenv_def blank_def ex_cache_def ex_T_def)
  next
    case False
    have f: "ctDo (ex_heap t) = Some DoFirst" "tDeps (ex_heap t) = [?d]" "ctPartitioner (ex_heap t) = Some DefaultPartitioner" "ctNumPartition (ex_heap t) = 1"
      using False by (simp_all add: ex_heap_def)
    show ?thesis using p d False unfolding task_ready_def f by (simp add: ex_T_def) (simp add: ex_lenv_def)
  qed
qed

definition idle :: "'v localExecutor" where
  "idle = \<lparr>leTasks = idle_store, leBuffers = (\<lambda>_. None)\<rparr>"

theorem local_executor_refines_witness:
  "\<exists>l r r'. (local_step (ex_lenv (\<lambda>_ _ _. Panic '''') ex_cache) ex_heap {0, 1})\<^sup>*\<^sup>* idle l \<and>
     local_Reader (leBuffers l) 1 0 = Ret r \<and> ReadAll lread 1 r [] = Some (Ret (r', [[1, 15], [5, 2]], None))"
proof -
  let ?L = "ex_lenv (\<lambda>_ _ _. Panic '''') ex_cache"
  have b: "buffers_ok (le_hash ?L) ex_heap ex_T (leBuffers idle)" by (simp add: buffers_ok_def idle_def)
  have tr: "\<forall>t\<in>{0, 1}. task_ready ?L ex_heap (\<lambda>_ _ _. Panic '''') ex_cache ex_cmb ex_T t" using ex_task_ready by blast
  have "\<forall>t\<in>{0, 1}. \<forall>u\<in>set (succs ex_heap t). u \<in> {0, 1} \<and> u < t \<or> leBuffers idle u \<noteq> None"
    by (auto simp: succs_def dep_tasks_def ex_heap_def blank_def)
  from local_complete [OF ex_do_ok tr _ this b] obtain l where l: "(local_step ?L ex_heap {0, 1})\<^sup>*\<^sup>* idle l" "\<forall>t\<in>{0, 1}. leBuffers l t \<noteq> None" by auto
  have "task_out (split_rows (le_hash ?L)) ex_heap ex_T 1 0 = [[1, 15], [5, 2]]"
    by (simp add: task_out_def split_rows_def part_rows_def ex_heap_def ex_T_def)
  moreover have "ctNumPartition (ex_heap 1) = 1" by (simp add: ex_heap_def)
  ultimately show ?thesis using local_executor_refines [OF ex_do_ok tr l(1) b, of 1 0 1] l by auto
qed

theorem bufferOutput_roundtrip_witness:
  "\<exists>b r r'. bufferOutput 1 frame_Read (run_part (\<lambda>r. of_int (hd r)) (Some DefaultPartitioner)) 2 2 [[4], [1], [2 :: int]] = Some (Ret (b, None)) \<and>
     tb_Reader b 0 = Ret r \<and> ReadAll lread 1 r [] = Some (Ret (r', [[4], [2]], None))"
proof -
  have po: "part_ok (\<lambda>r. of_int (hd r)) (Some (DefaultPartitioner :: int cpart)) 2" by (rule default_part_ok) simp_all
  let ?pf = "part_fun (\<lambda>r. of_int (hd r)) (Some (DefaultPartitioner :: int cpart)) 2"
  have "part_rows ?pf 2 [[4], [1], [2]] 0 = [[4], [2]]" by (simp add: part_rows_def part_fun_def run_part_def defaultPartitioner_def)
  moreover have "rowwise (run_part (\<lambda>r. of_int (hd r)) (Some (DefaultPartitioner :: int cpart))) 2 ?pf" "\<forall>x. 0 \<le> ?pf x \<and> ?pf x < 2" using po by (simp_all add: part_ok_def)
  ultimately show ?thesis using bufferOutput_roundtrip [OF frd.slice_reader_axioms, of 2 _ 2 ?pf "[[4], [1], [2]]" 1 1] by fastforce
qed

end
