(* ===== verification/Worker.thy ===== *)
theory Worker
  imports Store Local "HOL-Library.Countable"
begin

text \<open>
  \<open>exec/bigmachine.go\<close>, the worker: how it runs a task and stores the partitions of its output, and the readers by
  which other machines read them back.

  Stores are any that meet the contract \<open>task_store\<close>.  A message of the codec becomes bytes by \<open>ser\<close>, the
  encoding of gob, which \<open>unser\<close> inverts.  The outcome of a part of \<open>Run\<close> is \<open>rout\<close>: success, an error, or
  a panic, which \<open>Run\<close> recovers; the store is changed in all three cases.  Statistics are left out.
\<close>

section \<open>Errors\<close>

text \<open>An error of \<open>Run\<close> before its severity is revised; \<open>WTask\<close> is \<open>maybeTaskFatalErr\<close>.\<close>

datatype werr = WTask goerror | WErr goerror

definition reviseSeverity :: "werr option \<Rightarrow> gerr" where
  "reviseSeverity err = (case err of
       None \<Rightarrow> None
     | Some (WTask e) \<Rightarrow> Some e
     | Some (WErr e) \<Rightarrow> (case e of
         ErrE attrs c \<Rightarrow> Some (if AFatal \<in> set attrs then ErrE (map (\<lambda>a. if a = AFatal then AUnknown else a) attrs) c else e)
       | _ \<Rightarrow> Some e))"

datatype rout = ROk | RErr werr | RPanic string

section \<open>Buffered writers\<close>

text \<open>\<open>bufio.Writer\<close>, with a buffer of \<open>sz\<close> bytes.\<close>

record 'w bufw =
  bwW :: 'w
  bwBuf :: "byte list"
  bwErr :: gerr

definition bufio_direct :: "('s, 'w) storeops \<Rightarrow> 's \<Rightarrow> 'w bufw \<Rightarrow> byte list \<Rightarrow> 's \<times> 'w bufw \<times> gerr" where
  "bufio_direct S s b p = (case st_Write S s (bwW b) p of (s', w', e) \<Rightarrow> (s', b\<lparr>bwW := w', bwErr := e\<rparr>, e))"

definition bufio_Flush :: "('s, 'w) storeops \<Rightarrow> 's \<Rightarrow> 'w bufw \<Rightarrow> 's \<times> 'w bufw \<times> gerr" where
  "bufio_Flush S s b =
     (if bwErr b \<noteq> None then (s, b, bwErr b)
      else if bwBuf b = [] then (s, b, None)
      else case bufio_direct S s b (bwBuf b) of
          (s', b', None) \<Rightarrow> (s', b'\<lparr>bwBuf := []\<rparr>, None)
        | (s', b', Some e) \<Rightarrow> (s', b', Some e))"

definition bufio_Write :: "('s, 'w) storeops \<Rightarrow> nat \<Rightarrow> 's \<Rightarrow> 'w bufw \<Rightarrow> byte list \<Rightarrow> 's \<times> 'w bufw \<times> gerr" where
  "bufio_Write S sz s b p =
     (let avail = sz - length (bwBuf b)
      in if bwErr b \<noteq> None then (s, b, bwErr b)
         else if length p \<le> avail then (s, b\<lparr>bwBuf := bwBuf b @ p\<rparr>, None)
         else if bwBuf b = [] then bufio_direct S s b p
         else case bufio_Flush S s (b\<lparr>bwBuf := bwBuf b @ take avail p\<rparr>) of
             (s', b', Some e) \<Rightarrow> (s', b', Some e)
           | (s', b', None) \<Rightarrow> if length (drop avail p) \<le> sz then (s', b'\<lparr>bwBuf := drop avail p\<rparr>, None)
                              else bufio_direct S s' b' (drop avail p))"

section \<open>Storing the output of a task\<close>

record ('w, 'v, 'u) partition =
  ptBuf :: "'w bufw"
  ptCrc :: "('v, 'u) msg list"

text \<open>
  The encoding: bytes of a message, checksum, codecs and number of the columns, and the size of buffers.  The bytes of a
  message do not depend on the messages before it, whereas a gob encoder sends the description of a type once per stream;
  what is relied on is only that the reader of the bytes gets the messages back.
\<close>

record ('v, 'u) coding =
  cd_ser :: "('v, 'u) msg \<Rightarrow> byte list"
  cd_crc :: "('v, 'u) msg list \<Rightarrow> 32 word"
  cd_uc :: "('v, 'u) ucodec"
  cd_ncol :: nat
  cd_bufio :: nat

definition put_store :: "('s, 'w) storeops \<Rightarrow> ('v, 'u) coding \<Rightarrow> ('s \<times> 'w bufw, 'v, 'u) putter" where
  "put_store S C = (\<lambda>(s, b) m. case bufio_Write S (cd_bufio C) s b (cd_ser C m) of (s', b', e) \<Rightarrow> ((s', b'), e))"

definition part_Write ::
  "('s, 'w) storeops \<Rightarrow> ('v, 'u) coding \<Rightarrow> 's \<Rightarrow> ('w, 'v, 'u) partition \<Rightarrow> 'v list list \<Rightarrow> 's \<times> ('w, 'v, 'u) partition \<times> gerr" where
  "part_Write S C s part xs =
     (case enc_Write (put_store S C) (cd_crc C) (cd_uc C) \<lparr>ew = (s, ptBuf part), ecrc = ptCrc part\<rparr> (batch_of_rows (cd_ncol C) xs) of
        (e, err) \<Rightarrow> (fst (ew e), \<lparr>ptBuf = snd (ew e), ptCrc = ecrc e\<rparr>, err))"

text \<open>The writers of partitions \<open>p\<close> on; the writers made before an error are dropped without a call of \<open>Discard\<close>.\<close>

fun create_parts ::
  "('s, 'w) storeops \<Rightarrow> TaskName \<Rightarrow> nat list \<Rightarrow> 's \<Rightarrow> 's \<times> (rout + ('w, 'v, 'u) partition list)" where
  "create_parts S name [] s = (s, Inr [])"
| "create_parts S name (p # ps) s = (case st_Create S s (name, p) of
     Panic msg \<Rightarrow> (s, Inl (RPanic msg))
   | Ret (s, Inl e) \<Rightarrow> (s, Inl (RErr (WErr e)))
   | Ret (s, Inr w) \<Rightarrow> (case create_parts S name ps s of
       (s, Inl r) \<Rightarrow> (s, Inl r)
     | (s, Inr parts) \<Rightarrow> (s, Inr (\<lparr>ptBuf = \<lparr>bwW = w, bwBuf = [], bwErr = None\<rparr>, ptCrc = []\<rparr> # parts))))"

definition abandon_parts :: "('s, 'w) storeops \<Rightarrow> ('w, 'v, 'u) partition list \<Rightarrow> 's \<Rightarrow> 's" where
  "abandon_parts S parts s = fold (\<lambda>part s. st_Abandon S s (bwW (ptBuf part))) parts s"

record ('s, 'w, 'v, 'u) wrun =
  wrS :: 's
  wrParts :: "('w, 'v, 'u) partition list"
  wrRows :: "'v list list list"
  wrCount :: "int list"

text \<open>The rows of a frame, each with its partition; a partition is written when it holds \<open>psize\<close> rows.\<close>

fun wr_rows :: "('s, 'w) storeops \<Rightarrow> ('v, 'u) coding \<Rightarrow> nat \<Rightarrow> ('v list \<times> int) list \<Rightarrow> ('s, 'w, 'v, 'u) wrun \<Rightarrow> ('s, 'w, 'v, 'u) wrun \<times> rout" where
  "wr_rows S C psize [] st = (st, ROk)"
| "wr_rows S C psize ((x, p) # ps) st = (case list_index (wrRows st) p of
     Panic msg \<Rightarrow> (st, RPanic msg)
   | Ret rs \<Rightarrow>
       if psize \<le> length rs then (st, RPanic ''frame.Slice: slice index out of bounds'')
       else let i = nat p;
                st = st\<lparr>wrRows := (wrRows st)[i := rs @ [x]], wrCount := (wrCount st)[i := wrCount st ! i + 1]\<rparr>
            in if length rs + 1 \<noteq> psize then wr_rows S C psize ps st
               else case part_Write S C (wrS st) (wrParts st ! i) (rs @ [x]) of
                   (s, part, Some e) \<Rightarrow> (st\<lparr>wrS := s, wrParts := (wrParts st)[i := part]\<rparr>, RErr (WTask (ErrE [AFatal] (Some e))))
                 | (s, part, None) \<Rightarrow> wr_rows S C psize ps (st\<lparr>wrS := s, wrParts := (wrParts st)[i := part], wrRows := (wrRows st)[i := []]\<rparr>))"

partial_function (option) wr_loop ::
  "('s, 'w) storeops \<Rightarrow> ('v, 'u) coding \<Rightarrow> ('r, 'v list) reader \<Rightarrow> 'v Partitioner \<Rightarrow> int \<Rightarrow> nat \<Rightarrow> 'r \<Rightarrow> ('s, 'w, 'v, 'u) wrun \<Rightarrow> (('s, 'w, 'v, 'u) wrun \<times> rout) option" where
  "wr_loop S C rd part np chunk out st = (case rd out chunk of
       None \<Rightarrow> None
     | Some (Panic msg) \<Rightarrow> Some (st, RPanic msg)
     | Some (Ret (out', xs, err)) \<Rightarrow>
         if err \<noteq> None \<and> err \<noteq> Some EOF then Some (st, RErr (WTask (the err)))
         else case part xs np of
             Panic msg \<Rightarrow> Some (st, RPanic msg)
           | Ret shards \<Rightarrow> (case wr_rows S C (chunk div 100) (zip xs shards) st of
               (st, ROk) \<Rightarrow> if err = Some EOF then Some (st, ROk) else wr_loop S C rd part np chunk out' st
             | (st, r) \<Rightarrow> Some (st, r)))"

text \<open>Flushing the rows that remain in the partitions from \<open>i\<close> on.\<close>

fun wr_flush :: "('s, 'w) storeops \<Rightarrow> ('v, 'u) coding \<Rightarrow> nat list \<Rightarrow> ('s, 'w, 'v, 'u) wrun \<Rightarrow> ('s, 'w, 'v, 'u) wrun \<times> rout" where
  "wr_flush S C [] st = (st, ROk)"
| "wr_flush S C (i # is) st =
     (if wrRows st ! i = [] then wr_flush S C is st
      else case part_Write S C (wrS st) (wrParts st ! i) (wrRows st ! i) of
          (s, part, Some e) \<Rightarrow> (st\<lparr>wrS := s, wrParts := (wrParts st)[i := part]\<rparr>, RErr (WTask (ErrE [AFatal] (Some e))))
        | (s, part, None) \<Rightarrow> wr_flush S C is (st\<lparr>wrS := s, wrParts := (wrParts st)[i := part]\<rparr>))"

text \<open>One partition: every frame read is written, also an empty one.\<close>

partial_function (option) wr_single ::
  "('s, 'w) storeops \<Rightarrow> ('v, 'u) coding \<Rightarrow> ('r, 'v list) reader \<Rightarrow> nat \<Rightarrow> 'r \<Rightarrow> ('s, 'w, 'v, 'u) wrun \<Rightarrow> (('s, 'w, 'v, 'u) wrun \<times> rout) option" where
  "wr_single S C rd chunk out st = (case rd out chunk of
       None \<Rightarrow> None
     | Some (Panic msg) \<Rightarrow> Some (st, RPanic msg)
     | Some (Ret (out', xs, err)) \<Rightarrow>
         if err \<noteq> None \<and> err \<noteq> Some EOF then Some (st, RErr (WTask (the err)))
         else if wrParts st = [] then Some (st, RPanic ''index out of range'')
         else case part_Write S C (wrS st) (wrParts st ! 0) xs of
             (s, part, Some e) \<Rightarrow> Some (st\<lparr>wrS := s, wrParts := (wrParts st)[0 := part]\<rparr>, RErr (WTask (ErrE [AFatal] (Some e))))
           | (s, part, None) \<Rightarrow>
               let st = st\<lparr>wrS := s, wrParts := (wrParts st)[0 := part], wrCount := (wrCount st)[0 := wrCount st ! 0 + int (length xs)]\<rparr>
               in if err = Some EOF then Some (st, ROk) else wr_single S C rd chunk out' st)"

text \<open>Committing the partitions; one that is being committed is not discarded any more.\<close>

fun commit_parts :: "('s, 'w) storeops \<Rightarrow> (('w, 'v, 'u) partition \<times> int) list \<Rightarrow> 's \<Rightarrow> 's \<times> rout" where
  "commit_parts S [] s = (s, ROk)"
| "commit_parts S ((part, n) # ps) s = (case bufio_Flush S s (ptBuf part) of
     (s, b, Some e) \<Rightarrow> (abandon_parts S (part # map fst ps) s, RErr (WErr e))
   | (s, b, None) \<Rightarrow> (case st_Commit S s (bwW b) n of
       Panic msg \<Rightarrow> (abandon_parts S (map fst ps) s, RPanic msg)
     | Ret (s, Some e) \<Rightarrow> (abandon_parts S (map fst ps) s, RErr (WErr e))
     | Ret (s, None) \<Rightarrow> commit_parts S ps s))"

text \<open>The body of \<open>Run\<close> for a task without a combiner, from the creation of the writers on; \<open>doit\<close> is \<open>task.Do(in)\<close>.\<close>

definition run_output ::
  "('s, 'w) storeops \<Rightarrow> ('v, 'u) coding \<Rightarrow> ('r, 'v list) reader \<Rightarrow> 'v Partitioner \<Rightarrow> nat \<Rightarrow> TaskName \<Rightarrow> int \<Rightarrow> nat \<Rightarrow> 'r go \<Rightarrow> 's \<Rightarrow> ('s \<times> rout) option" where
  "run_output S C rd part chunk name np numOut doit s =
     (if np < 0 then Some (s, RPanic ''makeslice: len out of range'')
      else case create_parts S name [0 ..< nat np] s of
        (s, Inl r) \<Rightarrow> Some (s, r)
      | (s, Inr parts) \<Rightarrow> (case doit of
          Panic msg \<Rightarrow> Some (abandon_parts S parts s, RPanic msg)
        | Ret out \<Rightarrow>
            let st = \<lparr>wrS = s, wrParts = parts, wrRows = replicate (nat np) [], wrCount = replicate (nat np) 0\<rparr>
            in if numOut = 0
               then map_option (\<lambda>r. (abandon_parts S parts s, case r of
                   Panic msg \<Rightarrow> RPanic msg
                 | Ret (_, _, err) \<Rightarrow> if err \<noteq> None \<and> err \<noteq> Some EOF then RErr (WTask (the err)) else ROk)) (rd out 0)
               else Option.bind (if 1 < np then map_option (\<lambda>(st, r). if r = ROk then wr_flush S C [0 ..< nat np] st else (st, r)) (wr_loop S C rd part np chunk out st)
                                 else wr_single S C rd chunk out st) (\<lambda>(st, r). Some (
                 if r = ROk then commit_parts S (zip (wrParts st) (wrCount st)) (wrS st)
                 else (abandon_parts S (wrParts st) (wrS st), r)))))"

section \<open>What is stored\<close>

text \<open>The bytes of the rows \<open>xs\<close>, written in batches of any size.\<close>

definition stored_rows :: "('v, 'u) coding \<Rightarrow> 'v list list \<Rightarrow> byte list \<Rightarrow> bool" where
  "stored_rows C xs bs \<longleftrightarrow> (\<exists>ms. file_rows (cd_crc C) (cd_uc C) (cd_ncol C) xs ms \<and> bs = concat (map (cd_ser C) ms))"

lemma stored_rows_Nil: "stored_rows C [] []"
  by (auto simp: stored_rows_def file_rows_def intro!: exI [of _ "[]"])

lemma stored_rows_snoc:
  assumes "stored_rows C xs bs" and "\<forall>y\<in>set ys. length y = cd_ncol C"
  shows "stored_rows C (xs @ ys) (bs @ concat (map (cd_ser C) (batch_msgs (cd_crc C) (cd_uc C) (batch_of_rows (cd_ncol C) ys))))"
  using assms file_rows_snoc unfolding stored_rows_def by fastforce

context task_store
begin

text \<open>A change of the store that only writes to the writer of \<open>k\<close>.\<close>

definition writes :: "skey \<Rightarrow> 's \<Rightarrow> 's \<Rightarrow> bool" where
  "writes k s s' \<longleftrightarrow> ok s' \<and> (\<forall>k'\<in>K. abst s' k' = abst s k') \<and> (\<forall>v. wkey v \<in> K - {k} \<longrightarrow> pend s' v = pend s v)"

lemma writes_refl: "ok s \<Longrightarrow> writes k s s"
  by (simp add: writes_def)

lemma writes_trans: "writes k s s1 \<Longrightarrow> writes k s1 s2 \<Longrightarrow> writes k s s2"
  by (simp add: writes_def)

definition written :: "'s \<Rightarrow> 'w bufw \<Rightarrow> byte list" where
  "written s b = pend s (bwW b) @ bwBuf b"

lemma direct_ok:
  assumes "ok s" and "wkey (bwW b) \<in> K"
  shows "\<exists>s' b'. bufio_direct S s b p = (s', b', None) \<and> writes (wkey (bwW b)) s s' \<and> wkey (bwW b') = wkey (bwW b) \<and> bwErr b' = None \<and>
    bwBuf b' = bwBuf b \<and> pend s' (bwW b') = pend s (bwW b) @ p"
  using write_law [OF assms, of p] by (auto simp: bufio_direct_def writes_def)

lemma Flush_ok:
  assumes "ok s" and "wkey (bwW b) \<in> K" and "bwErr b = None"
  shows "\<exists>s' b'. bufio_Flush S s b = (s', b', None) \<and> writes (wkey (bwW b)) s s' \<and> wkey (bwW b') = wkey (bwW b) \<and> bwErr b' = None \<and>
    bwBuf b' = [] \<and> pend s' (bwW b') = written s b"
proof (cases "bwBuf b = []")
  case True
  then show ?thesis using assms by (simp add: bufio_Flush_def written_def writes_refl)
next
  case False
  from direct_ok [OF assms(1,2), of "bwBuf b"] obtain s' b' where "bufio_direct S s b (bwBuf b) = (s', b', None)" "writes (wkey (bwW b)) s s'"
    "wkey (bwW b') = wkey (bwW b)" "bwErr b' = None" "pend s' (bwW b') = pend s (bwW b) @ bwBuf b" by blast
  with False assms(3) show ?thesis by (auto simp: bufio_Flush_def written_def)
qed

lemma bufio_Write_ok:
  assumes "ok s" and "wkey (bwW b) \<in> K" and "bwErr b = None"
  shows "\<exists>s' b'. bufio_Write S sz s b p = (s', b', None) \<and> writes (wkey (bwW b)) s s' \<and> wkey (bwW b') = wkey (bwW b) \<and> bwErr b' = None \<and>
    written s' b' = written s b @ p"
proof -
  let ?avail = "sz - length (bwBuf b)"
  consider "length p \<le> ?avail" | "\<not> length p \<le> ?avail" "bwBuf b = []" | "\<not> length p \<le> ?avail" "bwBuf b \<noteq> []" by blast
  then show ?thesis
  proof cases
    case 1
    then show ?thesis using assms by (simp add: bufio_Write_def written_def writes_refl)
  next
    case 2
    then show ?thesis using direct_ok [OF assms(1,2), of p] assms(3) by (auto simp: bufio_Write_def written_def)
  next
    case 3
    from Flush_ok [of s "b\<lparr>bwBuf := bwBuf b @ take ?avail p\<rparr>"] assms obtain s1 b1 where
      s1: "bufio_Flush S s (b\<lparr>bwBuf := bwBuf b @ take ?avail p\<rparr>) = (s1, b1, None)" "writes (wkey (bwW b)) s s1" "wkey (bwW b1) = wkey (bwW b)" "bwErr b1 = None"
        "bwBuf b1 = []" "pend s1 (bwW b1) = written s b @ take ?avail p" by (auto simp: written_def)
    have ok1: "ok s1" using s1(2) by (simp add: writes_def)
    show ?thesis
    proof (cases "length (drop ?avail p) \<le> sz")
      case True
      then show ?thesis using 3 s1 assms(3) by (simp add: bufio_Write_def written_def Let_def)
    next
      case False
      from direct_ok [OF ok1, of b1 "drop ?avail p"] s1(3) assms(2) obtain s2 b2 where "bufio_direct S s1 b1 (drop ?avail p) = (s2, b2, None)"
        "writes (wkey (bwW b)) s1 s2" "wkey (bwW b2) = wkey (bwW b)" "bwErr b2 = None" "bwBuf b2 = bwBuf b1" "pend s2 (bwW b2) = pend s1 (bwW b1) @ drop ?avail p" by auto
      then show ?thesis using False 3 s1 assms(3) writes_trans [OF s1(2)] by (simp add: bufio_Write_def written_def Let_def)
    qed
  qed
qed

lemma put_store_appends:
  assumes "k \<in> K"
  shows "appends (put_store S C) (\<lambda>(s', b' :: 'w bufw). writes k s s' \<and> wkey (bwW b') = k \<and> bwErr b' = None) (\<lambda>(s', b'). written s' b') (cd_ser C)"
    (is "appends _ ?P _ _")
  unfolding appends_def
proof (intro allI impI)
  fix w m assume w: "?P w"
  obtain s1 b1 where w1: "w = (s1, b1)" by (cases w)
  then have s1: "writes k s s1" "ok s1" "wkey (bwW b1) \<in> K" "bwErr b1 = None" "wkey (bwW b1) = k" using w assms by (auto simp: writes_def)
  from bufio_Write_ok [OF s1(2-4), of "cd_bufio C" "cd_ser C m"] obtain s2 b2 where "bufio_Write S (cd_bufio C) s1 b1 (cd_ser C m) = (s2, b2, None)"
    "writes k s1 s2" "wkey (bwW b2) = k" "bwErr b2 = None" "written s2 b2 = written s1 b1 @ cd_ser C m" using s1(5) by auto
  then show "\<exists>w'. put_store S C w m = (w', None) \<and> ?P w' \<and> (\<lambda>(s', b'). written s' b') w' = (\<lambda>(s', b'). written s' b') w @ cd_ser C m"
    using writes_trans [OF s1(1)] by (auto simp: put_store_def w1)
qed

lemma part_Write_ok:
  assumes "uc_ok (cd_uc C)" and "ok s" and "wkey (bwW (ptBuf part)) = k" and "k \<in> K" and "bwErr (ptBuf part) = None"
  shows "\<exists>s' part'. part_Write S C s part xs = (s', part', None) \<and> writes k s s' \<and> wkey (bwW (ptBuf part')) = k \<and> bwErr (ptBuf part') = None \<and>
    written s' (ptBuf part') = written s (ptBuf part) @ concat (map (cd_ser C) (batch_msgs (cd_crc C) (cd_uc C) (batch_of_rows (cd_ncol C) xs)))"
proof -
  let ?P = "\<lambda>(s', b' :: 'w bufw). writes k s s' \<and> wkey (bwW b') = k \<and> bwErr b' = None"
  have "appends (put_store S C) ?P (\<lambda>(s', b'). written s' b') (cd_ser C)" by (rule put_store_appends [OF assms(4)])
  from enc_Write_appends [OF assms(1) this, where e = "\<lparr>ew = (s, ptBuf part), ecrc = ptCrc part\<rparr>" and crc = "cd_crc C" and f = "batch_of_rows (cd_ncol C) xs"]
  obtain e' where "enc_Write (put_store S C) (cd_crc C) (cd_uc C) \<lparr>ew = (s, ptBuf part), ecrc = ptCrc part\<rparr> (batch_of_rows (cd_ncol C) xs) = (e', None)" "?P (ew e')"
    "(\<lambda>(s', b'). written s' b') (ew e') = written s (ptBuf part) @ concat (map (cd_ser C) (batch_msgs (cd_crc C) (cd_uc C) (batch_of_rows (cd_ncol C) xs)))"
    using assms(2,3,5) writes_refl by auto
  then show ?thesis by (auto simp: part_Write_def prod.case_eq_if)
qed

text \<open>
  The state of a run of the task \<open>name\<close> with \<open>np\<close> partitions, begun on the store \<open>s0\<close>: \<open>seen i\<close> are the rows of
  partition \<open>i\<close> so far, and the partitions in \<open>F\<close> have been flushed.
\<close>

definition part_ok_at :: "('v, 'u) coding \<Rightarrow> TaskName \<Rightarrow> nat set \<Rightarrow> (nat \<Rightarrow> 'v list list) \<Rightarrow> ('s, 'w, 'v, 'u) wrun \<Rightarrow> nat \<Rightarrow> bool" where
  "part_ok_at C name F seen st i \<longleftrightarrow> wkey (bwW (ptBuf (wrParts st ! i))) = (name, i) \<and> bwErr (ptBuf (wrParts st ! i)) = None \<and>
     wrCount st ! i = int (length (seen i)) \<and>
     (\<exists>ws. seen i = ws @ (if i \<in> F then [] else wrRows st ! i) \<and> stored_rows C ws (written (wrS st) (ptBuf (wrParts st ! i))))"

definition wr_ok :: "('v, 'u) coding \<Rightarrow> TaskName \<Rightarrow> nat \<Rightarrow> 's \<Rightarrow> nat set \<Rightarrow> (nat \<Rightarrow> 'v list list) \<Rightarrow> ('s, 'w, 'v, 'u) wrun \<Rightarrow> bool" where
  "wr_ok C name np s0 F seen st \<longleftrightarrow> ok (wrS st) \<and> (\<forall>k\<in>K. abst (wrS st) k = abst s0 k) \<and>
     length (wrParts st) = np \<and> length (wrRows st) = np \<and> length (wrCount st) = np \<and> (\<forall>i<np. part_ok_at C name F seen st i \<and> (\<forall>x\<in>set (seen i). length x = cd_ncol C))"

text \<open>Writing the rows of one partition keeps the others.\<close>

lemma wr_ok_write:
  assumes "uc_ok (cd_uc C)" and wr: "wr_ok C name np s0 F seen st" and "\<forall>i<np. (name, i) \<in> K" and "i < np" and "i \<notin> F"
  shows "\<exists>s' part'. part_Write S C (wrS st) (wrParts st ! i) (wrRows st ! i) = (s', part', None) \<and>
    wr_ok C name np s0 (insert i F) seen (st\<lparr>wrS := s', wrParts := (wrParts st)[i := part']\<rparr>) \<and>
    wr_ok C name np s0 F seen (st\<lparr>wrS := s', wrParts := (wrParts st)[i := part'], wrRows := (wrRows st)[i := []]\<rparr>)"
proof -
  let ?p = "wrParts st ! i"
  have at: "part_ok_at C name F seen st j" "\<forall>x\<in>set (seen j). length x = cd_ncol C" if "j < np" for j using wr that by (simp_all add: wr_ok_def)
  from at(1) [OF assms(4)] assms(5) obtain ws where p: "wkey (bwW (ptBuf ?p)) = (name, i)" "bwErr (ptBuf ?p) = None" "seen i = ws @ wrRows st ! i"
    "stored_rows C ws (written (wrS st) (ptBuf ?p))" "wrCount st ! i = int (length (seen i))" by (auto simp: part_ok_at_def)
  have ok: "ok (wrS st)" "(name, i) \<in> K" using wr assms(3,4) by (simp_all add: wr_ok_def)
  from part_Write_ok [OF assms(1) ok(1) p(1) ok(2) p(2), of "wrRows st ! i"] obtain s' part' where
    w: "part_Write S C (wrS st) ?p (wrRows st ! i) = (s', part', None)" "writes (name, i) (wrS st) s'" "wkey (bwW (ptBuf part')) = (name, i)" "bwErr (ptBuf part') = None"
      "written s' (ptBuf part') = written (wrS st) (ptBuf ?p) @ concat (map (cd_ser C) (batch_msgs (cd_crc C) (cd_uc C) (batch_of_rows (cd_ncol C) (wrRows st ! i))))" by blast
  have "\<forall>x\<in>set (wrRows st ! i). length x = cd_ncol C" using at(2) [OF assms(4)] p(3) by simp
  from stored_rows_snoc [OF p(4) this] have st: "stored_rows C (seen i) (written s' (ptBuf part'))" using p(3) w(5) by simp
  have other: "written s' (ptBuf (wrParts st ! j)) = written (wrS st) (ptBuf (wrParts st ! j))" if "j < np" "j \<noteq> i" for j
  proof -
    have "wkey (bwW (ptBuf (wrParts st ! j))) \<in> K - {(name, i)}" using at(1) [OF that(1)] assms(3) that by (simp add: part_ok_at_def)
    then show ?thesis using w(2) by (simp add: writes_def written_def)
  qed
  have len: "length (wrParts st) = np" "length (wrRows st) = np" using wr by (simp_all add: wr_ok_def)
  let ?a = "st\<lparr>wrS := s', wrParts := (wrParts st)[i := part']\<rparr>"
  let ?b = "st\<lparr>wrS := s', wrParts := (wrParts st)[i := part'], wrRows := (wrRows st)[i := []]\<rparr>"
  have "part_ok_at C name (insert i F) seen ?a j \<and> part_ok_at C name F seen ?b j" if "j < np" for j
  proof (cases "j = i")
    case True
    then show ?thesis using st w(3,4) p(5) assms(4,5) len by (simp add: part_ok_at_def)
  next
    case False
    then show ?thesis using at(1) [OF that] other [OF that False] by (auto simp: part_ok_at_def)
  qed
  moreover have "ok s' \<and> (\<forall>k\<in>K. abst s' k = abst s0 k)" using w(2) wr by (auto simp: writes_def wr_ok_def)
  ultimately show ?thesis using w(1) wr by (intro exI [of _ s'] exI [of _ part']) (simp add: wr_ok_def)
qed

text \<open>Taking in rows of one partition.\<close>

lemma wr_ok_take:
  assumes "wr_ok C name np s0 {} seen st" and "i < np" and "\<forall>x\<in>set xs. length x = cd_ncol C"
  shows "wr_ok C name np s0 {} (\<lambda>j. seen j @ (if j = i then xs else [])) (st\<lparr>wrRows := (wrRows st)[i := wrRows st ! i @ xs], wrCount := (wrCount st)[i := wrCount st ! i + int (length xs)]\<rparr>)"
proof -
  have len: "length (wrRows st) = np" "length (wrCount st) = np" using assms(1) by (simp_all add: wr_ok_def)
  let ?st = "st\<lparr>wrRows := (wrRows st)[i := wrRows st ! i @ xs], wrCount := (wrCount st)[i := wrCount st ! i + int (length xs)]\<rparr>"
  let ?seen = "\<lambda>j. seen j @ (if j = i then xs else [])"
  have "part_ok_at C name {} ?seen ?st j \<and> (\<forall>y\<in>set (?seen j). length y = cd_ncol C)" if j: "j < np" for j
  proof -
    have p: "part_ok_at C name {} seen st j" "\<forall>y\<in>set (seen j). length y = cd_ncol C" using assms(1) j unfolding wr_ok_def by blast+
    show ?thesis
    proof (cases "j = i")
      case True
      then show ?thesis using p assms(3) len j unfolding part_ok_at_def by fastforce
    next
      case False
      then show ?thesis using p unfolding part_ok_at_def by simp
    qed
  qed
  then have at: "\<forall>j<np. part_ok_at C name {} ?seen ?st j \<and> (\<forall>y\<in>set (?seen j). length y = cd_ncol C)" by (intro allI impI)
  have "wrS ?st = wrS st" "wrParts ?st = wrParts st" "length (wrRows ?st) = np" "length (wrCount ?st) = np" using len by simp_all
  moreover have "ok (wrS st)" "\<forall>k\<in>K. abst (wrS st) k = abst s0 k" "length (wrParts st) = np" using assms(1) by (simp_all add: wr_ok_def)
  ultimately show ?thesis using at unfolding wr_ok_def by (intro conjI) (assumption | simp only:)+
qed

lemma wr_rows_ok:
  assumes uc: "uc_ok (cd_uc C)" and K: "\<forall>i<np. (name, i) \<in> K" and "0 < psize"
  shows "wr_ok C name np s0 {} seen st \<Longrightarrow> \<forall>i<np. length (wrRows st ! i) < psize \<Longrightarrow> \<forall>x\<in>set xs. length x = cd_ncol C \<and> 0 \<le> pf x \<and> pf x < int np \<Longrightarrow>
    \<exists>st'. wr_rows S C psize (zip xs (map pf xs)) st = (st', ROk) \<and> wr_ok C name np s0 {} (\<lambda>i. seen i @ filter (\<lambda>x. nat (pf x) = i) xs) st' \<and>
      (\<forall>i<np. length (wrRows st' ! i) < psize)"
proof (induction xs arbitrary: seen st)
  case (Cons x xs)
  let ?i = "nat (pf x)"
  let ?st = "st\<lparr>wrRows := (wrRows st)[?i := wrRows st ! ?i @ [x]], wrCount := (wrCount st)[?i := wrCount st ! ?i + 1]\<rparr>"
  let ?seen = "\<lambda>j. seen j @ (if j = ?i then [x] else [])"
  have len: "length (wrRows st) = np" using Cons.prems(1) by (simp add: wr_ok_def)
  have "?i < np" using Cons.prems(3) by (simp add: nat_less_iff)
  then have i: "?i < np" "list_index (wrRows st) (pf x) = Ret (wrRows st ! ?i)" "\<not> psize \<le> length (wrRows st ! ?i)"
    using Cons.prems(2,3) len by (auto simp: list_index_def not_le)
  have fil: "(\<lambda>j. ?seen j @ filter (\<lambda>y. nat (pf y) = j) xs) = (\<lambda>j. seen j @ filter (\<lambda>y. nat (pf y) = j) (x # xs))" by auto
  have ok1: "wr_ok C name np s0 {} ?seen ?st" using wr_ok_take [OF Cons.prems(1) i(1), of "[x]"] Cons.prems(3) by simp
  show ?case
  proof (cases "length (wrRows st ! ?i) + 1 = psize")
    case False
    then have "wr_rows S C psize (zip (x # xs) (map pf (x # xs))) st = wr_rows S C psize (zip xs (map pf xs)) ?st" using i by (simp add: Let_def)
    moreover have "\<forall>j<np. length (wrRows ?st ! j) < psize" using Cons.prems(2) False i(1,3) len by (simp add: nth_list_update)
    ultimately show ?thesis using Cons.IH [OF ok1] Cons.prems(3) unfolding fil by simp
  next
    case True
    from wr_ok_write [OF uc ok1 K i(1)] obtain s' part' where w: "part_Write S C (wrS ?st) (wrParts ?st ! ?i) (wrRows ?st ! ?i) = (s', part', None)"
      "wr_ok C name np s0 {} ?seen (?st\<lparr>wrS := s', wrParts := (wrParts ?st)[?i := part'], wrRows := (wrRows ?st)[?i := []]\<rparr>)" by auto
    have "wr_rows S C psize (zip (x # xs) (map pf (x # xs))) st = wr_rows S C psize (zip xs (map pf xs)) (?st\<lparr>wrS := s', wrParts := (wrParts ?st)[?i := part'], wrRows := (wrRows ?st)[?i := []]\<rparr>)"
      using i True w(1) len by (simp add: Let_def)
    moreover have "\<forall>j<np. length (wrRows (?st\<lparr>wrS := s', wrParts := (wrParts ?st)[?i := part'], wrRows := (wrRows ?st)[?i := []]\<rparr>) ! j) < psize"
      using Cons.prems(2) assms(3) len i(1) by (simp add: nth_list_update)
    ultimately show ?thesis using Cons.IH [OF w(2)] Cons.prems(3) unfolding fil by simp
  qed
qed simp

lemma wr_loop_ok:
  assumes uc: "uc_ok (cd_uc C)" and K: "\<forall>i<np. (name, i) \<in> K" and ch: "100 \<le> chunk" and rd: "slice_reader rd rok str fin mu" and pt: "rowwise part (int np) pf"
    and "rok r" and "\<forall>x\<in>set (str r). length x = cd_ncol C \<and> 0 \<le> pf x \<and> pf x < int np" and "wr_ok C name np s0 {} seen st" and "\<forall>i<np. length (wrRows st ! i) < chunk div 100"
  shows "\<exists>st'. wr_loop S C rd part (int np) chunk r st = Some (st', if fin r = EOF then ROk else RErr (WTask (fin r))) \<and>
    (\<exists>seen'. wr_ok C name np s0 {} seen' st' \<and> (fin r = EOF \<longrightarrow> seen' = (\<lambda>i. seen i @ filter (\<lambda>x. nat (pf x) = i) (str r))))"
  using assms(6-)
proof (induction "mu r" arbitrary: r seen st rule: less_induct)
  case less
  have ps: "0 < chunk div 100" "0 < chunk" using ch by auto
  have rws: "\<exists>st'. wr_rows S C (chunk div 100) (zip xs (map pf xs)) st = (st', ROk) \<and> wr_ok C name np s0 {} (\<lambda>i. seen i @ filter (\<lambda>x. nat (pf x) = i) xs) st' \<and>
      (\<forall>i<np. length (wrRows st' ! i) < chunk div 100)" if "str r = xs @ ys" for xs ys
    using wr_rows_ok [OF uc K ps(1) less.prems(3,4), of xs pf] less.prems(2) that by auto
  have pr: "part xs (int np) = Ret (map pf xs)" for xs using pt by (simp add: rowwise_def)
  from slice_reader.read_cases [OF rd less.prems(1) ps(2), case_names more stop] show ?case
  proof cases
    case (more r' xs)
    from rws [OF more(4)] obtain st1 where st1: "wr_rows S C (chunk div 100) (zip xs (map pf xs)) st = (st1, ROk)"
      "wr_ok C name np s0 {} (\<lambda>i. seen i @ filter (\<lambda>x. nat (pf x) = i) xs) st1" "\<forall>i<np. length (wrRows st1 ! i) < chunk div 100" by blast
    have "wr_loop S C rd part (int np) chunk r st = wr_loop S C rd part (int np) chunk r' st1"
      using more(1) st1(1) by (subst wr_loop.simps) (simp add: pr)
    moreover have "\<forall>x\<in>set (str r'). length x = cd_ncol C \<and> 0 \<le> pf x \<and> pf x < int np" using less.prems(2) more(4) by auto
    ultimately show ?thesis using less.hyps [OF more(6,2) _ st1(2,3)] unfolding more(4,5) by simp
  next
    case (stop r' xs)
    show ?thesis
    proof (cases "fin r = EOF")
      case True
      from rws [of xs "[]"] stop(4) obtain st1 where st1: "wr_rows S C (chunk div 100) (zip xs (map pf xs)) st = (st1, ROk)"
        "wr_ok C name np s0 {} (\<lambda>i. seen i @ filter (\<lambda>x. nat (pf x) = i) (str r)) st1" by auto
      have "wr_loop S C rd part (int np) chunk r st = Some (st1, ROk)" using stop(1) st1(1) True by (subst wr_loop.simps) (simp add: pr)
      then show ?thesis using st1(2) True by auto
    next
      case False
      have "wr_loop S C rd part (int np) chunk r st = Some (st, RErr (WTask (fin r)))" using stop(1) False by (subst wr_loop.simps) simp
      then show ?thesis using less.prems(3) False by auto
    qed
  qed
qed

lemma wr_single_ok:
  assumes uc: "uc_ok (cd_uc C)" and K: "(name, 0) \<in> K" and "0 < chunk" and rd: "slice_reader rd rok str fin mu"
    and "rok r" and "\<forall>x\<in>set (str r). length x = cd_ncol C" and "wr_ok C name 1 s0 {} seen st" and "wrRows st = [[]]"
  shows "\<exists>st'. wr_single S C rd chunk r st = Some (st', if fin r = EOF then ROk else RErr (WTask (fin r))) \<and>
    (\<exists>seen'. wr_ok C name 1 s0 {} seen' st' \<and> wrRows st' = [[]] \<and> (fin r = EOF \<longrightarrow> seen' 0 = seen 0 @ str r))"
  using assms(5-)
proof (induction "mu r" arbitrary: r seen st rule: less_induct)
  case less
  have wr: "\<exists>s' part' seen'. part_Write S C (wrS st) (wrParts st ! 0) xs = (s', part', None) \<and> seen' 0 = seen 0 @ xs \<and>
      wr_ok C name 1 s0 {} seen' (st\<lparr>wrS := s', wrParts := (wrParts st)[0 := part'], wrCount := (wrCount st)[0 := wrCount st ! 0 + int (length xs)]\<rparr>)"
    if "str r = xs @ ys" for xs ys
  proof -
    let ?st = "st\<lparr>wrRows := (wrRows st)[0 := wrRows st ! 0 @ xs], wrCount := (wrCount st)[0 := wrCount st ! 0 + int (length xs)]\<rparr>"
    let ?seen = "\<lambda>j :: nat. seen j @ (if j = 0 then xs else [])"
    have "wr_ok C name 1 s0 {} ?seen ?st" using wr_ok_take [OF less.prems(3), of 0 xs] less.prems(2) that by simp
    from wr_ok_write [OF uc this, of 0] K obtain s' part' where p: "part_Write S C (wrS ?st) (wrParts ?st ! 0) (wrRows ?st ! 0) = (s', part', None)"
      and q: "wr_ok C name 1 s0 {} ?seen (?st\<lparr>wrS := s', wrParts := (wrParts ?st)[0 := part'], wrRows := (wrRows ?st)[0 := []]\<rparr>)" by auto
    have eq: "?st\<lparr>wrS := s', wrParts := (wrParts ?st)[0 := part'], wrRows := (wrRows ?st)[0 := []]\<rparr> =
        st\<lparr>wrS := s', wrParts := (wrParts st)[0 := part'], wrCount := (wrCount st)[0 := wrCount st ! 0 + int (length xs)]\<rparr>" using less.prems(4) by simp
    show ?thesis using p q [unfolded eq] less.prems(4) by (intro exI [of _ s'] exI [of _ part'] exI [of _ ?seen]) simp
  qed
  have ne: "wrParts st \<noteq> []" using less.prems(3) by (auto simp: wr_ok_def)
  from slice_reader.read_cases [OF rd less.prems(1) assms(3), case_names more stop] show ?case
  proof cases
    case (more r' xs)
    from wr [OF more(4)] obtain s' part' seen' where w: "part_Write S C (wrS st) (wrParts st ! 0) xs = (s', part', None)" "seen' 0 = seen 0 @ xs"
      "wr_ok C name 1 s0 {} seen' (st\<lparr>wrS := s', wrParts := (wrParts st)[0 := part'], wrCount := (wrCount st)[0 := wrCount st ! 0 + int (length xs)]\<rparr>)" by blast
    have "wr_single S C rd chunk r st = wr_single S C rd chunk r' (st\<lparr>wrS := s', wrParts := (wrParts st)[0 := part'], wrCount := (wrCount st)[0 := wrCount st ! 0 + int (length xs)]\<rparr>)"
      using more(1) w(1) ne by (subst wr_single.simps) simp
    moreover have "\<forall>x\<in>set (str r'). length x = cd_ncol C" using less.prems(2) more(4) by auto
    ultimately show ?thesis using less.hyps [OF more(6,2) _ w(3)] less.prems(4) w(2) unfolding more(4,5) by simp
  next
    case (stop r' xs)
    show ?thesis
    proof (cases "fin r = EOF")
      case True
      from wr [of xs "[]"] stop(4) obtain s' part' seen' where w: "part_Write S C (wrS st) (wrParts st ! 0) xs = (s', part', None)" "seen' 0 = seen 0 @ str r"
        "wr_ok C name 1 s0 {} seen' (st\<lparr>wrS := s', wrParts := (wrParts st)[0 := part'], wrCount := (wrCount st)[0 := wrCount st ! 0 + int (length xs)]\<rparr>)" by auto
      have "wr_single S C rd chunk r st = Some (st\<lparr>wrS := s', wrParts := (wrParts st)[0 := part'], wrCount := (wrCount st)[0 := wrCount st ! 0 + int (length xs)]\<rparr>, ROk)"
        using stop(1) w(1) ne True by (subst wr_single.simps) simp
      then show ?thesis using w(2,3) True less.prems(4) by auto
    next
      case False
      have "wr_single S C rd chunk r st = Some (st, RErr (WTask (fin r)))" using stop(1) False by (subst wr_single.simps) simp
      then show ?thesis using less.prems(3,4) False by auto
    qed
  qed
qed

lemma wr_flush_ok:
  assumes uc: "uc_ok (cd_uc C)" and K: "\<forall>i<np. (name, i) \<in> K"
  shows "wr_ok C name np s0 F seen st \<Longrightarrow> distinct is \<Longrightarrow> \<forall>i\<in>set is. i < np \<and> i \<notin> F \<Longrightarrow>
    \<exists>st'. wr_flush S C is st = (st', ROk) \<and> wr_ok C name np s0 (F \<union> set is) seen st'"
proof (induction "is" arbitrary: F st)
  case (Cons i "is")
  then have i: "i < np" "i \<notin> F" and rest: "distinct is" "\<forall>j\<in>set is. j < np \<and> j \<notin> insert i F" by auto
  show ?case
  proof (cases "wrRows st ! i = []")
    case True
    have "part_ok_at C name (insert i F) seen st j" if "part_ok_at C name F seen st j" for j using that True by (auto simp: part_ok_at_def)
    then have "wr_ok C name np s0 (insert i F) seen st" using Cons.prems(1) by (simp add: wr_ok_def)
    from Cons.IH [OF this rest] show ?thesis using True by simp
  next
    case False
    from wr_ok_write [OF uc Cons.prems(1) K i] obtain s' part' where w: "part_Write S C (wrS st) (wrParts st ! i) (wrRows st ! i) = (s', part', None)"
      "wr_ok C name np s0 (insert i F) seen (st\<lparr>wrS := s', wrParts := (wrParts st)[i := part']\<rparr>)" by blast
    from Cons.IH [OF w(2) rest] show ?thesis using False w(1) by simp
  qed
qed auto

text \<open>New writers: the keys in order, and nothing written.\<close>

definition fresh :: "'s \<Rightarrow> skey \<Rightarrow> ('w, 'v, 'u) partition \<Rightarrow> bool" where
  "fresh s k part \<longleftrightarrow> wkey (bwW (ptBuf part)) = k \<and> bwErr (ptBuf part) = None \<and> written s (ptBuf part) = []"

lemma create_parts_ok:
  "ok s \<Longrightarrow> distinct ps \<Longrightarrow> \<forall>p\<in>set ps. (name, p) \<in> K \<and> abst s (name, p) = None \<Longrightarrow>
   \<exists>s' (parts :: ('w, 'v, 'u) partition list). create_parts S name ps s = (s', Inr parts) \<and> ok s' \<and> (\<forall>k\<in>K. abst s' k = abst s k) \<and> list_all2 (\<lambda>p. fresh s' (name, p)) ps parts \<and>
     (\<forall>w. wkey w \<in> K - Pair name ` set ps \<longrightarrow> pend s' w = pend s w)"
proof (induction ps arbitrary: s)
  case (Cons p ps)
  then have p: "(name, p) \<in> K" "abst s (name, p) = None" by auto
  from create_law [OF Cons.prems(1) p] obtain s1 w where s1: "st_Create S s (name, p) = Ret (s1, Inr w)" "ok s1" "wkey w = (name, p)" "pend s1 w = []"
    "\<forall>k'\<in>K. abst s1 k' = abst s k'" "\<forall>w'. wkey w' \<in> K - {(name, p)} \<longrightarrow> pend s1 w' = pend s w'" by blast
  have "distinct ps" "\<forall>p\<in>set ps. (name, p) \<in> K \<and> abst s1 (name, p) = None" using Cons.prems(2,3) s1(5) by auto
  from Cons.IH [OF s1(2) this] obtain s' and parts :: "('w, 'v, 'u) partition list" where
    s': "create_parts S name ps s1 = (s', Inr parts)" "ok s'" "\<forall>k\<in>K. abst s' k = abst s1 k" "list_all2 (\<lambda>p. fresh s' (name, p)) ps parts"
      "\<forall>w. wkey w \<in> K - Pair name ` set ps \<longrightarrow> pend s' w = pend s1 w" by blast
  have "wkey w \<in> K - Pair name ` set ps" using s1(3) p(1) Cons.prems(2) by auto
  then have "pend s' w = []" using s'(5) s1(4) by simp
  then have "fresh s' (name, p) \<lparr>ptBuf = \<lparr>bwW = w, bwBuf = [], bwErr = None\<rparr>, ptCrc = []\<rparr>" using s1(3) by (simp add: fresh_def written_def)
  then show ?case using s1 s' by (intro exI [of _ s'] exI) auto
qed auto

lemma abandon_parts_ok:
  "ok s \<Longrightarrow> \<forall>part\<in>set parts. wkey (bwW (ptBuf part)) \<in> K \<Longrightarrow> ok (abandon_parts S parts s) \<and> (\<forall>k\<in>K. abst (abandon_parts S parts s) k = abst s k)"
proof (induction parts arbitrary: s)
  case (Cons part parts)
  then show ?case using abandon_law [of s "bwW (ptBuf part)"] by (simp add: abandon_parts_def)
qed (simp add: abandon_parts_def)

definition pkey :: "('w, 'v, 'u) partition \<times> int \<Rightarrow> skey" where
  "pkey pn = wkey (bwW (ptBuf (fst pn)))"

lemma commit_parts_ok:
  "ok s \<Longrightarrow> distinct (map pkey ps) \<Longrightarrow>
   \<forall>pn\<in>set ps. pkey pn \<in> K \<and> abst s (pkey pn) = None \<and> bwErr (ptBuf (fst pn)) = None \<and> 0 \<le> snd pn \<and> snd pn < 2 ^ 63 \<Longrightarrow>
   \<exists>s'. commit_parts S ps s = (s', ROk) \<and> ok s' \<and> (\<forall>pn\<in>set ps. abst s' (pkey pn) = Some (written s (ptBuf (fst pn)), snd pn)) \<and>
     (\<forall>k\<in>K - pkey ` set ps. abst s' k = abst s k)"
proof (induction ps arbitrary: s)
  case (Cons q ps)
  obtain part n where q: "q = (part, n)" by (cases q)
  let ?k = "wkey (bwW (ptBuf part))"
  have p: "?k \<in> K" "abst s ?k = None" "bwErr (ptBuf part) = None" "- (2 ^ 63) \<le> n" "n < 2 ^ 63" "?k \<notin> pkey ` set ps"
    using Cons.prems(2,3) by (auto simp: q pkey_def)
  have d: "distinct (map pkey ps)" using Cons.prems(2) by simp
  from Flush_ok [OF Cons.prems(1) p(1,3)] obtain s1 b where s1: "bufio_Flush S s (ptBuf part) = (s1, b, None)" "writes ?k s s1" "wkey (bwW b) = ?k"
    "pend s1 (bwW b) = written s (ptBuf part)" by blast
  have ok1: "ok s1" "abst s1 (wkey (bwW b)) = None" "wkey (bwW b) \<in> K" using s1(2,3) p(1,2) by (simp_all add: writes_def)
  from commit_law [OF ok1(1,3,2) p(4,5)] obtain s2 where s2: "st_Commit S s1 (bwW b) n = Ret (s2, None)" "ok s2"
    "\<forall>k\<in>K. abst s2 k = (if k = ?k then Some (written s (ptBuf part), n) else abst s1 k)" "\<forall>v. wkey v \<in> K - {?k} \<longrightarrow> pend s2 v = pend s1 v"
    unfolding s1(3,4) by blast
  have ne: "pkey pn \<noteq> ?k" "pkey pn \<in> K" if "pn \<in> set ps" for pn using that p(6) Cons.prems(3) by (auto simp: image_iff)
  have same: "abst s2 k = abst s k" if "k \<in> K" "k \<noteq> ?k" for k using that s2(3) s1(2) by (simp add: writes_def)
  have wrt: "written s2 (ptBuf (fst pn)) = written s (ptBuf (fst pn))" if "pn \<in> set ps" for pn
    using ne [OF that] s2(4) s1(2) by (simp add: written_def writes_def pkey_def)
  have "\<forall>pn\<in>set ps. pkey pn \<in> K \<and> abst s2 (pkey pn) = None \<and> bwErr (ptBuf (fst pn)) = None \<and> 0 \<le> snd pn \<and> snd pn < 2 ^ 63"
    using Cons.prems(3) same ne by simp
  from Cons.IH [OF s2(2) d this] obtain s' where s': "commit_parts S ps s2 = (s', ROk)" "ok s'"
    "\<forall>pn\<in>set ps. abst s' (pkey pn) = Some (written s2 (ptBuf (fst pn)), snd pn)" "\<forall>k\<in>K - pkey ` set ps. abst s' k = abst s2 k" by blast
  have "abst s' ?k = Some (written s (ptBuf part), n)" using s'(4) p(1,6) s2(3) by simp
  moreover have "abst s' k = abst s k" if "k \<in> K - pkey ` set (q # ps)" for k using that s'(4) same by (auto simp: q pkey_def)
  moreover have "pkey q = ?k" by (simp add: q pkey_def)
  ultimately show ?case using s1(1) s2(1) s'(1-3) wrt by (simp add: q)
qed auto

lemma wr_ok_start:
  assumes "ok s'" and "\<forall>k\<in>K. abst s' k = abst s k" and "list_all2 (\<lambda>p. fresh s' (name, p)) [0 ..< np] parts"
  shows "wr_ok C name np s {} (\<lambda>_. []) \<lparr>wrS = s', wrParts = parts, wrRows = replicate np [], wrCount = replicate np 0\<rparr>"
  using assms stored_rows_Nil by (auto simp: wr_ok_def part_ok_at_def fresh_def list_all2_conv_all_nth)

lemma wr_ok_keys:
  assumes "wr_ok C name np s0 F seen st" and "\<forall>i<np. (name, i) \<in> K"
  shows "\<forall>part\<in>set (wrParts st). wkey (bwW (ptBuf part)) \<in> K"
  using assms by (auto simp: wr_ok_def part_ok_at_def in_set_conv_nth)

text \<open>Committing a run whose rows have all been written.\<close>

lemma wr_ok_commit:
  assumes wr: "wr_ok C name np s0 F seen st" and all: "\<forall>i<np. i \<in> F \<or> wrRows st ! i = []" and "\<forall>i<np. (name, i) \<in> K \<and> abst s0 (name, i) = None"
    and "\<forall>i<np. length (seen i) < 2 ^ 63"
  shows "\<exists>s'. commit_parts S (zip (wrParts st) (wrCount st)) (wrS st) = (s', ROk) \<and> ok s' \<and>
    (\<forall>i<np. \<exists>bs. abst s' (name, i) = Some (bs, int (length (seen i))) \<and> stored_rows C (seen i) bs) \<and>
    (\<forall>k\<in>K - Pair name ` {..<np}. abst s' k = abst s0 k)"
proof -
  let ?ps = "zip (wrParts st) (wrCount st)"
  have len: "length ?ps = np" and ok: "ok (wrS st)" "\<forall>k\<in>K. abst (wrS st) k = abst s0 k" using wr by (auto simp: wr_ok_def)
  have at: "pkey (?ps ! i) = (name, i) \<and> bwErr (ptBuf (fst (?ps ! i))) = None \<and> snd (?ps ! i) = int (length (seen i)) \<and>
      stored_rows C (seen i) (written (wrS st) (ptBuf (fst (?ps ! i))))" if "i < np" for i
  proof -
    have "part_ok_at C name F seen st i" "i \<in> F \<or> wrRows st ! i = []" "i < length (wrParts st)" "i < length (wrCount st)" using wr all that by (auto simp: wr_ok_def)
    then show ?thesis by (auto simp: part_ok_at_def pkey_def)
  qed
  have keys: "map pkey ?ps = map (Pair name) [0 ..< np]" using at len by (intro nth_equalityI) (simp_all del: nth_zip length_zip)
  have dist: "distinct (map pkey ?ps)" unfolding keys by (simp add: distinct_map inj_on_def)
  have img: "pkey ` set ?ps = Pair name ` {..<np}" using arg_cong [OF keys, of set] by (auto simp: lessThan_atLeast0)
  have "int (length (seen i)) < 2 ^ 63" if "i < np" for i using assms(4) that by auto
  then have "\<forall>pn\<in>set ?ps. pkey pn \<in> K \<and> abst (wrS st) (pkey pn) = None \<and> bwErr (ptBuf (fst pn)) = None \<and> 0 \<le> snd pn \<and> snd pn < 2 ^ 63"
    using at len assms(3) ok(2) by (metis in_set_conv_nth of_nat_0_le_iff)
  from commit_parts_ok [OF ok(1) dist this] obtain s' where s': "commit_parts S ?ps (wrS st) = (s', ROk)" "ok s'"
    "\<forall>pn\<in>set ?ps. abst s' (pkey pn) = Some (written (wrS st) (ptBuf (fst pn)), snd pn)" "\<forall>k\<in>K - pkey ` set ?ps. abst s' k = abst (wrS st) k" by blast
  have "\<exists>bs. abst s' (name, i) = Some (bs, int (length (seen i))) \<and> stored_rows C (seen i) bs" if "i < np" for i
    using s'(3) at [OF that] len that nth_mem [of i ?ps] by metis
  then show ?thesis using s'(1,2,4) ok(2) unfolding img by auto
qed

lemma run_output_ok:
  fixes C :: "('v, 'u) coding"
  assumes uc: "uc_ok (cd_uc C)" and rd: "slice_reader rd rok str fin mu" "rok r" and np: "1 \<le> np" and "0 < numOut" and "0 < chunk"
    and many: "1 < np \<longrightarrow> 100 \<le> chunk \<and> rowwise part (int np) pf"
    and rws: "\<forall>x\<in>set (str r). length x = cd_ncol C \<and> 0 \<le> pf x \<and> pf x < int np" "length (str r) < 2 ^ 63"
    and ok: "ok s" "\<forall>i<np. (name, i) \<in> K \<and> abst s (name, i) = None"
  shows "\<exists>s'. run_output S C rd part chunk name (int np) numOut (Ret r) s = Some (s', if fin r = EOF then ROk else RErr (WTask (fin r))) \<and> ok s' \<and>
    (if fin r = EOF
     then (\<forall>i<np. \<exists>bs. abst s' (name, i) = Some (bs, int (length (part_rows pf (int np) (str r) i))) \<and> stored_rows C (part_rows pf (int np) (str r) i) bs) \<and>
       (\<forall>k\<in>K - Pair name ` {..<np}. abst s' k = abst s k)
     else \<forall>k\<in>K. abst s' k = abst s k)"
proof -
  let ?res = "if fin r = EOF then ROk else RErr (WTask (fin r))" and ?rows = "part_rows pf (int np) (str r)"
  from create_parts_ok [OF ok(1), of "[0 ..< np]" name] ok(2) obtain s1 and parts :: "('w, 'v, 'u) partition list" where
    s1: "create_parts S name [0 ..< np] s = (s1, Inr parts)" "ok s1" "\<forall>k\<in>K. abst s1 k = abst s k" "list_all2 (\<lambda>p. fresh s1 (name, p)) [0 ..< np] parts" by auto
  let ?st = "\<lparr>wrS = s1, wrParts = parts, wrRows = replicate np [], wrCount = replicate np 0\<rparr>"
  note st = wr_ok_start [OF s1(2-4), where C = C]
  have K: "\<forall>i<np. (name, i) \<in> K" using ok(2) by simp
  have "\<exists>st'. (if 1 < np then map_option (\<lambda>(st, r). if r = ROk then wr_flush S C [0 ..< np] st else (st, r)) (wr_loop S C rd part (int np) chunk r ?st)
      else wr_single S C rd chunk r ?st) = Some (st', ?res) \<and>
      (\<exists>F seen'. wr_ok C name np s F seen' st' \<and> (fin r = EOF \<longrightarrow> (\<forall>i<np. i \<in> F \<or> wrRows st' ! i = []) \<and> (\<forall>i<np. seen' i = ?rows i)))"
  proof (cases "1 < np")
    case True
    with many have "\<forall>i<np. length (wrRows ?st ! i) < chunk div 100" "100 \<le> chunk" "rowwise part (int np) pf" by auto
    from wr_loop_ok [OF uc K this(2) rd(1) this(3) rd(2) rws(1) st this(1)] obtain st' seen' where
      st': "wr_loop S C rd part (int np) chunk r ?st = Some (st', ?res)" "wr_ok C name np s {} seen' st'" "fin r = EOF \<longrightarrow> seen' = (\<lambda>i. [] @ filter (\<lambda>x. nat (pf x) = i) (str r))"
      by blast
    from wr_flush_ok [OF uc K st'(2), of "[0 ..< np]"] obtain st2 where "wr_flush S C [0 ..< np] st' = (st2, ROk)" "wr_ok C name np s ({} \<union> set [0 ..< np]) seen' st2" by auto
    then show ?thesis using st' True
      by (cases "fin r = EOF", intro exI [of _ st2] conjI exI [of _ "{0 ..< np}"] exI [of _ seen'])
        (auto simp: part_rows_def)
  next
    case False
    then have n: "np = 1" using np by simp
    have "\<forall>x\<in>set (str r). length x = cd_ncol C" "(name, 0) \<in> K" using rws(1) K n by auto
    from wr_single_ok [OF uc this(2) assms(6) rd this(1) st [unfolded n]] obtain st' seen' where "wr_single S C rd chunk r ?st = Some (st', ?res)"
      "wr_ok C name 1 s {} seen' st'" "wrRows st' = [[]]" "fin r = EOF \<longrightarrow> seen' 0 = [] @ str r" unfolding n by auto
    then show ?thesis unfolding n by (intro exI [of _ st'] conjI exI [of _ "{}"] exI [of _ seen']) (auto simp: part_rows_def)
  qed
  then obtain st' F seen' where st': "(if 1 < np then map_option (\<lambda>(st, r). if r = ROk then wr_flush S C [0 ..< np] st else (st, r)) (wr_loop S C rd part (int np) chunk r ?st)
      else wr_single S C rd chunk r ?st) = Some (st', ?res)" "wr_ok C name np s F seen' st'"
    "fin r = EOF \<longrightarrow> (\<forall>i<np. i \<in> F \<or> wrRows st' ! i = []) \<and> (\<forall>i<np. seen' i = ?rows i)" by blast
  have out: "run_output S C rd part chunk name (int np) numOut (Ret r) s =
      Some (if ?res = ROk then commit_parts S (zip (wrParts st') (wrCount st')) (wrS st') else (abandon_parts S (wrParts st') (wrS st'), ?res))"
    unfolding run_output_def Let_def nat_int using st'(1) s1(1) assms(5) by (cases "1 < np") (auto split: if_splits)
  show ?thesis
  proof (cases "fin r = EOF")
    case True
    have "length (?rows i) < 2 ^ 63" for i using rws(2) order.strict_trans1 [OF length_filter_le [of "\<lambda>x. nat (pf x) = i" "str r"]] by (auto simp: part_rows_def)
    then have "\<forall>i<np. length (seen' i) < 2 ^ 63" using True st'(3) by simp
    from wr_ok_commit [OF st'(2) _ ok(2) this] True st'(3) show ?thesis using out by auto
  next
    case False
    have "ok (wrS st')" "\<forall>k\<in>K. abst (wrS st') k = abst s k" using st'(2) by (auto simp: wr_ok_def)
    with abandon_parts_ok [OF _ wr_ok_keys [OF st'(2) K]] show ?thesis using False out by simp
  qed
qed

end

section \<open>Stored output is read back\<close>

text \<open>What the decoder makes of the bytes of a stream of messages: \<open>unser\<close> splits them as \<open>cd_ser\<close> wrote them.\<close>

definition decodes :: "('v, 'u) coding \<Rightarrow> (byte list \<Rightarrow> ('v, 'u) msg list) \<Rightarrow> bool" where
  "decodes C unser \<longleftrightarrow> (\<forall>ms. unser (concat (map (cd_ser C) ms)) = ms)"

lemma stored_rows_read:
  assumes "decodes C unser" and "uc_ok (cd_uc C)" and "stored_rows C xs bs" and "0 < chunk"
  shows "\<exists>d. ReadAll (decoding_Read (cd_crc C) (cd_uc C) zero (cd_ncol C)) chunk (NewDecodingReader (unser bs)) [] = Some (Ret (d, xs, None))"
proof -
  from assms(3) obtain ms where ms: "file_rows (cd_crc C) (cd_uc C) (cd_ncol C) xs ms" "bs = concat (map (cd_ser C) ms)" by (auto simp: stored_rows_def)
  from ms(1) obtain fs where fs: "\<forall>f\<in>set fs. wf_batch (cd_ncol C) f" "concat (map rows_of_batch fs) = xs" "ms = concat (map (batch_msgs (cd_crc C) (cd_uc C)) fs)"
    by (auto simp: file_rows_def)
  have "unser bs = ms" using assms(1) by (simp add: decodes_def ms(2))
  with readall_decoding [OF assms(2) fs(1) assms(4) fs(3)] fs(2) show ?thesis by simp
qed

text \<open>
  C5.  A worker that runs a task stores its output: when the rows of the task end in EOF, then afterwards every
  partition is a file of the worker's store whose metadata gives the number of rows of the partition, and reading
  and decoding the file gives exactly the rows that the partitioner sends there, in order; when they end in an error,
  the worker reports that error.  Either way no other task's output in the store has changed, and after an
  error nothing at all.
\<close>

theorem worker_output_stored:
  fixes C :: "('v, 'u) coding" and root :: string
  defines "path lib \<equiv> file_path (bl_Join lib) root"
  assumes "bytes_ok lib content wr" and "inj_on (path lib) K" and "files_ok content (path lib) K fs" and "decodes C unser" and "uc_ok (cd_uc C)"
    and "slice_reader rd rok str fin mu" and "rok r" and "1 \<le> np" and "0 < numOut" and "0 < chunk" and "1 < np \<longrightarrow> 100 \<le> chunk \<and> rowwise part (int np) pf"
    and "\<forall>x\<in>set (str r). length x = cd_ncol C \<and> 0 \<le> pf x \<and> pf x < int np" and "length (str r) < 2 ^ 63"
    and "\<forall>i<np. (name, i) \<in> K \<and> content fs (path lib (name, i)) = None"
  shows "\<exists>fs'. run_output (file_store lib root) C rd part chunk name (int np) numOut (Ret r) fs = Some (fs', if fin r = EOF then ROk else RErr (WTask (fin r))) \<and>
    (fin r = EOF \<longrightarrow> (\<forall>i<np. \<exists>bs d. file_Open lib root fs' (name, i) 0 = Ret (Inr bs) \<and>
       file_Stat lib root fs' (name, i) = Ret (Inr \<lparr>siSize = int (length bs), siRecords = int (length (part_rows pf (int np) (str r) i))\<rparr>) \<and>
       ReadAll (decoding_Read (cd_crc C) (cd_uc C) zero (cd_ncol C)) chunk (NewDecodingReader (unser bs)) [] = Some (Ret (d, part_rows pf (int np) (str r) i, None)))) \<and>
    (\<forall>k\<in>K. fin r \<noteq> EOF \<or> k \<notin> Pair name ` {..<np} \<longrightarrow> file_abs content (path lib) fs' k = file_abs content (path lib) fs k)"
proof -
  let ?abs = "file_abs content (path lib)" and ?rows = "part_rows pf (int np) (str r)" and ?S = "file_store lib root"
  note contract = file_store_contract [OF assms(2) assms(3) [unfolded path_def], folded path_def]
  have "\<forall>i<np. (name, i) \<in> K \<and> ?abs fs (name, i) = None" using assms(15) by (simp add: file_abs_def)
  from task_store.run_output_ok [OF contract assms(6-14) assms(4) this] obtain fs' where
    fs': "run_output ?S C rd part chunk name (int np) numOut (Ret r) fs = Some (fs', if fin r = EOF then ROk else RErr (WTask (fin r)))" "files_ok content (path lib) K fs'"
      "if fin r = EOF then (\<forall>i<np. \<exists>bs. ?abs fs' (name, i) = Some (bs, int (length (?rows i))) \<and> stored_rows C (?rows i) bs) \<and> (\<forall>k\<in>K - Pair name ` {..<np}. ?abs fs' k = ?abs fs k)
       else \<forall>k\<in>K. ?abs fs' k = ?abs fs k" by blast
  have "\<exists>bs d. file_Open lib root fs' (name, i) 0 = Ret (Inr bs) \<and> file_Stat lib root fs' (name, i) = Ret (Inr \<lparr>siSize = int (length bs), siRecords = int (length (?rows i))\<rparr>) \<and>
      ReadAll (decoding_Read (cd_crc C) (cd_uc C) zero (cd_ncol C)) chunk (NewDecodingReader (unser bs)) [] = Some (Ret (d, ?rows i, None))" if "fin r = EOF" "i < np" for i
  proof -
    have k: "(name, i) \<in> K" using assms(15) that(2) by simp
    from fs'(3) that obtain bs where bs: "?abs fs' (name, i) = Some (bs, int (length (?rows i)))" "stored_rows C (?rows i) bs" by auto
    from stored_rows_read [OF assms(5,6) bs(2) assms(11)] obtain d where
      d: "ReadAll (decoding_Read (cd_crc C) (cd_uc C) zero (cd_ncol C)) chunk (NewDecodingReader (unser bs)) [] = Some (Ret (d, ?rows i, None))" by blast
    from task_store.open_law [OF contract fs'(2) k bs(1), of 0] task_store.stat_law [OF contract fs'(2) k bs(1)] d show ?thesis by (auto simp: file_store_def)
  qed
  then show ?thesis using fs'(1,3) by (cases "fin r = EOF") auto
qed

text \<open>An encoding of messages as numbers in unary.\<close>

instance msg :: (countable, countable) countable
  by countable_datatype

fun unary :: "nat \<Rightarrow> byte list \<Rightarrow> nat list" where
  "unary k [] = []"
| "unary k (b # bs) = (if b = 0 then unary (Suc k) bs else k # unary 0 bs)"

lemma unary_code: "unary k (replicate n 0 @ 1 # bs) = (k + n) # unary 0 bs"
  by (induction n arbitrary: k) simp_all

definition unary_coding :: "(int, unit) coding" where
  "unary_coding = \<lparr>cd_ser = \<lambda>m. replicate (to_nat m) 0 @ [1], cd_crc = \<lambda>ms. of_nat (length ms), cd_uc = \<lambda>_. None, cd_ncol = 1, cd_bufio = 2\<rparr>"

lemma unary_decodes: "decodes unary_coding (\<lambda>bs. map from_nat (unary 0 bs))"
proof -
  have "map from_nat (unary 0 (concat (map (\<lambda>m. replicate (to_nat m) 0 @ [1]) ms))) = ms" for ms :: "(int, unit) msg list"
    by (induction ms) (simp_all add: unary_code)
  then show ?thesis by (simp add: decodes_def unary_coding_def)
qed

definition ex_name :: TaskName where
  "ex_name = \<lparr>nInvIndex = 1, nOp = ''inv1_map'', nShard = 0, nNumShard = 2\<rparr>"

theorem worker_output_stored_witness:
  "\<exists>fs' bs d. run_output (file_store mem_bytes ''/tmp/'') unary_coding frame_Read (\<lambda>xs _. Ret (map (\<lambda>x. hd x mod 2) xs)) 200 ex_name 2 1 (Ret [[4], [1], [2], [3]]) (Map.empty, \<lambda>_. []) = Some (fs', ROk) \<and>
    file_Open mem_bytes ''/tmp/'' fs' (ex_name, 1) 0 = Ret (Inr bs) \<and>
    file_Stat mem_bytes ''/tmp/'' fs' (ex_name, 1) = Ret (Inr \<lparr>siSize = int (length bs), siRecords = 2\<rparr>) \<and>
    ReadAll (decoding_Read (cd_crc unary_coding) (cd_uc unary_coding) (\<lambda>_. 0) 1) 200 (NewDecodingReader (map from_nat (unary 0 bs))) [] = Some (Ret (d, [[1], [3]], None))"
proof -
  have inj: "inj_on (file_path (bl_Join mem_bytes) ''/tmp/'') (Pair ex_name ` {..<2})"
    by (rule inj_onI) (auto dest!: file_path_keys [rotated 4] simp: join_ok_def plain_def mem_bytes_def ex_name_def)
  have "\<forall>i<2. (ex_name, i) \<in> Pair ex_name ` {..<2 :: nat} \<and> fst (Map.empty :: string \<rightharpoonup> byte list, \<lambda>_ :: string. [] :: byte list) (file_path (bl_Join mem_bytes) ''/tmp/'' (ex_name, i)) = None" by auto
  moreover have f: "files_ok fst (file_path (bl_Join mem_bytes) ''/tmp/'') (Pair ex_name ` {..<2}) (Map.empty, \<lambda>_. [])" "uc_ok (cd_uc unary_coding)" "cd_ncol unary_coding = 1"
    by (simp_all add: files_ok_def uc_ok_def unary_coding_def)
  moreover have "part_rows (\<lambda>x. hd x mod 2) 2 [[4], [1], [2], [3 :: int]] 1 = [[1], [3]]" by (simp add: part_rows_def)
  ultimately show ?thesis
    using worker_output_stored [OF mem_bytes_ok inj f(1) unary_decodes f(2) frd.slice_reader_axioms, where r = "[[4], [1], [2], [3]]" and np = 2 and name = ex_name
      and numOut = 1 and chunk = 200 and part = "\<lambda>xs _. Ret (map (\<lambda>x. hd x mod 2) xs)" and pf = "\<lambda>x. hd x mod 2" and zero = "\<lambda>_. 0"]
    by (simp add: rowwise_def) (elim exE conjE, drule spec [of _ 1], auto)
qed

section \<open>Small chunks\<close>

text \<open>
  C36.  With a chunk size below 100 no task with several partitions can be run: the buffer of a partition then
  has size zero, and the first row that is read panics, whatever its partition.
\<close>

theorem small_chunk_panics:
  assumes "slice_reader rd rok str fin mu" and "rok r" and "fin r = EOF" and "str r \<noteq> []" and "0 < chunk" and "chunk < 100"
    and "rowwise part np pf" and "\<forall>x\<in>set (str r). 0 \<le> pf x \<and> pf x < int (length (wrRows st))"
  shows "wr_loop S C rd part np chunk r st = Some (st, RPanic ''frame.Slice: slice index out of bounds'')"
  using assms(2-4,8)
proof (induction "mu r" arbitrary: r rule: less_induct)
  case less
  have rws: "wr_rows S C (chunk div 100) (zip xs (map pf xs)) st = (st, if xs = [] then ROk else RPanic ''frame.Slice: slice index out of bounds'')"
    if "set xs \<subseteq> set (str r)" for xs
    using less.prems(4) assms(6) that by (cases xs) (auto simp: list_index_def)
  have pr: "part xs np = Ret (map pf xs)" for xs using assms(7) by (simp add: rowwise_def)
  from slice_reader.read_cases [OF assms(1) less.prems(1) assms(5), case_names more stop] show ?case
  proof cases
    case (more r' xs)
    show ?thesis
    proof (cases "xs = []")
      case True
      have "fin r' = EOF" "str r' \<noteq> []" "\<forall>x\<in>set (str r'). 0 \<le> pf x \<and> pf x < int (length (wrRows st))" using less.prems(2-4) more(4,5) True by auto
      from less.hyps [OF more(6,2) this] show ?thesis using more(1) True by (subst wr_loop.simps) (simp add: pr)
    next
      case False
      then show ?thesis using more(1) rws [of xs] more(4) by (subst wr_loop.simps) (auto simp: pr)
    qed
  next
    case (stop r' xs)
    then show ?thesis using rws [of xs] less.prems(2,3) by (subst wr_loop.simps) (simp add: pr)
  qed
qed

theorem small_chunk_panics_witness:
  "wr_loop (memory_store None) unary_coding frame_Read (\<lambda>xs _. Ret (map (\<lambda>x. hd x mod 2) xs)) 2 99 [[4], [1]]
     \<lparr>wrS = newMemoryStore, wrParts = [], wrRows = [[], []], wrCount = [0, 0]\<rparr> =
   Some (\<lparr>wrS = newMemoryStore, wrParts = [], wrRows = [[], []], wrCount = [0, 0]\<rparr>, RPanic ''frame.Slice: slice index out of bounds'')"
  by (rule small_chunk_panics [OF frd.slice_reader_axioms, where pf = "\<lambda>x. hd x mod 2"]) (simp_all add: rowwise_def)

end
