(* ===== verification/RemoteRead.thy ===== *)
theory RemoteRead
  imports Worker "HOL-Library.Sublist"
begin

text \<open>
  \<open>exec/bigmachine.go\<close>, reading the output of a task from another machine: \<open>retryReader\<close>, which reopens a failed
  connection at the offset it has reached, and \<open>openerAtReader\<close>, which decodes what it reads.

  The connection belongs to bigmachine and is a parameter, \<open>netops\<close>: a call may fail, and so may every read of the
  stream that a call has opened.  \<open>honest\<close> says what a connection does when it does not fail.  \<open>retry.Wait\<close> is the
  function \<open>wait\<close> of the number of retries.  What an opener obtains at an offset is a function of the offset; the
  output that is read does not change while it is read.
\<close>

section \<open>Connections\<close>

record ('c, 'rc) netops =
  nt_Open :: "'c \<Rightarrow> goerror + byte list \<Rightarrow> 'c \<times> (goerror + 'rc)"
  nt_Read :: "'c \<Rightarrow> 'rc \<Rightarrow> nat \<Rightarrow> 'c \<times> 'rc \<times> byte list \<times> gerr"

text \<open>An answer is passed on as it is or lost; a stream yields its bytes in order, and EOF only at its end, and a call that fails does not do so with EOF.\<close>

definition honest :: "('c, 'rc) netops \<Rightarrow> ('rc \<Rightarrow> byte list) \<Rightarrow> bool" where
  "honest N rem \<longleftrightarrow>
     (\<forall>c bs c' rc. nt_Open N c (Inr bs) = (c', Inr rc) \<longrightarrow> rem rc = bs) \<and>
     (\<forall>c e c' rc. nt_Open N c (Inl e) \<noteq> (c', Inr rc)) \<and> (\<forall>c x c'. nt_Open N c x \<noteq> (c', Inl io_EOF)) \<and>
     (\<forall>c rc n c' rc' xs. nt_Read N c rc n = (c', rc', xs, None) \<longrightarrow> rem rc = xs @ rem rc' \<and> length xs \<le> n \<and> (0 < n \<longrightarrow> xs \<noteq> [])) \<and>
     (\<forall>c rc n c' rc' xs. nt_Read N c rc n = (c', rc', xs, Some io_EOF) \<longrightarrow> rem rc = xs \<and> length xs \<le> n)"

section \<open>The retrying reader\<close>

record ('c, 'rc) retryReader =
  rrC :: 'c
  rrErr :: gerr
  rrReader :: "'rc option"
  rrBytes :: nat
  rrRetries :: nat

definition newRetryReader :: "'c \<Rightarrow> ('c, 'rc) retryReader" where
  "newRetryReader c = \<lparr>rrC = c, rrErr = None, rrReader = None, rrBytes = 0, rrRetries = 0\<rparr>"

text \<open>One attempt: the stream is opened where the last one failed, and read.\<close>

definition rr_attempt :: "('c, 'rc) netops \<Rightarrow> (nat \<Rightarrow> goerror + byte list) \<Rightarrow> ('c, 'rc) retryReader \<Rightarrow> nat \<Rightarrow> ('c, 'rc) retryReader \<times> byte list \<times> gerr" where
  "rr_attempt N openAt r n =
     (case (case rrReader r of
              Some rc \<Rightarrow> (rrC r, Inr rc)
            | None \<Rightarrow> nt_Open N (rrC r) (openAt (rrBytes r))) of
        (c, Inl e) \<Rightarrow> (r\<lparr>rrC := c\<rparr>, [], Some e)
      | (c, Inr rc) \<Rightarrow> (case nt_Read N c rc n of (c', rc', xs, e) \<Rightarrow> (r\<lparr>rrC := c', rrReader := Some rc'\<rparr>, xs, e)))"

partial_function (option) retry_Read ::
  "('c, 'rc) netops \<Rightarrow> (nat \<Rightarrow> gerr) \<Rightarrow> (nat \<Rightarrow> goerror + byte list) \<Rightarrow> ('c, 'rc) retryReader \<Rightarrow> nat \<Rightarrow> (('c, 'rc) retryReader \<times> byte list \<times> gerr) option" where
  "retry_Read N wait openAt r n =
     (if rrErr r \<noteq> None then Some (r, [], rrErr r)
      else case rr_attempt N openAt r n of (r', xs, err) \<Rightarrow>
        if err = None \<or> err = Some io_EOF then Some (r'\<lparr>rrRetries := 0, rrErr := err, rrBytes := rrBytes r' + length xs\<rparr>, xs, err)
        else let r'' = r'\<lparr>rrReader := None, rrRetries := Suc (rrRetries r'), rrErr := wait (Suc (rrRetries r'))\<rparr>
             in if rrErr r'' \<noteq> None then Some (r'', [], rrErr r'') else retry_Read N wait openAt r'' n)"

definition retry_Close :: "('c, 'rc) retryReader \<Rightarrow> ('c, 'rc) retryReader" where
  "retry_Close r = r\<lparr>rrReader := None\<rparr>"

text \<open>Reading to the end, with a buffer of \<open>n\<close> bytes, as the decoder does.\<close>

partial_function (option) fetch ::
  "('c, 'rc) netops \<Rightarrow> (nat \<Rightarrow> gerr) \<Rightarrow> (nat \<Rightarrow> goerror + byte list) \<Rightarrow> nat \<Rightarrow> ('c, 'rc) retryReader \<Rightarrow> byte list \<Rightarrow> (byte list \<times> goerror) option" where
  "fetch N wait openAt n r acc = (case retry_Read N wait openAt r n of
       None \<Rightarrow> None
     | Some (r', xs, None) \<Rightarrow> fetch N wait openAt n r' (acc @ xs)
     | Some (r', xs, Some e) \<Rightarrow> Some (acc @ xs, e))"

section \<open>Exact delivery\<close>

text \<open>The opener serves \<open>bs\<close>, when it can be reached.\<close>

definition serves :: "(nat \<Rightarrow> goerror + byte list) \<Rightarrow> byte list \<Rightarrow> bool" where
  "serves openAt bs \<longleftrightarrow> (\<forall>i\<le>length bs. \<forall>x. openAt i = Inr x \<longrightarrow> x = drop i bs)"

text \<open>Nothing fails.\<close>

definition reliable :: "('c, 'rc) netops \<Rightarrow> (nat \<Rightarrow> goerror + byte list) \<Rightarrow> byte list \<Rightarrow> bool" where
  "reliable N openAt bs \<longleftrightarrow> (\<forall>i\<le>length bs. openAt i \<in> range Inr) \<and> (\<forall>c x. snd (nt_Open N c (Inr x)) \<in> range Inr) \<and>
     (\<forall>c rc n c' rc' xs err. nt_Read N c rc n = (c', rc', xs, err) \<longrightarrow> err = None \<or> err = Some io_EOF)"

text \<open>The policy gives up eventually, with an error that is not an end of file.\<close>

definition gives_up :: "(nat \<Rightarrow> gerr) \<Rightarrow> bool" where
  "gives_up wait \<longleftrightarrow> (\<forall>n. \<exists>k>n. wait k \<noteq> None) \<and> (\<forall>k. wait k \<noteq> Some EOF \<and> wait k \<noteq> Some io_EOF)"

definition rr_ok :: "('rc \<Rightarrow> byte list) \<Rightarrow> byte list \<Rightarrow> ('c, 'rc) retryReader \<Rightarrow> bool" where
  "rr_ok rem bs r \<longleftrightarrow> rrBytes r \<le> length bs \<and> (\<forall>rc. rrErr r = None \<and> rrReader r = Some rc \<longrightarrow> rem rc = drop (rrBytes r) bs)"

lemma rr_attempt_ok:
  assumes N: "honest N rem" and "serves openAt bs" and "rr_ok rem bs r" and "rrErr r = None" and at: "rr_attempt N openAt r n = (r', xs, err)"
  shows "rrBytes r' = rrBytes r \<and> rrRetries r' = rrRetries r \<and> rrErr r' = None \<and>
    (err = None \<or> err = Some io_EOF \<longrightarrow> length xs \<le> n \<and> (\<exists>rc. rrReader r' = Some rc \<and> drop (rrBytes r) bs = xs @ (if err = None then rem rc else []))) \<and>
    (err = None \<and> 0 < n \<longrightarrow> xs \<noteq> []) \<and> (reliable N openAt bs \<longrightarrow> err = None \<or> err = Some io_EOF)"
proof -
  let ?o = "case rrReader r of Some rc \<Rightarrow> (rrC r, Inr rc) | None \<Rightarrow> nt_Open N (rrC r) (openAt (rrBytes r))"
  obtain c res where o: "?o = (c, res)" by (cases ?o)
  show ?thesis
  proof (cases res)
    case (Inl e)
    then have "nt_Open N (rrC r) (openAt (rrBytes r)) = (c, Inl e)" using o by (simp split: option.splits)
    moreover have "\<not> reliable N openAt bs"
    proof
      assume rel: "reliable N openAt bs"
      then obtain x where "openAt (rrBytes r) = Inr x" using assms(3) by (auto simp: reliable_def rr_ok_def)
      then have "snd (nt_Open N (rrC r) (openAt (rrBytes r))) \<in> range Inr" using rel by (simp add: reliable_def)
      with \<open>nt_Open N (rrC r) (openAt (rrBytes r)) = (c, Inl e)\<close> show False by auto
    qed
    ultimately have "e \<noteq> io_EOF" "\<not> reliable N openAt bs" using N by (auto simp: honest_def)
    then show ?thesis using at o Inl assms(4) by (auto simp: rr_attempt_def)
  next
    case (Inr rc)
    obtain c' rc' ys e where rd: "nt_Read N c rc n = (c', rc', ys, e)" by (cases "nt_Read N c rc n")
    have f: "r' = r\<lparr>rrC := c', rrReader := Some rc'\<rparr>" "xs = ys" "err = e" using at o Inr rd by (simp_all add: rr_attempt_def)
    have "rem rc = drop (rrBytes r) bs"
    proof (cases "rrReader r")
      case None
      with o Inr have op: "nt_Open N (rrC r) (openAt (rrBytes r)) = (c, Inr rc)" by simp
      with N obtain b where "openAt (rrBytes r) = Inr b" by (cases "openAt (rrBytes r)") (auto simp: honest_def)
      with op N assms(2,3) show ?thesis by (auto simp: honest_def serves_def rr_ok_def)
    next
      case (Some x)
      then show ?thesis using o Inr assms(3,4) by (simp add: rr_ok_def)
    qed
    moreover have "e = None \<longrightarrow> rem rc = ys @ rem rc' \<and> length ys \<le> n \<and> (0 < n \<longrightarrow> ys \<noteq> [])" "e = Some io_EOF \<longrightarrow> rem rc = ys \<and> length ys \<le> n"
      using N rd unfolding honest_def by blast+
    moreover have "reliable N openAt bs \<longrightarrow> e = None \<or> e = Some io_EOF" using rd unfolding reliable_def by blast
    ultimately show ?thesis using f assms(4) by auto
  qed
qed

text \<open>What a call of \<open>Read\<close> returns.\<close>

definition read_exact :: "bool \<Rightarrow> ('rc \<Rightarrow> byte list) \<Rightarrow> (nat \<Rightarrow> gerr) \<Rightarrow> byte list \<Rightarrow> ('c, 'rc) retryReader \<Rightarrow> nat \<Rightarrow> ('c, 'rc) retryReader \<Rightarrow> byte list \<Rightarrow> gerr \<Rightarrow> bool" where
  "read_exact rel rem wait bs r n r' xs err \<longleftrightarrow> rr_ok rem bs r' \<and> rrErr r' = err \<and> rrBytes r' = rrBytes r + length xs \<and> prefix xs (drop (rrBytes r) bs) \<and> length xs \<le> n \<and>
     (err = None \<and> 0 < n \<longrightarrow> xs \<noteq> []) \<and> (err = Some io_EOF \<longrightarrow> rrBytes r' = length bs) \<and> (err \<noteq> None \<and> err \<noteq> Some io_EOF \<longrightarrow> (\<exists>k. wait k = err) \<and> \<not> rel)"

lemma retry_Read_exact:
  assumes N: "honest N rem" and sv: "serves openAt bs" and gu: "gives_up wait" and "rr_ok rem bs r" and "rrErr r = None"
  shows "\<exists>r' xs err. retry_Read N wait openAt r n = Some (r', xs, err) \<and> read_exact (reliable N openAt bs) rem wait bs r n r' xs err"
proof -
  from gu obtain K where K: "rrRetries r < K" "wait K \<noteq> None" unfolding gives_up_def by blast
  from K(1) assms(4,5) show ?thesis
  proof (induction "K - rrRetries r" arbitrary: r rule: less_induct)
    case less
    obtain r1 xs err where at: "rr_attempt N openAt r n = (r1, xs, err)" by (cases "rr_attempt N openAt r n")
    note a = rr_attempt_ok [OF N sv less.prems(2,3) at]
    have le: "rrBytes r \<le> length bs" using less.prems(2) by (simp add: rr_ok_def)
    show ?case
    proof (cases "err = None \<or> err = Some io_EOF")
      case True
      with a obtain rc where d: "drop (rrBytes r) bs = xs @ (if err = None then rem rc else [])" "rrReader r1 = Some rc" by blast
      have "length bs - rrBytes r = length xs + length (if err = None then rem rc else [])" using arg_cong [OF d(1), of length] by simp
      then have len: "rrBytes r + length xs \<le> length bs" "err = Some io_EOF \<longrightarrow> rrBytes r + length xs = length bs" using le by auto
      have "drop (rrBytes r + length xs) bs = drop (length xs) (drop (rrBytes r) bs)" by (simp add: add.commute)
      then have dr: "err = None \<longrightarrow> drop (rrBytes r + length xs) bs = rem rc" using d(1) by simp
      let ?r = "r1\<lparr>rrRetries := 0, rrErr := err, rrBytes := rrBytes r1 + length xs\<rparr>"
      have "retry_Read N wait openAt r n = Some (?r, xs, err)" using less.prems(3) at True by (subst retry_Read.simps) simp
      moreover have "read_exact (reliable N openAt bs) rem wait bs r n ?r xs err" using a len dr d True by (auto simp: read_exact_def rr_ok_def)
      ultimately show ?thesis by blast
    next
      case failed: False
      then have nrel: "\<not> reliable N openAt bs" using a by blast
      let ?r = "r1\<lparr>rrReader := None, rrRetries := Suc (rrRetries r1), rrErr := wait (Suc (rrRetries r1))\<rparr>"
      have eq: "retry_Read N wait openAt r n = (if rrErr ?r \<noteq> None then Some (?r, [], rrErr ?r) else retry_Read N wait openAt ?r n)"
        using less.prems(3) at failed by (subst retry_Read.simps) (auto simp: Let_def)
      have ok: "rr_ok rem bs ?r" using a le by (simp add: rr_ok_def)
      show ?thesis
      proof (cases "wait (Suc (rrRetries r1)) = None")
        case True
        then have "Suc (rrRetries r) < K" using less.prems(1) K(2) a by (metis Suc_lessI)
        then have "K - rrRetries ?r < K - rrRetries r" "rrRetries ?r < K" using a by simp_all
        from less.hyps [OF this ok] True eq show ?thesis using a by (auto simp: read_exact_def)
      next
        case False
        have "read_exact (reliable N openAt bs) rem wait bs r n ?r [] (rrErr ?r)" using a ok False nrel gu by (auto simp: read_exact_def gives_up_def)
        then show ?thesis using eq False by auto
      qed
    qed
  qed
qed

lemma fetch_exact:
  assumes N: "honest N rem" and sv: "serves openAt bs" and gu: "gives_up wait" and "0 < n" and "rr_ok rem bs r" and "rrErr r = None"
  shows "\<exists>xs e. fetch N wait openAt n r acc = Some (acc @ xs, e) \<and> prefix xs (drop (rrBytes r) bs) \<and>
    (if e = io_EOF then xs = drop (rrBytes r) bs else (\<exists>k. wait k = Some e) \<and> \<not> reliable N openAt bs)"
  using assms(5,6)
proof (induction "length bs - rrBytes r" arbitrary: r acc rule: less_induct)
  case less
  from retry_Read_exact [OF N sv gu less.prems, of n] obtain r' xs err where
    r': "retry_Read N wait openAt r n = Some (r', xs, err)" "read_exact (reliable N openAt bs) rem wait bs r n r' xs err" by blast
  from r'(2) obtain ys where ys: "drop (rrBytes r) bs = xs @ ys" by (auto simp: read_exact_def prefix_def)
  have b: "rrBytes r' = rrBytes r + length xs" "rrBytes r' \<le> length bs" using r'(2) by (simp_all add: read_exact_def rr_ok_def)
  have "drop (rrBytes r') bs = drop (length xs) (drop (rrBytes r) bs)" using b by (simp add: add.commute)
  then have dr: "drop (rrBytes r') bs = ys" using ys by simp
  show ?case
  proof (cases err)
    case None
    then have "0 < length xs" using r'(2) assms(4) by (simp add: read_exact_def)
    then have "length bs - rrBytes r' < length bs - rrBytes r" using b by linarith
    from less.hyps [OF this, of "acc @ xs"] r'(2) None obtain zs e where
      "fetch N wait openAt n r' (acc @ xs) = Some ((acc @ xs) @ zs, e)" "prefix zs ys" "if e = io_EOF then zs = ys else (\<exists>k. wait k = Some e) \<and> \<not> reliable N openAt bs"
      unfolding dr by (auto simp: read_exact_def)
    then show ?thesis using r'(1) None ys by (subst fetch.simps) (intro exI [of _ "xs @ zs"] exI [of _ e], auto)
  next
    case (Some e)
    moreover have "e = io_EOF \<longrightarrow> ys = []" using Some r'(2) dr by (auto simp: read_exact_def)
    moreover have "e \<noteq> io_EOF \<longrightarrow> (\<exists>k. wait k = Some e) \<and> \<not> reliable N openAt bs" using Some r'(2) by (auto simp: read_exact_def)
    ultimately show ?thesis using r'(1) ys by (subst fetch.simps) auto
  qed
qed

section \<open>Decoding a stream that breaks off\<close>

lemma decode_cols_trunc:
  assumes "uc_ok uc"
  shows "\<forall>c\<in>set cs. length c = n \<Longrightarrow> strict_prefix (dstream d) (cols_msgs uc i cs) \<Longrightarrow>
    \<exists>d' err. decode_cols uc zero n i (length cs) d = Ret (d', Inl err) \<and> err \<in> {EOF, io_EOF} \<and> dbuf d' = dbuf d"
proof (induction cs arbitrary: i d)
  case (Cons c cs)
  let ?m = "case uc i of None \<Rightarrow> MCol c | Some (enc, dec) \<Rightarrow> MUser (projr (enc c))"
  have cm: "cols_msgs uc i (c # cs) = MBool (uc i \<noteq> None) # ?m # cols_msgs uc (Suc i) cs" by (simp add: col_msgs_def)
  consider "dstream d = []" | "dstream d = [MBool (uc i \<noteq> None)]" | p where "dstream d = col_msgs uc i c @ p" "strict_prefix p (cols_msgs uc (Suc i) cs)"
    using Cons.prems(2) unfolding cm by (cases "dstream d"; cases "tl (dstream d)") (auto simp: col_msgs_def)
  then show ?case
  proof cases
    case 1
    then show ?thesis by (simp add: decode_col_def dec_msg_def)
  next
    case 2
    then show ?thesis by (cases "uc i") (simp_all add: decode_col_def dec_msg_def)
  next
    case 3
    let ?d = "d\<lparr>dstream := p, dcrc := dcrc d @ col_msgs uc i c\<rparr>"
    have "decode_col uc zero n i d = Ret (?d, Inr c)" using decode_col_msgs [OF assms _ 3(1)] Cons.prems(1) by simp
    moreover from Cons.IH [of ?d "Suc i"] Cons.prems(1) 3(2) obtain d' err where
      "decode_cols uc zero n (Suc i) (length cs) ?d = Ret (d', Inl err)" "err \<in> {EOF, io_EOF}" "dbuf d' = dbuf d" by auto
    ultimately show ?thesis by simp
  qed
qed simp

lemma decode_trunc:
  assumes "uc_ok uc" and "wf_batch ncol f" and "strict_prefix (dstream d) (batch_msgs crc uc f)" and "dstream d \<noteq> []"
  obtains d1 d2 err where "dec_msg (d\<lparr>dcrc := []\<rparr>) = (d1, Inr (MInt (int (blen f))))"
    and "decode crc uc zero ncol (blen f) d1 = Ret (d2, Inl err)" and "err \<in> {EOF, io_EOF}" and "dbuf d2 = dbuf d"
proof -
  let ?cs = "cols_msgs uc 0 (bcols f)"
  from assms(3,4) obtain p where p: "dstream d = MInt (int (blen f)) # p" "strict_prefix p (?cs @ [MSum (crc (MInt (int (blen f)) # ?cs))])"
    by (cases "dstream d") (auto simp: batch_msgs_def Let_def)
  let ?d = "d\<lparr>dstream := p, dcrc := [MInt (int (blen f))]\<rparr>"
  have m: "dec_msg (d\<lparr>dcrc := []\<rparr>) = (?d, Inr (MInt (int (blen f))))" using p(1) by (simp add: dec_msg_def)
  have w: "\<forall>c\<in>set (bcols f). length c = blen f" "ncol = length (bcols f)" using assms(2) by (auto simp: wf_batch_def)
  consider "strict_prefix p ?cs" | "p = ?cs" using p(2) by (auto simp: strict_prefix_def prefix_append prefix_Cons)
  then show thesis
  proof cases
    case 1
    then have "strict_prefix (dstream ?d) ?cs" by simp
    from decode_cols_trunc [OF assms(1) w(1) this, of zero] show thesis using that [OF m] w(2) by (auto simp: decode_def)
  next
    case 2
    then show thesis using that [OF m] decode_cols_msgs [OF assms(1) w(1), of ?d 0 "[]" zero] w(2) by (simp add: decode_def dec_msg_def)
  qed
qed

text \<open>A stream of batches that may break off within a batch, unless it is \<open>full\<close>.\<close>

definition trunc :: "bool \<Rightarrow> (('v, 'u) msg list \<Rightarrow> 32 word) \<Rightarrow> ('v, 'u) ucodec \<Rightarrow> nat \<Rightarrow> 'v batch list \<Rightarrow> ('v, 'u) msg list \<Rightarrow> bool" where
  "trunc full crc uc ncol fs ms \<longleftrightarrow> (\<forall>f\<in>set fs. wf_batch ncol f) \<and> (\<exists>p. ms = concat (map (batch_msgs crc uc) fs) @ p \<and>
     (p = [] \<or> \<not> full \<and> (\<exists>f. wf_batch ncol f \<and> strict_prefix p (batch_msgs crc uc f))))"

lemma trunc_Cons: "trunc full crc uc ncol (f # fs) ms \<Longrightarrow> \<exists>ms'. ms = batch_msgs crc uc f @ ms' \<and> wf_batch ncol f \<and> trunc full crc uc ncol fs ms'"
  by (auto simp: trunc_def)

lemma trunc_Nil:
  assumes "uc_ok uc" and "trunc full crc uc ncol [] (dstream d)" and "dstream d \<noteq> []"
  obtains d1 n d2 err where "\<not> full" and "dec_msg (d\<lparr>dcrc := []\<rparr>) = (d1, Inr (MInt (int n)))"
    and "decode crc uc zero ncol n d1 = Ret (d2, Inl err)" and "err \<in> {EOF, io_EOF}" and "dbuf d2 = dbuf d"
proof -
  from assms(2,3) obtain f where f: "\<not> full" "wf_batch ncol f" "strict_prefix (dstream d) (batch_msgs crc uc f)" by (auto simp: trunc_def)
  from decode_trunc [OF assms(1) f(2,3) assms(3), of zero] that f(1) show thesis by metis
qed

lemma stream_rows_trunc:
  assumes "uc_ok uc"
  shows "trunc full crc uc ncol fs ms \<Longrightarrow> length fs \<le> k \<Longrightarrow> stream_rows crc uc zero ncol k ms = concat (map rows_of_batch fs)"
proof (induction fs arbitrary: k ms)
  case Nil
  show ?case
  proof (cases "k = 0 \<or> ms = []")
    case True
    then show ?thesis by (cases k) (auto simp: dec_msg_def NewDecodingReader_def)
  next
    case False
    then obtain k' where k: "k = Suc k'" by (cases k) auto
    have e: "(NewDecodingReader ms)\<lparr>dcrc := []\<rparr> = NewDecodingReader ms" "dstream (NewDecodingReader ms) = ms" by (simp_all add: NewDecodingReader_def)
    from Nil(1) False have "trunc full crc uc ncol [] (dstream (NewDecodingReader ms))" "dstream (NewDecodingReader ms) \<noteq> []" using e(2) by simp_all
    from trunc_Nil [OF assms this, of zero] obtain d1 n d2 err where "dec_msg (NewDecodingReader ms) = (d1, Inr (MInt (int n)))" "decode crc uc zero ncol n d1 = Ret (d2, Inl err)"
      unfolding e(1) by metis
    then show ?thesis using k by simp
  qed
next
  case (Cons f fs)
  from trunc_Cons [OF Cons.prems(1)] obtain ms' where ms: "ms = batch_msgs crc uc f @ ms'" "wf_batch ncol f" "trunc full crc uc ncol fs ms'" by blast
  obtain k' where k: "k = Suc k'" "length fs \<le> k'" using Cons.prems(2) by (cases k) auto
  let ?d = "NewDecodingReader ms"
  have e: "?d\<lparr>dcrc := []\<rparr> = ?d" "dstream ?d = batch_msgs crc uc f @ ms'" by (simp_all add: NewDecodingReader_def ms(1))
  obtain d1 where d1: "dec_msg (?d\<lparr>dcrc := []\<rparr>) = (d1, Inr (MInt (int (blen f))))" by (auto simp: dec_msg_def NewDecodingReader_def ms(1) batch_msgs_def Let_def)
  from decode_batch [OF assms ms(2) d1 e(2), of zero] obtain d2 where "decode crc uc zero ncol (blen f) d1 = Ret (d2, Inr (bcols f))" "dstream d2 = ms'" by metis
  then show ?case using d1 [unfolded e(1)] Cons.IH [OF ms(3) k(2)] k(1) by simp
qed

lemma trunc_prefix:
  assumes "\<forall>f\<in>set fs. wf_batch ncol f" and "prefix ms (concat (map (batch_msgs crc uc) fs))"
  shows "\<exists>gs. prefix gs fs \<and> trunc False crc uc ncol gs ms"
  using assms
proof (induction fs arbitrary: ms)
  case Nil
  then show ?case by (auto simp: trunc_def)
next
  case (Cons f fs)
  from Cons.prems(2) consider "strict_prefix ms (batch_msgs crc uc f)" | ms' where "ms = batch_msgs crc uc f @ ms'" "prefix ms' (concat (map (batch_msgs crc uc) fs))"
    by (cases "ms = batch_msgs crc uc f") (fastforce simp: prefix_append strict_prefix_def)+
  then show ?case
  proof cases
    case 1
    then show ?thesis using Cons.prems(1) by (intro exI [of _ "[]"]) (auto simp: trunc_def)
  next
    case 2
    from Cons.IH [OF _ 2(2)] Cons.prems(1) obtain gs where "prefix gs fs" "trunc False crc uc ncol gs ms'" by auto
    then show ?thesis using 2(1) Cons.prems(1) by (intro exI [of _ "f # gs"]) (auto simp: trunc_def)
  qed
qed

definition tdec_ok :: "bool \<Rightarrow> (('v, 'u) msg list \<Rightarrow> 32 word) \<Rightarrow> ('v, 'u) ucodec \<Rightarrow> nat \<Rightarrow> ('v, 'u) decodingReader \<Rightarrow> bool" where
  "tdec_ok full crc uc ncol d \<longleftrightarrow> (case derr d of
       None \<Rightarrow> \<exists>fs. trunc full crc uc ncol fs (dstream d)
     | Some e \<Rightarrow> (e = EOF \<or> \<not> full \<and> e = io_EOF) \<and> dbuf d = [])"

definition tdec_str :: "(('v, 'u) msg list \<Rightarrow> 32 word) \<Rightarrow> ('v, 'u) ucodec \<Rightarrow> (nat \<Rightarrow> 'v) \<Rightarrow> nat \<Rightarrow> ('v, 'u) decodingReader \<Rightarrow> 'v list list" where
  "tdec_str crc uc zero ncol d = (if derr d = None then dec_str crc uc zero ncol d else [])"

lemma length_batches: "length fs \<le> length (concat (map (batch_msgs crc uc) fs))"
proof (induction fs)
  case (Cons f fs)
  have "0 < length (batch_msgs crc uc f)" by simp
  with Cons show ?case unfolding list.map concat.simps length_append list.size by linarith
qed simp

lemma dec_str_trunc:
  assumes "uc_ok uc" and "trunc full crc uc ncol fs (dstream d)"
  shows "dec_str crc uc zero ncol d = dbuf d @ concat (map rows_of_batch fs)"
proof -
  have "length fs \<le> length (dstream d)" using assms(2) length_batches [of fs crc uc] by (auto simp: trunc_def)
  with stream_rows_trunc [OF assms] show ?thesis by (simp add: dec_str_def)
qed

lemma tdec_Read:
  assumes uc: "uc_ok uc" and ok: "tdec_ok full crc uc ncol d" and n: "0 < n"
  shows "\<exists>d' xs err. decoding_Read crc uc zero ncol d n = Some (Ret (d', xs, err)) \<and> tdec_ok full crc uc ncol d' \<and> length xs \<le> n \<and>
    tdec_str crc uc zero ncol d = xs @ tdec_str crc uc zero ncol d' \<and>
    (case err of None \<Rightarrow> dec_mu crc uc zero ncol d' < dec_mu crc uc zero ncol d
     | Some e \<Rightarrow> (e = EOF \<or> \<not> full \<and> e = io_EOF) \<and> xs = [] \<and> tdec_str crc uc zero ncol d' = [])"
proof (cases "derr d")
  case (Some e)
  then show ?thesis using ok by (simp add: decoding_Read_def tdec_ok_def tdec_str_def)
next
  case None
  with ok obtain fs where fs: "trunc full crc uc ncol fs (dstream d)" by (auto simp: tdec_ok_def)
  note str = dec_str_trunc [OF uc]
  show ?thesis
  proof (cases "dbuf d = []")
    case False
    let ?d = "d\<lparr>dbuf := drop n (dbuf d)\<rparr>"
    have "trunc full crc uc ncol fs (dstream ?d)" using fs by simp
    note s = str [OF fs, of zero] str [OF this, of zero]
    have "length (drop n (dbuf d)) < length (dbuf d)" using False n by simp
    then show ?thesis using None False fs s by (auto simp: decoding_Read_def Let_def tdec_ok_def tdec_str_def dec_mu_def)
  next
    case buf: True
    show ?thesis
    proof (cases fs)
      case Nil
      show ?thesis
      proof (cases "dstream d = []")
        case True
        then show ?thesis using None buf str [OF fs, of zero] Nil by (simp add: decoding_Read_def dec_msg_def Let_def tdec_ok_def tdec_str_def)
      next
        case False
        from trunc_Nil [OF uc fs [unfolded Nil] False, of zero] obtain d1 m d2 err where "\<not> full" "dec_msg (d\<lparr>dcrc := []\<rparr>) = (d1, Inr (MInt (int m)))"
          "decode crc uc zero ncol m d1 = Ret (d2, Inl err)" "err \<in> {EOF, io_EOF}" "dbuf d2 = dbuf d" by metis
        then show ?thesis using None buf str [OF fs, of zero] Nil by (auto simp: decoding_Read_def Let_def tdec_ok_def tdec_str_def)
      qed
    next
      case (Cons f gs)
      from trunc_Cons [OF fs [unfolded Cons]] obtain ms' where ms: "dstream d = batch_msgs crc uc f @ ms'" "wf_batch ncol f" "trunc full crc uc ncol gs ms'" by blast
      obtain d1 where d1: "dec_msg (d\<lparr>dcrc := []\<rparr>) = (d1, Inr (MInt (int (blen f))))" using ms(1) by (auto simp: dec_msg_def batch_msgs_def Let_def)
      from decode_batch [OF uc ms(2) d1 ms(1), of zero] obtain d2 where d2: "decode crc uc zero ncol (blen f) d1 = Ret (d2, Inr (bcols f))" "dstream d2 = ms'"
        "derr d2 = derr d" "dbuf d2 = dbuf d" by metis
      have shorter: "length (dstream d2) < length (dstream d)" using d2(2) ms(1) by simp
      have okd: "tdec_ok full crc uc ncol (d2\<lparr>dbuf := b\<rparr>)" "dec_str crc uc zero ncol (d2\<lparr>dbuf := b\<rparr>) = b @ concat (map rows_of_batch gs)" for b
        using ms(3) d2 None str [of full crc ncol gs "d2\<lparr>dbuf := b\<rparr>" zero] by (auto simp: tdec_ok_def)
      have all: "dec_str crc uc zero ncol d = rows_of_batch f @ concat (map rows_of_batch gs)" using str [OF fs, of zero] Cons buf by simp
      show ?thesis
      proof (cases "blen f \<le> n")
        case True
        have "d2\<lparr>dbuf := []\<rparr> = d2" using d2(4) buf by simp
        with okd [of "[]"] all d1 d2 shorter None buf True show ?thesis by (simp add: decoding_Read_def Let_def dec_mu_def tdec_str_def)
      next
        case False
        with okd [of "drop n (rows_of_batch f)"] all d1 d2 shorter None buf n show ?thesis
          by (simp add: decoding_Read_def Let_def dec_mu_def tdec_str_def batch_rows_def)
      qed
    qed
  qed
qed

section \<open>Reading the output of a task\<close>

text \<open>The environment of the readers: the connections, the policy, the decoder's buffer and the decoding.\<close>

record ('v, 'u, 'c, 'rc) xfer =
  xf_net :: "('c, 'rc) netops"
  xf_wait :: "nat \<Rightarrow> gerr"
  xf_buf :: nat
  xf_unser :: "byte list \<Rightarrow> ('v, 'u) msg list"
  xf_cd :: "('v, 'u) coding"
  xf_zero :: "nat \<Rightarrow> 'v"

text \<open>
  An \<open>openerAtReader\<close>.  When it is opened, it gets the messages that the retrying reader delivers and the error that
  ends them; where the decoder meets the end of the messages it returns that error.
\<close>

record ('v, 'u, 'c) openerAtReader =
  oaOpenerAt :: "nat \<Rightarrow> goerror + byte list"
  oaReviseSeverity :: bool
  oaConn :: 'c
  oaDec :: "(('v, 'u) decodingReader \<times> goerror) option"

definition oar_open :: "('v, 'u, 'c, 'rc) xfer \<Rightarrow> ('v, 'u, 'c) openerAtReader \<Rightarrow> (('v, 'u) decodingReader \<times> goerror) option" where
  "oar_open X r = (case oaDec r of
       Some p \<Rightarrow> Some p
     | None \<Rightarrow> map_option (\<lambda>(bs, e). (NewDecodingReader (xf_unser X bs), e))
         (fetch (xf_net X) (xf_wait X) (oaOpenerAt r) (xf_buf X) (newRetryReader (oaConn r)) []))"

definition oar_Read :: "('v, 'u, 'c, 'rc) xfer \<Rightarrow> (('v, 'u, 'c) openerAtReader, 'v list) reader" where
  "oar_Read X r n = (case oar_open X r of
       None \<Rightarrow> None
     | Some (d, e) \<Rightarrow> run_bind (decoding_Read (cd_crc (xf_cd X)) (cd_uc (xf_cd X)) (xf_zero X) (cd_ncol (xf_cd X)) d n) (\<lambda>(d', xs, err).
         let err' = (if e \<noteq> io_EOF \<and> (err = Some EOF \<or> err = Some io_EOF) then Some e else err)
         in Some (Ret (r\<lparr>oaDec := Some (d', e)\<rparr>, xs, if oaReviseSeverity r then reviseSeverity (map_option WErr err') else err'))))"

definition oar_Close :: "('v, 'u, 'c) openerAtReader \<Rightarrow> ('v, 'u, 'c) openerAtReader" where
  "oar_Close r = r\<lparr>oaDec := None\<rparr>"

definition xfer_ok :: "('v, 'u, 'c, 'rc) xfer \<Rightarrow> bool" where
  "xfer_ok X \<longleftrightarrow> (\<exists>rem. honest (xf_net X) rem) \<and> gives_up (xf_wait X) \<and> 0 < xf_buf X \<and> uc_ok (cd_uc (xf_cd X)) \<and>
     decodes (xf_cd X) (xf_unser X) \<and> (\<forall>ms bs. prefix bs (concat (map (cd_ser (xf_cd X)) ms)) \<longrightarrow> prefix (xf_unser X bs) ms)"

abbreviation xf_decok :: "('v, 'u, 'c, 'rc) xfer \<Rightarrow> bool \<Rightarrow> ('v, 'u) decodingReader \<Rightarrow> bool" where
  "xf_decok X full d \<equiv> tdec_ok full (cd_crc (xf_cd X)) (cd_uc (xf_cd X)) (cd_ncol (xf_cd X)) d"

abbreviation xf_decstr :: "('v, 'u, 'c, 'rc) xfer \<Rightarrow> ('v, 'u) decodingReader \<Rightarrow> 'v list list" where
  "xf_decstr X d \<equiv> tdec_str (cd_crc (xf_cd X)) (cd_uc (xf_cd X)) (xf_zero X) (cd_ncol (xf_cd X)) d"

definition oar_ok :: "('v, 'u, 'c, 'rc) xfer \<Rightarrow> ('v, 'u, 'c) openerAtReader \<Rightarrow> bool" where
  "oar_ok X r \<longleftrightarrow> uc_ok (cd_uc (xf_cd X)) \<and> (case oar_open X r of None \<Rightarrow> False | Some (d, e) \<Rightarrow> xf_decok X (e = io_EOF) d)"

definition oar_str :: "('v, 'u, 'c, 'rc) xfer \<Rightarrow> ('v, 'u, 'c) openerAtReader \<Rightarrow> 'v list list" where
  "oar_str X r = (case oar_open X r of None \<Rightarrow> [] | Some (d, e) \<Rightarrow> xf_decstr X d)"

definition oar_fin :: "('v, 'u, 'c, 'rc) xfer \<Rightarrow> ('v, 'u, 'c) openerAtReader \<Rightarrow> goerror" where
  "oar_fin X r = (case oar_open X r of None \<Rightarrow> EOF | Some (d, e) \<Rightarrow>
     if e = io_EOF then EOF else if oaReviseSeverity r then the (reviseSeverity (Some (WErr e))) else e)"

definition oar_mu :: "('v, 'u, 'c, 'rc) xfer \<Rightarrow> ('v, 'u, 'c) openerAtReader \<Rightarrow> nat" where
  "oar_mu X r = (case oar_open X r of None \<Rightarrow> 0 | Some (d, e) \<Rightarrow> dec_mu (cd_crc (xf_cd X)) (cd_uc (xf_cd X)) (xf_zero X) (cd_ncol (xf_cd X)) d)"

lemma reviseSeverity_Some: "\<exists>e'. reviseSeverity (Some (WErr e)) = Some e' \<and> (e' = EOF \<longleftrightarrow> e = EOF)"
  by (cases e) (auto simp: reviseSeverity_def)

lemma reviseSeverity_EOF [simp]: "reviseSeverity (Some (WErr EOF)) = Some EOF" "reviseSeverity None = None"
  by (simp_all add: reviseSeverity_def)

lemma oar_reader:
  fixes X :: "('v, 'u, 'c, 'rc) xfer"
  shows "eof_alone_reader (oar_Read X) (oar_ok X) (oar_str X) (oar_fin X) (oar_mu X)"
proof
  fix r :: "('v, 'u, 'c) openerAtReader" and n :: nat
  assume r: "oar_ok X r" "0 < n"
  then obtain d e where o: "oar_open X r = Some (d, e)" "xf_decok X (e = io_EOF) d" "uc_ok (cd_uc (xf_cd X))" by (auto simp: oar_ok_def split: option.splits)
  from tdec_Read [OF o(3,2) r(2), of "xf_zero X"] obtain d' xs err where
    d': "decoding_Read (cd_crc (xf_cd X)) (cd_uc (xf_cd X)) (xf_zero X) (cd_ncol (xf_cd X)) d n = Some (Ret (d', xs, err))" "xf_decok X (e = io_EOF) d'"
      "length xs \<le> n" "xf_decstr X d = xs @ xf_decstr X d'"
      "case err of None \<Rightarrow> dec_mu (cd_crc (xf_cd X)) (cd_uc (xf_cd X)) (xf_zero X) (cd_ncol (xf_cd X)) d' < dec_mu (cd_crc (xf_cd X)) (cd_uc (xf_cd X)) (xf_zero X) (cd_ncol (xf_cd X)) d
       | Some x \<Rightarrow> (x = EOF \<or> e \<noteq> io_EOF \<and> x = io_EOF) \<and> xs = [] \<and> xf_decstr X d' = []" by blast
  obtain e' where e': "reviseSeverity (Some (WErr e)) = Some e'" using reviseSeverity_Some by blast
  have "oar_open X (r\<lparr>oaDec := Some (d', e)\<rparr>) = Some (d', e)" by (simp add: oar_open_def)
  then show "\<exists>res. oar_Read X r n = Some (Ret res) \<and> read_ok (oar_ok X) (oar_str X) (oar_fin X) (oar_mu X) r n res"
    using o d' e' by (auto simp: oar_Read_def oar_ok_def oar_str_def oar_fin_def oar_mu_def read_ok_def Let_def split: option.splits)
next
  fix r r' :: "('v, 'u, 'c) openerAtReader" and n :: nat and xs e
  assume r: "oar_ok X r" "0 < n" "oar_Read X r n = Some (Ret (r', xs, Some e))"
  then obtain d x where o: "oar_open X r = Some (d, x)" "xf_decok X (x = io_EOF) d" "uc_ok (cd_uc (xf_cd X))" by (auto simp: oar_ok_def split: option.splits)
  from tdec_Read [OF o(3,2) r(2), of "xf_zero X"] obtain d' ys err where
    d': "decoding_Read (cd_crc (xf_cd X)) (cd_uc (xf_cd X)) (xf_zero X) (cd_ncol (xf_cd X)) d n = Some (Ret (d', ys, err))" "err \<noteq> None \<longrightarrow> ys = []" by (auto split: option.splits)
  show "xs = []" using r(3) o(1) d' by (cases err) (auto simp: oar_Read_def Let_def split: if_splits)
qed

interpretation oard: eof_alone_reader "oar_Read X" "oar_ok X" "oar_str X" "oar_fin X" "oar_mu X"
  by (rule oar_reader)

text \<open>A reader that has not been opened, for an output with the rows \<open>rws\<close>.\<close>

lemma oar_start:
  fixes X :: "('v, 'u, 'c, 'rc) xfer"
  assumes X: "xfer_ok X" and sv: "serves (oaOpenerAt r) bs" and st: "stored_rows (xf_cd X) rws bs" and "oaDec r = None"
  shows "oar_ok X r \<and> prefix (oar_str X r) rws \<and> (oar_fin X r = EOF \<longrightarrow> oar_str X r = rws) \<and> (reliable (xf_net X) (oaOpenerAt r) bs \<longrightarrow> oar_fin X r = EOF)"
proof -
  from X obtain rem where x: "honest (xf_net X) rem" "gives_up (xf_wait X)" "0 < xf_buf X" "uc_ok (cd_uc (xf_cd X))" "decodes (xf_cd X) (xf_unser X)"
    "\<forall>ms bs. prefix bs (concat (map (cd_ser (xf_cd X)) ms)) \<longrightarrow> prefix (xf_unser X bs) ms" unfolding xfer_ok_def by blast
  let ?r = "newRetryReader (oaConn r) :: ('c, 'rc) retryReader"
  have rr: "rr_ok rem bs ?r" "rrErr ?r = None" "rrBytes ?r = 0" by (simp_all add: rr_ok_def newRetryReader_def)
  from fetch_exact [OF x(1) sv x(2,3) rr(1,2), of "[]"] obtain b e where b: "fetch (xf_net X) (xf_wait X) (oaOpenerAt r) (xf_buf X) (newRetryReader (oaConn r)) [] = Some (b, e)"
    "prefix b bs" "if e = io_EOF then b = bs else (\<exists>k. xf_wait X k = Some e) \<and> \<not> reliable (xf_net X) (oaOpenerAt r) bs" using rr(3) by auto
  let ?d = "NewDecodingReader (xf_unser X b)"
  have o: "oar_open X r = Some (?d, e)" using b(1) assms(4) by (simp add: oar_open_def)
  from st obtain ms fs where ms: "\<forall>f\<in>set fs. wf_batch (cd_ncol (xf_cd X)) f" "concat (map rows_of_batch fs) = rws" "ms = concat (map (batch_msgs (cd_crc (xf_cd X)) (cd_uc (xf_cd X))) fs)"
    "bs = concat (map (cd_ser (xf_cd X)) ms)" by (auto simp: stored_rows_def file_rows_def)
  have "prefix (xf_unser X b) ms" using x(6) b(2) ms(4) by simp
  from trunc_prefix [OF ms(1) this [unfolded ms(3)]] obtain gs where gs: "prefix gs fs" "trunc False (cd_crc (xf_cd X)) (cd_uc (xf_cd X)) (cd_ncol (xf_cd X)) gs (xf_unser X b)" by blast
  have full: "trunc True (cd_crc (xf_cd X)) (cd_uc (xf_cd X)) (cd_ncol (xf_cd X)) fs (xf_unser X b)" if "e = io_EOF"
    using that b(3) x(5) ms by (auto simp: trunc_def decodes_def)
  have str: "oar_str X r = concat (map rows_of_batch hs)" if "trunc full (cd_crc (xf_cd X)) (cd_uc (xf_cd X)) (cd_ncol (xf_cd X)) hs (xf_unser X b)" for full hs
    using dec_str_trunc [OF x(4), of full "cd_crc (xf_cd X)" "cd_ncol (xf_cd X)" hs ?d "xf_zero X"] that by (simp add: oar_str_def o tdec_str_def NewDecodingReader_def)
  have "oar_ok X r" using x(4) gs(2) full by (cases "e = io_EOF") (auto simp: oar_ok_def o tdec_ok_def NewDecodingReader_def)
  moreover have "prefix (oar_str X r) rws" using str [OF gs(2)] gs(1) ms(2) by (auto simp: prefix_def)
  moreover have "e = io_EOF" if "oar_fin X r = EOF"
  proof (rule ccontr)
    assume e: "e \<noteq> io_EOF"
    then have "e \<noteq> EOF" using b(3) x(2) by (auto simp: gives_up_def)
    with reviseSeverity_Some [of e] that e show False by (auto simp: oar_fin_def o split: if_splits)
  qed
  moreover have "oar_str X r = rws" if "e = io_EOF" using str [OF full [OF that]] ms(2) by simp
  moreover have "reliable (xf_net X) (oaOpenerAt r) bs \<longrightarrow> oar_fin X r = EOF" using b(3) by (auto simp: oar_fin_def o split: if_splits)
  ultimately show ?thesis by blast
qed

text \<open>
  C16.  The retrying reader delivers what the other machine stores.  However the connection fails, and wherever it
  does, reading to the end returns; the bytes read are a prefix of what is stored, and all of it when the reader
  reports EOF.  It fails only when the retry policy has given up, and not when nothing fails.
\<close>

theorem retry_reader_exact:
  fixes N :: "('c, 'rc) netops"
  assumes "honest N rem" and "serves openAt bs" and "gives_up wait" and "0 < n"
  shows "\<exists>xs e. fetch N wait openAt n (newRetryReader c) [] = Some (xs, e) \<and> prefix xs bs \<and> (e = io_EOF \<longrightarrow> xs = bs) \<and>
    (e \<noteq> io_EOF \<longrightarrow> (\<exists>k. wait k = Some e) \<and> \<not> reliable N openAt bs)"
proof -
  let ?r = "newRetryReader c :: ('c, 'rc) retryReader"
  have "rr_ok rem bs ?r" "rrErr ?r = None" "rrBytes ?r = 0" by (simp_all add: rr_ok_def newRetryReader_def)
  then show ?thesis using fetch_exact [OF assms, of ?r "[]"] by (auto split: if_splits)
qed

text \<open>
  C7.  Rows read from another machine are the rows stored there.  Whatever fails, reading the output of a task through
  the retrying and decoding reader returns a prefix of its rows; it ends without an error only after all of them, and
  always does so if nothing fails.  In particular a connection that breaks within a batch is never taken for the end.
\<close>

theorem remote_read_exact:
  assumes "xfer_ok X" and "serves (oaOpenerAt r) bs" and "stored_rows (xf_cd X) rws bs" and "oaDec r = None" and "0 < chunk"
  shows "\<exists>r' xs err. ReadAll (oar_Read X) chunk r [] = Some (Ret (r', xs, err)) \<and> prefix xs rws \<and> (err = None \<longrightarrow> xs = rws) \<and>
    (reliable (xf_net X) (oaOpenerAt r) bs \<longrightarrow> err = None)"
proof -
  from oar_start [OF assms(1-4)] oard.readall_loop_spec [of X r chunk "[]"] assms(5) show ?thesis by (auto simp: ReadAll_def split: if_splits dest: append_prefixD)
qed

section \<open>Examples\<close>

text \<open>A connection that fails \<open>c\<close> times, after some bytes, and a policy of five attempts.\<close>

definition flaky :: "(nat, byte list) netops" where
  "flaky = \<lparr>nt_Open = (\<lambda>c x. (c, case x of Inl e \<Rightarrow> Inl (ErrE [ARemote] (Some e)) | Inr bs \<Rightarrow> Inr bs)),
     nt_Read = (\<lambda>c rc n. if 0 < c then (c - 1, rc, take n rc, Some (ErrNew ''connection reset''))
       else if rc = [] then (c, [], [], Some io_EOF) else (c, drop n rc, take n rc, None))\<rparr>"

definition five_tries :: "nat \<Rightarrow> gerr" where
  "five_tries k = (if k < 5 then None else Some (ErrE [AFatal] None))"

lemma flaky_honest: "honest flaky (\<lambda>rc. rc)"
  by (auto simp: honest_def flaky_def io_EOF_def split: sum.splits)

lemma five_tries_gives_up: "gives_up five_tries"
proof -
  have "\<exists>k>n. five_tries k \<noteq> None" for n by (intro exI [of _ "n + 5"]) (simp add: five_tries_def)
  then show ?thesis by (simp add: gives_up_def) (simp add: five_tries_def io_EOF_def)
qed

theorem retry_reader_exact_witness:
  "\<exists>xs e. fetch flaky five_tries (\<lambda>i. Inr (drop i [1, 2, 3])) 2 (newRetryReader 3) [] = Some (xs, e) \<and> prefix xs [1, 2, 3] \<and> (e = io_EOF \<longrightarrow> xs = [1, 2, 3])"
  using retry_reader_exact [OF flaky_honest, of "\<lambda>i. Inr (drop i [1, 2, 3])" "[1, 2, 3]" five_tries 2 3] five_tries_gives_up by (auto simp: serves_def)

lemma unary_prefix: "prefix xs ys \<Longrightarrow> prefix (unary k xs) (unary k ys)"
  by (induction k xs arbitrary: ys rule: unary.induct) (auto simp: prefix_def)

definition flaky_xfer :: "(int, unit, nat, byte list) xfer" where
  "flaky_xfer = \<lparr>xf_net = flaky, xf_wait = five_tries, xf_buf = 16, xf_unser = (\<lambda>bs. map from_nat (unary 0 bs)), xf_cd = unary_coding, xf_zero = (\<lambda>_. 0)\<rparr>"

lemma flaky_xfer_ok: "xfer_ok flaky_xfer"
proof -
  have "prefix (map from_nat (unary 0 bs)) ms" if "prefix bs (concat (map (cd_ser unary_coding) ms))" for bs and ms :: "(int, unit) msg list"
    using map_mono_prefix [OF unary_prefix [OF that, of 0], of "from_nat :: nat \<Rightarrow> (int, unit) msg"] unary_decodes by (simp add: decodes_def)
  then show ?thesis using flaky_honest five_tries_gives_up unary_decodes by (auto simp: xfer_ok_def flaky_xfer_def uc_ok_def unary_coding_def)
qed

definition ex_bytes :: "byte list" where
  "ex_bytes = concat (map (cd_ser unary_coding) (batch_msgs (cd_crc unary_coding) (cd_uc unary_coding) (batch_of_rows 1 [[7], [8]])))"

theorem remote_read_exact_witness:
  "\<exists>r' xs err. ReadAll (oar_Read flaky_xfer) 1 \<lparr>oaOpenerAt = (\<lambda>i. Inr (drop i ex_bytes)), oaReviseSeverity = True, oaConn = 2, oaDec = None\<rparr> [] = Some (Ret (r', xs, err)) \<and>
     prefix xs [[7], [8]] \<and> (err = None \<longrightarrow> xs = [[7], [8]])"
proof -
  have st: "stored_rows (xf_cd flaky_xfer) [[7], [8]] ex_bytes"
    using stored_rows_snoc [OF stored_rows_Nil, of "[[7], [8]]" unary_coding] by (simp add: ex_bytes_def flaky_xfer_def) (simp add: unary_coding_def)
  have "serves (oaOpenerAt \<lparr>oaOpenerAt = (\<lambda>i. Inr (drop i ex_bytes)), oaReviseSeverity = True, oaConn = 2, oaDec = None\<rparr>) ex_bytes" by (simp add: serves_def)
  from remote_read_exact [OF flaky_xfer_ok this st, of 1] show ?thesis by auto
qed

end
