(* ===== verification/WorkerCombine.thy ===== *)
theory WorkerCombine
  imports Worker
begin

text \<open>
  \<open>exec/bigmachine.go\<close>, tasks whose output is combined on the worker: \<open>runCombine\<close>, \<open>CommitCombiner\<close> and
  \<open>writeCombiner\<close>, with the states of shared combine buffers.

  A channel that holds a combiner is the combiner itself.  Whether another task holds it when \<open>runCombine\<close> only tries
  to take it is the parameter \<open>avail\<close>, a function of the number of rows combined so far.  \<open>writeCombiner\<close>, which the
  source runs in goroutines while \<open>CommitCombiner\<close> waits, is one step here; its partitions are written in turn.
\<close>

section \<open>The state of combine buffers\<close>

definition combinerNone :: int where "combinerNone = 0"
definition combinerWriting :: int where "combinerWriting = 1"
definition combinerCommitted :: int where "combinerCommitted = 2"
definition combinerError :: int where "combinerError = 3"
definition combinerIdle :: int where "combinerIdle = 4"

lemmas combinerStates = combinerNone_def combinerWriting_def combinerCommitted_def combinerError_def combinerIdle_def

record ('s, 'v, 'u) wcomb =
  wcStore :: 's
  wcStates :: "TaskName \<Rightarrow> int"
  wcErrors :: "TaskName \<Rightarrow> gerr"
  wcCombiners :: "TaskName \<Rightarrow> ('v, 'u) combiner list"

definition combine_key :: "TaskName \<Rightarrow> string \<Rightarrow> TaskName" where
  "combine_key name key = (if key \<noteq> [] then \<lparr>nInvIndex = 0, nOp = key, nShard = 0, nNumShard = 0\<rparr> else name)"

text \<open>A combiner per partition; \<open>mk\<close> is \<open>newCombiner\<close>.\<close>

fun new_combiners :: "(nat \<Rightarrow> (goerror + ('v, 'u) combiner) go) \<Rightarrow> nat list \<Rightarrow> (goerror + ('v, 'u) combiner list) go" where
  "new_combiners mk [] = Ret (Inr [])"
| "new_combiners mk (i # is) = go_bind (mk i) (\<lambda>r. case r of
     Inl e \<Rightarrow> Ret (Inl e)
   | Inr c \<Rightarrow> go_bind (new_combiners mk is) (\<lambda>r. case r of Inl e \<Rightarrow> Ret (Inl e) | Inr cs \<Rightarrow> Ret (Inr (c # cs))))"

text \<open>
  Joining the users of a key.  A panic of \<open>newCombiner\<close> leaves the worker's mutex locked; it is an outcome of its own,
  after which no call of the worker that takes the mutex returns.  (The number of partitions is not negative.)
\<close>

datatype 'a entered = Entered 'a | Refused rout | PanicLocked string

definition rc_enter :: "(nat \<Rightarrow> (goerror + ('v, 'u) combiner) go) \<Rightarrow> nat \<Rightarrow> TaskName \<Rightarrow> ('s, 'v, 'u) wcomb \<Rightarrow> ('s, 'v, 'u) wcomb entered" where
  "rc_enter mk np k w =
     (let s = wcStates w k
      in if s = combinerWriting then Refused (RErr (WErr (ErrNew ''combine key still writing'')))
         else if s = combinerCommitted then Refused (RErr (WErr (ErrNew ''combine key already committed'')))
         else if s = combinerError then Refused (RErr (WTask (the (wcErrors w k))))
         else if s = combinerNone
         then (case new_combiners mk [0 ..< np] of
             Panic msg \<Rightarrow> PanicLocked msg
           | Ret (Inl e) \<Rightarrow> Refused (RErr (WErr e))
           | Ret (Inr cs) \<Rightarrow> Entered (w\<lparr>wcCombiners := (wcCombiners w)(k := cs), wcStates := (wcStates w)(k := combinerIdle + 1)\<rparr>))
         else Entered (w\<lparr>wcStates := (wcStates w)(k := s + 1)\<rparr>))"

section \<open>Combining the rows of a task\<close>

text \<open>How a part of \<open>runCombine\<close> ends; a panic may come while the task holds the combiner of a partition.\<close>

datatype rcout = RcOk | RcErr werr | RcPanic bool string

record ('v, 'u) rcrun =
  rcParts :: "('v list, 'v) combiningFrame list"
  rcCombs :: "('v, 'u) combiner list"
  rcSeen :: nat

definition rc_flush1 :: "('v, 'u) comb_env \<Rightarrow> nat \<Rightarrow> ('v, 'u) rcrun \<Rightarrow> (('v, 'u) rcrun \<times> rcout) option" where
  "rc_flush1 E i st = (case Compact (rcParts st ! i) of (pc, flushed) \<Rightarrow>
     (case combiner_Combine E (rcCombs st ! i) flushed of
        None \<Rightarrow> None
      | Some (Panic msg) \<Rightarrow> Some (st, RcPanic True msg)
      | Some (Ret (c, err)) \<Rightarrow> Some (st\<lparr>rcParts := (rcParts st)[i := pc], rcCombs := (rcCombs st)[i := c]\<rparr>,
          case err of None \<Rightarrow> RcOk | Some e \<Rightarrow> RcErr (WErr e))))"

fun rc_rows :: "('v, 'u) comb_env \<Rightarrow> (nat \<Rightarrow> bool) \<Rightarrow> ('v list \<times> int) list \<Rightarrow> ('v, 'u) rcrun \<Rightarrow> (('v, 'u) rcrun \<times> rcout) option" where
  "rc_rows E avail [] st = Some (st, RcOk)"
| "rc_rows E avail ((x, p) # ps) st = (case list_index (rcParts st) p of
     Panic msg \<Rightarrow> Some (st, RcPanic False msg)
   | Ret pcomb \<Rightarrow> (case cf_Combine (ce_less E) (ce_hash E) (ce_combiner E) (zero_row E) [row_pair x] pcomb of
       None \<Rightarrow> None
     | Some (Panic msg) \<Rightarrow> Some (st, RcPanic False msg)
     | Some (Ret pcomb) \<Rightarrow>
         let i = nat p; n = rcSeen st; st = st\<lparr>rcParts := (rcParts st)[i := pcomb], rcSeen := Suc n\<rparr>
         in if clen pcomb \<le> ccap pcomb div 2 \<or> clen pcomb < 8 \<and> \<not> avail n then rc_rows E avail ps st
            else (case rc_flush1 E i st of
                None \<Rightarrow> None
              | Some (st, RcOk) \<Rightarrow> rc_rows E avail ps st
              | Some (st, out) \<Rightarrow> Some (st, out))))"

partial_function (option) rc_loop ::
  "('v, 'u) comb_env \<Rightarrow> (nat \<Rightarrow> bool) \<Rightarrow> ('r, 'v list) reader \<Rightarrow> 'v Partitioner \<Rightarrow> int \<Rightarrow> nat \<Rightarrow> 'r \<Rightarrow> ('v, 'u) rcrun \<Rightarrow> (('v, 'u) rcrun \<times> rcout) option" where
  "rc_loop E avail rd part np chunk r st = (case rd r chunk of
       None \<Rightarrow> None
     | Some (Panic msg) \<Rightarrow> Some (st, RcPanic False msg)
     | Some (Ret (r', xs, err)) \<Rightarrow>
         if err \<noteq> None \<and> err \<noteq> Some EOF then Some (st, RcErr (WTask (the err)))
         else case part xs np of
             Panic msg \<Rightarrow> Some (st, RcPanic False msg)
           | Ret shards \<Rightarrow> (case rc_rows E avail (zip xs shards) st of
               None \<Rightarrow> None
             | Some (st, RcOk) \<Rightarrow> if err = Some EOF then Some (st, RcOk) else rc_loop E avail rd part np chunk r' st
             | Some (st, out) \<Rightarrow> Some (st, out)))"

fun rc_flush :: "('v, 'u) comb_env \<Rightarrow> nat list \<Rightarrow> ('v, 'u) rcrun \<Rightarrow> (('v, 'u) rcrun \<times> rcout) option" where
  "rc_flush E [] st = Some (st, RcOk)"
| "rc_flush E (i # is) st = (case rc_flush1 E i st of
     None \<Rightarrow> None
   | Some (st, RcOk) \<Rightarrow> rc_flush E is st
   | Some (st, out) \<Rightarrow> Some (st, out))"

section \<open>Committing\<close>

text \<open>The body of a goroutine of \<open>writeCombiner\<close>.\<close>

definition write_part ::
  "('s, 'w) storeops \<Rightarrow> ('v, 'u) coding \<Rightarrow> ('v, 'u) comb_cfg \<Rightarrow> TaskName \<Rightarrow> nat \<Rightarrow> ('v, 'u) combiner \<Rightarrow> 's \<Rightarrow> ('s \<times> rout) option" where
  "write_part S C cc k p c s = (case st_Create S s (k, p) of
     Panic msg \<Rightarrow> Some (s, RPanic msg)
   | Ret (s, Inl e) \<Rightarrow> Some (s, RErr (WErr e))
   | Ret (s, Inr w) \<Rightarrow> (case WriteTo (put_store S C) (cc_env cc) (cc_type cc) c \<lparr>ew = (s, \<lparr>bwW = w, bwBuf = [], bwErr = None\<rparr>), ecrc = []\<rparr> of
       None \<Rightarrow> None
     | Some (Panic msg) \<Rightarrow> Some (s, RPanic msg)
     | Some (Ret (enc, n, Some e)) \<Rightarrow> Some (st_Abandon S (fst (ew enc)) (bwW (snd (ew enc))), RErr (WErr e))
     | Some (Ret (enc, n, None)) \<Rightarrow> (case bufio_Flush S (fst (ew enc)) (snd (ew enc)) of
         (s, b, Some e) \<Rightarrow> Some (st_Abandon S s (bwW b), RErr (WErr e))
       | (s, b, None) \<Rightarrow> (case st_Commit S s (bwW b) (int n) of
           Panic msg \<Rightarrow> Some (s, RPanic msg)
         | Ret (s, Some e) \<Rightarrow> Some (s, RErr (WErr e))
         | Ret (s, None) \<Rightarrow> Some (s, ROk)))))"

fun write_parts ::
  "('s, 'w) storeops \<Rightarrow> ('v, 'u) coding \<Rightarrow> ('v, 'u) comb_cfg \<Rightarrow> TaskName \<Rightarrow> (nat \<times> ('v, 'u) combiner) list \<Rightarrow> 's \<Rightarrow> ('s \<times> rout) option" where
  "write_parts S C cc k [] s = Some (s, ROk)"
| "write_parts S C cc k ((p, c) # pcs) s = (case write_part S C cc k p c s of
     None \<Rightarrow> None
   | Some (s, ROk) \<Rightarrow> write_parts S C cc k pcs s
   | Some (s, e) \<Rightarrow> map_option (\<lambda>(s, _). (s, e)) (write_parts S C cc k pcs s))"

text \<open>A panic in a goroutine ends the process of the worker.\<close>

definition writeCombiner :: "('s, 'w) storeops \<Rightarrow> ('v, 'u) coding \<Rightarrow> ('v, 'u) comb_cfg \<Rightarrow> TaskName \<Rightarrow> ('s, 'v, 'u) wcomb \<Rightarrow> ('s, 'v, 'u) wcomb go option" where
  "writeCombiner S C cc k w = (case write_parts S C cc k (enumerate 0 (wcCombiners w k)) (wcStore w) of
     None \<Rightarrow> None
   | Some (s, RPanic msg) \<Rightarrow> Some (Panic msg)
   | Some (s, RErr e) \<Rightarrow> Some (Ret (w\<lparr>wcStore := s, wcCombiners := (wcCombiners w)(k := []), wcStates := (wcStates w)(k := combinerError),
       wcErrors := (wcErrors w)(k \<mapsto> (case e of WErr x \<Rightarrow> x | WTask x \<Rightarrow> x))\<rparr>))
   | Some (s, ROk) \<Rightarrow> Some (Ret (w\<lparr>wcStore := s, wcCombiners := (wcCombiners w)(k := []), wcStates := (wcStates w)(k := combinerCommitted)\<rparr>)))"

text \<open>A call that finds the key being written waits; it does not return by itself.\<close>

definition CommitCombiner :: "('s, 'w) storeops \<Rightarrow> ('v, 'u) coding \<Rightarrow> ('v, 'u) comb_cfg \<Rightarrow> TaskName \<Rightarrow> ('s, 'v, 'u) wcomb \<Rightarrow> (('s, 'v, 'u) wcomb \<times> rout) option" where
  "CommitCombiner S C cc k w =
     (let result = (\<lambda>w. if wcStates w k = combinerCommitted then ROk
                         else RErr (WTask (ErrE [] (wcErrors w k))));
          s = wcStates w k
      in if s = combinerNone then Some (w, RErr (WErr (ErrNew ''invalid combiner key'')))
         else if s = combinerWriting then None
         else if s = combinerCommitted \<or> s = combinerError then Some (w, result w)
         else if s = combinerIdle
         then (case writeCombiner S C cc k (w\<lparr>wcStates := (wcStates w)(k := combinerWriting)\<rparr>) of
             None \<Rightarrow> None
           | Some (Panic msg) \<Rightarrow> Some (w, RPanic msg)
           | Some (Ret w) \<Rightarrow> Some (w, result w))
         else Some (w, RErr (WErr (ErrNew ''combiner key busy''))))"

text \<open>
  The deferred part of \<open>runCombine\<close>.  It commits the buffers of the task when there is no error; while the task
  panics there is none yet.  The writer waits for a combiner that the panic has left taken.
\<close>

definition rc_leave ::
  "('s, 'w) storeops \<Rightarrow> ('v, 'u) coding \<Rightarrow> ('v, 'u) comb_cfg \<Rightarrow> TaskName \<Rightarrow> string \<Rightarrow> rcout \<Rightarrow> ('s, 'v, 'u) wcomb \<Rightarrow> (('s, 'v, 'u) wcomb \<times> rout) option" where
  "rc_leave S C cc k key out w =
     (let w = w\<lparr>wcStates := (wcStates w)(k := wcStates w k - 1)\<rparr>
      in case out of
           RcErr e \<Rightarrow> Some (w, RErr e)
         | RcOk \<Rightarrow> if key = [] then CommitCombiner S C cc k w else Some (w, ROk)
         | RcPanic held msg \<Rightarrow>
             if key \<noteq> [] then Some (w, RPanic msg)
             else if held then None
             else map_option (\<lambda>(w, _). (w, RPanic msg)) (CommitCombiner S C cc k w))"

text \<open>\<open>runCombine\<close>; the frames of the task have 8 slots and room for one row.\<close>

definition rc_body ::
  "('v, 'u) comb_cfg \<Rightarrow> (nat \<Rightarrow> bool) \<Rightarrow> ('r, 'v list) reader \<Rightarrow> 'v Partitioner \<Rightarrow> nat \<Rightarrow> int \<Rightarrow> 'r \<Rightarrow> ('v, 'u) combiner list \<Rightarrow> (('v, 'u) rcrun \<times> rcout) option" where
  "rc_body cc avail rd part chunk np r cs =
     (case map_go (\<lambda>_. makeCombiningFrame (zero_row (cc_env cc)) (cc_type cc) 8 1) [0 ..< nat np] of
        Panic msg \<Rightarrow> Some (\<lparr>rcParts = [], rcCombs = cs, rcSeen = 0\<rparr>, RcPanic False msg)
      | Ret pcs \<Rightarrow> (case rc_loop (cc_env cc) avail rd part np chunk r \<lparr>rcParts = pcs, rcCombs = cs, rcSeen = 0\<rparr> of
          None \<Rightarrow> None
        | Some (st, RcOk) \<Rightarrow> rc_flush (cc_env cc) [0 ..< nat np] st
        | Some (st, out) \<Rightarrow> Some (st, out)))"

definition runCombine ::
  "('s, 'w) storeops \<Rightarrow> ('v, 'u) coding \<Rightarrow> ('v, 'u) comb_cfg \<Rightarrow> (nat \<Rightarrow> bool) \<Rightarrow> ('r, 'v list) reader \<Rightarrow> 'v Partitioner \<Rightarrow> nat \<Rightarrow> TaskName \<Rightarrow> string \<Rightarrow> int \<Rightarrow> 'r
     \<Rightarrow> ('s, 'v, 'u) wcomb \<Rightarrow> (('s, 'v, 'u) wcomb \<times> rout) option" where
  "runCombine S C cc avail rd part chunk name key np r w =
     (let k = combine_key name key;
          mk = (\<lambda>i. newCombiner (cc_ops cc) (cc_env cc) (cc_tmp cc) (cc_init cc) (cc_scratch cc) (cc_type cc) (chunk * 100))
      in case rc_enter mk (nat np) k w of
           Refused e \<Rightarrow> Some (w, e)
         | PanicLocked msg \<Rightarrow> Some (w, RPanic msg)
         | Entered w \<Rightarrow> (case rc_body cc avail rd part chunk np r (wcCombiners w k) of
             None \<Rightarrow> None
           | Some (st, out) \<Rightarrow> rc_leave S C cc k key out (w\<lparr>wcCombiners := (wcCombiners w)(k := rcCombs st)\<rparr>)))"

section \<open>What the combiners hold\<close>

text \<open>
  A partition of a task on its way: \<open>R\<close> is what the shared combiner held before, \<open>seen\<close> are the rows of the task so
  far.  Some of them, \<open>Ps\<close>, have been flushed to the combiner in \<open>runs\<close>, and \<open>P\<close> are in the task's own table.
\<close>

definition rc_at ::
  "('v \<Rightarrow> 'v \<Rightarrow> 'v) \<Rightarrow> ('v, 'u) comb_env \<Rightarrow> ('v list \<times> 'v) multiset \<Rightarrow> 'v list list \<Rightarrow> ('v list, 'v) combiningFrame \<Rightarrow> ('v, 'u) combiner \<Rightarrow> bool" where
  "rc_at g E R seen pc c \<longleftrightarrow> (\<exists>m Ps runs P. cf_ok (ce_hash E) m pc \<and> 0 < nscratch pc \<and> summary g P (table pc) \<and> list_all2 (is_run g) Ps runs \<and>
     comb_ok g E (R + (\<Sum>r\<leftarrow>runs. mset r)) c \<and> mset (map row_pair seen) = sum_list Ps + P \<and> (\<forall>x\<in>set seen. Suc (length (fst (row_pair x))) = ce_ncol E))"

text \<open>The rows \<open>M\<close> have been flushed to the combiner.\<close>

definition rc_done :: "('v \<Rightarrow> 'v \<Rightarrow> 'v) \<Rightarrow> ('v, 'u) comb_env \<Rightarrow> ('v list \<times> 'v) multiset \<Rightarrow> ('v list \<times> 'v) multiset \<Rightarrow> ('v, 'u) combiner \<Rightarrow> bool" where
  "rc_done g E R M c \<longleftrightarrow> (\<exists>Ps runs. list_all2 (is_run g) Ps runs \<and> comb_ok g E (R + (\<Sum>r\<leftarrow>runs. mset r)) c \<and> M = sum_list Ps)"

definition fits :: "('v list \<times> 'v) multiset \<Rightarrow> 'v list list \<Rightarrow> bool" where
  "fits R rws \<longleftrightarrow> card (fst ` set_mset (R + mset (map row_pair rws))) \<le> maxKeys"

lemma card_keys_le: "card (fst ` set_mset M) \<le> n \<Longrightarrow> A \<subseteq> fst ` set_mset M \<Longrightarrow> card A \<le> n"
  using card_mono [of "fst ` set_mset M" A] by simp

lemma fits_prefix: "fits R (xs @ ys) \<Longrightarrow> fits R xs"
  unfolding fits_def by (erule card_keys_le) auto

lemma run_keys: "is_run g P xs \<Longrightarrow> fst ` set xs = fst ` set_mset P"
  by (auto simp: is_run_def summary_def dom_map_of_conv_image_fst)

lemma runs_keys: "list_all2 (is_run g) Ps runs \<Longrightarrow> fst ` set_mset (\<Sum>r\<leftarrow>runs. mset r) = fst ` set_mset (sum_list Ps)"
  by (induction rule: list_all2_induct) (simp_all add: image_Un run_keys)

text \<open>
  The task's own table of a partition stays small: it has 8 or 16 slots and holds at most 8 keys between the rows, as it
  is flushed when it is more than half full.
\<close>

definition small :: "('k, 'v) combiningFrame \<Rightarrow> bool" where
  "small pc \<longleftrightarrow> clen pc \<le> 8 \<and> ccap pc \<in> {8, 16}"

lemma rehash_cap: "rehash hash rws c = Some c' \<Longrightarrow> ccap c' = ccap c"
  by (induction hash rws c rule: rehash.induct) (auto simp: bind_eq_Some_conv split: if_splits)

lemma cf_make_cap: "cf_make zero n ns c = Ret c' \<Longrightarrow> ccap c' = n"
  by (auto simp: cf_make_def split: if_splits)

lemma added_cap: "added hash zero c = Some (Ret c') \<Longrightarrow> ccap c' = ccap c \<or> ccap c' = 2 * ccap c \<and> threshold c < Suc (clen c)"
  by (auto simp: added_def Let_def run_bind_eq_Ret dest!: rehash_cap dest: cf_make_cap split: if_splits)

lemma combine_row_cap: "combine_row lt hash f zero i c = Some (Ret c') \<Longrightarrow> ccap c' = ccap c \<or> ccap c' = 2 * ccap c \<and> threshold c < Suc (clen c)"
  by (auto simp: combine_row_def Let_def bind_eq_Some_conv run_bind_eq_Ret dest!: added_cap split: if_splits)

lemma cf_Combine_cap:
  assumes "cf_Combine lt hash f zero [x] c = Some (Ret c')" and "0 < nscratch c"
  shows "ccap c' = ccap c \<or> ccap c' = 2 * ccap c \<and> threshold c < Suc (clen c)"
proof -
  have "min (nscratch c) (length [x]) = Suc 0" "(length [x] + nscratch c - 1) div nscratch c = Suc 0" using assms(2) by simp_all
  with assms show ?thesis
    by (auto simp: cf_Combine_def Let_def run_bind_eq_Ret dest!: combine_row_cap simp del: min_less_iff_conj)
qed

lemma clen_dom: "cf_ok hash m c \<Longrightarrow> clen c = card (dom (table c))"
  using card_dom_table [of hash m c] by (simp add: cf_ok_def)

lemma rc_at_take:
  assumes E: "env_ok g E" and "rc_at g E R seen pc c" and "Suc (length (fst (row_pair x))) = ce_ncol E" and "fits R (seen @ [x])"
  shows "\<exists>pc'. cf_Combine (ce_less E) (ce_hash E) (ce_combiner E) (zero_row E) [row_pair x] pc = Some (Ret pc') \<and> rc_at g E R (seen @ [x]) pc' c \<and>
    (small pc \<longrightarrow> clen pc' \<le> 9 \<and> ccap pc' \<in> {8, 16})"
proof -
  from assms(2) obtain m Ps runs P where a: "cf_ok (ce_hash E) m pc" "0 < nscratch pc" "summary g P (table pc)" "list_all2 (is_run g) Ps runs"
    "comb_ok g E (R + (\<Sum>r\<leftarrow>runs. mset r)) c" "mset (map row_pair seen) = sum_list Ps + P" "\<forall>x\<in>set seen. Suc (length (fst (row_pair x))) = ce_ncol E"
    unfolding rc_at_def by blast
  have seen: "set_mset (mset (map row_pair seen)) = set_mset (sum_list Ps + P)" using a(6) by (rule arg_cong)
  have "fst ` set [row_pair x] \<union> dom (table pc) \<subseteq> fst ` set_mset (R + mset (map row_pair (seen @ [x])))"
    using a(3) seen by (auto simp: summary_def)
  from card_keys_le [OF assms(4) [unfolded fits_def] this] have "card (fst ` set [row_pair x] \<union> dom (table pc)) \<le> maxKeys" .
  then obtain m' pc' where c': "cf_Combine (ce_less E) (ce_hash E) (ce_combiner E) (zero_row E) [row_pair x] pc = Some (Ret pc')" "cf_ok (ce_hash E) m' pc'"
    "table pc' = fold (combined_with g) [row_pair x] (table pc)" "nscratch pc' = nscratch pc"
    using cf_Combine_spec [where lt = "ce_less E" and f = "[row_pair x]" and g = g and zero = "zero_row E", OF a(1) _ a(2)] E by (auto simp: env_ok_def)
  have "summary g (mset [row_pair x] + P) (table pc')" unfolding c'(3) by (rule summary_fold [OF a(3)])
  then have "rc_at g E R (seen @ [x]) pc' c" unfolding rc_at_def using a c' assms(3)
    by (intro exI [of _ m'] exI [of _ Ps] exI [of _ runs] exI [of _ "mset [row_pair x] + P"]) auto
  moreover have "clen pc' \<le> 9 \<and> ccap pc' \<in> {8, 16}" if "small pc"
  proof -
    have "clen pc' \<le> Suc (clen pc)" unfolding clen_dom [OF a(1)] clen_dom [OF c'(2)] c'(3) by (simp add: card_insert_if)
    moreover have "threshold pc = 7 * ccap pc div 10" using a(1) by (simp add: cf_ok_def)
    ultimately show ?thesis using cf_Combine_cap [OF c'(1) a(2)] that by (auto simp: small_def)
  qed
  ultimately show ?thesis using c'(1) by blast
qed

lemma rc_at_flush:
  assumes E: "env_ok g E" and "rc_at g E R seen pc c" and "fits R seen"
  shows "\<exists>pc' f c'. Compact pc = (pc', f) \<and> combiner_Combine E c f = Some (Ret (c', None)) \<and> rc_at g E R seen pc' c' \<and> rc_done g E R (mset (map row_pair seen)) c' \<and>
    clen pc' = 0 \<and> ccap pc' = ccap pc"
proof -
  from assms(2) obtain m Ps runs P where a: "cf_ok (ce_hash E) m pc" "0 < nscratch pc" "summary g P (table pc)" "list_all2 (is_run g) Ps runs"
    "comb_ok g E (R + (\<Sum>r\<leftarrow>runs. mset r)) c" "mset (map row_pair seen) = sum_list Ps + P" "\<forall>x\<in>set seen. Suc (length (fst (row_pair x))) = ce_ncol E"
    unfolding rc_at_def by blast
  obtain pc' f where cp: "Compact pc = (pc', f)" by fastforce
  note run = Compact_run [OF a(1,3) cp]
  have seen: "set_mset (mset (map row_pair seen)) = set_mset (sum_list Ps + P)" using a(6) by (rule arg_cong)
  have wd: "\<forall>x\<in>#P. Suc (length (fst x)) = ce_ncol E"
  proof
    fix x assume "x \<in># P"
    then have "x \<in># mset (map row_pair seen)" using a(6) by simp
    then show "Suc (length (fst x)) = ce_ncol E" using a(7) by auto
  qed
  have len: "\<forall>x\<in>set f. Suc (length (fst x)) = ce_ncol E" using run_lengths [OF run(1) wd] by simp
  have "fst ` set_mset (mset f + (R + (\<Sum>r\<leftarrow>runs. mset r))) \<subseteq> fst ` set_mset (R + mset (map row_pair seen))"
    using run_keys [OF run(1)] runs_keys [OF a(4)] seen by (auto simp: image_Un)
  from card_keys_le [OF assms(3) [unfolded fits_def] this] have "card (fst ` set_mset (mset f + (R + (\<Sum>r\<leftarrow>runs. mset r)))) \<le> maxKeys" .
  from combiner_Combine_ok [OF E a(5) len this] obtain c' where c': "combiner_Combine E c f = Some (Ret (c', None))" "comb_ok g E (mset f + (R + (\<Sum>r\<leftarrow>runs. mset r))) c'" by blast
  have eq: "mset f + (R + (\<Sum>r\<leftarrow>runs. mset r)) = R + (\<Sum>r\<leftarrow>runs @ [f]. mset r)" by simp
  have l: "list_all2 (is_run g) (Ps @ [P]) (runs @ [f])" using a(4) run(1) by (simp add: list_all2_appendI)
  have "rc_at g E R seen pc' c'"
    unfolding rc_at_def using a(2,6,7) l run(2) c'(2) [unfolded eq] Compact_spec(2,4) [OF a(1) cp]
    by (intro exI [of _ m] exI [of _ "Ps @ [P]"] exI [of _ "runs @ [f]"] exI [of _ "{#}"]) simp
  moreover have "rc_done g E R (mset (map row_pair seen)) c'" unfolding rc_done_def using a(6) l c'(2) [unfolded eq] by (intro exI [of _ "Ps @ [P]"] exI [of _ "runs @ [f]"]) simp
  moreover have "clen pc' = 0 \<and> ccap pc' = ccap pc" using cp by (auto simp: Compact_def split: prod.splits)
  ultimately show ?thesis using cp c'(1) by blast
qed

definition rc_ok :: "('v \<Rightarrow> 'v \<Rightarrow> 'v) \<Rightarrow> ('v, 'u) comb_env \<Rightarrow> nat \<Rightarrow> (nat \<Rightarrow> ('v list \<times> 'v) multiset) \<Rightarrow> (nat \<Rightarrow> 'v list list) \<Rightarrow> ('v, 'u) rcrun \<Rightarrow> bool" where
  "rc_ok g E np R seen st \<longleftrightarrow> length (rcParts st) = np \<and> length (rcCombs st) = np \<and> (\<forall>i<np. rc_at g E (R i) (seen i) (rcParts st ! i) (rcCombs st ! i))"

abbreviation rc_small :: "nat \<Rightarrow> ('v, 'u) rcrun \<Rightarrow> bool" where
  "rc_small np st \<equiv> \<forall>i<np. small (rcParts st ! i)"

lemma rc_flush1_ok:
  assumes E: "env_ok g E" and ok: "rc_ok g E np R seen st" and i: "i < np" and "fits (R i) (seen i)"
  shows "\<exists>st'. rc_flush1 E i st = Some (st', RcOk) \<and> rc_ok g E np R seen st' \<and> rc_done g E (R i) (mset (map row_pair (seen i))) (rcCombs st' ! i) \<and> (\<forall>j. j \<noteq> i \<longrightarrow> rcCombs st' ! j = rcCombs st ! j) \<and>
    (\<forall>j. j \<noteq> i \<longrightarrow> rcParts st' ! j = rcParts st ! j) \<and> clen (rcParts st' ! i) = 0 \<and> ccap (rcParts st' ! i) = ccap (rcParts st ! i)"
proof -
  have "rc_at g E (R i) (seen i) (rcParts st ! i) (rcCombs st ! i)" using ok i by (simp add: rc_ok_def)
  from rc_at_flush [OF E this assms(4)] obtain pc' f c' where f: "Compact (rcParts st ! i) = (pc', f)" "combiner_Combine E (rcCombs st ! i) f = Some (Ret (c', None))"
    "rc_at g E (R i) (seen i) pc' c'" "rc_done g E (R i) (mset (map row_pair (seen i))) c'" "clen pc' = 0 \<and> ccap pc' = ccap (rcParts st ! i)" by blast
  let ?st = "st\<lparr>rcParts := (rcParts st)[i := pc'], rcCombs := (rcCombs st)[i := c']\<rparr>"
  have "rc_flush1 E i st = Some (?st, RcOk)" using f(1,2) by (simp add: rc_flush1_def)
  moreover have "rc_ok g E np R seen ?st" using ok f(3) i by (auto simp: rc_ok_def nth_list_update)
  ultimately show ?thesis using f(4,5) ok i by (intro exI [of _ ?st]) (simp add: rc_ok_def)
qed

lemma rc_rows_ok:
  assumes E: "env_ok g E"
  shows "rc_ok g E np R seen st \<Longrightarrow> \<forall>x\<in>set xs. Suc (length (fst (row_pair x))) = ce_ncol E \<and> 0 \<le> pf x \<and> pf x < int np \<Longrightarrow>
    \<forall>i<np. fits (R i) (seen i @ filter (\<lambda>x. nat (pf x) = i) xs) \<Longrightarrow>
    \<exists>st'. rc_rows E avail (zip xs (map pf xs)) st = Some (st', RcOk) \<and> rc_ok g E np R (\<lambda>i. seen i @ filter (\<lambda>x. nat (pf x) = i) xs) st' \<and>
      (rc_small np st \<longrightarrow> rc_small np st')"
proof (induction xs arbitrary: seen st)
  case (Cons x xs)
  let ?i = "nat (pf x)" and ?seen = "\<lambda>i. seen i @ (if i = nat (pf x) then [x] else [])"
  have i: "?i < np" "0 \<le> pf x" "pf x < int np" "Suc (length (fst (row_pair x))) = ce_ncol E" using Cons.prems(2) by auto
  have len: "length (rcParts st) = np" "length (rcCombs st) = np" and at: "rc_at g E (R j) (seen j) (rcParts st ! j) (rcCombs st ! j)" if "j < np" for j
    using Cons.prems(1) that i(1) by (auto simp: rc_ok_def)
  have all: "?seen j @ filter (\<lambda>x. nat (pf x) = j) xs = seen j @ filter (\<lambda>x. nat (pf x) = j) (x # xs)" for j by auto
  have fits: "fits (R j) (?seen j @ filter (\<lambda>x. nat (pf x) = j) xs)" if "j < np" for j using Cons.prems(3) that unfolding all by blast
  have f1: "fits (R ?i) (seen ?i @ [x])" using fits_prefix [OF fits [OF i(1)]] by simp
  from rc_at_take [OF E at [OF i(1)] i(4) f1] obtain pc where pc: "cf_Combine (ce_less E) (ce_hash E) (ce_combiner E) (zero_row E) [row_pair x] (rcParts st ! ?i) = Some (Ret pc)"
    "rc_at g E (R ?i) (seen ?i @ [x]) pc (rcCombs st ! ?i)" "small (rcParts st ! ?i) \<longrightarrow> clen pc \<le> 9 \<and> ccap pc \<in> {8, 16}" by blast
  let ?st = "st\<lparr>rcParts := (rcParts st)[?i := pc], rcSeen := Suc (rcSeen st)\<rparr>"
  have ok1: "rc_ok g E np R ?seen ?st" using Cons.prems(1) pc(2) i(1) by (auto simp: rc_ok_def nth_list_update)
  have li: "list_index (rcParts st) (pf x) = Ret (rcParts st ! ?i)" using i len(1) [OF i(1)] by (simp add: list_index_def)
  have rest: "\<forall>x\<in>set xs. Suc (length (fst (row_pair x))) = ce_ncol E \<and> 0 \<le> pf x \<and> pf x < int np" "\<forall>j<np. fits (R j) (?seen j @ filter (\<lambda>x. nat (pf x) = j) xs)"
    using Cons.prems(2) fits by auto
  show ?case
  proof (cases "clen pc \<le> ccap pc div 2 \<or> clen pc < 8 \<and> \<not> avail (rcSeen st)")
    case True
    have "small pc" if "small (rcParts st ! ?i)" using pc(3) that True by (auto simp: small_def)
    then have "rc_small np st \<longrightarrow> rc_small np ?st" using len(1) [OF i(1)] i(1) by (auto simp: nth_list_update)
    with Cons.IH [OF ok1 rest] show ?thesis using True li pc(1) unfolding all by (auto simp: Let_def)
  next
    case False
    have "fits (R ?i) (?seen ?i)" using f1 by simp
    from rc_flush1_ok [OF E ok1 i(1) this] obtain st2 where st2: "rc_flush1 E ?i ?st = Some (st2, RcOk)" "rc_ok g E np R ?seen st2"
      "\<forall>j. j \<noteq> ?i \<longrightarrow> rcParts st2 ! j = rcParts ?st ! j" "clen (rcParts st2 ! ?i) = 0" "ccap (rcParts st2 ! ?i) = ccap (rcParts ?st ! ?i)" by blast
    have "rc_small np st \<longrightarrow> rc_small np st2"
    proof (intro impI allI)
      fix j assume "rc_small np st" and "j < np"
      then show "small (rcParts st2 ! j)" using st2(3-5) pc(3) len(1) [OF i(1)] i(1) by (cases "j = ?i") (auto simp: small_def)
    qed
    with Cons.IH [OF st2(2) rest] show ?thesis using False li pc(1) st2(1) unfolding all by (auto simp: Let_def)
  qed
qed auto

text \<open>The rows that end up at a partition, and what has been taken of them when the reader fails.\<close>

definition err_alone :: "('r, 'x) reader \<Rightarrow> ('r \<Rightarrow> bool) \<Rightarrow> bool" where
  "err_alone rd rok \<longleftrightarrow> (\<forall>s n s' xs e. rok s \<longrightarrow> 0 < n \<longrightarrow> rd s n = Some (Ret (s', xs, Some e)) \<longrightarrow> xs = [])"

lemma rc_loop_ok:
  assumes E: "env_ok g E" and ch: "0 < chunk" and rd: "slice_reader rd rok str fin mu" and pt: "rowwise part (int np) pf"
    and "rok r" and "\<forall>x\<in>set (str r). Suc (length (fst (row_pair x))) = ce_ncol E \<and> 0 \<le> pf x \<and> pf x < int np" and "rc_ok g E np R seen st"
    and "\<forall>i<np. fits (R i) (seen i @ filter (\<lambda>x. nat (pf x) = i) (str r))"
  shows "\<exists>st' taken. rc_loop E avail rd part (int np) chunk r st = Some (st', if fin r = EOF then RcOk else RcErr (WTask (fin r))) \<and>
    rc_ok g E np R (\<lambda>i. seen i @ filter (\<lambda>x. nat (pf x) = i) taken) st' \<and> (\<exists>rest. str r = taken @ rest \<and> (fin r = EOF \<or> err_alone rd rok \<longrightarrow> rest = [])) \<and>
    (rc_small np st \<longrightarrow> rc_small np st')"
  using assms(5-)
proof (induction "mu r" arbitrary: r seen st rule: less_induct)
  case less
  have rws: "\<exists>st'. rc_rows E avail (zip xs (map pf xs)) st = Some (st', RcOk) \<and> rc_ok g E np R (\<lambda>i. seen i @ filter (\<lambda>x. nat (pf x) = i) xs) st' \<and>
      (rc_small np st \<longrightarrow> rc_small np st')" if "str r = xs @ ys" for xs ys
  proof -
    have "fits (R i) (seen i @ filter (\<lambda>x. nat (pf x) = i) xs)" if "i < np" for i
      using less.prems(4) that fits_prefix [of "R i" "seen i @ filter (\<lambda>x. nat (pf x) = i) xs" "filter (\<lambda>x. nat (pf x) = i) ys"] \<open>str r = xs @ ys\<close> by simp
    then show ?thesis using rc_rows_ok [OF E less.prems(3), of xs pf] less.prems(2) that by auto
  qed
  have pr: "part xs (int np) = Ret (map pf xs)" for xs using pt by (simp add: rowwise_def)
  from slice_reader.read_cases [OF rd less.prems(1) ch, case_names more stop] show ?case
  proof cases
    case (more r' xs)
    from rws [OF more(4)] obtain st1 where st1: "rc_rows E avail (zip xs (map pf xs)) st = Some (st1, RcOk)" "rc_ok g E np R (\<lambda>i. seen i @ filter (\<lambda>x. nat (pf x) = i) xs) st1"
      "rc_small np st \<longrightarrow> rc_small np st1" by blast
    have eq: "rc_loop E avail rd part (int np) chunk r st = rc_loop E avail rd part (int np) chunk r' st1"
      using more(1) st1(1) by (subst rc_loop.simps) (simp add: pr)
    have p: "\<forall>x\<in>set (str r'). Suc (length (fst (row_pair x))) = ce_ncol E \<and> 0 \<le> pf x \<and> pf x < int np"
      "\<forall>i<np. fits (R i) ((seen i @ filter (\<lambda>x. nat (pf x) = i) xs) @ filter (\<lambda>x. nat (pf x) = i) (str r'))" using less.prems(2,4) more(4) by auto
    from less.hyps [OF more(6,2) p(1) st1(2) p(2)] obtain st' taken rest where
      t: "rc_loop E avail rd part (int np) chunk r' st1 = Some (st', if fin r' = EOF then RcOk else RcErr (WTask (fin r')))"
        "rc_ok g E np R (\<lambda>i. (seen i @ filter (\<lambda>x. nat (pf x) = i) xs) @ filter (\<lambda>x. nat (pf x) = i) taken) st'" "str r' = taken @ rest" "fin r' = EOF \<or> err_alone rd rok \<longrightarrow> rest = []" "rc_small np st1 \<longrightarrow> rc_small np st'" by blast
    show ?thesis using t st1(3) more(4,5) by (intro exI [of _ st'] exI [of _ "xs @ taken"]) (simp add: eq)
  next
    case (stop r' xs)
    show ?thesis
    proof (cases "fin r = EOF")
      case True
      from rws [of xs "[]"] stop(4) obtain st1 where st1: "rc_rows E avail (zip xs (map pf xs)) st = Some (st1, RcOk)" "rc_ok g E np R (\<lambda>i. seen i @ filter (\<lambda>x. nat (pf x) = i) (str r)) st1"
        "rc_small np st \<longrightarrow> rc_small np st1" by auto
      have "rc_loop E avail rd part (int np) chunk r st = Some (st1, RcOk)" using stop(1) st1(1) True by (subst rc_loop.simps) (simp add: pr)
      then show ?thesis using st1(2,3) True by (intro exI [of _ st1] exI [of _ "str r"]) simp
    next
      case False
      have "rc_loop E avail rd part (int np) chunk r st = Some (st, RcErr (WTask (fin r)))" using stop(1) False by (subst rc_loop.simps) simp
      moreover have "err_alone rd rok \<longrightarrow> str r = []" using stop(1,4) less.prems(1) ch unfolding err_alone_def by blast
      ultimately show ?thesis using less.prems(3) False by (intro exI [of _ st] exI [of _ "[]"]) simp
    qed
  qed
qed

lemma rc_flush_ok:
  assumes E: "env_ok g E"
  shows "rc_ok g E np R seen st \<Longrightarrow> distinct is \<Longrightarrow> \<forall>i\<in>set is. i < np \<Longrightarrow> \<forall>i<np. fits (R i) (seen i) \<Longrightarrow>
    \<exists>st'. rc_flush E is st = Some (st', RcOk) \<and> rc_ok g E np R seen st' \<and> (\<forall>i\<in>set is. rc_done g E (R i) (mset (map row_pair (seen i))) (rcCombs st' ! i)) \<and>
      (\<forall>i. i \<notin> set is \<longrightarrow> rcCombs st' ! i = rcCombs st ! i)"
proof (induction "is" arbitrary: st)
  case (Cons i "is")
  from rc_flush1_ok [OF E Cons.prems(1), of i] Cons.prems(3,4) obtain st1 where st1: "rc_flush1 E i st = Some (st1, RcOk)" "rc_ok g E np R seen st1"
    "rc_done g E (R i) (mset (map row_pair (seen i))) (rcCombs st1 ! i)" "\<forall>j. j \<noteq> i \<longrightarrow> rcCombs st1 ! j = rcCombs st ! j" by auto
  from Cons.IH [OF st1(2)] Cons.prems(2-4) obtain st' where "rc_flush E is st1 = Some (st', RcOk)" "rc_ok g E np R seen st'"
    "\<forall>i\<in>set is. rc_done g E (R i) (mset (map row_pair (seen i))) (rcCombs st' ! i)" "\<forall>i. i \<notin> set is \<longrightarrow> rcCombs st' ! i = rcCombs st1 ! i" by auto
  then show ?case using st1 Cons.prems(2) by (intro exI [of _ st']) auto
qed auto

section \<open>Runs of tasks\<close>

text \<open>Flushing more rows to a combiner that holds the rows \<open>M0\<close> makes it hold both.\<close>

lemma rc_done_more:
  assumes "rc_done g E {#} M0 c0"
  obtains R where "comb_ok g E R c0" and "fst ` set_mset R = fst ` set_mset M0" and "\<And>M c. rc_done g E R M c \<Longrightarrow> rc_done g E {#} (M0 + M) c"
proof -
  from assms obtain Ps runs where a: "list_all2 (is_run g) Ps runs" "comb_ok g E (\<Sum>r\<leftarrow>runs. mset r) c0" "M0 = sum_list Ps" by (auto simp: rc_done_def)
  have "rc_done g E {#} (M0 + M) c" if "rc_done g E (\<Sum>r\<leftarrow>runs. mset r) M c" for M c
  proof -
    from that obtain Ps' runs' where b: "list_all2 (is_run g) Ps' runs'" "comb_ok g E ((\<Sum>r\<leftarrow>runs. mset r) + (\<Sum>r\<leftarrow>runs'. mset r)) c" "M = sum_list Ps'"
      by (auto simp: rc_done_def)
    show ?thesis unfolding rc_done_def using a b by (intro exI [of _ "Ps @ Ps'"] exI [of _ "runs @ runs'"]) (simp add: list_all2_appendI)
  qed
  then show thesis using that [OF a(2)] runs_keys [OF a(1)] a(3) by blast
qed

lemma rc_done_empty: "comb_ok g E {#} c \<Longrightarrow> rc_done g E {#} {#} c"
  unfolding rc_done_def by (intro exI [of _ "[]"]) simp

lemma rc_at_part:
  assumes "rc_at g E R seen pc c"
  shows "\<exists>M. M \<subseteq># mset (map row_pair seen) \<and> rc_done g E R M c \<and> (M = {#} \<longrightarrow> card (fst ` set_mset (mset (map row_pair seen))) \<le> clen pc)"
proof -
  from assms obtain m Ps runs P where a: "cf_ok (ce_hash E) m pc" "summary g P (table pc)" "list_all2 (is_run g) Ps runs"
    "comb_ok g E (R + (\<Sum>r\<leftarrow>runs. mset r)) c" "mset (map row_pair seen) = sum_list Ps + P" by (auto simp: rc_at_def)
  have "dom (table pc) = fst ` set_mset P" using a(2) by (simp add: summary_def)
  then have "sum_list Ps = {#} \<longrightarrow> card (fst ` set_mset (mset (map row_pair seen))) \<le> clen pc" unfolding a(5) clen_dom [OF a(1)] by simp
  moreover have "rc_done g E R (sum_list Ps) c" using a(3,4) unfolding rc_done_def by blast
  ultimately show ?thesis using a(5) by (intro exI [of _ "sum_list Ps"]) auto
qed

lemma new_combiners_ok:
  assumes "newCombiner ops E None (2 ^ m) ns t target = Ret (Inr c)" and "m \<le> 29" and "0 < ns"
  shows "\<exists>cs. new_combiners (\<lambda>_. newCombiner ops E None (2 ^ m) ns t target) [0 ..< np] = Ret (Inr cs) \<and> length cs = np \<and> (\<forall>i<np. rc_done g E {#} {#} (cs ! i))"
proof -
  have "new_combiners (\<lambda>_. newCombiner ops E None (2 ^ m) ns t target) is = Ret (Inr (replicate (length is) c))" for "is"
    by (induction "is") (simp_all add: assms(1))
  then show ?thesis using rc_done_empty [OF newCombiner_ok(1) [OF assms]] by simp
qed

text \<open>
  The body of \<open>runCombine\<close> over combiners that hold the rows \<open>M\<close>: they hold the rows of the task as well, if the
  reader ends in EOF, and some of them otherwise.
\<close>

lemma rc_body_ok:
  assumes E: "env_ok g (cc_env cc)" and t: "NumOut (cc_type cc) - Prefix (cc_type cc) = 1" and ch: "0 < chunk" and rd: "slice_reader rd rok str fin mu" and pt: "rowwise part (int np) pf"
    and "rok r" and rws: "\<forall>x\<in>set (str r). Suc (length (fst (row_pair x))) = ce_ncol (cc_env cc) \<and> 0 \<le> pf x \<and> pf x < int np"
    and cs: "length cs = np" "\<forall>i<np. rc_done g (cc_env cc) {#} (M i) (cs ! i)" and fit: "\<forall>i<np. fits (M i) (filter (\<lambda>x. nat (pf x) = i) (str r))"
  shows "\<exists>st. rc_body cc avail rd part chunk (int np) r cs = Some (st, if fin r = EOF then RcOk else RcErr (WTask (fin r))) \<and> length (rcCombs st) = np \<and>
    (\<forall>i<np. \<exists>N. rc_done g (cc_env cc) {#} (M i + N) (rcCombs st ! i) \<and> N \<subseteq># mset (map row_pair (filter (\<lambda>x. nat (pf x) = i) (str r))) \<and>
      (fin r = EOF \<longrightarrow> N = mset (map row_pair (filter (\<lambda>x. nat (pf x) = i) (str r)))) \<and>
      (err_alone rd rok \<and> 8 < card (fst ` set_mset (mset (map row_pair (filter (\<lambda>x. nat (pf x) = i) (str r))))) \<longrightarrow> N \<noteq> {#}))"
proof -
  let ?E = "cc_env cc" and ?rows = "\<lambda>i. filter (\<lambda>x. nat (pf x) = i) (str r)"
  have "\<forall>i. \<exists>R. i < np \<longrightarrow> comb_ok g ?E R (cs ! i) \<and> fst ` set_mset R = fst ` set_mset (M i) \<and> (\<forall>N c. rc_done g ?E R N c \<longrightarrow> rc_done g ?E {#} (M i + N) c)"
    using cs(2) rc_done_more by metis
  then obtain R where R: "i < np \<Longrightarrow> comb_ok g ?E (R i) (cs ! i)" "i < np \<Longrightarrow> fst ` set_mset (R i) = fst ` set_mset (M i)"
    "i < np \<Longrightarrow> rc_done g ?E (R i) N c \<Longrightarrow> rc_done g ?E {#} (M i + N) c" for i N c by metis
  obtain pc where pc: "makeCombiningFrame (zero_row ?E) (cc_type cc) 8 (Suc 0) = Ret pc" using t by (simp add: makeCombiningFrame_def cf_make_def)
  have "makeCombiningFrame (zero_row ?E) (cc_type cc) (2 ^ 3) 1 = Ret pc" using pc by simp
  note mk = makeCombiningFrame_ok [OF this]
  have pcs: "map_go (\<lambda>_. makeCombiningFrame (zero_row ?E) (cc_type cc) 8 (Suc 0)) is = Ret (replicate (length is) pc)" for "is" :: "nat list"
    by (induction "is") (simp_all add: pc)
  let ?st = "\<lparr>rcParts = replicate np pc, rcCombs = cs, rcSeen = 0\<rparr>"
  have "rc_at g ?E (R i) [] pc (cs ! i)" if "i < np" for i
    unfolding rc_at_def using mk R(1) [OF that] summary_empty by (intro exI [of _ 3] exI [of _ "[]"] exI [of _ "{#}"]) simp
  then have st: "rc_ok g ?E np R (\<lambda>_. []) ?st" using cs(1) by (simp add: rc_ok_def)
  have fR: "\<forall>i<np. fits (R i) ([] @ ?rows i)" using fit R(2) by (simp add: fits_def image_Un)
  from rc_loop_ok [OF E ch rd pt assms(6) rws st fR, of avail] obtain st1 taken rest where
    l: "rc_loop ?E avail rd part (int np) chunk r ?st = Some (st1, if fin r = EOF then RcOk else RcErr (WTask (fin r)))"
      "rc_ok g ?E np R (\<lambda>i. [] @ filter (\<lambda>x. nat (pf x) = i) taken) st1" "str r = taken @ rest" "fin r = EOF \<or> err_alone rd rok \<longrightarrow> rest = []" "rc_small np ?st \<longrightarrow> rc_small np st1" by blast
  have "small pc" using pc t by (auto simp: makeCombiningFrame_def cf_make_def small_def split: if_splits)
  then have sm: "rc_small np st1" using l(5) by simp
  show ?thesis
  proof (cases "fin r = EOF")
    case True
    then have tk: "taken = str r" using l(3,4) by simp
    from rc_flush_ok [OF E l(2), of "[0 ..< np]"] fR obtain st2 where st2: "rc_flush ?E [0 ..< np] st1 = Some (st2, RcOk)" "rc_ok g ?E np R (\<lambda>i. [] @ ?rows i) st2"
      "\<forall>i\<in>set [0 ..< np]. rc_done g ?E (R i) (mset (map row_pair ([] @ ?rows i))) (rcCombs st2 ! i)" unfolding tk by auto
    have run: "rc_body cc avail rd part chunk (int np) r cs = Some (st2, if fin r = EOF then RcOk else RcErr (WTask (fin r)))" using l(1) True st2(1) by (simp add: rc_body_def pcs)
    have dn: "rc_done g ?E {#} (M i + mset (map row_pair (?rows i))) (rcCombs st2 ! i)" if "i < np" for i using R(3) [OF that] st2(3) that by simp
    have ne: "X \<noteq> {#}" if "8 < card (fst ` set_mset X)" for X :: "('a list \<times> 'a) multiset" using that by auto
    have "length (rcCombs st2) = np" using st2(2) by (simp add: rc_ok_def)
    with run dn ne show ?thesis by (intro exI [of _ st2] conjI allI impI exI [of _ "mset (map row_pair (?rows i))" for i]) (assumption | rule refl subset_mset.order_refl | blast)+
  next
    case False
    have "rc_body cc avail rd part chunk (int np) r cs = Some (st1, RcErr (WTask (fin r)))" using l(1) False by (simp add: rc_body_def pcs)
    moreover have "\<exists>N. rc_done g ?E {#} (M i + N) (rcCombs st1 ! i) \<and> N \<subseteq># mset (map row_pair (?rows i)) \<and>
      (err_alone rd rok \<and> 8 < card (fst ` set_mset (mset (map row_pair (?rows i)))) \<longrightarrow> N \<noteq> {#})" if "i < np" for i
    proof -
      have "rc_at g ?E (R i) (filter (\<lambda>x. nat (pf x) = i) taken) (rcParts st1 ! i) (rcCombs st1 ! i)" using l(2) that by (simp add: rc_ok_def)
      from rc_at_part [OF this] obtain N where N: "N \<subseteq># mset (map row_pair (filter (\<lambda>x. nat (pf x) = i) taken))" "rc_done g ?E (R i) N (rcCombs st1 ! i)"
        "N = {#} \<longrightarrow> card (fst ` set_mset (mset (map row_pair (filter (\<lambda>x. nat (pf x) = i) taken)))) \<le> clen (rcParts st1 ! i)" by blast
      have "clen (rcParts st1 ! i) \<le> 8" using sm that by (simp add: small_def)
      moreover have "taken = str r" if "err_alone rd rok" using l(3,4) that by simp
      ultimately have "err_alone rd rok \<and> 8 < card (fst ` set_mset (mset (map row_pair (?rows i)))) \<longrightarrow> N \<noteq> {#}" using N(3) by auto
      moreover have "N \<subseteq># mset (map row_pair (?rows i))" using N(1) l(3) by (simp add: subset_mset.add_increasing2)
      ultimately show ?thesis using R(3) [OF that N(2)] by blast
    qed
    ultimately show ?thesis using False l(2) by (auto simp: rc_ok_def)
  qed
qed

text \<open>The users of a key may join: its combiners are still to be made, or hold the rows \<open>M\<close>.\<close>

definition joinable :: "('v \<Rightarrow> 'v \<Rightarrow> 'v) \<Rightarrow> ('v, 'u) comb_env \<Rightarrow> ('s, 'v, 'u) wcomb \<Rightarrow> TaskName \<Rightarrow> nat \<Rightarrow> (nat \<Rightarrow> ('v list \<times> 'v) multiset) \<Rightarrow> bool" where
  "joinable g E w k np M \<longleftrightarrow> wcStates w k = combinerNone \<and> (\<forall>i<np. M i = {#}) \<or>
     combinerIdle \<le> wcStates w k \<and> length (wcCombiners w k) = np \<and> (\<forall>i<np. rc_done g E {#} (M i) (wcCombiners w k ! i))"

definition combinable :: "('v \<Rightarrow> 'v \<Rightarrow> 'v) \<Rightarrow> ('v, 'u) comb_cfg \<Rightarrow> nat \<Rightarrow> bool" where
  "combinable g cc chunk \<longleftrightarrow> env_ok g (cc_env cc) \<and> cc_tmp cc = None \<and> 0 < chunk \<and> (\<exists>m c. cc_init cc = 2 ^ m \<and> m \<le> 29 \<and> 0 < cc_scratch cc \<and>
     newCombiner (cc_ops cc) (cc_env cc) None (cc_init cc) (cc_scratch cc) (cc_type cc) (chunk * 100) = Ret (Inr c))"

lemma combinable_type: "combinable g cc chunk \<Longrightarrow> NumOut (cc_type cc) - Prefix (cc_type cc) = 1"
  using newCombiner_ok(2) unfolding combinable_def by metis

definition task_rows :: "('v list \<Rightarrow> int) \<Rightarrow> 'v list list \<Rightarrow> nat \<Rightarrow> ('v list \<times> 'v) multiset" where
  "task_rows pf xs i = mset (map row_pair (filter (\<lambda>x. nat (pf x) = i) xs))"

lemma runCombine_joined:
  fixes w :: "('s, 'v, 'u) wcomb"
  assumes cc: "combinable g cc chunk" and rd: "slice_reader rd rok str fin mu" and pt: "rowwise part (int np) pf" and "rok r"
    and rws: "\<forall>x\<in>set (str r). Suc (length (fst (row_pair x))) = ce_ncol (cc_env cc) \<and> 0 \<le> pf x \<and> pf x < int np"
    and jn: "joinable g (cc_env cc) w (combine_key name key) np M" and fit: "\<forall>i<np. fits (M i) (filter (\<lambda>x. nat (pf x) = i) (str r))"
  obtains w1 where "runCombine S C cc avail rd part chunk name key (int np) r w =
      rc_leave S C cc (combine_key name key) key (if fin r = EOF then RcOk else RcErr (WTask (fin r))) w1"
    and "wcStore w1 = wcStore w" and "wcErrors w1 = wcErrors w" and "wcStates w1 = (wcStates w)(combine_key name key := max combinerIdle (wcStates w (combine_key name key)) + 1)"
    and "\<forall>k'. k' \<noteq> combine_key name key \<longrightarrow> wcCombiners w1 k' = wcCombiners w k'" and "length (wcCombiners w1 (combine_key name key)) = np"
    and "\<forall>i<np. \<exists>N. rc_done g (cc_env cc) {#} (M i + N) (wcCombiners w1 (combine_key name key) ! i) \<and> N \<subseteq># task_rows pf (str r) i \<and> (fin r = EOF \<longrightarrow> N = task_rows pf (str r) i) \<and>
      (err_alone rd rok \<and> 8 < card (fst ` set_mset (task_rows pf (str r) i)) \<longrightarrow> N \<noteq> {#})"
proof -
  let ?k = "combine_key name key" and ?E = "cc_env cc"
  let ?mk = "\<lambda>i :: nat. newCombiner (cc_ops cc) ?E (cc_tmp cc) (cc_init cc) (cc_scratch cc) (cc_type cc) (chunk * 100)"
  from cc obtain m c where c: "env_ok g ?E" "cc_tmp cc = None" "0 < chunk" "cc_init cc = 2 ^ m" "m \<le> 29" "0 < cc_scratch cc"
    "newCombiner (cc_ops cc) ?E None (2 ^ m) (cc_scratch cc) (cc_type cc) (chunk * 100) = Ret (Inr c)" by (auto simp: combinable_def)
  have "\<exists>w0. rc_enter ?mk np ?k w = Entered w0 \<and> wcStore w0 = wcStore w \<and> wcErrors w0 = wcErrors w \<and> wcStates w0 = (wcStates w)(?k := max combinerIdle (wcStates w ?k) + 1) \<and>
      (\<forall>k'. k' \<noteq> ?k \<longrightarrow> wcCombiners w0 k' = wcCombiners w k') \<and> length (wcCombiners w0 ?k) = np \<and> (\<forall>i<np. rc_done g ?E {#} (M i) (wcCombiners w0 ?k ! i))"
  proof (cases "wcStates w ?k = combinerNone")
    case True
    then have M: "\<forall>i<np. M i = {#}" using jn by (auto simp: joinable_def combinerStates)
    from new_combiners_ok [OF c(7,5,6), of np g] obtain cs where "new_combiners ?mk [0 ..< np] = Ret (Inr cs)" "length cs = np" "\<forall>i<np. rc_done g ?E {#} {#} (cs ! i)"
      using c(2,4) by auto
    then show ?thesis using True M by (simp add: rc_enter_def Let_def combinerStates)
  next
    case False
    then show ?thesis using jn by (auto simp: joinable_def rc_enter_def Let_def combinerStates)
  qed
  then obtain w0 where w0: "rc_enter ?mk np ?k w = Entered w0" "wcStore w0 = wcStore w" "wcErrors w0 = wcErrors w" "wcStates w0 = (wcStates w)(?k := max combinerIdle (wcStates w ?k) + 1)"
    "\<forall>k'. k' \<noteq> ?k \<longrightarrow> wcCombiners w0 k' = wcCombiners w k'" "length (wcCombiners w0 ?k) = np" "\<forall>i<np. rc_done g ?E {#} (M i) (wcCombiners w0 ?k ! i)" by blast
  from rc_body_ok [OF c(1) combinable_type [OF cc] c(3) rd pt assms(4) rws w0(6,7) fit, of avail] obtain st where
    st: "rc_body cc avail rd part chunk (int np) r (wcCombiners w0 ?k) = Some (st, if fin r = EOF then RcOk else RcErr (WTask (fin r)))" "length (rcCombs st) = np"
      "\<forall>i<np. \<exists>N. rc_done g ?E {#} (M i + N) (rcCombs st ! i) \<and> N \<subseteq># task_rows pf (str r) i \<and> (fin r = EOF \<longrightarrow> N = task_rows pf (str r) i) \<and>
        (err_alone rd rok \<and> 8 < card (fst ` set_mset (task_rows pf (str r) i)) \<longrightarrow> N \<noteq> {#})"
    unfolding task_rows_def by blast
  let ?w = "w0\<lparr>wcCombiners := (wcCombiners w0)(?k := rcCombs st)\<rparr>"
  have "runCombine S C cc avail rd part chunk name key (int np) r w = rc_leave S C cc ?k key (if fin r = EOF then RcOk else RcErr (WTask (fin r))) ?w"
    unfolding runCombine_def Let_def nat_int using w0(1) st(1) by simp
  then show thesis by (rule that) (use w0 st in auto)
qed

lemma fits_short: "fits M xs \<Longrightarrow> card (fst ` set_mset (M + mset (map row_pair xs))) < 2 ^ 63"
  by (simp add: fits_def maxKeys_def hashMaxCapacity_def)

lemma task_rows_short: "fits {#} (filter (\<lambda>x. nat (pf x) = i) xs) \<Longrightarrow> card (fst ` set_mset (task_rows pf xs i)) < 2 ^ 63"
  using fits_short [of "{#}" "filter (\<lambda>x. nat (pf x) = i) xs"] by (simp only: task_rows_def add_0)

section \<open>Writing the combiners\<close>

text \<open>Writing a combiner through any writer that appends.\<close>

lemma writeto_loop_appends:
  assumes sr: "slice_reader rd ok str fin mu" and uc: "uc_ok (ce_uc E)" and ch: "0 < ce_chunk E" and put: "appends put P pend ser"
    and "ok r" "fin r = EOF" "\<forall>x\<in>set (str r). Suc (length (fst x)) = ce_ncol E" "P (ew enc)"
  shows "\<exists>enc' bs. writeto_loop rd put E r enc tot = Some (Ret (enc', tot + length (str r), None)) \<and> P (ew enc') \<and>
    pend (ew enc') = pend (ew enc) @ concat (map ser (concat (map (batch_msgs (ce_crc E) (ce_uc E)) bs))) \<and> (\<forall>b\<in>set bs. wf_batch (ce_ncol E) b) \<and>
    concat (map rows_of_batch bs) = map row_list (str r)"
  using assms(5-)
proof (induction "mu r" arbitrary: r enc tot rule: less_induct)
  case less
  let ?b = "\<lambda>xs. batch_of_rows (ce_ncol E) (map row_list xs)"
  have b: "rows_of_batch (?b xs) = map row_list xs" "wf_batch (ce_ncol E) (?b xs)" if "set xs \<subseteq> set (str r)" for xs
    using rows_of_batch_of_rows [of "map row_list xs" "ce_ncol E"] that less.prems(3) by auto
  show ?case
  proof (rule slice_reader.read_cases [OF sr less.prems(1) ch], goal_cases)
    case (1 r' xs)
    from enc_Write_appends [OF uc put less.prems(4), where crc = "ce_crc E" and f = "?b xs"] obtain e1 where
      e1: "enc_Write put (ce_crc E) (ce_uc E) enc (?b xs) = (e1, None)" "P (ew e1)" "pend (ew e1) = pend (ew enc) @ concat (map ser (batch_msgs (ce_crc E) (ce_uc E) (?b xs)))" by metis
    from less.hyps [OF 1(6,2) _ _ e1(2), of "tot + length xs"] 1(4,5) less.prems(2,3) obtain enc' bs where
      "writeto_loop rd put E r' e1 (tot + length xs) = Some (Ret (enc', tot + length xs + length (str r'), None))" "P (ew enc')"
      "pend (ew enc') = pend (ew e1) @ concat (map ser (concat (map (batch_msgs (ce_crc E) (ce_uc E)) bs)))"
      "\<forall>b\<in>set bs. wf_batch (ce_ncol E) b" "concat (map rows_of_batch bs) = map row_list (str r')" by auto
    then show ?thesis using 1(1,4) b [of xs] e1
      by (intro exI [of _ enc'] exI [of _ "?b xs # bs"]) (simp add: writeto_loop.simps [of rd _ E r])
  next
    case (2 r' xs)
    from enc_Write_appends [OF uc put less.prems(4), where crc = "ce_crc E" and f = "?b xs"] obtain e1 where
      "enc_Write put (ce_crc E) (ce_uc E) enc (?b xs) = (e1, None)" "P (ew e1)" "pend (ew e1) = pend (ew enc) @ concat (map ser (batch_msgs (ce_crc E) (ce_uc E) (?b xs)))" by metis
    then show ?thesis using 2(1,4) b [of xs] less.prems(2)
      by (intro exI [of _ e1] exI [of _ "[?b xs]"]) (simp add: writeto_loop.simps [of rd _ E r])
  qed
qed

lemma reduction_lengths:
  assumes "reduction lt g Q out" and "\<forall>x\<in>#Q. Suc (length (fst x)) = n" shows "\<forall>x\<in>set out. Suc (length (fst x)) = n"
proof
  fix x assume "x \<in> set out"
  then have "fst x \<in> fst ` set_mset Q" using assms(1) by (auto simp: reduction_def)
  then show "Suc (length (fst x)) = n" using assms(2) by auto
qed

lemma WriteTo_appends:
  assumes E: "env_ok g E" and c: "comb_ok g E Q c" and t: "NumOut t - Prefix t = 1" and put: "appends put P pend ser" and "P (ew enc)"
  obtains enc' out bs where "WriteTo put E t c enc = Some (Ret (enc', length out, None))" and "P (ew enc')"
    and "pend (ew enc') = pend (ew enc) @ concat (map ser (concat (map (batch_msgs (ce_crc E) (ce_uc E)) bs)))" and "\<forall>b\<in>set bs. wf_batch (ce_ncol E) b"
    and "concat (map rows_of_batch bs) = map row_list out" and "reduction (ce_less E) g Q out"
proof -
  obtain c' r where r: "combiner_Reader E t c = Ret (c', r)" "reduce_ok (run_ok E) (run_rows E) (\<lambda>_. EOF) (ce_less E) r"
    "reduction (ce_less E) g Q (comb_str E r)" using combiner_Reader_ok [OF E c t] by blast
  have uc: "uc_ok (ce_uc E)" "0 < ce_chunk E" using E by (simp_all add: env_ok_def)
  have "\<forall>x\<in>#Q. Suc (length (fst x)) = ce_ncol E" using c by (auto simp: comb_ok_def)
  from writeto_loop_appends [OF comb_reader [OF E] uc put r(2) refl reduction_lengths [OF r(3) this] assms(5), of 0] obtain enc' bs where
    w: "writeto_loop (comb_Read E) put E r enc 0 = Some (Ret (enc', 0 + length (comb_str E r), None))" "P (ew enc')"
      "pend (ew enc') = pend (ew enc) @ concat (map ser (concat (map (batch_msgs (ce_crc E) (ce_uc E)) bs)))" "\<forall>b\<in>set bs. wf_batch (ce_ncol E) b"
      "concat (map rows_of_batch bs) = map row_list (comb_str E r)" by blast
  have "WriteTo put E t c enc = Some (Ret (enc', length (comb_str E r), None))" using w(1) r(1) by (simp add: WriteTo_def)
  from that [OF this w(2-5) r(3)] show thesis .
qed

text \<open>The keys of a reduction are distinct, so it is not longer than there are keys.\<close>

lemma reduction_short:
  assumes "env_ok g E" and "reduction (ce_less E) g Q out" shows "length out = card (fst ` set_mset Q)"
proof -
  have irr: "\<not> ce_less E a a" for a using assms(1) by (auto simp: env_ok_def same_key_def)
  have "sorted_wrt (ce_less E) ks \<Longrightarrow> distinct ks" for ks using irr by (induction ks) auto
  then have "distinct (map fst out)" using assms(2) by (simp add: reduction_def)
  from distinct_card [OF this] show ?thesis using assms(2) by (simp add: reduction_def)
qed

definition same_coding :: "('v, 'u) coding \<Rightarrow> ('v, 'u) comb_env \<Rightarrow> bool" where
  "same_coding C E \<longleftrightarrow> cd_crc C = ce_crc E \<and> cd_uc C = ce_uc E \<and> cd_ncol C = ce_ncol E"

context task_store
begin

lemma write_part_ok:
  fixes C :: "('v, 'u) coding"
  assumes E: "env_ok g (cc_env cc)" and cd: "same_coding C (cc_env cc)" and c: "comb_ok g (cc_env cc) Q c" and t: "NumOut (cc_type cc) - Prefix (cc_type cc) = 1"
    and "ok s" and "(k, p) \<in> K" and "abst s (k, p) = None" and "card (fst ` set_mset Q) < 2 ^ 63"
  shows "\<exists>s' bs out. write_part S C cc k p c s = Some (s', ROk) \<and> ok s' \<and> reduction (ce_less (cc_env cc)) g Q out \<and> stored_rows C (map row_list out) bs \<and>
    abst s' (k, p) = Some (bs, int (length out)) \<and> (\<forall>k'\<in>K - {(k, p)}. abst s' k' = abst s k')"
proof -
  let ?E = "cc_env cc"
  from create_law [OF assms(5-7)] obtain s1 w where s1: "st_Create S s (k, p) = Ret (s1, Inr w)" "ok s1" "wkey w = (k, p)" "pend s1 w = []" "\<forall>k'\<in>K. abst s1 k' = abst s k'" by blast
  let ?P = "\<lambda>(s', b' :: 'w bufw). writes (k, p) s1 s' \<and> wkey (bwW b') = (k, p) \<and> bwErr b' = None"
  let ?e = "\<lparr>ew = (s1, \<lparr>bwW = w, bwBuf = [], bwErr = None\<rparr>), ecrc = []\<rparr> :: ('s \<times> 'w bufw, 'v, 'u) encoder"
  have put: "appends (put_store S C) ?P (\<lambda>(s', b'). written s' b') (cd_ser C)" by (rule put_store_appends [OF assms(6)])
  have start: "?P (ew ?e)" using s1 writes_refl by simp
  have uc: "uc_ok (cd_uc C)" using E cd by (simp add: env_ok_def same_coding_def)
  obtain enc' out bs where w: "WriteTo (put_store S C) ?E (cc_type cc) c ?e = Some (Ret (enc', length out, None))" "?P (ew enc')"
    "(\<lambda>(s', b'). written s' b') (ew enc') = (\<lambda>(s', b'). written s' b') (ew ?e) @ concat (map (cd_ser C) (concat (map (batch_msgs (ce_crc ?E) (ce_uc ?E)) bs)))"
    "\<forall>b\<in>set bs. wf_batch (ce_ncol ?E) b" "concat (map rows_of_batch bs) = map row_list out" "reduction (ce_less ?E) g Q out" by (rule WriteTo_appends [OF E c t put start])
  obtain s2 b2 where e: "ew enc' = (s2, b2)" by (cases "ew enc'")
  let ?bs = "concat (map (cd_ser C) (concat (map (batch_msgs (cd_crc C) (cd_uc C)) bs)))"
  have f: "writes (k, p) s1 s2" "wkey (bwW b2) = (k, p)" "bwErr b2 = None" "written s2 b2 = ?bs" using w(2,3) e cd s1(4) by (auto simp: same_coding_def written_def)
  have ok2: "ok s2" "wkey (bwW b2) \<in> K" "\<forall>k'\<in>K. abst s2 k' = abst s1 k'" using f assms(6) by (auto simp: writes_def)
  from Flush_ok [OF ok2(1,2) f(3)] obtain s3 b3 where s3: "bufio_Flush S s2 b2 = (s3, b3, None)" "writes (k, p) s2 s3" "wkey (bwW b3) = (k, p)" "pend s3 (bwW b3) = ?bs"
    unfolding f(2,4) by blast
  have ok3: "ok s3" "wkey (bwW b3) \<in> K" "abst s3 (wkey (bwW b3)) = None" "- (2 ^ 63) \<le> int (length out)" "int (length out) < 2 ^ 63"
    using s3(2,3) ok2(3) s1(5) assms(6,7) reduction_short [OF E w(6)] assms(8) by (auto simp: writes_def)
  from commit_law [OF ok3] obtain s4 where s4: "st_Commit S s3 (bwW b3) (int (length out)) = Ret (s4, None)" "ok s4"
    "\<forall>k'\<in>K. abst s4 k' = (if k' = (k, p) then Some (?bs, int (length out)) else abst s3 k')" unfolding s3(3,4) by blast
  have "stored_rows C (map row_list out) ?bs"
    unfolding stored_rows_def file_rows_def using w(4,5) cd by (intro exI [of _ "concat (map (batch_msgs (cd_crc C) (cd_uc C)) bs)"] conjI exI [of _ bs]) (auto simp: same_coding_def)
  moreover have "write_part S C cc k p c s = Some (s4, ROk)" using s1(1) w(1) e s3(1) s4(1) by (simp add: write_part_def)
  moreover have "\<forall>k'\<in>K - {(k, p)}. abst s4 k' = abst s k'" using s4(3) s3(2) ok2(3) s1(5) by (auto simp: writes_def)
  ultimately show ?thesis using s4(2,3) w(6) assms(6) by (intro exI [of _ s4] exI [of _ ?bs] exI [of _ out]) auto
qed

text \<open>Partition \<open>p\<close> of \<open>k\<close> holds the reduction of \<open>Q\<close>.\<close>

definition holds_reduction :: "('v, 'u) coding \<Rightarrow> ('v, 'u) comb_env \<Rightarrow> ('v \<Rightarrow> 'v \<Rightarrow> 'v) \<Rightarrow> 's \<Rightarrow> skey \<Rightarrow> ('v list \<times> 'v) multiset \<Rightarrow> bool" where
  "holds_reduction C E g s k Q \<longleftrightarrow> (\<exists>bs out. reduction (ce_less E) g Q out \<and> stored_rows C (map row_list out) bs \<and> abst s k = Some (bs, int (length out)))"

lemma write_parts_ok:
  assumes E: "env_ok g (cc_env cc)" and cd: "same_coding C (cc_env cc)" and t: "NumOut (cc_type cc) - Prefix (cc_type cc) = 1"
  shows "ok s \<Longrightarrow> distinct (map fst pcs) \<Longrightarrow>
    \<forall>(p, c)\<in>set pcs. (k, p) \<in> K \<and> abst s (k, p) = None \<and> comb_ok g (cc_env cc) (Q p) c \<and> card (fst ` set_mset (Q p)) < 2 ^ 63 \<Longrightarrow>
    \<exists>s'. write_parts S C cc k pcs s = Some (s', ROk) \<and> ok s' \<and> (\<forall>(p, c)\<in>set pcs. holds_reduction C (cc_env cc) g s' (k, p) (Q p)) \<and>
      (\<forall>k'\<in>K. k' \<notin> Pair k ` fst ` set pcs \<longrightarrow> abst s' k' = abst s k')"
proof (induction pcs arbitrary: s)
  case (Cons pc pcs)
  obtain p c where pc: "pc = (p, c)" by (cases pc)
  have p: "(k, p) \<in> K" "abst s (k, p) = None" "comb_ok g (cc_env cc) (Q p) c" "card (fst ` set_mset (Q p)) < 2 ^ 63" "p \<notin> fst ` set pcs" "distinct (map fst pcs)"
    using Cons.prems(2,3) by (auto simp: pc)
  from write_part_ok [OF E cd p(3) t Cons.prems(1) p(1,2,4)] obtain s1 bs out where s1: "write_part S C cc k p c s = Some (s1, ROk)" "ok s1"
    "reduction (ce_less (cc_env cc)) g (Q p) out" "stored_rows C (map row_list out) bs" "abst s1 (k, p) = Some (bs, int (length out))"
    "\<forall>k'\<in>K - {(k, p)}. abst s1 k' = abst s k'" by blast
  have "\<forall>(p, c)\<in>set pcs. (k, p) \<in> K \<and> abst s1 (k, p) = None \<and> comb_ok g (cc_env cc) (Q p) c \<and> card (fst ` set_mset (Q p)) < 2 ^ 63"
    using Cons.prems(3) s1(6) p(5) by (force simp: pc)
  from Cons.IH [OF s1(2) p(6) this] obtain s' where s': "write_parts S C cc k pcs s1 = Some (s', ROk)" "ok s'"
    "\<forall>(p, c)\<in>set pcs. holds_reduction C (cc_env cc) g s' (k, p) (Q p)" "\<forall>k'\<in>K. k' \<notin> Pair k ` fst ` set pcs \<longrightarrow> abst s' k' = abst s1 k'" by blast
  have "abst s' (k, p) = abst s1 (k, p)" using s'(4) p(1,5) by auto
  then have "holds_reduction C (cc_env cc) g s' (k, p) (Q p)" using s1(3-5) by (auto simp: holds_reduction_def)
  moreover have "\<forall>k'\<in>K. k' \<notin> Pair k ` fst ` set (pc # pcs) \<longrightarrow> abst s' k' = abst s k'" using s'(4) s1(6) by (auto simp: pc)
  ultimately show ?case using s1(1) s'(1-3) by (simp add: pc)
qed auto

lemma CommitCombiner_ok:
  assumes E: "env_ok g (cc_env cc)" and cd: "same_coding C (cc_env cc)" and t: "NumOut (cc_type cc) - Prefix (cc_type cc) = 1"
    and "ok (wcStore w)" and "wcStates w k = combinerIdle"
    and "\<forall>p<length (wcCombiners w k). (k, p) \<in> K \<and> abst (wcStore w) (k, p) = None \<and> comb_ok g (cc_env cc) (Q p) (wcCombiners w k ! p) \<and> card (fst ` set_mset (Q p)) < 2 ^ 63"
  shows "\<exists>w'. CommitCombiner S C cc k w = Some (w', ROk) \<and> ok (wcStore w') \<and> wcStates w' = (wcStates w)(k := combinerCommitted) \<and> wcErrors w' = wcErrors w \<and>
    wcCombiners w' = (wcCombiners w)(k := []) \<and>
    (\<forall>p<length (wcCombiners w k). holds_reduction C (cc_env cc) g (wcStore w') (k, p) (Q p)) \<and>
    (\<forall>k'\<in>K. k' \<notin> Pair k ` {..<length (wcCombiners w k)} \<longrightarrow> abst (wcStore w') k' = abst (wcStore w) k')"
proof -
  let ?pcs = "enumerate 0 (wcCombiners w k)"
  have "\<forall>(p, c)\<in>set ?pcs. (k, p) \<in> K \<and> abst (wcStore w) (k, p) = None \<and> comb_ok g (cc_env cc) (Q p) c \<and> card (fst ` set_mset (Q p)) < 2 ^ 63"
    using assms(6) by (auto simp: in_set_enumerate_eq)
  from write_parts_ok [OF E cd t assms(4) _ this] obtain s' where s': "write_parts S C cc k ?pcs (wcStore w) = Some (s', ROk)" "ok s'"
    "\<forall>(p, c)\<in>set ?pcs. holds_reduction C (cc_env cc) g s' (k, p) (Q p)" "\<forall>k'\<in>K. k' \<notin> Pair k ` fst ` set ?pcs \<longrightarrow> abst s' k' = abst (wcStore w) k'" by auto
  have img: "fst ` set ?pcs = {..<length (wcCombiners w k)}" by (metis add_0 atLeast_upt lessThan_atLeast0 map_fst_enumerate set_map)
  have "\<forall>p<length (wcCombiners w k). holds_reduction C (cc_env cc) g s' (k, p) (Q p)" using s'(3) by (auto simp: in_set_enumerate_eq)
  then show ?thesis using s'(1,2,4) assms(5) unfolding img by (auto simp: CommitCombiner_def writeCombiner_def combinerStates Let_def)
qed

lemma CommitCombiner_done:
  assumes cc: "combinable g cc chunk" and cd: "same_coding C (cc_env cc)" and "ok (wcStore w)" and "wcStates w k = combinerIdle" and np: "length (wcCombiners w k) = np"
    and "\<forall>p<np. (k, p) \<in> K \<and> abst (wcStore w) (k, p) = None \<and> rc_done g (cc_env cc) {#} (M p) (wcCombiners w k ! p) \<and> card (fst ` set_mset (M p)) < 2 ^ 63"
  shows "\<exists>w'. CommitCombiner S C cc k w = Some (w', ROk) \<and> ok (wcStore w') \<and> wcStates w' = (wcStates w)(k := combinerCommitted) \<and>
    (\<forall>p<np. holds_reduction C (cc_env cc) g (wcStore w') (k, p) (M p)) \<and> (\<forall>k'\<in>K. k' \<notin> Pair k ` {..<np} \<longrightarrow> abst (wcStore w') k' = abst (wcStore w) k')"
proof -
  let ?E = "cc_env cc"
  have E: "env_ok g ?E" using cc by (simp add: combinable_def)
  have "\<forall>p. \<exists>Q. p < np \<longrightarrow> comb_ok g ?E Q (wcCombiners w k ! p) \<and> fst ` set_mset Q = fst ` set_mset (M p) \<and> (\<forall>out. reduction (ce_less ?E) g Q out \<longrightarrow> reduction (ce_less ?E) g (M p) out)"
  proof
    fix p
    show "\<exists>Q. p < np \<longrightarrow> comb_ok g ?E Q (wcCombiners w k ! p) \<and> fst ` set_mset Q = fst ` set_mset (M p) \<and> (\<forall>out. reduction (ce_less ?E) g Q out \<longrightarrow> reduction (ce_less ?E) g (M p) out)"
    proof (cases "p < np")
      case True
      with assms(6) obtain Ps runs where a: "list_all2 (is_run g) Ps runs" "comb_ok g ?E (\<Sum>r\<leftarrow>runs. mset r) (wcCombiners w k ! p)" "M p = sum_list Ps" by (auto simp: rc_done_def)
      have "reduction (ce_less ?E) g (\<Sum>r\<leftarrow>runs. mset r) out \<longrightarrow> reduction (ce_less ?E) g (M p) out" for out
        using reduction_of_runs [OF _ a(1), of "ce_less ?E" out] E unfolding a(3) by (simp add: env_ok_def)
      then show ?thesis using a(2,3) runs_keys [OF a(1)] by (intro exI [of _ "\<Sum>r\<leftarrow>runs. mset r"]) auto
    qed simp
  qed
  then obtain Q where Q: "p < np \<Longrightarrow> comb_ok g ?E (Q p) (wcCombiners w k ! p)" "p < np \<Longrightarrow> fst ` set_mset (Q p) = fst ` set_mset (M p)"
    "p < np \<Longrightarrow> reduction (ce_less ?E) g (Q p) out \<Longrightarrow> reduction (ce_less ?E) g (M p) out" for p out by metis
  have "\<forall>p<length (wcCombiners w k). (k, p) \<in> K \<and> abst (wcStore w) (k, p) = None \<and> comb_ok g ?E (Q p) (wcCombiners w k ! p) \<and> card (fst ` set_mset (Q p)) < 2 ^ 63"
    using assms(6) Q(1,2) np by simp
  from CommitCombiner_ok [OF E cd combinable_type [OF cc] assms(3,4) this] obtain w' where w': "CommitCombiner S C cc k w = Some (w', ROk)" "ok (wcStore w')"
    "wcStates w' = (wcStates w)(k := combinerCommitted)" "\<forall>p<np. holds_reduction C ?E g (wcStore w') (k, p) (Q p)"
    "\<forall>k'\<in>K. k' \<notin> Pair k ` {..<np} \<longrightarrow> abst (wcStore w') k' = abst (wcStore w) k'" unfolding np by blast
  have "holds_reduction C ?E g (wcStore w') (k, p) (M p)" if "p < np" for p using w'(4) Q(3) [OF that] that unfolding holds_reduction_def by blast
  then show ?thesis using w' by blast
qed

end

section \<open>Stored reductions\<close>

text \<open>The file store holds the rows \<open>xs\<close> under \<open>k\<close>: their number, and bytes that are decoded to them.\<close>

definition stored_as :: "'fs bytelib \<Rightarrow> string \<Rightarrow> ('v, 'u) coding \<Rightarrow> (byte list \<Rightarrow> ('v, 'u) msg list) \<Rightarrow> (nat \<Rightarrow> 'v) \<Rightarrow> 'fs \<Rightarrow> skey \<Rightarrow> 'v list list \<Rightarrow> bool" where
  "stored_as lib root C unser zero fs k xs \<longleftrightarrow> (\<forall>n>0. \<exists>bs d. file_Open lib root fs k 0 = Ret (Inr bs) \<and>
     file_Stat lib root fs k = Ret (Inr \<lparr>siSize = int (length bs), siRecords = int (length xs)\<rparr>) \<and>
     ReadAll (decoding_Read (cd_crc C) (cd_uc C) zero (cd_ncol C)) n (NewDecodingReader (unser bs)) [] = Some (Ret (d, xs, None)))"

lemma holds_reduction_stored:
  assumes "task_store (file_store lib root) abst pend wkey ok K" and "ok s" and "k \<in> K" and "decodes C unser" and "uc_ok (cd_uc C)"
    and "task_store.holds_reduction abst C E g s k Q"
  shows "\<exists>out. reduction (ce_less E) g Q out \<and> stored_as lib root C unser zero s k (map row_list out)"
proof -
  from assms(6) obtain bs out where h: "reduction (ce_less E) g Q out" "stored_rows C (map row_list out) bs" "abst s k = Some (bs, int (length out))"
    unfolding task_store.holds_reduction_def [OF assms(1)] by blast
  have "stored_as lib root C unser zero s k (map row_list out)"
    unfolding stored_as_def
  proof (intro allI impI)
    fix n :: nat assume "0 < n"
    from stored_rows_read [OF assms(4,5) h(2) this] task_store.open_law [OF assms(1-3) h(3), of 0] task_store.stat_law [OF assms(1-3) h(3)]
    show "\<exists>bs d. file_Open lib root s k 0 = Ret (Inr bs) \<and> file_Stat lib root s k = Ret (Inr \<lparr>siSize = int (length bs), siRecords = int (length (map row_list out))\<rparr>) \<and>
        ReadAll (decoding_Read (cd_crc C) (cd_uc C) zero (cd_ncol C)) n (NewDecodingReader (unser bs)) [] = Some (Ret (d, map row_list out, None))"
      by (auto simp: file_store_def)
  qed
  with h(1) show ?thesis by blast
qed

text \<open>A task that succeeds over combiners that may hold the rows \<open>M\<close> already: both are reduced and stored.\<close>

lemma runCombine_committed:
  fixes C :: "('v, 'u) coding" and root :: string
  assumes "bytes_ok lib content wr" and "inj_on (file_path (bl_Join lib) root) K" and "files_ok content (file_path (bl_Join lib) root) K (wcStore w)" and "decodes C unser"
    and "same_coding C (cc_env cc)" and "combinable g cc chunk" and "slice_reader rd rok str fin mu" and "rowwise part (int np) pf" and "rok r" and "fin r = EOF"
    and "\<forall>x\<in>set (str r). Suc (length (fst (row_pair x))) = ce_ncol (cc_env cc) \<and> 0 \<le> pf x \<and> pf x < int np"
    and fit: "\<forall>i<np. fits (M i) (filter (\<lambda>x. nat (pf x) = i) (str r))" and "joinable g (cc_env cc) w name np M" and "wcStates w name \<in> {combinerNone, combinerIdle}"
    and none: "\<forall>i<np. (name, i) \<in> K \<and> content (wcStore w) (file_path (bl_Join lib) root (name, i)) = None"
  shows "\<exists>w'. runCombine (file_store lib root) C cc avail rd part chunk name [] (int np) r w = Some (w', ROk) \<and> wcStates w' name = combinerCommitted \<and>
    (\<forall>i<np. \<exists>out. reduction (ce_less (cc_env cc)) g (M i + task_rows pf (str r) i) out \<and> stored_as lib root C unser zero (wcStore w') (name, i) (map row_list out))"
proof -
  let ?path = "file_path (bl_Join lib) root" and ?Q = "\<lambda>i. M i + task_rows pf (str r) i"
  note ct = file_store_contract [OF assms(1,2)]
  have k: "combine_key name [] = name" by (simp add: combine_key_def)
  have uc: "uc_ok (cd_uc C)" using assms(5,6) by (simp add: combinable_def env_ok_def same_coding_def)
  have jn: "joinable g (cc_env cc) w (combine_key name []) np M" using assms(13) by (simp add: k)
  obtain w1 where w1: "runCombine (file_store lib root) C cc avail rd part chunk name [] (int np) r w = rc_leave (file_store lib root) C cc name [] RcOk w1"
    "wcStore w1 = wcStore w" "wcStates w1 = (wcStates w)(name := max combinerIdle (wcStates w name) + 1)" "length (wcCombiners w1 name) = np"
    "\<forall>i<np. rc_done g (cc_env cc) {#} (?Q i) (wcCombiners w1 name ! i)"
    by (rule runCombine_joined [OF assms(6-9,11) jn fit]) (auto simp: k assms(10))
  let ?w = "w1\<lparr>wcStates := (wcStates w1)(name := wcStates w1 name - 1)\<rparr>"
  have "wcStates ?w name = combinerIdle" using w1(3) assms(14) by (auto simp: combinerStates)
  moreover have "card (fst ` set_mset (?Q p)) < 2 ^ 63" if "p < np" for p using fits_short [OF fit [rule_format, OF that]] by (simp add: task_rows_def)
  then have "\<forall>p<np. (name, p) \<in> K \<and> file_abs content ?path (wcStore ?w) (name, p) = None \<and> rc_done g (cc_env cc) {#} (?Q p) (wcCombiners ?w name ! p) \<and>
      card (fst ` set_mset (?Q p)) < 2 ^ 63"
    using none w1(2,5) by (simp add: file_abs_def)
  ultimately obtain w' where w': "CommitCombiner (file_store lib root) C cc name ?w = Some (w', ROk)" "files_ok content ?path K (wcStore w')"
    "wcStates w' = (wcStates ?w)(name := combinerCommitted)" "\<forall>p<np. task_store.holds_reduction (file_abs content ?path) C (cc_env cc) g (wcStore w') (name, p) (?Q p)"
    using task_store.CommitCombiner_done [OF ct assms(6,5), of ?w name np ?Q] assms(3) w1(2,4) by auto
  have "\<exists>out. reduction (ce_less (cc_env cc)) g (?Q i) out \<and> stored_as lib root C unser zero (wcStore w') (name, i) (map row_list out)" if "i < np" for i
    using holds_reduction_stored [OF ct w'(2) _ assms(4) uc] w'(4) none that by blast
  then show ?thesis using w1(1) w'(1,3) by (simp add: rc_leave_def)
qed

text \<open>
  C6.  A task with a combiner stores the reduction of its rows.  The rows of the task, split by the partitioner,
  combined in the small table of the task and flushed from there to the combiner of the partition at moments
  that depend on other tasks, are written so that every partition of the store ends up with each of its keys
  exactly once, in ascending order, with the combination of all values of the key in the rows of the task.
\<close>

theorem runCombine_reduces:
  fixes C :: "('v, 'u) coding" and root :: string
  assumes "bytes_ok lib content wr" and "inj_on (file_path (bl_Join lib) root) K" and "files_ok content (file_path (bl_Join lib) root) K (wcStore w)" and "decodes C unser"
    and "same_coding C (cc_env cc)" and "combinable g cc chunk" and "slice_reader rd rok str fin mu" and "rowwise part (int np) pf" and "rok r" and "fin r = EOF"
    and "\<forall>x\<in>set (str r). Suc (length (fst (row_pair x))) = ce_ncol (cc_env cc) \<and> 0 \<le> pf x \<and> pf x < int np"
    and "\<forall>i<np. fits {#} (filter (\<lambda>x. nat (pf x) = i) (str r))" and "wcStates w name = combinerNone"
    and "\<forall>i<np. (name, i) \<in> K \<and> content (wcStore w) (file_path (bl_Join lib) root (name, i)) = None"
  shows "\<exists>w'. runCombine (file_store lib root) C cc avail rd part chunk name [] (int np) r w = Some (w', ROk) \<and> wcStates w' name = combinerCommitted \<and>
    (\<forall>i<np. \<exists>out. reduction (ce_less (cc_env cc)) g (task_rows pf (str r) i) out \<and> stored_as lib root C unser zero (wcStore w') (name, i) (map row_list out))"
  using runCombine_committed [OF assms(1-11), where M = "\<lambda>_. {#}"] assms(12-14) by (simp add: joinable_def)

section \<open>Tasks that share a combiner\<close>

text \<open>With machine combiners, tasks run one after the other with the same key, which is committed in the end.\<close>

fun run_shared ::
  "('s, 'w) storeops \<Rightarrow> ('v, 'u) coding \<Rightarrow> ('v, 'u) comb_cfg \<Rightarrow> (nat \<Rightarrow> bool) \<Rightarrow> ('r, 'v list) reader \<Rightarrow> 'v Partitioner \<Rightarrow> nat \<Rightarrow> string \<Rightarrow> int \<Rightarrow> (TaskName \<times> 'r) list
     \<Rightarrow> ('s, 'v, 'u) wcomb \<Rightarrow> (('s, 'v, 'u) wcomb \<times> rout) option" where
  "run_shared S C cc avail rd part chunk key np [] w = Some (w, ROk)"
| "run_shared S C cc avail rd part chunk key np ((name, r) # rs) w = (case runCombine S C cc avail rd part chunk name key np r w of
     Some (w, ROk) \<Rightarrow> run_shared S C cc avail rd part chunk key np rs w
   | res \<Rightarrow> res)"

abbreviation shared_rows :: "('v list \<Rightarrow> int) \<Rightarrow> ('r \<Rightarrow> 'v list list) \<Rightarrow> (TaskName \<times> 'r) list \<Rightarrow> nat \<Rightarrow> ('v list \<times> 'v) multiset" where
  "shared_rows pf str rs i \<equiv> (\<Sum>(name, r)\<leftarrow>rs. task_rows pf (str r) i)"

lemma run_shared_ok:
  fixes w :: "('s, 'v, 'u) wcomb"
  assumes cc: "combinable g cc chunk" and rd: "slice_reader rd rok str fin mu" and pt: "rowwise part (int np) pf" and key: "key \<noteq> []"
  defines "k \<equiv> \<lparr>nInvIndex = 0, nOp = key, nShard = 0, nNumShard = 0\<rparr>"
  shows "\<forall>(name, r)\<in>set rs. rok r \<and> fin r = EOF \<and> (\<forall>x\<in>set (str r). Suc (length (fst (row_pair x))) = ce_ncol (cc_env cc) \<and> 0 \<le> pf x \<and> pf x < int np) \<Longrightarrow>
    joinable g (cc_env cc) w k np M \<Longrightarrow> \<forall>i<np. card (fst ` set_mset (M i + shared_rows pf str rs i)) \<le> maxKeys \<Longrightarrow>
    \<exists>w'. run_shared S C cc avail rd part chunk key (int np) rs w = Some (w', ROk) \<and> wcStore w' = wcStore w \<and> joinable g (cc_env cc) w' k np (\<lambda>i. M i + shared_rows pf str rs i) \<and>
      wcStates w' k = (if rs = [] then wcStates w k else max combinerIdle (wcStates w k))"
proof (induction rs arbitrary: w M)
  case (Cons nr rs)
  obtain name r where nr: "nr = (name, r)" by (cases nr)
  have k: "combine_key name key = k" for name using key by (simp add: combine_key_def k_def)
  have r: "rok r" "fin r = EOF" "\<forall>x\<in>set (str r). Suc (length (fst (row_pair x))) = ce_ncol (cc_env cc) \<and> 0 \<le> pf x \<and> pf x < int np" using Cons.prems(1) by (auto simp: nr)
  have fit: "\<forall>i<np. fits (M i) (filter (\<lambda>x. nat (pf x) = i) (str r))"
  proof (intro allI impI)
    fix i assume "i < np"
    with Cons.prems(3) have "card (fst ` set_mset (M i + shared_rows pf str (nr # rs) i)) \<le> maxKeys" by blast
    then show "fits (M i) (filter (\<lambda>x. nat (pf x) = i) (str r))" unfolding fits_def by (rule card_keys_le) (auto simp: nr task_rows_def)
  qed
  obtain w1 where w1: "runCombine S C cc avail rd part chunk name key (int np) r w = rc_leave S C cc k key RcOk w1" "wcStore w1 = wcStore w"
    "wcStates w1 = (wcStates w)(k := max combinerIdle (wcStates w k) + 1)" "length (wcCombiners w1 k) = np"
    "\<forall>i<np. rc_done g (cc_env cc) {#} (M i + task_rows pf (str r) i) (wcCombiners w1 k ! i)"
    by (rule runCombine_joined [OF cc rd pt r(1,3) Cons.prems(2) [folded k [of name]] fit]) (auto simp: k r(2))
  let ?w = "w1\<lparr>wcStates := (wcStates w1)(k := wcStates w1 k - 1)\<rparr>"
  have run: "runCombine S C cc avail rd part chunk name key (int np) r w = Some (?w, ROk)" using w1(1) key by (simp add: rc_leave_def)
  have jn: "joinable g (cc_env cc) ?w k np (\<lambda>i. M i + task_rows pf (str r) i)" using w1(3-5) by (simp add: joinable_def)
  have "\<forall>i<np. card (fst ` set_mset ((M i + task_rows pf (str r) i) + shared_rows pf str rs i)) \<le> maxKeys" using Cons.prems(3) by (simp add: nr add.assoc)
  from Cons.IH [OF _ jn this] Cons.prems(1) show ?case using run w1(2,3) by (auto simp: nr add.assoc)
qed simp

text \<open>
  C15.  Tasks that share a combine key are combined together: after any number of them have run on a worker, in turn,
  and the key has been committed, every partition of the key holds the reduction of the rows of all of these tasks.
\<close>

theorem shared_combiner_reduces:
  fixes C :: "('v, 'u) coding" and root :: string
  assumes "bytes_ok lib content wr" and "inj_on (file_path (bl_Join lib) root) K" and "files_ok content (file_path (bl_Join lib) root) K (wcStore w)" and "decodes C unser"
    and "same_coding C (cc_env cc)" and "combinable g cc chunk" and "slice_reader rd rok str fin mu" and "rowwise part (int np) pf" and "key \<noteq> []" and "rs \<noteq> []"
    and "\<forall>(name, r)\<in>set rs. rok r \<and> fin r = EOF \<and> (\<forall>x\<in>set (str r). Suc (length (fst (row_pair x))) = ce_ncol (cc_env cc) \<and> 0 \<le> pf x \<and> pf x < int np)"
    and "\<forall>i<np. card (fst ` set_mset (shared_rows pf str rs i)) \<le> maxKeys" and "k = \<lparr>nInvIndex = 0, nOp = key, nShard = 0, nNumShard = 0\<rparr>" and "wcStates w k = combinerNone"
    and "\<forall>i<np. (k, i) \<in> K \<and> content (wcStore w) (file_path (bl_Join lib) root (k, i)) = None"
  shows "\<exists>w1 w2. run_shared (file_store lib root) C cc avail rd part chunk key (int np) rs w = Some (w1, ROk) \<and>
    CommitCombiner (file_store lib root) C cc k w1 = Some (w2, ROk) \<and> wcStates w2 k = combinerCommitted \<and>
    (\<forall>i<np. \<exists>out. reduction (ce_less (cc_env cc)) g (shared_rows pf str rs i) out \<and> stored_as lib root C unser zero (wcStore w2) (k, i) (map row_list out))"
proof -
  let ?path = "file_path (bl_Join lib) root"
  note ct = file_store_contract [OF assms(1,2)]
  have uc: "uc_ok (cd_uc C)" using assms(5,6) by (simp add: combinable_def env_ok_def same_coding_def)
  have "joinable g (cc_env cc) w k np (\<lambda>_. {#})" using assms(14) by (simp add: joinable_def)
  from run_shared_ok [OF assms(6-9,11) this [unfolded assms(13)], folded assms(13), where S = "file_store lib root" and C = C and avail = avail] assms(10,12,14) obtain w1 where
    w1: "run_shared (file_store lib root) C cc avail rd part chunk key (int np) rs w = Some (w1, ROk)" "wcStore w1 = wcStore w"
      "joinable g (cc_env cc) w1 k np (\<lambda>i. shared_rows pf str rs i)" "wcStates w1 k = max combinerIdle combinerNone"
    by auto
  have st: "wcStates w1 k = combinerIdle" using w1(4) by (simp add: combinerStates)
  then have cb: "length (wcCombiners w1 k) = np" "\<forall>i<np. rc_done g (cc_env cc) {#} (shared_rows pf str rs i) (wcCombiners w1 k ! i)"
    using w1(3) by (auto simp: joinable_def combinerStates)
  have sh: "card (fst ` set_mset (shared_rows pf str rs i)) < 2 ^ 63" if "i < np" for i
    using assms(12) that by (auto simp: maxKeys_def hashMaxCapacity_def intro: le_less_trans)
  have "\<forall>i<np. (k, i) \<in> K \<and> file_abs content ?path (wcStore w1) (k, i) = None \<and> rc_done g (cc_env cc) {#} (shared_rows pf str rs i) (wcCombiners w1 k ! i) \<and>
      card (fst ` set_mset (shared_rows pf str rs i)) < 2 ^ 63"
    using assms(15) w1(2) cb(2) sh by (simp add: file_abs_def)
  from task_store.CommitCombiner_done [OF ct assms(6,5) _ st cb(1) this] obtain w2 where w2: "CommitCombiner (file_store lib root) C cc k w1 = Some (w2, ROk)" "files_ok content ?path K (wcStore w2)"
    "wcStates w2 = (wcStates w1)(k := combinerCommitted)" "\<forall>p<np. task_store.holds_reduction (file_abs content ?path) C (cc_env cc) g (wcStore w2) (k, p) (shared_rows pf str rs p)"
    using assms(3) w1(2) by auto
  have "\<exists>out. reduction (ce_less (cc_env cc)) g (shared_rows pf str rs i) out \<and> stored_as lib root C unser zero (wcStore w2) (k, i) (map row_list out)" if "i < np" for i
    using holds_reduction_stored [OF ct w2(2) _ assms(4) uc] w2(4) assms(15) that by blast
  then show ?thesis using w1(1) w2(1,3) by auto
qed

section \<open>Two columns of integers\<close>

definition pair_coding :: "(int, unit) coding" where
  "pair_coding = unary_coding\<lparr>cd_crc := \<lambda>_. 0, cd_ncol := 2\<rparr>"

definition sum_cfg :: "(int, unit) comb_cfg" where
  "sum_cfg = \<lparr>cc_ops = (\<lambda>_. Some (no_ops\<lparr>Less_op := Some (<)\<rparr>)), cc_env = int_env, cc_tmp = None, cc_init = 16, cc_scratch = 2, cc_type = TypeSlice [TBasic ''int'', TBasic ''int'']\<rparr>"

definition w_files :: "((string \<rightharpoonup> byte list) \<times> (string \<Rightarrow> byte list), int, unit) wcomb" where
  "w_files = \<lparr>wcStore = (Map.empty, \<lambda>_. []), wcStates = (\<lambda>_. combinerNone), wcErrors = (\<lambda>_. None), wcCombiners = (\<lambda>_. [])\<rparr>"

lemma pair_decodes: "decodes pair_coding (\<lambda>bs. map from_nat (unary 0 bs))"
  using unary_decodes by (simp add: decodes_def pair_coding_def unary_coding_def)

lemma sum_same: "same_coding pair_coding (cc_env sum_cfg)"
  by (simp add: same_coding_def pair_coding_def sum_cfg_def int_env_def unary_coding_def)

lemma sum_combinable: "combinable (+) sum_cfg 2"
proof -
  obtain c where "newCombiner (cc_ops sum_cfg) (cc_env sum_cfg) None (cc_init sum_cfg) (cc_scratch sum_cfg) (cc_type sum_cfg) 200 = Ret (Inr c)"
    by (simp add: newCombiner_def makeCombiningFrame_def cf_make_def CanCompare_def makeSliceOps_def list_index_def no_ops_def sum_cfg_def)
  then show ?thesis using int_env_ok by (auto simp: combinable_def sum_cfg_def intro!: exI [of _ 4])
qed

lemma w_files_ok:
  fixes k :: TaskName
  assumes "plain (nOp k)"
  shows "inj_on (file_path (bl_Join mem_bytes) ''/tmp/'') (Pair k ` {..<2})" and "files_ok fst (file_path (bl_Join mem_bytes) ''/tmp/'') (Pair k ` {..<2}) (wcStore w_files)"
    and "\<forall>i<2. (k, i) \<in> Pair k ` {..<2 :: nat} \<and> fst (wcStore w_files) (file_path (bl_Join mem_bytes) ''/tmp/'' (k, i)) = None"
proof -
  show "inj_on (file_path (bl_Join mem_bytes) ''/tmp/'') (Pair k ` {..<2})"
    using assms by (intro inj_onI) (auto dest!: file_path_keys [rotated 4] simp: join_ok_def mem_bytes_def)
qed (auto simp: w_files_def files_ok_def)

theorem runCombine_reduces_witness:
  "\<exists>w' out. runCombine (file_store mem_bytes ''/tmp/'') pair_coding sum_cfg (\<lambda>_. True) frame_Read (\<lambda>xs _. Ret (map (\<lambda>x. hd x mod 2) xs)) 2 ex_name [] 2 [[1, 10], [2, 5], [1, 7]] w_files = Some (w', ROk) \<and>
    reduction (<) (+) {#([1], 10), ([1], 7)#} out \<and> stored_as mem_bytes ''/tmp/'' pair_coding (\<lambda>bs. map from_nat (unary 0 bs)) (\<lambda>_. 0) (wcStore w') (ex_name, 1) (map row_list out)"
proof -
  have p: "plain (nOp ex_name)" by (simp add: plain_def ex_name_def)
  have "wcStates w_files ex_name = combinerNone" "\<forall>i<2. fits {#} (filter (\<lambda>x. nat (hd x mod 2) = i) [[1, 10], [2, 5], [1, 7 :: int]])"
    by (auto simp: w_files_def fits_def maxKeys_def hashMaxCapacity_def row_pair_def card_insert_if)
  moreover have "task_rows (\<lambda>x. hd x mod 2) [[1, 10], [2, 5], [1, 7 :: int]] 1 = {#([1], 10), ([1], 7)#}" by (simp add: task_rows_def row_pair_def)
  ultimately show ?thesis
    using runCombine_reduces [OF mem_bytes_ok w_files_ok(1,2) [OF p] pair_decodes sum_same sum_combinable frd.slice_reader_axioms, where r = "[[1, 10], [2, 5], [1, 7]]" and np = 2 and name = ex_name
      and part = "\<lambda>xs _. Ret (map (\<lambda>x. hd x mod 2) xs)" and pf = "\<lambda>x. hd x mod 2" and zero = "\<lambda>_. 0" and avail = "\<lambda>_. True"] w_files_ok(3) [OF p]
    by (simp add: rowwise_def row_pair_def sum_cfg_def int_env_def) (elim exE conjE, drule spec [of _ 1], auto)
qed

theorem shared_combiner_reduces_witness:
  "\<exists>w1 w2 out. run_shared (file_store mem_bytes ''/tmp/'') pair_coding sum_cfg (\<lambda>_. True) frame_Read (\<lambda>xs _. Ret (map (\<lambda>x. hd x mod 2) xs)) 2 ''sum'' 2 [(ex_name, [[1, 10], [2, 5]]), (ex_name, [[1, 7]])] w_files = Some (w1, ROk) \<and>
    CommitCombiner (file_store mem_bytes ''/tmp/'') pair_coding sum_cfg \<lparr>nInvIndex = 0, nOp = ''sum'', nShard = 0, nNumShard = 0\<rparr> w1 = Some (w2, ROk) \<and>
    reduction (<) (+) {#([1], 10), ([1], 7)#} out \<and>
    stored_as mem_bytes ''/tmp/'' pair_coding (\<lambda>bs. map from_nat (unary 0 bs)) (\<lambda>_. 0) (wcStore w2) (\<lparr>nInvIndex = 0, nOp = ''sum'', nShard = 0, nNumShard = 0\<rparr>, 1) (map row_list out)"
proof -
  let ?k = "\<lparr>nInvIndex = 0, nOp = ''sum'', nShard = 0, nNumShard = 0\<rparr>" and ?rs = "[(ex_name, [[1, 10], [2, 5]]), (ex_name, [[1, 7 :: int]])]"
  have p: "plain (nOp ?k)" by (simp add: plain_def)
  have "wcStates w_files ?k = combinerNone" "\<forall>i<2. card (fst ` set_mset (shared_rows (\<lambda>x. hd x mod 2) id ?rs i)) \<le> maxKeys"
    by (auto simp: w_files_def task_rows_def maxKeys_def hashMaxCapacity_def row_pair_def card_insert_if)
  moreover have "shared_rows (\<lambda>x. hd x mod 2) id ?rs 1 = {#([1], 10), ([1], 7)#}" by (simp add: task_rows_def row_pair_def)
  ultimately show ?thesis
    using shared_combiner_reduces [OF mem_bytes_ok w_files_ok(1,2) [OF p] pair_decodes sum_same sum_combinable frd.slice_reader_axioms, where rs = ?rs and np = 2 and key = "''sum''" and k = ?k
      and part = "\<lambda>xs _. Ret (map (\<lambda>x. hd x mod 2) xs)" and pf = "\<lambda>x. hd x mod 2" and zero = "\<lambda>_. 0" and avail = "\<lambda>_. True"] w_files_ok(3) [OF p]
    by (simp add: rowwise_def row_pair_def sum_cfg_def int_env_def) (elim exE conjE, drule spec [of _ 1], auto)
qed

section \<open>A failed attempt\<close>

text \<open>
  C34.  A task with a combiner that failed is not run again from scratch on the same worker.  Take any first attempt
  whose input fails with an error that comes without rows, as the errors of a decoding reader do.  It returns that
  error, and leaves in the shared combiner of every partition some rows \<open>M\<close> of that attempt, which is not empty where
  the attempt had rows with more than eight keys for the partition.  A second attempt then returns no error and
  stores, for every partition, the reduction of its own rows together with \<open>M\<close>: values of the first attempt are
  combined twice.
\<close>

theorem combine_retry_duplicates:
  fixes C :: "('v, 'u) coding" and root :: string
  assumes "bytes_ok lib content wr" and "inj_on (file_path (bl_Join lib) root) K" and "files_ok content (file_path (bl_Join lib) root) K (wcStore w)" and "decodes C unser"
    and "same_coding C (cc_env cc)" and "combinable g cc chunk" and "eof_alone_reader rd rok str fin mu" and "rowwise part (int np) pf"
    and "rok r" and "fin r \<noteq> EOF" and "rok r'" and "fin r' = EOF"
    and rws: "\<forall>x\<in>set (str r) \<union> set (str r'). Suc (length (fst (row_pair x))) = ce_ncol (cc_env cc) \<and> 0 \<le> pf x \<and> pf x < int np"
    and fit: "\<forall>i<np. card (fst ` set_mset (task_rows pf (str r) i + task_rows pf (str r') i)) \<le> maxKeys" and "wcStates w name = combinerNone"
    and "\<forall>i<np. (name, i) \<in> K \<and> content (wcStore w) (file_path (bl_Join lib) root (name, i)) = None"
  shows "\<exists>w1 w2 M. runCombine (file_store lib root) C cc avail rd part chunk name [] (int np) r w = Some (w1, RErr (WTask (fin r))) \<and>
    runCombine (file_store lib root) C cc avail' rd part chunk name [] (int np) r' w1 = Some (w2, ROk) \<and>
    (\<forall>i<np. M i \<subseteq># task_rows pf (str r) i \<and> (8 < card (fst ` set_mset (task_rows pf (str r) i)) \<longrightarrow> M i \<noteq> {#}) \<and>
      (\<exists>out. reduction (ce_less (cc_env cc)) g (M i + task_rows pf (str r') i) out \<and> stored_as lib root C unser zero (wcStore w2) (name, i) (map row_list out)))"
proof -
  note sr = eof_alone_reader.axioms(1) [OF assms(7)]
  have al: "err_alone rd rok" using eof_alone_reader.alone [OF assms(7)] unfolding err_alone_def by blast
  have k: "combine_key name [] = name" by (simp add: combine_key_def)
  have jn: "joinable g (cc_env cc) w (combine_key name []) np (\<lambda>_. {#})" using assms(15) by (simp add: joinable_def k)
  have rw1: "\<forall>x\<in>set (str r). Suc (length (fst (row_pair x))) = ce_ncol (cc_env cc) \<and> 0 \<le> pf x \<and> pf x < int np"
    and rw2: "\<forall>x\<in>set (str r'). Suc (length (fst (row_pair x))) = ce_ncol (cc_env cc) \<and> 0 \<le> pf x \<and> pf x < int np" using rws by auto
  have f1: "\<forall>i<np. fits {#} (filter (\<lambda>x. nat (pf x) = i) (str r))"
  proof (intro allI impI)
    fix i assume "i < np"
    with fit have "card (fst ` set_mset (task_rows pf (str r) i + task_rows pf (str r') i)) \<le> maxKeys" by blast
    then show "fits {#} (filter (\<lambda>x. nat (pf x) = i) (str r))" unfolding fits_def by (rule card_keys_le) (auto simp: task_rows_def)
  qed
  obtain w0 where w0: "runCombine (file_store lib root) C cc avail rd part chunk name [] (int np) r w = rc_leave (file_store lib root) C cc name [] (RcErr (WTask (fin r))) w0"
    "wcStore w0 = wcStore w" "wcStates w0 = (wcStates w)(name := max combinerIdle (wcStates w name) + 1)" "length (wcCombiners w0 name) = np"
    "\<forall>i<np. \<exists>N. rc_done g (cc_env cc) {#} N (wcCombiners w0 name ! i) \<and> N \<subseteq># task_rows pf (str r) i \<and> (8 < card (fst ` set_mset (task_rows pf (str r) i)) \<longrightarrow> N \<noteq> {#})"
    by (rule runCombine_joined [OF assms(6) sr assms(8,9) rw1 jn f1]) (auto simp: k assms(10) al)
  then obtain M where M: "\<forall>i<np. rc_done g (cc_env cc) {#} (M i) (wcCombiners w0 name ! i) \<and> M i \<subseteq># task_rows pf (str r) i \<and>
      (8 < card (fst ` set_mset (task_rows pf (str r) i)) \<longrightarrow> M i \<noteq> {#})" by metis
  let ?w = "w0\<lparr>wcStates := (wcStates w0)(name := wcStates w0 name - 1)\<rparr>"
  have run1: "runCombine (file_store lib root) C cc avail rd part chunk name [] (int np) r w = Some (?w, RErr (WTask (fin r)))" using w0(1) by (simp add: rc_leave_def)
  have st: "wcStates ?w name = combinerIdle" using w0(3) assms(15) by (simp add: combinerStates)
  then have jn2: "joinable g (cc_env cc) ?w name np M" using w0(4) M by (simp add: joinable_def)
  have f2: "\<forall>i<np. fits (M i) (filter (\<lambda>x. nat (pf x) = i) (str r'))"
  proof (intro allI impI)
    fix i assume i: "i < np"
    with fit have "card (fst ` set_mset (task_rows pf (str r) i + task_rows pf (str r') i)) \<le> maxKeys" by blast
    moreover have "set_mset (M i) \<subseteq> set_mset (task_rows pf (str r) i)" using M i by (auto dest: mset_subset_eqD)
    ultimately show "fits (M i) (filter (\<lambda>x. nat (pf x) = i) (str r'))" unfolding fits_def by (elim card_keys_le) (auto simp: task_rows_def)
  qed
  have "files_ok content (file_path (bl_Join lib) root) K (wcStore ?w)" "wcStates ?w name \<in> {combinerNone, combinerIdle}"
    "\<forall>i<np. (name, i) \<in> K \<and> content (wcStore ?w) (file_path (bl_Join lib) root (name, i)) = None" using assms(3,16) w0(2) st by simp_all
  from runCombine_committed [OF assms(1,2) this(1) assms(4-6) sr assms(8,11,12) rw2 f2 jn2 this(2,3), of avail' zero] obtain w2 where
    "runCombine (file_store lib root) C cc avail' rd part chunk name [] (int np) r' ?w = Some (w2, ROk)"
    "\<forall>i<np. \<exists>out. reduction (ce_less (cc_env cc)) g (M i + task_rows pf (str r') i) out \<and> stored_as lib root C unser zero (wcStore w2) (name, i) (map row_list out)" by blast
  then show ?thesis using run1 M by (intro exI [of _ ?w] exI [of _ w2] exI [of _ M]) simp
qed

text \<open>A reader of rows that ends in a given error.\<close>

definition fail_Read :: "(int list list \<times> goerror, int list) reader" where
  "fail_Read = (\<lambda>(xs, e) n. Some (Ret (if xs = [] then ((xs, e), [], Some e) else ((drop n xs, e), take n xs, None))))"

lemma fail_reader: "eof_alone_reader fail_Read (\<lambda>_. True) fst snd (\<lambda>r. length (fst r))"
  by unfold_locales (auto simp: fail_Read_def read_ok_def split: prod.splits if_splits)

definition nine_rows :: "int list list" where
  "nine_rows = map (\<lambda>k. [k, 10]) [1, 2, 3, 4, 5, 6, 7, 8, 9]"

theorem combine_retry_duplicates_witness:
  "\<exists>w1 w2 M out. runCombine (file_store mem_bytes ''/tmp/'') pair_coding sum_cfg (\<lambda>_. True) fail_Read (\<lambda>xs _. Ret (map (\<lambda>_. 0) xs)) 2 ex_name [] 2
      (nine_rows, ErrNew ''lost'') w_files = Some (w1, RErr (WTask (ErrNew ''lost''))) \<and>
    runCombine (file_store mem_bytes ''/tmp/'') pair_coding sum_cfg (\<lambda>_. True) fail_Read (\<lambda>xs _. Ret (map (\<lambda>_. 0) xs)) 2 ex_name [] 2 (nine_rows, EOF) w1 = Some (w2, ROk) \<and>
    M \<noteq> {#} \<and> M \<subseteq># mset (map row_pair nine_rows) \<and> reduction (<) (+) (M + mset (map row_pair nine_rows)) out \<and>
    stored_as mem_bytes ''/tmp/'' pair_coding (\<lambda>bs. map from_nat (unary 0 bs)) (\<lambda>_. 0) (wcStore w2) (ex_name, 0) (map row_list out)"
proof -
  have p: "plain (nOp ex_name)" by (simp add: plain_def ex_name_def)
  have t: "task_rows (\<lambda>_. 0) nine_rows i = (if i = 0 then mset (map row_pair nine_rows) else {#})" for i by (simp add: task_rows_def)
  have c: "card (fst ` set_mset (mset (map row_pair nine_rows))) = 9" by (simp add: nine_rows_def row_pair_def)
  then have "\<forall>i<2. card (fst ` set_mset (task_rows (\<lambda>_. 0) (fst (nine_rows, ErrNew ''lost'')) i + task_rows (\<lambda>_. 0) (fst (nine_rows, EOF)) i)) \<le> maxKeys"
    by (auto simp: t maxKeys_def hashMaxCapacity_def)
  moreover have "\<forall>x\<in>set (fst (nine_rows, ErrNew ''lost'')) \<union> set (fst (nine_rows, EOF)). Suc (length (fst (row_pair x))) = ce_ncol (cc_env sum_cfg) \<and> 0 \<le> (0 :: int) \<and> (0 :: int) < int 2"
    by (auto simp: nine_rows_def row_pair_def sum_cfg_def int_env_def)
  moreover have "wcStates w_files ex_name = combinerNone" by (simp add: w_files_def)
  ultimately obtain w1 w2 M where
    r: "runCombine (file_store mem_bytes ''/tmp/'') pair_coding sum_cfg (\<lambda>_. True) fail_Read (\<lambda>xs _. Ret (map (\<lambda>_. 0) xs)) 2 ex_name [] (int 2)
      (nine_rows, ErrNew ''lost'') w_files = Some (w1, RErr (WTask (snd (nine_rows, ErrNew ''lost''))))"
      "runCombine (file_store mem_bytes ''/tmp/'') pair_coding sum_cfg (\<lambda>_. True) fail_Read (\<lambda>xs _. Ret (map (\<lambda>_. 0) xs)) 2 ex_name [] (int 2) (nine_rows, EOF) w1 = Some (w2, ROk)"
    and M: "\<forall>i<2. M i \<subseteq># task_rows (\<lambda>_. 0) (fst (nine_rows, ErrNew ''lost'')) i \<and> (8 < card (fst ` set_mset (task_rows (\<lambda>_. 0) (fst (nine_rows, ErrNew ''lost'')) i)) \<longrightarrow> M i \<noteq> {#}) \<and>
      (\<exists>out. reduction (ce_less (cc_env sum_cfg)) (+) (M i + task_rows (\<lambda>_. 0) (fst (nine_rows, EOF)) i) out \<and>
        stored_as mem_bytes ''/tmp/'' pair_coding (\<lambda>bs. map from_nat (unary 0 bs)) (\<lambda>_. 0) (wcStore w2) (ex_name, i) (map row_list out))"
    using combine_retry_duplicates [OF mem_bytes_ok w_files_ok(1,2) [OF p] pair_decodes sum_same sum_combinable fail_reader, where r = "(nine_rows, ErrNew ''lost'')" and r' = "(nine_rows, EOF)"
      and np = 2 and name = ex_name and part = "\<lambda>xs _. Ret (map (\<lambda>_. 0) xs)" and pf = "\<lambda>_. 0" and zero = "\<lambda>_. 0" and avail = "\<lambda>_. True" and avail' = "\<lambda>_. True"] w_files_ok(3) [OF p]
    by (simp only: rowwise_def) (elim exE conjE meta_impE, auto)
  have "ce_less (cc_env sum_cfg) = (<)" by (simp add: sum_cfg_def int_env_def)
  with M [rule_format, of 0] r c show ?thesis by (simp add: t) blast
qed

end
