(* ===== verification/Spec2Isabelle.thy ===== *)
theory Spec2Isabelle
  imports TopN Cogroup RemoteRead WorkerCombine
begin

text \<open>
  A verification library for bigslice, a library for data processing on clusters, written in Go (\<open>src/\<close>).

  \<^bold>\<open>The program.\<close>  A user program builds \<^emph>\<open>slices\<close> (\<open>slice.go\<close>, \<open>reduce.go\<close>, \<open>cogroup.go\<close>, \<open>cache.go\<close>, ...): typed, sharded
  tables that are described by the operations that compute them.  The compiler (\<open>exec/compile.go\<close>) turns a slice into a graph of
  \<^emph>\<open>tasks\<close>, one per shard of each pipeline of operations.  The evaluator (\<open>exec/eval.go\<close>) hands tasks whose dependencies are
  complete to an executor and reruns the tasks whose results are lost.  An executor runs the reader of a task, assigns its rows to partitions
  and keeps them: in memory (\<open>exec/local.go\<close>, \<open>exec/buffer.go\<close>), or in the store of a worker process (\<open>exec/bigmachine.go\<close>,
  \<open>exec/store.go\<close>), from where other machines read them.  Rows move in \<^emph>\<open>frames\<close> (\<open>frame/\<close>) through \<^emph>\<open>readers\<close>
  (\<open>sliceio/\<close>), which are encoded, spilled to disk, sorted, merged and combined (\<open>sliceio/codec.go\<close>, \<open>sortio/\<close>, \<open>exec/combiner.go\<close>).

  \<^bold>\<open>How Go is modelled.\<close>  A struct is a record and an enumeration a datatype or a constant.  A function that may panic returns \<open>'a go\<close>
  (\<open>Ret\<close> or \<open>Panic\<close> with the message), one that may not return an option (\<open>partial_function (option)\<close>; a loop that never ends is
  \<open>None\<close>); \<open>run\<close> combines both.  An error is a value of \<open>goerror\<close>, a nil error is \<open>None\<close>.  Arrays and objects that the code
  shares are in explicit stores (\<open>GoHeap\<close>, the arrays of \<open>Frame\<close>, the task heap of \<open>Compile\<close>); map iteration order, scheduling and the moments of
  losses are arbitrary (arguments, or nondeterminism of a step relation).  Machine integers have their width where it matters: hashes
  and checksums are words, and the table sizes of the combiner are bounded by \<open>hashMaxCapacity\<close>.  Code outside \<open>src/\<close> (files,
  network, retry policy, gob, hash functions, user functions) is an argument of the definitions that use it, with its documented behaviour
  as a named hypothesis: \<open>bytes_ok\<close>, \<open>honest\<close>, \<open>gives_up\<close>, \<open>decodes\<close>, \<open>uc_ok\<close>, \<open>env_ok\<close>, \<open>file_ok\<close>, ...

  \<^bold>\<open>Theories\<close>, in the order in which they build on each other:

  \<^item> \<open>Prelude\<close>: panics, errors, combinators and lemmas on lists that everything shares.  \<open>GoHeap\<close>: \<open>container/heap\<close> with the
    locale of its interface.  \<open>TopN\<close>: \<open>exec/topn.go\<close>.

  \<^item> \<open>SliceType\<close>: \<open>slicetype/\<close>, \<open>slicefunc/\<close>, \<open>typecheck/\<close>: types, their concatenation and the applicability of functions.
    \<open>Frame\<close>: \<open>frame/\<close> over a store of arrays: the frame invariant and, for each operation, the rows of its result and that other arrays
    keep their contents.

  \<^item> \<open>SliceIO\<close>: \<open>sliceio/reader.go\<close>, \<open>scanner.go\<close>.  The contract of a reader is the locale \<open>slice_reader\<close>: the rows it
    still delivers, the error it ends with, and a measure that makes every loop over it end.  All readers of the development are
    interpretations of it.  \<open>MultiReader\<close> concatenates, and closes each of its readers once.  \<open>Codec\<close>: \<open>codec.go\<close>, \<open>spiller.go\<close>: encoding, checksums, spill files; round trips.

  \<^item> \<open>SortIO\<close>: \<open>sortio/\<close>: external sort, heap merge and reducing reader.  \<open>Combiner\<close>, \<open>SpillCombiner\<close>: \<open>exec/combiner.go\<close>:
    the combining hash table, and the combiner that spills it and merges its runs; both give the reduction of the rows by key.  \<open>Cogroup\<close>: the reader of
    \<open>cogroup.go\<close>, which groups sorted inputs by key.

  \<^item> \<open>SliceOps\<close>: the readers of the slices (Map, Filter, Flatmap, Fold, Head, Scan, Reduce, ...), slice names, shards of
    constant slices and text scanning.  \<open>SliceCache\<close>: \<open>cache.go\<close>, \<open>internal/slicecache\<close>.

  \<^item> \<open>Task\<close>: \<open>exec/task.go\<close>: states, errors, waiting and broadcast with interleaved waiters, graph traversal.
    The states before \<open>TaskOk\<close> are also assigned without a broadcast, and so only waiters for \<open>TaskOk\<close> or later are sure to be woken.
    \<open>Eval\<close>: \<open>exec/eval.go\<close>: the evaluator's state, and \<open>Eval\<close> with its goroutines, the executor, losses and other evaluators,
    which start tasks and count their losses as well, as a step relation with its invariants: the evaluator never waits for a task that nobody runs.

  \<^item> \<open>Compile\<close>: \<open>exec/compile.go\<close>.  \<open>CompileGraph\<close>: the graphs it builds.  \<open>SliceGraph\<close>: the slice constructors with
    their checks, and that what they and the session build is well-formed for the compiler, provided that the arguments no constructor checks
    (some numbers of shards, the prefix of a cache) are sensible.  \<open>CompileCorrect\<close>: every compiled task computes the shard of the
    slice it was compiled from.

  \<^item> \<open>Local\<close>: \<open>exec/buffer.go\<close>, \<open>exec/local.go\<close>: buffered output and the local executor, which refines the meaning of tasks.

  \<^item> \<open>Store\<close>: \<open>exec/store.go\<close>: the locale \<open>task_store\<close> is the contract of a store (a map from tasks and partitions to bytes
    and record counts, with pending writers); the memory and the file store meet it.  \<open>Worker\<close>: the part of \<open>worker.Run\<close>
    that partitions, encodes and commits the output of a task.  \<open>WorkerCombine\<close>: \<open>runCombine\<close>, \<open>CommitCombiner\<close> and
    \<open>writeCombiner\<close>.  \<open>RemoteRead\<close>: \<open>retryReader\<close> and \<open>openerAtReader\<close>, through which stored output is read from another machine.

  \<^item> This theory: programs from end to end on the local executor.

  \<^bold>\<open>What is shown.\<close>  Each component has an invariant that its operations keep, and its functional behaviour.  The theorems that span
  components say that a program that is built, compiled and run on the local executor, in any order of runs and discards, delivers the rows that its
  slices mean (\<open>program_correct\<close>); that the evaluator completes every task it needs whatever is lost, and when it does not; and that what a
  worker stores, with or without a combiner, is what a remote reader gets back over a network that may fail at any time.  Some theorems
  prove that the code does not do what it means to: they are about the panics, lost rows and doubled values named in their text.

  \<^bold>\<open>Bounds and fuel.\<close>  \<open>function\<close> definitions terminate by a measure.  Loops over readers are partial functions, and it is
  proved that they return when the reader meets its contract.  The compiler recurses over slices with a depth argument, which
  is enough as soon as it exceeds the number of slices (\<open>compile_graph\<close>).  The combining table is shown for at most \<open>maxKeys\<close> distinct keys,
  the number at which the code itself panics.

  \<^bold>\<open>Not modelled.\<close>  The dispatch of tasks to machines (\<open>bigmachineExecutor\<close>, \<open>exec/slicemachine.go\<close>): it is goroutines and RPC
  calls of a library outside the repository; the evaluator is proved correct against any executor that meets its documented behaviour.  Sessions,
  status pages, traces and graphs for display (\<open>exec/session.go\<close>, \<open>exec/slicestatus.go\<close>, \<open>exec/tracer.go\<close>, \<open>exec/graph.go\<close>,
  \<open>metrics/\<close>, \<open>stats/\<close>) carry no data of a program.  Command-line tools (\<open>cmd/\<close>), test helpers (\<open>slicetest/\<close>) and generated
  code (\<open>frame/ops_builtin.go\<close>) are left out, and so are printers, logging and profiling.  Raw memory (\<open>frame/unsafe.go\<close>, \<open>internal/zero\<close>)
  has no counterpart in a typed store.

  \<^bold>\<open>Simplifications.\<close>  A run of a task on the local executor is one step, although runs overlap in the code; the executor
  takes part in an evaluation only by the states of tasks, and a discard is not a step of an evaluation unless it makes a task lost.  The bytes of an encoded message do not
  depend on earlier messages of the stream.  A write-through reader of a cache passes its rows on unchanged in the meaning of a task;
  its effect on the cache is shown for it alone.
\<close>

section \<open>Programs on the local executor\<close>

text \<open>What the readers of an executor deliver for the tasks \<open>ts\<close>.\<close>

definition delivers :: "(nat \<Rightarrow> 'v list taskBuffer option) \<Rightarrow> nat \<Rightarrow> 'v list list \<Rightarrow> bool" where
  "delivers bufs t xs \<longleftrightarrow> (\<forall>n>0. \<exists>r r'. local_Reader bufs t 0 = Ret r \<and> ReadAll lread n r [] = Some (Ret (r', xs, None)))"

text \<open>What the tasks of an invocation need from the code that they run.\<close>

definition runnable where
  "runnable L h cmb T A \<longleftrightarrow> 0 < le_chunk L \<and> (\<forall>t\<in>A. 0 < le_numOut L (ctType (h t)) \<and>
     part_ok (le_hash L) (ctPartitioner (h t)) (ctNumPartition (h t)) \<and> (\<forall>d\<in>set (tDeps (h t)). dep_combines L h cmb T d))"

text \<open>The outputs of the results that a program uses are in the buffers of the executor.\<close>

definition results_buffered where
  "results_buffered hash h0 n0 sl N R bufs \<longleftrightarrow> buffers_ok hash h0 R bufs \<and> (\<forall>u b. bufs u = Some b \<longrightarrow> u < n0) \<and>
     (\<forall>x<N. \<forall>tks. result_of sl x = Some tks \<longrightarrow> (\<forall>u\<in>set tks. bufs u \<noteq> None))"

lemma invocation_ready:
  fixes L :: "('v, 'u, 's) lenv"
  assumes "slices_ok h0 n0 sl N" and "s < N" and c: "cinv h0 n0 N sl c {}" "compiled_for n0 sl c {} s noPart ts"
    and "slice_values sl N rdr (split_rows (le_hash L)) concat cmb V" and "result_values sl N h0 V R" and "caches_ok sl N cache V" and "no_result_shuffle sl N"
  defines "T \<equiv> task_value n0 V R (heap c)" and "A \<equiv> {n0 ..< nextTask c}"
  assumes "runnable L (heap c) cmb T A" and "results_buffered (le_hash L) h0 n0 sl N R bufs"
  shows "\<forall>t\<in>A. task_ready L (heap c) rdr cache cmb T t" and "buffers_ok (le_hash L) (heap c) T bufs"
    and "\<forall>t\<in>A. \<forall>u\<in>set (succs (heap c) t). u \<in> A \<and> ctType (heap c u) < ctType (heap c t) \<or> bufs u \<noteq> None"
    and "map T ts = map (V s) [0 ..< nat (slNumShard (sl s))]"
    and "i < length ts \<Longrightarrow> ctNumPartition (heap c (ts ! i)) = 1 \<and> (ts ! i \<in> A \<or> bufs (ts ! i) \<noteq> None)"
proof -
  have "\<forall>x. concat [x] = (x :: 'v list list)" "\<forall>p x. split_rows (le_hash L) p 1 x 0 = x" by (simp_all add: split_rows_def part_rows_def)
  note ic = invocation_correct [OF assms(1,2) c assms(5-8) this, unfolded T_def [symmetric]]
  have ct: "compiled_task N n0 sl c {} t" if "t \<in> A" for t using c(1) that by (simp add: A_def cinv_def tasks_inv_def)
  have old: "\<forall>t<n0. heap c t = h0 t" using c(1) by (simp add: cinv_def tasks_inv_def)
  have res: "bufs u \<noteq> None" if "x < N" "result_of sl x = Some tks" "u \<in> set tks" for x tks u
    using that assms(12) unfolding results_buffered_def by blast
  note succ = compiled_succ [OF ic(1) ct]
  show "map T ts = map (V s) [0 ..< nat (slNumShard (sl s))]" using ic(3) by simp
  show "\<forall>t\<in>A. task_ready L (heap c) rdr cache cmb T t"
    using assms(11) succ ic(2) unfolding task_ready_def runnable_def dep_ready_def A_def by auto
  show "buffers_ok (le_hash L) (heap c) T bufs"
    using assms(12) old unfolding results_buffered_def buffers_ok_def T_def task_value_def by fastforce
  show "\<forall>t\<in>A. \<forall>u\<in>set (succs (heap c) t). u \<in> A \<and> ctType (heap c u) < ctType (heap c t) \<or> bufs u \<noteq> None"
  proof (intro ballI)
    fix t u assume t: "t \<in> A" "u \<in> set (succs (heap c) t)"
    then obtain d where "d \<in> set (tDeps (heap c t))" "u \<in> set (dep_tasks (heap c) d)" by (auto simp: succs_def)
    from succ [OF t(1) this] res show "u \<in> A \<and> ctType (heap c u) < ctType (heap c t) \<or> bufs u \<noteq> None" by (auto simp: A_def)
  qed
  assume i: "i < length ts"
  show "ctNumPartition (heap c (ts ! i)) = 1 \<and> (ts ! i \<in> A \<or> bufs (ts ! i) \<noteq> None)"
  proof (cases "result_of sl s")
    case (Some tks)
    then have "tks = ts" using c(2) by (simp add: compiled_for_def noPart_def)
    then show ?thesis using result_of_ok(2) [OF assms(1,2) Some] res [OF assms(2) Some] assms(2,6) Some i old nth_mem [OF i] by (simp add: result_values_def)
  next
    case None
    then show ?thesis using c(2) i by (simp add: A_def compiled_for_def noPart_def p_NumPartition_def)
  qed
qed

text \<open>
  C1.  A program on the local executor computes its slice.  Let \<open>s\<close> be a slice of a well-formed program, \<open>V\<close> a
  meaning of the slices that satisfies the equations of their readers, and \<open>ts\<close> the tasks that \<open>compile\<close>
  returns for \<open>s\<close>.  From an executor that holds the results of earlier invocations, the tasks can be run, in
  an order that respects dependencies, until all of \<open>ts\<close> have outputs; and after any such runs, in any
  order, with outputs discarded and recomputed in between, the reader of each task of \<open>ts\<close> that has an output
  delivers exactly the rows of its shard of \<open>s\<close>.
\<close>

theorem program_correct:
  fixes L :: "('v, 'u, 's) lenv"
  assumes "slices_ok h0 n0 sl N" and "s < N" and "s < k"
    and "compile_invocation k ix makeCompileEnv mc h0 n0 sl s = Some (Ret (c, Inr ts))"
    and "slice_values sl N rdr (split_rows (le_hash L)) concat cmb V" and "result_values sl N h0 V R" and "caches_ok sl N cache V" and "no_result_shuffle sl N"
    and "do_ok L rdr cache" and "runnable L (heap c) cmb (task_value n0 V R (heap c)) {n0 ..< nextTask c}"
    and "results_buffered (le_hash L) h0 n0 sl N R (leBuffers l0)"
  shows "(\<exists>l. (local_step L (heap c) {n0 ..< nextTask c})\<^sup>*\<^sup>* l0 l \<and> list_all2 (delivers (leBuffers l)) ts (map (V s) [0 ..< nat (slNumShard (sl s))])) \<and>
    (\<forall>l i. (local_step L (heap c) {n0 ..< nextTask c})\<^sup>*\<^sup>* l0 l \<and> i < length ts \<and> leBuffers l (ts ! i) \<noteq> None \<longrightarrow> delivers (leBuffers l) (ts ! i) (V s i))"
proof -
  obtain c' ts' where "compile_invocation k ix makeCompileEnv mc h0 n0 sl s = Some (Ret (c', Inr ts'))" "cinv h0 n0 N sl c' {}"
    "compiled_for n0 sl c' {} s noPart ts'" using invocation_spec [OF assms(1-3)] by blast
  then have c: "cinv h0 n0 N sl c {}" "compiled_for n0 sl c {} s noPart ts" using assms(4) by simp_all
  let ?A = "{n0 ..< nextTask c}" and ?T = "task_value n0 V R (heap c)"
  note rdy = invocation_ready [OF assms(1,2) c assms(5-8,10,11)]
  have len: "length ts = nat (slNumShard (sl s))" using c(2) by (simp add: compiled_for_def)
  have v: "?T (ts ! i) = V s i" if "i < length ts" for i using arg_cong [OF rdy(4), of "\<lambda>xs. xs ! i"] that len by simp
  have dl: "delivers (leBuffers l) (ts ! i) (V s i)" if st: "(local_step L (heap c) ?A)\<^sup>*\<^sup>* l0 l" and i: "i < length ts" and "leBuffers l (ts ! i) \<noteq> None" for l i
  proof -
    from that(3) obtain b where b: "leBuffers l (ts ! i) = Some b" by blast
    have "task_out (split_rows (le_hash L)) (heap c) ?T (ts ! i) 0 = V s i"
      using v [OF i] rdy(5) [OF i] by (simp add: task_out_def split_rows_def part_rows_def)
    then show ?thesis
      using local_Reader_rows [OF local_steps_ok [OF assms(9) rdy(1) st rdy(2)] b, of 0] rdy(5) [OF i] by (simp add: delivers_def)
  qed
  from local_complete [OF assms(9) rdy(1) _ rdy(3) rdy(2)] obtain l where
    l: "(local_step L (heap c) ?A)\<^sup>*\<^sup>* l0 l" "\<forall>t\<in>?A \<union> dom (leBuffers l0). leBuffers l t \<noteq> None" by auto
  have "delivers (leBuffers l) (ts ! i) (V s i)" if "i < length ts" for i using dl [OF l(1) that] rdy(5) [OF that] l(2) by blast
  then have "list_all2 (delivers (leBuffers l)) ts (map (V s) [0 ..< nat (slNumShard (sl s))])" using len by (simp add: list_all2_conv_all_nth)
  with l(1) dl show ?thesis by blast
qed

section \<open>An example\<close>

text \<open>The program of \<open>CompileCorrect\<close>, on rows: a constant, mapped, reshuffled and mapped again.\<close>

definition prg_rdr :: "nat \<Rightarrow> nat \<Rightarrow> int list list list \<Rightarrow> int list list go" where
  "prg_rdr s i ins = Ret (if s = 0 then [[10 * int i + 1], [10 * int i + 2]] else if s = 2 then concat ins else map (map (\<lambda>v. v + 1)) (concat ins))"

definition prg_V :: "nat \<Rightarrow> nat \<Rightarrow> int list list" where
  "prg_V s i = map (\<lambda>v. [v]) (ex_V s i)"

abbreviation prg_lenv :: "(int, unit, int list list) lenv" where
  "prg_lenv \<equiv> ex_lenv prg_rdr (\<lambda>_ _. Panic [])"

lemma prg_values: "slice_values ex_slices 4 prg_rdr (split_rows (\<lambda>r. of_int (hd r))) concat (\<lambda>f. concat) prg_V"
proof -
  have "\<forall>s\<in>{0, 1, 2, 3}. \<forall>i\<in>{0, 1}.
      prg_rdr s i (concat (map (slice_inputs ex_slices (split_rows (\<lambda>r. of_int (hd r))) concat (\<lambda>f. concat) prg_V s i) (slDeps (ex_slices s)))) = Ret (prg_V s i)"
    by code_simp
  moreover have "s \<in> {0, 1, 2, 3}" if "s < 4" for s :: nat using that by (auto simp: numeral_eq_Suc less_Suc_eq)
  moreover have "i \<in> {0, 1}" if "i < nat (slNumShard (ex_slices s))" for i s using that by (auto simp: ex_slices_def ex_slice_def split: if_splits)
  ultimately show ?thesis unfolding slice_values_def by blast
qed

lemma prg_tasks:
  "case run_example ex_slices 3 of None \<Rightarrow> False | Some (c, ts) \<Rightarrow> nextTask c = 4 \<and> ts = [0, 1] \<and>
     list_all (\<lambda>t. (case ctPartitioner (heap c t) of Some DefaultPartitioner \<Rightarrow> True | _ \<Rightarrow> False) \<and> 0 < ctNumPartition (heap c t) \<and> ctNumPartition (heap c t) \<le> 2 \<and>
       list_all (\<lambda>d. case dHead d of None \<Rightarrow> True | Some u \<Rightarrow> sfunc_IsNil (ctCombiner (heap c u))) (tDeps (heap c t))) [0, 1, 2, 3]"
  by code_simp

lemma prg_runnable:
  obtains c where "compile_invocation 4 1 makeCompileEnv False blank 0 ex_slices 3 = Some (Ret (c, Inr [0, 1]))" and "\<And>cmb T. runnable prg_lenv (heap c) cmb T {0 ..< nextTask c}"
proof -
  from prg_tasks obtain c where c: "run_example ex_slices 3 = Some (c, [0, 1])" "nextTask c = 4"
    "\<forall>t\<in>{0, 1, 2, 3}. (case ctPartitioner (heap c t) of Some DefaultPartitioner \<Rightarrow> True | _ \<Rightarrow> False) \<and> 0 < ctNumPartition (heap c t) \<and> ctNumPartition (heap c t) \<le> 2 \<and>
       list_all (\<lambda>d. case dHead d of None \<Rightarrow> True | Some u \<Rightarrow> sfunc_IsNil (ctCombiner (heap c u))) (tDeps (heap c t))"
    by (auto split: option.splits)
  have "part_ok h (ctPartitioner (heap c t)) (ctNumPartition (heap c t)) \<and> (\<forall>d\<in>set (tDeps (heap c t)). dep_combines prg_lenv (heap c) cmb T d)" if "t \<in> {0 ..< 4}" for t h cmb T
  proof -
    have "t \<in> {0, 1, 2, 3}" using that by auto
    from c(3) [rule_format, OF this] show ?thesis
      by (auto simp: dep_combines_def list_all_iff split: option.splits cpart.splits intro!: default_part_ok)
  qed
  then have "runnable prg_lenv (heap c) cmb T {0 ..< nextTask c}" for cmb T unfolding c(2) runnable_def by (simp add: ex_lenv_def)
  with run_exampleD [OF c(1)] show ?thesis by (rule that)
qed

theorem program_correct_witness:
  "\<exists>c l. compile_invocation 4 1 makeCompileEnv False blank 0 ex_slices 3 = Some (Ret (c, Inr [0, 1])) \<and>
     (local_step prg_lenv (heap c) {0 ..< nextTask c})\<^sup>*\<^sup>* idle l \<and> delivers (leBuffers l) 0 [[3], [13]] \<and> delivers (leBuffers l) 1 [[4], [14]]"
proof (rule prg_runnable)
  fix c :: "int compiler"
  assume c: "compile_invocation 4 1 makeCompileEnv False blank 0 ex_slices 3 = Some (Ret (c, Inr [0, 1]))"
    "\<And>cmb T. runnable prg_lenv (heap c) cmb T {0 ..< nextTask c}"
  have v: "slice_values ex_slices 4 prg_rdr (split_rows (le_hash prg_lenv)) concat (\<lambda>f. concat) prg_V" using prg_values by (simp add: ex_lenv_def)
  have n: "map (prg_V 3) [0 ..< nat (slNumShard (ex_slices 3))] = [[[3], [13]], [[4], [14]]]" by code_simp
  have r: "result_values ex_slices 4 blank prg_V (\<lambda>_. [])" "no_result_shuffle ex_slices 4" by (simp_all add: result_values_def no_result_shuffle_def ex_results)
  have b: "results_buffered (le_hash prg_lenv) blank 0 ex_slices 4 (\<lambda>_. []) (leBuffers idle)"
    by (simp add: results_buffered_def buffers_ok_def idle_def ex_results)
  from program_correct [OF ex_slices_ok _ _ c(1) v r(1) ex_caches r(2) ex_do_ok c(2) b] c(1) show ?thesis unfolding n by (auto simp: list_all2_Cons2)
qed

section \<open>Shuffling a result\<close>

text \<open>
  C29.  A result cannot be shuffled.  When a slice shuffles the result of an earlier invocation, \<open>compile\<close>
  inserts tasks that read the tasks of the result, but does not set their number of partitions.  The local
  executor, given the output of the result, fails to store their first row: the index into a buffer with no
  partitions panics, which \<open>bufferOutput\<close> turns into a fatal error, and the task ends as \<open>TaskErr\<close>.
\<close>

theorem result_shuffle_fails:
  assumes "slices_ok h0 n0 sl N" and "s < N" and "s < k"
    and "compile_invocation k ix makeCompileEnv mc h0 n0 sl s = Some (Ret (c, Inr ts))"
    and "n0 \<le> t" and "t < nextTask c" and "result_of sl (ctType (heap c t)) = Some tks" and "\<forall>u\<in>set tks. ctNumPartition (h0 u) = 1"
    and "do_ok L rdr cache" and "0 < le_chunk L" and "0 < le_numOut L (ctType (heap c t))" and "\<forall>msg. le_fatal L (ErrE [AFatal] (Some (ErrNew msg)))"
    and "buffers_ok (le_hash L) h0 R (leBuffers l)" and "\<forall>u\<in>set tks. u < n0 \<and> leBuffers l u \<noteq> None \<and> R u \<noteq> []"
    and "\<forall>u b. leBuffers l u = Some b \<longrightarrow> u < n0"
  shows "\<exists>l'. local_Run L (heap c) t l = Some (Ret l') \<and> rtState (rts (leTasks l') t) = TaskErr \<and> leBuffers l' = leBuffers l"
proof -
  obtain c' ts' where "compile_invocation k ix makeCompileEnv mc h0 n0 sl s = Some (Ret (c', Inr ts'))" "cinv h0 n0 N sl c' {}"
    using invocation_spec [OF assms(1-3)] by blast
  then have c: "cinv h0 n0 N sl c {}" using assms(4) by simp
  have old: "\<forall>t<n0. heap c t = h0 t" and ct: "compiled_task N n0 sl c {} t" using c assms(5,6) by (simp_all add: cinv_def tasks_inv_def)
  let ?s = "ctType (heap c t)" and ?i = "nShard (tName (heap c t))"
  from ct obtain part ts where ts: "?s < N" "compiled_for n0 sl c {} ?s part ts" "?i < length ts" "task_shape n0 sl c {} ?s ?i (heap c t)"
    unfolding compiled_task_def by blast
  define u where "u = tks ! ?i"
  define T where "T v = (if v < n0 then R v else [])" for v
  have u: "u \<in> set tks" using ts(2,3) result_of_ok(1) [OF assms(1) ts(1) assms(7)] by (simp add: u_def compiled_for_def)
  then have "u < n0" "leBuffers l u \<noteq> None" "R u \<noteq> []" "ctNumPartition (h0 u) = 1" using assms(8,14) by auto
  note hu = this
  let ?d = "\<lparr>dHead = Some u, dPartition = 0, dExpand = False, dCombineKey = []\<rparr>"
  have f: "ctDo (heap c t) = Some DoFirst" "tDeps (heap c t) = [?d]" "ctNumPartition (heap c t) = 0" using ts(4) assms(7) by (simp_all add: task_shape_def u_def)
  have g: "tGroup (heap c u) = []" "sfunc_IsNil (ctCombiner (heap c u))" using result_of_ok(2) [OF assms(1) ts(1) assms(7)] u old by auto
  have dt: "dep_tasks (heap c) ?d = [u]" using g(1) by (simp add: dep_tasks_def)
  have "dep_inputs (heap c) (task_out (split_rows (le_hash L)) (heap c) T) concat (\<lambda>f. concat) ?d = [R u]"
    using g(2) hu(1,4) old by (simp add: dep_inputs_def dt task_out_def split_rows_def part_rows_def T_def)
  moreover have "dep_ready L (heap c) (\<lambda>f. concat) T ?d" using hu(1,4) old g(2) by (simp add: dep_ready_def dep_combines_def dt)
  moreover have "buffers_ok (le_hash L) (heap c) T (leBuffers l)"
    using assms(13) old assms(15) unfolding buffers_ok_def T_def by fastforce
  ultimately show ?thesis
    using local_Run_none [where h = "heap c" and t = t and T = T and l = l and cmb = "\<lambda>f. concat" and xs = "R u", OF assms(9) _ assms(10,11) _ f(3,1)] f(2) hu dt assms(12) by simp
qed

definition res_heap :: "nat \<Rightarrow> int CTask" where
  "res_heap t = (if t < 2 then (blank t)\<lparr>ctPartitioner := Some DefaultPartitioner, ctNumPartition := 1\<rparr> else blank t)"

text \<open>A result of two shards, reshuffled.\<close>

definition res_slices :: "int slices" where
  "res_slices s = (if s = 0 then ex_slice (Result [0, 1]) ''result'' [] else ex_slice reshuffleSlice ''reshuffle'' [singleDep 0 True])"

definition res_compile :: "(int compiler \<times> nat list) option" where
  "res_compile = (case compile_invocation 2 1 makeCompileEnv False res_heap 2 res_slices 1 of Some (Ret (c, Inr ts)) \<Rightarrow> Some (c, ts) | _ \<Rightarrow> None)"

lemma res_tasks: "case res_compile of None \<Rightarrow> False | Some (c, ts) \<Rightarrow> nextTask c = 6 \<and> ctType (heap c 4) = 0"
  by code_simp

lemma res_slices_ok: "slices_ok res_heap 2 res_slices 2"
proof -
  have "base_ok ''result''" "base_ok ''reshuffle''" by code_simp+
  then have "slice_ok res_heap 2 res_slices s" if "s \<in> {0, 1}" for s
    using that by (auto simp: slice_ok_def res_slices_def ex_slice_def singleDep_def res_heap_def blank_def sfunc_IsNil_def sfunc_Nil_def)
  then show ?thesis by (simp add: slices_ok_def numeral_eq_Suc less_Suc_eq)
qed

theorem result_shuffle_fails_witness:
  "\<exists>c ts l'. compile_invocation 2 1 makeCompileEnv False res_heap 2 res_slices 1 = Some (Ret (c, Inr ts)) \<and>
     local_Run prg_lenv (heap c) 4 (idle\<lparr>leBuffers := (\<lambda>t. if t < 2 then Some [[[[7]]]] else None)\<rparr>) = Some (Ret l') \<and> rtState (rts (leTasks l') 4) = TaskErr"
proof -
  from res_tasks obtain c ts where c: "res_compile = Some (c, ts)" "nextTask c = 6" "ctType (heap c 4) = 0" by (auto split: option.splits)
  have ci: "compile_invocation 2 1 makeCompileEnv False res_heap 2 res_slices 1 = Some (Ret (c, Inr ts))"
    using c(1) by (simp add: res_compile_def split: option.splits go.splits sum.splits prod.splits)
  have "Unwrap res_slices 0 = Some 0" by (rule Unwrap_stop) (simp add: res_slices_def ex_slice_def)
  then have r: "result_of res_slices (ctType (heap c 4)) = Some [0, 1]" by (simp add: c(3) result_of_def res_slices_def ex_slice_def result_tasks_def)
  let ?l = "idle\<lparr>leBuffers := (\<lambda>t. if t < 2 then Some [[[[7]]]] else None)\<rparr>"
  have b: "buffers_ok (le_hash prg_lenv) res_heap (\<lambda>_. [[7]]) (leBuffers ?l)"
    by (auto simp: buffers_ok_def res_heap_def holds_def part_rows_def)
  have "\<exists>l'. local_Run prg_lenv (heap c) 4 ?l = Some (Ret l') \<and> rtState (rts (leTasks l') 4) = TaskErr \<and> leBuffers l' = leBuffers ?l"
    by (rule result_shuffle_fails [OF res_slices_ok _ _ ci _ _ r _ ex_do_ok _ _ _ b]) (simp_all add: c(2) ex_lenv_def res_heap_def split: if_splits)
  with ci show ?thesis by blast
qed

end
